(* ===== verification/Go_Errors.thy ===== *)
theory Go_Errors
  imports Main
begin

text \<open>
  The error values of the Go packages. A Go error is compared by identity, so each package-level
  \<^verbatim>\<open>errors.New\<close> value is a constructor: \<open>T_\<close> for \<^verbatim>\<open>common/types/errors.go\<close>, \<open>D_\<close> for
  \<^verbatim>\<open>pttdb/errors.go\<close>, \<open>S_\<close> for \<^verbatim>\<open>service/errors.go\<close>, \<open>M_\<close> for \<^verbatim>\<open>me/errors.go\<close> (two packages may
  use one name, as with \<^verbatim>\<open>ErrBusy\<close>, for different values). \<open>go_error\<close> joins them with the errors that
  come from outside the repository: LevelDB's \<^verbatim>\<open>ErrNotFound\<close> and its other failures (numbered, since the
  code only passes them on), raft's \<^verbatim>\<open>ErrSnapOutOfDate\<close>, and the failures of the JSON codec and of the cryptographic library.
\<close>

datatype (plugins only: code size) types_error =
    T_ErrInvalidID | T_ErrInvalidTimestamp | T_ErrInvalidBitVector
  | T_ErrLock | T_ErrUnlock | T_ErrClose | T_ErrLockClosed | T_ErrBusy | T_ErrInvalidLock
  | T_ErrInvalidURL | T_ErrAlreadyExists | T_ErrAlreadyDeleted | T_ErrAlreadyPending
  | T_ErrAlreadyPendingDelete | T_ErrInvalidNode | T_ErrNotImplemented | T_ErrNotBool
  | T_ErrNotBoolDAry | T_ErrInvalidStatus

datatype (plugins only: code size) pttdb_error =
    D_ErrInvalidPrefix | D_ErrInvalidDBable | D_ErrInvalidUpdateTS | D_ErrInvalidLock
  | D_ErrBusy | D_ErrInvalidKeys

datatype (plugins only: code size) service_error =
    S_ErrAlreadyPrestarted | S_ErrAlreadyStarted | S_ErrToClose | S_ErrClosed
  | S_ErrAlreadyRegistered | S_ErrNotRegistered | S_ErrPeerUserID
  | S_ErrEntityAlreadyRegistered | S_ErrEntityNotRegistered
  | S_ErrInit | S_ErrQuota | S_ErrNegativeSize | S_ErrInvalidKey
  | S_ErrMsgTooLarge | S_ErrFileTooLarge | S_ErrInvalidMaster0 | S_ErrServiceUnknown
  | S_ErrInvalidMsgCode | S_ErrInvalidMsg | S_ErrNotSent | S_ErrInvalidData
  | S_ErrInvalidObject | S_ErrTimeout | S_ErrInvalidEntity
  | S_ErrInvalidOp | S_ErrInvalidOplog | S_ErrOplogAlreadyExists | S_ErrSkipOplog
  | S_ErrNewerOplog | S_ErrInvalidPreLog | S_ErrNoValidOplogs | S_ErrInvalidKeyInfo
  | S_ErrNotFound | S_ErrNoPeer | S_ErrInvalidStatus | S_ErrBusy | S_ErrPeerRecentAdded
  | S_ErrAlreadyMyNode | S_ErrInvalidSyncInfo | S_ErrTooManyMasters | S_ErrInvalidBlock
  | S_ErrAlreadyPending | S_ErrNotAlive | S_ErrInvalidFunc | S_ErrInvalidMerkle

datatype (plugins only: code size) me_error =
    M_ErrInvalidMe | M_ErrInvalidNode | M_ErrInvalidPrivateKeyPostfix | M_ErrInvalidPrivateKey
  | M_ErrInvalidPrivateKeyFileHex | M_ErrInvalidPrivateKeyFile | M_ErrInvalidPrivateKeyHex
  | M_ErrAlreadyMyNode | M_ErrInvalidEntry | M_ErrInvalidRaftIndex | M_ErrUnableToBeLead | M_ErrWithLead

datatype (plugins only: code size) go_error =
    TypesError types_error
  | DbError pttdb_error
  | ServiceError service_error
  | MeError me_error
  | RaftErrSnapOutOfDate
  | LdbErrNotFound
  | LdbError nat
  | JsonError
  | CryptoError nat
  | OtherError nat

text \<open>
  The outcome of a call: it returns a value, it returns an error (with the other results nil),
  or it panics (an index out of range, a nil dereference, a division by zero).
\<close>

datatype 'a res = Ret 'a | Fail go_error | Panic

definition res_bind :: "'a res \<Rightarrow> ('a \<Rightarrow> 'b res) \<Rightarrow> 'b res" where
  "res_bind r f = (case r of Ret x \<Rightarrow> f x | Fail e \<Rightarrow> Fail e | Panic \<Rightarrow> Panic)"

lemma res_bind_simps [simp]:
  "res_bind (Ret x) f = f x"
  "res_bind (Fail e) f = Fail e"
  "res_bind Panic f = Panic"
  by (simp_all add: res_bind_def)

lemma res_bind_eq_Ret: "res_bind r f = Ret y \<longleftrightarrow> (\<exists>x. r = Ret x \<and> f x = Ret y)"
  by (cases r) auto

lemma res_bind_assoc: "res_bind (res_bind r f) g = res_bind r (\<lambda>x. res_bind (f x) g)"
  by (cases r) auto

text \<open>
  Calls in sequence on a state, with the early return on an error: \<open>st_bind\<close> runs the first call and,
  when it returns a value, the rest on the state it left.
\<close>

definition res_then :: "'a res \<Rightarrow> ('a \<Rightarrow> 's \<Rightarrow> 'b res \<times> 's) \<Rightarrow> 's \<Rightarrow> 'b res \<times> 's" where
  "res_then r f s = (case r of Ret x \<Rightarrow> f x s | Fail e \<Rightarrow> (Fail e, s) | Panic \<Rightarrow> (Panic, s))"

definition st_bind :: "('s \<Rightarrow> 'a res \<times> 's) \<Rightarrow> ('a \<Rightarrow> 's \<Rightarrow> 'b res \<times> 's) \<Rightarrow> 's \<Rightarrow> 'b res \<times> 's" where
  "st_bind c f s = (case c s of (r, s') \<Rightarrow> res_then r f s')"

lemma res_then_simps [simp]:
  "res_then (Ret x) f s = f x s"
  "res_then (Fail e) f s = (Fail e, s)"
  "res_then Panic f s = (Panic, s)"
  by (simp_all add: res_then_def)

lemma st_bind_run: "c s = (r, s') \<Longrightarrow> st_bind c f s = res_then r f s'"
  by (simp add: st_bind_def)

lemma st_bind_frame:
  assumes "g (snd (c s)) = g s" "\<And>x s. g (snd (f x s)) = g s"
  shows "g (snd (st_bind c f s)) = g s"
  using assms by (auto simp: st_bind_def res_then_def split: prod.splits res.splits)

end
