(* ===== verification/Prelude.thy ===== *)
theory Prelude
  imports Go_Errors "HOL-Library.Word" "HOL-Library.List_Lexorder"
begin

text \<open>
  What the components share: the machine types, byte strings in Go's order
  (\<^verbatim>\<open>bytes.Compare\<close> is the lexicographic order of \<open>HOL-Library.List_Lexorder\<close>), the
  fixed-width big-endian codecs of \<^verbatim>\<open>encoding/binary\<close>, \<^verbatim>\<open>sort.Search\<close>, \<^verbatim>\<open>copy\<close>, the wrap-around
  of \<^verbatim>\<open>int64\<close>, and the collections of rewrite rules the component proofs use.
\<close>

named_theorems codec_simps \<open>round trips and lengths of the binary codecs\<close>
named_theorems db_simps \<open>what the database operations do to the store and to the locks\<close>

type_synonym byte = "8 word"
type_synonym bytes = "byte list"
type_synonym u32 = "32 word"
type_synonym u64 = "64 word"

lemma unat_byte_bound: "unat (b :: byte) < 256"
  using unsigned_less [of b, where ?'a = nat] by simp

lemma unat_u32_bound: "unat (v :: u32) < 256 ^ 4"
  using unsigned_less [of v, where ?'a = nat] by simp

lemma unat_u64_bound: "unat (v :: u64) < 256 ^ 8"
  using unsigned_less [of v, where ?'a = nat] by simp

subsection \<open>Signed 64-bit arithmetic\<close>

definition i64 :: "int \<Rightarrow> int" where
  "i64 x = (x + 2 ^ 63) mod 2 ^ 64 - 2 ^ 63"

definition in_i64 :: "int \<Rightarrow> bool" where
  "in_i64 x \<longleftrightarrow> - (2 ^ 63) \<le> x \<and> x < 2 ^ 63"

lemma i64_id: "in_i64 x \<Longrightarrow> i64 x = x"
  by (simp add: i64_def in_i64_def)

lemma in_i64_i64 [simp]: "in_i64 (i64 x)"
proof -
  have "0 \<le> (x + 2 ^ 63) mod 2 ^ 64" "(x + 2 ^ 63) mod 2 ^ 64 < (2 ^ 64 :: int)"
    by simp_all
  then show ?thesis by (simp add: i64_def in_i64_def)
qed

text \<open>Go's \<^verbatim>\<open>/\<close> and \<^verbatim>\<open>%\<close> truncate towards zero.\<close>

definition go_rem :: "int \<Rightarrow> int \<Rightarrow> int" where
  "go_rem a b = (if 0 \<le> a then a mod \<bar>b\<bar> else - ((- a) mod \<bar>b\<bar>))"

lemma go_rem_nonneg: "0 \<le> a \<Longrightarrow> 0 < b \<Longrightarrow> go_rem a b = a mod b"
  by (simp add: go_rem_def)

subsection \<open>Lists\<close>

text \<open>\<^verbatim>\<open>copy(dst, src)\<close>: the first \<open>min\<close> of the lengths is overwritten.\<close>

definition copy_into :: "'a list \<Rightarrow> 'a list \<Rightarrow> 'a list" where
  "copy_into dst src = take (length dst) src @ drop (length src) dst"

lemma length_copy_into [simp]: "length (copy_into dst src) = length dst"
  by (simp add: copy_into_def)

lemma copy_into_same [simp]: "length src = length dst \<Longrightarrow> copy_into dst src = src"
  by (simp add: copy_into_def)

text \<open>\<^verbatim>\<open>b[i:j]\<close>, where the bounds are in range.\<close>

definition slice :: "nat \<Rightarrow> nat \<Rightarrow> 'a list \<Rightarrow> 'a list" where
  "slice i j xs = take (j - i) (drop i xs)"

lemma length_slice [simp]: "j \<le> length xs \<Longrightarrow> length (slice i j xs) = j - i"
  by (simp add: slice_def)

lemma slice_append_left: "j \<le> length xs \<Longrightarrow> slice i j (xs @ ys) = slice i j xs"
  by (simp add: slice_def)

lemma slice_append_right:
  "length xs \<le> i \<Longrightarrow> slice i j (xs @ ys) = slice (i - length xs) (j - length xs) ys"
proof -
  assume le: "length xs \<le> i"
  then have "j - length xs - (i - length xs) = j - i" by arith
  with le show ?thesis by (simp add: slice_def)
qed

lemma slice_full [simp]: "slice 0 (length xs) xs = xs"
  by (simp add: slice_def)

subsection \<open>The order of byte strings\<close>

lemma append_less_append_same [simp]: "(xs @ ys < xs @ zs) = (ys < (zs :: 'a :: linorder list))"
  by (induction xs) auto

lemma append_le_append_same [simp]: "(xs @ ys \<le> xs @ zs) = (ys \<le> (zs :: 'a :: linorder list))"
  by (simp add: le_less)

lemma append_less_append_eq_length:
  fixes xs ys :: "'a :: linorder list"
  assumes "length xs = length ys"
  shows "xs @ us < ys @ vs \<longleftrightarrow> xs < ys \<or> xs = ys \<and> us < vs"
  using assms by (induction xs ys rule: list_induct2) auto

lemma le_append_self [simp]: "(xs :: 'a :: linorder list) \<le> xs @ ys"
  by (induction xs) auto

subsection \<open>Big-endian codecs\<close>

primrec be_bytes :: "nat \<Rightarrow> nat \<Rightarrow> bytes" where
  "be_bytes 0 x = []"
| "be_bytes (Suc n) x = word_of_nat (x div 256 ^ n) # be_bytes n x"

definition be_val :: "bytes \<Rightarrow> nat" where
  "be_val bs = foldl (\<lambda>a b. a * 256 + unat b) 0 bs"

lemma length_be_bytes [simp]: "length (be_bytes n x) = n"
  by (induction n) auto

lemma foldl_be: "foldl (\<lambda>a (b :: byte). a * 256 + unat b) a bs =
    a * 256 ^ length bs + foldl (\<lambda>a b. a * 256 + unat b) 0 bs"
proof (induction bs arbitrary: a)
  case Nil
  then show ?case by simp
next
  case (Cons b bs)
  have "foldl (\<lambda>a b. a * 256 + unat b) a (b # bs) =
      (a * 256 + unat b) * 256 ^ length bs + foldl (\<lambda>a b. a * 256 + unat b) 0 bs"
    using Cons.IH [of "a * 256 + unat b"] by simp
  moreover have "foldl (\<lambda>a b. a * 256 + unat b) 0 (b # bs) =
      unat b * 256 ^ length bs + foldl (\<lambda>a b. a * 256 + unat b) 0 bs"
    using Cons.IH [of "unat b"] by simp
  ultimately show ?case by (simp add: algebra_simps)
qed

lemma be_val_Nil [simp]: "be_val [] = 0"
  by (simp add: be_val_def)

lemma be_val_Cons [simp]: "be_val (b # bs) = unat b * 256 ^ length bs + be_val bs"
  by (simp add: be_val_def) (metis foldl_be)

lemma be_val_bound: "be_val bs < 256 ^ length bs"
proof (induction bs)
  case Nil
  then show ?case by simp
next
  case (Cons b bs)
  have "unat b \<le> 255" using unat_byte_bound [of b] by simp
  then have "unat b * 256 ^ length bs \<le> 255 * 256 ^ length bs" by (rule mult_le_mono1)
  from this Cons.IH have "unat b * 256 ^ length bs + be_val bs < 255 * 256 ^ length bs + 256 ^ length bs"
    by (rule add_le_less_mono)
  then show ?case by simp
qed

lemma be_val_be_bytes: "be_val (be_bytes n x) = x mod 256 ^ n"
proof (induction n)
  case 0
  then show ?case by simp
next
  case (Suc n)
  have "unat (word_of_nat (x div 256 ^ n) :: byte) = x div 256 ^ n mod 256"
    by (simp add: unat_of_nat)
  then have "be_val (be_bytes (Suc n) x) = (x div 256 ^ n mod 256) * 256 ^ n + x mod 256 ^ n"
    using Suc.IH by simp
  also have "\<dots> = x mod (256 ^ n * 256)"
    using mod_mult2_eq [of x "256 ^ n" 256] by (simp add: mult.commute)
  finally show ?case by (simp add: mult.commute)
qed

lemma be_val_less_iff:
  assumes "length as = length bs"
  shows "be_val as < be_val bs \<longleftrightarrow> as < bs"
  using assms
proof (induction as bs rule: list_induct2)
  case Nil
  then show ?case by simp
next
  case (Cons a as b bs)
  let ?n = "256 ^ length bs :: nat"
  have bounds: "be_val as < ?n" "be_val bs < ?n"
    using be_val_bound [of as] be_val_bound [of bs] Cons.hyps by simp_all
  show ?case
  proof (cases a b rule: linorder_cases)
    case less
    then have "Suc (unat a) \<le> unat b" by (simp add: word_less_nat_alt Suc_le_eq)
    then have "Suc (unat a) * ?n \<le> unat b * ?n" by (rule mult_le_mono1)
    with bounds Cons.hyps less show ?thesis by simp
  next
    case equal
    with Cons show ?thesis by simp
  next
    case greater
    then have "Suc (unat b) \<le> unat a" by (simp add: word_less_nat_alt Suc_le_eq)
    then have "Suc (unat b) * ?n \<le> unat a * ?n" by (rule mult_le_mono1)
    with bounds Cons.hyps greater show ?thesis by auto
  qed
qed

lemma be_val_inj: "length as = length bs \<Longrightarrow> be_val as = be_val bs \<Longrightarrow> as = bs"
  using be_val_less_iff [of as bs] be_val_less_iff [of bs as] by auto

lemma be_bytes_be_val: "length bs = n \<Longrightarrow> be_bytes n (be_val bs) = bs"
  using be_val_bound [of bs] by (intro be_val_inj) (simp_all add: be_val_be_bytes)

lemma be_bytes_less_iff:
  "x < 256 ^ n \<Longrightarrow> y < 256 ^ n \<Longrightarrow> be_bytes n x < be_bytes n y \<longleftrightarrow> x < y"
  using be_val_less_iff [of "be_bytes n x" "be_bytes n y"] by (simp add: be_val_be_bytes)

lemma be_bytes_eq_iff:
  "x < 256 ^ n \<Longrightarrow> y < 256 ^ n \<Longrightarrow> be_bytes n x = be_bytes n y \<longleftrightarrow> x = y"
  by (metis be_val_be_bytes mod_less)

text \<open>\<^verbatim>\<open>binary.BigEndian\<close>: the getters panic on a slice that is too short.\<close>

definition PutUint64 :: "u64 \<Rightarrow> bytes" where
  "PutUint64 v = be_bytes 8 (unat v)"

definition PutUint32 :: "u32 \<Rightarrow> bytes" where
  "PutUint32 v = be_bytes 4 (unat v)"

definition Uint64 :: "bytes \<Rightarrow> u64 res" where
  "Uint64 b = (if length b < 8 then Panic else Ret (word_of_nat (be_val (take 8 b))))"

definition Uint32 :: "bytes \<Rightarrow> u32 res" where
  "Uint32 b = (if length b < 4 then Panic else Ret (word_of_nat (be_val (take 4 b))))"

lemma length_PutUint64 [simp, codec_simps]: "length (PutUint64 v) = 8"
  by (simp add: PutUint64_def)

lemma length_PutUint32 [simp, codec_simps]: "length (PutUint32 v) = 4"
  by (simp add: PutUint32_def)

lemma Uint64_PutUint64 [codec_simps]: "Uint64 (PutUint64 v @ bs) = Ret v"
  using unat_u64_bound [of v] by (simp add: Uint64_def PutUint64_def be_val_be_bytes)

lemma Uint32_PutUint32 [codec_simps]: "Uint32 (PutUint32 v @ bs) = Ret v"
  using unat_u32_bound [of v] by (simp add: Uint32_def PutUint32_def be_val_be_bytes)

lemmas Uint_roundtrips [codec_simps] =
  Uint64_PutUint64 [of _ "[]", simplified] Uint32_PutUint32 [of _ "[]", simplified]

lemma PutUint64_of_bytes: "length b = 8 \<Longrightarrow> PutUint64 (word_of_nat (be_val b)) = b"
  using be_val_bound [of b] by (simp add: PutUint64_def unat_of_nat be_bytes_be_val)

lemma PutUint64_less_iff [codec_simps]: "PutUint64 v < PutUint64 w \<longleftrightarrow> v < w"
  unfolding PutUint64_def word_less_nat_alt
  by (rule be_bytes_less_iff) (rule unat_u64_bound)+

lemma PutUint32_less_iff [codec_simps]: "PutUint32 v < PutUint32 w \<longleftrightarrow> v < w"
  unfolding PutUint32_def word_less_nat_alt
  by (rule be_bytes_less_iff) (rule unat_u32_bound)+

lemma PutUint64_inj [codec_simps]: "PutUint64 v = PutUint64 w \<longleftrightarrow> v = w"
  unfolding PutUint64_def be_bytes_eq_iff [OF unat_u64_bound unat_u64_bound] by (simp add: word_unat_eq_iff)

lemma PutUint32_inj [codec_simps]: "PutUint32 v = PutUint32 w \<longleftrightarrow> v = w"
  unfolding PutUint32_def be_bytes_eq_iff [OF unat_u32_bound unat_u32_bound] by (simp add: word_unat_eq_iff)

subsection \<open>sort.Search\<close>

text \<open>
  \<^verbatim>\<open>sort.Search(n, f)\<close>: binary search for the least index in \<open>[i, j)\<close> at which \<open>f\<close> holds,
  \<open>j\<close> if there is none.
\<close>

function go_search :: "(nat \<Rightarrow> bool) \<Rightarrow> nat \<Rightarrow> nat \<Rightarrow> nat" where
  "go_search f i j =
     (if i < j then
        (let h = (i + j) div 2
         in if f h then go_search f i h else go_search f (Suc h) j)
      else i)"
  by pat_completeness auto
termination
  by (relation "measure (\<lambda>(f, i, j). j - i)") auto

declare go_search.simps [simp del]

definition mono_pred :: "(nat \<Rightarrow> bool) \<Rightarrow> nat \<Rightarrow> bool" where
  "mono_pred f n \<longleftrightarrow> (\<forall>i j. i \<le> j \<longrightarrow> j < n \<longrightarrow> f i \<longrightarrow> f j)"

lemma go_search_correct:
  assumes "i \<le> j" "mono_pred f j"
  shows "i \<le> go_search f i j \<and> go_search f i j \<le> j \<and>
    (\<forall>k. i \<le> k \<longrightarrow> k < go_search f i j \<longrightarrow> \<not> f k) \<and>
    (\<forall>k. go_search f i j \<le> k \<longrightarrow> k < j \<longrightarrow> f k)"
  using assms
proof (induction f i j rule: go_search.induct)
  case (1 f i j)
  show ?case
  proof (cases "i < j")
    case False
    then have "go_search f i j = i" by (simp add: go_search.simps [of f i j])
    with False "1.prems" show ?thesis by simp
  next
    case True
    define h where "h = (i + j) div 2"
    have h: "i \<le> h" "h < j" using True by (simp_all add: h_def)
    show ?thesis
    proof (cases "f h")
      case True
      have eq: "go_search f i j = go_search f i h"
        using \<open>i < j\<close> True by (simp add: go_search.simps [of f i j] h_def Let_def)
      have "mono_pred f h" using "1.prems"(2) h by (auto simp: mono_pred_def)
      with "1.IH"(1) [OF \<open>i < j\<close> h_def True h(1)]
      have IH: "i \<le> go_search f i h" "go_search f i h \<le> h"
        "\<forall>k. i \<le> k \<longrightarrow> k < go_search f i h \<longrightarrow> \<not> f k"
        "\<forall>k. go_search f i h \<le> k \<longrightarrow> k < h \<longrightarrow> f k" by auto
      have "\<forall>k. h \<le> k \<longrightarrow> k < j \<longrightarrow> f k"
        using "1.prems"(2) True by (auto simp: mono_pred_def)
      with IH h show ?thesis unfolding eq by (meson le_trans less_imp_le not_le)
    next
      case False
      have eq: "go_search f i j = go_search f (Suc h) j"
        using \<open>i < j\<close> False by (simp add: go_search.simps [of f i j] h_def Let_def)
      have IH: "Suc h \<le> go_search f (Suc h) j" "go_search f (Suc h) j \<le> j"
        "\<forall>k. Suc h \<le> k \<longrightarrow> k < go_search f (Suc h) j \<longrightarrow> \<not> f k"
        "\<forall>k. go_search f (Suc h) j \<le> k \<longrightarrow> k < j \<longrightarrow> f k"
        using "1.IH"(2) [OF \<open>i < j\<close> h_def False] "1.prems"(2) h by auto
      have "\<forall>k. i \<le> k \<longrightarrow> k \<le> h \<longrightarrow> \<not> f k"
        using "1.prems"(2) False h by (auto simp: mono_pred_def)
      with IH h show ?thesis unfolding eq by (meson le_trans not_less_eq_eq Suc_leD not_le)
    qed
  qed
qed

lemma go_search_unique:
  assumes "mono_pred f n" "m \<le> n" "\<forall>k < m. \<not> f k" "\<forall>k. m \<le> k \<longrightarrow> k < n \<longrightarrow> f k"
  shows "go_search f 0 n = m"
proof -
  have c: "go_search f 0 n \<le> n" "\<forall>k. k < go_search f 0 n \<longrightarrow> \<not> f k"
    "\<forall>k. go_search f 0 n \<le> k \<longrightarrow> k < n \<longrightarrow> f k"
    using go_search_correct [OF le0 assms(1)] by auto
  show ?thesis
  proof (cases "go_search f 0 n" m rule: linorder_cases)
    case less
    with assms(2,3) c(3) show ?thesis by (metis less_le_trans order_refl)
  next
    case equal
    then show ?thesis .
  next
    case greater
    with assms(4) c(1,2) show ?thesis by (metis less_le_trans order_refl)
  qed
qed

end
