(* ===== verification/Common_Utils.thy ===== *)
theory Common_Utils
  imports Prelude "HOL-Library.Multiset"
begin

text \<open>
  The helpers of the package \<^verbatim>\<open>common\<close>: byte-slice concatenation, clearing, cloning, the saturating
  subtraction and the shuffle. A slice that may be nil is an \<open>option\<close>. \<^verbatim>\<open>Concat\<close> is modelled with
  its two loops (measure, then copy into the buffer) and shown equal to list concatenation, which
  every key of the database layers above is built from.
\<close>

subsection \<open>Definitions\<close>

fun Bzero :: "bytes \<Rightarrow> bytes" where
  "Bzero [] = []"
| "Bzero (b # curBuf) = 0 # Bzero curBuf"

definition CloneBytes :: "bytes \<Rightarrow> bytes" where
  "CloneBytes b = copy_into (replicate (length b) 0) b"

fun Concat_len :: "bytes option list \<Rightarrow> nat \<Rightarrow> nat" where
  "Concat_len [] totalLen = totalLen"
| "Concat_len (None # slices) totalLen = Concat_len slices totalLen"
| "Concat_len (Some s # slices) totalLen = Concat_len slices (totalLen + length s)"

fun Concat_copy :: "bytes \<Rightarrow> nat \<Rightarrow> bytes option list \<Rightarrow> bytes" where
  "Concat_copy tmp i [] = tmp"
| "Concat_copy tmp i (None # slices) = Concat_copy tmp i slices"
| "Concat_copy tmp i (Some s # slices) =
     Concat_copy (take i tmp @ copy_into (drop i tmp) s)
       (i + min (length (drop i tmp)) (length s)) slices"

definition Concat :: "bytes option list \<Rightarrow> bytes res" where
  "Concat slices = Ret (Concat_copy (replicate (Concat_len slices 0) 0) 0 slices)"

definition ConcatUnsafe :: "bytes option list \<Rightarrow> bytes" where
  "ConcatUnsafe slices = (case Concat slices of Ret b \<Rightarrow> b | _ \<Rightarrow> [])"

definition MaxInt :: "int \<Rightarrow> int \<Rightarrow> int" where
  "MaxInt a b = (if a > b then a else b)"

definition MinInt :: "int \<Rightarrow> int \<Rightarrow> int" where
  "MinInt a b = (if a < b then a else b)"

definition MaxUint64 :: "u64 \<Rightarrow> u64 \<Rightarrow> u64" where
  "MaxUint64 a b = (if a > b then a else b)"

definition Uint64Minus :: "u64 \<Rightarrow> u64 \<Rightarrow> u64" where
  "Uint64Minus a b = (if a < b then 0 else a - b)"

text \<open>
  \<^verbatim>\<open>Shuffle\<close> draws \<open>perm\<close> from \<^verbatim>\<open>rand.Perm(len(src))\<close>; the loop writes \<^verbatim>\<open>dest[perm[i]] = src[i]\<close>.
  \<open>dest\<close> starts out with nil interface values.
\<close>

fun Shuffle_loop :: "'a option list \<Rightarrow> nat list \<Rightarrow> 'a list \<Rightarrow> 'a option list res" where
  "Shuffle_loop dest (v # perm) (x # src) =
     (if v < length dest then Shuffle_loop (dest[v := Some x]) perm src else Panic)"
| "Shuffle_loop dest (v # perm) [] = Panic"
| "Shuffle_loop dest [] src = Ret dest"

definition Shuffle :: "nat list \<Rightarrow> 'a list \<Rightarrow> 'a option list res" where
  "Shuffle perm src = Shuffle_loop (replicate (length src) None) perm src"

subsection \<open>Lemmas\<close>

lemma Bzero_replicate: "Bzero buf = replicate (length buf) 0"
  by (induction buf) auto

lemma CloneBytes_id [simp]: "CloneBytes b = b"
  by (simp add: CloneBytes_def)

fun somes :: "'a option list \<Rightarrow> 'a list" where
  "somes [] = []"
| "somes (None # xs) = somes xs"
| "somes (Some x # xs) = x # somes xs"

lemma somes_map_Some [simp]: "somes (map Some xs) = xs"
  by (induction xs) auto

lemma Concat_len_eq: "Concat_len ss n = n + length (concat (somes ss))"
  by (induction ss n rule: Concat_len.induct) auto

lemma Concat_copy_eq:
  "length tmp = i + length (concat (somes ss)) \<Longrightarrow>
   Concat_copy tmp i ss = take i tmp @ concat (somes ss)"
proof (induction tmp i ss rule: Concat_copy.induct)
  case (3 tmp i s ss)
  let ?tmp = "take i tmp @ copy_into (drop i tmp) s"
  have len: "length (drop i tmp) = length s + length (concat (somes ss))"
    using "3.prems" by simp
  then have "Concat_copy ?tmp (i + length s) ss = take (i + length s) ?tmp @ concat (somes ss)"
    using "3.IH" "3.prems" by simp
  moreover have "take (i + length s) ?tmp = take i tmp @ s"
    using len "3.prems" by (simp add: copy_into_def)
  ultimately show ?case using len by simp
qed auto

lemma Concat_eq: "Concat ss = Ret (concat (somes ss))"
  by (simp add: Concat_def Concat_len_eq Concat_copy_eq)

lemma Concat_Some [simp]: "Concat (map Some ss) = Ret (concat ss)"
  by (simp add: Concat_eq)

lemma Concat_simps [simp]:
  "Concat [] = Ret []"
  "Concat [Some a] = Ret a"
  "Concat [Some a, Some b] = Ret (a @ b)"
  "Concat [Some a, Some b, Some c] = Ret (a @ b @ c)"
  "Concat [Some a, Some b, Some c, Some d] = Ret (a @ b @ c @ d)"
  "Concat [Some a, Some b, Some c, Some d, Some e] = Ret (a @ b @ c @ d @ e)"
  "Concat [Some a, Some b, Some c, Some d, Some e, Some f] = Ret (a @ b @ c @ d @ e @ f)"
  by (simp_all add: Concat_eq)

lemma MaxInt_max [simp]: "MaxInt a b = max a b"
  by (simp add: MaxInt_def max_def)

lemma MinInt_min [simp]: "MinInt a b = min a b"
  by (simp add: MinInt_def min_def)

lemma MaxUint64_max [simp]: "MaxUint64 a b = max a b"
  by (auto simp: MaxUint64_def max_def not_less not_le)

lemma unat_Uint64Minus: "unat (Uint64Minus a b) = unat a - unat b"
  by (auto simp: Uint64Minus_def word_less_nat_alt unat_sub_if_size split: if_splits)

lemma Shuffle_loop_mset:
  assumes "length perm = length src" "distinct perm" "\<forall>v \<in> set perm. v < length dest \<and> dest ! v = None"
  shows "\<exists>d. Shuffle_loop dest perm src = Ret d \<and> length d = length dest \<and>
    mset d + mset (replicate (length src) None) = mset dest + mset (map Some src)"
  using assms
proof (induction dest perm src rule: Shuffle_loop.induct)
  case (1 dest v perm x src)
  from "1.prems" have v: "v < length dest" "dest ! v = None" by auto
  have "\<forall>u \<in> set perm. u < length (dest[v := Some x]) \<and> dest[v := Some x] ! u = None"
    using "1.prems" by (auto simp: nth_list_update)
  with "1.IH" v "1.prems" obtain d where d: "Shuffle_loop (dest[v := Some x]) perm src = Ret d"
    "length d = length dest"
    "mset d + mset (replicate (length src) None) = mset (dest[v := Some x]) + mset (map Some src)"
    by auto
  have "None \<in># mset dest" using v by (metis nth_mem set_mset_mset)
  then have "mset (dest[v := Some x]) + {#None#} = mset dest + {#Some x#}"
    using v by (simp add: mset_update)
  then have "mset d + mset (replicate (length (x # src)) None) = mset dest + mset (map Some (x # src))"
    using d(3) by (simp add: union_assoc [symmetric])
  with d v show ?case by auto
qed auto

lemma Shuffle_perm:
  assumes "mset perm = mset [0..<length src]"
  shows "\<exists>d. Shuffle perm src = Ret d \<and> mset d = mset (map Some src)"
proof -
  have len: "length perm = length src" using assms mset_eq_length by fastforce
  have dist: "distinct perm" using assms by (metis distinct_upt mset_eq_imp_distinct_iff)
  have set: "set perm = {0..<length src}" using assms by (metis atLeast_upt mset_eq_setD set_upt)
  have "\<forall>v \<in> set perm. v < length (replicate (length src) None) \<and> replicate (length src) None ! v = None"
    using set by simp
  from Shuffle_loop_mset [OF len dist this] show ?thesis
    by (auto simp: Shuffle_def)
qed

end
