(* ===== verification/Timestamps.thy ===== *)
theory Timestamps
  imports Common_Utils
begin

text \<open>
  \<^verbatim>\<open>common/types/timestamp.go\<close>: the timestamps that order every operation log, their 12-byte
  encoding, and the hour, day, month and year buckets of the Merkle tree.

  \<^verbatim>\<open>Ts\<close> (an \<^verbatim>\<open>int64\<close>) is an \<open>int\<close> with the wrap-around \<open>i64\<close> written where the code adds;
  \<^verbatim>\<open>NanoTs\<close> is a 32-bit word. Go's \<^verbatim>\<open>time\<close> package is modelled by the proleptic Gregorian calendar
  on days since 1970-01-01 (\<open>year_start\<close>, \<open>year_of_day\<close>, \<open>month_of_doy\<close>), which is what
  \<^verbatim>\<open>Time.Date\<close>, \<^verbatim>\<open>time.Date\<close> and \<^verbatim>\<open>AddDate\<close> compute in UTC for every second count that the internal
  representation of \<^verbatim>\<open>time.Time\<close> holds. \<open>offs\<close> is the package variable \<^verbatim>\<open>OffsetSecond\<close>.
\<close>

subsection \<open>Definitions\<close>

record Timestamp =
  Ts :: int
  NanoTs :: u32

definition ts_ok :: "Timestamp \<Rightarrow> bool" where
  "ts_ok t \<longleftrightarrow> in_i64 (Ts t) \<and> NanoTs t < 1000000000"

definition mkTs :: "int \<Rightarrow> u32 \<Rightarrow> Timestamp" where
  "mkTs s n = \<lparr>Ts = s, NanoTs = n\<rparr>"

definition ZeroTimestamp :: Timestamp where
  "ZeroTimestamp = mkTs 0 0"

definition MaxTimestamp :: Timestamp where
  "MaxTimestamp = mkTs 99999999999999999 999999999"

definition TimeToTimestamp :: "int \<Rightarrow> int \<Rightarrow> u32 \<Rightarrow> Timestamp" where
  "TimeToTimestamp offs unix nanosecond = mkTs (i64 (unix + offs)) nanosecond"

definition ToMilli :: "Timestamp \<Rightarrow> Timestamp" where
  "ToMilli t = mkTs (Ts t) ((NanoTs t div 1000000) * 1000000)"

definition ToHRTimestamp :: "Timestamp \<Rightarrow> Timestamp \<times> Timestamp" where
  "ToHRTimestamp t =
     (let ts = i64 (Ts t - go_rem (Ts t) 3600) in (mkTs ts 0, mkTs (i64 (ts + 3600)) 0))"

definition ToDayTimestamp :: "Timestamp \<Rightarrow> Timestamp \<times> Timestamp" where
  "ToDayTimestamp t =
     (let ts = i64 (Ts t - go_rem (Ts t) 86400) in (mkTs ts 0, mkTs (i64 (ts + 86400)) 0))"

text \<open>The calendar of Go's \<^verbatim>\<open>time\<close> package, on days since 1970-01-01.\<close>

definition is_leap :: "int \<Rightarrow> bool" where
  "is_leap y \<longleftrightarrow> y mod 4 = 0 \<and> (y mod 100 \<noteq> 0 \<or> y mod 400 = 0)"

definition year_start :: "int \<Rightarrow> int" where
  "year_start y =
     365 * (y - 1) + (y - 1) div 4 - (y - 1) div 100 + (y - 1) div 400 - 719162"

definition year_of_day :: "int \<Rightarrow> int" where
  "year_of_day d =
     (let y = (400 * (d + 719162)) div 146097 + 1
      in if d < year_start y then y - 1 else if year_start (y + 1) \<le> d then y + 1 else y)"

definition days_before_month :: "int \<Rightarrow> nat \<Rightarrow> int" where
  "days_before_month y m =
     [0, 31, 59, 90, 120, 151, 181, 212, 243, 273, 304, 334] ! (m - 1)
     + (if is_leap y \<and> 2 < m then 1 else 0)"

fun month_search :: "int \<Rightarrow> int \<Rightarrow> nat \<Rightarrow> nat" where
  "month_search y doy 0 = 1"
| "month_search y doy (Suc m) =
     (if days_before_month y (Suc m) \<le> doy then Suc m else month_search y doy m)"

definition month_of_doy :: "int \<Rightarrow> int \<Rightarrow> nat" where
  "month_of_doy y doy = month_search y doy 12"

definition month_start :: "int \<Rightarrow> nat \<Rightarrow> int" where
  "month_start y m = year_start y + days_before_month y m"

text \<open>
  \<^verbatim>\<open>time.Unix(t.Ts, t.NanoTs)\<close> carries whole seconds out of the nanoseconds; the day is the
  floor of the seconds.
\<close>

definition time_day :: "Timestamp \<Rightarrow> int" where
  "time_day t = (Ts t + uint (NanoTs t) div 1000000000) div 86400"

definition ToMonthTimestamp :: "int \<Rightarrow> Timestamp \<Rightarrow> Timestamp \<times> Timestamp" where
  "ToMonthTimestamp offs t =
     (let d = time_day t;
          year = year_of_day d;
          month = month_of_doy year (d - year_start year);
          newTime = 86400 * month_start year month;
          newNextTime = 86400 * (if month = 12 then year_start (year + 1)
                                 else month_start year (month + 1))
      in (TimeToTimestamp offs newTime 0, TimeToTimestamp offs newNextTime 0))"

definition ToYearTimestamp :: "int \<Rightarrow> Timestamp \<Rightarrow> Timestamp \<times> Timestamp" where
  "ToYearTimestamp offs t =
     (let year = year_of_day (time_day t);
          newTime = 86400 * year_start year;
          newNextTime = 86400 * year_start (year + 1)
      in (TimeToTimestamp offs newTime 0, TimeToTimestamp offs newNextTime 0))"

definition IsEqMilli :: "Timestamp \<Rightarrow> Timestamp \<Rightarrow> bool" where
  "IsEqMilli t t2 \<longleftrightarrow> Ts t = Ts t2 \<and> NanoTs t div 1000000 = NanoTs t2 div 1000000"

definition Timestamp_Marshal :: "Timestamp \<Rightarrow> bytes" where
  "Timestamp_Marshal t = PutUint64 (word_of_int (Ts t)) @ PutUint32 (NanoTs t)"

definition NextHourTS :: "Timestamp \<Rightarrow> Timestamp" where
  "NextHourTS t = t\<lparr>Ts := i64 (Ts t + 3600)\<rparr>"

definition UnmarshalTimestamp :: "bytes \<Rightarrow> Timestamp res" where
  "UnmarshalTimestamp theBytes =
     (if length theBytes < 8 then Panic
      else res_bind (Uint64 (take 8 theBytes)) (\<lambda>ts.
        res_bind (Uint32 (drop 8 theBytes)) (\<lambda>nanoTs.
          if 1000000000 \<le> nanoTs then Fail (TypesError T_ErrInvalidTimestamp)
          else Ret (mkTs (sint ts) nanoTs))))"

definition IsEqual :: "Timestamp \<Rightarrow> Timestamp \<Rightarrow> bool" where
  "IsEqual t t2 \<longleftrightarrow> Ts t = Ts t2 \<and> NanoTs t = NanoTs t2"

definition IsLess :: "Timestamp \<Rightarrow> Timestamp \<Rightarrow> bool" where
  "IsLess t t2 =
     (if Ts t < Ts t2 then True
      else if Ts t > Ts t2 then False
      else if NanoTs t < NanoTs t2 then True
      else if NanoTs t > NanoTs t2 then False
      else False)"

definition IsLessEqual :: "Timestamp \<Rightarrow> Timestamp \<Rightarrow> bool" where
  "IsLessEqual t t2 =
     (if Ts t < Ts t2 then True
      else if Ts t > Ts t2 then False
      else if NanoTs t < NanoTs t2 then True
      else if NanoTs t > NanoTs t2 then False
      else True)"

definition MinTimestamp :: "Timestamp \<Rightarrow> Timestamp \<Rightarrow> Timestamp" where
  "MinTimestamp a b = (if IsLess a b then a else b)"

subsection \<open>Timestamps are linearly ordered\<close>

instantiation Timestamp_ext :: (linorder) linorder
begin

definition less_eq_Timestamp_ext :: "'a Timestamp_ext \<Rightarrow> 'a Timestamp_ext \<Rightarrow> bool" where
  "t \<le> u \<longleftrightarrow> Ts t < Ts u \<or> Ts t = Ts u \<and>
     (NanoTs t < NanoTs u \<or> NanoTs t = NanoTs u \<and> Timestamp.more t \<le> Timestamp.more u)"

definition less_Timestamp_ext :: "'a Timestamp_ext \<Rightarrow> 'a Timestamp_ext \<Rightarrow> bool" where
  "t < u \<longleftrightarrow> Ts t < Ts u \<or> Ts t = Ts u \<and>
     (NanoTs t < NanoTs u \<or> NanoTs t = NanoTs u \<and> Timestamp.more t < Timestamp.more u)"

instance
proof
  fix t u v :: "'a Timestamp_ext"
  show "t < u \<longleftrightarrow> t \<le> u \<and> \<not> u \<le> t"
    by (auto simp: less_eq_Timestamp_ext_def less_Timestamp_ext_def)
  show "t \<le> t" by (simp add: less_eq_Timestamp_ext_def)
  show "t \<le> u \<Longrightarrow> u \<le> v \<Longrightarrow> t \<le> v"
    by (auto simp: less_eq_Timestamp_ext_def)
  show "t \<le> u \<Longrightarrow> u \<le> t \<Longrightarrow> t = u"
    by (auto simp: less_eq_Timestamp_ext_def)
  show "t \<le> u \<or> u \<le> t"
    by (auto simp: less_eq_Timestamp_ext_def)
qed

end

lemma IsLess_less [simp]: "IsLess t u \<longleftrightarrow> t < u"
  by (auto simp: IsLess_def less_Timestamp_ext_def)

lemma IsLessEqual_le [simp]: "IsLessEqual t u \<longleftrightarrow> t \<le> u"
  by (auto simp: IsLessEqual_def less_eq_Timestamp_ext_def)

lemma IsEqual_eq [simp]: "IsEqual t u \<longleftrightarrow> t = u"
  by (auto simp: IsEqual_def)

lemma MinTimestamp_min: "MinTimestamp a b = min a b"
  by (auto simp: MinTimestamp_def min_def)

lemma mkTs_sel [simp]: "Ts (mkTs s n) = s" "NanoTs (mkTs s n) = n"
  by (simp_all add: mkTs_def)

lemma mkTs_eq_iff [simp]: "mkTs s n = mkTs s' n' \<longleftrightarrow> s = s' \<and> n = n'"
  by (simp add: mkTs_def)

lemma mkTs_collapse [simp]: "mkTs (Ts t) (NanoTs t) = t"
  by (simp add: mkTs_def)

lemma mkTs_less_iff: "mkTs s n < t \<longleftrightarrow> s < Ts t \<or> s = Ts t \<and> n < NanoTs t"
  by (simp add: less_Timestamp_ext_def)

lemma less_mkTs_iff: "t < mkTs s n \<longleftrightarrow> Ts t < s \<or> Ts t = s \<and> NanoTs t < n"
  by (simp add: less_Timestamp_ext_def)

lemma mkTs_le_iff: "mkTs s n \<le> t \<longleftrightarrow> s < Ts t \<or> s = Ts t \<and> n \<le> NanoTs t"
  by (auto simp: less_eq_Timestamp_ext_def)

lemma mkTs0_le_iff: "mkTs s 0 \<le> t \<longleftrightarrow> s \<le> Ts t"
  by (auto simp: mkTs_le_iff word_le_nat_alt)

lemma less_mkTs0_iff: "t < mkTs s 0 \<longleftrightarrow> Ts t < s"
  by (auto simp: less_mkTs_iff)

subsection \<open>The encoding\<close>

lemma length_Timestamp_Marshal [simp, codec_simps]: "length (Timestamp_Marshal t) = 12"
  by (simp add: Timestamp_Marshal_def)

lemma sint_word_of_int_i64: "in_i64 x \<Longrightarrow> sint (word_of_int x :: u64) = x"
  by (simp add: in_i64_def sint_sbintrunc' signed_take_bit_int_eq_self)

lemma Unmarshal_Marshal_Timestamp [codec_simps]:
  "ts_ok t \<Longrightarrow> UnmarshalTimestamp (Timestamp_Marshal t) = Ret t"
  by (auto simp: UnmarshalTimestamp_def Timestamp_Marshal_def ts_ok_def codec_simps
      sint_word_of_int_i64 not_le)

lemma UnmarshalTimestamp_append:
  "length b = 12 \<Longrightarrow> UnmarshalTimestamp (b @ bs) = UnmarshalTimestamp b"
  by (simp add: UnmarshalTimestamp_def Uint32_def)

lemma UnmarshalTimestamp_ok:
  assumes "UnmarshalTimestamp b = Ret t"
  shows "ts_ok t \<and> Timestamp_Marshal t = take 12 b"
proof -
  from assms have len: "12 \<le> length b"
    by (auto simp: UnmarshalTimestamp_def res_bind_eq_Ret Uint32_def split: if_splits)
  define x where "x = be_val (take 8 b)"
  define n where "n = be_val (take 4 (drop 8 b))"
  have x: "be_bytes 8 x = take 8 b" "x < 256 ^ 8"
    using len be_val_bound [of "take 8 b"] by (simp_all add: x_def be_bytes_be_val)
  have n: "be_bytes 4 n = take 4 (drop 8 b)" "n < 256 ^ 4"
    using len be_val_bound [of "take 4 (drop 8 b)"] by (simp_all add: n_def be_bytes_be_val)
  have t: "t = mkTs (sint (word_of_nat x :: u64)) (word_of_nat n)" "(word_of_nat n :: u32) < 1000000000"
    using assms len
    by (auto simp: UnmarshalTimestamp_def res_bind_eq_Ret Uint64_def Uint32_def x_def n_def not_le
        split: if_splits)
  have "in_i64 (sint (word_of_nat x :: u64))"
    using sint_ge [of "word_of_nat x :: u64"] sint_lt [of "word_of_nat x :: u64"]
    by (simp add: in_i64_def)
  moreover have "Timestamp_Marshal t = be_bytes 8 x @ be_bytes 4 n"
    using x(2) n(2) by (simp add: t Timestamp_Marshal_def PutUint64_def PutUint32_def unat_of_nat)
  moreover have "take 8 b @ take 4 (drop 8 b) = take 12 b"
    using take_add [of 8 4 b] by simp
  ultimately show ?thesis using x n t by (simp add: ts_ok_def)
qed

lemma Timestamp_Marshal_inj:
  "ts_ok t \<Longrightarrow> ts_ok u \<Longrightarrow> Timestamp_Marshal t = Timestamp_Marshal u \<longleftrightarrow> t = u"
  by (metis Unmarshal_Marshal_Timestamp res.inject(1))

lemma word_of_int_less_i64:
  "0 \<le> x \<Longrightarrow> 0 \<le> y \<Longrightarrow> in_i64 x \<Longrightarrow> in_i64 y \<Longrightarrow> (word_of_int x :: u64) < word_of_int y \<longleftrightarrow> x < y"
  by (simp add: word_less_def uint_word_of_int in_i64_def)

lemma word_of_int_eq_i64:
  "in_i64 x \<Longrightarrow> in_i64 y \<Longrightarrow> (word_of_int x :: u64) = word_of_int y \<longleftrightarrow> x = y"
  by (metis sint_word_of_int_i64)

text \<open>The order of the encodings is the order of the times, from the epoch on.\<close>

lemma Timestamp_Marshal_less_iff:
  assumes "0 \<le> Ts t" "0 \<le> Ts u" "in_i64 (Ts t)" "in_i64 (Ts u)"
  shows "Timestamp_Marshal t < Timestamp_Marshal u \<longleftrightarrow> t < u"
  using assms
  by (auto simp: Timestamp_Marshal_def append_less_append_eq_length codec_simps less_Timestamp_ext_def
      word_of_int_less_i64 word_of_int_eq_i64)

lemma Timestamp_Marshal_le_iff:
  assumes "0 \<le> Ts t" "0 \<le> Ts u" "in_i64 (Ts t)" "in_i64 (Ts u)"
  shows "Timestamp_Marshal t \<le> Timestamp_Marshal u \<longleftrightarrow> t \<le> u"
  using Timestamp_Marshal_less_iff [of u t] assms by (simp add: not_less [symmetric])

subsection \<open>The calendar\<close>

lemma year_start_error:
  "400 * (year_start (k + 1) + 719162) =
   146097 * k - 100 * (k mod 4) + 4 * (k mod 100) - k mod 400"
proof -
  have "4 * (k div 4) = k - k mod 4" "100 * (k div 100) = k - k mod 100"
    "400 * (k div 400) = k - k mod 400"
    by (simp_all add: minus_mod_eq_mult_div)
  then show ?thesis by (simp add: year_start_def)
qed

lemma year_start_bounds:
  "146097 * k - 699 \<le> 400 * (year_start (k + 1) + 719162)"
  "400 * (year_start (k + 1) + 719162) \<le> 146097 * k + 396"
proof -
  have "0 \<le> k mod 4" "k mod 4 \<le> 3" "0 \<le> k mod 100" "k mod 100 \<le> 99" "0 \<le> k mod 400"
    "k mod 400 \<le> 399"
    using pos_mod_bound [of 4 k] pos_mod_bound [of 100 k] pos_mod_bound [of 400 k] by auto
  then show "146097 * k - 699 \<le> 400 * (year_start (k + 1) + 719162)"
    "400 * (year_start (k + 1) + 719162) \<le> 146097 * k + 396"
    unfolding year_start_error by linarith+
qed

lemma year_of_day_bounds:
  "year_start (year_of_day d) \<le> d" "d < year_start (year_of_day d + 1)"
proof -
  define k where "k = (400 * (d + 719162)) div 146097"
  have k: "146097 * k \<le> 400 * (d + 719162)" "400 * (d + 719162) < 146097 * k + 146097"
    unfolding k_def using pos_mod_bound [of 146097 "400 * (d + 719162)"]
    by (simp_all add: minus_mod_eq_mult_div [symmetric])
  have lo: "year_start (k + 0) \<le> d"
    using year_start_bounds(2) [of "k - 1"] k(1) by simp
  have hi: "d < year_start (k + 3)"
    using year_start_bounds(1) [of "k + 2"] k(2) by (simp add: add.commute)
  have y: "year_of_day d = (if d < year_start (k + 1) then k
      else if year_start (k + 2) \<le> d then k + 2 else k + 1)"
    by (simp add: year_of_day_def k_def Let_def add.commute)
  show "year_start (year_of_day d) \<le> d" "d < year_start (year_of_day d + 1)"
    using lo hi by (auto simp: y add.commute not_le not_less)
qed

lemma div_step: "0 < n \<Longrightarrow> (k :: int) div n - (k - 1) div n = (if k mod n = 0 then 1 else 0)"
proof -
  assume n: "0 < n"
  have eq: "k = n * (k div n) + k mod n" by simp
  have r: "0 \<le> k mod n" "k mod n < n" using n by simp_all
  show ?thesis
  proof (cases "k mod n = 0")
    case True
    have "(k - 1) div n = k div n - 1"
      by (rule int_div_pos_eq [where r = "n - 1"]) (use eq True n in \<open>simp_all add: algebra_simps\<close>)
    with True show ?thesis by simp
  next
    case False
    have "(k - 1) div n = k div n"
      by (rule int_div_pos_eq [where r = "k mod n - 1"]) (use eq False r in \<open>simp_all add: algebra_simps\<close>)
    with False show ?thesis by simp
  qed
qed

lemma year_length: "year_start (y + 1) = year_start y + (if is_leap y then 366 else 365)"
proof -
  define b4 b100 b400 where b: "b4 \<longleftrightarrow> y mod 4 = 0" "b100 \<longleftrightarrow> y mod 100 = 0" "b400 \<longleftrightarrow> y mod 400 = 0"
  define q4 q100 q400 where q: "q4 = y div 4 - (y - 1) div 4"
    "q100 = y div 100 - (y - 1) div 100" "q400 = y div 400 - (y - 1) div 400"
  have imp: "b400 \<Longrightarrow> b100" "b100 \<Longrightarrow> b4"
    using mod_mod_cancel [of 100 400 y] mod_mod_cancel [of 4 100 y] by (auto simp: b)
  have steps: "q4 = (if b4 then 1 else 0)" "q100 = (if b100 then 1 else 0)"
    "q400 = (if b400 then 1 else 0)"
    unfolding q b by (rule div_step, simp)+
  have "year_start (y + 1) - year_start y = 365 + q4 - q100 + q400"
    by (simp add: q year_start_def)
  moreover have "is_leap y \<longleftrightarrow> b4 \<and> (\<not> b100 \<or> b400)"
    by (simp add: is_leap_def b)
  ultimately show ?thesis using imp unfolding steps by (simp split: if_splits)
qed

lemma year_start_strict_mono: "y < z \<Longrightarrow> year_start y < year_start z"
proof (induction "nat (z - y)" arbitrary: z)
  case 0
  then show ?case by simp
next
  case (Suc n)
  have step: "year_start (z - 1) < year_start z"
    using year_length [of "z - 1"] by (simp split: if_splits)
  show ?case
  proof (cases "y = z - 1")
    case True
    with step show ?thesis by simp
  next
    case False
    with Suc have "year_start y < year_start (z - 1)" by simp
    with step show ?thesis by simp
  qed
qed

lemma year_of_day_unique:
  assumes "year_start y \<le> d" "d < year_start (y + 1)"
  shows "year_of_day d = y"
proof (rule antisym)
  show "year_of_day d \<le> y"
    using year_start_strict_mono [of "y + 1" "year_of_day d"] year_of_day_bounds(1) [of d] assms(2)
    by (cases "y + 1 = year_of_day d") force+
  show "y \<le> year_of_day d"
    using year_start_strict_mono [of "year_of_day d + 1" y] year_of_day_bounds(2) [of d] assms(1)
    by (cases "year_of_day d + 1 = y") force+
qed

lemma month_cases: "1 \<le> m \<Longrightarrow> m \<le> 12 \<Longrightarrow> m \<in> {1, 2, 3, 4, 5, 6, 7, 8, 9, 10, 11, 12 :: nat}"
  by (simp, arith)

lemma days_before_month_1 [simp]: "days_before_month y 1 = 0" "days_before_month y (Suc 0) = 0"
  by (simp_all add: days_before_month_def)

lemma days_before_month_step:
  "1 \<le> m \<Longrightarrow> m < 12 \<Longrightarrow> days_before_month y m < days_before_month y (Suc m)"
  using month_cases [of m] by (auto simp: days_before_month_def)

lemma days_before_month_12: "days_before_month y 12 < (if is_leap y then 366 else 365)"
  by (simp add: days_before_month_def)

lemma days_before_month_mono:
  "1 \<le> m \<Longrightarrow> m \<le> n \<Longrightarrow> n \<le> 12 \<Longrightarrow> days_before_month y m \<le> days_before_month y n"
proof (induction n)
  case (Suc n)
  then show ?case using days_before_month_step [of n y] by (cases "m = Suc n") auto
qed simp

lemma month_search_correct:
  assumes "0 \<le> doy"
  shows "1 \<le> month_search y doy n \<and> month_search y doy n \<le> max 1 n \<and>
    days_before_month y (month_search y doy n) \<le> doy \<and>
    (month_search y doy n < n \<longrightarrow> doy < days_before_month y (Suc (month_search y doy n)))"
  using assms
proof (induction n)
  case (Suc n)
  show ?case
  proof (cases "days_before_month y (Suc n) \<le> doy")
    case False
    then show ?thesis using Suc by (cases "month_search y doy n < n") (auto simp: less_Suc_eq_le)
  qed simp
qed simp

definition month_next :: "int \<Rightarrow> nat \<Rightarrow> int" where
  "month_next y m = (if m = 12 then year_start (y + 1) else month_start y (m + 1))"

lemma month_of_doy_bounds:
  assumes "year_start y \<le> d" "d < year_start (y + 1)"
  defines "m \<equiv> month_of_doy y (d - year_start y)"
  shows "1 \<le> m" "m \<le> 12" "month_start y m \<le> d" "d < month_next y m"
  using month_search_correct [of "d - year_start y" y 12] assms
  by (auto simp: month_of_doy_def month_start_def month_next_def)

lemma month_start_ge: "1 \<le> m \<Longrightarrow> m \<le> 12 \<Longrightarrow> year_start y \<le> month_start y m"
  using days_before_month_mono [of 1 m y] by (simp add: month_start_def)

lemma month_next_le: "1 \<le> m \<Longrightarrow> m \<le> 12 \<Longrightarrow> month_next y m \<le> year_start (y + 1)"
  using days_before_month_mono [of "Suc m" 12 y] days_before_month_12 [of y] year_length [of y]
  by (auto simp: month_next_def month_start_def split: if_splits)

lemma month_of_doy_unique:
  assumes m: "1 \<le> m" "m \<le> 12" and d: "month_start y m \<le> d" "d < month_next y m"
  shows "month_of_doy y (d - year_start y) = m"
proof -
  have y: "year_start y \<le> d" "d < year_start (y + 1)"
    using month_start_ge [OF m] month_next_le [OF m] d by (auto intro: order_trans less_le_trans)
  let ?n = "month_of_doy y (d - year_start y)"
  note n = month_of_doy_bounds [OF y]
  show ?thesis
  proof (cases ?n m rule: linorder_cases)
    case less
    then have "month_next y ?n \<le> month_start y m"
      using days_before_month_mono [of "Suc ?n" m y] m n by (simp add: month_next_def month_start_def)
    with d n show ?thesis by simp
  next
    case equal
    then show ?thesis .
  next
    case greater
    then have "month_next y m \<le> month_start y ?n"
      using days_before_month_mono [of "Suc m" ?n y] m n by (simp add: month_next_def month_start_def)
    with d n show ?thesis by simp
  qed
qed

subsection \<open>Time buckets\<close>

text \<open>
  What the Merkle tree needs of a bucket function: it maps a time to the half-open interval the
  time lies in, and every time of that interval to the same interval. \<open>ts_dom\<close> is where the four
  functions are used: times from the epoch on (the remainder of a negative time is negative, see
  below), with proper nanoseconds, and far enough from the end of \<^verbatim>\<open>int64\<close>.
\<close>

definition ts_dom :: "Timestamp \<Rightarrow> bool" where
  "ts_dom t \<longleftrightarrow> 0 \<le> Ts t \<and> Ts t < 2 ^ 62 \<and> NanoTs t < 1000000000"

lemma ts_dom_ok: "ts_dom t \<Longrightarrow> ts_ok t"
  by (simp add: ts_dom_def ts_ok_def in_i64_def)

locale time_bucket =
  fixes bucket :: "Timestamp \<Rightarrow> Timestamp \<times> Timestamp"
  assumes bucket_start: "ts_dom t \<Longrightarrow> fst (bucket t) \<le> t"
    and bucket_next: "ts_dom t \<Longrightarrow> t < snd (bucket t)"
    and bucket_dom: "ts_dom t \<Longrightarrow> ts_dom (fst (bucket t))"
    and bucket_eq: "ts_dom t \<Longrightarrow> ts_dom u \<Longrightarrow> fst (bucket t) \<le> u \<Longrightarrow> u < snd (bucket t) \<Longrightarrow>
      bucket u = bucket t"
begin

lemma bucket_of_start: "ts_dom t \<Longrightarrow> bucket (fst (bucket t)) = bucket t"
  using bucket_start [of t] bucket_next [of t] bucket_dom [of t]
  by (intro bucket_eq) auto

lemma bucket_separated:
  assumes "ts_dom t" "ts_dom u" "t < u" "bucket t \<noteq> bucket u"
  shows "snd (bucket t) \<le> fst (bucket u)"
proof (rule ccontr)
  assume "\<not> snd (bucket t) \<le> fst (bucket u)"
  then have lt: "fst (bucket u) < snd (bucket t)" by simp
  show False
  proof (cases "fst (bucket t) \<le> fst (bucket u)")
    case True
    then have "bucket (fst (bucket u)) = bucket t"
      using assms lt bucket_dom by (intro bucket_eq) auto
    with assms(2,4) show False by (simp add: bucket_of_start)
  next
    case False
    then have "bucket t = bucket u"
      using assms bucket_start [of t] bucket_next [of u]
      by (intro bucket_eq) (auto intro: order_trans less_trans)
    with assms(4) show False by simp
  qed
qed

lemma bucket_mono: "ts_dom t \<Longrightarrow> ts_dom u \<Longrightarrow> t \<le> u \<Longrightarrow> fst (bucket t) \<le> fst (bucket u)"
proof -
  assume t: "ts_dom t" and u: "ts_dom u" and le: "t \<le> u"
  show ?thesis
  proof (cases "bucket t = bucket u")
    case False
    with le have "t < u" by (cases "t = u") auto
    then have "snd (bucket t) \<le> fst (bucket u)" using bucket_separated t u False by blast
    with bucket_start [OF t] bucket_next [OF t] show ?thesis by simp
  qed simp
qed

end

text \<open>One bucket function refines another when its interval lies inside the other's.\<close>

locale nested_bucket = fine: time_bucket fine + coarse: time_bucket coarse
  for fine coarse :: "Timestamp \<Rightarrow> Timestamp \<times> Timestamp" +
  assumes nested: "ts_dom t \<Longrightarrow>
    fst (coarse t) \<le> fst (fine t) \<and> snd (fine t) \<le> snd (coarse t)"
begin

lemma coarse_of_fine_start: "ts_dom t \<Longrightarrow> coarse (fst (fine t)) = coarse t"
  using nested [of t] fine.bucket_start [of t] coarse.bucket_next [of t] fine.bucket_dom [of t]
  by (intro coarse.bucket_eq) auto

end

lemma floor_bucket:
  fixes s n x y :: int
  assumes "0 < n" "x - x mod n \<le> y" "y < x - x mod n + n"
  shows "y - y mod n = x - x mod n"
proof -
  have "y div n = x div n"
    using assms by (intro int_div_pos_eq [where r = "y - (x - x mod n)"])
      (simp_all add: minus_mod_eq_mult_div)
  then show ?thesis by (simp add: minus_mod_eq_mult_div)
qed

lemma mod_bounds: "0 < (n :: int) \<Longrightarrow> 0 \<le> x \<Longrightarrow> 0 \<le> x - x mod n \<and> x - x mod n \<le> x \<and> x < x - x mod n + n"
proof -
  assume "0 < n" "0 \<le> x"
  then have "0 \<le> x mod n" "x mod n < n" "x mod n \<le> x"
    by (simp_all add: zmod_le_nonneg_dividend)
  then show ?thesis by linarith
qed

lemma i64_floor:
  assumes "0 < n" "n \<le> 86400" "0 \<le> x" "x < 2 ^ 62"
  shows "i64 (x - go_rem x n) = x - x mod n" "i64 (x - x mod n + n) = x - x mod n + n"
proof -
  define q where "q = x - x mod n"
  have "0 \<le> q" "q \<le> x" unfolding q_def using mod_bounds [of n x] assms by blast+
  with assms have "in_i64 q" "in_i64 (q + n)" by (simp_all add: in_i64_def)
  then show "i64 (x - go_rem x n) = x - x mod n" "i64 (x - x mod n + n) = x - x mod n + n"
    using assms by (simp_all add: go_rem_nonneg i64_id flip: q_def)
qed

lemma ToHR_eq:
  "ts_dom t \<Longrightarrow> ToHRTimestamp t = (mkTs (Ts t - Ts t mod 3600) 0, mkTs (Ts t - Ts t mod 3600 + 3600) 0)"
  by (simp add: ToHRTimestamp_def ts_dom_def Let_def i64_floor)

lemma ToDay_eq:
  "ts_dom t \<Longrightarrow> ToDayTimestamp t = (mkTs (Ts t - Ts t mod 86400) 0, mkTs (Ts t - Ts t mod 86400 + 86400) 0)"
  by (simp add: ToDayTimestamp_def ts_dom_def Let_def i64_floor)

interpretation hr_bucket: time_bucket ToHRTimestamp
proof
  fix t u assume t: "ts_dom t"
  note b = mod_bounds [of 3600 "Ts t"]
  show "fst (ToHRTimestamp t) \<le> t" "t < snd (ToHRTimestamp t)" "ts_dom (fst (ToHRTimestamp t))"
    using t b by (auto simp: ToHR_eq mkTs0_le_iff less_mkTs0_iff ts_dom_def)
  assume u: "ts_dom u" and "fst (ToHRTimestamp t) \<le> u" "u < snd (ToHRTimestamp t)"
  then have "Ts u - Ts u mod 3600 = Ts t - Ts t mod 3600"
    using t by (intro floor_bucket) (auto simp: ToHR_eq mkTs0_le_iff less_mkTs0_iff)
  then show "ToHRTimestamp u = ToHRTimestamp t"
    using t u by (simp add: ToHR_eq)
qed

interpretation day_bucket: time_bucket ToDayTimestamp
proof
  fix t u assume t: "ts_dom t"
  note b = mod_bounds [of 86400 "Ts t"]
  show "fst (ToDayTimestamp t) \<le> t" "t < snd (ToDayTimestamp t)" "ts_dom (fst (ToDayTimestamp t))"
    using t b by (auto simp: ToDay_eq mkTs0_le_iff less_mkTs0_iff ts_dom_def)
  assume u: "ts_dom u" and "fst (ToDayTimestamp t) \<le> u" "u < snd (ToDayTimestamp t)"
  then have "Ts u - Ts u mod 86400 = Ts t - Ts t mod 86400"
    using t by (intro floor_bucket) (auto simp: ToDay_eq mkTs0_le_iff less_mkTs0_iff)
  then show "ToDayTimestamp u = ToDayTimestamp t"
    using t u by (simp add: ToDay_eq)
qed

lemma time_day_dom: "ts_dom t \<Longrightarrow> time_day t = Ts t div 86400"
proof -
  assume "ts_dom t"
  then have "uint (NanoTs t) < 1000000000" by (simp add: ts_dom_def word_less_def)
  then show ?thesis by (simp add: time_day_def)
qed

lemma year_start_epoch: "year_start 1970 = 0"
  by (simp add: year_start_def)

lemma year_of_day_epoch: "0 \<le> d \<Longrightarrow> 1970 \<le> year_of_day d"
proof (rule ccontr)
  assume d: "0 \<le> d" and "\<not> 1970 \<le> year_of_day d"
  then have "year_start (year_of_day d + 1) \<le> year_start 1970"
    using year_start_strict_mono [of "year_of_day d + 1" 1970] by (cases "year_of_day d + 1 = 1970") auto
  with d year_of_day_bounds(2) [of d] show False by (simp add: year_start_epoch)
qed

lemma year_start_nonneg: "0 \<le> d \<Longrightarrow> 0 \<le> year_start (year_of_day d)"
  using year_of_day_epoch [of d] year_start_strict_mono [of 1970 "year_of_day d"]
  by (cases "year_of_day d = 1970") (auto simp: year_start_epoch)

lemma year_next_le: "year_start (year_of_day d + 1) \<le> d + 366"
  using year_length [of "year_of_day d"] year_of_day_bounds(1) [of d] by (simp split: if_splits)

text \<open>Whole days \<open>a \<le> d < b\<close>, as seconds around a time of the day \<open>d\<close>.\<close>

lemma day_interval:
  fixes a b x :: int
  shows "86400 * a \<le> x \<longleftrightarrow> a \<le> x div 86400" "x < 86400 * b \<longleftrightarrow> x div 86400 < b"
proof -
  show "86400 * a \<le> x \<longleftrightarrow> a \<le> x div 86400"
    using zdiv_mono1 [of "86400 * a" x 86400] pos_mod_sign [of 86400 x] minus_mod_eq_mult_div [of x 86400]
    by auto
  show "x < 86400 * b \<longleftrightarrow> x div 86400 < b"
    using zdiv_mono1 [of "86400 * b" x 86400] pos_mod_bound [of 86400 x] minus_mod_eq_mult_div [of x 86400]
    by auto
qed

lemma TimeToTimestamp_day:
  "0 \<le> a \<Longrightarrow> a \<le> 2 ^ 62 div 86400 + 366 \<Longrightarrow> TimeToTimestamp 0 (86400 * a) 0 = mkTs (86400 * a) 0"
  by (simp add: TimeToTimestamp_def i64_id in_i64_def)

lemma ts_dom_day: "ts_dom t \<Longrightarrow> 0 \<le> Ts t div 86400 \<and> Ts t div 86400 \<le> 2 ^ 62 div 86400"
  by (auto simp: ts_dom_def pos_imp_zdiv_nonneg_iff intro: zdiv_mono1)

lemma ToYear_eq:
  assumes "ts_dom t"
  defines "y \<equiv> year_of_day (Ts t div 86400)"
  shows "ToYearTimestamp 0 t = (mkTs (86400 * year_start y) 0, mkTs (86400 * year_start (y + 1)) 0)"
proof -
  let ?d = "Ts t div 86400"
  have d: "0 \<le> ?d" "?d \<le> 2 ^ 62 div 86400" using ts_dom_day [OF assms(1)] by auto
  have "0 \<le> year_start y" "year_start y \<le> ?d" "?d < year_start (y + 1)" "year_start (y + 1) \<le> ?d + 366"
    unfolding y_def using year_start_nonneg [OF d(1)] year_of_day_bounds [of ?d] year_next_le [of ?d] by auto
  with d have "TimeToTimestamp 0 (86400 * year_start y) 0 = mkTs (86400 * year_start y) 0"
    "TimeToTimestamp 0 (86400 * year_start (y + 1)) 0 = mkTs (86400 * year_start (y + 1)) 0"
    by (intro TimeToTimestamp_day; linarith)+
  then show ?thesis
    using assms by (simp add: ToYearTimestamp_def time_day_dom Let_def)
qed

lemma ToMonth_eq:
  assumes "ts_dom t"
  defines "y \<equiv> year_of_day (Ts t div 86400)"
  defines "m \<equiv> month_of_doy y (Ts t div 86400 - year_start y)"
  shows "ToMonthTimestamp 0 t = (mkTs (86400 * month_start y m) 0, mkTs (86400 * month_next y m) 0)"
proof -
  let ?d = "Ts t div 86400"
  have d: "0 \<le> ?d" "?d \<le> 2 ^ 62 div 86400" using ts_dom_day [OF assms(1)] by auto
  have y: "0 \<le> year_start y" "year_start y \<le> ?d" "?d < year_start (y + 1)" "year_start (y + 1) \<le> ?d + 366"
    unfolding y_def using year_start_nonneg [OF d(1)] year_of_day_bounds [of ?d] year_next_le [of ?d] by auto
  note m = month_of_doy_bounds [OF y(2,3), folded m_def]
  have "0 \<le> month_start y m" "month_next y m \<le> ?d + 366"
    using month_start_ge [OF m(1,2), of y] month_next_le [OF m(1,2), of y] y by linarith+
  with d m have "TimeToTimestamp 0 (86400 * month_start y m) 0 = mkTs (86400 * month_start y m) 0"
    "TimeToTimestamp 0 (86400 * month_next y m) 0 = mkTs (86400 * month_next y m) 0"
    by (intro TimeToTimestamp_day; linarith)+
  then show ?thesis
    using assms by (simp add: ToMonthTimestamp_def time_day_dom Let_def month_next_def)
qed

interpretation year_bucket: time_bucket "ToYearTimestamp 0"
proof
  fix t u assume t: "ts_dom t"
  let ?y = "year_of_day (Ts t div 86400)"
  note b = year_of_day_bounds [of "Ts t div 86400"]
  show "fst (ToYearTimestamp 0 t) \<le> t" "t < snd (ToYearTimestamp 0 t)"
    using b by (simp_all add: ToYear_eq [OF t] mkTs0_le_iff less_mkTs0_iff day_interval)
  have "0 \<le> 86400 * year_start ?y" "86400 * year_start ?y \<le> Ts t"
    using year_start_nonneg [of "Ts t div 86400"] ts_dom_day [OF t] b by (simp_all add: day_interval)
  then show "ts_dom (fst (ToYearTimestamp 0 t))"
    using t by (simp add: ToYear_eq [OF t] ts_dom_def)
  assume u: "ts_dom u" and "fst (ToYearTimestamp 0 t) \<le> u" "u < snd (ToYearTimestamp 0 t)"
  then have "year_of_day (Ts u div 86400) = ?y"
    by (intro year_of_day_unique)
      (simp_all add: ToYear_eq [OF t] mkTs0_le_iff less_mkTs0_iff day_interval)
  then show "ToYearTimestamp 0 u = ToYearTimestamp 0 t"
    by (simp add: ToYear_eq [OF t] ToYear_eq [OF u])
qed

interpretation month_bucket: time_bucket "ToMonthTimestamp 0"
proof
  fix t u assume t: "ts_dom t"
  let ?d = "Ts t div 86400"
  define y where "y = year_of_day ?d"
  define m where "m = month_of_doy y (?d - year_start y)"
  note b = year_of_day_bounds [of ?d, folded y_def]
  note mb = month_of_doy_bounds [OF b, folded m_def]
  note t_eq = ToMonth_eq [OF t, folded y_def, folded m_def]
  show "fst (ToMonthTimestamp 0 t) \<le> t" "t < snd (ToMonthTimestamp 0 t)"
    using mb by (simp_all add: t_eq mkTs0_le_iff less_mkTs0_iff day_interval)
  have "0 \<le> year_start y"
    using year_start_nonneg [of ?d] ts_dom_day [OF t] by (simp add: y_def)
  then have "0 \<le> 86400 * month_start y m" "86400 * month_start y m \<le> Ts t"
    using month_start_ge [OF mb(1,2), of y] mb(3) by (simp_all add: day_interval)
  then show "ts_dom (fst (ToMonthTimestamp 0 t))"
    using t by (simp add: t_eq ts_dom_def)
  assume u: "ts_dom u" and "fst (ToMonthTimestamp 0 t) \<le> u" "u < snd (ToMonthTimestamp 0 t)"
  then have ud: "month_start y m \<le> Ts u div 86400" "Ts u div 86400 < month_next y m"
    by (simp_all add: t_eq mkTs0_le_iff less_mkTs0_iff day_interval)
  then have uy: "year_of_day (Ts u div 86400) = y"
    using month_start_ge [OF mb(1,2), of y] month_next_le [OF mb(1,2), of y]
    by (intro year_of_day_unique) auto
  moreover have "month_of_doy y (Ts u div 86400 - year_start y) = m"
    using ud by (rule month_of_doy_unique [OF mb(1,2)])
  ultimately show "ToMonthTimestamp 0 u = ToMonthTimestamp 0 t"
    by (simp add: t_eq ToMonth_eq [OF u])
qed

lemma floor_nested:
  fixes n m x :: int
  assumes n: "0 < n" and dv: "n dvd m"
  shows "m \<le> x \<Longrightarrow> m \<le> x - x mod n" "x < m \<Longrightarrow> x - x mod n + n \<le> m"
proof -
  obtain k where m: "m = n * k" using dv by (elim dvdE)
  have q: "x - x mod n = n * (x div n)" by (simp add: minus_mod_eq_mult_div)
  show "m \<le> x - x mod n" if "m \<le> x"
    using zdiv_mono1 [OF that n] n unfolding q m by (simp add: mult_le_cancel_left_pos)
  show "x - x mod n + n \<le> m" if "x < m"
  proof -
    have "x div n < k"
    proof (rule ccontr)
      assume "\<not> x div n < k"
      then have "n * k \<le> n * (x div n)" using n by (intro mult_left_mono) auto
      also have "\<dots> \<le> x" using n by (simp add: mult_div_mod_eq flip: minus_mod_eq_mult_div)
      finally show False using that unfolding m by simp
    qed
    then have "n * (x div n + 1) \<le> n * k" using n by (intro mult_left_mono) auto
    then show ?thesis unfolding q m by (simp add: distrib_left)
  qed
qed

interpretation hr_day: nested_bucket ToHRTimestamp ToDayTimestamp
proof
  fix t assume t: "ts_dom t"
  define f where "f = Ts t - Ts t mod 86400"
  have f: "f \<le> Ts t" "Ts t < f + 86400"
    unfolding f_def using mod_bounds [of 86400 "Ts t"] t by (auto simp: ts_dom_def)
  have "3600 dvd f" "3600 dvd f + 86400"
    unfolding f_def minus_mod_eq_mult_div by (simp_all add: dvd_mult2)
  then have "f \<le> Ts t - Ts t mod 3600" "Ts t - Ts t mod 3600 + 3600 \<le> f + 86400"
    using f by (intro floor_nested; simp)+
  then show "fst (ToDayTimestamp t) \<le> fst (ToHRTimestamp t) \<and> snd (ToHRTimestamp t) \<le> snd (ToDayTimestamp t)"
    by (simp add: ToHR_eq [OF t] ToDay_eq [OF t] mkTs0_le_iff flip: f_def)
qed

interpretation day_month: nested_bucket ToDayTimestamp "ToMonthTimestamp 0"
proof
  fix t assume t: "ts_dom t"
  define y where "y = year_of_day (Ts t div 86400)"
  define m where "m = month_of_doy y (Ts t div 86400 - year_start y)"
  note m = month_of_doy_bounds [OF year_of_day_bounds [of "Ts t div 86400", folded y_def], folded m_def]
  have "86400 * month_start y m \<le> Ts t - Ts t mod 86400"
    "Ts t - Ts t mod 86400 + 86400 \<le> 86400 * month_next y m"
    using m by (intro floor_nested; simp add: day_interval)+
  then show "fst (ToMonthTimestamp 0 t) \<le> fst (ToDayTimestamp t) \<and>
    snd (ToDayTimestamp t) \<le> snd (ToMonthTimestamp 0 t)"
    by (simp add: ToDay_eq [OF t] ToMonth_eq [OF t, folded y_def, folded m_def] mkTs0_le_iff)
qed

interpretation month_year: nested_bucket "ToMonthTimestamp 0" "ToYearTimestamp 0"
proof
  fix t assume t: "ts_dom t"
  define y where "y = year_of_day (Ts t div 86400)"
  define m where "m = month_of_doy y (Ts t div 86400 - year_start y)"
  note m = month_of_doy_bounds [OF year_of_day_bounds [of "Ts t div 86400", folded y_def], folded m_def]
  show "fst (ToYearTimestamp 0 t) \<le> fst (ToMonthTimestamp 0 t) \<and>
    snd (ToMonthTimestamp 0 t) \<le> snd (ToYearTimestamp 0 t)"
    using month_start_ge [OF m(1,2), of y] month_next_le [OF m(1,2), of y]
    by (simp add: ToYear_eq [OF t, folded y_def] ToMonth_eq [OF t, folded y_def, folded m_def] mkTs0_le_iff)
qed

subsection \<open>Properties\<close>

text \<open>
  The 12-byte encoding of a timestamp decodes to it, and whatever decodes is the encoding of a
  proper timestamp (nanoseconds below a billion).
\<close>

theorem timestamp_encoding:
  assumes "ts_ok t"
  shows "UnmarshalTimestamp (Timestamp_Marshal t) = Ret t \<and>
    (\<forall>b u. UnmarshalTimestamp b = Ret u \<longrightarrow> ts_ok u \<and> Timestamp_Marshal u = take 12 b)"
  using assms UnmarshalTimestamp_ok by (auto simp: Unmarshal_Marshal_Timestamp)

theorem timestamp_encoding_witness:
  "UnmarshalTimestamp (Timestamp_Marshal (mkTs (- 5) 999999999)) = Ret (mkTs (- 5) 999999999)"
proof -
  have "ts_ok (mkTs (- 5) 999999999)" by (simp add: ts_ok_def in_i64_def)
  from timestamp_encoding [OF this] show ?thesis by blast
qed

text \<open>
  C34: from the epoch on, the byte order of the encodings is the order \<^verbatim>\<open>IsLess\<close> and
  \<^verbatim>\<open>IsLessEqual\<close> compute, so a database whose keys hold encoded times iterates in time order.
\<close>

theorem timestamp_key_order:
  assumes "ts_ok t" "ts_ok u" "0 \<le> Ts t" "0 \<le> Ts u"
  shows "(Timestamp_Marshal t < Timestamp_Marshal u \<longleftrightarrow> IsLess t u) \<and>
    (Timestamp_Marshal t \<le> Timestamp_Marshal u \<longleftrightarrow> IsLessEqual t u) \<and>
    (Timestamp_Marshal t = Timestamp_Marshal u \<longleftrightarrow> IsEqual t u)"
  using assms Timestamp_Marshal_inj
  by (auto simp: Timestamp_Marshal_less_iff Timestamp_Marshal_le_iff ts_ok_def)

theorem timestamp_key_order_witness:
  "Timestamp_Marshal (mkTs 255 999999999) < Timestamp_Marshal (mkTs 256 0)"
proof -
  have "ts_ok (mkTs 255 999999999)" "ts_ok (mkTs 256 0)" by (simp_all add: ts_ok_def in_i64_def)
  from timestamp_key_order [OF this] show ?thesis by (simp add: mkTs_less_iff)
qed

text \<open>
  C33: the hour, day, month and year buckets of a time contain it and are nested; the day of the
  start of its hour is its day, the month of the start of its day its month, the year of the start
  of its month its year. The Merkle tree relies on this to file a node under its parent.
\<close>

theorem bucket_hierarchy:
  assumes "ts_dom t"
  shows "fst (ToYearTimestamp 0 t) \<le> fst (ToMonthTimestamp 0 t) \<and>
    fst (ToMonthTimestamp 0 t) \<le> fst (ToDayTimestamp t) \<and>
    fst (ToDayTimestamp t) \<le> fst (ToHRTimestamp t) \<and>
    fst (ToHRTimestamp t) \<le> t \<and> t < snd (ToHRTimestamp t) \<and>
    snd (ToHRTimestamp t) \<le> snd (ToDayTimestamp t) \<and>
    snd (ToDayTimestamp t) \<le> snd (ToMonthTimestamp 0 t) \<and>
    snd (ToMonthTimestamp 0 t) \<le> snd (ToYearTimestamp 0 t) \<and>
    ToDayTimestamp (fst (ToHRTimestamp t)) = ToDayTimestamp t \<and>
    ToMonthTimestamp 0 (fst (ToDayTimestamp t)) = ToMonthTimestamp 0 t \<and>
    ToYearTimestamp 0 (fst (ToMonthTimestamp 0 t)) = ToYearTimestamp 0 t"
  using hr_bucket.bucket_start [OF assms] hr_bucket.bucket_next [OF assms]
    hr_day.nested [OF assms] day_month.nested [OF assms] month_year.nested [OF assms]
    hr_day.coarse_of_fine_start [OF assms] day_month.coarse_of_fine_start [OF assms]
    month_year.coarse_of_fine_start [OF assms]
  by simp

theorem bucket_hierarchy_witness:
  "ToMonthTimestamp 0 (fst (ToDayTimestamp (mkTs 951868799 7))) = (mkTs 949363200 0, mkTs 951868800 0)"
proof -
  have "ts_dom (mkTs 951868799 7)" by (simp add: ts_dom_def)
  moreover have "ToMonthTimestamp 0 (mkTs 951868799 7) = (mkTs 949363200 0, mkTs 951868800 0)" by code_simp
  ultimately show ?thesis using bucket_hierarchy by metis
qed

text \<open>
  Two times in order fall in the same bucket or in buckets that follow each other without
  overlap, at every level.
\<close>

theorem bucket_partition:
  assumes "ts_dom t" "ts_dom u" "IsLess t u"
    and "bucket \<in> {ToHRTimestamp, ToDayTimestamp, ToMonthTimestamp 0, ToYearTimestamp 0}"
  shows "bucket t = bucket u \<or> snd (bucket t) \<le> fst (bucket u)"
  using assms(3,4) hr_bucket.bucket_separated [OF assms(1,2)] day_bucket.bucket_separated [OF assms(1,2)]
    month_bucket.bucket_separated [OF assms(1,2)] year_bucket.bucket_separated [OF assms(1,2)]
  by auto

theorem bucket_partition_witness:
  "ToYearTimestamp 0 (mkTs 978307199 0) = ToYearTimestamp 0 (mkTs 978307200 0) \<or>
   snd (ToYearTimestamp 0 (mkTs 978307199 0)) \<le> fst (ToYearTimestamp 0 (mkTs 978307200 0))"
  by (rule bucket_partition) (simp_all add: ts_dom_def mkTs_less_iff)

text \<open>
  Before the epoch Go's remainder is negative and the hour found starts after the time: the
  containment above does not extend to negative times.
\<close>

lemma negative_hour_after:
  assumes "in_i64 (Ts t)" "Ts t < 0" "Ts t mod 3600 \<noteq> 0"
  shows "t < fst (ToHRTimestamp t)"
proof -
  define r where "r = (- Ts t) mod 3600"
  have "r \<noteq> 0" unfolding r_def using assms(3) by (simp add: zmod_zminus1_eq_if)
  moreover have "0 \<le> r" "r \<le> - Ts t"
    unfolding r_def using assms(2) by (simp_all add: zmod_le_nonneg_dividend)
  ultimately have r: "0 < r" "in_i64 (Ts t + r)" using assms by (auto simp: in_i64_def)
  have "fst (ToHRTimestamp t) = mkTs (Ts t + r) 0"
    using assms(2) i64_id [OF r(2)] by (simp add: ToHRTimestamp_def go_rem_def r_def Let_def)
  with r show ?thesis by (simp add: less_mkTs0_iff)
qed

text \<open>
  \<^verbatim>\<open>ToMonthTimestamp\<close> and \<^verbatim>\<open>ToYearTimestamp\<close> convert back with \<^verbatim>\<open>TimeToTimestamp\<close>, which adds
  \<^verbatim>\<open>OffsetSecond\<close> although the time they start from already has it: with a non-zero offset the month
  does not contain a time at its start.
\<close>

lemma month_offset_after:
  "mkTs 949363200 0 < fst (ToMonthTimestamp 60 (mkTs 949363200 0))"
proof -
  have "ToMonthTimestamp 60 (mkTs 949363200 0) = (mkTs 949363260 0, mkTs 951868860 0)" by code_simp
  then show ?thesis by (simp add: mkTs_less_iff)
qed

end
