(* ===== verification/Statuses.thy ===== *)
theory Statuses
  imports Prelude
begin

text \<open>
  \<^verbatim>\<open>common/types/types.go\<close>: the status of an object or an operation log, and its class. Both are Go
  \<^verbatim>\<open>int\<close>s numbered by \<^verbatim>\<open>iota\<close>, so a value read from the wire may lie outside the declared constants;
  the maps of the package give the zero value there.
\<close>

subsection \<open>Definitions\<close>

type_synonym Status = int
type_synonym StatusClass = int

definition StatusInvalid :: Status where "StatusInvalid = 0"
definition StatusInit :: Status where "StatusInit = 1"
definition StatusInternalSync :: Status where "StatusInternalSync = 2"
definition StatusInternalPending :: Status where "StatusInternalPending = 3"
definition StatusPending :: Status where "StatusPending = 4"
definition StatusSync :: Status where "StatusSync = 5"
definition StatusToBeSynced :: Status where "StatusToBeSynced = 6"
definition StatusAlive :: Status where "StatusAlive = 7"
definition StatusFailed :: Status where "StatusFailed = 8"
definition StatusInternalDeleted :: Status where "StatusInternalDeleted = 9"
definition StatusInternalRevoke :: Status where "StatusInternalRevoke = 10"
definition StatusInternalTransfer :: Status where "StatusInternalTransfer = 11"
definition StatusInternalMigrate :: Status where "StatusInternalMigrate = 12"
definition StatusInternalTerminal :: Status where "StatusInternalTerminal = 13"
definition StatusPendingDeleted :: Status where "StatusPendingDeleted = 14"
definition StatusPendingRevoke :: Status where "StatusPendingRevoke = 15"
definition StatusPendingTransfer :: Status where "StatusPendingTransfer = 16"
definition StatusPendingMigrate :: Status where "StatusPendingMigrate = 17"
definition StatusPendingTerminal :: Status where "StatusPendingTerminal = 18"
definition StatusDeleted :: Status where "StatusDeleted = 19"
definition StatusRevoked :: Status where "StatusRevoked = 20"
definition StatusTransferred :: Status where "StatusTransferred = 21"
definition StatusMigrated :: Status where "StatusMigrated = 22"
definition StatusTerminal :: Status where "StatusTerminal = 23"

definition StatusClassInvalid :: StatusClass where "StatusClassInvalid = 0"
definition StatusClassInternalPendingAlive :: StatusClass where "StatusClassInternalPendingAlive = 1"
definition StatusClassPendingAlive :: StatusClass where "StatusClassPendingAlive = 2"
definition StatusClassAlive :: StatusClass where "StatusClassAlive = 3"
definition StatusClassFailed :: StatusClass where "StatusClassFailed = 4"
definition StatusClassInternalDelete :: StatusClass where "StatusClassInternalDelete = 5"
definition StatusClassPendingDelete :: StatusClass where "StatusClassPendingDelete = 6"
definition StatusClassInternalTerminal :: StatusClass where "StatusClassInternalTerminal = 7"
definition StatusClassPendingTerminal :: StatusClass where "StatusClassPendingTerminal = 8"
definition StatusClassDeleted :: StatusClass where "StatusClassDeleted = 9"
definition StatusClassTerminal :: StatusClass where "StatusClassTerminal = 10"

lemmas status_defs =
  StatusInvalid_def StatusInit_def StatusInternalSync_def StatusInternalPending_def
  StatusPending_def StatusSync_def StatusToBeSynced_def StatusAlive_def StatusFailed_def
  StatusInternalDeleted_def StatusInternalRevoke_def StatusInternalTransfer_def
  StatusInternalMigrate_def StatusInternalTerminal_def StatusPendingDeleted_def
  StatusPendingRevoke_def StatusPendingTransfer_def StatusPendingMigrate_def
  StatusPendingTerminal_def StatusDeleted_def StatusRevoked_def StatusTransferred_def
  StatusMigrated_def StatusTerminal_def

lemmas class_defs =
  StatusClassInvalid_def StatusClassInternalPendingAlive_def StatusClassPendingAlive_def
  StatusClassAlive_def StatusClassFailed_def StatusClassInternalDelete_def
  StatusClassPendingDelete_def StatusClassInternalTerminal_def StatusClassPendingTerminal_def
  StatusClassDeleted_def StatusClassTerminal_def

definition statusStr :: "(Status \<times> string) list" where
  "statusStr =
     [(StatusInvalid, ''invalid''),
      (StatusInit, ''init''),
      (StatusInternalSync, ''internal-sync''),
      (StatusInternalPending, ''internal-pending''),
      (StatusPending, ''pending''),
      (StatusSync, ''sync''),
      (StatusToBeSynced, ''be-synced''),
      (StatusAlive, ''alive''),
      (StatusFailed, ''failed''),
      (StatusInternalDeleted, ''internal-delete''),
      (StatusInternalRevoke, ''internal-revoke''),
      (StatusInternalTransfer, ''internal-transfer''),
      (StatusInternalMigrate, ''internal-migrate''),
      (StatusInternalTerminal, ''internal-terminal''),
      (StatusPendingDeleted, ''pending-delete''),
      (StatusPendingRevoke, ''pending-revoke''),
      (StatusPendingTransfer, ''pending-transfer''),
      (StatusPendingMigrate, ''pending-migrate''),
      (StatusPendingTerminal, ''pending-terminal''),
      (StatusDeleted, ''deleted''),
      (StatusRevoked, ''revoked''),
      (StatusTransferred, ''transferred''),
      (StatusMigrated, ''migrated''),
      (StatusTerminal, ''terminal'')]"

definition go_map_get :: "'v \<Rightarrow> ('k \<times> 'v) list \<Rightarrow> 'k \<Rightarrow> 'v" where
  "go_map_get zero m k = (case map_of m k of None \<Rightarrow> zero | Some v \<Rightarrow> v)"

definition Status_String :: "Status \<Rightarrow> string" where
  "Status_String s = go_map_get [] statusStr s"

definition StatusToDeleteStatus :: "Status \<Rightarrow> Status \<Rightarrow> Status \<Rightarrow> Status \<Rightarrow> Status" where
  "StatusToDeleteStatus status internalPendingStatus pendingStatus aliveStatus =
     (if status = StatusInternalPending then internalPendingStatus
      else if status = StatusPending then pendingStatus
      else if status = StatusAlive then aliveStatus
      else status)"

definition statusClassStr :: "(StatusClass \<times> string) list" where
  "statusClassStr =
     [(StatusClassInvalid, ''class-invalid''),
      (StatusClassInternalPendingAlive, ''class-internal-pending''),
      (StatusClassPendingAlive, ''class-pending''),
      (StatusClassAlive, ''class-alive''),
      (StatusClassFailed, ''class-failed''),
      (StatusClassInternalDelete, ''class-internal-delete''),
      (StatusClassPendingDelete, ''class-pending-delete''),
      (StatusClassInternalTerminal, ''class-internal-migrate''),
      (StatusClassPendingTerminal, ''class-pending-migrate''),
      (StatusClassDeleted, ''class-deleted''),
      (StatusClassTerminal, ''class-migrated'')]"

definition StatusClass_String :: "StatusClass \<Rightarrow> string" where
  "StatusClass_String s = go_map_get [] statusClassStr s"

definition statusToStatusClass :: "(Status \<times> StatusClass) list" where
  "statusToStatusClass =
     [(StatusInvalid, StatusClassInvalid),
      (StatusInit, StatusClassInternalPendingAlive),
      (StatusInternalSync, StatusClassInternalPendingAlive),
      (StatusInternalPending, StatusClassInternalPendingAlive),
      (StatusPending, StatusClassPendingAlive),
      (StatusSync, StatusClassPendingAlive),
      (StatusToBeSynced, StatusClassAlive),
      (StatusAlive, StatusClassAlive),
      (StatusFailed, StatusClassFailed),
      (StatusInternalDeleted, StatusClassInternalDelete),
      (StatusInternalRevoke, StatusClassInternalDelete),
      (StatusInternalTransfer, StatusClassInternalDelete),
      (StatusInternalMigrate, StatusClassInternalTerminal),
      (StatusInternalTerminal, StatusClassInternalTerminal),
      (StatusPendingDeleted, StatusClassPendingDelete),
      (StatusPendingRevoke, StatusClassPendingDelete),
      (StatusPendingTransfer, StatusClassPendingDelete),
      (StatusPendingMigrate, StatusClassPendingTerminal),
      (StatusPendingTerminal, StatusClassPendingTerminal),
      (StatusDeleted, StatusClassDeleted),
      (StatusRevoked, StatusClassDeleted),
      (StatusTransferred, StatusClassDeleted),
      (StatusMigrated, StatusClassTerminal),
      (StatusTerminal, StatusClassTerminal)]"

definition StatusToStatusClass :: "Status \<Rightarrow> StatusClass" where
  "StatusToStatusClass status = go_map_get StatusClassInvalid statusToStatusClass status"

subsection \<open>Lemmas\<close>

lemma status_range:
  "StatusInvalid \<le> s \<Longrightarrow> s \<le> StatusTerminal \<Longrightarrow> s \<in> fst ` set statusToStatusClass"
  by (simp add: statusToStatusClass_def status_defs) arith

text \<open>The class of every status, by ranges of the numbering.\<close>

lemma StatusToStatusClass_eq:
  "StatusToStatusClass s =
     (if s < StatusInit \<or> StatusTerminal < s then StatusClassInvalid
      else if s \<le> StatusInternalPending then StatusClassInternalPendingAlive
      else if s \<le> StatusSync then StatusClassPendingAlive
      else if s \<le> StatusAlive then StatusClassAlive
      else if s = StatusFailed then StatusClassFailed
      else if s \<le> StatusInternalTransfer then StatusClassInternalDelete
      else if s \<le> StatusInternalTerminal then StatusClassInternalTerminal
      else if s \<le> StatusPendingTransfer then StatusClassPendingDelete
      else if s \<le> StatusPendingTerminal then StatusClassPendingTerminal
      else if s \<le> StatusTransferred then StatusClassDeleted
      else StatusClassTerminal)"
proof (cases "StatusInvalid \<le> s \<and> s \<le> StatusTerminal")
  case True
  then have "s \<in> fst ` set statusToStatusClass" using status_range by blast
  then show ?thesis
    unfolding statusToStatusClass_def list.set image_insert image_empty fst_conv insert_iff empty_iff
    by (elim disjE FalseE) (simp_all add: StatusToStatusClass_def statusToStatusClass_def go_map_get_def
      status_defs class_defs)
next
  case False
  then show ?thesis
    by (auto simp: StatusToStatusClass_def statusToStatusClass_def go_map_get_def status_defs class_defs)
qed

end
