(* ===== verification/Bit_Vectors.thy ===== *)
theory Bit_Vectors
  imports Prelude
begin

text \<open>
  \<^verbatim>\<open>common/types/bit_vector.go\<close>: a bit vector is a slice of 64-bit words. An operation on a bit whose
  word is out of range panics. The slice is updated in place, so the setters return the new slice.
\<close>

unbundle bit_operations_syntax

subsection \<open>Definitions\<close>

type_synonym BitVector = "u64 list"

text \<open>\<^verbatim>\<open>make([]uint64, n)\<close> panics when \<open>8 * n\<close> bytes exceed the address space (\<open>2 ^ 48\<close>).\<close>

definition make_words :: "nat \<Rightarrow> u64 list res" where
  "make_words n = (if 2 ^ 45 < n then Panic else Ret (replicate n 0))"

definition NewBitVector :: "u64 \<Rightarrow> BitVector res" where
  "NewBitVector L = make_words (unat (1 + drop_bit 6 (L - 1)))"

definition word_index :: "u64 \<Rightarrow> nat" where
  "word_index N = unat (drop_bit 6 N)"

definition bit_index :: "u64 \<Rightarrow> nat" where
  "bit_index N = unat (N AND 63)"

definition bit_mask :: "u64 \<Rightarrow> u64" where
  "bit_mask N = push_bit (bit_index N) 1"

definition BitVector_Set :: "BitVector \<Rightarrow> u64 \<Rightarrow> BitVector res" where
  "BitVector_Set b N =
     (let i = word_index N
      in if i < length b then Ret (b[i := b ! i OR bit_mask N]) else Panic)"

definition SetWithIsNew :: "BitVector \<Rightarrow> u64 \<Rightarrow> (BitVector \<times> bool) res" where
  "SetWithIsNew b N =
     (let i = word_index N
      in if i < length b then
           (if b ! i AND bit_mask N = 1 then Ret (b, False)
            else Ret (b[i := b ! i OR bit_mask N], True))
         else Panic)"

definition BitVector_Get :: "BitVector \<Rightarrow> u64 \<Rightarrow> u64 res" where
  "BitVector_Get b N =
     (let i = word_index N
      in if i < length b then Ret (drop_bit (bit_index N) (b ! i) AND 1) else Panic)"

definition BitVector_Clear :: "BitVector \<Rightarrow> u64 \<Rightarrow> BitVector res" where
  "BitVector_Clear b N =
     (let i = word_index N
      in if i < length b then Ret (b[i := b ! i AND NOT (bit_mask N)]) else Panic)"

text \<open>\<^verbatim>\<open>strconv.FormatUint(word, 2)\<close>: the binary digits, most significant first, \<open>0\<close> as one digit.\<close>

fun FormatUint2 :: "nat \<Rightarrow> string" where
  "FormatUint2 n =
     (if n < 2 then [if n = 1 then CHR ''1'' else CHR ''0'']
      else FormatUint2 (n div 2) @ [if odd n then CHR ''1'' else CHR ''0''])"

declare FormatUint2.simps [simp del]

primrec BitVector_String :: "BitVector \<Rightarrow> string" where
  "BitVector_String [] = []"
| "BitVector_String (w # ws) =
     (let bits = FormatUint2 (unat w)
      in rev bits @ replicate (64 - length bits) (CHR ''0'') @ BitVector_String ws)"

definition PopCount_word :: "u64 \<Rightarrow> u64" where
  "PopCount_word word0 =
     (let word1 = word0 - (drop_bit 1 word0 AND 0x5555555555555555);
          word2 = (word1 AND 0x3333333333333333) + (drop_bit 2 word1 AND 0x3333333333333333);
          word3 = (word2 + drop_bit 4 word2) AND 0x0F0F0F0F0F0F0F0F;
          word4 = word3 + drop_bit 8 word3;
          word5 = word4 + drop_bit 16 word4;
          word6 = word5 + drop_bit 32 word5
      in word6 AND 255)"

definition PopCount :: "BitVector \<Rightarrow> u64" where
  "PopCount b = foldl (\<lambda>total word. total + PopCount_word word) 0 b"

primrec BitVector_Marshal :: "BitVector \<Rightarrow> bytes" where
  "BitVector_Marshal [] = []"
| "BitVector_Marshal (w # ws) = PutUint64 w @ BitVector_Marshal ws"

primrec read_words :: "nat \<Rightarrow> bytes \<Rightarrow> BitVector res" where
  "read_words 0 theBytes = Ret []"
| "read_words (Suc n) theBytes =
     res_bind (Uint64 theBytes) (\<lambda>w. res_bind (read_words n (drop 8 theBytes)) (\<lambda>ws. Ret (w # ws)))"

definition UnmarshalBitVector :: "bytes \<Rightarrow> BitVector res" where
  "UnmarshalBitVector theBytes =
     (let lenBytes = length theBytes
      in if lenBytes mod 8 \<noteq> 0 then Fail (TypesError T_ErrInvalidBitVector)
         else read_words (lenBytes div 8) theBytes)"

text \<open>The specification: the bit a position names, and the number of set bits.\<close>

definition bv_bit :: "BitVector \<Rightarrow> nat \<Rightarrow> bool" where
  "bv_bit b n \<longleftrightarrow> n div 64 < length b \<and> bit (b ! (n div 64)) (n mod 64)"

definition set_bits_of :: "u64 \<Rightarrow> nat set" where
  "set_bits_of w = {i. i < 64 \<and> bit w i}"

subsection \<open>Bits\<close>

lemma word_index_eq [simp]: "word_index N = unat N div 64"
  by (simp add: word_index_def unat_drop_bit_eq drop_bit_eq_div unat_div_distrib)

lemma bit_index_eq [simp]: "bit_index N = unat N mod 64"
proof -
  have "N AND 63 = take_bit 6 N" by (simp add: take_bit_eq_mask mask_eq_exp_minus_1)
  then show ?thesis by (simp add: bit_index_def unsigned_take_bit_eq take_bit_eq_mod unat_mod_distrib)
qed

lemma bit_bit_mask: "bit (bit_mask N) i \<longleftrightarrow> i = unat N mod 64"
  by (auto simp: bit_mask_def bit_simps)

lemma Get_eq:
  "BitVector_Get b N =
     (if unat N div 64 < length b then Ret (of_bool (bv_bit b (unat N))) else Panic)"
  by (simp add: BitVector_Get_def bv_bit_def and_one_eq mod_2_eq_odd bit_iff_odd_drop_bit)

lemma bv_bit_Set:
  "BitVector_Set b N =
     (if unat N div 64 < length b then Ret (b[unat N div 64 := b ! (unat N div 64) OR bit_mask N]) else Panic)"
  "unat N div 64 < length b \<Longrightarrow>
     bv_bit (b[unat N div 64 := b ! (unat N div 64) OR bit_mask N]) n \<longleftrightarrow> n = unat N \<or> bv_bit b n"
proof -
  show "BitVector_Set b N = (if unat N div 64 < length b
      then Ret (b[unat N div 64 := b ! (unat N div 64) OR bit_mask N]) else Panic)"
    by (simp add: BitVector_Set_def Let_def)
  assume le: "unat N div 64 < length b"
  have "n = unat N \<longleftrightarrow> n div 64 = unat N div 64 \<and> n mod 64 = unat N mod 64"
    by (metis div_mod_decomp)
  with le show "bv_bit (b[unat N div 64 := b ! (unat N div 64) OR bit_mask N]) n \<longleftrightarrow> n = unat N \<or> bv_bit b n"
    by (auto simp: bv_bit_def nth_list_update bit_or_iff bit_bit_mask)
qed

lemma bv_bit_Clear:
  "unat N div 64 < length b \<Longrightarrow>
     bv_bit (b[unat N div 64 := b ! (unat N div 64) AND NOT (bit_mask N)]) n \<longleftrightarrow> n \<noteq> unat N \<and> bv_bit b n"
proof -
  assume le: "unat N div 64 < length b"
  have "n = unat N \<longleftrightarrow> n div 64 = unat N div 64 \<and> n mod 64 = unat N mod 64"
    by (metis div_mod_decomp)
  with le show ?thesis
    by (auto simp: bv_bit_def nth_list_update bit_and_iff bit_not_iff bit_bit_mask)
qed

subsection \<open>PopCount\<close>

text \<open>
  The count of set bits by recursion on the width, then the shift-and-mask steps on numbers split
  into nibbles and bytes; no step carries over a digit.
\<close>

primrec nbits :: "nat \<Rightarrow> nat \<Rightarrow> nat" where
  "nbits 0 v = 0"
| "nbits (Suc k) v = v mod 2 + nbits k (v div 2)"

lemma nbits_card: "nbits k v = card {i. i < k \<and> bit v i}"
proof (induction k arbitrary: v)
  case (Suc k)
  have eq: "{i. i < Suc k \<and> bit v i} = (if odd v then {0} else {}) \<union> Suc ` {i. i < k \<and> bit (v div 2) i}"
    by (auto simp: bit_Suc bit_0 less_Suc_eq_0_disj)
  have "card {i. i < Suc k \<and> bit v i} = (if odd v then 1 else 0) + card {i. i < k \<and> bit (v div 2) i}"
    unfolding eq by (subst card_Un_disjoint) (auto simp: card_image)
  with Suc show ?case by (simp add: mod_2_eq_odd)
qed simp

lemma nbits_add: "nbits (j + k) v = nbits j v + nbits k (v div 2 ^ j)"
  by (induction j arbitrary: v) (simp_all add: div_mult2_eq)

lemma nbits_mod: "nbits k (v mod 2 ^ k) = nbits k v"
  unfolding nbits_card by (rule arg_cong [where f = card]) (auto simp: bit_take_bit_iff simp flip: take_bit_eq_mod)

lemma nbits_le: "nbits k v \<le> k"
proof (induction k arbitrary: v)
  case (Suc k)
  have "v mod 2 \<le> 1" by simp
  with Suc [of "v div 2"] show ?case by simp
qed simp

lemma and_split:
  "(x AND y :: nat) = (x mod 2 ^ n AND y mod 2 ^ n) + 2 ^ n * (x div 2 ^ n AND y div 2 ^ n)"
proof -
  have "x AND y = take_bit n (x AND y) + 2 ^ n * drop_bit n (x AND y)"
    by (simp add: take_bit_eq_mod drop_bit_eq_div)
  then show ?thesis by (simp only: take_bit_and drop_bit_and) (simp add: take_bit_eq_mod drop_bit_eq_div)
qed

lemmas and_split16 = and_split [where n = 4, simplified]
lemmas and_split256 = and_split [where n = 8, simplified]

lemma and_le_nat: "(x AND y :: nat) \<le> x"
proof -
  have "int (x AND y) \<le> int x" using AND_upper1 [of "int x" "int y"] by (simp add: of_nat_and_eq)
  then show ?thesis by simp
qed

lemma and_15: "x AND 15 = x mod (16 :: nat)"
  using take_bit_eq_mask [of 4 x] by (simp add: take_bit_eq_mod mask_eq_exp_minus_1)

lemma digit_split: "(x :: nat) = d + n * q \<Longrightarrow> d < n \<Longrightarrow> x mod n = d \<and> x div n = q"
  by simp

primrec rep_mask :: "nat \<Rightarrow> nat \<Rightarrow> nat \<Rightarrow> nat" where
  "rep_mask b m 0 = 0"
| "rep_mask b m (Suc k) = m + b * rep_mask b m k"

definition pop_step1 :: "nat \<Rightarrow> nat \<Rightarrow> nat" where
  "pop_step1 k v = v - (v div 2 AND rep_mask 16 5 k)"

definition pop_step2 :: "nat \<Rightarrow> nat \<Rightarrow> nat" where
  "pop_step2 k v = (v AND rep_mask 16 3 k) + (v div 4 AND rep_mask 16 3 k)"

lemma nibble_cases: "n < 16 \<Longrightarrow> n \<in> {0, 1, 2, 3, 4, 5, 6, 7, 8, 9, 10, 11, 12, 13, 14, 15 :: nat}"
  by (simp, arith)

lemma pop_step1_Suc:
  "pop_step1 (Suc k) v = pop_step1 1 (v mod 16) + 16 * pop_step1 k (v div 16)"
proof -
  define r where "r = v mod 16"
  define q where "q = v div 16"
  have v: "v = r + 16 * q" and r: "r < 16" by (simp_all add: r_def q_def)
  define s where "s = q div 2"
  define b where "b = q mod 2"
  have q: "q = b + 2 * s" and "b < 2" by (simp_all add: s_def b_def)
  then have b: "b = 0 \<or> b = 1" by arith
  have "v div 2 = (r div 2 + 8 * b) + 16 * s" unfolding v q by presburger
  moreover have "r div 2 + 8 * b < 16" using r b by auto
  ultimately have m: "(v div 2) mod 16 = r div 2 + 8 * b" "(v div 2) div 16 = s" by simp_all
  have nib: "(r div 2 + 8 * b) AND 5 = r div 2 AND 5" "r div 2 AND 5 \<le> r"
    using nibble_cases [OF r] b by (elim insertE emptyE disjE; simp)+
  have "v div 2 AND rep_mask 16 5 (Suc k) = (r div 2 AND 5) + 16 * (s AND rep_mask 16 5 k)"
    by (subst and_split16) (simp add: m nib)
  moreover have "s AND rep_mask 16 5 k \<le> q"
    using and_le_nat [of s "rep_mask 16 5 k"] q by simp
  ultimately have "pop_step1 (Suc k) v = (r - (r div 2 AND 5)) + 16 * (q - (s AND rep_mask 16 5 k))"
    using nib(2) unfolding pop_step1_def by (simp add: v)
  then show ?thesis by (simp add: pop_step1_def s_def flip: r_def q_def)
qed

lemma nbits_4: "nbits 4 v = v mod 2 + (v div 2 mod 2 + (v div 4 mod 2 + v div 8 mod 2))"
proof -
  have "nbits (Suc (Suc (Suc (Suc 0)))) v = v mod 2 + (v div 2 mod 2 + (v div 4 mod 2 + v div 8 mod 2))"
    by (simp flip: div_mult2_eq)
  moreover have "Suc (Suc (Suc (Suc 0))) = 4" by simp
  ultimately show ?thesis by (simp only:)
qed

lemma pop_step1_nibble: "n < 16 \<Longrightarrow> pop_step1 1 n < 16 \<and> pop_step2 1 (pop_step1 1 n) = nbits 4 n"
proof -
  assume "n < 16"
  from nibble_cases [OF this] show ?thesis
    by (elim insertE emptyE; simp add: pop_step1_def pop_step2_def nbits_4)
qed

lemma pop_step2_Suc:
  assumes "r < 16"
  shows "pop_step2 (Suc k) (r + 16 * q) = pop_step2 1 r + 16 * pop_step2 k q"
proof -
  have three: "x AND 3 = x mod (4 :: nat)" for x
    using take_bit_eq_mask [of 2 x] by (simp add: take_bit_eq_mod mask_eq_exp_minus_1)
  define s where "s = q div 4"
  define b where "b = q mod 4"
  have q: "q = b + 4 * s" and b: "b < 4" by (simp_all add: s_def b_def)
  have "(r + 16 * q) div 4 = (r div 4 + 4 * b) + 16 * s" unfolding q by simp
  moreover have "r div 4 + 4 * b < 16" using assms b by auto
  ultimately have m: "((r + 16 * q) div 4) mod 16 = r div 4 + 4 * b" "((r + 16 * q) div 4) div 16 = s"
    by simp_all
  have "(r + 16 * q) AND rep_mask 16 3 (Suc k) = (r AND 3) + 16 * (q AND rep_mask 16 3 k)"
    using assms by (subst and_split16) simp
  moreover have "(r + 16 * q) div 4 AND rep_mask 16 3 (Suc k) = (r div 4 AND 3) + 16 * (s AND rep_mask 16 3 k)"
    by (subst and_split16) (simp add: m three)
  ultimately show ?thesis by (simp add: pop_step2_def s_def)
qed

primrec pop_nibbles :: "nat \<Rightarrow> nat \<Rightarrow> nat" where
  "pop_nibbles 0 v = 0"
| "pop_nibbles (Suc k) v = nbits 4 v + 16 * pop_nibbles k (v div 16)"

lemma pop_step12: "v < 16 ^ k \<Longrightarrow> pop_step2 k (pop_step1 k v) = pop_nibbles k v"
proof (induction k arbitrary: v)
  case 0
  then show ?case by (simp add: pop_step1_def pop_step2_def)
next
  case (Suc k)
  then have "v div 16 < 16 ^ k" by (simp add: less_mult_imp_div_less mult.commute)
  with Suc.IH pop_step1_nibble [of "v mod 16"] nbits_mod [of 4 v] show ?case
    by (simp add: pop_step1_Suc [of k] pop_step2_Suc)
qed

lemma pop_nibbles_mod: "pop_nibbles k v mod 16 \<le> 4"
proof (cases k)
  case (Suc j)
  then show ?thesis using nbits_le [of 4 v] by simp
qed simp

primrec pop_bytes :: "nat \<Rightarrow> nat \<Rightarrow> nat" where
  "pop_bytes 0 v = 0"
| "pop_bytes (Suc k) v = nbits 8 v + 256 * pop_bytes k (v div 256)"

lemma pop_step3:
  "pop_nibbles (2 * k) v + pop_nibbles (2 * k) v div 16 AND rep_mask 256 15 k = pop_bytes k v"
proof (induction k arbitrary: v)
  case 0
  then show ?case by simp
next
  case (Suc k)
  define a where "a = nbits 4 v"
  define b where "b = nbits 4 (v div 16)"
  define p where "p = pop_nibbles (2 * k) (v div 256)"
  define p1 where "p1 = p div 16"
  define p0 where "p0 = p mod 16"
  have ab: "a \<le> 4" "b \<le> 4" "p0 \<le> 4"
    by (simp_all add: a_def b_def p0_def p_def nbits_le pop_nibbles_mod)
  have p: "p = p0 + 16 * p1" by (simp add: p0_def p1_def)
  have X: "pop_nibbles (2 * Suc k) v = a + 16 * (b + 16 * p)"
    by (simp add: a_def b_def p_def div_mult2_eq [of v 16 16, simplified])
  have "pop_nibbles (2 * Suc k) v + pop_nibbles (2 * Suc k) v div 16 =
      (a + b + 16 * (b + p0)) + 256 * (p + p1)"
    unfolding X using ab p by simp
  moreover have "a + b + 16 * (b + p0) < 256" using ab by simp
  ultimately have m: "(pop_nibbles (2 * Suc k) v + pop_nibbles (2 * Suc k) v div 16) mod 256 = a + b + 16 * (b + p0)"
    "(pop_nibbles (2 * Suc k) v + pop_nibbles (2 * Suc k) v div 16) div 256 = p + p1"
    using digit_split by blast+
  have "(a + b + 16 * (b + p0)) mod 16 = a + b"
    using digit_split [OF refl, of "a + b" 16 "b + p0"] ab by simp
  then have "a + b + 16 * (b + p0) AND 15 = a + b" by (simp only: and_15)
  moreover have "a + b = nbits 8 v" using nbits_add [of 4 4 v] by (simp add: a_def b_def)
  moreover have "p + p1 AND rep_mask 256 15 k = pop_bytes k (v div 256)"
    using Suc [of "v div 256"] by (simp only: p1_def p_def)
  moreover have "x AND rep_mask 256 15 (Suc k) = (x mod 256 AND 15) + 256 * (x div 256 AND rep_mask 256 15 k)" for x
    by (subst and_split256) simp
  ultimately show ?case by (simp only: m pop_bytes.simps)
qed

lemma pop_nibbles_bound: "pop_nibbles k v \<le> rep_mask 16 4 k"
proof (induction k arbitrary: v)
  case (Suc k)
  with nbits_le [of 4 v] show ?case by (simp add: add_mono)
qed simp

lemma pop_bytes_bound: "pop_bytes k v \<le> rep_mask 256 8 k"
proof (induction k arbitrary: v)
  case (Suc k)
  with nbits_le [of 8 v] show ?case by (simp add: add_mono)
qed simp

text \<open>The three folding additions gather the eight byte counts in the lowest byte.\<close>

lemma fold_bytes:
  fixes c0 c1 c2 c3 c4 c5 c6 c7 :: nat
  assumes c: "c0 \<le> 8" "c1 \<le> 8" "c2 \<le> 8" "c3 \<le> 8" "c4 \<le> 8" "c5 \<le> 8" "c6 \<le> 8" "c7 \<le> 8"
  defines "y \<equiv> c0 + 256 * (c1 + 256 * (c2 + 256 * (c3 + 256 * (c4 + 256 * (c5 + 256 * (c6 + 256 * c7))))))"
  defines "y1 \<equiv> y + y div 256"
  defines "y2 \<equiv> y1 + y1 div 65536"
  shows "(y2 + y2 div 4294967296) mod 256 = c0 + c1 + c2 + c3 + c4 + c5 + c6 + c7"
proof -
  define a0 a1 a2 a3 a4 a5 a6 where a: "a0 = c0 + c1" "a1 = c1 + c2" "a2 = c2 + c3" "a3 = c3 + c4"
    "a4 = c4 + c5" "a5 = c5 + c6" "a6 = c6 + c7"
  have al: "a0 \<le> 16" "a1 \<le> 16" "a2 \<le> 16" "a3 \<le> 16" "a4 \<le> 16" "a5 \<le> 16" "a6 \<le> 16"
    using c by (simp_all add: a)
  have "y div 256 = c1 + 256 * (c2 + 256 * (c3 + 256 * (c4 + 256 * (c5 + 256 * (c6 + 256 * c7)))))"
    unfolding y_def using digit_split [OF refl] c(1) by simp
  then have y1: "y1 = a0 + 256 * (a1 + 256 * (a2 + 256 * (a3 + 256 * (a4 + 256 * (a5 + 256 * (a6 + 256 * c7))))))"
    unfolding y1_def by (simp add: y_def a)
  define b0 b1 b2 b3 b4 b5 where b: "b0 = a0 + a2" "b1 = a1 + a3" "b2 = a2 + a4" "b3 = a3 + a5"
    "b4 = a4 + a6" "b5 = a5 + c7"
  have bl: "b0 \<le> 32" "b1 \<le> 32" "b2 \<le> 32" "b3 \<le> 32" "b4 \<le> 32" "b5 \<le> 32"
    using al c by (simp_all add: b)
  have "y1 div 65536 = a2 + 256 * (a3 + 256 * (a4 + 256 * (a5 + 256 * (a6 + 256 * c7))))"
  proof -
    have "y1 = (a0 + 256 * a1) + 65536 * (a2 + 256 * (a3 + 256 * (a4 + 256 * (a5 + 256 * (a6 + 256 * c7)))))"
      by (simp add: y1)
    from digit_split [OF this] al show ?thesis by simp
  qed
  then have y2: "y2 = b0 + 256 * (b1 + 256 * (b2 + 256 * (b3 + 256 * (b4 + 256 * (b5 + 256 * (a6 + 256 * c7))))))"
    unfolding y2_def by (simp add: y1 b)
  have "y2 div 4294967296 = b4 + 256 * (b5 + 256 * (a6 + 256 * c7))"
  proof -
    have "y2 = (b0 + 256 * (b1 + 256 * (b2 + 256 * b3))) + 4294967296 * (b4 + 256 * (b5 + 256 * (a6 + 256 * c7)))"
      by (simp add: y2)
    from digit_split [OF this] bl show ?thesis by simp
  qed
  then have "y2 + y2 div 4294967296 = (b0 + b4) + 256 * (b1 + 256 * (b2 + 256 * (b3 + 256 * (b4 + 256 * (b5 + 256 * (a6 + 256 * c7))))) + b5 + 256 * (a6 + 256 * c7))"
    by (simp add: y2)
  from conjunct1 [OF digit_split [OF this]] have "(y2 + y2 div 4294967296) mod 256 = b0 + b4"
    using bl by linarith
  also have "b0 + b4 = c0 + c1 + c2 + c3 + c4 + c5 + c6 + c7" by (simp add: a b)
  finally show ?thesis .
qed

lemma pop_bytes_8:
  fixes v :: nat
  defines "y \<equiv> pop_bytes 8 v"
  defines "y1 \<equiv> y + y div 256"
  defines "y2 \<equiv> y1 + y1 div 65536"
  shows "(y2 + y2 div 4294967296) mod 256 = nbits 64 v"
proof -
  have "(8 :: nat) = Suc (Suc (Suc (Suc (Suc (Suc (Suc (Suc 0)))))))" by simp
  then have eight: "pop_bytes 8 v = pop_bytes (Suc (Suc (Suc (Suc (Suc (Suc (Suc (Suc 0)))))))) v"
    by (simp only:)
  define d where "d i = nbits 8 (v div 256 ^ i)" for i
  have y: "y = d 0 + 256 * (d 1 + 256 * (d 2 + 256 * (d 3 + 256 * (d 4 + 256 * (d 5 + 256 * (d 6 + 256 * d 7))))))"
    unfolding y_def eight d_def by (simp flip: div_mult2_eq)
  have "nbits (8 * k) v = (\<Sum>i<k. d i)" for k
  proof (induction k)
    case (Suc k)
    then show ?case using nbits_add [of "8 * k" 8 v] by (simp add: d_def power_mult add.commute)
  qed simp
  from this [of 8] have "nbits 64 v = d 0 + d 1 + d 2 + d 3 + d 4 + d 5 + d 6 + d 7"
    by (simp add: lessThan_nat_numeral add.commute add.left_commute)
  moreover have "d i \<le> 8" for i by (simp add: d_def nbits_le)
  ultimately show ?thesis
    using fold_bytes [of "d 0" "d 1" "d 2" "d 3" "d 4" "d 5" "d 6" "d 7"]
    by (simp only: y1_def y2_def y)
qed

lemma unat_add_small: "unat a + unat b < 2 ^ 64 \<Longrightarrow> unat (a + b :: u64) = unat a + unat b"
  by (simp add: unat_word_ariths)

lemma unat_drop_bit_div: "unat (drop_bit k (w :: u64)) = unat w div 2 ^ k"
  unfolding unat_drop_bit_eq by (rule drop_bit_eq_div)

lemma rep_mask_numeral: "rep_mask b m (numeral k) = m + b * rep_mask b m (pred_numeral k)"
  by (simp add: numeral_eq_Suc)

lemma rep_masks:
  "rep_mask 16 5 16 = 0x5555555555555555" "rep_mask 16 3 16 = 0x3333333333333333"
  "rep_mask 256 15 8 = 0x0F0F0F0F0F0F0F0F" "rep_mask 16 4 16 = 0x4444444444444444"
  "rep_mask 256 8 8 = 0x0808080808080808"
  by (simp_all add: rep_mask_numeral)

lemma PopCount_word_nbits: "unat (PopCount_word w) = nbits 64 (unat w)"
proof -
  define n where "n = unat w"
  have n: "n < 16 ^ 16" unfolding n_def using unat_u64_bound [of w] by simp
  define w1 where "w1 = w - (drop_bit 1 w AND 0x5555555555555555)"
  define w2 where "w2 = (w1 AND 0x3333333333333333) + (drop_bit 2 w1 AND 0x3333333333333333)"
  define w3 where "w3 = (w2 + drop_bit 4 w2) AND 0x0F0F0F0F0F0F0F0F"
  define w4 where "w4 = w3 + drop_bit 8 w3"
  define w5 where "w5 = w4 + drop_bit 16 w4"
  define w6 where "w6 = w5 + drop_bit 32 w5"
  have m: "unat (drop_bit 1 w AND 0x5555555555555555) = n div 2 AND rep_mask 16 5 16"
    by (simp add: unsigned_and_eq unat_drop_bit_div rep_masks n_def)
  have "drop_bit 1 w AND 0x5555555555555555 \<le> w"
    unfolding word_le_nat_alt m n_def by (rule order_trans [OF and_le_nat]) simp
  then have u1: "unat w1 = pop_step1 16 n"
    unfolding w1_def pop_step1_def by (simp only: unat_sub m n_def)
  have nib: "pop_nibbles 16 n \<le> 0x4444444444444444"
    using pop_nibbles_bound [of 16 n] by (simp add: rep_masks)
  have "unat (w1 AND 0x3333333333333333) + unat (drop_bit 2 w1 AND 0x3333333333333333) = pop_nibbles 16 n"
    using pop_step12 [OF n] by (simp add: unsigned_and_eq unat_drop_bit_div u1 pop_step2_def rep_masks)
  then have u2: "unat w2 = pop_nibbles 16 n"
    unfolding w2_def using nib by (subst unat_add_small) simp_all
  have "unat w2 + unat (drop_bit 4 w2) = pop_nibbles 16 n + pop_nibbles 16 n div 16"
    by (simp add: unat_drop_bit_div u2)
  moreover have "\<dots> < 2 ^ 64"
    using nib div_le_mono [OF nib, of 16] by simp
  ultimately have "unat (w2 + drop_bit 4 w2) = pop_nibbles 16 n + pop_nibbles 16 n div 16"
    by (subst unat_add_small) simp_all
  then have u3: "unat w3 = pop_bytes 8 n"
    using pop_step3 [of 8 n] by (simp add: w3_def unsigned_and_eq rep_masks)
  have y: "pop_bytes 8 n \<le> 0x0808080808080808"
    using pop_bytes_bound [of 8 n] by (simp add: rep_masks)
  have u4: "unat w4 = pop_bytes 8 n + pop_bytes 8 n div 256"
    unfolding w4_def using y div_le_dividend [of "pop_bytes 8 n" 256]
    by (subst unat_add_small) (simp_all add: unat_drop_bit_div u3)
  define y1 where "y1 = pop_bytes 8 n + pop_bytes 8 n div 256"
  have y1: "y1 \<le> 0x1010101010101010"
    using y div_le_dividend [of "pop_bytes 8 n" 256] by (simp add: y1_def)
  have u5: "unat w5 = y1 + y1 div 65536"
    unfolding w5_def using y1 div_le_dividend [of y1 65536]
    by (subst unat_add_small) (simp_all add: unat_drop_bit_div u4 flip: y1_def)
  define y2 where "y2 = y1 + y1 div 65536"
  have y2: "y2 \<le> 0x2020202020202020"
    using y1 div_le_dividend [of y1 65536] by (simp add: y2_def)
  have "unat w6 = y2 + y2 div 4294967296"
    unfolding w6_def using y2 div_le_dividend [of y2 4294967296]
    by (subst unat_add_small) (simp_all add: unat_drop_bit_div u5 flip: y2_def)
  moreover have "PopCount_word w = w6 AND 255"
    by (simp add: PopCount_word_def Let_def w1_def w2_def w3_def w4_def w5_def w6_def)
  moreover have "unat (w6 AND 255) = unat w6 mod 256"
    using take_bit_eq_mask [of 8 "unat w6"]
    by (simp add: unsigned_and_eq take_bit_eq_mod mask_eq_exp_minus_1)
  ultimately show ?thesis
    using pop_bytes_8 [of n] by (simp add: y1_def y2_def n_def)
qed

lemma nbits_set_bits: "nbits 64 (unat (w :: u64)) = card (set_bits_of w)"
  by (simp add: nbits_card set_bits_of_def bit_unsigned_iff)

lemma PopCount_acc:
  "foldl (\<lambda>total word. total + PopCount_word word) a b = a + word_of_nat (\<Sum>w\<leftarrow>b. card (set_bits_of w))"
proof (induction b arbitrary: a)
  case (Cons w b)
  have "PopCount_word w = word_of_nat (card (set_bits_of w))"
    unfolding nbits_set_bits [symmetric] PopCount_word_nbits [symmetric] by simp
  with Cons show ?case by (simp add: add.assoc)
qed simp

subsection \<open>The encoding\<close>

lemma length_BitVector_Marshal [simp]: "length (BitVector_Marshal b) = 8 * length b"
  by (induction b) auto

lemma read_words_Marshal: "read_words (length b) (BitVector_Marshal b) = Ret b"
  by (induction b) (simp_all add: Uint64_PutUint64)

lemma read_words_inv:
  "length bs = 8 * n \<Longrightarrow> \<exists>b. read_words n bs = Ret b \<and> BitVector_Marshal b = bs"
proof (induction n arbitrary: bs)
  case (Suc n)
  have "length (drop 8 bs) = 8 * n" using Suc.prems by simp
  from Suc.IH [OF this] obtain b where
    b: "read_words n (drop 8 bs) = Ret b" "BitVector_Marshal b = drop 8 bs" by blast
  with Suc.prems show ?case
    by (auto simp: Uint64_def PutUint64_of_bytes)
qed simp

subsection \<open>String\<close>

lemma FormatUint2_length: "n < 2 ^ Suc k \<Longrightarrow> length (FormatUint2 n) \<le> Suc k"
proof (induction k arbitrary: n)
  case 0
  then show ?case by (simp add: FormatUint2.simps [of n])
next
  case (Suc k)
  from Suc.prems have "n div 2 < 2 ^ Suc k" by simp
  from Suc.IH [OF this] show ?case by (simp add: FormatUint2.simps [of n])
qed

lemma FormatUint2_bits:
  "n < 2 ^ k \<Longrightarrow> 0 < k \<Longrightarrow> rev (FormatUint2 n) @ replicate (k - length (FormatUint2 n)) (CHR ''0'') =
    map (\<lambda>i. if bit n i then CHR ''1'' else CHR ''0'') [0..<k]"
proof (induction k arbitrary: n)
  case (Suc k)
  have step: "map (\<lambda>i. if bit n i then CHR ''1'' else CHR ''0'') [0..<Suc k] =
    (if odd n then CHR ''1'' else CHR ''0'') #
    map (\<lambda>i. if bit (n div 2) i then CHR ''1'' else CHR ''0'') [0..<k]"
    by (simp add: upt_conv_Cons map_Suc_upt [symmetric] bit_Suc bit_0 comp_def del: upt_Suc)
  show ?case
  proof (cases "n < 2")
    case True
    then have "n = 0 \<or> n = 1" by arith
    then have "map (\<lambda>i. if bit (n div 2) i then CHR ''1'' else CHR ''0'') [0..<k] = replicate k (CHR ''0'')"
      by (auto simp: map_replicate_const)
    with True \<open>n = 0 \<or> n = 1\<close> show ?thesis unfolding step by (auto simp: FormatUint2.simps [of n])
  next
    case False
    with Suc.prems have k: "0 < k" "n div 2 < 2 ^ k" by (cases k; simp)+
    from Suc.IH [OF k(2,1)] False show ?thesis
      unfolding step by (simp add: FormatUint2.simps [of n])
  qed
qed simp

definition bit_string :: "u64 \<Rightarrow> string" where
  "bit_string w = map (\<lambda>i. if bit w i then CHR ''1'' else CHR ''0'') [0..<64]"

lemma bit_unat: "bit (unat (w :: u64)) i \<longleftrightarrow> bit w i"
  by (simp add: bit_unsigned_iff)

lemma BitVector_String_eq:
  "BitVector_String b = concat (map bit_string b)"
proof (induction b)
  case (Cons w b)
  have "unat w < 2 ^ 64" using unat_u64_bound [of w] by simp
  from FormatUint2_bits [OF this] have
    "rev (FormatUint2 (unat w)) @ replicate (64 - length (FormatUint2 (unat w))) (CHR ''0'') =
     bit_string w"
    by (simp only: bit_string_def bit_unat zero_less_numeral simp_thms)
  with Cons show ?case
    by (simp only: BitVector_String.simps Let_def append_assoc [symmetric] list.map concat.simps)
qed simp

subsection \<open>Properties\<close>

text \<open>
  Setting and clearing a bit changes that bit and no other, and keeps the length; out of range
  both panic, as does reading.
\<close>

theorem bitvector_set_clear:
  "if unat N < 64 * length b then
     (\<exists>b'. BitVector_Set b N = Ret b' \<and> length b' = length b \<and>
       (\<forall>n. bv_bit b' n = (n = unat N \<or> bv_bit b n))) \<and>
     (\<exists>b'. BitVector_Clear b N = Ret b' \<and> length b' = length b \<and>
       (\<forall>n. bv_bit b' n = (n \<noteq> unat N \<and> bv_bit b n))) \<and>
     BitVector_Get b N = Ret (of_bool (bv_bit b (unat N)))
   else BitVector_Set b N = Panic \<and> BitVector_Clear b N = Panic \<and> BitVector_Get b N = Panic"
proof -
  have iff: "unat N < 64 * length b \<longleftrightarrow> unat N div 64 < length b"
    by (simp add: div_less_iff_less_mult mult.commute)
  show ?thesis
  proof (cases "unat N div 64 < length b")
    case True
    then show ?thesis
      using bv_bit_Set(2) [OF True] bv_bit_Clear [OF True]
      by (simp add: iff bv_bit_Set(1) BitVector_Clear_def Get_eq Let_def)
  next
    case False
    then show ?thesis
      by (simp add: iff bv_bit_Set(1) BitVector_Clear_def Get_eq Let_def)
  qed
qed

text \<open>
  C35: the shift-and-mask population count is the number of set bits, added over the words in 64-bit
  arithmetic.
\<close>

theorem popcount_correct:
  "PopCount b = word_of_nat (\<Sum>w\<leftarrow>b. card (set_bits_of w)) \<and>
   (length b < 2 ^ 57 \<longrightarrow> unat (PopCount b) = (\<Sum>w\<leftarrow>b. card (set_bits_of w)))"
proof -
  have eq: "PopCount b = word_of_nat (\<Sum>w\<leftarrow>b. card (set_bits_of w))"
    by (simp add: PopCount_def PopCount_acc)
  have "(\<Sum>w\<leftarrow>b. card (set_bits_of w)) \<le> 64 * length b"
  proof (induction b)
    case (Cons w b)
    have "card (set_bits_of w) \<le> 64"
      using nbits_le [of 64 "unat w"] by (simp add: nbits_set_bits)
    with Cons show ?case by simp
  qed simp
  then have "length b < 2 ^ 57 \<longrightarrow> (\<Sum>w\<leftarrow>b. card (set_bits_of w)) < 2 ^ 64" by simp
  with eq show ?thesis by (simp add: unat_of_nat)
qed

theorem popcount_correct_witness:
  "unat (PopCount [0xF0, 3]) = card (set_bits_of 0xF0) + card (set_bits_of 3)"
proof -
  have "length [0xF0, 3 :: u64] < 2 ^ 57" by simp
  with popcount_correct [of "[0xF0, 3]"] have "unat (PopCount [0xF0, 3]) = (\<Sum>w\<leftarrow>[0xF0, 3]. card (set_bits_of w))"
    by blast
  then show ?thesis by (simp only: list.map sum_list.Cons sum_list.Nil add_0_right)
qed

text \<open>
  The byte encoding of a bit vector decodes to it; a byte string decodes exactly when its
  length is a multiple of eight, to the vector it encodes, and fails with
  \<^verbatim>\<open>ErrInvalidBitVector\<close> otherwise (no panic).
\<close>

theorem bitvector_encoding:
  "UnmarshalBitVector (BitVector_Marshal b) = Ret b \<and>
   (if 8 dvd length bs then \<exists>b'. UnmarshalBitVector bs = Ret b' \<and> BitVector_Marshal b' = bs
    else UnmarshalBitVector bs = Fail (TypesError T_ErrInvalidBitVector))"
  using read_words_Marshal [of b] read_words_inv [of bs "length bs div 8"]
  by (auto simp: UnmarshalBitVector_def dvd_eq_mod_eq_0)

text \<open>
  \<^verbatim>\<open>SetWithIsNew\<close> tests the masked word against 1 instead of 0, so a set bit is reported as new
  unless it is the lowest of its word.
\<close>

lemma SetWithIsNew_repeats:
  assumes "unat N div 64 < length b" "bv_bit b (unat N)" "unat N mod 64 \<noteq> 0"
  shows "\<exists>b'. SetWithIsNew b N = Ret (b', True)"
proof -
  have "\<not> bit (b ! (unat N div 64) AND bit_mask N) 0"
    using assms(3) by (simp add: bit_and_iff bit_bit_mask)
  then have "b ! (unat N div 64) AND bit_mask N \<noteq> 1" by (metis bit_1_0)
  with assms(1) show ?thesis by (simp add: SetWithIsNew_def Let_def)
qed

end
