(* ===== verification/Kv_Stores.thy ===== *)
theory Kv_Stores
  imports Prelude
begin

text \<open>
  The database interface of \<^verbatim>\<open>pttdb/database.go\<close> and the two implementations that do not touch the
  disk: the in-memory database of \<^verbatim>\<open>pttdb/memory_database.go\<close> and the key-prefixing table of
  \<^verbatim>\<open>pttdb/table.go\<close>, which wraps any other database. The interface is a record of operations on a
  state; the contract is the locale \<open>kv_database\<close>, which the implementations interpret.

  The ordered association list \<open>kv_put\<close>, \<open>kv_del\<close> at the end is the store that LevelDB presents.
\<close>

subsection \<open>Definitions\<close>

record 's Database =
  db_Put :: "bytes \<Rightarrow> bytes \<Rightarrow> 's \<Rightarrow> go_error option \<times> 's"
  db_Get :: "bytes \<Rightarrow> 's \<Rightarrow> bytes res"
  db_Has :: "bytes \<Rightarrow> 's \<Rightarrow> bool res"
  db_Delete :: "bytes \<Rightarrow> 's \<Rightarrow> go_error option \<times> 's"

text \<open>\<^verbatim>\<open>errors.New("not found")\<close> of the in-memory database.\<close>

definition mem_not_found :: go_error where
  "mem_not_found = OtherError 1"

type_synonym MemDatabase = "bytes \<rightharpoonup> bytes"

definition NewMemDatabase :: MemDatabase where
  "NewMemDatabase = Map.empty"

definition Mem_Put :: "bytes \<Rightarrow> bytes \<Rightarrow> MemDatabase \<Rightarrow> go_error option \<times> MemDatabase" where
  "Mem_Put key v db = (None, db(key \<mapsto> v))"

definition Mem_Has :: "bytes \<Rightarrow> MemDatabase \<Rightarrow> bool res" where
  "Mem_Has key db = Ret (db key \<noteq> None)"

definition Mem_Get :: "bytes \<Rightarrow> MemDatabase \<Rightarrow> bytes res" where
  "Mem_Get key db = (case db key of Some entry \<Rightarrow> Ret entry | None \<Rightarrow> Fail mem_not_found)"

definition Mem_Delete :: "bytes \<Rightarrow> MemDatabase \<Rightarrow> go_error option \<times> MemDatabase" where
  "Mem_Delete key db = (None, db(key := None))"

definition mem_ops :: "MemDatabase Database" where
  "mem_ops = \<lparr>db_Put = Mem_Put, db_Get = Mem_Get, db_Has = Mem_Has, db_Delete = Mem_Delete\<rparr>"

record memBatch =
  mb_db :: MemDatabase
  mb_writes :: "(bytes \<times> bytes) list"
  mb_deletes :: "bytes list"
  mb_size :: nat

definition Mem_NewBatch :: "MemDatabase \<Rightarrow> memBatch" where
  "Mem_NewBatch db = \<lparr>mb_db = db, mb_writes = [], mb_deletes = [], mb_size = 0\<rparr>"

definition memBatch_Put :: "bytes \<Rightarrow> bytes \<Rightarrow> memBatch \<Rightarrow> memBatch" where
  "memBatch_Put key v b = b\<lparr>mb_writes := mb_writes b @ [(key, v)], mb_size := mb_size b + length v\<rparr>"

definition memBatch_Write :: "memBatch \<Rightarrow> memBatch" where
  "memBatch_Write b =
     b\<lparr>mb_db := fold (\<lambda>key db. db(key := None)) (mb_deletes b)
                (fold (\<lambda>kv db. db(fst kv \<mapsto> snd kv)) (mb_writes b) (mb_db b))\<rparr>"

definition memBatch_Delete :: "bytes \<Rightarrow> memBatch \<Rightarrow> memBatch" where
  "memBatch_Delete key b = b\<lparr>mb_deletes := mb_deletes b @ [key]\<rparr>"

definition memBatch_Reset :: "memBatch \<Rightarrow> memBatch" where
  "memBatch_Reset b = b\<lparr>mb_writes := [], mb_size := 0\<rparr>"

text \<open>\<^verbatim>\<open>NewTable(db, prefix)\<close>: every operation prepends the prefix to the key.\<close>

definition table_Put :: "'s Database \<Rightarrow> bytes \<Rightarrow> bytes \<Rightarrow> bytes \<Rightarrow> 's \<Rightarrow> go_error option \<times> 's" where
  "table_Put db prefix key v = db_Put db (prefix @ key) v"

definition table_Has :: "'s Database \<Rightarrow> bytes \<Rightarrow> bytes \<Rightarrow> 's \<Rightarrow> bool res" where
  "table_Has db prefix key = db_Has db (prefix @ key)"

definition table_Get :: "'s Database \<Rightarrow> bytes \<Rightarrow> bytes \<Rightarrow> 's \<Rightarrow> bytes res" where
  "table_Get db prefix key = db_Get db (prefix @ key)"

definition table_Delete :: "'s Database \<Rightarrow> bytes \<Rightarrow> bytes \<Rightarrow> 's \<Rightarrow> go_error option \<times> 's" where
  "table_Delete db prefix key = db_Delete db (prefix @ key)"

definition NewTable :: "'s Database \<Rightarrow> bytes \<Rightarrow> 's Database" where
  "NewTable db prefix =
     \<lparr>db_Put = table_Put db prefix, db_Get = table_Get db prefix,
      db_Has = table_Has db prefix, db_Delete = table_Delete db prefix\<rparr>"

text \<open>The ordered store.\<close>

type_synonym kv_list = "(bytes \<times> bytes) list"

fun kv_put :: "bytes \<Rightarrow> bytes \<Rightarrow> kv_list \<Rightarrow> kv_list" where
  "kv_put k v [] = [(k, v)]"
| "kv_put k v ((k', v') # s) =
     (if k < k' then (k, v) # (k', v') # s
      else if k = k' then (k, v) # s
      else (k', v') # kv_put k v s)"

definition kv_del :: "bytes \<Rightarrow> kv_list \<Rightarrow> kv_list" where
  "kv_del k s = filter (\<lambda>kv. fst kv \<noteq> k) s"

definition kv_sorted :: "kv_list \<Rightarrow> bool" where
  "kv_sorted s \<longleftrightarrow> sorted_wrt (<) (map fst s)"

subsection \<open>The contract\<close>

text \<open>
  \<open>view\<close> is the map a state stands for. The contract is for states without I/O faults (\<open>inv\<close>).
\<close>

locale kv_database =
  fixes db :: "'s Database"
    and view :: "'s \<Rightarrow> bytes \<rightharpoonup> bytes"
    and inv :: "'s \<Rightarrow> bool"
  assumes put_view: "inv s \<Longrightarrow> \<exists>s'. db_Put db k v s = (None, s') \<and> inv s' \<and> view s' = (view s)(k \<mapsto> v)"
    and del_view: "inv s \<Longrightarrow> \<exists>s'. db_Delete db k s = (None, s') \<and> inv s' \<and> view s' = (view s)(k := None)"
    and get_view: "inv s \<Longrightarrow> view s k = Some v \<Longrightarrow> db_Get db k s = Ret v"
    and get_absent: "inv s \<Longrightarrow> view s k = None \<Longrightarrow> \<exists>e. db_Get db k s = Fail e"
    and has_view: "inv s \<Longrightarrow> db_Has db k s = Ret (view s k \<noteq> None)"
begin

lemma get_after_put:
  assumes "inv s" "db_Put db k v s = (e, s')"
  shows "inv s' \<and> e = None \<and> db_Get db k s' = Ret v \<and> (\<forall>k'. k' \<noteq> k \<longrightarrow> view s' k' = view s k')"
  using put_view [OF assms(1), of k v] assms(2) get_view [of s' k v] by auto

lemma get_congr:
  assumes "inv s" "inv s'" "view s' k = view s k" "db_Get db k s = Ret v"
  shows "db_Get db k s' = Ret v"
  using assms get_view [of s k] get_absent [of s k] get_view [of s' k] by (cases "view s k") auto

lemma absent_after_delete:
  assumes "inv s" "db_Delete db k s = (e, s')"
  shows "inv s' \<and> e = None \<and> db_Has db k s' = Ret False \<and> (\<forall>k'. k' \<noteq> k \<longrightarrow> view s' k' = view s k')"
  using del_view [OF assms(1), of k] assms(2) has_view [of s' k] by auto

end

locale prefixed_database = base: kv_database db view inv
  for db :: "'s Database" and view inv +
  fixes prefix :: bytes

sublocale prefixed_database \<subseteq> table: kv_database "NewTable db prefix" "\<lambda>s k. view s (prefix @ k)" inv
proof
  fix s k v assume s: "inv s"
  show "\<exists>s'. db_Put (NewTable db prefix) k v s = (None, s') \<and> inv s' \<and>
      (\<lambda>k. view s' (prefix @ k)) = (\<lambda>k. view s (prefix @ k))(k \<mapsto> v)"
    using base.put_view [OF s, of "prefix @ k" v] by (auto simp: NewTable_def table_Put_def fun_eq_iff)
  show "\<exists>s'. db_Delete (NewTable db prefix) k s = (None, s') \<and> inv s' \<and>
      (\<lambda>k. view s' (prefix @ k)) = (\<lambda>k. view s (prefix @ k))(k := None)"
    using base.del_view [OF s, of "prefix @ k"] by (auto simp: NewTable_def table_Delete_def fun_eq_iff)
  show "view s (prefix @ k) = Some v \<Longrightarrow> db_Get (NewTable db prefix) k s = Ret v"
    using base.get_view [OF s] by (simp add: NewTable_def table_Get_def)
  show "view s (prefix @ k) = None \<Longrightarrow> \<exists>e. db_Get (NewTable db prefix) k s = Fail e"
    using base.get_absent [OF s] by (simp add: NewTable_def table_Get_def)
  show "db_Has (NewTable db prefix) k s = Ret (view s (prefix @ k) \<noteq> None)"
    using base.has_view [OF s] by (simp add: NewTable_def table_Has_def)
qed

context prefixed_database
begin

text \<open>A table does not see, and does not touch, a key outside its prefix.\<close>

lemma table_frame:
  assumes "inv s" "db_Put (NewTable db prefix) k v s = (e, s')" "\<not> (\<exists>r. k' = prefix @ r)"
  shows "view s' k' = view s k'"
  using base.get_after_put [of s "prefix @ k" v e s'] assms
  by (auto simp: NewTable_def table_Put_def)

end

interpretation mem: kv_database mem_ops "\<lambda>s. s" "\<lambda>s. True"
  by unfold_locales (auto simp: mem_ops_def Mem_Put_def Mem_Get_def Mem_Has_def Mem_Delete_def)

interpretation mem_table: prefixed_database mem_ops "\<lambda>s. s" "\<lambda>s. True" prefix for prefix
  by unfold_locales

subsection \<open>The ordered store\<close>

lemma map_of_kv_put [simp]: "map_of (kv_put k v s) = (map_of s)(k \<mapsto> v)"
  by (induction k v s rule: kv_put.induct) (auto simp: fun_eq_iff)

lemma map_of_kv_del [simp]: "map_of (kv_del k s) = (map_of s)(k := None)"
  by (induction s) (auto simp: kv_del_def fun_eq_iff)

lemma keys_kv_put [simp]: "fst ` set (kv_put k v s) = insert k (fst ` set s)"
  by (induction k v s rule: kv_put.induct) auto

lemma kv_sorted_put [simp]: "kv_sorted s \<Longrightarrow> kv_sorted (kv_put k v s)"
proof (induction k v s rule: kv_put.induct)
  case (2 k v k' v' s)
  then show ?case
    using keys_kv_put [of k v s] by (auto simp: kv_sorted_def simp del: keys_kv_put)
qed (simp add: kv_sorted_def)

lemma kv_sorted_del [simp]: "kv_sorted s \<Longrightarrow> kv_sorted (kv_del k s)"
  unfolding kv_sorted_def kv_del_def sorted_wrt_map by (rule sorted_wrt_filter)

lemma kv_sorted_distinct: "kv_sorted s \<Longrightarrow> distinct (map fst s)"
  by (simp add: kv_sorted_def strict_sorted_iff)

lemma kv_get_iff: "kv_sorted s \<Longrightarrow> map_of s k = Some v \<longleftrightarrow> (k, v) \<in> set s"
  by (simp add: kv_sorted_distinct)

subsection \<open>The in-memory batch\<close>

text \<open>
  \<^verbatim>\<open>Reset\<close> keeps the pending deletions, and \<^verbatim>\<open>Write\<close> applies the deletions after the writes whatever
  the order of the calls: a key deleted and then written again is absent.
\<close>

lemma memBatch_delete_wins:
  "mb_db (memBatch_Write (memBatch_Put k v (memBatch_Delete k (Mem_NewBatch db)))) k = None"
  by (simp add: memBatch_Write_def memBatch_Put_def memBatch_Delete_def Mem_NewBatch_def)

lemma memBatch_reset_keeps_deletes:
  "mb_db (memBatch_Write (memBatch_Reset (memBatch_Delete k (Mem_NewBatch db)))) k = None"
  by (simp add: memBatch_Write_def memBatch_Reset_def memBatch_Delete_def Mem_NewBatch_def)

end
