(* ===== verification/Level_Db.thy ===== *)
theory Level_Db
  imports Kv_Stores Timestamps
begin

text \<open>
  \<^verbatim>\<open>pttdb/ldb_database.go\<close>: the database on LevelDB with its per-key lock map, the update-time guarded
  write \<^verbatim>\<open>TryPut\<close>, and the range iterators.

  LevelDB is an ordered store of byte strings: \<open>ldb_kvs\<close> is kept sorted by key. A call may fail for
  reasons of the disk: \<open>ldb_fault\<close> says which call on which key does, and with what error. Every
  theorem that does not mention it holds under arbitrary faults. \<open>ldb_locks\<close> is \<^verbatim>\<open>lockMap\<close>; each of
  its operations runs under one mutex, so they are atomic.
\<close>

subsection \<open>Definitions\<close>

datatype ldb_op = OpPut | OpHas | OpGet | OpDelete | OpWrite

record LDBDatabase =
  ldb_kvs :: kv_list
  ldb_locks :: "bytes \<rightharpoonup> int"
  ldb_fault :: "ldb_op \<Rightarrow> bytes \<Rightarrow> go_error option"

definition NewLDBDatabase :: "(ldb_op \<Rightarrow> bytes \<Rightarrow> go_error option) \<Rightarrow> kv_list \<Rightarrow> LDBDatabase" where
  "NewLDBDatabase fault kvs = \<lparr>ldb_kvs = kvs, ldb_locks = Map.empty, ldb_fault = fault\<rparr>"

definition TryLockMap :: "bytes \<Rightarrow> LDBDatabase \<Rightarrow> go_error option \<times> LDBDatabase" where
  "TryLockMap key db =
     (case ldb_locks db key of
        Some val \<Rightarrow> (Some (DbError D_ErrBusy), db)
      | None \<Rightarrow> (None, db\<lparr>ldb_locks := (ldb_locks db)(key \<mapsto> -1)\<rparr>))"

definition UnlockMap :: "bytes \<Rightarrow> LDBDatabase \<Rightarrow> go_error option \<times> LDBDatabase" where
  "UnlockMap key db =
     (case ldb_locks db key of
        None \<Rightarrow> (Some (DbError D_ErrInvalidLock), db)
      | Some _ \<Rightarrow> (None, db\<lparr>ldb_locks := (ldb_locks db)(key := None)\<rparr>))"

definition TryRLockMap :: "bytes \<Rightarrow> LDBDatabase \<Rightarrow> go_error option \<times> LDBDatabase" where
  "TryRLockMap key db =
     (case ldb_locks db key of
        Some i \<Rightarrow> (if i < 0 then (Some (DbError D_ErrBusy), db)
                   else (None, db\<lparr>ldb_locks := (ldb_locks db)(key \<mapsto> i + 1)\<rparr>))
      | None \<Rightarrow> (None, db\<lparr>ldb_locks := (ldb_locks db)(key \<mapsto> 1)\<rparr>))"

definition RUnlockMap :: "bytes \<Rightarrow> LDBDatabase \<Rightarrow> LDBDatabase res" where
  "RUnlockMap key db =
     (case ldb_locks db key of
        None \<Rightarrow> Panic
      | Some i \<Rightarrow>
          if i = 0 then Panic
          else if i = 1 then Ret (db\<lparr>ldb_locks := (ldb_locks db)(key := None)\<rparr>)
          else Ret (db\<lparr>ldb_locks := (ldb_locks db)(key \<mapsto> i - 1)\<rparr>))"

definition Ldb_Put :: "bytes \<Rightarrow> bytes \<Rightarrow> LDBDatabase \<Rightarrow> go_error option \<times> LDBDatabase" where
  "Ldb_Put key v db =
     (case ldb_fault db OpPut key of
        Some e \<Rightarrow> (Some e, db)
      | None \<Rightarrow> (None, db\<lparr>ldb_kvs := kv_put key v (ldb_kvs db)\<rparr>))"

definition Ldb_Has :: "bytes \<Rightarrow> LDBDatabase \<Rightarrow> bool res" where
  "Ldb_Has key db =
     (case ldb_fault db OpHas key of
        Some e \<Rightarrow> Fail e
      | None \<Rightarrow> Ret (map_of (ldb_kvs db) key \<noteq> None))"

definition Ldb_Get :: "bytes \<Rightarrow> LDBDatabase \<Rightarrow> bytes res" where
  "Ldb_Get key db =
     (case ldb_fault db OpGet key of
        Some e \<Rightarrow> Fail e
      | None \<Rightarrow> (case map_of (ldb_kvs db) key of None \<Rightarrow> Fail LdbErrNotFound | Some dat \<Rightarrow> Ret dat))"

definition Ldb_Delete :: "bytes \<Rightarrow> LDBDatabase \<Rightarrow> go_error option \<times> LDBDatabase" where
  "Ldb_Delete key db =
     (case ldb_fault db OpDelete key of
        Some e \<Rightarrow> (if e = LdbErrNotFound then None else Some e, db)
      | None \<Rightarrow> (None, db\<lparr>ldb_kvs := kv_del key (ldb_kvs db)\<rparr>))"

text \<open>
  The prologue \<^verbatim>\<open>err := db.TryLockMap(key); if err != nil { return ... }; defer db.UnlockMap(key)\<close>
  shared by the writers, and its read-lock counterpart shared by the readers.
\<close>

definition with_lock ::
  "bytes \<Rightarrow> (go_error \<Rightarrow> 'r) \<Rightarrow> (LDBDatabase \<Rightarrow> 'r \<times> LDBDatabase) \<Rightarrow> LDBDatabase \<Rightarrow> 'r \<times> LDBDatabase" where
  "with_lock key on_err body db =
     (case TryLockMap key db of
        (Some e, db1) \<Rightarrow> (on_err e, db1)
      | (None, db1) \<Rightarrow> (let (r, db2) = body db1 in (r, snd (UnlockMap key db2))))"

definition with_rlock :: "bytes \<Rightarrow> (LDBDatabase \<Rightarrow> 'a res) \<Rightarrow> LDBDatabase \<Rightarrow> 'a res \<times> LDBDatabase" where
  "with_rlock key body db =
     (case TryRLockMap key db of
        (Some e, db1) \<Rightarrow> (Fail e, db1)
      | (None, db1) \<Rightarrow>
          (let r = body db1
           in case RUnlockMap key db1 of Ret db2 \<Rightarrow> (r, db2) | _ \<Rightarrow> (Panic, db1)))"

text \<open>
  \<^verbatim>\<open>TryPut\<close> returns the previous value and an error, either of which may be nil. \<open>dbable\<close> is
  \<^verbatim>\<open>json.Unmarshal\<close> into a \<^verbatim>\<open>DBable\<close>, which reads the update time of a stored object.
\<close>

type_synonym dbable = "bytes \<Rightarrow> Timestamp option"

definition TryPut_body ::
  "dbable \<Rightarrow> bytes \<Rightarrow> bytes \<Rightarrow> Timestamp \<Rightarrow> LDBDatabase \<Rightarrow> (bytes option \<times> go_error option) \<times> LDBDatabase" where
  "TryPut_body dbable key v updateTS db =
     (case Ldb_Has key db of
        Fail e \<Rightarrow> ((None, Some e), db)
      | Panic \<Rightarrow> ((None, None), db)
      | Ret isHasKey \<Rightarrow>
          if \<not> isHasKey then (case Ldb_Put key v db of (err, db') \<Rightarrow> ((None, err), db'))
          else (case Ldb_Get key db of
                  Fail e \<Rightarrow> ((None, Some e), db)
                | Panic \<Rightarrow> ((None, None), db)
                | Ret old \<Rightarrow>
                    (case dbable old of
                       None \<Rightarrow> ((None, Some (DbError D_ErrInvalidDBable)), db)
                     | Some origTS \<Rightarrow>
                         if IsLess updateTS origTS then ((Some old, Some (DbError D_ErrInvalidUpdateTS)), db)
                         else (case Ldb_Put key v db of
                                 (Some e, db') \<Rightarrow> ((None, Some e), db')
                               | (None, db') \<Rightarrow> ((Some old, None), db')))))"

definition TryPut ::
  "dbable \<Rightarrow> bytes \<Rightarrow> bytes \<Rightarrow> Timestamp \<Rightarrow> LDBDatabase \<Rightarrow> (bytes option \<times> go_error option) \<times> LDBDatabase" where
  "TryPut dbable key v updateTS =
     with_lock key (\<lambda>e. (None, Some e)) (TryPut_body dbable key v updateTS)"

definition Pop :: "bytes \<Rightarrow> LDBDatabase \<Rightarrow> bytes res \<times> LDBDatabase" where
  "Pop key =
     with_lock key Fail (\<lambda>db.
       case Ldb_Get key db of
         Ret val \<Rightarrow> (case Ldb_Delete key db of (Some e, db') \<Rightarrow> (Fail e, db') | (None, db') \<Rightarrow> (Ret val, db'))
       | r \<Rightarrow> (r, db))"

text \<open>
  Iterators. LevelDB's iterator stands before the first entry of its range (position 0), at entry
  \<open>i - 1\<close> (position \<open>i\<close>), or past the last one.
\<close>

datatype ListOrder = ListOrderZero | ListOrderPrev | ListOrderNext

record Range =
  Range_Start :: "bytes option"
  Range_Limit :: "bytes option"

fun prefix_limit :: "bytes \<Rightarrow> nat \<Rightarrow> bytes option" where
  "prefix_limit prefix 0 = None"
| "prefix_limit prefix (Suc i) =
     (let c = prefix ! i
      in if c < 255 then Some (take i prefix @ [c + 1]) else prefix_limit prefix i)"

definition BytesPrefix :: "bytes \<Rightarrow> Range" where
  "BytesPrefix prefix = \<lparr>Range_Start = Some prefix, Range_Limit = prefix_limit prefix (length prefix)\<rparr>"

definition in_range :: "Range option \<Rightarrow> bytes \<Rightarrow> bool" where
  "in_range r k =
     (case r of None \<Rightarrow> True
      | Some r \<Rightarrow> (case Range_Start r of None \<Rightarrow> True | Some s \<Rightarrow> s \<le> k) \<and>
                  (case Range_Limit r of None \<Rightarrow> True | Some l \<Rightarrow> k < l))"

record Iterator =
  it_entries :: kv_list
  it_pos :: nat

definition open_iter :: "Range option \<Rightarrow> LDBDatabase \<Rightarrow> Iterator" where
  "open_iter r db = \<lparr>it_entries = filter (\<lambda>kv. in_range r (fst kv)) (ldb_kvs db), it_pos = 0\<rparr>"

definition iter_Next :: "Iterator \<Rightarrow> bool \<times> Iterator" where
  "iter_Next it =
     (if it_pos it < length (it_entries it) then (True, it\<lparr>it_pos := it_pos it + 1\<rparr>)
      else (False, it\<lparr>it_pos := length (it_entries it) + 1\<rparr>))"

definition iter_Prev :: "Iterator \<Rightarrow> bool \<times> Iterator" where
  "iter_Prev it =
     (if it_pos it \<le> 1 then (False, it\<lparr>it_pos := 0\<rparr>)
      else (True, it\<lparr>it_pos := it_pos it - 1\<rparr>))"

definition iter_Seek :: "bytes \<Rightarrow> Iterator \<Rightarrow> Iterator" where
  "iter_Seek key it = it\<lparr>it_pos := length (takeWhile (\<lambda>kv. fst kv < key) (it_entries it)) + 1\<rparr>"

definition iter_current :: "Iterator \<Rightarrow> bytes \<times> bytes" where
  "iter_current it = it_entries it ! (it_pos it - 1)"

definition dbLastKey :: bytes where
  "dbLastKey = [255]"

definition NewIterator :: "ListOrder \<Rightarrow> LDBDatabase \<Rightarrow> Iterator" where
  "NewIterator listOrder db =
     (let iter = open_iter None db
      in if listOrder = ListOrderPrev then iter_Seek dbLastKey iter else iter)"

text \<open>\<^verbatim>\<open>iter.Seek(r.Limit)\<close> with a nil limit seeks the empty key.\<close>

definition NewIteratorWithRange :: "Range option \<Rightarrow> ListOrder \<Rightarrow> LDBDatabase \<Rightarrow> Iterator res" where
  "NewIteratorWithRange r listOrder db =
     (let iter = open_iter r db
      in if listOrder = ListOrderPrev then
           (case r of None \<Rightarrow> Panic
            | Some r' \<Rightarrow> Ret (iter_Seek (case Range_Limit r' of None \<Rightarrow> [] | Some l \<Rightarrow> l) iter))
         else Ret iter)"

definition HasPrefix :: "bytes \<Rightarrow> bytes \<Rightarrow> bool" where
  "HasPrefix s prefix \<longleftrightarrow> length prefix \<le> length s \<and> take (length prefix) s = prefix"

definition NewIteratorWithPrefix ::
  "bytes \<Rightarrow> bytes \<Rightarrow> ListOrder \<Rightarrow> LDBDatabase \<Rightarrow> Iterator res" where
  "NewIteratorWithPrefix start prefix listOrder db =
     (if start = [] \<and> prefix = [] then Ret (NewIterator listOrder db)
      else if start = [] then NewIteratorWithRange (Some (BytesPrefix prefix)) listOrder db
      else if prefix = [] then
        (let startRange = BytesPrefix start;
             r = (case listOrder of
                    ListOrderPrev \<Rightarrow> Some \<lparr>Range_Start = None, Range_Limit = Range_Limit startRange\<rparr>
                  | ListOrderNext \<Rightarrow> Some \<lparr>Range_Start = Range_Start startRange, Range_Limit = None\<rparr>
                  | ListOrderZero \<Rightarrow> None)
         in NewIteratorWithRange r listOrder db)
      else if \<not> HasPrefix start prefix then Fail (DbError D_ErrInvalidPrefix)
      else
        (let startRange = BytesPrefix start;
             prefixRange = BytesPrefix prefix;
             r = (case listOrder of
                    ListOrderPrev \<Rightarrow> Some \<lparr>Range_Start = Range_Start prefixRange, Range_Limit = Range_Limit startRange\<rparr>
                  | ListOrderNext \<Rightarrow> Some \<lparr>Range_Start = Range_Start startRange, Range_Limit = Range_Limit prefixRange\<rparr>
                  | ListOrderZero \<Rightarrow> None)
         in NewIteratorWithRange r listOrder db))"

definition GetFuncIter :: "ListOrder \<Rightarrow> (Iterator \<Rightarrow> bool \<times> Iterator) option" where
  "GetFuncIter listOrder =
     (case listOrder of
        ListOrderNext \<Rightarrow> Some iter_Next
      | ListOrderPrev \<Rightarrow> Some iter_Prev
      | ListOrderZero \<Rightarrow> None)"

definition GetIterByID ::
  "bytes \<Rightarrow> bytes \<Rightarrow> bytes option \<Rightarrow> ListOrder \<Rightarrow> LDBDatabase \<Rightarrow> Iterator res" where
  "GetIterByID prefix idxPrefix startID listOrder db =
     (case startID of
        None \<Rightarrow> NewIteratorWithPrefix [] prefix listOrder db
      | Some sid \<Rightarrow>
          res_bind (Concat [Some idxPrefix, Some sid]) (\<lambda>idxKey.
            res_bind (Ldb_Get idxKey db) (\<lambda>key.
              NewIteratorWithPrefix key prefix listOrder db)))"

text \<open>The database without the keys with a prefix.\<close>

definition without_prefix :: "bytes \<Rightarrow> LDBDatabase \<Rightarrow> LDBDatabase" where
  "without_prefix p db = db\<lparr>ldb_kvs := filter (\<lambda>kv. \<not> HasPrefix (fst kv) p) (ldb_kvs db)\<rparr>"

text \<open>The entries a loop over the iterator visits.\<close>

definition visited :: "ListOrder \<Rightarrow> Iterator \<Rightarrow> kv_list" where
  "visited listOrder it =
     (case listOrder of
        ListOrderNext \<Rightarrow> drop (it_pos it) (it_entries it)
      | ListOrderPrev \<Rightarrow> rev (take (it_pos it - 1) (it_entries it))
      | ListOrderZero \<Rightarrow> [])"

definition ldb_ops :: "LDBDatabase Database" where
  "ldb_ops = \<lparr>db_Put = Ldb_Put, db_Get = Ldb_Get, db_Has = Ldb_Has, db_Delete = Ldb_Delete\<rparr>"

definition ldb_ok :: "LDBDatabase \<Rightarrow> bool" where
  "ldb_ok db \<longleftrightarrow> kv_sorted (ldb_kvs db)"

definition no_fault :: "LDBDatabase \<Rightarrow> bool" where
  "no_fault db \<longleftrightarrow> ldb_fault db = (\<lambda>_ _. None)"

definition ldb_view :: "LDBDatabase \<Rightarrow> bytes \<rightharpoonup> bytes" where
  "ldb_view db = map_of (ldb_kvs db)"

subsection \<open>Locks\<close>

lemma with_lock_busy:
  "ldb_locks db key \<noteq> None \<Longrightarrow> with_lock key on_err body db = (on_err (DbError D_ErrBusy), db)"
  by (auto simp: with_lock_def TryLockMap_def)

lemma with_lock_run:
  assumes "ldb_locks db key = None"
    and "body (db\<lparr>ldb_locks := (ldb_locks db)(key \<mapsto> -1)\<rparr>) = (r, db')"
    and "ldb_locks db' = (ldb_locks db)(key \<mapsto> -1)"
  shows "with_lock key on_err body db = (r, db'\<lparr>ldb_locks := ldb_locks db\<rparr>)"
proof -
  have "(ldb_locks db)(key := None) = ldb_locks db" using assms(1) by (simp add: fun_upd_idem)
  with assms show ?thesis by (simp add: with_lock_def TryLockMap_def UnlockMap_def)
qed

lemma with_lock_frame:
  assumes "\<And>db. ldb_locks (snd (body db)) = ldb_locks db"
  shows "ldb_locks (snd (with_lock key on_err body db)) = ldb_locks db"
proof (cases "ldb_locks db key = None")
  case True
  obtain r db' where b: "body (db\<lparr>ldb_locks := (ldb_locks db)(key \<mapsto> -1)\<rparr>) = (r, db')" by fastforce
  have "ldb_locks db' = (ldb_locks db)(key \<mapsto> -1)"
    using assms [of "db\<lparr>ldb_locks := (ldb_locks db)(key \<mapsto> -1)\<rparr>"] by (simp add: b)
  then show ?thesis by (simp add: with_lock_run [where body = body, OF True b])
qed (simp add: with_lock_busy)

text \<open>A reader leaves the database as it was and never panics on the unlock.\<close>

lemma with_rlock_eq:
  "with_rlock key body db =
     (if \<exists>i < 0. ldb_locks db key = Some i then (Fail (DbError D_ErrBusy), db)
      else if ldb_locks db key = Some 0 then
        (body (db\<lparr>ldb_locks := (ldb_locks db)(key \<mapsto> 1)\<rparr>), db\<lparr>ldb_locks := (ldb_locks db)(key := None)\<rparr>)
      else (body (db\<lparr>ldb_locks := (ldb_locks db)(key \<mapsto> (case ldb_locks db key of None \<Rightarrow> 1 | Some i \<Rightarrow> i + 1))\<rparr>), db))"
proof (cases "ldb_locks db key")
  case None
  then have "(ldb_locks db)(key := None) = ldb_locks db" by (simp add: fun_upd_idem)
  with None show ?thesis by (simp add: with_rlock_def TryRLockMap_def RUnlockMap_def Let_def)
next
  case (Some i)
  then have "(ldb_locks db)(key \<mapsto> i) = ldb_locks db" by (simp add: fun_upd_idem)
  with Some show ?thesis by (auto simp: with_rlock_def TryRLockMap_def RUnlockMap_def Let_def)
qed

text \<open>No operation stores a count of zero, so a lock map reached by them has none.\<close>

definition locks_nonzero :: "LDBDatabase \<Rightarrow> bool" where
  "locks_nonzero db \<longleftrightarrow> (\<forall>k. ldb_locks db k \<noteq> Some 0)"

lemma with_rlock_state [simp]: "locks_nonzero db \<Longrightarrow> snd (with_rlock key body db) = db"
  by (auto simp: with_rlock_eq locks_nonzero_def)

lemma with_rlock_result:
  assumes "locks_nonzero db" "\<And>l. body (db\<lparr>ldb_locks := l\<rparr>) = body db"
  shows "fst (with_rlock key body db) =
    (if \<exists>i < 0. ldb_locks db key = Some i then Fail (DbError D_ErrBusy) else body db)"
  using assms by (auto simp: with_rlock_eq locks_nonzero_def)

subsection \<open>Reads and writes\<close>

lemma Ldb_upd_locks [simp]:
  "Ldb_Get k (db\<lparr>ldb_locks := l\<rparr>) = Ldb_Get k db"
  "Ldb_Has k (db\<lparr>ldb_locks := l\<rparr>) = Ldb_Has k db"
  by (simp_all add: Ldb_Get_def Ldb_Has_def split: option.split)

lemma Ldb_not_panic [simp]: "Ldb_Get k db \<noteq> Panic" "Ldb_Has k db \<noteq> Panic"
  by (auto simp: Ldb_Get_def Ldb_Has_def split: option.splits)

lemma Ldb_Get_Ret: "Ldb_Get k db = Ret v \<Longrightarrow> map_of (ldb_kvs db) k = Some v"
  by (auto simp: Ldb_Get_def split: option.splits)

lemma Ldb_Put_frame [simp]:
  "ldb_locks (snd (Ldb_Put k v db)) = ldb_locks db" "ldb_fault (snd (Ldb_Put k v db)) = ldb_fault db"
  "ldb_ok db \<Longrightarrow> ldb_ok (snd (Ldb_Put k v db))"
  by (auto simp: Ldb_Put_def ldb_ok_def split: option.splits)

lemma Ldb_Delete_frame [simp]:
  "ldb_locks (snd (Ldb_Delete k db)) = ldb_locks db" "ldb_fault (snd (Ldb_Delete k db)) = ldb_fault db"
  "ldb_ok db \<Longrightarrow> ldb_ok (snd (Ldb_Delete k db))"
  by (auto simp: Ldb_Delete_def ldb_ok_def split: option.splits)

lemmas ldb_op_defs = Ldb_Put_def Ldb_Get_def Ldb_Has_def Ldb_Delete_def

interpretation ldb: kv_database ldb_ops ldb_view no_fault
  by unfold_locales (auto simp: ldb_ops_def ldb_op_defs no_fault_def ldb_view_def)

interpretation ldb_table: prefixed_database ldb_ops ldb_view no_fault prefix for prefix
  by unfold_locales

lemma TryPut_body_frame [simp]: "ldb_locks (snd (TryPut_body dbable k v ts db)) = ldb_locks db"
proof -
  have "ldb_locks db' = ldb_locks db" if "Ldb_Put k v db = (e, db')" for e db'
    using Ldb_Put_frame(1) [of k v db] that by simp
  then show ?thesis
    by (auto simp: TryPut_body_def split: res.splits option.splits prod.splits)
qed

text \<open>\<^verbatim>\<open>TryPut\<close> on a database without faults, by what is stored under the key.\<close>

lemma TryPut_eq:
  assumes "no_fault db" "ldb_locks db key = None"
  shows "TryPut dbable key v ts db =
    (case map_of (ldb_kvs db) key of
       None \<Rightarrow> ((None, None), db\<lparr>ldb_kvs := kv_put key v (ldb_kvs db)\<rparr>)
     | Some old \<Rightarrow>
         (case dbable old of
            None \<Rightarrow> ((None, Some (DbError D_ErrInvalidDBable)), db)
          | Some origTS \<Rightarrow>
              if ts < origTS then ((Some old, Some (DbError D_ErrInvalidUpdateTS)), db)
              else ((Some old, None), db\<lparr>ldb_kvs := kv_put key v (ldb_kvs db)\<rparr>)))"
proof -
  let ?db = "db\<lparr>ldb_locks := (ldb_locks db)(key \<mapsto> -1)\<rparr>"
  obtain r db' where b: "TryPut_body dbable key v ts ?db = (r, db')" by fastforce
  have l: "ldb_locks db' = (ldb_locks db)(key \<mapsto> -1)"
    using TryPut_body_frame [of dbable key v ts ?db] b by simp
  show ?thesis
    unfolding TryPut_def with_lock_run [where body = "TryPut_body dbable key v ts", OF assms(2) b l]
    using b assms
    by (auto simp: TryPut_body_def ldb_op_defs no_fault_def split: option.splits if_splits)
qed

lemma TryPut_body_spec:
  "case TryPut_body dbable key v ts db of ((old, err), db') \<Rightarrow>
     ldb_kvs db' = ldb_kvs db \<and> err \<noteq> None \<or>
     ldb_kvs db' = kv_put key v (ldb_kvs db) \<and> err = None \<and> old = map_of (ldb_kvs db) key \<and>
     (\<forall>orig. map_of (ldb_kvs db) key = Some orig \<longrightarrow> (\<exists>t. dbable orig = Some t \<and> \<not> ts < t))"
proof (cases "ldb_fault db OpHas key")
  case has: None
  show ?thesis
  proof (cases "map_of (ldb_kvs db) key")
    case None
    with has show ?thesis
      by (cases "ldb_fault db OpPut key") (simp_all add: TryPut_body_def ldb_op_defs)
  next
    case (Some orig)
    with has show ?thesis
      by (cases "ldb_fault db OpGet key"; cases "ldb_fault db OpPut key"; cases "dbable orig")
        (simp_all add: TryPut_body_def ldb_op_defs)
  qed
qed (simp add: TryPut_body_def ldb_op_defs)

subsection \<open>Update times\<close>

lemma TryPut_no_fault [simp]:
  assumes "no_fault db" "ldb_locks db key = None"
  shows "no_fault (snd (TryPut dbable key v ts db))" "ldb_locks (snd (TryPut dbable key v ts db)) = ldb_locks db"
  using assms by (auto simp: TryPut_eq no_fault_def split: option.split)

text \<open>A sequence of guarded writes to one key.\<close>

definition tryputs :: "dbable \<Rightarrow> bytes \<Rightarrow> (bytes \<times> Timestamp) list \<Rightarrow> LDBDatabase \<Rightarrow> LDBDatabase" where
  "tryputs dbable key ws db = fold (\<lambda>w db. snd (TryPut dbable key (fst w) (snd w) db)) ws db"

lemma tryputs_latest:
  assumes "no_fault db" "ldb_locks db key = None"
    and "ldb_view db key = Some v0" "dbable v0 = Some t0"
    and "\<forall>w \<in> set ws. dbable (fst w) = Some (snd w)"
  shows "\<exists>w \<in> set ((v0, t0) # ws). ldb_view (tryputs dbable key ws db) = (ldb_view db)(key \<mapsto> fst w) \<and>
    (\<forall>u \<in> set ((v0, t0) # ws). snd u \<le> snd w)"
  using assms
proof (induction ws arbitrary: db v0 t0)
  case Nil
  then have "(ldb_view db)(key \<mapsto> v0) = ldb_view db" by (simp add: fun_upd_idem)
  then show ?case by (simp add: tryputs_def)
next
  case (Cons w ws)
  let ?db = "snd (TryPut dbable key (fst w) (snd w) db)"
  have nf: "no_fault ?db" "ldb_locks ?db key = None" using Cons.prems by simp_all
  have seq: "tryputs dbable key (w # ws) db = tryputs dbable key ws ?db" by (simp add: tryputs_def)
  show ?case
  proof (cases "snd w < t0")
    case True
    then have "?db = db" using Cons.prems by (simp add: TryPut_eq ldb_view_def)
    then have "\<exists>u \<in> set ((v0, t0) # ws). ldb_view (tryputs dbable key ws db) = (ldb_view db)(key \<mapsto> fst u) \<and>
        (\<forall>x \<in> set ((v0, t0) # ws). snd x \<le> snd u)"
      using Cons.prems by (intro Cons.IH) auto
    then obtain u where u: "u \<in> set ((v0, t0) # ws)" "\<forall>x \<in> set ((v0, t0) # ws). snd x \<le> snd u"
      "ldb_view (tryputs dbable key ws db) = (ldb_view db)(key \<mapsto> fst u)" by blast
    then have "snd w \<le> snd u" using True by auto
    with u \<open>?db = db\<close> show ?thesis unfolding seq by (intro bexI [of _ u]) auto
  next
    case False
    then have upd: "ldb_view ?db = (ldb_view db)(key \<mapsto> fst w)"
      using Cons.prems by (simp add: TryPut_eq ldb_view_def)
    then have "\<exists>u \<in> set ((fst w, snd w) # ws). ldb_view (tryputs dbable key ws ?db) = (ldb_view ?db)(key \<mapsto> fst u) \<and>
        (\<forall>x \<in> set ((fst w, snd w) # ws). snd x \<le> snd u)"
      using Cons.prems by (intro Cons.IH [OF nf]) auto
    then obtain u where u: "u \<in> set (w # ws)" "\<forall>x \<in> set (w # ws). snd x \<le> snd u"
      "ldb_view (tryputs dbable key ws ?db) = (ldb_view db)(key \<mapsto> fst u)" unfolding upd prod.collapse fun_upd_upd by blast
    then have "t0 \<le> snd u" using False by auto
    with u show ?thesis unfolding seq by (intro bexI [of _ u]) auto
  qed
qed

lemma tryputs_fresh:
  assumes "no_fault db" "ldb_locks db key = None" "ldb_view db key = None"
    and "\<forall>w \<in> set ws. dbable (fst w) = Some (snd w)" "ws \<noteq> []"
  shows "\<exists>w \<in> set ws. ldb_view (tryputs dbable key ws db) = (ldb_view db)(key \<mapsto> fst w) \<and>
    (\<forall>u \<in> set ws. snd u \<le> snd w)"
proof -
  obtain w ws' where ws: "ws = w # ws'" using assms(5) by (cases ws) auto
  let ?db = "snd (TryPut dbable key (fst w) (snd w) db)"
  have upd: "ldb_view ?db = (ldb_view db)(key \<mapsto> fst w)"
    using assms by (simp add: TryPut_eq ldb_view_def)
  have "\<exists>u \<in> set ((fst w, snd w) # ws'). ldb_view (tryputs dbable key ws' ?db) = (ldb_view ?db)(key \<mapsto> fst u) \<and>
      (\<forall>x \<in> set ((fst w, snd w) # ws'). snd x \<le> snd u)"
    using assms upd by (intro tryputs_latest) (auto simp: ws)
  moreover have "tryputs dbable key ws db = tryputs dbable key ws' ?db" by (simp add: tryputs_def ws)
  ultimately show ?thesis unfolding ws upd by simp
qed

subsection \<open>Iterators\<close>

text \<open>Stepping an iterator visits the entries of \<open>visited\<close>, one per successful step.\<close>

lemma iter_Next_visited:
  "iter_Next it = (b, it') \<Longrightarrow>
    (if b then visited ListOrderNext it = iter_current it' # visited ListOrderNext it'
     else visited ListOrderNext it = [])"
  by (auto simp: iter_Next_def visited_def iter_current_def Cons_nth_drop_Suc split: if_splits)

lemma iter_Prev_visited:
  "it_pos it \<le> length (it_entries it) + 1 \<Longrightarrow> iter_Prev it = (b, it') \<Longrightarrow>
    (if b then visited ListOrderPrev it = iter_current it' # visited ListOrderPrev it'
     else visited ListOrderPrev it = [])"
proof -
  assume le: "it_pos it \<le> length (it_entries it) + 1" and eq: "iter_Prev it = (b, it')"
  show ?thesis
  proof (cases "it_pos it \<le> 1")
    case False
    then obtain p where p: "it_pos it = Suc (Suc p)" by (metis One_nat_def not0_implies_Suc not_less_eq_eq zero_le)
    with le have "take (Suc p) (it_entries it) = take p (it_entries it) @ [it_entries it ! p]"
      by (intro take_Suc_conv_app_nth) simp
    with p eq show ?thesis by (auto simp: iter_Prev_def visited_def iter_current_def)
  qed (use eq in \<open>auto simp: iter_Prev_def visited_def\<close>)
qed

text \<open>The limit of a prefix, by recursion from the front, and what the range of a prefix holds.\<close>

fun prefix_next :: "bytes \<Rightarrow> bytes option" where
  "prefix_next [] = None"
| "prefix_next (c # p) =
     (case prefix_next p of
        Some l \<Rightarrow> Some (c # l)
      | None \<Rightarrow> if c < 255 then Some [c + 1] else None)"

lemma prefix_limit_Cons: "i \<le> length p \<Longrightarrow> prefix_limit (c # p) (Suc i) =
    (case prefix_limit p i of Some l \<Rightarrow> Some (c # l) | None \<Rightarrow> if c < 255 then Some [c + 1] else None)"
proof (induction i)
  case (Suc i)
  then show ?case
    by (simp only: prefix_limit.simps(2) [of "c # p" "Suc i"]) (simp add: Let_def)
qed simp

lemma prefix_limit_next: "prefix_limit p (length p) = prefix_next p"
  by (induction p) (simp_all add: prefix_limit_Cons del: prefix_limit.simps(2))

lemma byte_le_255: "(c :: byte) \<le> 255"
  using unat_byte_bound [of c] by (simp add: word_le_nat_alt)

lemma prefix_range:
  "HasPrefix k p \<longleftrightarrow> p \<le> k \<and> (case prefix_next p of None \<Rightarrow> True | Some l \<Rightarrow> k < l)"
proof (induction p arbitrary: k)
  case Nil
  then show ?case by (simp add: HasPrefix_def)
next
  case (Cons c p)
  show ?case
  proof (cases k)
    case Nil
    then show ?thesis by (simp add: HasPrefix_def)
  next
    case k: (Cons d k')
    have hp: "HasPrefix (d # k') (c # p) \<longleftrightarrow> d = c \<and> HasPrefix k' p" by (auto simp: HasPrefix_def)
    show ?thesis
    proof (cases d c rule: linorder_cases)
      case less
      then show ?thesis unfolding k hp by auto
    next
      case equal
      have "c < c + 1" if "c < 255"
        using that by (simp add: word_less_nat_alt unat_word_ariths)
      with equal show ?thesis unfolding k hp Cons.IH [of k'] by (auto split: option.splits)
    next
      case greater
      have "c + 1 \<le> d" "c < 255"
        using greater byte_le_255 [of d] by (auto simp: inc_le intro: less_le_trans)
      with greater show ?thesis unfolding k hp by (auto split: option.splits)
    qed
  qed
qed

lemma filter_takeWhile_limit:
  assumes "kv_sorted s" "\<And>k. P k \<Longrightarrow> k < l"
  shows "takeWhile (\<lambda>kv. fst kv < l) (filter (\<lambda>kv. P (fst kv)) s) = filter (\<lambda>kv. P (fst kv)) s"
  using assms(2) by (auto simp: takeWhile_eq_all_conv)

lemma HasPrefix_refl [simp]: "HasPrefix k k"
  by (simp add: HasPrefix_def)

lemma HasPrefix_iff: "HasPrefix k p \<longleftrightarrow> (\<exists>r. k = p @ r)"
  unfolding HasPrefix_def by (metis append_take_drop_id append_eq_conv_conj length_append le_add1)

lemma HasPrefix_trans: "HasPrefix k s \<Longrightarrow> HasPrefix s p \<Longrightarrow> HasPrefix k p"
  by (auto simp: HasPrefix_iff)

lemma prefix_next_None: "prefix_next p = None \<longleftrightarrow> (\<forall>c \<in> set p. c = 255)"
proof (induction p)
  case (Cons c p)
  have "c < 255 \<longleftrightarrow> c \<noteq> 255" using byte_le_255 [of c] by auto
  with Cons show ?case by (auto split: option.splits)
qed simp

lemma range_next_iff:
  assumes "HasPrefix start p"
  shows "in_range (Some \<lparr>Range_Start = Some start, Range_Limit = prefix_next p\<rparr>) k \<longleftrightarrow>
    HasPrefix k p \<and> start \<le> k"
  using assms prefix_range [of start p] prefix_range [of k p] by (auto simp: in_range_def)

lemma range_prev_iff:
  assumes "HasPrefix start p" and l: "prefix_next start = Some l"
  shows "in_range (Some \<lparr>Range_Start = Some p, Range_Limit = Some l\<rparr>) k \<longleftrightarrow>
    HasPrefix k p \<and> (k \<le> start \<or> HasPrefix k start)"
proof
  assume "in_range (Some \<lparr>Range_Start = Some p, Range_Limit = Some l\<rparr>) k"
  then have k: "p \<le> k" "k < l" by (simp_all add: in_range_def)
  show "HasPrefix k p \<and> (k \<le> start \<or> HasPrefix k start)"
  proof (cases "start \<le> k")
    case True
    then have "HasPrefix k start" using k l by (simp add: prefix_range [of k start])
    then show ?thesis using HasPrefix_trans assms(1) by blast
  next
    case False
    then have "k < start" by simp
    with assms(1) k(1) have "HasPrefix k p"
      unfolding prefix_range by (auto split: option.splits)
    with \<open>k < start\<close> show ?thesis by (simp add: less_imp_le)
  qed
next
  assume k: "HasPrefix k p \<and> (k \<le> start \<or> HasPrefix k start)"
  have "start < l" using prefix_range [of start start] l by simp
  with k l show "in_range (Some \<lparr>Range_Start = Some p, Range_Limit = Some l\<rparr>) k"
    by (auto simp: in_range_def prefix_range)
qed

lemma visited_range_prev:
  assumes "\<And>k. in_range (Some r) k \<Longrightarrow> k < l" "Range_Limit r = Some l"
  shows "\<exists>it. NewIteratorWithRange (Some r) ListOrderPrev db = Ret it \<and>
    visited ListOrderPrev it = rev (filter (\<lambda>kv. in_range (Some r) (fst kv)) (ldb_kvs db))"
proof -
  have "takeWhile (\<lambda>kv. fst kv < l) (filter (\<lambda>kv. in_range (Some r) (fst kv)) (ldb_kvs db)) =
      filter (\<lambda>kv. in_range (Some r) (fst kv)) (ldb_kvs db)"
    using assms(1) by (auto simp: takeWhile_eq_all_conv)
  then show ?thesis
    using assms(2) by (simp add: NewIteratorWithRange_def iter_Seek_def open_iter_def visited_def
        del: takeWhile_eq_all_conv)
qed

text \<open>Without a limit the descending iterator seeks to the start of the range and has nothing before it.\<close>

lemma visited_range_prev_unbounded:
  assumes "Range_Limit r = None"
  shows "\<exists>it. NewIteratorWithRange (Some r) ListOrderPrev db = Ret it \<and> visited ListOrderPrev it = []"
proof -
  have "takeWhile (\<lambda>kv. fst kv < []) xs = []" for xs :: kv_list by (cases xs) simp_all
  then show ?thesis
    using assms by (simp add: NewIteratorWithRange_def iter_Seek_def open_iter_def visited_def)
qed

lemma visited_range_next:
  "\<exists>it. NewIteratorWithRange r ListOrderNext db = Ret it \<and>
    visited ListOrderNext it = filter (\<lambda>kv. in_range r (fst kv)) (ldb_kvs db)"
  by (simp add: NewIteratorWithRange_def open_iter_def visited_def)

lemma in_range_prefix: "in_range (Some (BytesPrefix p)) k \<longleftrightarrow> HasPrefix k p"
  using range_next_iff [OF HasPrefix_refl, of p k] prefix_range [of k p]
  by (auto simp: BytesPrefix_def prefix_limit_next)

lemma map_of_filter_key: "map_of (filter (\<lambda>kv. P (fst kv)) s) k = (if P k then map_of s k else None)"
  by (induction s) auto

lemma without_prefix_view:
  "ldb_view (without_prefix p db) k = (if HasPrefix k p then None else ldb_view db k)"
  using map_of_filter_key [of "\<lambda>k. \<not> HasPrefix k p" "ldb_kvs db" k]
  by (simp add: without_prefix_def ldb_view_def)

lemma HasPrefix_take: "HasPrefix k p \<Longrightarrow> n \<le> length p \<Longrightarrow> take n k = take n p"
  by (auto simp: HasPrefix_iff)

lemma two_prefixes_apart:
  assumes "length p = length q" "p \<noteq> q" "HasPrefix k p"
  shows "\<not> HasPrefix k q"
  using assms by (auto simp: HasPrefix_def)

subsection \<open>Properties\<close>

text \<open>
  C27: \<^verbatim>\<open>TryPut\<close> under arbitrary disk faults: it leaves the locks as they were and every other key
  alone; the stored value changes only to the given value, and only if nothing was stored or the
  stored object is not newer; a nil error means that the value is stored and the previous one was
  returned.
\<close>

theorem tryput_guard:
  assumes "TryPut dbable key v ts db = ((old, err), db')"
  shows "ldb_locks db' = ldb_locks db \<and>
    (\<forall>k. k \<noteq> key \<longrightarrow> ldb_view db' k = ldb_view db k) \<and>
    (ldb_view db' key = ldb_view db key \<or>
     ldb_view db' key = Some v \<and>
     (\<forall>orig. ldb_view db key = Some orig \<longrightarrow> (\<exists>t. dbable orig = Some t \<and> \<not> IsLess ts t))) \<and>
    (err = None \<longrightarrow> ldb_view db' key = Some v \<and> old = ldb_view db key)"
proof (cases "ldb_locks db key = None")
  case False
  with assms show ?thesis by (auto simp: TryPut_def with_lock_busy)
next
  case True
  let ?db = "db\<lparr>ldb_locks := (ldb_locks db)(key \<mapsto> -1)\<rparr>"
  obtain r db2 where b: "TryPut_body dbable key v ts ?db = (r, db2)" by fastforce
  have l: "ldb_locks db2 = (ldb_locks db)(key \<mapsto> -1)"
    using TryPut_body_frame [of dbable key v ts ?db] b by simp
  have r: "r = (old, err)" "db' = db2\<lparr>ldb_locks := ldb_locks db\<rparr>"
    using assms unfolding TryPut_def
      with_lock_run [where body = "TryPut_body dbable key v ts", OF True b l] by auto
  have v: "ldb_view db' = map_of (ldb_kvs db2)" "ldb_locks db' = ldb_locks db" by (simp_all add: r ldb_view_def)
  have o: "ldb_view db = map_of (ldb_kvs ?db)" by (simp add: ldb_view_def)
  from TryPut_body_spec [where dbable = dbable and key = key and v = v and ts = ts and db = ?db, unfolded b r(1) prod.case] show ?thesis
    unfolding v o by (elim disjE) auto
qed

text \<open>A concrete update-time reader for the examples: the length of the value.\<close>

definition length_dbable :: dbable where
  "length_dbable b = Some (mkTs (int (length b)) 0)"

definition example_db :: LDBDatabase where
  "example_db = NewLDBDatabase (\<lambda>_ _. None) [([1], [7, 7]), ([1, 2], [8]), ([2], [])]"

theorem tryput_guard_witness:
  "let r = TryPut length_dbable [1] [9] (mkTs 1 0) example_db
   in fst r = (Some [7, 7], Some (DbError D_ErrInvalidUpdateTS)) \<and> ldb_locks (snd r) = Map.empty \<and>
      ldb_view (snd r) [2] = Some []"
proof -
  have e: "TryPut length_dbable [1] [9] (mkTs 1 0) example_db =
      ((Some [7, 7], Some (DbError D_ErrInvalidUpdateTS)), example_db)"
    by (subst TryPut_eq) (simp_all add: example_db_def NewLDBDatabase_def no_fault_def length_dbable_def mkTs_less_iff)
  from tryput_guard [OF e] show ?thesis
    by (simp add: e Let_def) (simp add: example_db_def NewLDBDatabase_def ldb_view_def)
qed

text \<open>
  C24: guarded writes converge. Whatever the order in which objects with different update times
  arrive under a fresh key, the database ends with the newest one, and no other key changes.
\<close>

theorem tryput_converges:
  assumes "no_fault db" "ldb_locks db key = None" "ldb_view db key = None"
    and "\<forall>w \<in> set ws. dbable (fst w) = Some (snd w)" "distinct (map snd ws)" "mset ws = mset ws'"
  shows "ldb_view (tryputs dbable key ws db) = ldb_view (tryputs dbable key ws' db)"
proof (cases "ws = []")
  case True
  then show ?thesis using assms(6) by (simp add: tryputs_def)
next
  case False
  have eq: "set ws' = set ws" using assms(6) by (metis set_mset_mset)
  obtain w where w: "w \<in> set ws" "ldb_view (tryputs dbable key ws db) = (ldb_view db)(key \<mapsto> fst w)"
    "\<forall>u \<in> set ws. snd u \<le> snd w"
    using tryputs_fresh [OF assms(1-4) False] by blast
  have "ws' \<noteq> []" using False assms(6) by auto
  then obtain w' where w': "w' \<in> set ws" "ldb_view (tryputs dbable key ws' db) = (ldb_view db)(key \<mapsto> fst w')"
    "\<forall>u \<in> set ws. snd u \<le> snd w'"
    using tryputs_fresh [OF assms(1-3), of ws'] assms(4) unfolding eq by blast
  have "snd w = snd w'" using w w' by (meson antisym)
  then have "w = w'" using assms(5) w(1) w'(1) by (meson distinct_map inj_onD)
  with w w' show ?thesis by simp
qed

theorem tryput_converges_witness:
  "ldb_view (tryputs length_dbable [3] [([5], mkTs 1 0), ([6, 6], mkTs 2 0)] example_db) =
   ldb_view (tryputs length_dbable [3] [([6, 6], mkTs 2 0), ([5], mkTs 1 0)] example_db)"
  by (rule tryput_converges)
    (simp_all add: example_db_def NewLDBDatabase_def no_fault_def length_dbable_def ldb_view_def add_mset_commute)

text \<open>
  C30: iterating over a prefix from a start key visits exactly the stored keys with that prefix that
  are at or after the start, in ascending order. Backwards it visits exactly the stored keys with that prefix that
  are at or before the start or extend it, in descending order; but from a start that is made of bytes 255 only it
  visits nothing, since there is no limit to seek to.
\<close>

theorem prefix_iteration:
  assumes "prefix \<noteq> []" "HasPrefix start prefix"
  shows "(\<exists>it. NewIteratorWithPrefix start prefix ListOrderNext db = Ret it \<and>
      visited ListOrderNext it =
        filter (\<lambda>kv. HasPrefix (fst kv) prefix \<and> start \<le> fst kv) (ldb_kvs db)) \<and>
    (\<exists>it. NewIteratorWithPrefix start prefix ListOrderPrev db = Ret it \<and>
      visited ListOrderPrev it =
        (if list_all (\<lambda>c. c = 255) start then []
         else rev (filter (\<lambda>kv. HasPrefix (fst kv) prefix \<and> (fst kv \<le> start \<or> HasPrefix (fst kv) start))
                (ldb_kvs db))))"
proof -
  have start: "start \<noteq> []" using assms by (auto simp: HasPrefix_def)
  let ?n = "Some \<lparr>Range_Start = Some start, Range_Limit = prefix_next prefix\<rparr>"
  have n: "NewIteratorWithPrefix start prefix ListOrderNext db = NewIteratorWithRange ?n ListOrderNext db"
    using assms start by (simp add: NewIteratorWithPrefix_def BytesPrefix_def prefix_limit_next Let_def)
  let ?p = "\<lparr>Range_Start = Some prefix, Range_Limit = prefix_next start\<rparr>"
  have p: "NewIteratorWithPrefix start prefix ListOrderPrev db = NewIteratorWithRange (Some ?p) ListOrderPrev db"
    using assms start by (simp add: NewIteratorWithPrefix_def BytesPrefix_def prefix_limit_next Let_def)
  have "\<exists>it. NewIteratorWithPrefix start prefix ListOrderPrev db = Ret it \<and>
      visited ListOrderPrev it =
        (if list_all (\<lambda>c. c = 255) start then []
         else rev (filter (\<lambda>kv. HasPrefix (fst kv) prefix \<and> (fst kv \<le> start \<or> HasPrefix (fst kv) start))
                (ldb_kvs db)))"
  proof (cases "prefix_next start")
    case None
    then have "list_all (\<lambda>c. c = 255) start" using prefix_next_None by (simp add: list_all_iff)
    then show ?thesis using visited_range_prev_unbounded [of ?p db] None unfolding p by simp
  next
    case (Some l)
    then have "\<not> list_all (\<lambda>c. c = 255) start" using prefix_next_None [of start] by (auto simp: list_all_iff)
    moreover have "in_range (Some ?p) k \<Longrightarrow> k < l" for k using Some by (simp add: in_range_def)
    ultimately show ?thesis
      using visited_range_prev [of ?p l db] range_prev_iff [OF assms(2) Some] unfolding p Some by simp
  qed
  with visited_range_next [of ?n db] show ?thesis
    unfolding n range_next_iff [OF assms(2)] by blast
qed

theorem prefix_iteration_witness:
  "\<exists>it. NewIteratorWithPrefix [1] [1] ListOrderPrev example_db = Ret it \<and>
    visited ListOrderPrev it = [([1, 2], [8]), ([1], [7, 7])]"
proof -
  have "[1] \<noteq> ([] :: bytes)" "HasPrefix [1] [1]" "\<not> list_all (\<lambda>c. c = 255) [1 :: byte]" by simp_all
  note e = conjunct2 [OF prefix_iteration [OF this(1,2), of example_db]] this(3)
  show ?thesis using e(1) unfolding if_not_P [OF e(2)] by (simp add: example_db_def NewLDBDatabase_def HasPrefix_def)
qed

text \<open>
  Two tables on one LevelDB store whose prefixes are not prefixes of one another are
  independent: what is written or deleted through one is not seen through the other.
\<close>

theorem table_isolation:
  assumes "no_fault db" "\<not> HasPrefix p q" "\<not> HasPrefix q p"
  shows "db_Get (NewTable ldb_ops q) k' (snd (db_Put (NewTable ldb_ops p) k v db)) =
      db_Get (NewTable ldb_ops q) k' db \<and>
    db_Get (NewTable ldb_ops q) k' (snd (db_Delete (NewTable ldb_ops p) k db)) =
      db_Get (NewTable ldb_ops q) k' db \<and>
    db_Get (NewTable ldb_ops p) k (snd (db_Put (NewTable ldb_ops p) k v db)) = Ret v"
proof -
  have ne: "q @ k' \<noteq> p @ k"
  proof
    assume "q @ k' = p @ k"
    then have "HasPrefix p q \<or> HasPrefix q p" by (auto simp: append_eq_append_conv2 HasPrefix_iff)
    with assms show False by simp
  qed
  show ?thesis
    using assms(1) ne
    by (simp add: NewTable_def table_Put_def table_Get_def table_Delete_def ldb_ops_def ldb_op_defs no_fault_def)
qed

theorem table_isolation_witness:
  "db_Get (NewTable ldb_ops [2]) [] (snd (db_Put (NewTable ldb_ops [1]) [2] [0] example_db)) =
   db_Get (NewTable ldb_ops [2]) [] example_db"
proof -
  have "no_fault example_db" "\<not> HasPrefix [1] [2]" "\<not> HasPrefix [2] [1]"
    by (simp_all add: example_db_def NewLDBDatabase_def no_fault_def HasPrefix_def)
  from table_isolation [OF this] show ?thesis by blast
qed

end
