(* ===== verification/Lock_Maps.thy ===== *)
theory Lock_Maps
  imports Level_Db "HOL-Library.Multiset"
begin

text \<open>
  \<^verbatim>\<open>common/types/lock_map.go\<close>, \<^verbatim>\<open>lock.go\<close> and \<^verbatim>\<open>chan.go\<close>: the per-identifier read-write locks, the
  channel-based lock and the channel wrapper. The contract of a read-write lock is the locale
  \<open>rw_lock\<close>: mutual exclusion is proved once, for every interleaving of goroutines that release
  only what they hold, and holds of \<^verbatim>\<open>LockMap\<close> and of the lock map of \<^verbatim>\<open>LDBDatabase\<close>.
\<close>

subsection \<open>LockMap\<close>

record LockMap =
  lockMap :: "bytes \<rightharpoonup> int"
  sleepTime :: int
  isSet :: bool

definition NewLockMap :: "int \<Rightarrow> LockMap" where
  "NewLockMap sleep = \<lparr>lockMap = Map.empty, sleepTime = sleep, isSet = True\<rparr>"

definition LM_TryLock :: "LockMap \<Rightarrow> bytes option \<Rightarrow> LockMap res" where
  "LM_TryLock l pid =
     (case pid of None \<Rightarrow> Ret l
      | Some k \<Rightarrow>
          (case lockMap l k of
             Some _ \<Rightarrow> Fail (TypesError T_ErrBusy)
           | None \<Rightarrow> Ret (l\<lparr>lockMap := (lockMap l)(k \<mapsto> -1)\<rparr>)))"

definition LM_Unlock :: "LockMap \<Rightarrow> bytes option \<Rightarrow> LockMap res" where
  "LM_Unlock l pid =
     (case pid of None \<Rightarrow> Ret l
      | Some k \<Rightarrow>
          (case lockMap l k of
             None \<Rightarrow> Fail (TypesError T_ErrInvalidLock)
           | Some val \<Rightarrow>
               if 0 \<le> val then Fail (TypesError T_ErrInvalidLock)
               else Ret (l\<lparr>lockMap := (lockMap l)(k := None)\<rparr>)))"

definition LM_TryRLock :: "LockMap \<Rightarrow> bytes option \<Rightarrow> LockMap res" where
  "LM_TryRLock l pid =
     (case pid of None \<Rightarrow> Ret l
      | Some k \<Rightarrow>
          (case lockMap l k of
             Some val \<Rightarrow> (if val < 0 then Fail (TypesError T_ErrBusy)
                           else Ret (l\<lparr>lockMap := (lockMap l)(k \<mapsto> val + 1)\<rparr>))
           | None \<Rightarrow> Ret (l\<lparr>lockMap := (lockMap l)(k \<mapsto> 1)\<rparr>)))"

definition LM_RUnlock :: "LockMap \<Rightarrow> bytes option \<Rightarrow> LockMap res" where
  "LM_RUnlock l pid =
     (case pid of None \<Rightarrow> Ret l
      | Some k \<Rightarrow>
          (case lockMap l k of
             None \<Rightarrow> Fail (TypesError T_ErrInvalidLock)
           | Some val \<Rightarrow>
               if val \<le> 0 then Fail (TypesError T_ErrInvalidLock)
               else if val = 1 then Ret (l\<lparr>lockMap := (lockMap l)(k := None)\<rparr>)
               else Ret (l\<lparr>lockMap := (lockMap l)(k \<mapsto> val - 1)\<rparr>)))"

text \<open>
  \<^verbatim>\<open>Lock\<close> and \<^verbatim>\<open>RLock\<close> try \<^verbatim>\<open>NIterLock\<close> times and sleep in between; \<open>env i\<close> is what other goroutines
  do to the map before attempt \<open>i\<close>. \<^verbatim>\<open>rand.Intn\<close> panics unless its argument is positive.
\<close>

definition NIterLock :: nat where
  "NIterLock = 100"

fun try_loop ::
  "(LockMap \<Rightarrow> bytes option \<Rightarrow> LockMap res) \<Rightarrow> (nat \<Rightarrow> LockMap \<Rightarrow> LockMap) \<Rightarrow> bytes option \<Rightarrow>
   nat \<Rightarrow> nat \<Rightarrow> LockMap \<Rightarrow> go_error option \<Rightarrow> go_error option \<times> LockMap" where
  "try_loop try env pid i 0 l err = (err, l)"
| "try_loop try env pid i (Suc n) l err =
     (let l' = env i l
      in case try l' pid of
           Ret l'' \<Rightarrow> (None, l'')
         | Fail e \<Rightarrow> try_loop try env pid (Suc i) n l' (Some e)
         | Panic \<Rightarrow> (err, l'))"

definition LM_Lock :: "(nat \<Rightarrow> LockMap \<Rightarrow> LockMap) \<Rightarrow> LockMap \<Rightarrow> bytes option \<Rightarrow> (go_error option \<times> LockMap) res" where
  "LM_Lock env l pid =
     (if sleepTime l \<le> 0 then Panic
      else if pid = None then Ret (None, l)
      else Ret (try_loop LM_TryLock env pid 0 NIterLock l None))"

definition LM_RLock :: "(nat \<Rightarrow> LockMap \<Rightarrow> LockMap) \<Rightarrow> LockMap \<Rightarrow> bytes option \<Rightarrow> (go_error option \<times> LockMap) res" where
  "LM_RLock env l pid =
     (if pid = None then Ret (None, l)
      else if sleepTime l \<le> 0 then Panic
      else Ret (try_loop LM_TryRLock env pid 0 NIterLock l None))"

text \<open>\<^verbatim>\<open>MustLock\<close> repeats \<^verbatim>\<open>Lock\<close> until it succeeds: \<open>None\<close> is a run that never does.\<close>

partial_function (option) LM_MustLock ::
  "(nat \<Rightarrow> nat \<Rightarrow> LockMap \<Rightarrow> LockMap) \<Rightarrow> nat \<Rightarrow> LockMap \<Rightarrow> bytes option \<Rightarrow> LockMap res option" where
  "LM_MustLock env r l pid =
     (case LM_Lock (env r) l pid of
        Ret (None, l') \<Rightarrow> Some (Ret l')
      | Ret (Some e, l') \<Rightarrow> LM_MustLock env (Suc r) l' pid
      | Fail e \<Rightarrow> Some (Fail e)
      | Panic \<Rightarrow> Some Panic)"

subsection \<open>Lock\<close>

text \<open>
  A lock is a channel of capacity one; \<open>chan_len\<close> is the number of buffered tokens. Of the timed
  variants \<open>timer\<close> says that the timer fires before the channel operation is possible or is chosen
  by \<^verbatim>\<open>select\<close>. Closing a closed channel panics.
\<close>

record Lock =
  isClosed :: bool
  chan_len :: nat

definition NewLock :: Lock where
  "NewLock = \<lparr>isClosed = False, chan_len = 0\<rparr>"

definition Lock_TryLock :: "Lock \<Rightarrow> Lock res" where
  "Lock_TryLock l =
     (if isClosed l then Fail (TypesError T_ErrLockClosed)
      else if chan_len l < 1 then Ret (l\<lparr>chan_len := chan_len l + 1\<rparr>)
      else Fail (TypesError T_ErrLock))"

definition Lock_Unlock :: "Lock \<Rightarrow> Lock res" where
  "Lock_Unlock l =
     (if 0 < chan_len l then Ret (l\<lparr>chan_len := chan_len l - 1\<rparr>)
      else if isClosed l then Fail (TypesError T_ErrLockClosed)
      else Fail (TypesError T_ErrUnlock))"

definition TryTimedLock :: "bool \<Rightarrow> Lock \<Rightarrow> Lock res" where
  "TryTimedLock timer l =
     (if isClosed l then Fail (TypesError T_ErrLockClosed)
      else if \<not> timer \<and> chan_len l < 1 then Ret (l\<lparr>chan_len := chan_len l + 1\<rparr>)
      else Fail (TypesError T_ErrLock))"

definition TimedUnlock :: "bool \<Rightarrow> Lock \<Rightarrow> Lock res" where
  "TimedUnlock timer l =
     (if \<not> timer \<and> 0 < chan_len l then Ret (l\<lparr>chan_len := chan_len l - 1\<rparr>)
      else if \<not> timer \<and> isClosed l then Fail (TypesError T_ErrLockClosed)
      else Fail (TypesError T_ErrUnlock))"

definition Lock_IsLocked :: "Lock \<Rightarrow> bool" where
  "Lock_IsLocked l \<longleftrightarrow> 0 < chan_len l"

definition Lock_Close :: "Lock \<Rightarrow> Lock res" where
  "Lock_Close l =
     (if Lock_IsLocked l then Fail (TypesError T_ErrClose)
      else if isClosed l then Panic
      else Ret (l\<lparr>isClosed := True\<rparr>))"

subsection \<open>Chan\<close>

text \<open>
  One goroutine in \<^verbatim>\<open>PassChan\<close> and one in \<^verbatim>\<open>Close\<close>, stepping between the statements: the closed flag
  is read before the mutex is taken. Sending on a closed channel panics.
\<close>

record Chan =
  ch_isClose :: bool
  ch_closed :: bool
  ch_buf :: nat
  ch_n :: nat
  ch_lock :: bool

definition NewChan :: "int \<Rightarrow> Chan" where
  "NewChan n = \<lparr>ch_isClose = False, ch_closed = False, ch_buf = 0, ch_n = (if n < 1 then 1 else nat n), ch_lock = False\<rparr>"

definition IsBusy :: "Chan \<Rightarrow> bool" where
  "IsBusy c \<longleftrightarrow> ch_buf c = ch_n c"

datatype pass_pc = PassStart | PassChecked | PassLocked | PassSent | PassDone "go_error option" | PassPanicked
datatype close_pc = CloseStart | CloseChecked | CloseFlagged | CloseLocked | CloseClosed | CloseDone

inductive chan_step :: "Chan \<times> pass_pc \<times> close_pc \<Rightarrow> Chan \<times> pass_pc \<times> close_pc \<Rightarrow> bool" where
  pass_refuse: "ch_isClose c \<Longrightarrow>
    chan_step (c, PassStart, q) (c, PassDone (Some (TypesError T_ErrLockClosed)), q)"
| pass_check: "\<not> ch_isClose c \<Longrightarrow> chan_step (c, PassStart, q) (c, PassChecked, q)"
| pass_lock: "\<not> ch_lock c \<Longrightarrow> chan_step (c, PassChecked, q) (c\<lparr>ch_lock := True\<rparr>, PassLocked, q)"
| pass_send: "\<not> ch_closed c \<Longrightarrow> ch_buf c < ch_n c \<Longrightarrow>
    chan_step (c, PassLocked, q) (c\<lparr>ch_buf := ch_buf c + 1\<rparr>, PassSent, q)"
| pass_panic: "ch_closed c \<Longrightarrow> chan_step (c, PassLocked, q) (c, PassPanicked, q)"
| pass_unlock: "chan_step (c, PassSent, q) (c\<lparr>ch_lock := False\<rparr>, PassDone None, q)"
| close_again: "ch_isClose c \<Longrightarrow> chan_step (c, p, CloseStart) (c, p, CloseDone)"
| close_check: "\<not> ch_isClose c \<Longrightarrow> chan_step (c, p, CloseStart) (c, p, CloseChecked)"
| close_flag: "chan_step (c, p, CloseChecked) (c\<lparr>ch_isClose := True\<rparr>, p, CloseFlagged)"
| close_lock: "\<not> ch_lock c \<Longrightarrow> chan_step (c, p, CloseFlagged) (c\<lparr>ch_lock := True\<rparr>, p, CloseLocked)"
| close_close: "chan_step (c, p, CloseLocked) (c\<lparr>ch_closed := True\<rparr>, p, CloseClosed)"
| close_unlock: "chan_step (c, p, CloseClosed) (c\<lparr>ch_lock := False\<rparr>, p, CloseDone)"

text \<open>
  The panic the wrapper is meant to avoid is reachable: the sender passes the check, the closer
  runs to its end, and the sender sends. It needs the check before the close: a sender that starts
  after the flag is set is refused.
\<close>

lemma chan_pass_can_panic:
  "\<exists>c. chan_step\<^sup>*\<^sup>* (NewChan n, PassStart, CloseStart) (c, PassPanicked, CloseDone)"
proof -
  define c0 where "c0 = NewChan n"
  define c1 where "c1 = c0\<lparr>ch_isClose := True\<rparr>"
  define c2 where "c2 = c1\<lparr>ch_lock := True\<rparr>"
  define c3 where "c3 = c2\<lparr>ch_closed := True\<rparr>"
  define c4 where "c4 = c3\<lparr>ch_lock := False\<rparr>"
  define c5 where "c5 = c4\<lparr>ch_lock := True\<rparr>"
  note defs = c0_def c1_def c2_def c3_def c4_def c5_def NewChan_def
  have "chan_step (c0, PassStart, CloseStart) (c0, PassChecked, CloseStart)"
    by (rule pass_check) (simp add: defs)
  moreover have "chan_step (c0, PassChecked, CloseStart) (c0, PassChecked, CloseChecked)"
    by (rule close_check) (simp add: defs)
  moreover have "chan_step (c0, PassChecked, CloseChecked) (c1, PassChecked, CloseFlagged)"
    unfolding c1_def by (rule close_flag)
  moreover have "chan_step (c1, PassChecked, CloseFlagged) (c2, PassChecked, CloseLocked)"
    unfolding c2_def by (rule close_lock) (simp add: defs)
  moreover have "chan_step (c2, PassChecked, CloseLocked) (c3, PassChecked, CloseClosed)"
    unfolding c3_def by (rule close_close)
  moreover have "chan_step (c3, PassChecked, CloseClosed) (c4, PassChecked, CloseDone)"
    unfolding c4_def by (rule close_unlock)
  moreover have "chan_step (c4, PassChecked, CloseDone) (c5, PassLocked, CloseDone)"
    unfolding c5_def by (rule pass_lock) (simp add: defs)
  moreover have "chan_step (c5, PassLocked, CloseDone) (c5, PassPanicked, CloseDone)"
    by (rule pass_panic) (simp add: defs)
  ultimately have "chan_step\<^sup>*\<^sup>* (c0, PassStart, CloseStart) (c5, PassPanicked, CloseDone)"
    by (meson converse_rtranclp_into_rtranclp rtranclp.rtrancl_refl)
  then show ?thesis unfolding c0_def by blast
qed

inductive_cases chan_step_start: "chan_step (c, PassStart, q) (c', p, q')"

lemma chan_pass_after_flag:
  "ch_isClose c \<Longrightarrow> chan_step (c, PassStart, q) (c', p, q') \<Longrightarrow>
    p = PassStart \<or> p = PassDone (Some (TypesError T_ErrLockClosed))"
  by (auto elim: chan_step_start)

subsection \<open>The contract of a read-write lock\<close>

record ('k, 's) rw_ops =
  op_TryLock :: "'k \<Rightarrow> 's \<Rightarrow> 's res"
  op_Unlock :: "'k \<Rightarrow> 's \<Rightarrow> 's res"
  op_TryRLock :: "'k \<Rightarrow> 's \<Rightarrow> 's res"
  op_RUnlock :: "'k \<Rightarrow> 's \<Rightarrow> 's res"

datatype lock_mode = Writing | Reading

text \<open>
  The runs of goroutines on one lock map: the state, and who holds which key in which mode. A
  goroutine may try to lock anything, and releases only what it holds. A failing call changes
  nothing.
\<close>

inductive lock_run :: "('k, 's) rw_ops \<Rightarrow> 's \<Rightarrow> 's \<Rightarrow> (nat \<times> 'k \<times> lock_mode) multiset \<Rightarrow> bool"
  for ops s0 where
  start: "lock_run ops s0 s0 {#}"
| lock: "lock_run ops s0 s H \<Longrightarrow> op_TryLock ops k s = Ret s' \<Longrightarrow>
    lock_run ops s0 s' (add_mset (t, k, Writing) H)"
| rlock: "lock_run ops s0 s H \<Longrightarrow> op_TryRLock ops k s = Ret s' \<Longrightarrow>
    lock_run ops s0 s' (add_mset (t, k, Reading) H)"
| unlock: "lock_run ops s0 s H \<Longrightarrow> (t, k, Writing) \<in># H \<Longrightarrow> op_Unlock ops k s = Ret s' \<Longrightarrow>
    lock_run ops s0 s' (H - {#(t, k, Writing)#})"
| runlock: "lock_run ops s0 s H \<Longrightarrow> (t, k, Reading) \<in># H \<Longrightarrow> op_RUnlock ops k s = Ret s' \<Longrightarrow>
    lock_run ops s0 s' (H - {#(t, k, Reading)#})"

definition holders :: "'k \<Rightarrow> lock_mode \<Rightarrow> (nat \<times> 'k \<times> lock_mode) multiset \<Rightarrow> nat" where
  "holders k m H = size {# h \<in># H. snd h = (k, m) #}"

fun key_ok :: "int option \<Rightarrow> nat \<Rightarrow> nat \<Rightarrow> bool" where
  "key_ok None w r \<longleftrightarrow> w = 0 \<and> r = 0"
| "key_ok (Some i) w r \<longleftrightarrow> i = -1 \<and> w = 1 \<and> r = 0 \<or> 0 < i \<and> w = 0 \<and> int r = i"

definition count_ok :: "('k \<Rightarrow> int option) \<Rightarrow> (nat \<times> 'k \<times> lock_mode) multiset \<Rightarrow> bool" where
  "count_ok cnt H \<longleftrightarrow> (\<forall>k. key_ok (cnt k) (holders k Writing H) (holders k Reading H))"

lemma holders_add: "holders k m (add_mset (t, k', m') H) = holders k m H + (if k = k' \<and> m = m' then 1 else 0)"
  by (auto simp: holders_def)

lemma holders_remove:
  "(t, k', m') \<in># H \<Longrightarrow>
    holders k m (H - {#(t, k', m')#}) = holders k m H - (if k = k' \<and> m = m' then 1 else 0)"
  by (auto simp: holders_def size_Diff_singleton)

lemma holders_pos: "(t, k, m) \<in># H \<Longrightarrow> 0 < holders k m H"
proof -
  assume "(t, k, m) \<in># H"
  then have "(t, k, m) \<in># {# h \<in># H. snd h = (k, m) #}" by simp
  then show ?thesis unfolding holders_def by (metis empty_not_add_mset multi_member_split nonempty_has_size)
qed

lemma count_ok_writer: "count_ok cnt H \<Longrightarrow> 0 < holders k Writing H \<Longrightarrow>
    cnt k = Some (-1) \<and> holders k Writing H = 1 \<and> holders k Reading H = 0"
  unfolding count_ok_def by (cases "cnt k") (auto dest!: spec [of _ k])

lemma count_ok_reader: "count_ok cnt H \<Longrightarrow> 0 < holders k Reading H \<Longrightarrow>
    \<exists>i. cnt k = Some i \<and> 0 < i \<and> holders k Writing H = 0 \<and> int (holders k Reading H) = i"
  unfolding count_ok_def by (cases "cnt k") (auto dest!: spec [of _ k])

lemma count_ok_upd:
  assumes "cnt' = cnt(k := c)" "count_ok cnt H" "\<And>k' m. k' \<noteq> k \<Longrightarrow> holders k' m H' = holders k' m H"
    and "key_ok c (holders k Writing H') (holders k Reading H')"
  shows "count_ok cnt' H'"
  using assms by (simp add: count_ok_def)

locale rw_lock =
  fixes ops :: "('k, 's) rw_ops"
    and cnt :: "'s \<Rightarrow> 'k \<Rightarrow> int option"
  assumes lock_law: "op_TryLock ops k s = Ret s' \<Longrightarrow> cnt s k = None \<and> cnt s' = (cnt s)(k \<mapsto> -1)"
    and rlock_law: "op_TryRLock ops k s = Ret s' \<Longrightarrow>
      (case cnt s k of None \<Rightarrow> cnt s' = (cnt s)(k \<mapsto> 1) | Some i \<Rightarrow> 0 \<le> i \<and> cnt s' = (cnt s)(k \<mapsto> i + 1))"
    and unlock_law: "cnt s k = Some i \<Longrightarrow> i < 0 \<Longrightarrow> \<exists>s'. op_Unlock ops k s = Ret s' \<and> cnt s' = (cnt s)(k := None)"
    and runlock_law: "cnt s k = Some i \<Longrightarrow> 0 < i \<Longrightarrow>
      \<exists>s'. op_RUnlock ops k s = Ret s' \<and> cnt s' = (cnt s)(k := (if i = 1 then None else Some (i - 1)))"
begin

lemma count_ok_run:
  assumes "lock_run ops s0 s H" "cnt s0 = Map.empty"
  shows "count_ok (cnt s) H"
  using assms
proof (induction rule: lock_run.induct)
  case start
  then show ?case by (simp add: count_ok_def holders_def)
next
  case (lock s H k s' t)
  then have ok: "count_ok (cnt s) H" by simp
  with lock_law [OF lock.hyps(2)] have "key_ok None (holders k Writing H) (holders k Reading H)"
    by (metis count_ok_def)
  then show ?case
    by (intro count_ok_upd [OF conjunct2 [OF lock_law [OF lock.hyps(2)]] ok]) (simp_all add: holders_add)
next
  case (rlock s H k s' t)
  then have ok: "count_ok (cnt s) H" "key_ok (cnt s k) (holders k Writing H) (holders k Reading H)"
    by (simp_all add: count_ok_def)
  show ?case
  proof (cases "cnt s k")
    case None
    with rlock_law [OF rlock.hyps(2)] have upd: "cnt s' = (cnt s)(k \<mapsto> 1)" by simp
    show ?thesis using ok None by (intro count_ok_upd [OF upd ok(1)]) (simp_all add: holders_add)
  next
    case (Some i)
    with rlock_law [OF rlock.hyps(2)] have upd: "cnt s' = (cnt s)(k \<mapsto> i + 1)" and "0 \<le> i" by simp_all
    then show ?thesis using ok Some by (intro count_ok_upd [OF upd ok(1)]) (auto simp: holders_add)
  qed
next
  case (unlock s H t k s')
  then have ok: "count_ok (cnt s) H" by simp
  note w = count_ok_writer [OF ok holders_pos [OF unlock.hyps(2)]]
  with unlock_law [of s k "-1"] unlock.hyps(3) have upd: "cnt s' = (cnt s)(k := None)" by auto
  show ?case
    using w unlock.hyps(2) by (intro count_ok_upd [OF upd ok]) (simp_all add: holders_remove)
next
  case (runlock s H t k s')
  then have ok: "count_ok (cnt s) H" by simp
  then obtain i where i: "cnt s k = Some i" "0 < i" "holders k Writing H = 0" "int (holders k Reading H) = i"
    using count_ok_reader [OF ok holders_pos [OF runlock.hyps(2)]] by auto
  with runlock_law [of s k i] runlock.hyps(3)
  have upd: "cnt s' = (cnt s)(k := (if i = 1 then None else Some (i - 1)))" by auto
  show ?case
    using i runlock.hyps(2) by (intro count_ok_upd [OF upd ok]) (auto simp: holders_remove)
qed

text \<open>A writer is alone on its key, and whoever holds a lock can release it.\<close>

lemma exclusion:
  assumes "lock_run ops s0 s H" "cnt s0 = Map.empty" "(t, k, Writing) \<in># H"
  shows "{# h \<in># H. fst (snd h) = k #} = {#(t, k, Writing)#}"
proof -
  have "holders k Writing H = 1" "holders k Reading H = 0"
    using count_ok_writer [OF count_ok_run [OF assms(1,2)] holders_pos [OF assms(3)]] by simp_all
  moreover have "{# h \<in># H. fst (snd h) = k #} =
      {# h \<in># H. snd h = (k, Writing) #} + {# h \<in># H. snd h = (k, Reading) #}"
  proof (induction H)
    case (add h H)
    then show ?case by (cases h; cases "snd (snd h)") auto
  qed simp
  ultimately have one: "size {# h \<in># H. fst (snd h) = k #} = 1" by (simp add: holders_def)
  then obtain h where h: "{# h \<in># H. fst (snd h) = k #} = {#h#}" using size_1_singleton_mset by blast
  have "(t, k, Writing) \<in># {# h \<in># H. fst (snd h) = k #}" using assms(3) by simp
  with h show ?thesis by simp
qed

lemma release:
  assumes "lock_run ops s0 s H" "cnt s0 = Map.empty" "(t, k, m) \<in># H"
  shows "\<exists>s'. (if m = Writing then op_Unlock ops k s else op_RUnlock ops k s) = Ret s'"
proof (cases m)
  case Writing
  then have "cnt s k = Some (-1)"
    using count_ok_writer [OF count_ok_run [OF assms(1,2)]] holders_pos [OF assms(3)] by simp
  with Writing unlock_law [of s k] show ?thesis by auto
next
  case Reading
  then obtain i where "cnt s k = Some i" "0 < i"
    using count_ok_reader [OF count_ok_run [OF assms(1,2)]] holders_pos [OF assms(3)] by blast
  with Reading runlock_law [of s k] show ?thesis by auto
qed

end

definition lockmap_ops :: "(bytes, LockMap) rw_ops" where
  "lockmap_ops =
     \<lparr>op_TryLock = \<lambda>k l. LM_TryLock l (Some k), op_Unlock = \<lambda>k l. LM_Unlock l (Some k),
      op_TryRLock = \<lambda>k l. LM_TryRLock l (Some k), op_RUnlock = \<lambda>k l. LM_RUnlock l (Some k)\<rparr>"

definition res_of :: "go_error option \<times> 's \<Rightarrow> 's res" where
  "res_of r = (case r of (None, s) \<Rightarrow> Ret s | (Some e, s) \<Rightarrow> Fail e)"

definition ldb_lock_ops :: "(bytes, LDBDatabase) rw_ops" where
  "ldb_lock_ops =
     \<lparr>op_TryLock = \<lambda>k db. res_of (TryLockMap k db), op_Unlock = \<lambda>k db. res_of (UnlockMap k db),
      op_TryRLock = \<lambda>k db. res_of (TryRLockMap k db), op_RUnlock = RUnlockMap\<rparr>"

interpretation lockmap: rw_lock lockmap_ops lockMap
  by unfold_locales
    (auto simp: lockmap_ops_def LM_TryLock_def LM_TryRLock_def LM_Unlock_def LM_RUnlock_def
      split: option.splits if_splits)

interpretation ldb_lock: rw_lock ldb_lock_ops ldb_locks
  by unfold_locales
    (auto simp: ldb_lock_ops_def res_of_def TryLockMap_def TryRLockMap_def UnlockMap_def RUnlockMap_def
      split: option.splits if_splits)

subsection \<open>The retrying locks\<close>

text \<open>The map as attempt \<open>m\<close> of a loop finds it, when the attempts before have failed.\<close>

primrec seen :: "(nat \<Rightarrow> LockMap \<Rightarrow> LockMap) \<Rightarrow> nat \<Rightarrow> LockMap \<Rightarrow> nat \<Rightarrow> LockMap" where
  "seen env i l 0 = env i l"
| "seen env i l (Suc m) = env (i + Suc m) (seen env i l m)"

lemma seen_Suc: "seen env i l (Suc m) = seen env (Suc i) (env i l) m"
  by (induction m) simp_all

lemma try_loop_lock:
  "fst (try_loop LM_TryLock env (Some k) i n l err) =
     (if \<exists>m < n. lockMap (seen env i l m) k = None then None
      else if n = 0 then err else Some (TypesError T_ErrBusy)) \<and>
   ((\<exists>m < n. lockMap (seen env i l m) k = None) \<longrightarrow>
     lockMap (snd (try_loop LM_TryLock env (Some k) i n l err)) k = Some (-1))"
proof (induction n arbitrary: i l err)
  case 0
  then show ?case by simp
next
  case (Suc n)
  show ?case
  proof (cases "lockMap (env i l) k")
    case None
    then have "lockMap (seen env i l 0) k = None" by simp
    then have "\<exists>m < Suc n. lockMap (seen env i l m) k = None" by blast
    with None show ?thesis by (simp add: LM_TryLock_def Let_def)
  next
    case (Some v)
    then have ex: "(\<exists>m < Suc n. lockMap (seen env i l m) k = None) \<longleftrightarrow>
        (\<exists>m < n. lockMap (seen env (Suc i) (env i l) m) k = None)"
      unfolding Ex_less_Suc2 seen_Suc by simp
    have "try_loop LM_TryLock env (Some k) i (Suc n) l err =
        try_loop LM_TryLock env (Some k) (Suc i) n (env i l) (Some (TypesError T_ErrBusy))"
      using Some by (simp add: LM_TryLock_def Let_def)
    with Suc [of "Suc i" "env i l" "Some (TypesError T_ErrBusy)"] show ?thesis
      unfolding ex by simp
  qed
qed

lemma LM_Lock_eq:
  "0 < sleepTime l \<Longrightarrow> LM_Lock env l (Some k) = Ret (try_loop LM_TryLock env (Some k) 0 NIterLock l None)"
  by (simp add: LM_Lock_def)

lemma try_loop_NIter:
  assumes "try_loop LM_TryLock env (Some k) 0 NIterLock l None = (e, l')"
  shows "if \<exists>m < 100. lockMap (seen env 0 l m) k = None
    then e = None \<and> lockMap l' k = Some (-1) else e = Some (TypesError T_ErrBusy)"
proof -
  have "NIterLock = 100" by (simp add: NIterLock_def)
  with try_loop_lock [of env k 0 NIterLock l None] assms show ?thesis
    by (cases "\<exists>m < 100. lockMap (seen env 0 l m) k = None") simp_all
qed

lemma try_loop_sleepTime:
  "(\<And>i m. sleepTime (env i m) = sleepTime m) \<Longrightarrow>
    sleepTime (snd (try_loop LM_TryLock env pid i n l err)) = sleepTime l"
  by (induction n arbitrary: i l err)
    (auto simp: Let_def LM_TryLock_def split: option.splits)

lemma MustLock_round:
  assumes "0 < sleepTime l" "\<And>i j m. sleepTime (env i j m) = sleepTime m"
    and "r \<le> R" "\<And>m. lockMap (env R 0 m) k = None"
  shows "\<exists>l'. LM_MustLock env r l (Some k) = Some (Ret l') \<and> lockMap l' k = Some (-1)"
  using assms(1,3)
proof (induction "R - r" arbitrary: r l)
  case 0
  then have "r = R" by simp
  then have "lockMap (seen (env r) 0 l 0) k = None" using assms(4) by simp
  moreover have "0 < NIterLock" by (simp add: NIterLock_def)
  ultimately have "\<exists>m < NIterLock. lockMap (seen (env r) 0 l m) k = None" by blast
  with try_loop_lock [of "env r" k 0 NIterLock l None] obtain l' where
    "try_loop LM_TryLock (env r) (Some k) 0 NIterLock l None = (None, l')" "lockMap l' k = Some (-1)"
    by (metis prod.collapse)
  with 0 show ?case
    by (subst LM_MustLock.simps) (simp add: LM_Lock_eq)
next
  case (Suc d)
  obtain e l' where t: "try_loop LM_TryLock (env r) (Some k) 0 NIterLock l None = (e, l')" by fastforce
  have l': "0 < sleepTime l'"
    using try_loop_sleepTime [of "env r" "Some k" 0 NIterLock l None] assms(2) Suc.prems t by simp
  show ?case
  proof (cases e)
    case None
    then have "lockMap l' k = Some (-1)"
      using try_loop_NIter [OF t] by (metis option.distinct(1))
    with None t Suc.prems show ?thesis by (subst LM_MustLock.simps) (simp add: LM_Lock_eq)
  next
    case (Some e')
    have "\<exists>l''. LM_MustLock env (Suc r) l' (Some k) = Some (Ret l'') \<and> lockMap l'' k = Some (-1)"
      using Suc.hyps(1) [of "Suc r" l'] Suc.hyps(2) Suc.prems l' by simp
    with Some t Suc.prems show ?thesis by (subst LM_MustLock.simps) (simp add: LM_Lock_eq)
  qed
qed

subsection \<open>Properties\<close>

text \<open>
  C26: \<^verbatim>\<open>LockMap.Lock\<close> acquires the lock exactly when one of its hundred attempts finds the identifier
  free, and reports \<^verbatim>\<open>ErrBusy\<close> otherwise; \<^verbatim>\<open>MustLock\<close> returns with the lock as soon as in some round
  the other goroutines have released it.
\<close>

theorem lockmap_lock_progress:
  assumes "0 < sleepTime l"
  shows "(\<exists>e l'. LM_Lock env l (Some k) = Ret (e, l') \<and>
      (if \<exists>m < 100. lockMap (seen env 0 l m) k = None
       then e = None \<and> lockMap l' k = Some (-1) else e = Some (TypesError T_ErrBusy))) \<and>
    (\<forall>renv R. (\<forall>i j m. sleepTime (renv i j m) = sleepTime m) \<and> (\<forall>m. lockMap (renv R 0 m) k = None) \<longrightarrow>
      (\<exists>l'. LM_MustLock renv 0 l (Some k) = Some (Ret l') \<and> lockMap l' k = Some (-1)))"
proof -
  have "\<exists>e l'. LM_Lock env l (Some k) = Ret (e, l') \<and>
      (if \<exists>m < 100. lockMap (seen env 0 l m) k = None
       then e = None \<and> lockMap l' k = Some (-1) else e = Some (TypesError T_ErrBusy))"
    using try_loop_NIter [of env k l] LM_Lock_eq [OF assms] by (metis prod.collapse)
  with MustLock_round [OF assms] show ?thesis by blast
qed

theorem lockmap_lock_progress_witness:
  "\<exists>e l'. LM_Lock (\<lambda>i l. l) (NewLockMap 10) (Some [1]) = Ret (e, l') \<and>
     (if \<exists>m < 100. lockMap (seen (\<lambda>i l. l) 0 (NewLockMap 10) m) [1] = None
      then e = None \<and> lockMap l' [1] = Some (-1) else e = Some (TypesError T_ErrBusy))"
proof -
  have "0 < sleepTime (NewLockMap 10)" by (simp add: NewLockMap_def)
  from conjunct1 [OF lockmap_lock_progress [OF this, of "\<lambda>i l. l" "[1]"]] show ?thesis .
qed

text \<open>
  C25: mutual exclusion of \<^verbatim>\<open>LockMap\<close>. In every interleaving of goroutines that release only what
  they hold, the holder of a write lock on an identifier is its only holder, and every holder can
  release its lock.
\<close>

theorem lockmap_exclusion:
  assumes "lock_run lockmap_ops (NewLockMap sleep) l H" "(t, k, m) \<in># H"
  shows "(m = Writing \<longrightarrow> {# h \<in># H. fst (snd h) = k #} = {#(t, k, Writing)#}) \<and>
    (\<exists>l'. (if m = Writing then LM_Unlock l (Some k) else LM_RUnlock l (Some k)) = Ret l')"
proof -
  have e: "lockMap (NewLockMap sleep) = Map.empty" by (simp add: NewLockMap_def)
  show ?thesis
    using lockmap.exclusion [OF assms(1) e] lockmap.release [OF assms(1) e assms(2)] assms(2)
    by (auto simp: lockmap_ops_def split: if_splits)
qed

theorem lockmap_exclusion_witness:
  "{# h \<in># {#(7, [1], Writing), (8, [2 :: byte], Reading)#}. fst (snd h) = [1] #} = {#(7, [1], Writing)#}"
proof -
  let ?l1 = "(NewLockMap 10)\<lparr>lockMap := [[2] \<mapsto> 1]\<rparr>"
  let ?l2 = "(NewLockMap 10)\<lparr>lockMap := [[2] \<mapsto> 1, [1] \<mapsto> -1]\<rparr>"
  have "lock_run lockmap_ops (NewLockMap 10) ?l1 {#(8, [2], Reading)#}"
    by (rule lock_run.rlock [OF lock_run.start])
      (simp add: lockmap_ops_def LM_TryRLock_def NewLockMap_def)
  then have "lock_run lockmap_ops (NewLockMap 10) ?l2 {#(7, [1], Writing), (8, [2], Reading)#}"
    by (rule lock_run.lock) (simp add: lockmap_ops_def LM_TryLock_def NewLockMap_def)
  from lockmap_exclusion [OF this, of 7 "[1]" Writing] show ?thesis by auto
qed

text \<open>
  Mutual exclusion of the lock map of \<^verbatim>\<open>LDBDatabase\<close>, in the same sense; in particular
  \<^verbatim>\<open>RUnlockMap\<close> does not panic for a goroutine that holds a read lock.
\<close>

theorem ldb_lock_exclusion:
  assumes "lock_run ldb_lock_ops (NewLDBDatabase fault kvs) db H" "(t, k, m) \<in># H"
  shows "(m = Writing \<longrightarrow> {# h \<in># H. fst (snd h) = k #} = {#(t, k, Writing)#}) \<and>
    (if m = Writing then fst (UnlockMap k db) = None else \<exists>db'. RUnlockMap k db = Ret db')"
proof -
  have e: "ldb_locks (NewLDBDatabase fault kvs) = Map.empty" by (simp add: NewLDBDatabase_def)
  show ?thesis
    using ldb_lock.exclusion [OF assms(1) e] ldb_lock.release [OF assms(1) e assms(2)] assms(2)
    by (auto simp: ldb_lock_ops_def res_of_def split: if_splits prod.splits option.splits)
qed

theorem ldb_lock_exclusion_witness:
  "\<exists>db'. RUnlockMap [1] (example_db\<lparr>ldb_locks := [[1] \<mapsto> 1]\<rparr>) = Ret db'"
proof -
  have "lock_run ldb_lock_ops example_db (example_db\<lparr>ldb_locks := [[1] \<mapsto> 1]\<rparr>) {#(3, [1], Reading)#}"
    by (rule lock_run.rlock [OF lock_run.start])
      (simp add: ldb_lock_ops_def res_of_def TryRLockMap_def example_db_def NewLDBDatabase_def)
  from ldb_lock_exclusion [OF this [unfolded example_db_def], of 3 "[1]" Reading] show ?thesis
    by (simp add: example_db_def)
qed

text \<open>
  A goroutine that releases what it does not hold is stopped by \<^verbatim>\<open>LockMap\<close> but not by
  \<^verbatim>\<open>LDBDatabase\<close>: \<^verbatim>\<open>UnlockMap\<close> removes the locks of all readers, and \<^verbatim>\<open>RUnlockMap\<close> decrements a
  write lock.
\<close>

lemma UnlockMap_drops_readers:
  "ldb_locks db k = Some i \<Longrightarrow> 0 < i \<Longrightarrow> ldb_locks (snd (UnlockMap k db)) k = None \<and> fst (UnlockMap k db) = None"
  by (simp add: UnlockMap_def)

lemma RUnlockMap_breaks_writer:
  "ldb_locks db k = Some (-1) \<Longrightarrow> \<exists>db'. RUnlockMap k db = Ret db' \<and> ldb_locks db' k = Some (-2)"
  by (simp add: RUnlockMap_def)

lemma Lock_Close_twice: "chan_len l = 0 \<Longrightarrow> \<not> isClosed l \<Longrightarrow> res_bind (Lock_Close l) Lock_Close = Panic"
  by (simp add: Lock_Close_def Lock_IsLocked_def)

end
