(* ===== verification/Ldb_Batches.thy ===== *)
theory Ldb_Batches
  imports Level_Db
begin

text \<open>
  The batch of \<^verbatim>\<open>pttdb/ldb_database.go\<close> and the indexed records it writes (\<^verbatim>\<open>pttdb/index.go\<close>): a record
  is stored under keys that start with a time, and an index entry under an identifier lists those
  keys with the update time of the record.

  \<open>index_codec\<close> is \<^verbatim>\<open>Index.Marshal\<close> and \<^verbatim>\<open>Index.Unmarshal\<close> (JSON): the theorems that read an index
  back assume the round trip \<open>index_codec_ok\<close>. A batch is applied by LevelDB at once or, on a fault,
  not at all.
\<close>

subsection \<open>Definitions\<close>

record Index =
  Index_Keys :: "bytes option list option"
  Index_UpdateTS :: Timestamp

record index_codec =
  ix_enc :: "Index \<Rightarrow> go_error + bytes"
  ix_dec :: "bytes \<Rightarrow> Index option"

definition index_codec_ok :: "index_codec \<Rightarrow> Index \<Rightarrow> bool" where
  "index_codec_ok C idx \<longleftrightarrow> (\<exists>m. ix_enc C idx = Inr m \<and> ix_dec C m = Some idx)"

text \<open>A nil slice used as a key is the empty key.\<close>

definition key_bytes :: "bytes option \<Rightarrow> bytes" where
  "key_bytes k = (case k of None \<Rightarrow> [] | Some b \<Rightarrow> b)"

definition index_keys :: "Index \<Rightarrow> bytes option list" where
  "index_keys idx = (case Index_Keys idx of None \<Rightarrow> [] | Some ks \<Rightarrow> ks)"

definition IndexGetKey :: "index_codec \<Rightarrow> bytes \<Rightarrow> bytes option res" where
  "IndexGetKey C theBytes =
     (case ix_dec C theBytes of
        None \<Rightarrow> Fail JsonError
      | Some i \<Rightarrow> (case index_keys i of [] \<Rightarrow> Panic | k # _ \<Rightarrow> Ret k))"

definition IndexGetKeys :: "index_codec \<Rightarrow> bytes \<Rightarrow> bytes option list res" where
  "IndexGetKeys C theBytes =
     (case ix_dec C theBytes of None \<Rightarrow> Fail JsonError | Some i \<Rightarrow> Ret (index_keys i))"

datatype batch_op = BPut bytes bytes | BDelete bytes

record LDBBatch =
  bt_db :: LDBDatabase
  bt_ops :: "batch_op list"
  bt_size :: nat

definition NewLDBBatch :: "LDBDatabase \<Rightarrow> LDBBatch" where
  "NewLDBBatch db = \<lparr>bt_db = db, bt_ops = [], bt_size = 0\<rparr>"

definition Batch_Put :: "bytes \<Rightarrow> bytes \<Rightarrow> LDBBatch \<Rightarrow> LDBBatch" where
  "Batch_Put key v b = b\<lparr>bt_ops := bt_ops b @ [BPut key v], bt_size := bt_size b + length v\<rparr>"

definition Batch_DBGet :: "bytes \<Rightarrow> LDBBatch \<Rightarrow> bytes res" where
  "Batch_DBGet key b = Ldb_Get key (bt_db b)"

definition Batch_DBDelete :: "bytes \<Rightarrow> LDBBatch \<Rightarrow> go_error option \<times> LDBBatch" where
  "Batch_DBDelete key b = (case Ldb_Delete key (bt_db b) of (e, db) \<Rightarrow> (e, b\<lparr>bt_db := db\<rparr>))"

definition Batch_Delete :: "bytes \<Rightarrow> LDBBatch \<Rightarrow> LDBBatch" where
  "Batch_Delete key b = b\<lparr>bt_ops := bt_ops b @ [BDelete key]\<rparr>"

fun apply_op :: "batch_op \<Rightarrow> kv_list \<Rightarrow> kv_list" where
  "apply_op (BPut k v) s = kv_put k v s"
| "apply_op (BDelete k) s = kv_del k s"

definition Batch_Write :: "LDBBatch \<Rightarrow> go_error option \<times> LDBBatch" where
  "Batch_Write b =
     (case ldb_fault (bt_db b) OpWrite [] of
        Some e \<Rightarrow> (Some e, b)
      | None \<Rightarrow> (None, b\<lparr>bt_db := (bt_db b)\<lparr>ldb_kvs := fold apply_op (bt_ops b) (ldb_kvs (bt_db b))\<rparr>\<rparr>))"

definition Batch_Reset :: "LDBBatch \<Rightarrow> LDBBatch" where
  "Batch_Reset b = b\<lparr>bt_ops := [], bt_size := 0\<rparr>"

definition PutAll :: "kv_list \<Rightarrow> bool \<Rightarrow> LDBBatch \<Rightarrow> go_error option \<times> LDBBatch" where
  "PutAll kvs isInit b =
     (let b0 = (if isInit then Batch_Reset b else b);
          b1 = fold (\<lambda>kv. Batch_Put (fst kv) (snd kv)) kvs b0
      in case Batch_Write b1 of
           (Some e, b2) \<Rightarrow> (Some e, b2)
         | (None, b2) \<Rightarrow> (None, Batch_Reset b2))"

definition PutAllWithKeyIndex ::
  "index_codec \<Rightarrow> bytes \<Rightarrow> Index \<Rightarrow> kv_list \<Rightarrow> LDBBatch \<Rightarrow> go_error option \<times> LDBBatch" where
  "PutAllWithKeyIndex C key idx kvs b =
     (let b0 = Batch_Reset b
      in case ix_enc C idx of
           Inl e \<Rightarrow> (Some e, b0)
         | Inr marshaledIdx \<Rightarrow> PutAll kvs False (Batch_Put key marshaledIdx b0))"

text \<open>The lock prologue of the batch operations, on the database of the batch.\<close>

definition batch_lock ::
  "bytes \<Rightarrow> (go_error \<Rightarrow> 'r) \<Rightarrow> (LDBBatch \<Rightarrow> 'r \<times> LDBBatch) \<Rightarrow> LDBBatch \<Rightarrow> 'r \<times> LDBBatch" where
  "batch_lock key on_err body b =
     (case TryLockMap key (bt_db b) of
        (Some e, db) \<Rightarrow> (on_err e, b\<lparr>bt_db := db\<rparr>)
      | (None, db) \<Rightarrow>
          (case body (b\<lparr>bt_db := db\<rparr>) of
             (r, b2) \<Rightarrow> (r, b2\<lparr>bt_db := snd (UnlockMap key (bt_db b2))\<rparr>)))"

text \<open>\<^verbatim>\<open>for _, eachKey := range d.Keys { db.Delete(eachKey) }\<close>, the errors ignored.\<close>

definition delete_keys :: "bytes option list \<Rightarrow> LDBBatch \<Rightarrow> LDBBatch" where
  "delete_keys keys b = b\<lparr>bt_db := fold (\<lambda>k db. snd (Ldb_Delete (key_bytes k) db)) keys (bt_db b)\<rparr>"

fun get_keys :: "bytes option list \<Rightarrow> LDBDatabase \<Rightarrow> (bytes option \<times> bytes) list res" where
  "get_keys [] db = Ret []"
| "get_keys (k # ks) db =
     res_bind (Ldb_Get (key_bytes k) db) (\<lambda>v. res_bind (get_keys ks db) (\<lambda>kvs. Ret ((k, v) # kvs)))"

text \<open>
  The part the three writers share: look for a stored index under \<^verbatim>\<open>idxKey\<close>, and go on as for a new
  record (\<open>fresh\<close>) or with the index found (\<open>stored\<close>). LevelDB's \<^verbatim>\<open>Has\<close> and \<^verbatim>\<open>Get\<close> do not panic.
\<close>

definition with_stored_index ::
  "index_codec \<Rightarrow> bytes \<Rightarrow> (go_error \<Rightarrow> 'r) \<Rightarrow> (LDBBatch \<Rightarrow> 'r \<times> LDBBatch) \<Rightarrow>
   (Index \<Rightarrow> LDBBatch \<Rightarrow> 'r \<times> LDBBatch) \<Rightarrow> LDBBatch \<Rightarrow> 'r \<times> LDBBatch" where
  "with_stored_index C idxKey on_err fresh stored b =
     (case Ldb_Has idxKey (bt_db b) of
        Ret isHasKey \<Rightarrow>
          if \<not> isHasKey then fresh b
          else (case Ldb_Get idxKey (bt_db b) of
                  Ret v \<Rightarrow> (case ix_dec C v of
                              None \<Rightarrow> (on_err (DbError D_ErrInvalidDBable), b)
                            | Some d \<Rightarrow> stored d b)
                | Fail e \<Rightarrow> (on_err e, b)
                | Panic \<Rightarrow> (on_err (OtherError 0), b))
      | Fail e \<Rightarrow> (on_err e, b)
      | Panic \<Rightarrow> (on_err (OtherError 0), b))"

definition put_new ::
  "index_codec \<Rightarrow> bytes \<Rightarrow> Index \<Rightarrow> kv_list \<Rightarrow> 'r \<Rightarrow> LDBBatch \<Rightarrow> ('r \<times> go_error option) \<times> LDBBatch" where
  "put_new C idxKey idx kvs nil b =
     (case PutAllWithKeyIndex C idxKey idx kvs b of (err, b') \<Rightarrow> ((nil, err), b'))"

definition put_over ::
  "index_codec \<Rightarrow> bytes \<Rightarrow> Index \<Rightarrow> kv_list \<Rightarrow> bool \<Rightarrow> 'r \<Rightarrow> 'r \<Rightarrow> Index \<Rightarrow> LDBBatch \<Rightarrow>
   ('r \<times> go_error option) \<times> LDBBatch" where
  "put_over C idxKey idx kvs isDeleteOrig nil orig d b =
     (let b1 = (if isDeleteOrig then delete_keys (index_keys d) b else b)
      in case PutAllWithKeyIndex C idxKey idx kvs b1 of
           (Some e, b2) \<Rightarrow> ((nil, Some e), b2)
         | (None, b2) \<Rightarrow> ((orig, None), b2))"

definition TryPutAll_stored ::
  "index_codec \<Rightarrow> bytes \<Rightarrow> Index \<Rightarrow> kv_list \<Rightarrow> bool \<Rightarrow> bool \<Rightarrow> Index \<Rightarrow> LDBBatch \<Rightarrow>
   ((bytes option \<times> bytes) list option \<times> go_error option) \<times> LDBBatch" where
  "TryPutAll_stored C idxKey idx kvs isDeleteOrig isGetOrig d b =
     (case (if isGetOrig then res_bind (get_keys (index_keys d) (bt_db b)) (\<lambda>kvs. Ret (Some kvs))
            else Ret None) of
        Fail e \<Rightarrow> ((None, Some e), b)
      | Panic \<Rightarrow> ((None, Some (OtherError 0)), b)
      | Ret origKVs \<Rightarrow>
          if IsLess (Index_UpdateTS idx) (Index_UpdateTS d)
          then ((origKVs, Some (DbError D_ErrInvalidUpdateTS)), b)
          else put_over C idxKey idx kvs isDeleteOrig None origKVs d b)"

definition TryPutAll ::
  "index_codec \<Rightarrow> bytes \<Rightarrow> Index \<Rightarrow> kv_list \<Rightarrow> bool \<Rightarrow> bool \<Rightarrow> LDBBatch \<Rightarrow>
   ((bytes option \<times> bytes) list option \<times> go_error option) \<times> LDBBatch" where
  "TryPutAll C idxKey idx kvs isDeleteOrig isGetOrig =
     batch_lock idxKey (\<lambda>e. (None, Some e))
       (with_stored_index C idxKey (\<lambda>e. (None, Some e)) (put_new C idxKey idx kvs None)
         (TryPutAll_stored C idxKey idx kvs isDeleteOrig isGetOrig))"

definition TryPutAllSameUT_stored ::
  "index_codec \<Rightarrow> bytes \<Rightarrow> Index \<Rightarrow> kv_list \<Rightarrow> bool \<Rightarrow> Index \<Rightarrow> LDBBatch \<Rightarrow>
   (bytes option list \<times> go_error option) \<times> LDBBatch" where
  "TryPutAllSameUT_stored C idxKey idx kvs isDeleteOrig d b =
     (if IsLess (Index_UpdateTS idx) (Index_UpdateTS d)
      then ((index_keys d, Some (DbError D_ErrInvalidUpdateTS)), b)
      else if Index_UpdateTS idx = Index_UpdateTS d \<and> d \<noteq> idx
      then ((index_keys d, Some (DbError D_ErrInvalidUpdateTS)), b)
      else put_over C idxKey idx kvs isDeleteOrig [] (index_keys d) d b)"

definition TryPutAllSameUT ::
  "index_codec \<Rightarrow> bytes \<Rightarrow> Index \<Rightarrow> kv_list \<Rightarrow> bool \<Rightarrow> LDBBatch \<Rightarrow>
   (bytes option list \<times> go_error option) \<times> LDBBatch" where
  "TryPutAllSameUT C idxKey idx kvs isDeleteOrig =
     batch_lock idxKey (\<lambda>e. ([], Some e))
       (with_stored_index C idxKey (\<lambda>e. ([], Some e)) (put_new C idxKey idx kvs [])
         (TryPutAllSameUT_stored C idxKey idx kvs isDeleteOrig))"

definition ForcePutAll ::
  "index_codec \<Rightarrow> bytes \<Rightarrow> Index \<Rightarrow> kv_list \<Rightarrow> LDBBatch \<Rightarrow>
   (bytes option list \<times> go_error option) \<times> LDBBatch" where
  "ForcePutAll C idxKey idx kvs =
     batch_lock idxKey (\<lambda>e. ([], Some e))
       (with_stored_index C idxKey (\<lambda>e. ([], Some e)) (put_new C idxKey idx kvs [])
         (\<lambda>d. put_over C idxKey idx kvs True [] (index_keys d) d))"

definition DeleteAllKeys :: "bytes option list option \<Rightarrow> LDBBatch \<Rightarrow> LDBBatch" where
  "DeleteAllKeys keys b = (case keys of None \<Rightarrow> b | Some ks \<Rightarrow> delete_keys ks b)"

definition DeleteAll :: "index_codec \<Rightarrow> bytes \<Rightarrow> LDBBatch \<Rightarrow> go_error option \<times> LDBBatch" where
  "DeleteAll C idxKey =
     batch_lock idxKey Some (\<lambda>b.
       case Ldb_Get idxKey (bt_db b) of
         Fail e \<Rightarrow> (if e = LdbErrNotFound then None else Some e, b)
       | Panic \<Rightarrow> (None, b)
       | Ret v \<Rightarrow>
           (case ix_dec C v of
              None \<Rightarrow> (Some (DbError D_ErrInvalidDBable), b)
            | Some d \<Rightarrow> Batch_DBDelete idxKey (delete_keys (index_keys d) b)))"

definition nth_key :: "int \<Rightarrow> Index \<Rightarrow> bytes res" where
  "nth_key i d =
     (if Index_Keys d = None \<or> int (length (index_keys d)) \<le> i then Fail (DbError D_ErrInvalidKeys)
      else if i < 0 then Panic
      else case index_keys d ! nat i of None \<Rightarrow> Fail (DbError D_ErrInvalidKeys) | Some k \<Rightarrow> Ret k)"

definition read_index :: "index_codec \<Rightarrow> bytes \<Rightarrow> LDBDatabase \<Rightarrow> Index res" where
  "read_index C idxKey db =
     res_bind (Ldb_Get idxKey db) (\<lambda>v.
       case ix_dec C v of None \<Rightarrow> Fail (DbError D_ErrInvalidDBable) | Some d \<Rightarrow> Ret d)"

definition GetByIdxKey :: "index_codec \<Rightarrow> bytes \<Rightarrow> int \<Rightarrow> LDBDatabase \<Rightarrow> bytes res \<times> LDBDatabase" where
  "GetByIdxKey C idxKey i =
     with_rlock idxKey (\<lambda>db.
       res_bind (read_index C idxKey db) (\<lambda>d. res_bind (nth_key i d) (\<lambda>k. Ldb_Get k db)))"

definition GetKeyByIdxKey :: "index_codec \<Rightarrow> bytes \<Rightarrow> int \<Rightarrow> LDBDatabase \<Rightarrow> bytes res \<times> LDBDatabase" where
  "GetKeyByIdxKey C idxKey i =
     with_rlock idxKey (\<lambda>db. res_bind (read_index C idxKey db) (nth_key i))"

definition GetBy2ndIdxKey :: "bytes \<Rightarrow> LDBDatabase \<Rightarrow> bytes res \<times> LDBDatabase" where
  "GetBy2ndIdxKey idxKey =
     with_rlock idxKey (\<lambda>db. res_bind (Ldb_Get idxKey db) (\<lambda>key. Ldb_Get key db))"

definition GetKeyBy2ndIdxKey :: "bytes \<Rightarrow> LDBDatabase \<Rightarrow> bytes res \<times> LDBDatabase" where
  "GetKeyBy2ndIdxKey idxKey = with_rlock idxKey (Ldb_Get idxKey)"

subsection \<open>Batches\<close>

definition put_kvs :: "kv_list \<Rightarrow> kv_list \<Rightarrow> kv_list" where
  "put_kvs kvs s = fold (\<lambda>kv. kv_put (fst kv) (snd kv)) kvs s"

lemma map_of_put_kvs: "map_of (put_kvs kvs s) = map_of s ++ map_of (rev kvs)"
  by (induction kvs arbitrary: s) (auto simp: put_kvs_def map_add_def fun_eq_iff split: option.splits)

lemma map_of_put_kvs_other: "k \<notin> fst ` set kvs \<Longrightarrow> map_of (put_kvs kvs s) k = map_of s k"
  by (auto simp: map_of_put_kvs map_add_def map_of_eq_None_iff split: option.split dest!: map_of_SomeD)
    (metis fst_conv imageI)

lemma fold_Batch_Put:
  "fold (\<lambda>kv. Batch_Put (fst kv) (snd kv)) kvs b =
     b\<lparr>bt_ops := bt_ops b @ map (\<lambda>kv. BPut (fst kv) (snd kv)) kvs,
       bt_size := bt_size b + sum_list (map (length \<circ> snd) kvs)\<rparr>"
  by (induction kvs arbitrary: b) (simp_all add: Batch_Put_def)

lemma fold_apply_puts: "fold apply_op (map (\<lambda>kv. BPut (fst kv) (snd kv)) kvs) s = put_kvs kvs s"
  unfolding put_kvs_def by (induction kvs arbitrary: s) simp_all

text \<open>The write of an indexed record: all of it, or nothing and an error.\<close>

lemma PutAllWithKeyIndex_spec:
  "case PutAllWithKeyIndex C key idx kvs b of (err, b') \<Rightarrow>
     err \<noteq> None \<and> bt_db b' = bt_db b \<or>
     err = None \<and> (\<exists>m. ix_enc C idx = Inr m \<and>
       bt_db b' = (bt_db b)\<lparr>ldb_kvs := put_kvs kvs (kv_put key m (ldb_kvs (bt_db b)))\<rparr>)"
  by (cases "ix_enc C idx"; cases "ldb_fault (bt_db b) OpWrite []")
    (simp_all add: PutAllWithKeyIndex_def PutAll_def Batch_Write_def Batch_Reset_def Let_def
      fold_Batch_Put fold_apply_puts Batch_Put_def)

lemma PutAllWithKeyIndex_ok:
  assumes "ix_enc C idx = Inr m" "ldb_fault (bt_db b) OpWrite [] = None"
  shows "PutAllWithKeyIndex C key idx kvs b =
    (None, b\<lparr>bt_db := (bt_db b)\<lparr>ldb_kvs := put_kvs kvs (kv_put key m (ldb_kvs (bt_db b)))\<rparr>,
             bt_ops := [], bt_size := 0\<rparr>)"
  using assms
  by (simp add: PutAllWithKeyIndex_def PutAll_def Batch_Write_def Batch_Reset_def Let_def
      fold_Batch_Put fold_apply_puts Batch_Put_def)

lemma fold_delete_frame:
  "ldb_locks (fold (\<lambda>k db. snd (Ldb_Delete (key_bytes k) db)) keys db) = ldb_locks db"
  "ldb_fault (fold (\<lambda>k db. snd (Ldb_Delete (key_bytes k) db)) keys db) = ldb_fault db"
  by (induction keys arbitrary: db) simp_all

lemma delete_keys_frame [simp]:
  "ldb_locks (bt_db (delete_keys keys b)) = ldb_locks (bt_db b)"
  "ldb_fault (bt_db (delete_keys keys b)) = ldb_fault (bt_db b)"
  by (simp_all add: delete_keys_def fold_delete_frame)

lemma delete_keys_other:
  "k \<notin> key_bytes ` set keys \<Longrightarrow> map_of (ldb_kvs (bt_db (delete_keys keys b))) k = map_of (ldb_kvs (bt_db b)) k"
proof -
  have "k \<notin> key_bytes ` set keys \<Longrightarrow>
      map_of (ldb_kvs (fold (\<lambda>k db. snd (Ldb_Delete (key_bytes k) db)) keys db)) k = map_of (ldb_kvs db) k" for db
    by (induction keys arbitrary: db) (auto simp: Ldb_Delete_def split: option.splits)
  then show "k \<notin> key_bytes ` set keys \<Longrightarrow> ?thesis" by (simp add: delete_keys_def)
qed

lemma delete_keys_view:
  assumes "no_fault (bt_db b)"
  shows "map_of (ldb_kvs (bt_db (delete_keys keys b))) =
    (\<lambda>k. if k \<in> key_bytes ` set keys then None else map_of (ldb_kvs (bt_db b)) k)"
proof -
  have "no_fault db \<Longrightarrow> map_of (ldb_kvs (fold (\<lambda>k db. snd (Ldb_Delete (key_bytes k) db)) keys db)) =
      (\<lambda>k. if k \<in> key_bytes ` set keys then None else map_of (ldb_kvs db) k)" for db
    by (induction keys arbitrary: db) (auto simp: Ldb_Delete_def no_fault_def)
  then show ?thesis using assms by (simp add: delete_keys_def)
qed

subsection \<open>Locks\<close>

lemma batch_lock_busy:
  "ldb_locks (bt_db b) key \<noteq> None \<Longrightarrow> batch_lock key on_err body b = (on_err (DbError D_ErrBusy), b)"
  by (auto simp: batch_lock_def TryLockMap_def)

definition lock_batch :: "bytes \<Rightarrow> LDBBatch \<Rightarrow> LDBBatch" where
  "lock_batch key b = b\<lparr>bt_db := (bt_db b)\<lparr>ldb_locks := (ldb_locks (bt_db b))(key \<mapsto> -1)\<rparr>\<rparr>"

lemma lock_batch_sel [simp]:
  "ldb_kvs (bt_db (lock_batch key b)) = ldb_kvs (bt_db b)"
  "ldb_fault (bt_db (lock_batch key b)) = ldb_fault (bt_db b)"
  "ldb_locks (bt_db (lock_batch key b)) = (ldb_locks (bt_db b))(key \<mapsto> -1)"
  "no_fault (bt_db (lock_batch key b)) = no_fault (bt_db b)"
  "Ldb_Get k (bt_db (lock_batch key b)) = Ldb_Get k (bt_db b)"
  "Ldb_Has k (bt_db (lock_batch key b)) = Ldb_Has k (bt_db b)"
  by (simp_all add: lock_batch_def no_fault_def)

lemma batch_lock_run:
  assumes "ldb_locks (bt_db b) key = None" "body (lock_batch key b) = (r, b')"
    and "ldb_locks (bt_db b') = (ldb_locks (bt_db b))(key \<mapsto> -1)"
  shows "batch_lock key on_err body b = (r, b'\<lparr>bt_db := (bt_db b')\<lparr>ldb_locks := ldb_locks (bt_db b)\<rparr>\<rparr>)"
proof -
  have "(ldb_locks (bt_db b))(key := None) = ldb_locks (bt_db b)" using assms(1) by (simp add: fun_upd_idem)
  with assms show ?thesis by (simp add: batch_lock_def TryLockMap_def UnlockMap_def lock_batch_def)
qed

text \<open>The outcome of a locked operation whose body keeps the locks, by cases.\<close>

lemma batch_lock_cases:
  assumes "\<And>b. ldb_locks (bt_db (snd (body b))) = ldb_locks (bt_db b)"
    and "batch_lock key on_err body b = (r, b')"
  obtains (busy) "ldb_locks (bt_db b) key \<noteq> None" "r = on_err (DbError D_ErrBusy)" "b' = b"
  | (ran) b2 where "ldb_locks (bt_db b) key = None" "body (lock_batch key b) = (r, b2)"
      "ldb_kvs (bt_db b') = ldb_kvs (bt_db b2)" "ldb_locks (bt_db b') = ldb_locks (bt_db b)"
      "ldb_fault (bt_db b') = ldb_fault (bt_db b2)"
proof (cases "ldb_locks (bt_db b) key = None")
  case True
  obtain r2 b2 where run: "body (lock_batch key b) = (r2, b2)" by fastforce
  then have "ldb_locks (bt_db b2) = (ldb_locks (bt_db b))(key \<mapsto> -1)"
    using assms(1) [of "lock_batch key b"] by simp
  from batch_lock_run [where body = body, OF True run this, of on_err] assms(2) True run show ?thesis
    by (intro ran [of b2]) auto
next
  case False
  with assms(2) show ?thesis by (intro busy) (simp_all add: batch_lock_busy)
qed

subsection \<open>The guarded writes of indexed records\<close>

text \<open>
  What the three writers have in common. \<open>put_base\<close>: the write starts from the batch as it was
  (no index stored) or, if the stored index passes the guard, from the batch with the keys of that
  index deleted. \<open>put_outcome\<close>: an error and no change, or from such a base an error and no further
  change, or success and the whole record written.
\<close>

definition put_base :: "index_codec \<Rightarrow> bytes \<Rightarrow> (Index \<Rightarrow> bool) \<Rightarrow> bool \<Rightarrow> LDBBatch \<Rightarrow> LDBBatch \<Rightarrow> bool" where
  "put_base C idxKey guard del b b1 \<longleftrightarrow>
     map_of (ldb_kvs (bt_db b)) idxKey = None \<and> b1 = b \<or>
     (\<exists>v d. map_of (ldb_kvs (bt_db b)) idxKey = Some v \<and> ix_dec C v = Some d \<and> guard d \<and>
       b1 = (if del then delete_keys (index_keys d) b else b))"

definition put_outcome ::
  "index_codec \<Rightarrow> bytes \<Rightarrow> Index \<Rightarrow> kv_list \<Rightarrow> (Index \<Rightarrow> bool) \<Rightarrow> bool \<Rightarrow> LDBBatch \<Rightarrow>
   go_error option \<Rightarrow> LDBBatch \<Rightarrow> bool" where
  "put_outcome C idxKey idx kvs guard del b err b' \<longleftrightarrow>
     err \<noteq> None \<and> bt_db b' = bt_db b \<or>
     (\<exists>b1. put_base C idxKey guard del b b1 \<and>
       (err \<noteq> None \<and> bt_db b' = bt_db b1 \<or>
        err = None \<and> (\<exists>m. ix_enc C idx = Inr m \<and>
          bt_db b' = (bt_db b1)\<lparr>ldb_kvs := put_kvs kvs (kv_put idxKey m (ldb_kvs (bt_db b1)))\<rparr>)))"

lemma put_outcome_from_base:
  assumes "put_base C idxKey guard del b b1" "PutAllWithKeyIndex C idxKey idx kvs b1 = (err, b')"
  shows "put_outcome C idxKey idx kvs guard del b err b'"
proof -
  have "err \<noteq> None \<and> bt_db b' = bt_db b1 \<or>
     err = None \<and> (\<exists>m. ix_enc C idx = Inr m \<and>
       bt_db b' = (bt_db b1)\<lparr>ldb_kvs := put_kvs kvs (kv_put idxKey m (ldb_kvs (bt_db b1)))\<rparr>)"
    using PutAllWithKeyIndex_spec [where C = C and key = idxKey and idx = idx and kvs = kvs and b = b1] by (simp only: assms(2) prod.case)
  with assms(1) show ?thesis unfolding put_outcome_def by blast
qed

lemma put_outcome_unchanged: "err \<noteq> None \<Longrightarrow> put_outcome C idxKey idx kvs guard del b err b"
  by (simp add: put_outcome_def)

lemma Ldb_Has_Ret: "Ldb_Has k db = Ret h \<Longrightarrow> h \<longleftrightarrow> map_of (ldb_kvs db) k \<noteq> None"
  by (simp add: Ldb_Has_def split: option.splits)

lemma get_keys_not_panic: "get_keys ks db \<noteq> Panic"
  by (induction ks) (auto simp: res_bind_def split: res.splits)

definition ut_guard :: "Index \<Rightarrow> Index \<Rightarrow> bool" where
  "ut_guard idx d \<longleftrightarrow> Index_UpdateTS d \<le> Index_UpdateTS idx"

definition same_ut_guard :: "Index \<Rightarrow> Index \<Rightarrow> bool" where
  "same_ut_guard idx d \<longleftrightarrow>
     Index_UpdateTS d \<le> Index_UpdateTS idx \<and> (Index_UpdateTS idx = Index_UpdateTS d \<longrightarrow> d = idx)"

lemma stored_base:
  "Ldb_Get idxKey (bt_db b) = Ret v \<Longrightarrow> ix_dec C v = Some d \<Longrightarrow> guard d \<Longrightarrow>
    put_base C idxKey guard del b (if del then delete_keys (index_keys d) b else b)"
  using Ldb_Get_Ret [of idxKey "bt_db b" v] by (simp add: put_base_def)

lemma fresh_base: "Ldb_Has idxKey (bt_db b) = Ret False \<Longrightarrow> put_base C idxKey guard del b b"
  using Ldb_Has_Ret [of idxKey "bt_db b" False] by (simp add: put_base_def)

text \<open>
  A body built with \<open>with_stored_index\<close> has such an outcome if its two continuations have.
\<close>

lemma with_stored_index_outcome:
  assumes fresh: "\<And>b r b'. put_base C idxKey guard del b b \<Longrightarrow> fresh b = (r, b') \<Longrightarrow>
      put_outcome C idxKey idx kvs guard del b (snd r) b'"
    and stored: "\<And>b v d r b'. Ldb_Get idxKey (bt_db b) = Ret v \<Longrightarrow> ix_dec C v = Some d \<Longrightarrow> stored d b = (r, b') \<Longrightarrow>
      put_outcome C idxKey idx kvs guard del b (snd r) b'"
    and err: "\<And>e. snd (on_err e) \<noteq> None"
    and run: "with_stored_index C idxKey on_err fresh stored b = (r, b')"
  shows "put_outcome C idxKey idx kvs guard del b (snd r) b'"
proof (cases "Ldb_Has idxKey (bt_db b)")
  case (Ret h)
  show ?thesis
  proof (cases h)
    case False
    with Ret run show ?thesis
      using fresh [OF fresh_base, of b r b'] by (simp add: with_stored_index_def)
  next
    case True
    with Ret run show ?thesis
      using stored [of b _ _ r b'] put_outcome_unchanged [of "snd r" C idxKey idx kvs guard del b] err
      by (auto simp: with_stored_index_def split: res.splits option.splits)
  qed
qed (use run err in \<open>auto simp: with_stored_index_def intro: put_outcome_unchanged\<close>)

lemma put_new_outcome:
  "put_base C idxKey guard del b b \<Longrightarrow> put_new C idxKey idx kvs nil b = (r, b') \<Longrightarrow>
    put_outcome C idxKey idx kvs guard del b (snd r) b'"
  by (auto simp: put_new_def intro: put_outcome_from_base split: prod.splits)

lemma put_over_outcome:
  assumes "Ldb_Get idxKey (bt_db b) = Ret v" "ix_dec C v = Some d" "guard d"
    and "put_over C idxKey idx kvs del nil orig d b = (r, b')"
  shows "put_outcome C idxKey idx kvs guard del b (snd r) b'"
proof -
  let ?b1 = "if del then delete_keys (index_keys d) b else b"
  have base: "put_base C idxKey guard del b ?b1" by (rule stored_base) fact+
  obtain err b2 where w: "PutAllWithKeyIndex C idxKey idx kvs ?b1 = (err, b2)" by fastforce
  from put_outcome_from_base [OF base w] w assms(4) show ?thesis
    by (cases err) (auto simp: put_over_def)
qed

text \<open>The three writers, as locked bodies with an outcome.\<close>

definition put_body ::
  "index_codec \<Rightarrow> bytes \<Rightarrow> Index \<Rightarrow> kv_list \<Rightarrow> (Index \<Rightarrow> bool) \<Rightarrow> bool \<Rightarrow>
   (LDBBatch \<Rightarrow> ('r \<times> go_error option) \<times> LDBBatch) \<Rightarrow> bool" where
  "put_body C idxKey idx kvs guard del body \<longleftrightarrow>
     (\<forall>b r b'. body b = (r, b') \<longrightarrow> put_outcome C idxKey idx kvs guard del b (snd r) b')"

lemma put_bodyI:
  assumes "\<And>b v d r b'. Ldb_Get idxKey (bt_db b) = Ret v \<Longrightarrow> ix_dec C v = Some d \<Longrightarrow> stored d b = (r, b') \<Longrightarrow>
      put_outcome C idxKey idx kvs guard del b (snd r) b'"
  shows "put_body C idxKey idx kvs guard del
    (with_stored_index C idxKey (\<lambda>e. (nil, Some e)) (put_new C idxKey idx kvs nil) stored)"
  unfolding put_body_def
  by (intro allI impI, rule with_stored_index_outcome)
    (auto intro: put_new_outcome assms)

lemma TryPutAll_body:
  "put_body C idxKey idx kvs (ut_guard idx) del
    (with_stored_index C idxKey (\<lambda>e. (None, Some e)) (put_new C idxKey idx kvs None)
      (TryPutAll_stored C idxKey idx kvs del gt))"
proof (rule put_bodyI)
  fix b v d r b'
  assume g: "Ldb_Get idxKey (bt_db b) = Ret v" "ix_dec C v = Some d"
    and run: "TryPutAll_stored C idxKey idx kvs del gt d b = (r, b')"
  then show "put_outcome C idxKey idx kvs (ut_guard idx) del b (snd r) b'"
    using put_over_outcome [OF g, of "ut_guard idx" idx kvs del None _ r b']
    by (auto simp: TryPutAll_stored_def ut_guard_def not_less intro: put_outcome_unchanged
        split: res.splits if_splits)
qed

lemma TryPutAllSameUT_body:
  "put_body C idxKey idx kvs (same_ut_guard idx) del
    (with_stored_index C idxKey (\<lambda>e. ([], Some e)) (put_new C idxKey idx kvs [])
      (TryPutAllSameUT_stored C idxKey idx kvs del))"
proof (rule put_bodyI)
  fix b v d r b'
  assume g: "Ldb_Get idxKey (bt_db b) = Ret v" "ix_dec C v = Some d"
    and run: "TryPutAllSameUT_stored C idxKey idx kvs del d b = (r, b')"
  then show "put_outcome C idxKey idx kvs (same_ut_guard idx) del b (snd r) b'"
    using put_over_outcome [OF g, of "same_ut_guard idx" idx kvs del "[]" _ r b']
    by (auto simp: TryPutAllSameUT_stored_def same_ut_guard_def not_less intro: put_outcome_unchanged
        split: if_splits)
qed

lemma ForcePutAll_body:
  "put_body C idxKey idx kvs (\<lambda>d. True) True
    (with_stored_index C idxKey (\<lambda>e. ([], Some e)) (put_new C idxKey idx kvs [])
      (\<lambda>d. put_over C idxKey idx kvs True [] (index_keys d) d))"
  by (rule put_bodyI) (erule (1) put_over_outcome, simp_all)

lemma put_base_frame:
  assumes "put_base C idxKey guard del b b1"
  shows "ldb_locks (bt_db b1) = ldb_locks (bt_db b)" "ldb_fault (bt_db b1) = ldb_fault (bt_db b)"
  using assms by (auto simp: put_base_def)

lemma put_outcome_frame:
  assumes "put_outcome C idxKey idx kvs guard del b err b'"
  shows "ldb_locks (bt_db b') = ldb_locks (bt_db b)" "ldb_fault (bt_db b') = ldb_fault (bt_db b)"
  using assms put_base_frame [of C idxKey guard del b] by (auto simp: put_outcome_def)

text \<open>The outcome in terms of the unlocked operations.\<close>

lemma put_outcome_lock:
  assumes "put_outcome C idxKey idx kvs guard del (lock_batch idxKey b) err b2"
    and "ldb_kvs (bt_db b') = ldb_kvs (bt_db b2)"
  shows "\<exists>b1. (put_base C idxKey guard del b b1 \<or> b1 = b \<and> err \<noteq> None) \<and>
    (err \<noteq> None \<and> ldb_kvs (bt_db b') = ldb_kvs (bt_db b1) \<or>
     err = None \<and> (\<exists>m. ix_enc C idx = Inr m \<and>
       ldb_kvs (bt_db b') = put_kvs kvs (kv_put idxKey m (ldb_kvs (bt_db b1)))))"
proof -
  have kvs: "ldb_kvs (bt_db (delete_keys ks (lock_batch key b))) = ldb_kvs (bt_db (delete_keys ks b))" for ks key
  proof -
    have "ldb_kvs (fold (\<lambda>k db. snd (Ldb_Delete (key_bytes k) db)) ks (db\<lparr>ldb_locks := l\<rparr>)) =
        ldb_kvs (fold (\<lambda>k db. snd (Ldb_Delete (key_bytes k) db)) ks db)" for db l
    proof (induction ks arbitrary: db)
      case (Cons k ks)
      have "snd (Ldb_Delete (key_bytes k) (db\<lparr>ldb_locks := l\<rparr>)) = (snd (Ldb_Delete (key_bytes k) db))\<lparr>ldb_locks := l\<rparr>"
        by (simp add: Ldb_Delete_def split: option.split)
      with Cons show ?case by simp
    qed simp
    then show ?thesis by (simp add: delete_keys_def lock_batch_def)
  qed
  from assms(1) consider "err \<noteq> None" "bt_db b2 = bt_db (lock_batch idxKey b)"
    | b1 where "put_base C idxKey guard del (lock_batch idxKey b) b1"
      "err \<noteq> None \<and> bt_db b2 = bt_db b1 \<or>
        err = None \<and> (\<exists>m. ix_enc C idx = Inr m \<and>
          bt_db b2 = (bt_db b1)\<lparr>ldb_kvs := put_kvs kvs (kv_put idxKey m (ldb_kvs (bt_db b1)))\<rparr>)"
    unfolding put_outcome_def by blast
  then show ?thesis
  proof cases
    case 1
    then show ?thesis using assms(2) by (intro exI [of _ b]) simp
  next
    case 2
    from 2(1) obtain b1' where "put_base C idxKey guard del b b1'" "ldb_kvs (bt_db b1') = ldb_kvs (bt_db b1)"
      by (auto simp: put_base_def kvs)
    with 2(2) assms(2) show ?thesis by (intro exI [of _ b1']) auto
  qed
qed

definition put_effect ::
  "index_codec \<Rightarrow> bytes \<Rightarrow> Index \<Rightarrow> kv_list \<Rightarrow> (Index \<Rightarrow> bool) \<Rightarrow> bool \<Rightarrow> LDBBatch \<Rightarrow>
   go_error option \<Rightarrow> LDBBatch \<Rightarrow> bool" where
  "put_effect C idxKey idx kvs guard del b err b' \<longleftrightarrow>
    (\<exists>b1. (put_base C idxKey guard del b b1 \<or> b1 = b \<and> err \<noteq> None) \<and>
      (err \<noteq> None \<and> ldb_kvs (bt_db b') = ldb_kvs (bt_db b1) \<or>
       err = None \<and> (\<exists>m. ix_enc C idx = Inr m \<and>
         ldb_kvs (bt_db b') = put_kvs kvs (kv_put idxKey m (ldb_kvs (bt_db b1))))))"

lemma put_effect_success:
  "put_effect C idxKey idx kvs guard del b None b' \<Longrightarrow>
    \<exists>b1 m. put_base C idxKey guard del b b1 \<and> ix_enc C idx = Inr m \<and>
      ldb_kvs (bt_db b') = put_kvs kvs (kv_put idxKey m (ldb_kvs (bt_db b1)))"
  by (auto simp: put_effect_def)

lemma put_locked:
  assumes body: "put_body C idxKey idx kvs guard del body"
    and run: "batch_lock idxKey (\<lambda>e. (nil, Some e)) body b = ((x, err), b')"
  shows "ldb_locks (bt_db b') = ldb_locks (bt_db b)" "ldb_fault (bt_db b') = ldb_fault (bt_db b)"
    "err = None \<Longrightarrow> ldb_locks (bt_db b) idxKey = None"
    "put_effect C idxKey idx kvs guard del b err b'"
proof -
  have frame: "ldb_locks (bt_db (snd (body b))) = ldb_locks (bt_db b)" for b
    using body put_outcome_frame(1) unfolding put_body_def by (metis prod.collapse)
  have "ldb_locks (bt_db b') = ldb_locks (bt_db b) \<and> ldb_fault (bt_db b') = ldb_fault (bt_db b) \<and>
    (err = None \<longrightarrow> ldb_locks (bt_db b) idxKey = None) \<and> put_effect C idxKey idx kvs guard del b err b'"
    using frame run
  proof (cases rule: batch_lock_cases)
    case busy
    then show ?thesis by (auto simp: put_effect_def)
  next
    case (ran b2)
    have o: "put_outcome C idxKey idx kvs guard del (lock_batch idxKey b) err b2"
      using body ran(2) unfolding put_body_def by (metis snd_conv)
    from put_outcome_lock [OF o ran(3)] put_outcome_frame(2) [OF o] ran show ?thesis
      unfolding put_effect_def by auto
  qed
  then show "ldb_locks (bt_db b') = ldb_locks (bt_db b)" "ldb_fault (bt_db b') = ldb_fault (bt_db b)"
    "err = None \<Longrightarrow> ldb_locks (bt_db b) idxKey = None"
    "put_effect C idxKey idx kvs guard del b err b'" by blast+
qed

lemmas TryPutAll_locked = put_locked [where nil = None, OF TryPutAll_body, folded TryPutAll_def]
lemmas TryPutAllSameUT_locked = put_locked [where nil = "[]", OF TryPutAllSameUT_body, folded TryPutAllSameUT_def]
lemmas ForcePutAll_locked = put_locked [where nil = "[]", OF ForcePutAll_body, folded ForcePutAll_def]

lemma codec_dec: "index_codec_ok C idx \<Longrightarrow> ix_enc C idx = Inr m \<Longrightarrow> ix_dec C m = Some idx"
  unfolding index_codec_ok_def by (metis Inr_inject)

text \<open>The index stored after a guarded write, under faults.\<close>

lemma put_index_after:
  assumes "index_codec_ok C idx" "idxKey \<notin> fst ` set kvs"
    and "map_of (ldb_kvs (bt_db b)) idxKey = Some v" "ix_dec C v = Some d"
    and "idxKey \<notin> key_bytes ` set (index_keys d)"
    and "put_effect C idxKey idx kvs guard del b err b'"
  shows "\<exists>v'. map_of (ldb_kvs (bt_db b')) idxKey = Some v' \<and>
    (err \<noteq> None \<and> v' = v \<or> err = None \<and> guard d \<and> ix_dec C v' = Some idx)"
proof -
  obtain b1 where b1: "put_base C idxKey guard del b b1 \<or> b1 = b \<and> err \<noteq> None"
    "err \<noteq> None \<and> ldb_kvs (bt_db b') = ldb_kvs (bt_db b1) \<or>
       err = None \<and> (\<exists>m. ix_enc C idx = Inr m \<and>
         ldb_kvs (bt_db b') = put_kvs kvs (kv_put idxKey m (ldb_kvs (bt_db b1))))"
    using assms(6) unfolding put_effect_def by blast
  have "map_of (ldb_kvs (bt_db b1)) idxKey = Some v \<and> (err = None \<longrightarrow> guard d)"
    using assms(3-5) b1(1) by (auto simp: put_base_def delete_keys_other)
  with assms(1,2) b1(2) show ?thesis
    by (auto simp: map_of_put_kvs_other dest: codec_dec)
qed

subsection \<open>Properties\<close>

text \<open>
  C20: the update time of a stored index never decreases. Whatever the disk faults, after
  \<^verbatim>\<open>TryPutAll\<close> or \<^verbatim>\<open>TryPutAllSameUT\<close> an index that was stored is the old one (an error was returned)
  or the new one (no error), the new one is not older, and with the same update time
  \<^verbatim>\<open>TryPutAllSameUT\<close> accepts only an equal index. The locks are as before.
\<close>

theorem index_update_monotone:
  assumes "index_codec_ok C idx" "idxKey \<notin> fst ` set kvs"
    and "ldb_view (bt_db b) idxKey = Some v" "ix_dec C v = Some d"
    and "idxKey \<notin> key_bytes ` set (index_keys d)"
    and "TryPutAll C idxKey idx kvs del gt b = ((orig1, err1), b1)"
    and "TryPutAllSameUT C idxKey idx kvs del b = ((orig2, err2), b2)"
  shows "ldb_locks (bt_db b1) = ldb_locks (bt_db b) \<and> ldb_locks (bt_db b2) = ldb_locks (bt_db b) \<and>
    (\<exists>v1 v2. ldb_view (bt_db b1) idxKey = Some v1 \<and> ldb_view (bt_db b2) idxKey = Some v2 \<and>
      (err1 \<noteq> None \<and> v1 = v \<or>
       err1 = None \<and> ix_dec C v1 = Some idx \<and> IsLessEqual (Index_UpdateTS d) (Index_UpdateTS idx)) \<and>
      (err2 \<noteq> None \<and> v2 = v \<or>
       err2 = None \<and> ix_dec C v2 = Some idx \<and>
       (IsLess (Index_UpdateTS d) (Index_UpdateTS idx) \<or> d = idx)))"
proof -
  note v = assms(3) [unfolded ldb_view_def]
  note 1 = TryPutAll_locked [OF assms(6)]
  note 2 = TryPutAllSameUT_locked [OF assms(7)]
  note after = put_index_after [OF assms(1,2) v assms(4,5)]
  have "same_ut_guard idx d \<Longrightarrow> Index_UpdateTS d < Index_UpdateTS idx \<or> d = idx"
    by (auto simp: same_ut_guard_def le_less)
  with 1(1) 2(1) after [OF 1(4)] after [OF 2(4)] show ?thesis by (auto simp: ldb_view_def ut_guard_def)
qed

text \<open>An example: a record of one key, written twice.\<close>

definition example_index :: "nat \<Rightarrow> Index" where
  "example_index n = \<lparr>Index_Keys = Some [Some [3, word_of_nat n]], Index_UpdateTS = mkTs (int n) 0\<rparr>"

definition example_codec :: index_codec where
  "example_codec =
     \<lparr>ix_enc = \<lambda>idx. Inr (if idx = example_index 1 then [1] else [2]),
      ix_dec = \<lambda>b. if b = [1] then Some (example_index 1) else if b = [2] then Some (example_index 2) else None\<rparr>"

definition example_batch :: LDBBatch where
  "example_batch = NewLDBBatch (NewLDBDatabase (\<lambda>_ _. None) [([3, 1], [9]), ([4], [1])])"

lemma example_codec_ok: "index_codec_ok example_codec (example_index 1)" "index_codec_ok example_codec (example_index 2)"
  by (simp_all add: index_codec_ok_def example_codec_def example_index_def)

lemma example_batch_sel:
  "ldb_kvs (bt_db example_batch) = [([3, 1], [9]), ([4], [1])]" "ldb_locks (bt_db example_batch) = Map.empty"
  "ldb_fault (bt_db example_batch) = (\<lambda>_ _. None)"
  by (simp_all add: example_batch_def NewLDBBatch_def NewLDBDatabase_def)

theorem index_update_monotone_witness:
  "\<exists>v1. ldb_view (bt_db (snd (TryPutAll example_codec [4] (example_index 2) [([3, 2], [8])] True False example_batch))) [4] = Some v1 \<and>
    (v1 = [1] \<or> ix_dec example_codec v1 = Some (example_index 2))"
proof -
  obtain o1 e1 b1 where 1: "TryPutAll example_codec [4] (example_index 2) [([3, 2], [8])] True False example_batch = ((o1, e1), b1)"
    by (metis prod.collapse)
  obtain o2 e2 b2 where 2: "TryPutAllSameUT example_codec [4] (example_index 2) [([3, 2], [8])] True example_batch = ((o2, e2), b2)"
    by (metis prod.collapse)
  have d: "ldb_view (bt_db example_batch) [4] = Some [1]" "ix_dec example_codec [1] = Some (example_index 1)"
    "[4] \<notin> fst ` set [([3, 2 :: byte], [8 :: byte])]" "[4] \<notin> key_bytes ` set (index_keys (example_index 1))"
    by (simp_all add: ldb_view_def example_batch_sel example_codec_def example_index_def index_keys_def key_bytes_def)
  from index_update_monotone [OF example_codec_ok(2) d(3,1,2,4) 1 2] show ?thesis by (auto simp: 1)
qed

text \<open>
  C31: what \<^verbatim>\<open>TryPutAll\<close> stored can be read back through the index: after a write without error, and
  as long as reads do not fail, \<^verbatim>\<open>GetByIdxKey\<close> at a position of the index returns the value written
  under the key listed there, and leaves the database as it was.
\<close>

theorem indexed_put_get:
  assumes "index_codec_ok C idx" "idxKey \<notin> fst ` set kvs"
    and "TryPutAll C idxKey idx kvs del gt b = ((orig, None), b')"
    and "locks_nonzero (bt_db b)" "\<forall>k. ldb_fault (bt_db b) OpGet k = None"
    and "Index_Keys idx = Some ks" "i < length ks" "ks ! i = Some k" "map_of (rev kvs) k = Some v"
  shows "GetByIdxKey C idxKey (int i) (bt_db b') = (Ret v, bt_db b')"
proof -
  note L = TryPutAll_locked [OF assms(3)]
  obtain b1 :: LDBBatch and m where m: "ix_enc C idx = Inr m"
    "ldb_kvs (bt_db b') = put_kvs kvs (kv_put idxKey m (ldb_kvs (bt_db b1)))"
    using put_effect_success [OF L(4)] by blast
  have dec: "ix_dec C m = Some idx" by (rule codec_dec [OF assms(1) m(1)])
  have nz: "locks_nonzero (bt_db b')" using assms(4) L(1) by (simp add: locks_nonzero_def)
  have get: "Ldb_Get x (bt_db b') = (case map_of (ldb_kvs (bt_db b')) x of None \<Rightarrow> Fail LdbErrNotFound | Some d \<Rightarrow> Ret d)" for x
    using assms(5) L(2) by (simp add: Ldb_Get_def)
  have "map_of (ldb_kvs (bt_db b')) idxKey = Some m"
    using assms(2) m(2) by (simp add: map_of_put_kvs_other)
  moreover have "map_of (ldb_kvs (bt_db b')) k = Some v"
    using assms(9) m(2) by (simp add: map_of_put_kvs)
  moreover have "nth_key (int i) idx = Ret k"
    using assms(6-8) by (simp add: nth_key_def index_keys_def)
  ultimately have body: "res_bind (read_index C idxKey (bt_db b'))
      (\<lambda>d. res_bind (nth_key (int i) d) (\<lambda>k. Ldb_Get k (bt_db b'))) = Ret v"
    by (simp add: read_index_def get dec)
  have "read_index C idxKey (db\<lparr>ldb_locks := l\<rparr>) = read_index C idxKey db" for db l
    by (simp add: read_index_def)
  then have "fst (GetByIdxKey C idxKey (int i) (bt_db b')) = Ret v"
    unfolding GetByIdxKey_def using nz L(1,3) body by (subst with_rlock_result) simp_all
  moreover have "snd (GetByIdxKey C idxKey (int i) (bt_db b')) = bt_db b'"
    unfolding GetByIdxKey_def using nz by simp
  ultimately show ?thesis by (metis prod.collapse)
qed

lemma example_put:
  "\<exists>b'. TryPutAll example_codec [4] (example_index 2) [([3, 2], [8])] True False example_batch = ((None, None), b')"
proof -
  obtain e b' where w: "PutAllWithKeyIndex example_codec [4] (example_index 2) [([3, 2], [8])]
      (delete_keys (index_keys (example_index 1)) (lock_batch [4] example_batch)) = (e, b')"
    by fastforce
  have "e = None"
    using w by (subst (asm) PutAllWithKeyIndex_ok [where m = "[2]"])
      (auto simp: example_batch_sel example_codec_def example_index_def)
  moreover have "ldb_locks (bt_db example_batch) [4] = None" by (simp add: example_batch_sel)
  moreover have "ldb_view (bt_db example_batch) [4] = Some [1]" by (simp add: ldb_view_def example_batch_sel)
  moreover have "\<not> Index_UpdateTS (example_index 2) < Index_UpdateTS (example_index 1)"
    by (simp add: example_index_def mkTs_less_iff)
  ultimately show ?thesis
    using w by (simp add: TryPutAll_def batch_lock_def TryLockMap_def with_stored_index_def lock_batch_def
        Ldb_Has_def Ldb_Get_def ldb_view_def example_batch_sel TryPutAll_stored_def put_over_def
        example_codec_def)
qed

theorem indexed_put_get_witness:
  "\<exists>b'. TryPutAll example_codec [4] (example_index 2) [([3, 2], [8])] True False example_batch = ((None, None), b') \<and>
    GetByIdxKey example_codec [4] 0 (bt_db b') = (Ret [8], bt_db b')"
proof -
  obtain b' where b': "TryPutAll example_codec [4] (example_index 2) [([3, 2], [8])] True False example_batch = ((None, None), b')"
    using example_put by blast
  have "GetByIdxKey example_codec [4] (int 0) (bt_db b') = (Ret [8], bt_db b')"
    by (rule indexed_put_get [OF example_codec_ok(2) _ b', where ks = "[Some [3, 2]]" and k = "[3, 2]"])
      (simp_all add: locks_nonzero_def example_batch_sel example_index_def)
  with b' show ?thesis by auto
qed

text \<open>
  Rewriting a record leaves nothing of the old one behind. On a disk without faults, after
  \<^verbatim>\<open>ForcePutAll\<close> without error a key of the replaced index is gone unless the new record writes it,
  the new entries are stored, and every key of neither record is as before.
\<close>

theorem force_put_replaces:
  assumes "no_fault (bt_db b)" "ldb_view (bt_db b) idxKey = Some old" "ix_dec C old = Some d"
    and "ForcePutAll C idxKey idx kvs b = ((orig, None), b')"
    and "k \<noteq> idxKey"
  shows "ldb_view (bt_db b') k =
    (case map_of (rev kvs) k of
       Some v \<Rightarrow> Some v
     | None \<Rightarrow> if k \<in> key_bytes ` set (index_keys d) then None else ldb_view (bt_db b) k)"
proof -
  obtain b1 m where b1: "put_base C idxKey (\<lambda>d. True) True b b1"
    "ldb_kvs (bt_db b') = put_kvs kvs (kv_put idxKey m (ldb_kvs (bt_db b1)))"
    using put_effect_success [OF ForcePutAll_locked(4) [OF assms(4)]] by blast
  have "b1 = delete_keys (index_keys d) b"
    using b1(1) assms(2,3) by (auto simp: put_base_def ldb_view_def)
  with b1(2) assms(1,5) show ?thesis
    by (simp add: ldb_view_def map_of_put_kvs delete_keys_view map_add_def split: option.split)
qed

text \<open>
  C32: \<^verbatim>\<open>DeleteAll\<close> on a disk without faults removes the index and every key it lists and nothing else;
  for a key that is not stored it does nothing, and an undecodable index is reported and kept.
\<close>

theorem delete_all_effect:
  assumes "no_fault (bt_db b)" "ldb_locks (bt_db b) idxKey = None"
  shows "case DeleteAll C idxKey b of (err, b') \<Rightarrow>
    ldb_locks (bt_db b') = ldb_locks (bt_db b) \<and>
    (case ldb_view (bt_db b) idxKey of
       None \<Rightarrow> err = None \<and> ldb_view (bt_db b') = ldb_view (bt_db b)
     | Some v \<Rightarrow>
         (case ix_dec C v of
            None \<Rightarrow> err = Some (DbError D_ErrInvalidDBable) \<and> ldb_view (bt_db b') = ldb_view (bt_db b)
          | Some d \<Rightarrow> err = None \<and> ldb_view (bt_db b') =
              (\<lambda>k. if k = idxKey \<or> k \<in> key_bytes ` set (index_keys d) then None else ldb_view (bt_db b) k)))"
proof -
  let ?body = "\<lambda>b. case Ldb_Get idxKey (bt_db b) of
         Fail e \<Rightarrow> (if e = LdbErrNotFound then None else Some e, b)
       | Panic \<Rightarrow> (None, b)
       | Ret v \<Rightarrow>
           (case ix_dec C v of
              None \<Rightarrow> (Some (DbError D_ErrInvalidDBable), b)
            | Some d \<Rightarrow> Batch_DBDelete idxKey (delete_keys (index_keys d) b))"
  obtain r b2 where run: "?body (lock_batch idxKey b) = (r, b2)" by fastforce
  have nf: "no_fault (bt_db (lock_batch idxKey b))" using assms(1) by simp
  have l: "ldb_locks (bt_db b2) = (ldb_locks (bt_db b))(idxKey \<mapsto> -1)"
    using run by (auto simp: Batch_DBDelete_def split: res.splits option.splits prod.splits
        dest!: arg_cong [where f = "\<lambda>x. ldb_locks (snd x)"])
  show ?thesis
    unfolding DeleteAll_def batch_lock_run [where body = ?body, OF assms(2) run l] prod.case
    using run assms(1) nf
    by (auto simp: Ldb_Get_def no_fault_def ldb_view_def Batch_DBDelete_def Ldb_Delete_def
        delete_keys_view [OF nf] split: option.splits)
qed

theorem force_put_replaces_witness:
  "\<exists>orig b'. ForcePutAll example_codec [4] (example_index 2) [([3, 2], [8])] example_batch = ((orig, None), b') \<and>
    ldb_view (bt_db b') [3, 1] = None"
proof -
  obtain orig e b' where f: "ForcePutAll example_codec [4] (example_index 2) [([3, 2], [8])] example_batch = ((orig, e), b')"
    by (metis prod.collapse)
  have "e = None"
  proof (rule ccontr)
    assume "e \<noteq> None"
    have "ix_enc example_codec (example_index 2) = Inr [2]" by (simp add: example_codec_def example_index_def)
    from PutAllWithKeyIndex_ok [OF this] f \<open>e \<noteq> None\<close> show False
      by (simp add: ForcePutAll_def batch_lock_def TryLockMap_def with_stored_index_def example_batch_sel
          Ldb_Has_def Ldb_Get_def put_over_def example_codec_def)
  qed
  moreover have "no_fault (bt_db example_batch)" "ldb_view (bt_db example_batch) [4] = Some [1]"
    "ix_dec example_codec [1] = Some (example_index 1)"
    by (simp_all add: no_fault_def ldb_view_def example_batch_sel example_codec_def)
  moreover have "[3, 1 :: byte] \<noteq> [4]" by simp
  ultimately have "ldb_view (bt_db b') [3, 1] =
    (case map_of (rev [([3, 2], [8])]) [3, 1 :: byte] of
       Some v \<Rightarrow> Some v
     | None \<Rightarrow> if [3, 1] \<in> key_bytes ` set (index_keys (example_index 1)) then None else ldb_view (bt_db example_batch) [3, 1])"
    using f by (intro force_put_replaces) blast+
  then show ?thesis using f \<open>e = None\<close> by (auto simp: index_keys_def example_index_def key_bytes_def)
qed

theorem delete_all_effect_witness:
  "ldb_view (bt_db (snd (DeleteAll example_codec [4] example_batch))) [3, 1] = None"
proof -
  have a: "no_fault (bt_db example_batch)" "ldb_locks (bt_db example_batch) [4] = None"
    "ldb_view (bt_db example_batch) [4] = Some [1]" "ix_dec example_codec [1] = Some (example_index 1)"
    by (simp_all add: no_fault_def ldb_view_def example_batch_sel example_codec_def)
  from delete_all_effect [OF a(1,2), of example_codec] a(3,4) show ?thesis
    by (auto simp: index_keys_def example_index_def key_bytes_def split: prod.splits)
qed

text \<open>
  \<^verbatim>\<open>TryPutAll\<close> deletes the keys of the stored index one by one before the batch is written: if the
  write then fails, the index stays and lists keys that are gone.
\<close>

lemma TryPutAll_fault_dangles:
  assumes "no_fault (bt_db b)" "ldb_view (bt_db b) idxKey = Some old" "ix_dec C old = Some d"
    and "ut_guard idx d" "ix_enc C idx = Inr m"
    and "PutAllWithKeyIndex C idxKey idx kvs (delete_keys (index_keys d) b) = (Some e, b')"
  shows "\<forall>k \<in> set (index_keys d). key_bytes k \<noteq> idxKey \<longrightarrow> ldb_view (bt_db b') (key_bytes k) = None"
proof -
  have "bt_db b' = bt_db (delete_keys (index_keys d) b)"
    using PutAllWithKeyIndex_spec [where C = C and key = idxKey and idx = idx and kvs = kvs and
        b = "delete_keys (index_keys d) b"] assms(6) by simp
  then show ?thesis by (simp add: ldb_view_def delete_keys_view [OF assms(1)])
qed

end
