(* ===== verification/Merkle_Nodes.thy ===== *)
theory Merkle_Nodes
  imports Timestamps "HOL-Library.Product_Lexorder"
begin

text \<open>
  \<^verbatim>\<open>service/merkle_node.go\<close> and \<^verbatim>\<open>service/merkle_utils.go\<close>: the nodes of the Merkle tree over time, their
  encoding, and the comparison of two peers' nodes: which nodes, and which keys, each of them lacks.
  Byte strings are compared with \<^verbatim>\<open>bytes.Compare\<close>, the lexicographic order on \<open>bytes\<close>.
\<close>

subsection \<open>Definitions\<close>

type_synonym MerkleTreeLevel = byte

definition MerkleTreeLevelInvalid :: MerkleTreeLevel where "MerkleTreeLevelInvalid = 0"
definition MerkleTreeLevelNow :: MerkleTreeLevel where "MerkleTreeLevelNow = 1"
definition MerkleTreeLevelHR :: MerkleTreeLevel where "MerkleTreeLevelHR = 2"
definition MerkleTreeLevelDay :: MerkleTreeLevel where "MerkleTreeLevelDay = 3"
definition MerkleTreeLevelMonth :: MerkleTreeLevel where "MerkleTreeLevelMonth = 4"
definition MerkleTreeLevelYear :: MerkleTreeLevel where "MerkleTreeLevelYear = 5"

lemmas level_defs = MerkleTreeLevelInvalid_def MerkleTreeLevelNow_def MerkleTreeLevelHR_def
  MerkleTreeLevelDay_def MerkleTreeLevelMonth_def MerkleTreeLevelYear_def

record MerkleNode =
  node_Level :: MerkleTreeLevel
  node_Addr :: bytes
  node_UpdateTS :: Timestamp
  node_NChildren :: u32
  node_Key :: bytes

definition Node_Marshal :: "MerkleNode \<Rightarrow> bytes res" where
  "Node_Marshal m =
     Concat [Some [node_Level m], Some (node_Addr m), Some (Timestamp_Marshal (node_UpdateTS m)),
             Some (PutUint32 (node_NChildren m)), Some (node_Key m)]"

definition Node_Unmarshal :: "bytes \<Rightarrow> MerkleNode res" where
  "Node_Unmarshal b =
     (if b = [] then Panic
      else
        (let addr = copy_into (replicate 20 0) (drop 1 b)
         in if length b < 33 then Panic
            else res_bind (UnmarshalTimestamp (slice 21 33 b)) (\<lambda>ts.
              res_bind (Uint32 (drop 33 b)) (\<lambda>nChildren.
                Ret \<lparr>node_Level = hd b, node_Addr = addr, node_UpdateTS = ts,
                     node_NChildren = nChildren, node_Key = drop 37 b\<rparr>))))"

text \<open>Offsets into a Merkle key: the database prefix and the identifier come before the level.\<close>

definition MerkleTreeKeyOffsetLevel :: nat where
  "MerkleTreeKeyOffsetLevel = 5 + 40"

definition ConstructUpdateTSAndLevelByKey :: "bytes \<Rightarrow> MerkleNode \<Rightarrow> MerkleNode res" where
  "ConstructUpdateTSAndLevelByKey key m =
     (if length key \<le> MerkleTreeKeyOffsetLevel then Panic
      else res_bind (UnmarshalTimestamp (drop (MerkleTreeKeyOffsetLevel + 1) key)) (\<lambda>updateTS.
        Ret (m\<lparr>node_Level := key ! MerkleTreeKeyOffsetLevel, node_UpdateTS := updateTS\<rparr>)))"

definition UpdateTSToTS :: "int \<Rightarrow> MerkleNode \<Rightarrow> Timestamp" where
  "UpdateTSToTS offs m =
     (if node_Level m = MerkleTreeLevelNow then node_UpdateTS m
      else if node_Level m = MerkleTreeLevelHR then fst (ToHRTimestamp (node_UpdateTS m))
      else if node_Level m = MerkleTreeLevelDay then fst (ToDayTimestamp (node_UpdateTS m))
      else if node_Level m = MerkleTreeLevelMonth then fst (ToMonthTimestamp offs (node_UpdateTS m))
      else if node_Level m = MerkleTreeLevelYear then fst (ToYearTimestamp offs (node_UpdateTS m))
      else ZeroTimestamp)"

text \<open>\<^verbatim>\<open>nodes[:idx]\<close> with the index \<^verbatim>\<open>sort.Search\<close> finds.\<close>

definition validateMerkleTreeTrimNodes :: "MerkleNode list \<Rightarrow> Timestamp \<Rightarrow> MerkleNode list" where
  "validateMerkleTreeTrimNodes nodes ts =
     take (go_search (\<lambda>i. IsLessEqual ts (node_UpdateTS (nodes ! i))) 0 (length nodes)) nodes"

fun ValidateMerkleTree_loop ::
  "MerkleNode list \<Rightarrow> MerkleNode list \<Rightarrow> Timestamp \<Rightarrow> Timestamp \<times> bool" where
  "ValidateMerkleTree_loop (my # mys) (their # theirs) ts =
     (if node_Addr my \<noteq> node_Addr their
      then (if IsLess (node_UpdateTS their) ts then node_UpdateTS their else node_UpdateTS my, False)
      else ValidateMerkleTree_loop mys theirs ts)"
| "ValidateMerkleTree_loop (my # mys) [] ts = (node_UpdateTS my, False)"
| "ValidateMerkleTree_loop [] (their # theirs) ts = (node_UpdateTS their, False)"
| "ValidateMerkleTree_loop [] [] ts = (ZeroTimestamp, True)"

definition ValidateMerkleTree ::
  "MerkleNode list \<Rightarrow> MerkleNode list \<Rightarrow> Timestamp \<Rightarrow> Timestamp \<times> bool" where
  "ValidateMerkleTree myNodes theirNodes ts =
     ValidateMerkleTree_loop (validateMerkleTreeTrimNodes myNodes ts)
       (validateMerkleTreeTrimNodes theirNodes ts) ts"

fun DiffMerkleTree_loop ::
  "MerkleNode list \<Rightarrow> MerkleNode list \<Rightarrow> MerkleNode list \<Rightarrow> MerkleNode list \<Rightarrow>
   MerkleNode list \<times> MerkleNode list" where
  "DiffMerkleTree_loop (my # mys) (their # theirs) myNew theirNew =
     (if IsLess (node_UpdateTS my) (node_UpdateTS their)
      then DiffMerkleTree_loop mys (their # theirs) myNew (theirNew @ [my])
      else if IsLess (node_UpdateTS their) (node_UpdateTS my)
      then DiffMerkleTree_loop (my # mys) theirs (myNew @ [their]) theirNew
      else if node_Level my > node_Level their
      then DiffMerkleTree_loop mys (their # theirs) myNew (theirNew @ [my])
      else if node_Level my < node_Level their
      then DiffMerkleTree_loop (my # mys) theirs (myNew @ [their]) theirNew
      else if node_NChildren my > node_NChildren their
      then DiffMerkleTree_loop mys theirs myNew (theirNew @ [my])
      else if node_NChildren my < node_NChildren their
      then DiffMerkleTree_loop mys theirs (myNew @ [their]) theirNew
      else if node_Addr my \<noteq> node_Addr their
      then DiffMerkleTree_loop mys theirs (myNew @ [their]) (theirNew @ [my])
      else DiffMerkleTree_loop mys theirs myNew theirNew)"
| "DiffMerkleTree_loop mys [] myNew theirNew = (myNew, theirNew @ mys)"
| "DiffMerkleTree_loop [] theirs myNew theirNew = (myNew @ theirs, theirNew)"

definition DiffMerkleTree ::
  "MerkleNode list \<Rightarrow> MerkleNode list \<Rightarrow> Timestamp \<Rightarrow> MerkleNode list \<times> MerkleNode list" where
  "DiffMerkleTree myNodes theirNodes ts =
     (if \<not> IsEqual ts ZeroTimestamp
      then DiffMerkleTree_loop (validateMerkleTreeTrimNodes myNodes ts) (validateMerkleTreeTrimNodes theirNodes ts) [] []
      else DiffMerkleTree_loop myNodes theirNodes [] [])"

fun DiffMerkleKeys_loop ::
  "bytes list \<Rightarrow> bytes list \<Rightarrow> bytes list \<Rightarrow> bytes list \<Rightarrow> bytes list \<times> bytes list" where
  "DiffMerkleKeys_loop (my # mys) (their # theirs) myNew theirNew =
     (if my < their then DiffMerkleKeys_loop mys (their # theirs) myNew (theirNew @ [my])
      else if my > their then DiffMerkleKeys_loop (my # mys) theirs (myNew @ [their]) theirNew
      else DiffMerkleKeys_loop mys theirs myNew theirNew)"
| "DiffMerkleKeys_loop mys [] myNew theirNew = (myNew, theirNew @ mys)"
| "DiffMerkleKeys_loop [] theirs myNew theirNew = (myNew @ theirs, theirNew)"

definition DiffMerkleKeys :: "bytes list \<Rightarrow> bytes list \<Rightarrow> bytes list \<times> bytes list" where
  "DiffMerkleKeys myKeys theirKeys = DiffMerkleKeys_loop myKeys theirKeys [] []"

text \<open>
  \<^verbatim>\<open>MergeKeysInMerkleNodes\<close> walks both lists by index, with the current node's key in a variable
  that is loaded only while the index is in range.
\<close>

record merge_vars =
  mv_p :: "MerkleNode list"
  mv_idx :: nat
  mv_key :: bytes

definition merge_step :: "nat \<Rightarrow> merge_vars \<Rightarrow> merge_vars" where
  "merge_step n v =
     (let idx = mv_idx v + 1
      in if idx < n then \<lparr>mv_p = tl (mv_p v), mv_idx = idx, mv_key = node_Key (hd (tl (mv_p v)))\<rparr>
         else v\<lparr>mv_idx := idx\<rparr>)"

function merge_loop ::
  "nat \<Rightarrow> nat \<Rightarrow> merge_vars \<Rightarrow> merge_vars \<Rightarrow> bytes list \<Rightarrow> bytes list \<Rightarrow>
   merge_vars \<times> merge_vars \<times> bytes list \<times> bytes list" where
  "merge_loop lenMy lenTheir my their myNew theirNew =
     (if mv_idx my < lenMy \<and> mv_idx their < lenTheir then
        (if mv_key my < mv_key their
         then merge_loop lenMy lenTheir (merge_step lenMy my) their myNew (theirNew @ [mv_key my])
         else if mv_key my > mv_key their
         then merge_loop lenMy lenTheir my (merge_step lenTheir their) (myNew @ [mv_key their]) theirNew
         else merge_loop lenMy lenTheir (merge_step lenMy my) (merge_step lenTheir their) myNew theirNew)
      else (my, their, myNew, theirNew))"
  by pat_completeness auto
termination
  by (relation "measure (\<lambda>(lm, lt, my, their, _). (lm - mv_idx my) + (lt - mv_idx their))")
    (auto simp: merge_step_def Let_def)

function drain_loop :: "nat \<Rightarrow> merge_vars \<Rightarrow> bytes list \<Rightarrow> bytes list" where
  "drain_loop n v new =
     (if mv_idx v < n then drain_loop n (merge_step n v) (new @ [mv_key v]) else new)"
  by pat_completeness auto
termination
  by (relation "measure (\<lambda>(n, v, _). n - mv_idx v)") (auto simp: merge_step_def Let_def)

declare merge_loop.simps [simp del] drain_loop.simps [simp del]

definition merge_start :: "MerkleNode list \<Rightarrow> merge_vars" where
  "merge_start nodes = \<lparr>mv_p = nodes, mv_idx = 0, mv_key = node_Key (hd nodes)\<rparr>"

definition MergeKeysInMerkleNodes ::
  "MerkleNode list \<Rightarrow> MerkleNode list \<Rightarrow> bytes list \<times> bytes list" where
  "MergeKeysInMerkleNodes myNodes theirNodes =
     (let lenMy = length myNodes; lenTheir = length theirNodes
      in if lenMy = 0 \<and> lenTheir = 0 then ([], [])
         else if lenTheir = 0 then ([], map node_Key myNodes)
         else if lenMy = 0 then (map node_Key theirNodes, [])
         else
           (case merge_loop lenMy lenTheir (merge_start myNodes) (merge_start theirNodes) [] [] of
              (my, their, myNew, theirNew) \<Rightarrow>
                (drain_loop lenTheir their myNew, drain_loop lenMy my theirNew)))"

subsection \<open>The encoding of a node\<close>

definition node_wf :: "MerkleNode \<Rightarrow> bool" where
  "node_wf n \<longleftrightarrow> length (node_Addr n) = 20 \<and> ts_ok (node_UpdateTS n)"

lemma Node_Marshal_eq:
  "Node_Marshal m = Ret (node_Level m # node_Addr m @ Timestamp_Marshal (node_UpdateTS m) @
     PutUint32 (node_NChildren m) @ node_Key m)"
  by (simp add: Node_Marshal_def Concat_eq)

lemma Node_Unmarshal_append:
  assumes "length a = 20" "length t = 12" "length c = 4"
  shows "Node_Unmarshal (l # a @ t @ c @ k) =
    res_bind (UnmarshalTimestamp t) (\<lambda>ts. res_bind (Uint32 c) (\<lambda>n.
      Ret \<lparr>node_Level = l, node_Addr = a, node_UpdateTS = ts, node_NChildren = n, node_Key = k\<rparr>))"
proof -
  have "slice 21 33 (l # a @ t @ c @ k) = t"
    using assms by (simp add: slice_def)
  moreover have "copy_into (replicate 20 0) (a @ t @ c @ k) = a"
    using assms by (simp add: copy_into_def)
  moreover have "drop 33 (l # a @ t @ c @ k) = c @ k" "drop 37 (l # a @ t @ c @ k) = k"
    using assms by simp_all
  moreover have "Uint32 (c @ k) = Uint32 c" using assms by (simp add: Uint32_def)
  ultimately show ?thesis using assms by (simp add: Node_Unmarshal_def del: drop_Cons_numeral)
qed

lemma Node_Unmarshal_Marshal:
  "node_wf n \<Longrightarrow> Node_Unmarshal (node_Level n # node_Addr n @ Timestamp_Marshal (node_UpdateTS n) @
     PutUint32 (node_NChildren n) @ node_Key n) = Ret n"
  by (simp add: node_wf_def Node_Unmarshal_append Unmarshal_Marshal_Timestamp codec_simps)

lemma Node_Unmarshal_long: "Node_Unmarshal b = Ret n \<Longrightarrow> 37 \<le> length b"
  by (auto simp: Node_Unmarshal_def res_bind_eq_Ret Uint32_def split: if_splits)

lemma split_node_bytes:
  assumes "37 \<le> length (b :: bytes)"
  obtains l a t c k where "b = l # a @ t @ c @ k" "length a = 20" "length t = 12" "length c = 4"
proof
  show "b = hd b # take 20 (drop 1 b) @ take 12 (drop 21 b) @ take 4 (drop 33 b) @ drop 37 b"
  proof -
    have "b = hd b # drop 1 b" using assms by (cases b) auto
    moreover have "drop 1 b = take 20 (drop 1 b) @ drop 21 b"
      using append_take_drop_id [of 20 "drop 1 b"] by simp
    moreover have "drop 21 b = take 12 (drop 21 b) @ drop 33 b"
      using append_take_drop_id [of 12 "drop 21 b"] by simp
    moreover have "drop 33 b = take 4 (drop 33 b) @ drop 37 b"
      using append_take_drop_id [of 4 "drop 33 b"] by simp
    ultimately show ?thesis by argo
  qed
qed (use assms in auto)

lemma PutUint32_of_bytes: "length b = 4 \<Longrightarrow> PutUint32 (word_of_nat (be_val b)) = b"
  using be_val_bound [of b] by (simp add: PutUint32_def unat_of_nat be_bytes_be_val)

lemma Node_Unmarshal_ok:
  assumes "Node_Unmarshal b = Ret n"
  shows "node_wf n \<and> Node_Marshal n = Ret b"
proof -
  obtain l a t c k where b: "b = l # a @ t @ c @ k" "length a = 20" "length t = 12" "length c = 4"
    using split_node_bytes [OF Node_Unmarshal_long [OF assms]] by metis
  from assms obtain ts m where u: "UnmarshalTimestamp t = Ret ts" "Uint32 c = Ret m" and
    n: "n = \<lparr>node_Level = l, node_Addr = a, node_UpdateTS = ts, node_NChildren = m, node_Key = k\<rparr>"
    by (auto simp: b Node_Unmarshal_append res_bind_eq_Ret)
  from u(2) b(4) have "PutUint32 m = c"
    by (auto simp: Uint32_def PutUint32_of_bytes split: if_splits)
  with UnmarshalTimestamp_ok [OF u(1)] b show ?thesis
    by (simp add: n node_wf_def Node_Marshal_eq)
qed

subsection \<open>Comparing two lists of nodes\<close>

lemma DiffMerkleKeys_loop_correct:
  assumes "sorted_wrt (<) my" "sorted_wrt (<) their"
  shows "DiffMerkleKeys_loop my their myNew theirNew =
     (myNew @ filter (\<lambda>k. k \<notin> set my) their, theirNew @ filter (\<lambda>k. k \<notin> set their) my)"
  using assms
proof (induction my their myNew theirNew rule: DiffMerkleKeys_loop.induct)
  case (1 my mys their theirs myNew theirNew)
  have sorted: "\<forall>k \<in> set mys. my < k" "\<forall>k \<in> set theirs. their < k"
    "sorted_wrt (<) mys" "sorted_wrt (<) theirs" using "1.prems" by auto
  consider "my < their" | "their < my" | "my = their" by force
  then show ?case
  proof cases
    case less: 1
    with sorted have "my \<notin> set (their # theirs)" by force
    moreover from this have "filter (\<lambda>k. k \<notin> set (my # mys)) (their # theirs) =
      filter (\<lambda>k. k \<notin> set mys) (their # theirs)" by (intro filter_cong) auto
    ultimately show ?thesis using "1.IH"(1) [OF less sorted(3) "1.prems"(2)] less by simp
  next
    case less: 2
    with sorted have "their \<notin> set (my # mys)" by force
    moreover from this have "filter (\<lambda>k. k \<notin> set (their # theirs)) (my # mys) =
      filter (\<lambda>k. k \<notin> set theirs) (my # mys)" by (intro filter_cong) auto
    moreover have "\<not> my < their" using less by simp
    ultimately show ?thesis using "1.IH"(2) [OF _ less "1.prems"(1) sorted(4)] less by simp
  next
    case eq: 3
    have "filter (\<lambda>k. k \<notin> set (my # mys)) theirs = filter (\<lambda>k. k \<notin> set mys) theirs"
      "filter (\<lambda>k. k \<notin> set (their # theirs)) mys = filter (\<lambda>k. k \<notin> set theirs) mys"
      using sorted eq by (auto intro!: filter_cong)
    then show ?thesis using "1.IH"(3) [OF _ _ sorted(3,4)] eq by simp
  qed
qed simp_all

text \<open>The index walk is the list walk: the variables hold the rest of the list while it is not empty.\<close>

definition merge_at :: "MerkleNode list \<Rightarrow> merge_vars \<Rightarrow> MerkleNode list \<Rightarrow> bool" where
  "merge_at nodes v rest \<longleftrightarrow> mv_idx v + length rest = length nodes \<and>
     (rest \<noteq> [] \<longrightarrow> mv_p v = rest \<and> mv_key v = node_Key (hd rest))"

lemma merge_at_start: "nodes \<noteq> [] \<Longrightarrow> merge_at nodes (merge_start nodes) nodes"
  by (simp add: merge_at_def merge_start_def)

lemma merge_at_step: "merge_at nodes v (n # rest) \<Longrightarrow> merge_at nodes (merge_step (length nodes) v) rest"
  by (cases rest) (auto simp: merge_at_def merge_step_def Let_def)

lemma merge_at_idx: "merge_at nodes v rest \<Longrightarrow> mv_idx v < length nodes \<longleftrightarrow> rest \<noteq> []"
  by (cases rest) (auto simp: merge_at_def)

lemma merge_at_key: "merge_at nodes v (n # rest) \<Longrightarrow> mv_key v = node_Key n"
  by (simp add: merge_at_def)

lemma drain_loop_eq:
  "merge_at nodes v rest \<Longrightarrow> drain_loop (length nodes) v new = new @ map node_Key rest"
proof (induction rest arbitrary: v new)
  case Nil
  then show ?case by (subst drain_loop.simps) (simp add: merge_at_idx)
next
  case (Cons n rest)
  from Cons.IH [OF merge_at_step [OF Cons.prems]] Cons.prems show ?case
    by (subst drain_loop.simps) (simp add: merge_at_idx merge_at_key)
qed

lemma merge_loop_eq:
  assumes "merge_at my v rm" "merge_at their w rt"
  shows "case merge_loop (length my) (length their) v w myNew theirNew of
    (v', w', myNew', theirNew') \<Rightarrow>
      (drain_loop (length their) w' myNew', drain_loop (length my) v' theirNew') =
        DiffMerkleKeys_loop (map node_Key rm) (map node_Key rt) myNew theirNew"
  using assms
proof (induction "map node_Key rm" "map node_Key rt" myNew theirNew arbitrary: v w rm rt
    rule: DiffMerkleKeys_loop.induct)
  case (1 m ms t ts myNew theirNew)
  then obtain n ns k ks where rm: "rm = n # ns" and rt: "rt = k # ks" by (cases rm; cases rt) auto
  note mt = "1.hyps"(4,5)
  have idx: "mv_idx v < length my" "mv_idx w < length their"
    and key: "mv_key v = node_Key n" "mv_key w = node_Key k"
    using "1.prems" by (auto simp: rm rt merge_at_idx merge_at_key)
  have steps: "merge_at my (merge_step (length my) v) ns" "merge_at their (merge_step (length their) w) ks"
    using "1.prems" merge_at_step by (auto simp: rm rt)
  consider "node_Key n < node_Key k" | "node_Key k < node_Key n" | "node_Key n = node_Key k" by force
  then show ?case
  proof cases
    case less: 1
    with mt "1.hyps"(1) [of ns rt, OF _ _ _ steps(1) "1.prems"(2)] show ?thesis
      by (subst merge_loop.simps) (simp add: idx key rm rt)
  next
    case less: 2
    then have "\<not> node_Key n < node_Key k" by simp
    with less mt "1.hyps"(2) [of rm ks, OF _ _ _ _ "1.prems"(1) steps(2)] show ?thesis
      by (subst merge_loop.simps) (simp add: idx key rm rt)
  next
    case eq: 3
    with mt "1.hyps"(3) [of ns ks, OF _ _ _ _ steps] show ?thesis
      by (subst merge_loop.simps) (simp add: idx key rm rt)
  qed
next
  case (2 myNew theirNew)
  then show ?case
    by (subst merge_loop.simps) (simp add: merge_at_idx drain_loop_eq del: map_map)
next
  case (3 t ts myNew theirNew)
  then show ?case
    by (subst merge_loop.simps) (auto simp add: merge_at_idx drain_loop_eq)
qed

text \<open>
  The position of a node: by time, and the higher level first at the same time.  \<open>lacks nodes n\<close>: the
  owner of \<open>nodes\<close> has nothing at the position of \<open>n\<close> that covers it.
\<close>

definition node_pos :: "MerkleNode \<Rightarrow> Timestamp \<times> int" where
  "node_pos n = (node_UpdateTS n, - uint (node_Level n))"

definition lacks :: "MerkleNode list \<Rightarrow> MerkleNode \<Rightarrow> bool" where
  "lacks nodes n \<longleftrightarrow> (\<forall>m \<in> set nodes. node_pos m = node_pos n \<longrightarrow>
     node_NChildren m < node_NChildren n \<or>
     node_NChildren m = node_NChildren n \<and> node_Addr m \<noteq> node_Addr n)"

lemma lacks_Cons:
  "lacks (m # ms) n \<longleftrightarrow> (node_pos m = node_pos n \<longrightarrow> node_NChildren m < node_NChildren n \<or>
     node_NChildren m = node_NChildren n \<and> node_Addr m \<noteq> node_Addr n) \<and> lacks ms n"
  by (auto simp: lacks_def)

lemma lacks_beyond: "\<forall>m \<in> set nodes. node_pos n < node_pos m \<Longrightarrow> lacks nodes n"
  by (auto simp: lacks_def)

lemma lacks_filter_Cons:
  "\<forall>n \<in> set ns. node_pos m < node_pos n \<Longrightarrow> filter (lacks (m # ms)) ns = filter (lacks ms) ns"
  by (intro filter_cong) (auto simp: lacks_Cons)

lemma node_pos_less_iff:
  "node_pos m < node_pos n \<longleftrightarrow> node_UpdateTS m < node_UpdateTS n \<or>
     node_UpdateTS m = node_UpdateTS n \<and> node_Level n < node_Level m"
  by (auto simp: node_pos_def word_less_def)

lemma node_pos_eq_iff:
  "node_pos m = node_pos n \<longleftrightarrow> node_UpdateTS m = node_UpdateTS n \<and> node_Level m = node_Level n"
  by (auto simp: node_pos_def word_uint_eq_iff)

lemma DiffMerkleTree_loop_Cons:
  "DiffMerkleTree_loop (m # ms) (t # ts) myNew theirNew =
     (if node_pos m < node_pos t then DiffMerkleTree_loop ms (t # ts) myNew (theirNew @ [m])
      else if node_pos t < node_pos m then DiffMerkleTree_loop (m # ms) ts (myNew @ [t]) theirNew
      else DiffMerkleTree_loop ms ts (if lacks [m] t then myNew @ [t] else myNew)
        (if lacks [t] m then theirNew @ [m] else theirNew))"
  by (auto simp: node_pos_less_iff node_pos_eq_iff lacks_def dest: order.asym)

declare DiffMerkleTree_loop.simps(1) [simp del]

lemma DiffMerkleTree_loop_correct:
  assumes "sorted_wrt (<) (map node_pos my)" "sorted_wrt (<) (map node_pos their)"
  shows "DiffMerkleTree_loop my their myNew theirNew =
     (myNew @ filter (lacks my) their, theirNew @ filter (lacks their) my)"
  using assms
proof (induction "length my + length their" arbitrary: my their myNew theirNew rule: less_induct)
  case less
  show ?case
  proof (cases "my = [] \<or> their = []")
    case True
    then show ?thesis by (cases my; cases their) (auto simp: lacks_def)
  next
    case False
    then obtain m ms t ts where my: "my = m # ms" and their: "their = t # ts"
      by (cases my; cases their) auto
    have sorted: "\<forall>n \<in> set ms. node_pos m < node_pos n" "\<forall>n \<in> set ts. node_pos t < node_pos n"
      "sorted_wrt (<) (map node_pos ms)" "sorted_wrt (<) (map node_pos ts)"
      using less.prems by (auto simp: my their)
    consider "node_pos m < node_pos t" | "node_pos t < node_pos m" | "node_pos m = node_pos t" by force
    then show ?thesis
    proof cases
      case lt: 1
      then have beyond: "\<forall>n \<in> set their. node_pos m < node_pos n"
        using sorted(2) by (auto simp: their intro: order.strict_trans)
      have "DiffMerkleTree_loop ms their myNew (theirNew @ [m]) =
        (myNew @ filter (lacks ms) their, theirNew @ [m] @ filter (lacks their) ms)"
        using less.hyps [of ms their] less.prems(2) sorted(3) by (simp add: my)
      moreover have "DiffMerkleTree_loop my their myNew theirNew =
        DiffMerkleTree_loop ms their myNew (theirNew @ [m])"
        using lt by (simp add: my their DiffMerkleTree_loop_Cons)
      moreover have "filter (lacks my) their = filter (lacks ms) their"
        unfolding my by (rule lacks_filter_Cons [OF beyond])
      moreover have "filter (lacks their) my = m # filter (lacks their) ms"
        using lacks_beyond [OF beyond] by (simp add: my)
      ultimately show ?thesis by simp
    next
      case lt: 2
      then have beyond: "\<forall>n \<in> set my. node_pos t < node_pos n"
        using sorted(1) by (auto simp: my intro: order.strict_trans)
      have "DiffMerkleTree_loop my ts (myNew @ [t]) theirNew =
        (myNew @ [t] @ filter (lacks my) ts, theirNew @ filter (lacks ts) my)"
        using less.hyps [of my ts] less.prems(1) sorted(4) by (simp add: their)
      moreover have "DiffMerkleTree_loop my their myNew theirNew =
        DiffMerkleTree_loop my ts (myNew @ [t]) theirNew"
        using lt less_not_sym [OF lt] by (simp add: my their DiffMerkleTree_loop_Cons)
      moreover have "filter (lacks their) my = filter (lacks ts) my"
        unfolding their by (rule lacks_filter_Cons [OF beyond])
      moreover have "filter (lacks my) their = t # filter (lacks my) ts"
        using lacks_beyond [OF beyond] by (simp add: their)
      ultimately show ?thesis by simp
    next
      case eq: 3
      have rest: "lacks ms t" "lacks ts m" using sorted eq by (auto intro: lacks_beyond)
      have drop: "filter (lacks my) ts = filter (lacks ms) ts" "filter (lacks their) ms = filter (lacks ts) ms"
        using sorted eq by (simp_all add: my their lacks_filter_Cons)
      have "DiffMerkleTree_loop ms ts u v = (u @ filter (lacks ms) ts, v @ filter (lacks ts) ms)" for u v
        using less.hyps [of ms ts] sorted(3,4) by (simp add: my their)
      moreover have "lacks my t = lacks [m] t" "lacks their m = lacks [t] m"
        using rest by (simp_all add: my their lacks_Cons) (simp_all add: lacks_def)
      ultimately show ?thesis
        using eq drop by (simp add: my their DiffMerkleTree_loop_Cons)
    qed
  qed
qed

subsection \<open>Trimming and validation\<close>

lemma trim_sorted:
  assumes "sorted (map node_UpdateTS nodes)"
  shows "validateMerkleTreeTrimNodes nodes ts = filter (\<lambda>n. node_UpdateTS n < ts) nodes"
proof -
  define f where "f = (\<lambda>i. IsLessEqual ts (node_UpdateTS (nodes ! i)))"
  have mono: "mono_pred f (length nodes)"
    unfolding mono_pred_def f_def
  proof (intro allI impI)
    fix i j assume "i \<le> j" "j < length nodes" "IsLessEqual ts (node_UpdateTS (nodes ! i))"
    moreover from this assms have "node_UpdateTS (nodes ! i) \<le> node_UpdateTS (nodes ! j)"
      using sorted_nth_mono [of "map node_UpdateTS nodes" i j] by simp
    ultimately show "IsLessEqual ts (node_UpdateTS (nodes ! j))" by simp
  qed
  define m where "m = go_search f 0 (length nodes)"
  have c: "m \<le> length nodes" "\<forall>k < m. \<not> f k" "\<forall>k. m \<le> k \<longrightarrow> k < length nodes \<longrightarrow> f k"
    using go_search_correct [OF le0 mono] by (auto simp: m_def)
  have "filter (\<lambda>n. node_UpdateTS n < ts) (take m nodes) = take m nodes"
    using c(1,2) by (auto simp: filter_id_conv in_set_conv_nth f_def not_le)
  moreover have "filter (\<lambda>n. node_UpdateTS n < ts) (drop m nodes) = []"
    using c(3) by (auto simp: filter_empty_conv in_set_conv_nth f_def not_less)
  ultimately have "filter (\<lambda>n. node_UpdateTS n < ts) nodes = take m nodes"
    by (metis append_Nil2 append_take_drop_id filter_append)
  then show ?thesis by (simp add: validateMerkleTreeTrimNodes_def m_def f_def)
qed

lemma sorted_pos_times: "sorted_wrt (<) (map node_pos nodes) \<Longrightarrow> sorted (map node_UpdateTS nodes)"
  by (auto simp: sorted_wrt_map node_pos_less_iff elim!: sorted_wrt_mono_rel [rotated])

lemma sorted_pos_filter:
  "sorted_wrt (<) (map node_pos nodes) \<Longrightarrow> sorted_wrt (<) (map node_pos (filter P nodes))"
  by (simp add: sorted_wrt_map sorted_wrt_filter)

lemma ValidateMerkleTree_loop_ok:
  "ValidateMerkleTree_loop my their ts = (t, True) \<longleftrightarrow>
     t = ZeroTimestamp \<and> map node_Addr my = map node_Addr their"
  by (induction my their ts rule: ValidateMerkleTree_loop.induct) auto

lemma ValidateMerkleTree_loop_diff:
  assumes "ValidateMerkleTree_loop my their ts = (t, False)" "\<forall>n \<in> set their. node_UpdateTS n < ts"
  shows "\<exists>i. map node_Addr (take i my) = map node_Addr (take i their) \<and>
    (i < length my \<and> i < length their \<and> node_Addr (my ! i) \<noteq> node_Addr (their ! i) \<and>
       t = node_UpdateTS (their ! i) \<or>
     i < length my \<and> i = length their \<and> t = node_UpdateTS (my ! i) \<or>
     i = length my \<and> i < length their \<and> t = node_UpdateTS (their ! i))"
  using assms
proof (induction my their ts rule: ValidateMerkleTree_loop.induct)
  case (1 my mys their theirs ts)
  show ?case
  proof (cases "node_Addr my = node_Addr their")
    case True
    with 1 obtain i where "map node_Addr (take i mys) = map node_Addr (take i theirs) \<and>
      (i < length mys \<and> i < length theirs \<and> node_Addr (mys ! i) \<noteq> node_Addr (theirs ! i) \<and>
         t = node_UpdateTS (theirs ! i) \<or>
       i < length mys \<and> i = length theirs \<and> t = node_UpdateTS (mys ! i) \<or>
       i = length mys \<and> i < length theirs \<and> t = node_UpdateTS (theirs ! i))" by auto
    with True show ?thesis by (intro exI [of _ "Suc i"]) auto
  next
    case False
    with 1 show ?thesis by (intro exI [of _ 0]) auto
  qed
qed (auto intro: exI [of _ 0])

subsection \<open>Properties\<close>

text \<open>
  A node with a 20-byte address and a proper time is read back from its encoding, and every
  byte string that decodes is the encoding of such a node.
\<close>

theorem merkle_node_encoding:
  assumes "length (node_Addr n) = 20" "ts_ok (node_UpdateTS n)"
  shows "(\<exists>b. Node_Marshal n = Ret b \<and> Node_Unmarshal b = Ret n) \<and>
    (\<forall>b m. Node_Unmarshal b = Ret m \<longrightarrow> length (node_Addr m) = 20 \<and> Node_Marshal m = Ret b)"
proof
  have "node_wf n" using assms by (simp add: node_wf_def)
  then show "\<exists>b. Node_Marshal n = Ret b \<and> Node_Unmarshal b = Ret n"
    using Node_Unmarshal_Marshal unfolding Node_Marshal_eq by blast
  show "\<forall>b m. Node_Unmarshal b = Ret m \<longrightarrow> length (node_Addr m) = 20 \<and> Node_Marshal m = Ret b"
    using Node_Unmarshal_ok unfolding node_wf_def by blast
qed

definition example_node :: "byte \<Rightarrow> int \<Rightarrow> u32 \<Rightarrow> byte \<Rightarrow> MerkleNode" where
  "example_node l t n a =
     \<lparr>node_Level = l, node_Addr = replicate 20 a, node_UpdateTS = mkTs t 0, node_NChildren = n,
      node_Key = [a]\<rparr>"

theorem merkle_node_encoding_witness:
  "\<exists>b. Node_Marshal (example_node 2 3600 7 9) = Ret b \<and> Node_Unmarshal b = Ret (example_node 2 3600 7 9)"
  using merkle_node_encoding [of "example_node 2 3600 7 9"]
  by (simp add: example_node_def ts_ok_def in_i64_def)

text \<open>
  C29: on strictly sorted keys the comparison is the two set differences, in order: what the peer has
  and we lack, and what we have and the peer lacks.
\<close>

theorem diff_keys_correct:
  assumes "sorted_wrt (<) myKeys" "sorted_wrt (<) theirKeys"
  shows "DiffMerkleKeys myKeys theirKeys =
    (filter (\<lambda>k. k \<notin> set myKeys) theirKeys, filter (\<lambda>k. k \<notin> set theirKeys) myKeys)"
  using assms by (simp add: DiffMerkleKeys_def DiffMerkleKeys_loop_correct)

theorem diff_keys_correct_witness:
  "DiffMerkleKeys [[1], [2, 5], [7]] [[2], [2, 5], [8]] = ([[2], [8]], [[1], [7]])"
  using diff_keys_correct [of "[[1], [2, 5], [7]]" "[[2], [2, 5], [8]]"] by simp

text \<open>
  C28: the index-driven walk over the nodes' keys computes what the list-driven comparison computes,
  on any two lists of nodes, sorted or not.
\<close>

theorem merge_keys_equiv:
  "MergeKeysInMerkleNodes myNodes theirNodes =
     DiffMerkleKeys (map node_Key myNodes) (map node_Key theirNodes)"
proof (cases "myNodes = [] \<or> theirNodes = []")
  case True
  then show ?thesis
    by (cases myNodes; cases theirNodes) (auto simp: MergeKeysInMerkleNodes_def DiffMerkleKeys_def)
next
  case False
  with merge_loop_eq [OF merge_at_start merge_at_start, of myNodes theirNodes "[]" "[]"] show ?thesis
    by (auto simp: MergeKeysInMerkleNodes_def DiffMerkleKeys_def split: prod.splits)
qed

text \<open>
  C18: on two lists of nodes in strict order of position, the comparison of the trees before a time
  returns exactly the peer's nodes we lack and our nodes the peer lacks: those at a position the other
  side does not have, or has with fewer children, or with as many children and another address.
\<close>

theorem diff_tree_correct:
  assumes "sorted_wrt (<) (map node_pos myNodes)" "sorted_wrt (<) (map node_pos theirNodes)"
    "ts \<noteq> ZeroTimestamp"
  shows "DiffMerkleTree myNodes theirNodes ts =
    (let before = filter (\<lambda>n. IsLess (node_UpdateTS n) ts)
     in (filter (lacks (before myNodes)) (before theirNodes),
         filter (lacks (before theirNodes)) (before myNodes)))"
  using assms
  by (simp add: DiffMerkleTree_def trim_sorted sorted_pos_times DiffMerkleTree_loop_correct
      sorted_pos_filter Let_def)

theorem diff_tree_correct_witness:
  "DiffMerkleTree [example_node 3 0 4 1, example_node 2 3600 7 9, example_node 2 7200 1 2]
     [example_node 3 0 5 1, example_node 2 3600 7 8] (mkTs 7200 0) =
   ([example_node 3 0 5 1, example_node 2 3600 7 8], [example_node 2 3600 7 9])"
  by (subst diff_tree_correct)
    (simp_all add: example_node_def node_pos_def lacks_def less_Timestamp_ext_def ZeroTimestamp_def mkTs_def)

text \<open>
  C19: on nodes in time order, the trees agree exactly when the nodes before the given time have the
  same addresses in the same order; a disagreement is reported with the time of the peer's node at the
  first position where the address differs, or of the first node of the longer list.
\<close>

theorem validate_tree_verdict:
  assumes "sorted (map node_UpdateTS myNodes)" "sorted (map node_UpdateTS theirNodes)"
    "my = filter (\<lambda>n. IsLess (node_UpdateTS n) ts) myNodes"
    "their = filter (\<lambda>n. IsLess (node_UpdateTS n) ts) theirNodes"
  shows "case ValidateMerkleTree myNodes theirNodes ts of (t, valid) \<Rightarrow>
    (valid \<longleftrightarrow> map node_Addr my = map node_Addr their) \<and> (valid \<longrightarrow> t = ZeroTimestamp) \<and>
    (\<not> valid \<longrightarrow> (\<exists>i. map node_Addr (take i my) = map node_Addr (take i their) \<and>
      (i < length my \<and> i < length their \<and> node_Addr (my ! i) \<noteq> node_Addr (their ! i) \<and>
         t = node_UpdateTS (their ! i) \<or>
       i < length my \<and> i = length their \<and> t = node_UpdateTS (my ! i) \<or>
       i = length my \<and> i < length their \<and> t = node_UpdateTS (their ! i))))"
proof -
  obtain t valid where v: "ValidateMerkleTree_loop my their ts = (t, valid)" by force
  have trim: "ValidateMerkleTree myNodes theirNodes ts = (t, valid)"
    using assms v by (simp add: ValidateMerkleTree_def trim_sorted)
  show ?thesis
  proof (cases valid)
    case True
    with v show ?thesis using ValidateMerkleTree_loop_ok [of my their ts t] by (simp add: trim)
  next
    case False
    then have v': "ValidateMerkleTree_loop my their ts = (t, False)" using v by simp
    have "map node_Addr my \<noteq> map node_Addr their"
      using v' ValidateMerkleTree_loop_ok [of my their ts ZeroTimestamp] by auto
    moreover have "\<forall>n \<in> set their. node_UpdateTS n < ts" using assms(4) by simp
    note ValidateMerkleTree_loop_diff [OF v' this]
    ultimately show ?thesis unfolding trim prod.case using False by blast
  qed
qed

theorem validate_tree_verdict_witness:
  "\<not> snd (ValidateMerkleTree [example_node 2 3600 7 9, example_node 2 7200 1 2]
     [example_node 2 3600 7 8, example_node 2 7200 1 2] (mkTs 7200 0))"
  using validate_tree_verdict [of "[example_node 2 3600 7 9, example_node 2 7200 1 2]"
      "[example_node 2 3600 7 8, example_node 2 7200 1 2]" "[example_node 2 3600 7 9]" "mkTs 7200 0"
      "[example_node 2 3600 7 8]"]
  by (simp add: example_node_def less_Timestamp_ext_def less_eq_Timestamp_ext_def mkTs_def
      split: prod.splits)

text \<open>
  The time reported at a differing address is the peer's node's even where our node is earlier: the
  guard compares the peer's time with the bound of the comparison, below which every trimmed node is.
\<close>

lemma validate_reports_later_time:
  "ValidateMerkleTree [example_node 2 3600 7 9] [example_node 2 7200 7 8] (mkTs 10800 0) =
     (mkTs 7200 0, False)"
  by (simp add: ValidateMerkleTree_def trim_sorted example_node_def less_Timestamp_ext_def
      less_eq_Timestamp_ext_def mkTs_def)

end
