(* ===== verification/Merkle_Trees.thy ===== *)
theory Merkle_Trees
  imports Merkle_Nodes Level_Db Statuses
begin

text \<open>
  \<^verbatim>\<open>service/merkle.go\<close> and \<^verbatim>\<open>service/protocol_manager_utils_merkle.go\<close>: the Merkle tree over time that
  summarises an operation log, stored in the database as one entry per hour, day, month and year that
  has entries, and the loop that keeps it up to date with the hours that changed.

  \<open>merkle_env\<close> holds what the code takes from outside: Keccak-256, the JSON codecs, the order in which
  Go ranges over a map, and the global clock offset. \<open>Merkle\<close> is the struct without its mutexes and
  channel; the database is threaded next to it. \<open>toUpdateTS\<close> is the key set of the map.
\<close>

subsection \<open>Definitions\<close>

record merkle_env =
  env_keccak :: "bytes \<Rightarrow> bytes"
  env_offs :: int
  env_ts_enc :: "Timestamp \<Rightarrow> go_error + bytes"
  env_dbable :: dbable
  env_list_enc :: "int list \<Rightarrow> go_error + bytes"
  env_list_dec :: "bytes \<Rightarrow> int list option"
  env_order :: "int list \<Rightarrow> int list"

definition types_Addr :: "(bytes \<Rightarrow> bytes) \<Rightarrow> bytes \<Rightarrow> bytes" where
  "types_Addr keccak theBytes = slice 12 32 (keccak theBytes)"

record Merkle =
  mk_DBOplogPrefix :: bytes
  mk_DBMerklePrefix :: bytes
  mk_metaPrefix :: bytes
  mk_toUpdatePrefixWithID :: bytes
  mk_updatingPrefixWithID :: bytes
  mk_PrefixID :: bytes
  mk_LastGenerateTS :: Timestamp
  mk_BusyGenerateTS :: Timestamp
  mk_LastSyncTS :: Timestamp
  mk_LastFailSyncTS :: Timestamp
  mk_ExpireGenerateSeconds :: int
  mk_isBusyForceSync :: bool
  mk_toUpdateTS :: "int list"

definition DBMerkleGenerateTimePrefix :: bytes where
  "DBMerkleGenerateTimePrefix = [46, 109, 116, 103, 116]"
definition DBMerkleSyncTimePrefix :: bytes where
  "DBMerkleSyncTimePrefix = [46, 109, 116, 115, 116]"
definition DBMerkleFailSyncTimePrefix :: bytes where
  "DBMerkleFailSyncTimePrefix = [46, 109, 116, 102, 116]"
definition DBMerkleMetaPostfix :: bytes where "DBMerkleMetaPostfix = [109, 116]"
definition DBMerkleToUpdatePostfix :: bytes where "DBMerkleToUpdatePostfix = [77, 116]"
definition DBMerkleUpdatingPostfix :: bytes where "DBMerkleUpdatingPostfix = [77, 84]"
definition OffsetMerkleSyncTime :: int where "OffsetMerkleSyncTime = 3600"
definition ExpireGenerateOplogMerkleTreeSeconds :: int where "ExpireGenerateOplogMerkleTreeSeconds = 450"

definition MarshalGenerateTimeKey :: "Merkle \<Rightarrow> bytes res" where
  "MarshalGenerateTimeKey m = Concat [Some (mk_metaPrefix m), Some DBMerkleGenerateTimePrefix, Some (mk_PrefixID m)]"

definition MarshalSyncTimeKey :: "Merkle \<Rightarrow> bytes res" where
  "MarshalSyncTimeKey m = Concat [Some (mk_metaPrefix m), Some DBMerkleSyncTimePrefix, Some (mk_PrefixID m)]"

definition MarshalFailSyncTimeKey :: "Merkle \<Rightarrow> bytes res" where
  "MarshalFailSyncTimeKey m = Concat [Some (mk_metaPrefix m), Some DBMerkleFailSyncTimePrefix, Some (mk_PrefixID m)]"

definition DBPrefix :: "Merkle \<Rightarrow> bytes" where
  "DBPrefix m = mk_DBMerklePrefix m @ mk_PrefixID m"

definition MarshalKey :: "Merkle \<Rightarrow> MerkleTreeLevel \<Rightarrow> Timestamp \<Rightarrow> bytes res" where
  "MarshalKey m level ts =
     Concat [Some (mk_DBMerklePrefix m), Some (mk_PrefixID m), Some [level], Some (Timestamp_Marshal ts)]"

definition Node_ToKey :: "merkle_env \<Rightarrow> Merkle \<Rightarrow> MerkleNode \<Rightarrow> bytes" where
  "Node_ToKey E merkle m =
     (if node_Level m = MerkleTreeLevelNow then node_Key m
      else (case MarshalKey merkle (node_Level m) (UpdateTSToTS (env_offs E) m) of Ret key \<Rightarrow> key | _ \<Rightarrow> []))"

text \<open>Reading a stored time: \<^verbatim>\<open>GetSyncTime\<close> and \<^verbatim>\<open>GetFailSyncTime\<close> read a missing one as zero.\<close>

definition stored_time :: "merkle_env \<Rightarrow> bytes \<Rightarrow> Timestamp res" where
  "stored_time E val = (case env_dbable E val of None \<Rightarrow> Fail JsonError | Some ts \<Rightarrow> Ret ts)"

definition GetGenerateTime :: "merkle_env \<Rightarrow> Merkle \<Rightarrow> LDBDatabase \<Rightarrow> Timestamp res" where
  "GetGenerateTime E m db =
     res_bind (MarshalGenerateTimeKey m) (\<lambda>key. res_bind (Ldb_Get key db) (stored_time E))"

definition GetSyncTime :: "merkle_env \<Rightarrow> Merkle \<Rightarrow> LDBDatabase \<Rightarrow> Timestamp res" where
  "GetSyncTime E m db =
     res_bind (MarshalSyncTimeKey m) (\<lambda>key.
       if Ldb_Get key db = Fail LdbErrNotFound then Ret ZeroTimestamp
       else res_bind (Ldb_Get key db) (stored_time E))"

definition GetFailSyncTime :: "merkle_env \<Rightarrow> Merkle \<Rightarrow> LDBDatabase \<Rightarrow> Timestamp res" where
  "GetFailSyncTime E m db =
     res_bind (MarshalFailSyncTimeKey m) (\<lambda>key.
       if Ldb_Get key db = Fail LdbErrNotFound then Ret ZeroTimestamp
       else res_bind (Ldb_Get key db) (stored_time E))"

text \<open>\<^verbatim>\<open>err != nil && err != leveldb.ErrNotFound\<close>: a missing entry leaves the zero time.\<close>

definition or_not_found :: "Timestamp res \<Rightarrow> Timestamp res" where
  "or_not_found r = (if r = Fail LdbErrNotFound then Ret ZeroTimestamp else r)"

definition NewMerkle :: "merkle_env \<Rightarrow> bytes \<Rightarrow> bytes \<Rightarrow> bytes \<Rightarrow> LDBDatabase \<Rightarrow> Merkle res" where
  "NewMerkle E dbOplogPrefix dbMerklePrefix prefixID db =
     (let with_postfix = \<lambda>postfix. take 3 dbMerklePrefix @ copy_into (drop 3 dbMerklePrefix) postfix;
          m = \<lparr>mk_DBOplogPrefix = dbOplogPrefix, mk_DBMerklePrefix = dbMerklePrefix,
               mk_metaPrefix = with_postfix DBMerkleMetaPostfix,
               mk_toUpdatePrefixWithID = with_postfix DBMerkleToUpdatePostfix @ prefixID,
               mk_updatingPrefixWithID = with_postfix DBMerkleUpdatingPostfix @ prefixID,
               mk_PrefixID = prefixID, mk_LastGenerateTS = ZeroTimestamp,
               mk_BusyGenerateTS = ZeroTimestamp, mk_LastSyncTS = ZeroTimestamp,
               mk_LastFailSyncTS = ZeroTimestamp,
               mk_ExpireGenerateSeconds = ExpireGenerateOplogMerkleTreeSeconds,
               mk_isBusyForceSync = False, mk_toUpdateTS = []\<rparr>
      in if length dbMerklePrefix < 3 then Panic
         else res_bind (or_not_found (GetGenerateTime E m db)) (\<lambda>lastGenerateTS.
              res_bind (or_not_found (GetSyncTime E m db)) (\<lambda>lastSyncTS.
              res_bind (or_not_found (GetFailSyncTime E m db)) (\<lambda>lastFailSyncTS.
                Ret (m\<lparr>mk_LastGenerateTS := lastGenerateTS, mk_LastSyncTS := lastSyncTS,
                       mk_LastFailSyncTS := lastFailSyncTS\<rparr>)))))"

text \<open>The \<^verbatim>\<open>Save\<close> functions return the updated struct; on an error it is unchanged.\<close>

definition SaveGenerateTime :: "merkle_env \<Rightarrow> Timestamp \<Rightarrow> Merkle \<Rightarrow> LDBDatabase \<Rightarrow> Merkle res \<times> LDBDatabase" where
  "SaveGenerateTime E ts m db =
     res_then (MarshalGenerateTimeKey m) (\<lambda>key db.
       case env_ts_enc E ts of
         Inl e \<Rightarrow> (Fail e, db)
       | Inr marshaled \<Rightarrow>
           (case TryPut (env_dbable E) key marshaled ts db of
              ((_, err), db') \<Rightarrow>
                (case err of
                   Some e \<Rightarrow> if e \<noteq> DbError D_ErrInvalidUpdateTS then (Fail e, db')
                             else (Ret (m\<lparr>mk_LastGenerateTS := ts\<rparr>), db')
                 | None \<Rightarrow> (Ret (m\<lparr>mk_LastGenerateTS := ts\<rparr>), db')))) db"

definition ToGenerateTime :: "Merkle \<Rightarrow> Timestamp" where
  "ToGenerateTime m =
     (let ts = mk_LastGenerateTS m
      in if Ts ts < OffsetMerkleSyncTime * 3 then ZeroTimestamp
         else ts\<lparr>Ts := i64 (Ts ts - OffsetMerkleSyncTime * 2)\<rparr>)"

definition SaveSyncTime :: "merkle_env \<Rightarrow> Timestamp \<Rightarrow> Merkle \<Rightarrow> LDBDatabase \<Rightarrow> Merkle res \<times> LDBDatabase" where
  "SaveSyncTime E ts m db =
     (if IsLess ts (mk_LastSyncTS m) then
        (if i64 (Ts (mk_LastSyncTS m) - Ts ts) < OffsetMerkleSyncTime then (Ret m, db)
         else (Fail (DbError D_ErrInvalidUpdateTS), db))
      else
        res_then (MarshalSyncTimeKey m) (\<lambda>key db.
          case env_ts_enc E ts of
            Inl e \<Rightarrow> (Fail e, db)
          | Inr marshaled \<Rightarrow>
              (case TryPut (env_dbable E) key marshaled ts db of
                 ((_, Some e), db') \<Rightarrow> (Fail e, db')
               | ((_, None), db') \<Rightarrow> (Ret (m\<lparr>mk_LastSyncTS := ts\<rparr>), db'))) db)"

definition ForceSaveSyncTime :: "merkle_env \<Rightarrow> Timestamp \<Rightarrow> Merkle \<Rightarrow> LDBDatabase \<Rightarrow> Merkle res \<times> LDBDatabase" where
  "ForceSaveSyncTime E ts m db =
     res_then (MarshalSyncTimeKey m) (\<lambda>key db.
       case env_ts_enc E ts of
         Inl e \<Rightarrow> (Fail e, db)
       | Inr marshaled \<Rightarrow>
           (case Ldb_Put key marshaled db of
              (Some e, db') \<Rightarrow> (Fail e, db')
            | (None, db') \<Rightarrow> (Ret (m\<lparr>mk_LastSyncTS := ts\<rparr>), db'))) db"

definition ToSyncTime :: "merkle_env \<Rightarrow> Merkle \<Rightarrow> LDBDatabase \<Rightarrow> Timestamp res" where
  "ToSyncTime E m db =
     res_bind (GetSyncTime E m db) (\<lambda>ts.
       if Ts ts < OffsetMerkleSyncTime * 3 then Ret ZeroTimestamp
       else Ret (ts\<lparr>Ts := i64 (Ts ts - OffsetMerkleSyncTime)\<rparr>))"

definition SaveFailSyncTime :: "merkle_env \<Rightarrow> Timestamp \<Rightarrow> Merkle \<Rightarrow> LDBDatabase \<Rightarrow> Merkle res \<times> LDBDatabase" where
  "SaveFailSyncTime E ts m db =
     res_then (MarshalFailSyncTimeKey m) (\<lambda>key db.
       case env_ts_enc E ts of
         Inl e \<Rightarrow> (Fail e, db)
       | Inr marshaled \<Rightarrow>
           (case TryPut (env_dbable E) key marshaled ts db of
              ((_, Some e), db') \<Rightarrow> (Fail e, db')
            | ((_, None), db') \<Rightarrow> (Ret (m\<lparr>mk_LastFailSyncTS := ts\<rparr>), db'))) db"

text \<open>Iteration over a level, and the tree itself.\<close>

definition GetMerkleIter ::
  "Merkle \<Rightarrow> MerkleTreeLevel \<Rightarrow> Timestamp \<Rightarrow> Timestamp \<Rightarrow> ListOrder \<Rightarrow> LDBDatabase \<Rightarrow> Iterator res" where
  "GetMerkleIter m level ts nextTS listOrder db =
     res_bind (MarshalKey m level ts) (\<lambda>startKey.
       res_bind (MarshalKey m level nextTS) (\<lambda>endKey.
         NewIteratorWithRange (Some \<lparr>Range_Start = Some startKey, Range_Limit = Some endKey\<rparr>) listOrder db))"

definition GetMerkleIterByKey ::
  "Merkle \<Rightarrow> bytes \<Rightarrow> MerkleTreeLevel \<Rightarrow> ListOrder \<Rightarrow> LDBDatabase \<Rightarrow> Iterator res" where
  "GetMerkleIterByKey m startKey level listOrder db =
     NewIteratorWithPrefix startKey (DBPrefix m @ [level]) listOrder db"

text \<open>The loop over the children: their addresses in a row, the last one's time, and their number.\<close>

fun scan_children :: "kv_list \<Rightarrow> bytes \<Rightarrow> bytes \<Rightarrow> bytes \<Rightarrow> u32 \<Rightarrow> (bytes \<times> bytes \<times> u32) res" where
  "scan_children [] addrBytes eachAddr tsBytes nChildren = Ret (addrBytes, tsBytes, nChildren)"
| "scan_children ((key, val) # kvs) addrBytes eachAddr tsBytes nChildren =
     (if length val < 21 then Panic
      else
        (let eachAddr = copy_into eachAddr (drop 1 val);
             tsBytes = copy_into tsBytes (drop 21 val)
         in scan_children kvs (addrBytes @ eachAddr) eachAddr tsBytes (nChildren + 1)))"

definition SaveMerkleTreeCore ::
  "merkle_env \<Rightarrow> Merkle \<Rightarrow> MerkleTreeLevel \<Rightarrow> Timestamp \<Rightarrow> Timestamp \<Rightarrow> Timestamp \<Rightarrow>
   LDBDatabase \<Rightarrow> Timestamp res \<times> LDBDatabase" where
  "SaveMerkleTreeCore E m level offsetTS nextTS updateTS db =
     res_then (GetMerkleIter m (level - 1) offsetTS nextTS ListOrderNext db) (\<lambda>iter.
       res_then (scan_children (visited ListOrderNext iter) [] (replicate 20 0) (replicate 12 0) 0)
         (\<lambda>(addrBytes, tsBytes, nChildren).
           let theAddr = types_Addr (env_keccak E) addrBytes
           in res_then (MarshalKey m level offsetTS) (\<lambda>theKey.
             if nChildren = 0 then (\<lambda>db. (Ret ZeroTimestamp, snd (Ldb_Delete theKey db)))
             else
               res_then (Node_Marshal \<lparr>node_Level = level, node_Addr = theAddr, node_UpdateTS = offsetTS,
                           node_NChildren = nChildren, node_Key = []\<rparr>) (\<lambda>theVal db.
                 case Ldb_Put theKey theVal db of
                   (Some e, db') \<Rightarrow> (Fail e, db')
                 | (None, db') \<Rightarrow> (UnmarshalTimestamp tsBytes, db'))))) db"

definition SaveMerkleTree_levels ::
  "merkle_env \<Rightarrow> Timestamp \<Rightarrow> Merkle \<Rightarrow> LDBDatabase \<Rightarrow> Merkle res \<times> LDBDatabase" where
  "SaveMerkleTree_levels E ts m =
     (let (hrTS, nextHrTS) = ToHRTimestamp ts;
          (dayTS, nextDayTS) = ToDayTimestamp ts;
          (monthTS, nextMonthTS) = ToMonthTimestamp (env_offs E) ts;
          (yearTS, nextYearTS) = ToYearTimestamp (env_offs E) ts
      in st_bind (SaveMerkleTreeCore E m MerkleTreeLevelHR hrTS nextHrTS ts) (\<lambda>newestTS.
         st_bind (SaveMerkleTreeCore E m MerkleTreeLevelDay dayTS nextDayTS ts) (\<lambda>_.
         st_bind (SaveMerkleTreeCore E m MerkleTreeLevelMonth monthTS nextMonthTS ts) (\<lambda>_.
         st_bind (SaveMerkleTreeCore E m MerkleTreeLevelYear yearTS nextYearTS ts) (\<lambda>_.
           SaveGenerateTime E newestTS m)))))"

definition SaveMerkleTree :: "merkle_env \<Rightarrow> Timestamp \<Rightarrow> Merkle \<Rightarrow> LDBDatabase \<Rightarrow> Merkle res \<times> LDBDatabase" where
  "SaveMerkleTree E ts m db = with_lock (DBPrefix m) Fail (SaveMerkleTree_levels E ts m) db"

definition GetNodeByKey :: "bytes \<Rightarrow> LDBDatabase \<Rightarrow> MerkleNode res" where
  "GetNodeByKey key db = res_bind (Ldb_Get key db) Node_Unmarshal"

definition GetNodeByLevelTS :: "Merkle \<Rightarrow> MerkleTreeLevel \<Rightarrow> Timestamp \<Rightarrow> LDBDatabase \<Rightarrow> MerkleNode res" where
  "GetNodeByLevelTS m level ts db =
     (if level = MerkleTreeLevelNow then Fail (ServiceError S_ErrInvalidMerkle)
      else res_bind (MarshalKey m level ts) (\<lambda>key. GetNodeByKey key db))"

text \<open>The loop that decodes the visited values and skips those that do not decode.\<close>

fun decode_nodes :: "kv_list \<Rightarrow> MerkleNode list res" where
  "decode_nodes [] = Ret []"
| "decode_nodes ((key, val) # kvs) =
     (case Node_Unmarshal val of
        Panic \<Rightarrow> Panic
      | Fail _ \<Rightarrow> decode_nodes kvs
      | Ret node \<Rightarrow> res_bind (decode_nodes kvs) (\<lambda>nodes. Ret (node # nodes)))"

definition GetMerkleTreeListCore ::
  "Merkle \<Rightarrow> MerkleTreeLevel \<Rightarrow> Timestamp \<Rightarrow> Timestamp \<Rightarrow> LDBDatabase \<Rightarrow> MerkleNode list res" where
  "GetMerkleTreeListCore m level ts nextTS db =
     res_bind (GetMerkleIter m level ts nextTS ListOrderNext db) (\<lambda>iter.
       decode_nodes (visited ListOrderNext iter))"

definition GetMerkleTreeList ::
  "merkle_env \<Rightarrow> Merkle \<Rightarrow> Timestamp \<Rightarrow> bool \<Rightarrow> LDBDatabase \<Rightarrow> (MerkleNode list \<times> MerkleNode list) res" where
  "GetMerkleTreeList E m ts isNow db =
     (let offsetYearTS = fst (ToYearTimestamp (env_offs E) ts);
          offsetMonthTS = fst (ToMonthTimestamp (env_offs E) ts);
          offsetDayTS = fst (ToDayTimestamp ts);
          offsetHourTS = fst (ToHRTimestamp ts)
      in res_bind (GetMerkleTreeListCore m MerkleTreeLevelYear ZeroTimestamp offsetYearTS db) (\<lambda>years.
         res_bind (GetMerkleTreeListCore m MerkleTreeLevelMonth offsetYearTS offsetMonthTS db) (\<lambda>months.
         res_bind (GetMerkleTreeListCore m MerkleTreeLevelDay offsetMonthTS offsetDayTS db) (\<lambda>days.
         res_bind (GetMerkleTreeListCore m MerkleTreeLevelHR offsetDayTS offsetHourTS db) (\<lambda>hrs.
           let merkleTreeList = years @ months @ days @ hrs
           in if \<not> isNow then Ret (merkleTreeList, [])
              else res_bind (GetMerkleTreeListCore m MerkleTreeLevelNow offsetHourTS ts db) (\<lambda>nows.
                Ret (merkleTreeList, nows)))))))"

text \<open>The \<^verbatim>\<open>switch\<close> on the level in \<^verbatim>\<open>GetChildKeys\<close> and \<^verbatim>\<open>GetChildNodes\<close>.\<close>

definition level_range :: "int \<Rightarrow> MerkleTreeLevel \<Rightarrow> Timestamp \<Rightarrow> Timestamp \<times> Timestamp" where
  "level_range offs level ts =
     (if level = MerkleTreeLevelHR then ToHRTimestamp ts
      else if level = MerkleTreeLevelDay then ToDayTimestamp ts
      else if level = MerkleTreeLevelMonth then ToMonthTimestamp offs ts
      else if level = MerkleTreeLevelYear then ToYearTimestamp offs ts
      else (ZeroTimestamp, ZeroTimestamp))"

definition GetChildKeys :: "merkle_env \<Rightarrow> Merkle \<Rightarrow> MerkleTreeLevel \<Rightarrow> Timestamp \<Rightarrow> LDBDatabase \<Rightarrow> bytes list res" where
  "GetChildKeys E m level ts db =
     (case level_range (env_offs E) level ts of (startTS, endTS) \<Rightarrow>
        res_bind (GetMerkleIter m (level - 1) startTS endTS ListOrderNext db) (\<lambda>iter.
          Ret (map fst (visited ListOrderNext iter))))"

definition GetChildNodes :: "merkle_env \<Rightarrow> Merkle \<Rightarrow> MerkleTreeLevel \<Rightarrow> Timestamp \<Rightarrow> LDBDatabase \<Rightarrow> MerkleNode list res" where
  "GetChildNodes E m level ts db =
     (case level_range (env_offs E) level ts of (startTS, endTS) \<Rightarrow>
        res_bind (GetMerkleIter m (level - 1) startTS endTS ListOrderNext db) (\<lambda>iter.
          decode_nodes (visited ListOrderNext iter)))"

fun getKeysFromMerkleKeys :: "bytes list \<Rightarrow> LDBDatabase \<Rightarrow> bytes list res" where
  "getKeysFromMerkleKeys [] db = Ret []"
| "getKeysFromMerkleKeys (key # merkleKeys) db =
     (case GetNodeByKey key db of
        Panic \<Rightarrow> Panic
      | Fail _ \<Rightarrow> getKeysFromMerkleKeys merkleKeys db
      | Ret merkleNode \<Rightarrow>
          if node_Level merkleNode \<noteq> MerkleTreeLevelNow then getKeysFromMerkleKeys merkleKeys db
          else res_bind (getKeysFromMerkleKeys merkleKeys db) (\<lambda>keys. Ret (node_Key merkleNode # keys)))"

text \<open>\<^verbatim>\<open>Clean\<close>: the delete loops ignore errors; an iterator reads a snapshot of the database.\<close>

definition delete_visited :: "kv_list \<Rightarrow> LDBDatabase \<Rightarrow> LDBDatabase" where
  "delete_visited kvs db = fold (\<lambda>kv db. snd (Ldb_Delete (fst kv) db)) kvs db"

fun clean_levels :: "Merkle \<Rightarrow> MerkleTreeLevel list \<Rightarrow> LDBDatabase \<Rightarrow> unit res \<times> LDBDatabase" where
  "clean_levels m [] db = (Ret (), db)"
| "clean_levels m (level # levels) db =
     res_then (GetMerkleIter m level ZeroTimestamp MaxTimestamp ListOrderNext db)
       (\<lambda>iter db. clean_levels m levels (delete_visited (visited ListOrderNext iter) db)) db"

definition delete_key :: "bytes res \<Rightarrow> LDBDatabase \<Rightarrow> LDBDatabase" where
  "delete_key k db = (case k of Ret key \<Rightarrow> snd (Ldb_Delete key db) | _ \<Rightarrow> snd (Ldb_Delete [] db))"

definition Merkle_Clean :: "Merkle \<Rightarrow> LDBDatabase \<Rightarrow> LDBDatabase" where
  "Merkle_Clean m db =
     (case clean_levels m [MerkleTreeLevelNow, MerkleTreeLevelHR, MerkleTreeLevelDay,
                           MerkleTreeLevelMonth, MerkleTreeLevelYear] db of
        (Ret _, db') \<Rightarrow>
          delete_key (MarshalFailSyncTimeKey m)
            (delete_key (MarshalSyncTimeKey m) (delete_key (MarshalGenerateTimeKey m) db'))
      | (_, db') \<Rightarrow> db')"

text \<open>The hours to update, in memory and in the database.\<close>

definition MarshalToUpdateTSKey :: "Merkle \<Rightarrow> Timestamp \<Rightarrow> bytes" where
  "MarshalToUpdateTSKey m ts = mk_toUpdatePrefixWithID m @ PutUint64 (word_of_int (Ts ts))"

definition MarshalUpdatingKey :: "Merkle \<Rightarrow> bytes" where
  "MarshalUpdatingKey m = mk_updatingPrefixWithID m"

definition ResetUpdateTS :: "Merkle \<Rightarrow> Merkle" where
  "ResetUpdateTS m = m\<lparr>mk_toUpdateTS := []\<rparr>"

definition SetUpdateTS :: "Timestamp \<Rightarrow> Merkle \<times> LDBDatabase \<Rightarrow> Merkle \<times> LDBDatabase" where
  "SetUpdateTS ts s =
     (case s of (m, db) \<Rightarrow>
        let hrTS = fst (ToHRTimestamp ts)
        in (m\<lparr>mk_toUpdateTS := List.insert (Ts hrTS) (mk_toUpdateTS m)\<rparr>,
            snd (Ldb_Put (MarshalToUpdateTSKey m hrTS) [1] db)))"

definition SetUpdateTS2 :: "Timestamp \<Rightarrow> Timestamp \<Rightarrow> Merkle \<times> LDBDatabase \<Rightarrow> Merkle \<times> LDBDatabase" where
  "SetUpdateTS2 ts ts2 s =
     (case s of (m, db) \<Rightarrow>
        let hrTS = fst (ToHRTimestamp ts);
            hrTS2 = fst (ToHRTimestamp ts2);
            m' = m\<lparr>mk_toUpdateTS := List.insert (Ts hrTS2) (List.insert (Ts hrTS) (mk_toUpdateTS m))\<rparr>;
            db' = snd (Ldb_Put (MarshalToUpdateTSKey m hrTS) [1] db)
        in if IsEqual hrTS hrTS2 then (m', db')
           else (m', snd (Ldb_Put (MarshalToUpdateTSKey m hrTS2) [1] db')))"

definition resetToUpdateTSDB :: "Merkle \<Rightarrow> LDBDatabase \<Rightarrow> LDBDatabase" where
  "resetToUpdateTSDB m db =
     (case NewIteratorWithPrefix [] (mk_toUpdatePrefixWithID m) ListOrderNext db of
        Ret iter \<Rightarrow> delete_visited (visited ListOrderNext iter) db
      | _ \<Rightarrow> db)"

definition getAndResetToUpdateTSs :: "Merkle \<times> LDBDatabase \<Rightarrow> int list \<times> Merkle \<times> LDBDatabase" where
  "getAndResetToUpdateTSs s =
     (case s of (m, db) \<Rightarrow> (mk_toUpdateTS m, m\<lparr>mk_toUpdateTS := []\<rparr>, resetToUpdateTSDB m db))"

definition GetAndResetToUpdateTSList ::
  "merkle_env \<Rightarrow> Merkle \<times> LDBDatabase \<Rightarrow> int list res \<times> Merkle \<times> LDBDatabase" where
  "GetAndResetToUpdateTSList E s =
     (case getAndResetToUpdateTSs s of (toUpdateTSs, m, db) \<Rightarrow>
        let toUpdateTSList = env_order E toUpdateTSs
        in case env_list_enc E toUpdateTSList of
             Inl e \<Rightarrow> (Fail e, m, db)
           | Inr theBytes \<Rightarrow>
               (Ret toUpdateTSList, m, snd (Ldb_Put (MarshalUpdatingKey m) theBytes db)))"

definition tsFromToUpdateTSKey :: "bytes \<Rightarrow> int res" where
  "tsFromToUpdateTSKey key =
     (if length key < 45 then Panic else res_bind (Uint64 (drop 45 key)) (\<lambda>ts. Ret (sint ts)))"

fun load_ts_keys :: "kv_list \<Rightarrow> Merkle \<Rightarrow> Merkle res" where
  "load_ts_keys [] m = Ret m"
| "load_ts_keys ((key, val) # kvs) m =
     res_bind (tsFromToUpdateTSKey key) (\<lambda>ts.
       load_ts_keys kvs (m\<lparr>mk_toUpdateTS := List.insert ts (mk_toUpdateTS m)\<rparr>))"

definition LoadToUpdateTSs :: "Merkle \<Rightarrow> LDBDatabase \<Rightarrow> Merkle res" where
  "LoadToUpdateTSs m db =
     res_bind (NewIteratorWithPrefix [] (mk_toUpdatePrefixWithID m) ListOrderNext db) (\<lambda>iter.
       load_ts_keys (visited ListOrderNext iter) m)"

definition LoadUpdatingTSList :: "merkle_env \<Rightarrow> Merkle \<Rightarrow> LDBDatabase \<Rightarrow> int list res" where
  "LoadUpdatingTSList E m db =
     res_bind (Ldb_Get (MarshalUpdatingKey m) db) (\<lambda>val.
       case env_list_dec E val of None \<Rightarrow> Fail JsonError | Some xs \<Rightarrow> Ret xs)"

definition ResetUpdatingTSList :: "Merkle \<Rightarrow> LDBDatabase \<Rightarrow> LDBDatabase" where
  "ResetUpdatingTSList m db = snd (Ldb_Delete (MarshalUpdatingKey m) db)"

definition trySetBusyForceSync :: "Merkle \<Rightarrow> Merkle res" where
  "trySetBusyForceSync m =
     (if mk_isBusyForceSync m then Fail (ServiceError S_ErrBusy) else Ret (m\<lparr>mk_isBusyForceSync := True\<rparr>))"

definition resetBusyForceSync :: "Merkle \<Rightarrow> Merkle" where
  "resetBusyForceSync m = m\<lparr>mk_isBusyForceSync := False\<rparr>"

text \<open>The loop of the protocol manager.\<close>

definition pmGenerateOplogMerkleTreeIsBusy :: "Timestamp \<Rightarrow> Merkle \<Rightarrow> bool \<times> Merkle" where
  "pmGenerateOplogMerkleTreeIsBusy now m =
     (if IsEqual (mk_BusyGenerateTS m) ZeroTimestamp then (False, m)
      else
        (let expireTimestamp = now\<lparr>Ts := i64 (Ts now - mk_ExpireGenerateSeconds m)\<rparr>
         in if IsLess (mk_BusyGenerateTS m) expireTimestamp
            then (False, m\<lparr>mk_BusyGenerateTS := ZeroTimestamp\<rparr>)
            else (True, m)))"

fun save_all :: "merkle_env \<Rightarrow> int list \<Rightarrow> Merkle \<Rightarrow> LDBDatabase \<Rightarrow> unit res \<times> Merkle \<times> LDBDatabase" where
  "save_all E [] m db = (Ret (), m, db)"
| "save_all E (sec # secs) m db =
     (case SaveMerkleTree E (mkTs sec 0) m db of
        (Ret m', db') \<Rightarrow> save_all E secs m' db'
      | (Fail e, db') \<Rightarrow> (Fail e, m, db')
      | (Panic, db') \<Rightarrow> (Panic, m, db'))"

definition pmGenerateOplogMerkleTree ::
  "merkle_env \<Rightarrow> Status \<Rightarrow> Timestamp res \<Rightarrow> Merkle \<times> LDBDatabase \<Rightarrow> unit res \<times> Merkle \<times> LDBDatabase" where
  "pmGenerateOplogMerkleTree E status clock s =
     (if status \<noteq> StatusAlive then (Ret (), s)
      else
        res_then clock (\<lambda>now (m, db).
          case pmGenerateOplogMerkleTreeIsBusy now m of
            (True, m1) \<Rightarrow> (Fail (ServiceError S_ErrBusy), m1, db)
          | (False, m1) \<Rightarrow>
              (case GetAndResetToUpdateTSList E (m1\<lparr>mk_BusyGenerateTS := now\<rparr>, db) of
                 (Ret toUpdateTSList, m2, db2) \<Rightarrow>
                   (case save_all E toUpdateTSList m2 db2 of
                      (Ret _, m3, db3) \<Rightarrow>
                        (Ret (), m3\<lparr>mk_BusyGenerateTS := ZeroTimestamp\<rparr>, ResetUpdatingTSList m3 db3)
                    | (Fail _, m3, db3) \<Rightarrow> (Ret (), m3\<lparr>mk_BusyGenerateTS := ZeroTimestamp\<rparr>, db3)
                    | (Panic, m3, db3) \<Rightarrow> (Panic, m3\<lparr>mk_BusyGenerateTS := ZeroTimestamp\<rparr>, db3))
               | (Fail e, m2, db2) \<Rightarrow> (Fail e, m2\<lparr>mk_BusyGenerateTS := ZeroTimestamp\<rparr>, db2)
               | (Panic, m2, db2) \<Rightarrow> (Panic, m2\<lparr>mk_BusyGenerateTS := ZeroTimestamp\<rparr>, db2))) s)"

definition merkle_loop_init ::
  "merkle_env \<Rightarrow> Merkle \<times> LDBDatabase \<Rightarrow> unit res \<times> Merkle \<times> LDBDatabase" where
  "merkle_loop_init E s =
     (case s of (m, db) \<Rightarrow>
        (case LoadToUpdateTSs m db of
           Panic \<Rightarrow> (Panic, s)
         | r \<Rightarrow>
             (let m1 = (case r of Ret m' \<Rightarrow> m' | _ \<Rightarrow> m)
              in case LoadUpdatingTSList E m1 db of
                   Ret tsList \<Rightarrow> (Ret (), fold (\<lambda>sec. SetUpdateTS (mkTs sec 0)) tsList (m1, db))
                 | _ \<Rightarrow> (Ret (), m1, db))))"

datatype merkle_event = MerkleTick Status "Timestamp res" | MerkleForceSync Status "Timestamp res" | MerkleQuit

fun merkle_loop_run :: "merkle_env \<Rightarrow> merkle_event list \<Rightarrow> Merkle \<times> LDBDatabase \<Rightarrow> unit res \<times> Merkle \<times> LDBDatabase" where
  "merkle_loop_run E [] s = (Ret (), s)"
| "merkle_loop_run E (MerkleQuit # es) s = (Ret (), s)"
| "merkle_loop_run E (MerkleTick status clock # es) s =
     (case pmGenerateOplogMerkleTree E status clock s of
        (Panic, s') \<Rightarrow> (Panic, s') | (_, s') \<Rightarrow> merkle_loop_run E es s')"
| "merkle_loop_run E (MerkleForceSync status clock # es) s =
     (case pmGenerateOplogMerkleTree E status clock s of
        (Panic, s') \<Rightarrow> (Panic, s') | (_, s') \<Rightarrow> merkle_loop_run E es s')"

definition PMOplogMerkleTreeLoop ::
  "merkle_env \<Rightarrow> Status \<Rightarrow> Timestamp res \<Rightarrow> merkle_event list \<Rightarrow> Merkle \<times> LDBDatabase \<Rightarrow>
   unit res \<times> Merkle \<times> LDBDatabase" where
  "PMOplogMerkleTreeLoop E status clock events s =
     (case merkle_loop_init E s of
        (Panic, s1) \<Rightarrow> (Panic, s1)
      | (_, s1) \<Rightarrow>
          (case pmGenerateOplogMerkleTree E status clock s1 of
             (Panic, s2) \<Rightarrow> (Panic, s2) | (_, s2) \<Rightarrow> merkle_loop_run E events s2))"

subsection \<open>Keys and ranges\<close>

abbreviation mkey :: "Merkle \<Rightarrow> MerkleTreeLevel \<Rightarrow> Timestamp \<Rightarrow> bytes" where
  "mkey m l t \<equiv> DBPrefix m @ l # Timestamp_Marshal t"

definition kids :: "Merkle \<Rightarrow> MerkleTreeLevel \<Rightarrow> Timestamp \<times> Timestamp \<Rightarrow> LDBDatabase \<Rightarrow> kv_list" where
  "kids m l r db = filter (\<lambda>kv. mkey m l (fst r) \<le> fst kv \<and> fst kv < mkey m l (snd r)) (ldb_kvs db)"

lemma MarshalKey_eq [simp]: "MarshalKey m l t = Ret (mkey m l t)"
  by (simp add: MarshalKey_def Concat_eq DBPrefix_def)

lemma Merkle_iter_kids:
  "\<exists>it. GetMerkleIter m l s n ListOrderNext db = Ret it \<and> visited ListOrderNext it = kids m l (s, n) db"
  by (simp add: GetMerkleIter_def NewIteratorWithRange_def open_iter_def visited_def kids_def in_range_def)

lemma between_prefix: "p @ x \<le> k \<Longrightarrow> k < p @ y \<Longrightarrow> \<exists>r. k = p @ (r :: 'a :: linorder list)"
proof (induction p arbitrary: k)
  case (Cons a p)
  then obtain b k' where k: "k = b # k'" by (cases k) auto
  with Cons.prems have "b = a" by auto
  with Cons k show ?case by auto
qed simp

lemma kids_prefix: "kv \<in> set (kids m l r db) \<Longrightarrow> HasPrefix (fst kv) (DBPrefix m @ [l])"
  using between_prefix [of "DBPrefix m @ [l]" _ "fst kv"] by (auto simp: kids_def HasPrefix_iff)

definition ts_key :: "Timestamp \<Rightarrow> bool" where
  "ts_key t \<longleftrightarrow> 0 \<le> Ts t \<and> in_i64 (Ts t) \<and> NanoTs t < 1000000000"

lemma ts_dom_key: "ts_dom t \<Longrightarrow> ts_key t"
  by (simp add: ts_dom_def ts_key_def in_i64_def)

lemma ts_key_ok: "ts_key t \<Longrightarrow> ts_ok t"
  by (simp add: ts_key_def ts_ok_def)

lemma marshal_order [simp]:
  "ts_key t \<Longrightarrow> ts_key u \<Longrightarrow> Timestamp_Marshal t \<le> Timestamp_Marshal u \<longleftrightarrow> t \<le> u"
  "ts_key t \<Longrightarrow> ts_key u \<Longrightarrow> Timestamp_Marshal t < Timestamp_Marshal u \<longleftrightarrow> t < u"
  "ts_key t \<Longrightarrow> ts_key u \<Longrightarrow> Timestamp_Marshal t = Timestamp_Marshal u \<longleftrightarrow> t = u"
  by (auto simp: ts_key_def Timestamp_Marshal_less_iff Timestamp_Marshal_le_iff Timestamp_Marshal_inj ts_ok_def)

lemma mkey_in_range:
  "ts_key t \<Longrightarrow> ts_key (fst r) \<Longrightarrow> ts_key (snd r) \<Longrightarrow>
   mkey m l (fst r) \<le> mkey m l' t \<and> mkey m l' t < mkey m l (snd r) \<longleftrightarrow> l = l' \<and> fst r \<le> t \<and> t < snd r"
  by auto

lemma filter_kv_put: "\<not> P k \<Longrightarrow> filter (\<lambda>kv. P (fst kv)) (kv_put k v s) = filter (\<lambda>kv. P (fst kv)) s"
  by (induction k v s rule: kv_put.induct) auto

lemma filter_kv_del: "\<not> P k \<Longrightarrow> filter (\<lambda>kv. P (fst kv)) (kv_del k s) = filter (\<lambda>kv. P (fst kv)) s"
  by (induction s) (auto simp: kv_del_def)

subsection \<open>One level of the tree\<close>

definition tree_levels :: "MerkleTreeLevel set" where
  "tree_levels = {MerkleTreeLevelHR, MerkleTreeLevelDay, MerkleTreeLevelMonth, MerkleTreeLevelYear}"

abbreviation bucket :: "MerkleTreeLevel \<Rightarrow> Timestamp \<Rightarrow> Timestamp \<times> Timestamp" where
  "bucket \<equiv> level_range 0"

lemma bucket_next_dom: "ts_dom t \<Longrightarrow> t < u \<Longrightarrow> 0 \<le> Ts u"
  by (auto simp: ts_dom_def less_Timestamp_ext_def)

lemma level_range_simps [simp]:
  "level_range offs MerkleTreeLevelHR = ToHRTimestamp"
  "level_range offs MerkleTreeLevelDay = ToDayTimestamp"
  "level_range offs MerkleTreeLevelMonth = ToMonthTimestamp offs"
  "level_range offs MerkleTreeLevelYear = ToYearTimestamp offs"
  by (simp_all add: level_range_def level_defs fun_eq_iff)

lemma bucket_next_form:
  assumes "l \<in> tree_levels"
  shows "in_i64 (Ts (snd (level_range offs l t))) \<and> NanoTs (snd (level_range offs l t)) < 1000000000"
  using assms
  by (auto simp: tree_levels_def ToHRTimestamp_def ToDayTimestamp_def ToMonthTimestamp_def
      ToYearTimestamp_def TimeToTimestamp_def Let_def)

lemma tree_level_bucket: "l \<in> tree_levels \<Longrightarrow> time_bucket (bucket l)"
  using hr_bucket.time_bucket_axioms day_bucket.time_bucket_axioms
    month_bucket.time_bucket_axioms year_bucket.time_bucket_axioms
  by (auto simp: tree_levels_def)

lemmas level_start = time_bucket.bucket_start [OF tree_level_bucket]
lemmas level_next = time_bucket.bucket_next [OF tree_level_bucket]
lemmas level_dom = time_bucket.bucket_dom [OF tree_level_bucket]
lemmas level_eq = time_bucket.bucket_eq [OF tree_level_bucket]
lemmas level_of_start = time_bucket.bucket_of_start [OF tree_level_bucket]

lemma level_keys:
  assumes "l \<in> tree_levels" "ts_dom t"
  shows "ts_key (fst (bucket l t))" "ts_key (snd (bucket l t))"
  using level_dom [OF assms] level_next [OF assms] bucket_next_form [OF assms(1), of 0 t]
    bucket_next_dom [OF assms(2)]
  by (auto simp: ts_key_def ts_dom_def in_i64_def)

text \<open>Every value under the tree's prefix is a node.\<close>

definition nodes_ok :: "Merkle \<Rightarrow> LDBDatabase \<Rightarrow> bool" where
  "nodes_ok m db \<longleftrightarrow>
     (\<forall>kv \<in> set (ldb_kvs db). HasPrefix (fst kv) (DBPrefix m) \<longrightarrow> (\<exists>n. Node_Unmarshal (snd kv) = Ret n))"

definition kid_addrs :: "kv_list \<Rightarrow> bytes" where
  "kid_addrs kvs = concat (map (\<lambda>kv. take 20 (drop 1 (snd kv))) kvs)"

definition node_of_kids :: "merkle_env \<Rightarrow> MerkleTreeLevel \<Rightarrow> Timestamp \<Rightarrow> kv_list \<Rightarrow> MerkleNode" where
  "node_of_kids E l s kvs =
     \<lparr>node_Level = l, node_Addr = types_Addr (env_keccak E) (kid_addrs kvs), node_UpdateTS = s,
      node_NChildren = word_of_nat (length kvs), node_Key = []\<rparr>"

lemma scan_children_eq:
  assumes "\<forall>kv \<in> set kvs. 33 \<le> length (snd kv)" "length a = 20" "length t = 12"
  shows "scan_children kvs acc a t n =
    Ret (acc @ kid_addrs kvs, if kvs = [] then t else slice 21 33 (snd (last kvs)), n + word_of_nat (length kvs))"
  using assms
proof (induction kvs arbitrary: acc a t n)
  case (Cons kv kvs)
  obtain k v where kv: "kv = (k, v)" by force
  have v: "33 \<le> length v" using Cons.prems(1) by (simp add: kv)
  have "copy_into a (drop 1 v) = take 20 (drop 1 v)" "copy_into t (drop 21 v) = slice 21 33 v"
    using Cons.prems v by (auto simp: copy_into_def slice_def)
  with Cons v show ?case by (simp add: kv kid_addrs_def Let_def)
qed (simp add: kid_addrs_def)

lemma kids_decode:
  assumes "nodes_ok m db" "kv \<in> set (kids m l r db)"
  shows "\<exists>n. Node_Unmarshal (snd kv) = Ret n"
proof -
  have "HasPrefix (fst kv) (DBPrefix m)"
    using HasPrefix_trans [OF kids_prefix [OF assms(2)]] by (simp add: HasPrefix_iff)
  moreover have "kv \<in> set (ldb_kvs db)" using assms(2) by (simp add: kids_def)
  ultimately show ?thesis using assms(1) by (auto simp: nodes_ok_def)
qed

lemma decoded_time:
  assumes "Node_Unmarshal v = Ret n"
  shows "UnmarshalTimestamp (slice 21 33 v) = Ret (node_UpdateTS n)" "37 \<le> length v"
  using assms Node_Unmarshal_long [OF assms]
  by (auto simp: Node_Unmarshal_def res_bind_eq_Ret split: if_splits)

lemma SaveMerkleTreeCore_eq:
  assumes "no_fault db" "nodes_ok m db" and K: "K = kids m (l - 1) (s, n) db"
  shows "\<exists>ts. SaveMerkleTreeCore E m l s n u db =
    (Ret ts, db\<lparr>ldb_kvs :=
       if (word_of_nat (length K) :: u32) = 0 then kv_del (mkey m l s) (ldb_kvs db)
       else kv_put (mkey m l s)
         (l # types_Addr (env_keccak E) (kid_addrs K) @ Timestamp_Marshal s @ PutUint32 (word_of_nat (length K)))
         (ldb_kvs db)\<rparr>)"
proof -
  obtain it where it: "GetMerkleIter m (l - 1) s n ListOrderNext db = Ret it" "visited ListOrderNext it = K"
    using Merkle_iter_kids [of m "l - 1" s n db] K by blast
  have dec: "\<exists>nd. Node_Unmarshal (snd kv) = Ret nd" if "kv \<in> set K" for kv
    using kids_decode [OF assms(2)] that K by blast
  then have "\<forall>kv \<in> set K. 33 \<le> length (snd kv)" using decoded_time(2) by fastforce
  then have scan: "scan_children K [] (replicate 20 0) (replicate 12 0) 0 =
    Ret (kid_addrs K, if K = [] then replicate 12 0 else slice 21 33 (snd (last K)), word_of_nat (length K))"
    by (simp add: scan_children_eq)
  show ?thesis
  proof (cases "(word_of_nat (length K) :: u32) = 0")
    case True
    with assms(1) show ?thesis
      by (simp add: SaveMerkleTreeCore_def it scan Let_def Ldb_Delete_def no_fault_def)
  next
    case False
    then have "K \<noteq> []" by auto
    then obtain nd :: MerkleNode where "UnmarshalTimestamp (slice 21 33 (snd (last K))) = Ret (node_UpdateTS nd)"
      using dec [OF last_in_set [OF \<open>K \<noteq> []\<close>]] decoded_time(1) by blast
    with False \<open>K \<noteq> []\<close> assms(1) show ?thesis
      by (simp add: SaveMerkleTreeCore_def it scan Let_def Ldb_Put_def no_fault_def Node_Marshal_eq)
  qed
qed

text \<open>
  A node agrees with its children: there is none when they are none, and otherwise it holds the hash
  of their addresses, the start of the period and their number (counted in 32 bits).
\<close>

definition node_ok :: "merkle_env \<Rightarrow> Merkle \<Rightarrow> LDBDatabase \<Rightarrow> MerkleTreeLevel \<Rightarrow> Timestamp \<Rightarrow> bool" where
  "node_ok E m db l u \<longleftrightarrow>
     (let r = bucket l u; K = kids m (l - 1) r db
      in length K < 2 ^ 32 \<longrightarrow>
         (if K = [] then ldb_view db (mkey m l (fst r)) = None
          else \<exists>b. ldb_view db (mkey m l (fst r)) = Some b \<and> Node_Marshal (node_of_kids E l (fst r) K) = Ret b))"

lemma node_ok_bucket: "bucket l u = bucket l v \<Longrightarrow> node_ok E m db l u = node_ok E m db l v"
  by (simp add: node_ok_def)

lemma node_ok_frame:
  assumes "ldb_view db' (mkey m l (fst (bucket l u))) = ldb_view db (mkey m l (fst (bucket l u)))"
    and "kids m (l - 1) (bucket l u) db' = kids m (l - 1) (bucket l u) db"
  shows "node_ok E m db l u \<Longrightarrow> node_ok E m db' l u"
  unfolding node_ok_def Let_def assms .

lemma length_types_Addr: "\<forall>b. length (env_keccak E b) = 32 \<Longrightarrow> length (types_Addr (env_keccak E) b) = 20"
  by (simp add: types_Addr_def)

lemma set_kv_put: "set (kv_put k v s) \<subseteq> insert (k, v) (set s)"
  by (induction k v s rule: kv_put.induct) auto

text \<open>What a write to the key of a node changes.\<close>

definition wrote :: "bytes \<Rightarrow> LDBDatabase \<Rightarrow> LDBDatabase \<Rightarrow> bool" where
  "wrote k db db' \<longleftrightarrow> (\<exists>kvs. db' = db\<lparr>ldb_kvs := kvs\<rparr> \<and>
     (kvs = kv_del k (ldb_kvs db) \<or> (\<exists>v. kvs = kv_put k v (ldb_kvs db))))"

lemma wrote_view: "wrote k db db' \<Longrightarrow> k' \<noteq> k \<Longrightarrow> ldb_view db' k' = ldb_view db k'"
  by (auto simp: wrote_def ldb_view_def)

lemma wrote_kids:
  assumes "wrote k db db'" "\<not> (mkey m l (fst r) \<le> k \<and> k < mkey m l (snd r))"
  shows "kids m l r db' = kids m l r db"
  using assms filter_kv_put [of "\<lambda>k. mkey m l (fst r) \<le> k \<and> k < mkey m l (snd r)"]
    filter_kv_del [of "\<lambda>k. mkey m l (fst r) \<le> k \<and> k < mkey m l (snd r)"]
  by (auto simp: wrote_def kids_def)

lemma wrote_frame: "wrote k db db' \<Longrightarrow> ldb_locks db' = ldb_locks db \<and> ldb_fault db' = ldb_fault db"
  by (auto simp: wrote_def)

lemma length_kv_put: "length (kv_put k v s) \<le> Suc (length s)"
  by (induction k v s rule: kv_put.induct) auto

lemma wrote_length: "wrote k db db' \<Longrightarrow> length (ldb_kvs db') \<le> Suc (length (ldb_kvs db))"
  using length_filter_le [of "\<lambda>kv. fst kv \<noteq> k" "ldb_kvs db"]
  by (auto simp: wrote_def kv_del_def intro: length_kv_put le_SucI)

lemma save_level:
  assumes "no_fault db" "nodes_ok m db" "l \<in> tree_levels" "ts_dom ts"
    and "\<forall>b. length (env_keccak E b) = 32"
  shows "\<exists>t db'. SaveMerkleTreeCore E m l (fst (bucket l ts)) (snd (bucket l ts)) ts db = (Ret t, db') \<and>
    wrote (mkey m l (fst (bucket l ts))) db db' \<and> nodes_ok m db' \<and> node_ok E m db' l ts"
proof -
  let ?r = "bucket l ts" and ?k = "mkey m l (fst (bucket l ts))"
  define K where "K = kids m (l - 1) ?r db"
  define nd where "nd = node_of_kids E l (fst ?r) K"
  define b where "b = l # types_Addr (env_keccak E) (kid_addrs K) @ Timestamp_Marshal (fst ?r) @
    PutUint32 (word_of_nat (length K))"
  define db' where "db' = db\<lparr>ldb_kvs := if (word_of_nat (length K) :: u32) = 0
    then kv_del ?k (ldb_kvs db) else kv_put ?k b (ldb_kvs db)\<rparr>"
  obtain t where run: "SaveMerkleTreeCore E m l (fst ?r) (snd ?r) ts db = (Ret t, db')"
    using SaveMerkleTreeCore_eq [OF assms(1,2), of K l "fst ?r" "snd ?r" E ts]
    by (auto simp: K_def b_def db'_def)
  have nd: "Node_Marshal nd = Ret b" "Node_Unmarshal b = Ret nd"
  proof -
    show "Node_Marshal nd = Ret b" by (simp add: Node_Marshal_eq nd_def b_def node_of_kids_def)
    moreover have "node_wf nd"
      using length_types_Addr [OF assms(5)] ts_key_ok [OF level_keys(1) [OF assms(3,4)]]
      by (simp add: node_wf_def nd_def node_of_kids_def)
    ultimately show "Node_Unmarshal b = Ret nd"
      using Node_Unmarshal_Marshal [of nd] by (simp add: Node_Marshal_eq)
  qed
  have w: "wrote ?k db db'" by (auto simp: wrote_def db'_def)
  have "nodes_ok m db'"
    unfolding nodes_ok_def
  proof (intro ballI impI)
    fix kv assume "kv \<in> set (ldb_kvs db')" and pre: "HasPrefix (fst kv) (DBPrefix m)"
    then have "kv \<in> set (ldb_kvs db) \<or> kv = (?k, b)"
      using set_kv_put [of ?k b "ldb_kvs db"] by (auto simp: db'_def kv_del_def split: if_splits)
    then show "\<exists>n. Node_Unmarshal (snd kv) = Ret n"
      using assms(2) pre nd(2) by (auto simp: nodes_ok_def)
  qed
  moreover have "node_ok E m db' l ts"
  proof -
    have "l - 1 \<noteq> l" by simp
    then have "kids m (l - 1) ?r db' = K"
      using wrote_kids [OF w] mkey_in_range [OF level_keys(1) [OF assms(3,4)] level_keys [OF assms(3,4)], of m "l - 1" l]
      unfolding K_def by blast
    moreover have "length K < 2 ^ 32 \<Longrightarrow> (word_of_nat (length K) :: u32) = 0 \<longleftrightarrow> K = []"
      by (auto simp: word_of_nat_eq_0_iff dest: nat_dvd_not_less)
    ultimately show ?thesis
      using nd(1) by (auto simp: node_ok_def Let_def nd_def db'_def ldb_view_def)
  qed
  ultimately show ?thesis using run w by blast
qed

subsection \<open>The path of a time\<close>

text \<open>
  \<open>path_upto\<close>: up to level \<open>l\<close> the nodes on the path of \<open>ts\<close> agree with their children, and off the
  path every node that agreed before still does.
\<close>

definition path_upto ::
  "merkle_env \<Rightarrow> Merkle \<Rightarrow> Timestamp \<Rightarrow> LDBDatabase \<Rightarrow> LDBDatabase \<Rightarrow> MerkleTreeLevel \<Rightarrow> bool" where
  "path_upto E m ts db0 db l \<longleftrightarrow>
     (\<forall>l' \<in> tree_levels. \<forall>v. ts_dom v \<longrightarrow>
        (if bucket l' v = bucket l' ts then l' \<le> l \<longrightarrow> node_ok E m db l' v
         else node_ok E m db0 l' v \<longrightarrow> node_ok E m db l' v))"

lemma coarser_of_start:
  assumes "l \<in> tree_levels" "l' \<in> tree_levels" "l' - 1 = l" "ts_dom t"
  shows "bucket l' (fst (bucket l t)) = bucket l' t"
  using assms hr_day.coarse_of_fine_start [OF assms(4)] day_month.coarse_of_fine_start [OF assms(4)]
    month_year.coarse_of_fine_start [OF assms(4)]
  by (auto simp: tree_levels_def level_defs[symmetric]) (simp_all add: level_defs)

lemma level_pred_neq: "l \<in> tree_levels \<Longrightarrow> l' \<le> l \<Longrightarrow> l' \<in> tree_levels \<Longrightarrow> l' - 1 \<noteq> l"
  by (auto simp: tree_levels_def level_defs)

lemma wrote_keeps:
  assumes "wrote (mkey m l (fst (bucket l ts))) db db'" "l \<in> tree_levels" "l' \<in> tree_levels"
    "ts_dom ts" "ts_dom v" "node_ok E m db l' v"
    and off: "l' < l \<or> bucket l' v \<noteq> bucket l' ts"
  shows "node_ok E m db' l' v"
proof (rule node_ok_frame [OF _ _ assms(6)])
  let ?s = "fst (bucket l ts)"
  note key = level_keys [OF assms(3,5)] level_keys(1) [OF assms(2,4)]
  have "mkey m l' (fst (bucket l' v)) \<noteq> mkey m l ?s"
  proof
    assume "mkey m l' (fst (bucket l' v)) = mkey m l ?s"
    then have eq: "l' = l" "fst (bucket l' v) = ?s" using key by auto
    then have "bucket l' v = bucket l' ts"
      using level_of_start [OF assms(3,5)] level_of_start [OF assms(2,4)] by metis
    with off eq(1) show False by simp
  qed
  then show "ldb_view db' (mkey m l' (fst (bucket l' v))) = ldb_view db (mkey m l' (fst (bucket l' v)))"
    by (rule wrote_view [OF assms(1)])
  have "\<not> (l' - 1 = l \<and> fst (bucket l' v) \<le> ?s \<and> ?s < snd (bucket l' v))"
  proof
    assume in_r: "l' - 1 = l \<and> fst (bucket l' v) \<le> ?s \<and> ?s < snd (bucket l' v)"
    then have "bucket l' ?s = bucket l' v"
      using level_eq [OF assms(3,5) level_dom [OF assms(2,4)]] by blast
    with in_r coarser_of_start [OF assms(2,3) _ assms(4)] have "bucket l' v = bucket l' ts" by simp
    moreover have "\<not> l' < l" using in_r level_pred_neq [OF assms(2) _ assms(3)] less_imp_le by blast
    ultimately show False using off by blast
  qed
  then show "kids m (l' - 1) (bucket l' v) db' = kids m (l' - 1) (bucket l' v) db"
    using wrote_kids [OF assms(1), of m "l' - 1" "bucket l' v"]
      mkey_in_range [OF key(3,1,2), of m "l' - 1" l] by blast
qed

text \<open>A key outside the summary: it is not the key of an hour, day, month or year.\<close>

definition off_tree :: "Merkle \<Rightarrow> bytes \<Rightarrow> bool" where
  "off_tree m k \<longleftrightarrow> (\<forall>l \<in> tree_levels. \<not> HasPrefix k (DBPrefix m @ [l]))"

lemma off_tree_prefix: "\<not> HasPrefix k (DBPrefix m) \<Longrightarrow> off_tree m k"
  by (auto simp: off_tree_def HasPrefix_iff)

lemma off_tree_mkey: "l \<in> tree_levels \<Longrightarrow> off_tree m k \<Longrightarrow> k \<noteq> mkey m l t"
  by (auto simp: off_tree_def HasPrefix_iff)

definition saved_upto ::
  "merkle_env \<Rightarrow> Merkle \<Rightarrow> Timestamp \<Rightarrow> LDBDatabase \<Rightarrow> MerkleTreeLevel \<Rightarrow> LDBDatabase \<Rightarrow> bool" where
  "saved_upto E m ts db0 l db \<longleftrightarrow> ldb_locks db = ldb_locks db0 \<and> no_fault db \<and> nodes_ok m db \<and>
     path_upto E m ts db0 db l \<and> (\<forall>k. off_tree m k \<longrightarrow> ldb_view db k = ldb_view db0 k) \<and>
     length (ldb_kvs db) + 1 \<le> length (ldb_kvs db0) + unat l"

lemma saved_step:
  assumes "saved_upto E m ts db0 (l - 1) db" "l \<in> tree_levels" "ts_dom ts"
    and "\<forall>b. length (env_keccak E b) = 32"
  shows "\<exists>t db'. SaveMerkleTreeCore E m l (fst (bucket l ts)) (snd (bucket l ts)) ts db = (Ret t, db') \<and>
    saved_upto E m ts db0 l db'"
proof -
  have db: "no_fault db" "nodes_ok m db" and path: "path_upto E m ts db0 db (l - 1)"
    using assms(1) by (auto simp: saved_upto_def)
  obtain t db' where run:
    "SaveMerkleTreeCore E m l (fst (bucket l ts)) (snd (bucket l ts)) ts db = (Ret t, db')"
    "wrote (mkey m l (fst (bucket l ts))) db db'" "nodes_ok m db'" "node_ok E m db' l ts"
    using save_level [OF db assms(2-4)] by blast
  have "path_upto E m ts db0 db' l"
    unfolding path_upto_def
  proof (intro ballI allI impI)
    fix l' v assume l': "l' \<in> tree_levels" and v: "ts_dom v"
    note keeps = wrote_keeps [OF run(2) assms(2) l' assms(3) v, of E]
    show "if bucket l' v = bucket l' ts then l' \<le> l \<longrightarrow> node_ok E m db' l' v
      else node_ok E m db0 l' v \<longrightarrow> node_ok E m db' l' v"
    proof (cases "bucket l' v = bucket l' ts")
      case same: True
      have "node_ok E m db' l' v" if "l' \<le> l"
      proof (cases "l' = l")
        case True
        with same run(4) show ?thesis using node_ok_bucket [of l v ts] by blast
      next
        case False
        with that have "l' < l" "l' \<le> l - 1"
          using l' assms(2) by (auto simp: tree_levels_def level_defs)
        with same path l' v keeps show ?thesis unfolding path_upto_def by (smt (verit, best))
      qed
      with same show ?thesis by simp
    next
      case False
      with path l' v keeps show ?thesis unfolding path_upto_def by auto
    qed
  qed
  moreover have "\<forall>k. off_tree m k \<longrightarrow> ldb_view db' k = ldb_view db k"
    using wrote_view [OF run(2)] off_tree_mkey [OF assms(2)] by blast
  moreover have "unat l = Suc (unat (l - 1))"
    using assms(2) by (auto simp: tree_levels_def level_defs)
  then have "length (ldb_kvs db') + 1 \<le> length (ldb_kvs db0) + unat l"
    using wrote_length [OF run(2)] assms(1) by (simp add: saved_upto_def)
  ultimately show ?thesis using run wrote_frame [OF run(2)] assms(1)
    by (auto simp: saved_upto_def no_fault_def)
qed

text \<open>
  The environment the theorems assume: 32-byte hashes, JSON codecs that read back what they wrote, a
  map iteration that visits every key once, and no clock offset. \<open>merkle_wf\<close> is the shape \<open>NewMerkle\<close>
  gives the prefixes; \<open>merkle_ready\<close> holds between two calls.
\<close>

definition env_ok :: "merkle_env \<Rightarrow> bool" where
  "env_ok E \<longleftrightarrow> env_offs E = 0 \<and> (\<forall>b. length (env_keccak E b) = 32) \<and>
     (\<forall>ts. \<exists>b. env_ts_enc E ts = Inr b \<and> env_dbable E b = Some ts) \<and>
     (\<forall>xs. (\<forall>x \<in> set xs. in_i64 x) \<longrightarrow> (\<exists>b. env_list_enc E xs = Inr b \<and> env_list_dec E b = Some xs)) \<and>
     (\<forall>xs. distinct xs \<longrightarrow> distinct (env_order E xs) \<and> set (env_order E xs) = set xs)"

definition merkle_wf :: "Merkle \<Rightarrow> bool" where
  "merkle_wf m \<longleftrightarrow> length (mk_DBMerklePrefix m) = 5 \<and> length (mk_PrefixID m) = 40 \<and>
     drop 3 (mk_DBMerklePrefix m) \<notin> {DBMerkleMetaPostfix, DBMerkleToUpdatePostfix, DBMerkleUpdatingPostfix} \<and>
     mk_metaPrefix m = take 3 (mk_DBMerklePrefix m) @ DBMerkleMetaPostfix \<and>
     mk_toUpdatePrefixWithID m = take 3 (mk_DBMerklePrefix m) @ DBMerkleToUpdatePostfix @ mk_PrefixID m \<and>
     mk_updatingPrefixWithID m = take 3 (mk_DBMerklePrefix m) @ DBMerkleUpdatingPostfix @ mk_PrefixID m"

abbreviation gen_key :: "Merkle \<Rightarrow> bytes" where
  "gen_key m \<equiv> mk_metaPrefix m @ DBMerkleGenerateTimePrefix @ mk_PrefixID m"

lemma MarshalTimeKeys [simp]:
  "MarshalGenerateTimeKey m = Ret (gen_key m)"
  "MarshalSyncTimeKey m = Ret (mk_metaPrefix m @ DBMerkleSyncTimePrefix @ mk_PrefixID m)"
  "MarshalFailSyncTimeKey m = Ret (mk_metaPrefix m @ DBMerkleFailSyncTimePrefix @ mk_PrefixID m)"
  by (simp_all add: MarshalGenerateTimeKey_def MarshalSyncTimeKey_def MarshalFailSyncTimeKey_def Concat_eq)

definition merkle_ready :: "merkle_env \<Rightarrow> Merkle \<Rightarrow> LDBDatabase \<Rightarrow> bool" where
  "merkle_ready E m db \<longleftrightarrow> no_fault db \<and> nodes_ok m db \<and>
     ldb_locks db (DBPrefix m) = None \<and> ldb_locks db (gen_key m) = None \<and>
     (\<forall>v. ldb_view db (gen_key m) = Some v \<longrightarrow> env_dbable E v \<noteq> None)"

lemma postfix_no_prefix:
  assumes "length p = 5" "drop 3 p \<noteq> q" "length q = 2"
  shows "\<not> HasPrefix (take 3 p @ q @ x) (p @ y)"
proof
  assume "HasPrefix (take 3 p @ q @ x) (p @ y)"
  then obtain r where "take 3 p @ q @ x = p @ y @ r" by (auto simp: HasPrefix_iff)
  then have "take 5 (take 3 p @ q @ x) = take 5 (p @ y @ r)" by (rule arg_cong)
  then have "take 5 (take 3 p @ q @ x) = p" using assms by simp
  moreover have "take 5 (take 3 p @ q @ x) = take 3 p @ q" using assms by simp
  ultimately show False using assms by (metis append_take_drop_id same_append_eq)
qed

lemma gen_key_apart: "merkle_wf m \<Longrightarrow> \<not> HasPrefix (gen_key m) (DBPrefix m)"
  using postfix_no_prefix [of "mk_DBMerklePrefix m" DBMerkleMetaPostfix]
  by (simp add: merkle_wf_def DBPrefix_def DBMerkleMetaPostfix_def)

lemma mkey_prefix: "HasPrefix (mkey m l t) (DBPrefix m)"
  by (simp add: HasPrefix_iff)

lemma apart_not_in_range:
  "\<not> HasPrefix k (DBPrefix m) \<Longrightarrow> \<not> (mkey m l s \<le> k \<and> k < mkey m l n)"
  unfolding HasPrefix_iff using between_prefix by blast

lemma wrote_apart:
  assumes "wrote k db db'" "\<not> HasPrefix k (DBPrefix m)"
  shows "node_ok E m db l u \<Longrightarrow> node_ok E m db' l u" "nodes_ok m db \<Longrightarrow> nodes_ok m db'"
proof -
  show "node_ok E m db l u \<Longrightarrow> node_ok E m db' l u"
    using wrote_view [OF assms(1)] wrote_kids [OF assms(1)] assms(2) mkey_prefix apart_not_in_range
    by (metis node_ok_frame)
  show "nodes_ok m db \<Longrightarrow> nodes_ok m db'"
    using assms set_kv_put [of k _ "ldb_kvs db"]
    by (fastforce simp: nodes_ok_def wrote_def kv_del_def)
qed

lemma SaveGenerateTime_ok:
  assumes "env_ok E" "no_fault db" "ldb_locks db (gen_key m) = None"
    "\<forall>v. ldb_view db (gen_key m) = Some v \<longrightarrow> env_dbable E v \<noteq> None"
  shows "\<exists>db'. SaveGenerateTime E ts m db = (Ret (m\<lparr>mk_LastGenerateTS := ts\<rparr>), db') \<and>
    (db' = db \<or> wrote (gen_key m) db db') \<and>
    (\<forall>v. ldb_view db' (gen_key m) = Some v \<longrightarrow> env_dbable E v \<noteq> None)"
proof -
  obtain b where b: "env_ts_enc E ts = Inr b" "env_dbable E b = Some ts"
    using assms(1) unfolding env_ok_def by blast
  have w: "wrote (gen_key m) db (db\<lparr>ldb_kvs := kv_put (gen_key m) b (ldb_kvs db)\<rparr>)"
    by (auto simp: wrote_def)
  show ?thesis
  proof (cases "map_of (ldb_kvs db) (gen_key m)")
    case None
    with w show ?thesis
      by (simp add: SaveGenerateTime_def b TryPut_eq [OF assms(2,3)] ldb_view_def)
  next
    case (Some old)
    then obtain orig where "env_dbable E old = Some orig" using assms(4) by (auto simp: ldb_view_def)
    with Some w show ?thesis
      by (cases "ts < orig") (simp_all add: SaveGenerateTime_def b TryPut_eq [OF assms(2,3)] ldb_view_def)
  qed
qed

text \<open>Rewriting the path of a time.\<close>

lemma merkle_upd [simp]:
  "DBPrefix (m\<lparr>mk_LastGenerateTS := t\<rparr>) = DBPrefix m"
  "DBPrefix (m\<lparr>mk_BusyGenerateTS := t\<rparr>) = DBPrefix m"
  "DBPrefix (m\<lparr>mk_toUpdateTS := xs\<rparr>) = DBPrefix m"
  by (simp_all add: DBPrefix_def)

definition same_keys :: "Merkle \<Rightarrow> Merkle \<Rightarrow> bool" where
  "same_keys m m' \<longleftrightarrow> mk_DBMerklePrefix m' = mk_DBMerklePrefix m \<and> mk_PrefixID m' = mk_PrefixID m \<and>
     mk_metaPrefix m' = mk_metaPrefix m \<and> mk_toUpdatePrefixWithID m' = mk_toUpdatePrefixWithID m \<and>
     mk_updatingPrefixWithID m' = mk_updatingPrefixWithID m"

lemma same_keys_refl [simp]: "same_keys m m"
  by (simp add: same_keys_def)

lemma same_keys_trans: "same_keys m m' \<Longrightarrow> same_keys m' m'' \<Longrightarrow> same_keys m m''"
  by (simp add: same_keys_def)

lemma same_keys_cong:
  assumes "same_keys m m'"
  shows "DBPrefix m' = DBPrefix m" "merkle_wf m' = merkle_wf m" "merkle_ready E m' db = merkle_ready E m db"
    "node_ok E m' db l u = node_ok E m db l u"
proof -
  show d: "DBPrefix m' = DBPrefix m" using assms by (simp add: same_keys_def DBPrefix_def)
  show "merkle_wf m' = merkle_wf m" using assms by (simp add: same_keys_def merkle_wf_def)
  show "merkle_ready E m' db = merkle_ready E m db"
    using assms d by (simp add: same_keys_def merkle_ready_def nodes_ok_def)
  show "node_ok E m' db l u = node_ok E m db l u" by (simp add: node_ok_def kids_def d)
qed

lemma path_upto_start: "path_upto E m ts db db MerkleTreeLevelNow"
proof -
  have "\<not> l \<le> MerkleTreeLevelNow" if "l \<in> tree_levels" for l
    using that by (auto simp: tree_levels_def level_defs word_le_nat_alt)
  then show ?thesis by (auto simp: path_upto_def)
qed

lemma level_preds:
  "MerkleTreeLevelHR - 1 = MerkleTreeLevelNow" "MerkleTreeLevelDay - 1 = MerkleTreeLevelHR"
  "MerkleTreeLevelMonth - 1 = MerkleTreeLevelDay" "MerkleTreeLevelYear - 1 = MerkleTreeLevelMonth"
  by (simp_all add: level_defs)

text \<open>Keys outside the tree, other than that of the generate time, are left alone.\<close>

definition outside :: "Merkle \<Rightarrow> LDBDatabase \<Rightarrow> LDBDatabase \<Rightarrow> bool" where
  "outside m db db' \<longleftrightarrow> (\<forall>k. off_tree m k \<longrightarrow> k \<noteq> gen_key m \<longrightarrow> ldb_view db' k = ldb_view db k)"

lemma SaveMerkleTree_levels_ok:
  assumes E: "env_ok E" and wf: "merkle_wf m" and ts: "ts_dom ts"
    and db: "no_fault db" "nodes_ok m db" "ldb_locks db (gen_key m) = None"
      "\<forall>v. ldb_view db (gen_key m) = Some v \<longrightarrow> env_dbable E v \<noteq> None"
  shows "\<exists>t db'. SaveMerkleTree_levels E ts m db = (Ret (m\<lparr>mk_LastGenerateTS := t\<rparr>), db') \<and>
    ldb_locks db' = ldb_locks db \<and> no_fault db' \<and> nodes_ok m db' \<and>
    path_upto E m ts db db' MerkleTreeLevelYear \<and> outside m db db' \<and> length (ldb_kvs db') \<le> length (ldb_kvs db) + 5 \<and>
    (\<forall>v. ldb_view db' (gen_key m) = Some v \<longrightarrow> env_dbable E v \<noteq> None)"
proof -
  have hash: "\<forall>b. length (env_keccak E b) = 32" and offs: "env_offs E = 0"
    using E by (auto simp: env_ok_def)
  have lev: "MerkleTreeLevelHR \<in> tree_levels" "MerkleTreeLevelDay \<in> tree_levels"
    "MerkleTreeLevelMonth \<in> tree_levels" "MerkleTreeLevelYear \<in> tree_levels"
    by (simp_all add: tree_levels_def)
  note apart = gen_key_apart [OF wf]
  have "saved_upto E m ts db MerkleTreeLevelNow db"
    using db path_upto_start by (simp add: saved_upto_def MerkleTreeLevelNow_def)
  then obtain t1 db1 where s1: "SaveMerkleTreeCore E m MerkleTreeLevelHR (fst (ToHRTimestamp ts)) (snd (ToHRTimestamp ts)) ts db = (Ret t1, db1)"
    "saved_upto E m ts db MerkleTreeLevelHR db1"
    using saved_step [OF _ lev(1) ts hash] unfolding level_preds level_range_simps by blast
  obtain t2 db2 where s2: "SaveMerkleTreeCore E m MerkleTreeLevelDay (fst (ToDayTimestamp ts)) (snd (ToDayTimestamp ts)) ts db1 = (Ret t2, db2)"
    "saved_upto E m ts db MerkleTreeLevelDay db2"
    using saved_step [OF _ lev(2) ts hash] s1(2) unfolding level_preds level_range_simps by blast
  obtain t3 db3 where s3: "SaveMerkleTreeCore E m MerkleTreeLevelMonth (fst (ToMonthTimestamp 0 ts)) (snd (ToMonthTimestamp 0 ts)) ts db2 = (Ret t3, db3)"
    "saved_upto E m ts db MerkleTreeLevelMonth db3"
    using saved_step [OF _ lev(3) ts hash] s2(2) unfolding level_preds level_range_simps by blast
  obtain t4 db4 where s4: "SaveMerkleTreeCore E m MerkleTreeLevelYear (fst (ToYearTimestamp 0 ts)) (snd (ToYearTimestamp 0 ts)) ts db3 = (Ret t4, db4)"
    "saved_upto E m ts db MerkleTreeLevelYear db4"
    using saved_step [OF _ lev(4) ts hash] s3(2) unfolding level_preds level_range_simps by blast
  have d4: "ldb_locks db4 = ldb_locks db" "no_fault db4" "nodes_ok m db4" "path_upto E m ts db db4 MerkleTreeLevelYear"
    "ldb_view db4 (gen_key m) = ldb_view db (gen_key m)"
    using s4(2) off_tree_prefix [OF apart] by (auto simp: saved_upto_def)
  have gen_lock: "ldb_locks db4 (gen_key m) = None" using d4(1) db(3) by simp
  have view: "\<forall>v. ldb_view db4 (gen_key m) = Some v \<longrightarrow> env_dbable E v \<noteq> None"
    using db(4) d4(5) by simp
  obtain db5 where s5: "SaveGenerateTime E t1 m db4 = (Ret (m\<lparr>mk_LastGenerateTS := t1\<rparr>), db5)"
    "db5 = db4 \<or> wrote (gen_key m) db4 db5" "\<forall>v. ldb_view db5 (gen_key m) = Some v \<longrightarrow> env_dbable E v \<noteq> None"
    using SaveGenerateTime_ok [OF E d4(2) gen_lock view] by metis
  have "SaveMerkleTree_levels E ts m db = (Ret (m\<lparr>mk_LastGenerateTS := t1\<rparr>), db5)"
    by (simp add: SaveMerkleTree_levels_def offs case_prod_unfold Let_def st_bind_def
        s1(1) s2(1) s3(1) s4(1) s5(1))
  moreover have "path_upto E m ts db db5 MerkleTreeLevelYear" "nodes_ok m db5"
    using s5(2) d4(3,4) wrote_apart [OF _ apart] unfolding path_upto_def by (metis, metis)
  moreover have "ldb_locks db5 = ldb_locks db" "no_fault db5"
    using s5(2) wrote_frame [of "gen_key m" db4 db5] d4(1,2) by (auto simp: no_fault_def)
  moreover have "length (ldb_kvs db5) \<le> length (ldb_kvs db) + 5"
    using s5(2) s4(2) wrote_length [of "gen_key m" db4 db5] by (auto simp: saved_upto_def MerkleTreeLevelYear_def)
  moreover have "outside m db db5"
    using s5(2) s4(2) wrote_view [of "gen_key m" db4 db5] by (auto simp: outside_def saved_upto_def)
  ultimately show ?thesis using s5(3) by blast
qed

lemma SaveMerkleTree_ok:
  assumes E: "env_ok E" and wf: "merkle_wf m" and ts: "ts_dom ts" and ready: "merkle_ready E m db"
  shows "\<exists>t db'. SaveMerkleTree E ts m db = (Ret (m\<lparr>mk_LastGenerateTS := t\<rparr>), db') \<and>
    merkle_ready E m db' \<and> ldb_locks db' = ldb_locks db \<and> path_upto E m ts db db' MerkleTreeLevelYear \<and> outside m db db' \<and>
    length (ldb_kvs db') \<le> length (ldb_kvs db) + 5"
proof -
  let ?l = "(ldb_locks db)(DBPrefix m \<mapsto> -1)"
  let ?db = "db\<lparr>ldb_locks := ?l\<rparr>"
  have neq: "gen_key m \<noteq> DBPrefix m"
    using gen_key_apart [OF wf] by (metis HasPrefix_refl)
  have cong: "nodes_ok m (d\<lparr>ldb_locks := l\<rparr>) = nodes_ok m d" "node_ok E m (d\<lparr>ldb_locks := l\<rparr>) = node_ok E m d"
    "no_fault (d\<lparr>ldb_locks := l\<rparr>) = no_fault d" "ldb_view (d\<lparr>ldb_locks := l\<rparr>) = ldb_view d" for d l
    by (simp_all add: fun_eq_iff nodes_ok_def node_ok_def kids_def ldb_view_def no_fault_def)
  have pre: "no_fault ?db" "nodes_ok m ?db" "ldb_locks ?db (gen_key m) = None"
    "\<forall>v. ldb_view ?db (gen_key m) = Some v \<longrightarrow> env_dbable E v \<noteq> None"
    using ready neq unfolding merkle_ready_def cong by (simp_all del: fun_upd_apply add: fun_upd_other)
  obtain t db' where run: "SaveMerkleTree_levels E ts m ?db = (Ret (m\<lparr>mk_LastGenerateTS := t\<rparr>), db')"
    "ldb_locks db' = ?l" "no_fault db'" "nodes_ok m db'" "path_upto E m ts ?db db' MerkleTreeLevelYear"
    "\<forall>v. ldb_view db' (gen_key m) = Some v \<longrightarrow> env_dbable E v \<noteq> None" "outside m ?db db'"
    "length (ldb_kvs db') \<le> length (ldb_kvs ?db) + 5"
    using SaveMerkleTree_levels_ok [OF E wf ts pre] by auto
  have free: "ldb_locks db (DBPrefix m) = None" using ready by (simp add: merkle_ready_def)
  have "SaveMerkleTree E ts m db =
    (Ret (m\<lparr>mk_LastGenerateTS := t\<rparr>), db'\<lparr>ldb_locks := ldb_locks db\<rparr>)"
    unfolding SaveMerkleTree_def
    by (rule with_lock_run [where body = "SaveMerkleTree_levels E ts m", OF free run(1,2)])
  moreover have "merkle_ready E m (db'\<lparr>ldb_locks := ldb_locks db\<rparr>)"
    using ready run(3,4,6) unfolding merkle_ready_def cong by simp
  moreover have "path_upto E m ts db (db'\<lparr>ldb_locks := ldb_locks db\<rparr>) MerkleTreeLevelYear"
    using run(5) unfolding path_upto_def cong .
  moreover have "outside m db (db'\<lparr>ldb_locks := ldb_locks db\<rparr>)"
    using run(7) unfolding outside_def cong .
  ultimately show ?thesis using run(8) by auto
qed

text \<open>A list of hours: every node ends up agreeing that agreed before or lies on the path of one of them.\<close>

lemma path_upto_year:
  "path_upto E m ts db db' MerkleTreeLevelYear \<Longrightarrow> l \<in> tree_levels \<Longrightarrow> ts_dom v \<Longrightarrow>
   bucket l v = bucket l ts \<or> node_ok E m db l v \<Longrightarrow> node_ok E m db' l v"
proof -
  have "l \<le> MerkleTreeLevelYear" if "l \<in> tree_levels"
    using that by (auto simp: tree_levels_def level_defs)
  then show "path_upto E m ts db db' MerkleTreeLevelYear \<Longrightarrow> l \<in> tree_levels \<Longrightarrow> ts_dom v \<Longrightarrow>
    bucket l v = bucket l ts \<or> node_ok E m db l v \<Longrightarrow> node_ok E m db' l v"
    unfolding path_upto_def by (smt (verit, best))
qed

lemma save_all_ok:
  assumes "env_ok E" "merkle_wf m" "\<forall>x \<in> set secs. ts_dom (mkTs x 0)" "merkle_ready E m db"
  shows "\<exists>m' db'. save_all E secs m db = (Ret (), m', db') \<and> same_keys m m' \<and>
    mk_toUpdateTS m' = mk_toUpdateTS m \<and> merkle_ready E m db' \<and> outside m db db' \<and>
    (\<forall>l \<in> tree_levels. \<forall>v. ts_dom v \<longrightarrow>
       (\<exists>x \<in> set secs. bucket l v = bucket l (mkTs x 0)) \<or> node_ok E m db l v \<longrightarrow> node_ok E m db' l v)"
  using assms
proof (induction secs arbitrary: m db)
  case (Cons x secs)
  have "ts_dom (mkTs x 0)" using Cons.prems(3) by simp
  then obtain t db1 where s1: "SaveMerkleTree E (mkTs x 0) m db = (Ret (m\<lparr>mk_LastGenerateTS := t\<rparr>), db1)"
    "merkle_ready E m db1" "path_upto E m (mkTs x 0) db db1 MerkleTreeLevelYear" "outside m db db1"
    using SaveMerkleTree_ok [OF Cons.prems(1,2) _ Cons.prems(4)] by blast
  let ?m = "m\<lparr>mk_LastGenerateTS := t\<rparr>"
  have same: "same_keys m ?m" by (simp add: same_keys_def)
  note cong = same_keys_cong [OF same]
  obtain m' db' where s2: "save_all E secs ?m db1 = (Ret (), m', db')" "same_keys ?m m'"
    "mk_toUpdateTS m' = mk_toUpdateTS ?m" "merkle_ready E ?m db'"
    "\<forall>l \<in> tree_levels. \<forall>v. ts_dom v \<longrightarrow>
       (\<exists>x \<in> set secs. bucket l v = bucket l (mkTs x 0)) \<or> node_ok E ?m db1 l v \<longrightarrow> node_ok E ?m db' l v"
    "outside ?m db1 db'"
    using Cons.IH [of ?m db1] Cons.prems s1(2) cong by auto
  have "node_ok E m db' l v" if "l \<in> tree_levels" "ts_dom v"
    "(\<exists>x \<in> set (x # secs). bucket l v = bucket l (mkTs x 0)) \<or> node_ok E m db l v" for l v
    using s2(5) that path_upto_year [OF s1(3) that(1,2)] unfolding cong by (metis set_ConsD)
  moreover have "outside m db db'"
    using s1(4) s2(6) by (simp add: outside_def off_tree_def)
  ultimately show ?case
    using s1(1) s2(1-4) same_keys_trans [OF same s2(2)] cong by auto
qed (simp add: outside_def)

subsection \<open>The hours to update\<close>

lemma visited_prefix_all:
  assumes "p \<noteq> []"
  shows "\<exists>it. NewIteratorWithPrefix [] p ListOrderNext db = Ret it \<and>
    visited ListOrderNext it = filter (\<lambda>kv. HasPrefix (fst kv) p) (ldb_kvs db)"
  using assms visited_range_next [of "Some (BytesPrefix p)" db]
  by (simp add: NewIteratorWithPrefix_def in_range_prefix)

lemma delete_visited_eq:
  "no_fault db \<Longrightarrow> delete_visited kvs db = db\<lparr>ldb_kvs := filter (\<lambda>kv. fst kv \<notin> fst ` set kvs) (ldb_kvs db)\<rparr>"
proof (induction kvs arbitrary: db)
  case (Cons kv kvs)
  let ?db = "db\<lparr>ldb_kvs := kv_del (fst kv) (ldb_kvs db)\<rparr>"
  have "no_fault ?db" using Cons.prems by (simp add: no_fault_def)
  moreover have "delete_visited (kv # kvs) db = delete_visited kvs ?db"
    using Cons.prems by (simp add: delete_visited_def Ldb_Delete_def no_fault_def)
  ultimately show ?case using Cons.IH [of ?db] by (simp add: kv_del_def conj_commute)
qed (simp add: delete_visited_def)

lemma resetToUpdateTSDB_eq:
  assumes "no_fault db" "mk_toUpdatePrefixWithID m \<noteq> []"
  shows "resetToUpdateTSDB m db = without_prefix (mk_toUpdatePrefixWithID m) db"
proof -
  let ?p = "mk_toUpdatePrefixWithID m"
  obtain it where it: "NewIteratorWithPrefix [] ?p ListOrderNext db = Ret it"
    "visited ListOrderNext it = filter (\<lambda>kv. HasPrefix (fst kv) ?p) (ldb_kvs db)"
    using visited_prefix_all [OF assms(2)] by blast
  have "filter (\<lambda>kv. fst kv \<notin> fst ` set (visited ListOrderNext it)) (ldb_kvs db) =
    filter (\<lambda>kv. \<not> HasPrefix (fst kv) ?p) (ldb_kvs db)"
    by (rule filter_cong) (auto simp: it(2))
  then show ?thesis
    by (simp add: resetToUpdateTSDB_def it(1) delete_visited_eq [OF assms(1)] without_prefix_def)
qed

lemma update_prefix_facts:
  assumes "merkle_wf m"
  shows "mk_toUpdatePrefixWithID m \<noteq> []" "length (mk_toUpdatePrefixWithID m) = 45"
    "HasPrefix k (mk_toUpdatePrefixWithID m) \<Longrightarrow> \<not> HasPrefix k (DBPrefix m)"
    "\<not> HasPrefix (gen_key m) (mk_toUpdatePrefixWithID m)"
    "\<not> HasPrefix (MarshalUpdatingKey m) (DBPrefix m)"
    "\<not> HasPrefix (MarshalUpdatingKey m) (mk_toUpdatePrefixWithID m)"
    "MarshalUpdatingKey m \<noteq> gen_key m"
proof -
  note wf = assms [unfolded merkle_wf_def]
  have five: "(5 :: nat) \<le> 45" by simp
  have len: "length (take 3 (mk_DBMerklePrefix m)) = 3" "length (DBPrefix m) = 45"
    using wf by (simp_all add: DBPrefix_def)
  show l45: "length (mk_toUpdatePrefixWithID m) = 45" using wf by (simp add: DBMerkleToUpdatePostfix_def)
  then show "mk_toUpdatePrefixWithID m \<noteq> []" by auto
  have "take 5 (mk_toUpdatePrefixWithID m) \<noteq> take 5 (DBPrefix m)"
    using wf len by (auto simp: DBPrefix_def DBMerkleToUpdatePostfix_def) (metis append_take_drop_id same_append_eq)
  then have "mk_toUpdatePrefixWithID m \<noteq> DBPrefix m" by auto
  then show "HasPrefix k (mk_toUpdatePrefixWithID m) \<Longrightarrow> \<not> HasPrefix k (DBPrefix m)"
    using two_prefixes_apart l45 len(2) by metis
  have "take 5 (gen_key m) \<noteq> take 5 (mk_toUpdatePrefixWithID m)"
    using wf len by (simp add: DBMerkleToUpdatePostfix_def DBMerkleMetaPostfix_def)
  then show "\<not> HasPrefix (gen_key m) (mk_toUpdatePrefixWithID m)"
    using l45 HasPrefix_take [where n = 5] by (metis five)
  show "\<not> HasPrefix (MarshalUpdatingKey m) (DBPrefix m)"
    using postfix_no_prefix [of "mk_DBMerklePrefix m" DBMerkleUpdatingPostfix] wf
    by (simp add: MarshalUpdatingKey_def DBPrefix_def DBMerkleUpdatingPostfix_def)
  have "take 5 (MarshalUpdatingKey m) \<noteq> take 5 (mk_toUpdatePrefixWithID m)"
    using wf len by (simp add: MarshalUpdatingKey_def DBMerkleToUpdatePostfix_def DBMerkleUpdatingPostfix_def)
  then show "\<not> HasPrefix (MarshalUpdatingKey m) (mk_toUpdatePrefixWithID m)"
    using l45 HasPrefix_take [where n = 5] by (metis five)
  have "length (MarshalUpdatingKey m) \<noteq> length (gen_key m)"
    using wf len by (simp add: MarshalUpdatingKey_def DBMerkleUpdatingPostfix_def DBMerkleMetaPostfix_def
        DBMerkleGenerateTimePrefix_def)
  then show "MarshalUpdatingKey m \<noteq> gen_key m" by auto
qed

lemma without_prefix_apart:
  assumes "\<And>k. HasPrefix k p \<Longrightarrow> \<not> HasPrefix k (DBPrefix m)"
  shows "node_ok E m db l u \<Longrightarrow> node_ok E m (without_prefix p db) l u"
    "nodes_ok m db \<Longrightarrow> nodes_ok m (without_prefix p db)"
proof -
  have "kids m l' r (without_prefix p db) = kids m l' r db" for l' r
  proof -
    have "\<not> HasPrefix k p" if "mkey m l' (fst r) \<le> k \<and> k < mkey m l' (snd r)" for k
      using that assms apart_not_in_range by blast
    then show ?thesis by (auto simp: kids_def without_prefix_def intro!: filter_cong)
  qed
  moreover have "ldb_view (without_prefix p db) (mkey m l' t) = ldb_view db (mkey m l' t)" for l' t
    using assms mkey_prefix by (metis without_prefix_view)
  ultimately show "node_ok E m db l u \<Longrightarrow> node_ok E m (without_prefix p db) l u"
    using node_ok_frame by metis
  show "nodes_ok m db \<Longrightarrow> nodes_ok m (without_prefix p db)"
    by (auto simp: nodes_ok_def without_prefix_def)
qed

lemma merkle_ready_wrote:
  assumes "merkle_ready E m db" "wrote k db db'" "\<not> HasPrefix k (DBPrefix m)" "k \<noteq> gen_key m"
  shows "merkle_ready E m db'"
  using assms(1) wrote_frame [OF assms(2)] wrote_view [OF assms(2), of "gen_key m"] assms(4)
    wrote_apart(2) [OF assms(2,3)]
  by (auto simp: merkle_ready_def no_fault_def)

lemma GetAndReset_ok:
  assumes E: "env_ok E" and wf: "merkle_wf m" and ready: "merkle_ready E m db"
    and pend: "distinct (mk_toUpdateTS m)" "\<forall>x \<in> set (mk_toUpdateTS m). in_i64 x"
  shows "\<exists>xs b db'. GetAndResetToUpdateTSList E (m, db) = (Ret xs, m\<lparr>mk_toUpdateTS := []\<rparr>, db') \<and>
    set xs = set (mk_toUpdateTS m) \<and> env_list_dec E b = Some xs \<and>
    ldb_view db' = (\<lambda>k. if HasPrefix k (mk_toUpdatePrefixWithID m) then None
       else ((ldb_view db)(MarshalUpdatingKey m \<mapsto> b)) k) \<and>
    merkle_ready E m db' \<and> (\<forall>l u. node_ok E m db l u \<longrightarrow> node_ok E m db' l u)"
proof -
  note facts = update_prefix_facts [OF wf]
  let ?p = "mk_toUpdatePrefixWithID m" and ?k = "MarshalUpdatingKey m"
  define xs where "xs = env_order E (mk_toUpdateTS m)"
  have xs: "set xs = set (mk_toUpdateTS m)" using E pend(1) by (auto simp: env_ok_def xs_def)
  then have "\<forall>x \<in> set xs. in_i64 x" using pend(2) by simp
  then obtain b where b: "env_list_enc E xs = Inr b" "env_list_dec E b = Some xs"
    using E unfolding env_ok_def by blast
  have nf: "no_fault db" using ready by (simp add: merkle_ready_def)
  define db1 where "db1 = without_prefix ?p db"
  define db2 where "db2 = db1\<lparr>ldb_kvs := kv_put ?k b (ldb_kvs db1)\<rparr>"
  have nf1: "no_fault db1" using nf by (simp add: db1_def without_prefix_def no_fault_def)
  have "GetAndResetToUpdateTSList E (m, db) = (Ret xs, m\<lparr>mk_toUpdateTS := []\<rparr>, db2)"
    using nf1 resetToUpdateTSDB_eq [OF nf facts(1)] b(1)
    by (simp add: GetAndResetToUpdateTSList_def getAndResetToUpdateTSs_def xs_def db1_def db2_def
        Ldb_Put_def no_fault_def MarshalUpdatingKey_def)
  moreover have w: "wrote ?k db1 db2" by (auto simp: wrote_def db2_def)
  have "ldb_view db2 = (\<lambda>k. if HasPrefix k ?p then None else ((ldb_view db)(?k \<mapsto> b)) k)"
    using facts(6) by (auto simp: fun_eq_iff db2_def db1_def ldb_view_def without_prefix_def
        map_of_filter_key [of "\<lambda>k. \<not> HasPrefix k ?p"])
  moreover have "merkle_ready E m db1"
    using ready without_prefix_apart(2) [OF facts(3)] facts(4) nf1
    by (simp add: merkle_ready_def db1_def without_prefix_view) (simp add: without_prefix_def)
  then have "merkle_ready E m db2"
    using merkle_ready_wrote [OF _ w] facts(5,7) by blast
  moreover have "node_ok E m db l u \<longrightarrow> node_ok E m db2 l u" for l u
    using without_prefix_apart(1) [OF facts(3)] wrote_apart(1) [OF w facts(5)] db1_def by blast
  ultimately show ?thesis using xs b(2) by blast
qed

text \<open>The pending hours are on disk: the keys under the to-update prefix are those of the set.\<close>

abbreviation upd_key :: "Merkle \<Rightarrow> int \<Rightarrow> bytes" where
  "upd_key m x \<equiv> mk_toUpdatePrefixWithID m @ PutUint64 (word_of_int x)"

definition pending_ok :: "Merkle \<Rightarrow> LDBDatabase \<Rightarrow> bool" where
  "pending_ok m db \<longleftrightarrow> (\<forall>x \<in> set (mk_toUpdateTS m). in_i64 x) \<and>
     (\<forall>k. HasPrefix k (mk_toUpdatePrefixWithID m) \<longrightarrow>
        (ldb_view db k \<noteq> None \<longleftrightarrow> (\<exists>x \<in> set (mk_toUpdateTS m). k = upd_key m x)))"

lemma upd_key_inj: "in_i64 x \<Longrightarrow> in_i64 y \<Longrightarrow> upd_key m x = upd_key m y \<longleftrightarrow> x = y"
  by (simp add: codec_simps word_of_int_eq_i64)

lemma tsFromToUpdateTSKey_eq:
  "length p = 45 \<Longrightarrow> in_i64 x \<Longrightarrow> tsFromToUpdateTSKey (p @ PutUint64 (word_of_int x)) = Ret x"
  by (simp add: tsFromToUpdateTSKey_def codec_simps sint_word_of_int_i64)

lemma load_ts_keys_eq:
  assumes "length (mk_toUpdatePrefixWithID m) = 45"
    "\<forall>kv \<in> set kvs. \<exists>x. in_i64 x \<and> fst kv = upd_key m x"
  shows "\<exists>m'. load_ts_keys kvs m = Ret m' \<and> same_keys m m' \<and>
    set (mk_toUpdateTS m') = set (mk_toUpdateTS m) \<union> {x. in_i64 x \<and> upd_key m x \<in> fst ` set kvs}"
  using assms
proof (induction kvs arbitrary: m)
  case (Cons kv kvs)
  obtain k v where kv: "kv = (k, v)" by force
  then obtain x where x: "in_i64 x" "k = upd_key m x" using Cons.prems(2) by auto
  let ?m = "m\<lparr>mk_toUpdateTS := List.insert x (mk_toUpdateTS m)\<rparr>"
  have same: "same_keys m ?m" by (simp add: same_keys_def)
  obtain m' where m': "load_ts_keys kvs ?m = Ret m'" "same_keys ?m m'"
    "set (mk_toUpdateTS m') = insert x (set (mk_toUpdateTS m)) \<union> {x. in_i64 x \<and> upd_key m x \<in> fst ` set kvs}"
    using Cons.IH [of ?m] Cons.prems by auto
  have "{y. in_i64 y \<and> upd_key m y \<in> fst ` set (kv # kvs)} =
    insert x {y. in_i64 y \<and> upd_key m y \<in> fst ` set kvs}"
    using x by (auto simp: kv codec_simps word_of_int_eq_i64)
  then show ?case
    using m' same_keys_trans [OF same m'(2)] x Cons.prems(1)
    by (auto simp: kv tsFromToUpdateTSKey_eq)
qed simp

lemma LoadToUpdateTSs_ok:
  assumes wf: "merkle_wf m" and pend: "pending_ok m db" and same: "same_keys m m0"
  shows "\<exists>m'. LoadToUpdateTSs m0 db = Ret m' \<and> same_keys m m' \<and>
    set (mk_toUpdateTS m') = set (mk_toUpdateTS m0) \<union> set (mk_toUpdateTS m)"
proof -
  let ?p = "mk_toUpdatePrefixWithID m"
  note facts = update_prefix_facts [OF wf]
  have p0: "mk_toUpdatePrefixWithID m0 = ?p" using same by (simp add: same_keys_def)
  define kvs where "kvs = filter (\<lambda>kv. HasPrefix (fst kv) ?p) (ldb_kvs db)"
  have keys: "k \<in> fst ` set kvs \<longleftrightarrow> HasPrefix k ?p \<and> ldb_view db k \<noteq> None" for k
  proof -
    have "k \<in> fst ` set kvs \<longleftrightarrow> HasPrefix k ?p \<and> k \<in> fst ` set (ldb_kvs db)"
      by (auto simp: kvs_def)
    then show ?thesis
      using dom_map_of_conv_image_fst [of "ldb_kvs db"] by (auto simp: ldb_view_def dom_def)
  qed
  have pref: "HasPrefix (upd_key m x) ?p" for x by (simp add: HasPrefix_iff)
  have "\<exists>x. in_i64 x \<and> fst kv = upd_key m0 x" if "kv \<in> set kvs" for kv
    using that keys [of "fst kv"] pend unfolding pending_ok_def p0 by blast
  then obtain m' where m': "load_ts_keys kvs m0 = Ret m'" "same_keys m0 m'"
    "set (mk_toUpdateTS m') = set (mk_toUpdateTS m0) \<union> {x. in_i64 x \<and> upd_key m x \<in> fst ` set kvs}"
    using load_ts_keys_eq [of m0 kvs] facts(2) p0 by auto
  have "{x. in_i64 x \<and> upd_key m x \<in> fst ` set kvs} = set (mk_toUpdateTS m)"
  proof (intro set_eqI iffI)
    fix x assume "x \<in> {x. in_i64 x \<and> upd_key m x \<in> fst ` set kvs}"
    then have "in_i64 x" "ldb_view db (upd_key m x) \<noteq> None" using keys by auto
    then obtain y where "y \<in> set (mk_toUpdateTS m)" "upd_key m x = upd_key m y"
      using pend pref [of x] unfolding pending_ok_def by blast
    with \<open>in_i64 x\<close> pend show "x \<in> set (mk_toUpdateTS m)"
      using upd_key_inj [of x y m] by (auto simp: pending_ok_def)
  next
    fix x assume "x \<in> set (mk_toUpdateTS m)"
    then show "x \<in> {x. in_i64 x \<and> upd_key m x \<in> fst ` set kvs}"
      using pend pref [of x] keys unfolding pending_ok_def by blast
  qed
  moreover have "LoadToUpdateTSs m0 db = Ret m'"
    using visited_prefix_all [OF facts(1), of db] m'(1) p0 by (auto simp: LoadToUpdateTSs_def kvs_def)
  ultimately show ?thesis using m' same_keys_trans [OF same m'(2)] by blast
qed

lemma SetUpdateTS_ok:
  assumes nf: "no_fault db" and pend: "pending_ok m db"
  shows "case SetUpdateTS ts (m, db) of (m', db') \<Rightarrow> same_keys m m' \<and> no_fault db' \<and> pending_ok m' db' \<and>
    set (mk_toUpdateTS m') = insert (Ts (fst (ToHRTimestamp ts))) (set (mk_toUpdateTS m))"
proof -
  let ?x = "Ts (fst (ToHRTimestamp ts))"
  have "in_i64 ?x" by (simp add: ToHRTimestamp_def Let_def)
  with pend show ?thesis
    using nf
    by (auto simp: SetUpdateTS_def Let_def same_keys_def pending_ok_def MarshalToUpdateTSKey_def
        Ldb_Put_def no_fault_def ldb_view_def HasPrefix_iff)
qed

lemma hour_start_fixed: "ts_dom (mkTs x 0) \<Longrightarrow> x mod 3600 = 0 \<Longrightarrow> fst (ToHRTimestamp (mkTs x 0)) = mkTs x 0"
  by (simp add: ToHR_eq)

lemma SetUpdateTS_fold:
  assumes "no_fault db" "pending_ok m db" "\<forall>x \<in> set xs. ts_dom (mkTs x 0) \<and> x mod 3600 = 0"
  shows "case fold (\<lambda>sec. SetUpdateTS (mkTs sec 0)) xs (m, db) of (m', db') \<Rightarrow>
    same_keys m m' \<and> no_fault db' \<and> pending_ok m' db' \<and> set (mk_toUpdateTS m') = set xs \<union> set (mk_toUpdateTS m)"
  using assms
proof (induction xs arbitrary: m db)
  case (Cons x xs)
  obtain m1 db1 where s1: "SetUpdateTS (mkTs x 0) (m, db) = (m1, db1)" by force
  have hr: "Ts (fst (ToHRTimestamp (mkTs x 0))) = x"
    using hour_start_fixed [of x] Cons.prems(3) by simp
  have p1: "same_keys m m1" "no_fault db1" "pending_ok m1 db1" "set (mk_toUpdateTS m1) = insert x (set (mk_toUpdateTS m))"
    using SetUpdateTS_ok [OF Cons.prems(1,2), of "mkTs x 0"] by (simp_all add: s1 hr)
  show ?case
    using Cons.IH [OF p1(2,3)] Cons.prems(3) p1(1,4) same_keys_trans [OF p1(1)] by (auto simp: s1)
qed (auto simp: pending_ok_def)

lemma pending_ok_cong: "same_keys m m' \<Longrightarrow> set (mk_toUpdateTS m') = set (mk_toUpdateTS m) \<Longrightarrow>
  pending_ok m' db = pending_ok m db"
  by (simp add: pending_ok_def same_keys_def)

subsection \<open>The list of nodes before a time\<close>

lemma GetMerkleTreeListCore_eq:
  assumes "nodes_ok m db"
  shows "\<exists>ns. GetMerkleTreeListCore m l s n db = Ret ns \<and>
    list_all2 (\<lambda>kv nd. Node_Unmarshal (snd kv) = Ret nd) (kids m l (s, n) db) ns"
proof -
  have dec: "\<exists>ns. decode_nodes kvs = Ret ns \<and> list_all2 (\<lambda>kv nd. Node_Unmarshal (snd kv) = Ret nd) kvs ns"
    if "\<forall>kv \<in> set kvs. \<exists>nd. Node_Unmarshal (snd kv) = Ret nd" for kvs
    using that
  proof (induction kvs)
    case (Cons kv kvs)
    obtain k v where kv: "kv = (k, v)" by force
    with Cons obtain nd ns where "Node_Unmarshal v = Ret nd" "decode_nodes kvs = Ret ns"
      "list_all2 (\<lambda>kv nd. Node_Unmarshal (snd kv) = Ret nd) kvs ns" by auto
    then show ?case by (simp add: kv)
  qed simp
  obtain it where "GetMerkleIter m l s n ListOrderNext db = Ret it" "visited ListOrderNext it = kids m l (s, n) db"
    using Merkle_iter_kids [of m l s n db] by blast
  with dec [of "kids m l (s, n) db"] kids_decode [OF assms] show ?thesis
    by (simp add: GetMerkleTreeListCore_def)
qed

lemma list_all2_member: "list_all2 P xs ys \<Longrightarrow> x \<in> set xs \<Longrightarrow> \<exists>y \<in> set ys. P x y"
  by (induction rule: list_all2_induct) auto

definition tree_ok :: "merkle_env \<Rightarrow> Merkle \<Rightarrow> LDBDatabase \<Rightarrow> bool" where
  "tree_ok E m db \<longleftrightarrow> length (ldb_kvs db) < 2 ^ 32 \<and> (\<forall>l \<in> tree_levels. \<forall>u. ts_dom u \<longrightarrow> node_ok E m db l u)"

lemma kids_short: "length (kids m l r db) \<le> length (ldb_kvs db)"
  by (simp add: kids_def)

text \<open>Where a node's period has a child, the node is stored under its key.\<close>

lemma node_stored:
  assumes "tree_ok E m db" "l \<in> tree_levels" "ts_dom u" "kv \<in> set (kids m (l - 1) (bucket l u) db)"
  shows "\<exists>b. (mkey m l (fst (bucket l u)), b) \<in> set (ldb_kvs db) \<and>
    Node_Marshal (node_of_kids E l (fst (bucket l u)) (kids m (l - 1) (bucket l u) db)) = Ret b"
proof -
  have "length (kids m (l - 1) (bucket l u) db) < 2 ^ 32"
    using assms(1) kids_short [of m "l - 1" "bucket l u" db] by (simp add: tree_ok_def)
  moreover have "kids m (l - 1) (bucket l u) db \<noteq> []" using assms(4) by auto
  moreover have "node_ok E m db l u" using assms(1-3) by (simp add: tree_ok_def)
  ultimately obtain b where "ldb_view db (mkey m l (fst (bucket l u))) = Some b"
    "Node_Marshal (node_of_kids E l (fst (bucket l u)) (kids m (l - 1) (bucket l u) db)) = Ret b"
    by (auto simp: node_ok_def Let_def)
  then show ?thesis by (auto simp: ldb_view_def dest: map_of_SomeD)
qed

lemma key_in_kids:
  assumes "(mkey m l t, b) \<in> set (ldb_kvs db)" "ts_key t" "ts_key s" "ts_key n" "s \<le> t" "t < n"
  shows "(mkey m l t, b) \<in> set (kids m l (s, n) db)"
  using assms by (simp add: kids_def)

text \<open>The chain from an entry of the log up to the year.\<close>

lemma parent_stored:
  assumes "tree_ok E m db" "l \<in> tree_levels" "l' \<in> tree_levels" "l' - 1 = l" "ts_dom u"
    "(mkey m l (fst (bucket l u)), b) \<in> set (ldb_kvs db)"
  shows "\<exists>b. (mkey m l' (fst (bucket l' u)), b) \<in> set (ldb_kvs db)"
proof -
  let ?s = "fst (bucket l u)"
  have "bucket l' ?s = bucket l' u" by (rule coarser_of_start [OF assms(2-5)])
  then have "fst (bucket l' u) \<le> ?s" "?s < snd (bucket l' u)"
    using level_start [OF assms(3) level_dom [OF assms(2,5)]] level_next [OF assms(3) level_dom [OF assms(2,5)]]
    by simp_all
  then have "(mkey m l ?s, b) \<in> set (kids m l (bucket l' u) db)"
    using key_in_kids [OF assms(6) level_keys(1) [OF assms(2,5)] level_keys [OF assms(3,5)]] by simp
  then show ?thesis using node_stored [OF assms(1,3,5)] assms(4) by blast
qed

end
