(* ===== verification/Merkle_Upkeep.thy ===== *)
theory Merkle_Upkeep
  imports Merkle_Trees
begin

text \<open>
  What the Merkle tree over time promises: rewriting the path of a time repairs exactly that path, a run
  of the generator repairs every pending hour, pending hours survive a restart, and the list of nodes
  before a time accounts for every entry of the log before it.
\<close>

subsection \<open>Coverage of the list of nodes\<close>

lemma earlier_start:
  assumes "l \<in> tree_levels" "ts_dom u" "ts_dom ts" "u < ts" "bucket l u \<noteq> bucket l ts"
  shows "fst (bucket l u) < fst (bucket l ts)"
proof -
  have "snd (bucket l u) \<le> fst (bucket l ts)"
    by (rule time_bucket.bucket_separated [OF tree_level_bucket [OF assms(1)] assms(2-5)])
  moreover have "fst (bucket l u) < snd (bucket l u)"
    using level_start [OF assms(1,2)] level_next [OF assms(1,2)] by (rule order.strict_trans1)
  ultimately show ?thesis by order
qed

abbreviation decoded :: "kv_list \<Rightarrow> MerkleNode list \<Rightarrow> bool" where
  "decoded \<equiv> list_all2 (\<lambda>kv nd. Node_Unmarshal (snd kv) = Ret nd)"

definition covers :: "MerkleNode \<Rightarrow> Timestamp \<Rightarrow> bool" where
  "covers n u \<longleftrightarrow> node_Level n \<in> tree_levels \<and> node_UpdateTS n = fst (bucket (node_Level n) u)"

text \<open>A stored node of the level whose start lies in the listed range is in the list.\<close>

lemma listed_node:
  assumes "tree_ok E m db" "nodes_ok m db" "\<forall>b. length (env_keccak E b) = 32"
    "l \<in> tree_levels" "ts_dom u" "kv \<in> set (kids m (l - 1) (bucket l u) db)"
    "ts_key s" "ts_key n" "s \<le> fst (bucket l u)" "fst (bucket l u) < n"
    and ns: "decoded (kids m l (s, n) db) ns"
  shows "\<exists>nd \<in> set ns. covers nd u"
proof -
  let ?s = "fst (bucket l u)" and ?K = "kids m (l - 1) (bucket l u) db"
  obtain b where b: "(mkey m l ?s, b) \<in> set (ldb_kvs db)" "Node_Marshal (node_of_kids E l ?s ?K) = Ret b"
    using node_stored [OF assms(1,4-6)] by blast
  have "node_wf (node_of_kids E l ?s ?K)"
    using length_types_Addr [OF assms(3)] ts_key_ok [OF level_keys(1) [OF assms(4,5)]]
    by (simp add: node_wf_def node_of_kids_def)
  then have dec: "Node_Unmarshal b = Ret (node_of_kids E l ?s ?K)"
    using b(2) Node_Unmarshal_Marshal unfolding Node_Marshal_eq by auto
  have "(mkey m l ?s, b) \<in> set (kids m l (s, n) db)"
    by (rule key_in_kids [OF b(1) level_keys(1) [OF assms(4,5)] assms(7-10)])
  then obtain nd where "nd \<in> set ns" "Node_Unmarshal b = Ret nd"
    using list_all2_member [OF ns] by fastforce
  moreover from this dec have "nd = node_of_kids E l ?s ?K" by simp
  then have "covers nd u" using assms(4) by (simp add: covers_def node_of_kids_def)
  ultimately show ?thesis by blast
qed

lemma hour_kid:
  assumes "(mkey m MerkleTreeLevelNow u @ r, v) \<in> set (ldb_kvs db)" "ts_key u" "ts_key s" "ts_key n"
    "s \<le> u" "u < n"
  shows "(mkey m MerkleTreeLevelNow u @ r, v) \<in> set (kids m MerkleTreeLevelNow (s, n) db)"
proof -
  have "Timestamp_Marshal s \<le> Timestamp_Marshal u @ r"
    using assms(2,3,5) le_append_self [of "Timestamp_Marshal u" r] by (metis marshal_order(1) order_trans)
  moreover have "Timestamp_Marshal u @ r < Timestamp_Marshal n"
    using assms(2,4,6) append_less_append_eq_length [of "Timestamp_Marshal u" "Timestamp_Marshal n" r "[]"]
    by simp
  ultimately show ?thesis using assms(1) by (simp add: kids_def)
qed

definition has_kid :: "Merkle \<Rightarrow> LDBDatabase \<Rightarrow> MerkleTreeLevel \<Rightarrow> Timestamp \<Rightarrow> bool" where
  "has_kid m db l u \<longleftrightarrow> kids m (l - 1) (bucket l u) db \<noteq> []"

lemma has_kid_hour:
  assumes "(mkey m MerkleTreeLevelNow u @ r, v) \<in> set (ldb_kvs db)" "ts_dom u"
  shows "has_kid m db MerkleTreeLevelHR u"
proof -
  have hr: "MerkleTreeLevelHR \<in> tree_levels" by (simp add: tree_levels_def)
  have "(mkey m MerkleTreeLevelNow u @ r, v) \<in>
    set (kids m MerkleTreeLevelNow (fst (bucket MerkleTreeLevelHR u), snd (bucket MerkleTreeLevelHR u)) db)"
    by (rule hour_kid [OF assms(1) ts_dom_key [OF assms(2)] level_keys [OF hr assms(2)]
          level_start [OF hr assms(2)] level_next [OF hr assms(2)]])
  then show ?thesis unfolding has_kid_def level_preds by auto
qed

lemma has_kid_up:
  assumes "tree_ok E m db" "l \<in> tree_levels" "l' \<in> tree_levels" "l' - 1 = l" "ts_dom u" "has_kid m db l u"
  shows "has_kid m db l' u"
proof -
  let ?s = "fst (bucket l u)"
  obtain kv where "kv \<in> set (kids m (l - 1) (bucket l u) db)"
    using assms(6) hd_in_set unfolding has_kid_def by blast
  then obtain b where b: "(mkey m l ?s, b) \<in> set (ldb_kvs db)"
    using node_stored [OF assms(1,2,5)] by blast
  have "bucket l' ?s = bucket l' u" by (rule coarser_of_start [OF assms(2-5)])
  then have "fst (bucket l' u) \<le> ?s" "?s < snd (bucket l' u)"
    using level_start [OF assms(3) level_dom [OF assms(2,5)]] level_next [OF assms(3) level_dom [OF assms(2,5)]]
    by simp_all
  then have "(mkey m l ?s, b) \<in> set (kids m l (bucket l' u) db)"
    using key_in_kids [OF b level_keys(1) [OF assms(2,5)] level_keys [OF assms(3,5)]] by simp
  then show ?thesis using assms(4) by (auto simp: has_kid_def)
qed

lemma has_kid_all:
  assumes "tree_ok E m db" "ts_dom u" "(mkey m MerkleTreeLevelNow u @ r, v) \<in> set (ldb_kvs db)" "l \<in> tree_levels"
  shows "has_kid m db l u"
proof -
  have lev: "MerkleTreeLevelHR \<in> tree_levels" "MerkleTreeLevelDay \<in> tree_levels"
    "MerkleTreeLevelMonth \<in> tree_levels" "MerkleTreeLevelYear \<in> tree_levels"
    by (simp_all add: tree_levels_def)
  note hr = has_kid_hour [OF assms(3,2)]
  note day = has_kid_up [OF assms(1) lev(1,2) level_preds(2) assms(2) hr]
  note month = has_kid_up [OF assms(1) lev(2,3) level_preds(3) assms(2) day]
  note year = has_kid_up [OF assms(1) lev(3,4) level_preds(4) assms(2) month]
  show ?thesis using assms(4) hr day month year by (auto simp: tree_levels_def)
qed

text \<open>A time before \<open>ts\<close> shares the hour of \<open>ts\<close>, or starts earlier at some level under a shared coarser period.\<close>

lemma earlier_level:
  assumes "ts_dom u" "ts_dom ts" "u < ts"
  obtains "bucket MerkleTreeLevelHR u = bucket MerkleTreeLevelHR ts"
  | "fst (bucket MerkleTreeLevelDay ts) \<le> fst (bucket MerkleTreeLevelHR u)"
    "fst (bucket MerkleTreeLevelHR u) < fst (bucket MerkleTreeLevelHR ts)"
  | "fst (bucket MerkleTreeLevelMonth ts) \<le> fst (bucket MerkleTreeLevelDay u)"
    "fst (bucket MerkleTreeLevelDay u) < fst (bucket MerkleTreeLevelDay ts)"
  | "fst (bucket MerkleTreeLevelYear ts) \<le> fst (bucket MerkleTreeLevelMonth u)"
    "fst (bucket MerkleTreeLevelMonth u) < fst (bucket MerkleTreeLevelMonth ts)"
  | "fst (bucket MerkleTreeLevelYear u) < fst (bucket MerkleTreeLevelYear ts)"
proof -
  have lev: "MerkleTreeLevelHR \<in> tree_levels" "MerkleTreeLevelDay \<in> tree_levels"
    "MerkleTreeLevelMonth \<in> tree_levels" "MerkleTreeLevelYear \<in> tree_levels"
    by (simp_all add: tree_levels_def)
  note earlier = earlier_start [OF _ assms]
  show ?thesis
    using that earlier [OF lev(1)] earlier [OF lev(2)] earlier [OF lev(3)] earlier [OF lev(4)]
      hr_day.nested [OF assms(1)] day_month.nested [OF assms(1)] month_year.nested [OF assms(1)]
    unfolding level_range_simps by metis
qed

lemma GetMerkleTreeList_eq:
  assumes "nodes_ok m db" "env_offs E = 0"
  shows "\<exists>years months days hrs nows.
    GetMerkleTreeList E m ts True db = Ret (years @ months @ days @ hrs, nows) \<and>
    decoded (kids m MerkleTreeLevelYear (ZeroTimestamp, fst (bucket MerkleTreeLevelYear ts)) db) years \<and>
    decoded (kids m MerkleTreeLevelMonth (fst (bucket MerkleTreeLevelYear ts), fst (bucket MerkleTreeLevelMonth ts)) db) months \<and>
    decoded (kids m MerkleTreeLevelDay (fst (bucket MerkleTreeLevelMonth ts), fst (bucket MerkleTreeLevelDay ts)) db) days \<and>
    decoded (kids m MerkleTreeLevelHR (fst (bucket MerkleTreeLevelDay ts), fst (bucket MerkleTreeLevelHR ts)) db) hrs \<and>
    decoded (kids m MerkleTreeLevelNow (fst (bucket MerkleTreeLevelHR ts), ts) db) nows"
proof -
  note core = GetMerkleTreeListCore_eq [OF assms(1)]
  obtain years months days hrs nows where
    "GetMerkleTreeListCore m MerkleTreeLevelYear ZeroTimestamp (fst (ToYearTimestamp 0 ts)) db = Ret years"
    "decoded (kids m MerkleTreeLevelYear (ZeroTimestamp, fst (ToYearTimestamp 0 ts)) db) years"
    "GetMerkleTreeListCore m MerkleTreeLevelMonth (fst (ToYearTimestamp 0 ts)) (fst (ToMonthTimestamp 0 ts)) db = Ret months"
    "decoded (kids m MerkleTreeLevelMonth (fst (ToYearTimestamp 0 ts), fst (ToMonthTimestamp 0 ts)) db) months"
    "GetMerkleTreeListCore m MerkleTreeLevelDay (fst (ToMonthTimestamp 0 ts)) (fst (ToDayTimestamp ts)) db = Ret days"
    "decoded (kids m MerkleTreeLevelDay (fst (ToMonthTimestamp 0 ts), fst (ToDayTimestamp ts)) db) days"
    "GetMerkleTreeListCore m MerkleTreeLevelHR (fst (ToDayTimestamp ts)) (fst (ToHRTimestamp ts)) db = Ret hrs"
    "decoded (kids m MerkleTreeLevelHR (fst (ToDayTimestamp ts), fst (ToHRTimestamp ts)) db) hrs"
    "GetMerkleTreeListCore m MerkleTreeLevelNow (fst (ToHRTimestamp ts)) ts db = Ret nows"
    "decoded (kids m MerkleTreeLevelNow (fst (ToHRTimestamp ts), ts) db) nows"
    using core [of MerkleTreeLevelYear ZeroTimestamp "fst (ToYearTimestamp 0 ts)"]
      core [of MerkleTreeLevelMonth "fst (ToYearTimestamp 0 ts)" "fst (ToMonthTimestamp 0 ts)"]
      core [of MerkleTreeLevelDay "fst (ToMonthTimestamp 0 ts)" "fst (ToDayTimestamp ts)"]
      core [of MerkleTreeLevelHR "fst (ToDayTimestamp ts)" "fst (ToHRTimestamp ts)"]
      core [of MerkleTreeLevelNow "fst (ToHRTimestamp ts)" ts]
    by (elim exE conjE) blast
  then show ?thesis
    by (intro exI [of _ years] exI [of _ months] exI [of _ days] exI [of _ hrs] exI [of _ nows])
      (simp add: GetMerkleTreeList_def assms(2) Let_def)
qed

lemma list_covers:
  assumes tree: "tree_ok E m db" "nodes_ok m db" and E: "\<forall>b. length (env_keccak E b) = 32" "env_offs E = 0"
    and dom: "ts_dom u" "ts_dom ts" "u < ts" and entry: "(mkey m MerkleTreeLevelNow u @ r, v) \<in> set (ldb_kvs db)"
  shows "\<exists>ns nows. GetMerkleTreeList E m ts True db = Ret (ns, nows) \<and>
    ((\<exists>nd \<in> set ns. covers nd u) \<or> (\<exists>nd \<in> set nows. Node_Unmarshal v = Ret nd))"
proof -
  obtain years months days hrs nows where run:
    "GetMerkleTreeList E m ts True db = Ret (years @ months @ days @ hrs, nows)"
    "decoded (kids m MerkleTreeLevelYear (ZeroTimestamp, fst (bucket MerkleTreeLevelYear ts)) db) years"
    "decoded (kids m MerkleTreeLevelMonth (fst (bucket MerkleTreeLevelYear ts), fst (bucket MerkleTreeLevelMonth ts)) db) months"
    "decoded (kids m MerkleTreeLevelDay (fst (bucket MerkleTreeLevelMonth ts), fst (bucket MerkleTreeLevelDay ts)) db) days"
    "decoded (kids m MerkleTreeLevelHR (fst (bucket MerkleTreeLevelDay ts), fst (bucket MerkleTreeLevelHR ts)) db) hrs"
    "decoded (kids m MerkleTreeLevelNow (fst (bucket MerkleTreeLevelHR ts), ts) db) nows"
    using GetMerkleTreeList_eq [OF tree(2) E(2)] by blast
  have lev: "MerkleTreeLevelHR \<in> tree_levels" "MerkleTreeLevelDay \<in> tree_levels"
    "MerkleTreeLevelMonth \<in> tree_levels" "MerkleTreeLevelYear \<in> tree_levels"
    by (simp_all add: tree_levels_def)
  have key: "ts_key (fst (bucket l ts))" if "l \<in> tree_levels" for l
    using level_keys(1) [OF that dom(2)] .
  have zero: "ts_key ZeroTimestamp" "ZeroTimestamp \<le> t" if "ts_dom t" for t
    using that by (auto simp: ts_key_def ts_dom_def in_i64_def ZeroTimestamp_def mkTs0_le_iff)
  have listed: "\<exists>nd \<in> set ns. covers nd u"
    if "l \<in> tree_levels" "ts_key s" "ts_key n" "s \<le> fst (bucket l u)" "fst (bucket l u) < n"
      "decoded (kids m l (s, n) db) ns" for l s n ns
  proof -
    have "kids m (l - 1) (bucket l u) db \<noteq> []"
      using has_kid_all [OF tree(1) dom(1) entry that(1)] by (simp add: has_kid_def)
    from listed_node [OF tree E(1) that(1) dom(1) hd_in_set [OF this] that(2-6)] show ?thesis .
  qed
  show ?thesis
  proof (rule earlier_level [OF dom])
    assume same: "bucket MerkleTreeLevelHR u = bucket MerkleTreeLevelHR ts"
    have "(mkey m MerkleTreeLevelNow u @ r, v) \<in> set (kids m MerkleTreeLevelNow (fst (bucket MerkleTreeLevelHR ts), ts) db)"
      using hour_kid [OF entry ts_dom_key [OF dom(1)] key [OF lev(1)] ts_dom_key [OF dom(2)] _ dom(3)]
        level_start [OF lev(1) dom(1)] same by simp
    from list_all2_member [OF run(6) this] run(1) show ?thesis by auto
  next
    assume "fst (bucket MerkleTreeLevelDay ts) \<le> fst (bucket MerkleTreeLevelHR u)"
      "fst (bucket MerkleTreeLevelHR u) < fst (bucket MerkleTreeLevelHR ts)"
    from listed [OF lev(1) key [OF lev(2)] key [OF lev(1)] this run(5)] run(1) show ?thesis by auto
  next
    assume "fst (bucket MerkleTreeLevelMonth ts) \<le> fst (bucket MerkleTreeLevelDay u)"
      "fst (bucket MerkleTreeLevelDay u) < fst (bucket MerkleTreeLevelDay ts)"
    from listed [OF lev(2) key [OF lev(3)] key [OF lev(2)] this run(4)] run(1) show ?thesis by auto
  next
    assume "fst (bucket MerkleTreeLevelYear ts) \<le> fst (bucket MerkleTreeLevelMonth u)"
      "fst (bucket MerkleTreeLevelMonth u) < fst (bucket MerkleTreeLevelMonth ts)"
    from listed [OF lev(3) key [OF lev(4)] key [OF lev(3)] this run(3)] run(1) show ?thesis by auto
  next
    assume "fst (bucket MerkleTreeLevelYear u) < fst (bucket MerkleTreeLevelYear ts)"
    from listed [OF lev(4) zero(1) [OF dom(1)] key [OF lev(4)] zero(2) [OF level_dom [OF lev(4) dom(1)]] this run(2)]
      run(1) show ?thesis by auto
  qed
qed

subsection \<open>An environment that satisfies the assumptions\<close>

definition int_code :: "int \<Rightarrow> nat" where
  "int_code x = (if 0 \<le> x then nat (2 * x) else nat (- 2 * x - 1))"

definition int_uncode :: "nat \<Rightarrow> int" where
  "int_uncode n = (if even n then int (n div 2) else - int (n div 2) - 1)"

lemma int_uncode_code [simp]: "int_uncode (int_code x) = x"
  by (auto simp: int_uncode_def int_code_def even_nat_iff nat_div_distrib)

definition ints_enc :: "int list \<Rightarrow> bytes" where
  "ints_enc xs = concat (map (\<lambda>x. replicate (int_code x) 0 @ [1]) xs)"

fun ints_dec :: "nat \<Rightarrow> bytes \<Rightarrow> int list" where
  "ints_dec n [] = []"
| "ints_dec n (b # bs) = (if b = 0 then ints_dec (Suc n) bs else int_uncode n # ints_dec 0 bs)"

lemma ints_dec_one: "ints_dec k (replicate n 0 @ 1 # bs) = int_uncode (k + n) # ints_dec 0 bs"
  by (induction n arbitrary: k) simp_all

lemma ints_dec_enc [simp]: "ints_dec 0 (ints_enc xs) = xs"
  by (induction xs) (simp_all add: ints_enc_def ints_dec_one)

definition example_env :: merkle_env where
  "example_env =
     \<lparr>env_keccak = (\<lambda>b. replicate 32 (word_of_nat (length b))), env_offs = 0,
      env_ts_enc = (\<lambda>t. Inr (ints_enc [Ts t, int (unat (NanoTs t))])),
      env_dbable = (\<lambda>b. case ints_dec 0 b of [x, y] \<Rightarrow> Some (mkTs x (word_of_int y)) | _ \<Rightarrow> None),
      env_list_enc = (\<lambda>xs. Inr (ints_enc xs)), env_list_dec = (\<lambda>b. Some (ints_dec 0 b)),
      env_order = rev\<rparr>"

lemma example_env_ok: "env_ok example_env"
  by (simp add: env_ok_def example_env_def)

definition example_merkle :: Merkle where
  "example_merkle =
     \<lparr>mk_DBOplogPrefix = [46, 76, 71, 111, 112], mk_DBMerklePrefix = [46, 76, 71, 109, 108],
      mk_metaPrefix = [46, 76, 71, 109, 116], mk_toUpdatePrefixWithID = [46, 76, 71, 77, 116] @ replicate 40 7,
      mk_updatingPrefixWithID = [46, 76, 71, 77, 84] @ replicate 40 7, mk_PrefixID = replicate 40 7,
      mk_LastGenerateTS = ZeroTimestamp, mk_BusyGenerateTS = ZeroTimestamp, mk_LastSyncTS = ZeroTimestamp,
      mk_LastFailSyncTS = ZeroTimestamp, mk_ExpireGenerateSeconds = ExpireGenerateOplogMerkleTreeSeconds,
      mk_isBusyForceSync = False, mk_toUpdateTS = [3600]\<rparr>"

lemma example_merkle_wf: "merkle_wf example_merkle"
  by (simp add: merkle_wf_def example_merkle_def DBMerkleMetaPostfix_def DBMerkleToUpdatePostfix_def
      DBMerkleUpdatingPostfix_def)

text \<open>One entry of the log, at second 4000, whose hour is still to be summarised.\<close>

definition example_entry :: "bytes \<times> bytes" where
  "example_entry =
     (mkey example_merkle MerkleTreeLevelNow (mkTs 4000 0) @ [5],
      case Node_Marshal (example_node MerkleTreeLevelNow 4000 0 9) of Ret b \<Rightarrow> b | _ \<Rightarrow> [])"

definition example_tree :: LDBDatabase where
  "example_tree = NewLDBDatabase (\<lambda>_ _. None) [example_entry]"

lemma example_entry_decodes:
  "Node_Unmarshal (snd example_entry) = Ret (example_node MerkleTreeLevelNow 4000 0 9)"
proof -
  have "node_wf (example_node MerkleTreeLevelNow 4000 0 9)"
    by (simp add: node_wf_def example_node_def ts_ok_def in_i64_def)
  from Node_Unmarshal_Marshal [OF this] show ?thesis
    by (simp add: example_entry_def Node_Marshal_eq)
qed

lemma example_tree_ready: "merkle_ready example_env example_merkle example_tree"
proof -
  have "gen_key example_merkle \<noteq> fst example_entry"
    using gen_key_apart [OF example_merkle_wf] by (auto simp: example_entry_def HasPrefix_iff)
  then show ?thesis
    using example_entry_decodes
    by (auto simp: merkle_ready_def example_tree_def NewLDBDatabase_def no_fault_def nodes_ok_def ldb_view_def
        split: if_splits)
qed

lemma example_dom: "ts_dom (mkTs 4000 0)" "ts_dom (mkTs 8000 0)"
  by (simp_all add: ts_dom_def)

subsection \<open>Properties\<close>

text \<open>
  C14: rewriting the path of a time succeeds, releases its lock, keeps every value under the prefix a
  node, and leaves the hour, day, month and year nodes of that time in agreement with their children,
  while every other node that agreed with its children still does. Nothing is written outside the
  summary but the generate time: the entries of the log stay as they are.
\<close>

theorem save_merkle_tree_path:
  assumes "env_ok E" "merkle_wf m" "merkle_ready E m db" "ts_dom ts"
  shows "\<exists>t db'. SaveMerkleTree E ts m db = (Ret (m\<lparr>mk_LastGenerateTS := t\<rparr>), db') \<and>
    merkle_ready E m db' \<and> ldb_locks db' = ldb_locks db \<and>
    (\<forall>l \<in> tree_levels. \<forall>v. ts_dom v \<longrightarrow>
       bucket l v = bucket l ts \<or> node_ok E m db l v \<longrightarrow> node_ok E m db' l v) \<and>
    (\<forall>k. off_tree m k \<longrightarrow> k \<noteq> gen_key m \<longrightarrow> ldb_view db' k = ldb_view db k)"
proof -
  obtain t db' where run: "SaveMerkleTree E ts m db = (Ret (m\<lparr>mk_LastGenerateTS := t\<rparr>), db')"
    "merkle_ready E m db'" "ldb_locks db' = ldb_locks db" "path_upto E m ts db db' MerkleTreeLevelYear"
    "outside m db db'"
    using SaveMerkleTree_ok [OF assms(1,2,4,3)] by blast
  moreover have "\<forall>l \<in> tree_levels. \<forall>v. ts_dom v \<longrightarrow>
    bucket l v = bucket l ts \<or> node_ok E m db l v \<longrightarrow> node_ok E m db' l v"
    using path_upto_year [OF run(4)] by blast
  ultimately show ?thesis using run(5) unfolding outside_def by blast
qed

theorem save_merkle_tree_path_witness:
  "\<exists>t db'. SaveMerkleTree example_env (mkTs 4000 0) example_merkle example_tree =
     (Ret (example_merkle\<lparr>mk_LastGenerateTS := t\<rparr>), db') \<and>
     node_ok example_env example_merkle db' MerkleTreeLevelYear (mkTs 4000 0)"
proof -
  have "MerkleTreeLevelYear \<in> tree_levels" by (simp add: tree_levels_def)
  with save_merkle_tree_path [OF example_env_ok example_merkle_wf example_tree_ready example_dom(1)] example_dom(1)
  show ?thesis by blast
qed

text \<open>
  C16: one run of the generator on a live entity that is not busy takes every pending hour, in whatever
  order the map yields them, and leaves nothing pending in memory or on disk; afterwards every node
  agrees with its children that did before or that lies on the path of a pending hour.
\<close>

theorem generate_repairs_pending:
  assumes "env_ok E" "merkle_wf m" "merkle_ready E m db" "\<not> fst (pmGenerateOplogMerkleTreeIsBusy now m)"
    and "distinct (mk_toUpdateTS m)" "\<forall>x \<in> set (mk_toUpdateTS m). ts_dom (mkTs x 0)"
  shows "\<exists>m' db'. pmGenerateOplogMerkleTree E StatusAlive (Ret now) (m, db) = (Ret (), m', db') \<and>
    mk_toUpdateTS m' = [] \<and> mk_BusyGenerateTS m' = ZeroTimestamp \<and>
    (\<forall>k. HasPrefix k (mk_toUpdatePrefixWithID m) \<longrightarrow> ldb_view db' k = None) \<and>
    ldb_view db' (MarshalUpdatingKey m) = None \<and>
    (\<forall>l \<in> tree_levels. \<forall>v. ts_dom v \<longrightarrow>
       (\<exists>x \<in> set (mk_toUpdateTS m). bucket l v = bucket l (mkTs x 0)) \<or> node_ok E m db l v \<longrightarrow>
       node_ok E m db' l v)"
proof -
  note facts = update_prefix_facts [OF assms(2)]
  obtain m1 where busy: "pmGenerateOplogMerkleTreeIsBusy now m = (False, m1)" and
    m1: "same_keys m m1" "mk_toUpdateTS m1 = mk_toUpdateTS m"
    using assms(4) by (auto simp: pmGenerateOplogMerkleTreeIsBusy_def same_keys_def Let_def split: if_splits)
  define m2 where "m2 = m1\<lparr>mk_BusyGenerateTS := now\<rparr>"
  have m2: "same_keys m m2" "mk_toUpdateTS m2 = mk_toUpdateTS m"
    using m1 by (simp_all add: m2_def same_keys_def)
  note cong2 = same_keys_cong [OF m2(1)]
  have keys2: "mk_toUpdatePrefixWithID m2 = mk_toUpdatePrefixWithID m" "MarshalUpdatingKey m2 = MarshalUpdatingKey m"
    "gen_key m2 = gen_key m"
    using m2(1) by (simp_all add: same_keys_def MarshalUpdatingKey_def)
  have i64: "\<forall>x \<in> set (mk_toUpdateTS m2). in_i64 x"
    using assms(6) m2(2) by (auto simp: ts_dom_def in_i64_def)
  obtain xs b db1 where g: "GetAndResetToUpdateTSList E (m2, db) = (Ret xs, m2\<lparr>mk_toUpdateTS := []\<rparr>, db1)"
    "set xs = set (mk_toUpdateTS m)" "merkle_ready E m db1" "\<forall>l u. node_ok E m db l u \<longrightarrow> node_ok E m db1 l u"
    "ldb_view db1 = (\<lambda>k. if HasPrefix k (mk_toUpdatePrefixWithID m) then None
       else ((ldb_view db)(MarshalUpdatingKey m \<mapsto> b)) k)"
    using GetAndReset_ok [OF assms(1), of m2 db] assms(2,3,5) i64 unfolding cong2 keys2 m2(2) by blast
  define m3 where "m3 = m2\<lparr>mk_toUpdateTS := []\<rparr>"
  have m3: "same_keys m m3" using m2(1) by (simp add: m3_def same_keys_def)
  note cong3 = same_keys_cong [OF m3]
  have gen3: "gen_key m3 = gen_key m" using m3 by (simp add: same_keys_def)
  obtain m4 db2 where s: "save_all E xs m3 db1 = (Ret (), m4, db2)" "mk_toUpdateTS m4 = []" "same_keys m3 m4"
    "merkle_ready E m db2" "outside m3 db1 db2"
    "\<forall>l \<in> tree_levels. \<forall>v. ts_dom v \<longrightarrow>
       (\<exists>x \<in> set xs. bucket l v = bucket l (mkTs x 0)) \<or> node_ok E m db1 l v \<longrightarrow> node_ok E m db2 l v"
    using save_all_ok [OF assms(1), of m3 xs db1] assms(2,6) g(2,3) unfolding cong3 by (auto simp: m3_def)
  define db3 where "db3 = ResetUpdatingTSList m4 db2"
  have upd4: "MarshalUpdatingKey m4 = MarshalUpdatingKey m"
    using m3 s(3) by (simp add: same_keys_def MarshalUpdatingKey_def)
  have db3: "db3 = db2\<lparr>ldb_kvs := kv_del (MarshalUpdatingKey m) (ldb_kvs db2)\<rparr>"
    using s(4) upd4 by (simp add: db3_def ResetUpdatingTSList_def Ldb_Delete_def merkle_ready_def no_fault_def)
  have w: "wrote (MarshalUpdatingKey m) db2 db3" by (auto simp: wrote_def db3)
  have run: "pmGenerateOplogMerkleTree E StatusAlive (Ret now) (m, db) =
    (Ret (), m4\<lparr>mk_BusyGenerateTS := ZeroTimestamp\<rparr>, db3)"
    by (simp add: pmGenerateOplogMerkleTree_def busy m2_def [symmetric] g(1) m3_def [symmetric] s(1) db3_def)
  have gone: "ldb_view db3 k = None" if "HasPrefix k (mk_toUpdatePrefixWithID m)" for k
  proof -
    have "\<not> HasPrefix k (DBPrefix m)" "k \<noteq> gen_key m" "k \<noteq> MarshalUpdatingKey m"
      using that facts by auto
    then have "ldb_view db3 k = ldb_view db1 k"
      using wrote_view [OF w] s(5) cong3(1) gen3 off_tree_prefix [of k m]
      by (simp add: outside_def off_tree_def)
    then show ?thesis using that by (simp add: g(5))
  qed
  have "\<forall>l \<in> tree_levels. \<forall>v. ts_dom v \<longrightarrow>
    (\<exists>x \<in> set (mk_toUpdateTS m). bucket l v = bucket l (mkTs x 0)) \<or> node_ok E m db l v \<longrightarrow> node_ok E m db3 l v"
    using s(6) g(2,4) wrote_apart(1) [OF w facts(5)] by blast
  moreover have "ldb_view db3 (MarshalUpdatingKey m) = None" by (simp add: db3 ldb_view_def)
  ultimately show ?thesis using run gone s(2) by auto
qed

theorem generate_repairs_pending_witness:
  "\<exists>m' db'. pmGenerateOplogMerkleTree example_env StatusAlive (Ret (mkTs 9000 0)) (example_merkle, example_tree) =
     (Ret (), m', db') \<and> mk_toUpdateTS m' = [] \<and>
     node_ok example_env example_merkle db' MerkleTreeLevelHR (mkTs 4000 0)"
proof -
  have hr: "MerkleTreeLevelHR \<in> tree_levels" by (simp add: tree_levels_def)
  have pend: "mk_toUpdateTS example_merkle = [3600]" "\<not> fst (pmGenerateOplogMerkleTreeIsBusy (mkTs 9000 0) example_merkle)"
    by (simp_all add: example_merkle_def pmGenerateOplogMerkleTreeIsBusy_def)
  have same: "bucket MerkleTreeLevelHR (mkTs 4000 0) = bucket MerkleTreeLevelHR (mkTs 3600 0)"
    by (simp add: ToHR_eq ts_dom_def)
  have "distinct (mk_toUpdateTS example_merkle)" "\<forall>x \<in> set (mk_toUpdateTS example_merkle). ts_dom (mkTs x 0)"
    by (simp_all add: pend(1) ts_dom_def)
  from generate_repairs_pending [OF example_env_ok example_merkle_wf example_tree_ready pend(2) this]
  obtain m' db' where "pmGenerateOplogMerkleTree example_env StatusAlive (Ret (mkTs 9000 0)) (example_merkle, example_tree) =
     (Ret (), m', db')" "mk_toUpdateTS m' = []"
    "(\<exists>x \<in> {3600}. bucket MerkleTreeLevelHR (mkTs 4000 0) = bucket MerkleTreeLevelHR (mkTs x 0)) \<longrightarrow>
       node_ok example_env example_merkle db' MerkleTreeLevelHR (mkTs 4000 0)"
    using hr example_dom(1) unfolding pend(1) by auto
  with same show ?thesis by blast
qed

text \<open>
  C15: when the tree is in order, the list of nodes before a time accounts for every entry of the log
  before it: the hour, day, month or year of the entry is listed, or the entry itself.
\<close>

theorem tree_list_covers:
  assumes "tree_ok E m db" "nodes_ok m db" "env_ok E" "ts_dom u" "ts_dom ts" "IsLess u ts"
    and "ldb_view db (mkey m MerkleTreeLevelNow u @ r) = Some v"
  shows "\<exists>ns nows. GetMerkleTreeList E m ts True db = Ret (ns, nows) \<and>
    ((\<exists>nd \<in> set ns. covers nd u) \<or> (\<exists>nd \<in> set nows. Node_Unmarshal v = Ret nd))"
proof -
  have "\<forall>b. length (env_keccak E b) = 32" "env_offs E = 0" using assms(3) by (auto simp: env_ok_def)
  moreover have "(mkey m MerkleTreeLevelNow u @ r, v) \<in> set (ldb_kvs db)"
    using assms(7) unfolding ldb_view_def by (rule map_of_SomeD)
  ultimately show ?thesis using list_covers [OF assms(1,2) _ _ assms(4,5)] assms(6) by simp
qed

lemma example_no_kids:
  assumes "l \<in> tree_levels" "ts_dom v" "bucket l v \<noteq> bucket l (mkTs 4000 0)"
  shows "kids example_merkle (l - 1) (bucket l v) example_tree = []"
proof (rule ccontr)
  let ?t = "mkTs 4000 0"
  assume "kids example_merkle (l - 1) (bucket l v) example_tree \<noteq> []"
  then have in_r: "mkey example_merkle (l - 1) (fst (bucket l v)) \<le> mkey example_merkle MerkleTreeLevelNow ?t @ [5]"
    "mkey example_merkle MerkleTreeLevelNow ?t @ [5] < mkey example_merkle (l - 1) (snd (bucket l v))"
    by (auto simp: kids_def example_tree_def NewLDBDatabase_def example_entry_def split: if_splits)
  then have "l - 1 = MerkleTreeLevelNow" by auto
  have "Timestamp_Marshal (fst (bucket l v)) @ [] \<le> Timestamp_Marshal ?t @ [5]"
    "Timestamp_Marshal ?t @ [5] < Timestamp_Marshal (snd (bucket l v)) @ []"
    using in_r \<open>l - 1 = MerkleTreeLevelNow\<close> by auto
  then have "Timestamp_Marshal (fst (bucket l v)) \<le> Timestamp_Marshal ?t"
    "Timestamp_Marshal ?t < Timestamp_Marshal (snd (bucket l v))"
    unfolding not_less [symmetric]
    by (auto simp: append_less_append_eq_length simp del: append_Nil2)
  then have "fst (bucket l v) \<le> ?t" "?t < snd (bucket l v)"
    using level_keys [OF assms(1,2)] ts_dom_key [OF example_dom(1)] by simp_all
  with assms(3) level_eq [OF assms(1,2) example_dom(1)] show False by simp
qed

theorem tree_list_covers_witness:
  "\<exists>m db ns nows. tree_ok example_env m db \<and>
     ldb_view db (mkey m MerkleTreeLevelNow (mkTs 4000 0) @ [5]) \<noteq> None \<and>
     GetMerkleTreeList example_env m (mkTs 8000 0) True db = Ret (ns, nows) \<and>
     ((\<exists>nd \<in> set ns. covers nd (mkTs 4000 0)) \<or> nows \<noteq> [])"
proof -
  let ?m = example_merkle and ?k = "mkey example_merkle MerkleTreeLevelNow (mkTs 4000 0) @ [5]"
  obtain t db where run: "SaveMerkleTree example_env (mkTs 4000 0) ?m example_tree = (Ret (?m\<lparr>mk_LastGenerateTS := t\<rparr>), db)"
    "merkle_ready example_env ?m db" "path_upto example_env ?m (mkTs 4000 0) example_tree db MerkleTreeLevelYear"
    "outside ?m example_tree db" "length (ldb_kvs db) \<le> length (ldb_kvs example_tree) + 5"
    using SaveMerkleTree_ok [OF example_env_ok example_merkle_wf example_dom(1) example_tree_ready] by blast
  have "node_ok example_env ?m db l v" if l: "l \<in> tree_levels" and v: "ts_dom v" for l v
  proof (cases "bucket l v = bucket l (mkTs 4000 0)")
    case False
    have "ldb_view example_tree (mkey ?m l (fst (bucket l v))) = None"
    proof -
      have "length (fst example_entry) \<noteq> length (mkey ?m l (fst (bucket l v)))"
        by (simp add: example_entry_def)
      then have "fst example_entry \<noteq> mkey ?m l (fst (bucket l v))" by metis
      then show ?thesis by (auto simp: example_tree_def NewLDBDatabase_def ldb_view_def)
    qed
    then have "node_ok example_env ?m example_tree l v"
      by (simp add: node_ok_def example_no_kids [OF l v False])
    then show ?thesis using path_upto_year [OF run(3) l v] by blast
  qed (use path_upto_year [OF run(3) l v] in blast)
  then have tree: "tree_ok example_env ?m db"
    using run(5) by (simp add: tree_ok_def example_tree_def NewLDBDatabase_def)
  have "off_tree ?m ?k"
    by (auto simp: off_tree_def HasPrefix_iff tree_levels_def level_defs)
  moreover have "HasPrefix ?k (DBPrefix ?m)" by (simp add: HasPrefix_iff)
  then have "?k \<noteq> gen_key ?m" using gen_key_apart [OF example_merkle_wf] by metis
  ultimately have view: "ldb_view db ?k = Some (snd example_entry)"
    using run(4) by (simp add: outside_def example_tree_def NewLDBDatabase_def ldb_view_def example_entry_def)
  have "nodes_ok ?m db" "IsLess (mkTs 4000 0) (mkTs 8000 0)"
    using run(2) by (simp_all add: merkle_ready_def mkTs_less_iff)
  from tree_list_covers [OF tree this(1) example_env_ok example_dom this(2) view] tree view
  show ?thesis by (metis (no_types, lifting) empty_iff list.set(1) option.discI)
qed

text \<open>
  C17: nothing pending is lost at a restart. On a disk without faults the initialisation of the loop makes pending, in memory and on
  disk, exactly the hours marked for update together with the hours of the list an unfinished run had left. When there is
  no such list, or it cannot be decoded, the marked hours are pending all the same.
\<close>

theorem restart_recovers_pending:
  assumes "merkle_wf m" "no_fault db" "pending_ok m db" "same_keys m m0" "mk_toUpdateTS m0 = []"
    and "xs = (case ldb_view db (MarshalUpdatingKey m) of
                 None \<Rightarrow> []
               | Some b \<Rightarrow> (case env_list_dec E b of None \<Rightarrow> [] | Some ys \<Rightarrow> ys))"
    and "\<forall>x \<in> set xs. ts_dom (mkTs x 0) \<and> x mod 3600 = 0"
  shows "\<exists>m' db'. merkle_loop_init E (m0, db) = (Ret (), m', db') \<and> pending_ok m' db' \<and>
    set (mk_toUpdateTS m') = set xs \<union> set (mk_toUpdateTS m)"
proof -
  obtain m1 where m1: "LoadToUpdateTSs m0 db = Ret m1" "same_keys m m1" "set (mk_toUpdateTS m1) = set (mk_toUpdateTS m)"
    using LoadToUpdateTSs_ok [OF assms(1,3,4)] assms(5) by auto
  have "MarshalUpdatingKey m1 = MarshalUpdatingKey m"
    using m1(2) by (simp add: MarshalUpdatingKey_def same_keys_def)
  then have "LoadUpdatingTSList E m1 db = Ret xs \<or> xs = [] \<and> (\<forall>ys. LoadUpdatingTSList E m1 db \<noteq> Ret ys)"
    using assms(2,6) by (simp add: LoadUpdatingTSList_def Ldb_Get_def no_fault_def ldb_view_def split: option.split)
  then have init: "merkle_loop_init E (m0, db) = (Ret (), fold (\<lambda>sec. SetUpdateTS (mkTs sec 0)) xs (m1, db))"
    using m1(1) by (auto simp: merkle_loop_init_def split: res.split)
  have "pending_ok m1 db" using pending_ok_cong [OF m1(2,3)] assms(3) by blast
  then show ?thesis
    using SetUpdateTS_fold [OF assms(2) _ assms(7), of m1] m1 unfolding init by (simp split: prod.splits)
qed

theorem restart_recovers_pending_witness:
  "\<exists>m' db' m'' db''. merkle_loop_init example_env (ResetUpdateTS example_merkle,
       NewLDBDatabase (\<lambda>_ _. None) [(MarshalUpdatingKey example_merkle, ints_enc [7200]), (upd_key example_merkle 3600, [1])]) =
     (Ret (), m', db') \<and> set (mk_toUpdateTS m') = {3600, 7200} \<and>
     merkle_loop_init example_env (ResetUpdateTS example_merkle, NewLDBDatabase (\<lambda>_ _. None) [(upd_key example_merkle 3600, [1])]) =
     (Ret (), m'', db'') \<and> set (mk_toUpdateTS m'') = {3600}"
proof -
  let ?m = example_merkle and ?plain = "NewLDBDatabase (\<lambda>_ _. None) [(upd_key example_merkle 3600, [1])]"
    and ?db = "NewLDBDatabase (\<lambda>_ _. None) [(MarshalUpdatingKey example_merkle, ints_enc [7200]), (upd_key example_merkle 3600, [1])]"
  have toupd: "mk_toUpdateTS ?m = [3600]" by (simp add: example_merkle_def)
  have neq: "MarshalUpdatingKey ?m \<noteq> upd_key ?m 3600"
    by (simp add: example_merkle_def MarshalUpdatingKey_def)
  have ok: "pending_ok ?m ?db" "pending_ok ?m ?plain" "no_fault ?db" "no_fault ?plain"
    using neq update_prefix_facts(6) [OF example_merkle_wf]
    by (auto simp: pending_ok_def toupd in_i64_def NewLDBDatabase_def ldb_view_def no_fault_def)
  have reset: "same_keys ?m (ResetUpdateTS ?m)" "mk_toUpdateTS (ResetUpdateTS ?m) = []"
    by (simp_all add: same_keys_def ResetUpdateTS_def)
  have "env_list_dec example_env (ints_enc [7200]) = Some [7200]" by (simp add: example_env_def)
  then have "\<exists>m' db'. merkle_loop_init example_env (ResetUpdateTS ?m, ?db) = (Ret (), m', db') \<and> set (mk_toUpdateTS m') = {3600, 7200}"
    using restart_recovers_pending [OF example_merkle_wf ok(3,1) reset, of "[7200]" example_env]
    by (auto simp: NewLDBDatabase_def ldb_view_def toupd ts_dom_def insert_commute)
  moreover have "\<exists>m' db'. merkle_loop_init example_env (ResetUpdateTS ?m, ?plain) = (Ret (), m', db') \<and> set (mk_toUpdateTS m') = {3600}"
    using restart_recovers_pending [OF example_merkle_wf ok(4,2) reset, of "[]" example_env] neq
    by (auto simp: NewLDBDatabase_def ldb_view_def toupd)
  ultimately show ?thesis by blast
qed

text \<open>
  A run whose rewriting fails (here, because another caller holds the tree's lock) reports success and
  keeps the hours it took only in the updating entry; the next run overwrites that entry with its own,
  empty list and deletes it, so the hours are never summarised.
\<close>

lemma busy_save_all: "ldb_locks db (DBPrefix m) \<noteq> None \<Longrightarrow>
  save_all E (x # xs) m db = (Fail (DbError D_ErrBusy), m, db)"
  by (simp add: SaveMerkleTree_def with_lock_busy)

lemma failed_hours_dropped:
  assumes "no_fault db" "mk_toUpdatePrefixWithID m \<noteq> []" "ldb_locks db (DBPrefix m) \<noteq> None"
    "mk_BusyGenerateTS m = ZeroTimestamp" "mk_toUpdateTS m = [x]"
    "env_order E [x] = [x]" "env_order E [] = []" "env_list_enc E [x] = Inr b" "env_list_enc E [] = Inr b0"
  shows "\<exists>m1 db1. pmGenerateOplogMerkleTree E StatusAlive (Ret now) (m, db) = (Ret (), m1, db1) \<and>
    (\<exists>m2 db2. pmGenerateOplogMerkleTree E StatusAlive (Ret now') (m1, db1\<lparr>ldb_locks := Map.empty\<rparr>) = (Ret (), m2, db2) \<and>
       mk_toUpdateTS m2 = [] \<and> ldb_view db2 (MarshalUpdatingKey m) = None)"
proof -
  let ?p = "mk_toUpdatePrefixWithID m"
  define db1 where "db1 = (without_prefix ?p db)\<lparr>ldb_kvs := kv_put (MarshalUpdatingKey m) b (ldb_kvs (without_prefix ?p db))\<rparr>"
  define m1 where "m1 = m\<lparr>mk_BusyGenerateTS := ZeroTimestamp, mk_toUpdateTS := []\<rparr>"
  have nf: "no_fault (without_prefix ?p d)" if "no_fault d" for d
    using that by (simp add: without_prefix_def no_fault_def)
  have reset: "resetToUpdateTSDB m' d = without_prefix ?p d"
    if "no_fault d" "mk_toUpdatePrefixWithID m' = ?p" for m' d
    using resetToUpdateTSDB_eq [of d m'] that assms(2) by simp
  have put: "Ldb_Put k v d = (None, d\<lparr>ldb_kvs := kv_put k v (ldb_kvs d)\<rparr>)"
    "Ldb_Delete k d = (None, d\<lparr>ldb_kvs := kv_del k (ldb_kvs d)\<rparr>)" if "no_fault d" for k v d
    using that by (simp_all add: Ldb_Put_def Ldb_Delete_def no_fault_def)
  have "ldb_locks db1 (DBPrefix m) \<noteq> None" using assms(3) by (simp add: db1_def without_prefix_def)
  then have fail: "save_all E [x] (m\<lparr>mk_BusyGenerateTS := now, mk_toUpdateTS := []\<rparr>) db1 =
    (Fail (DbError D_ErrBusy), m\<lparr>mk_BusyGenerateTS := now, mk_toUpdateTS := []\<rparr>, db1)"
    using busy_save_all [of db1 "m\<lparr>mk_BusyGenerateTS := now, mk_toUpdateTS := []\<rparr>"] by (simp add: DBPrefix_def)
  have run1: "pmGenerateOplogMerkleTree E StatusAlive (Ret now) (m, db) = (Ret (), m1, db1)"
    using assms fail put [OF nf [OF assms(1)]] reset [OF assms(1)]
    by (simp add: pmGenerateOplogMerkleTree_def pmGenerateOplogMerkleTreeIsBusy_def GetAndResetToUpdateTSList_def
        getAndResetToUpdateTSs_def MarshalUpdatingKey_def db1_def m1_def del: save_all.simps)
  let ?d = "db1\<lparr>ldb_locks := Map.empty\<rparr>"
  have nf1: "no_fault ?d" using nf [OF assms(1)] by (simp add: db1_def no_fault_def)
  have nf2: "no_fault (d\<lparr>ldb_kvs := kvs\<rparr>) = no_fault d" for d kvs by (simp add: no_fault_def)
  have "\<exists>m2 db2. pmGenerateOplogMerkleTree E StatusAlive (Ret now') (m1, ?d) = (Ret (), m2, db2) \<and>
    mk_toUpdateTS m2 = [] \<and> ldb_view db2 (MarshalUpdatingKey m) = None"
    using assms put [OF nf [OF nf1]] reset [OF nf1] nf [OF nf1] nf2
    by (simp add: pmGenerateOplogMerkleTree_def pmGenerateOplogMerkleTreeIsBusy_def GetAndResetToUpdateTSList_def
        getAndResetToUpdateTSs_def MarshalUpdatingKey_def m1_def ResetUpdatingTSList_def put ldb_view_def)
  with run1 show ?thesis by blast
qed

end
