(* ===== verification/Base58.thy ===== *)
theory Base58
  imports Common_Utils
begin

text \<open>
  The base58 text form of identifiers and salts (\<^verbatim>\<open>github.com/shengdoushi/base58\<close>, vendored with
  the program and used through \<^verbatim>\<open>myAlphabet\<close>). Both directions convert the radix of a number in
  place: an output array is multiplied by the input's radix and a digit is added, with a carry running
  from the last cell to the first. \<open>conv_loop\<close> is that inner loop for an arbitrary pair of radices;
  a write before the start of the array is a panic. The array cells are Go bytes; every value
  stored is a remainder by 58 or by 256, so they are kept as natural numbers. The alphabet is ASCII, so the
  runes of a valid input are its bytes, and a byte outside the alphabet is the same error as
  the rune it belongs to.

  Shown: the capacity estimates \<^verbatim>\<open>138/100\<close> and \<^verbatim>\<open>733/1000\<close> always suffice (neither loop panics),
  and decoding an encoding gives the bytes back, leading zero bytes included.
\<close>

subsection \<open>Definitions\<close>

definition BitcoinAlphabet :: bytes where
  "BitcoinAlphabet =
     map word_of_nat ([49..<58] @ [65..<73] @ [74..<79] @ [80..<91] @ [97..<108] @ [109..<123])"

definition encodeTable :: "nat \<Rightarrow> byte" where
  "encodeTable n = BitcoinAlphabet ! n"

fun NewAlphabet_loop :: "(byte \<Rightarrow> int) \<Rightarrow> nat \<Rightarrow> bytes \<Rightarrow> byte \<Rightarrow> int" where
  "NewAlphabet_loop table idx [] = table"
| "NewAlphabet_loop table idx (ch # alphabet) =
     NewAlphabet_loop (table(ch := int idx)) (Suc idx) alphabet"

definition decodeTable :: "byte \<Rightarrow> int" where
  "decodeTable = NewAlphabet_loop (\<lambda>_. -1) 0 BitcoinAlphabet"

fun conv_loop :: "nat \<Rightarrow> nat \<Rightarrow> nat list \<Rightarrow> nat \<Rightarrow> nat \<Rightarrow> nat \<Rightarrow> (nat list \<times> nat) res" where
  "conv_loop B M out e 0 carry = (if carry \<noteq> 0 then Panic else Ret (out, 0))"
| "conv_loop B M out e (Suc i) carry =
     (if e < Suc i \<or> carry \<noteq> 0 then
        (let c = carry + M * out ! i
         in conv_loop B M (out[i := c mod B]) e i (c div B))
      else Ret (out, Suc i))"

text \<open>
  \<open>e\<close> is \<^verbatim>\<open>outputReverseEnd + 1\<close>, the index of the first cell in use; the loop starts at
  \<^verbatim>\<open>outputIdx = capacity - 1\<close> and \<^verbatim>\<open>outputIdx + 1\<close> is the loop's counter.
\<close>

fun Encode_loop :: "nat list \<Rightarrow> nat \<Rightarrow> bytes \<Rightarrow> (nat list \<times> nat) res" where
  "Encode_loop out e [] = Ret (out, e)"
| "Encode_loop out e (inputByte # input) =
     res_bind (conv_loop 58 256 out e (length out) (unat inputByte))
       (\<lambda>(out', e'). Encode_loop out' e' input)"

definition Encode :: "bytes \<Rightarrow> bytes res" where
  "Encode input =
     (let prefixZeroes = length (takeWhile (\<lambda>b. b = 0) input);
          capacity = (length input - prefixZeroes) * 138 div 100 + 1
      in res_bind (Encode_loop (replicate capacity 0) capacity (drop prefixZeroes input))
           (\<lambda>(out, e). Ret (replicate prefixZeroes (encodeTable 0) @ map encodeTable (drop e out))))"

fun Decode_loop :: "nat list \<Rightarrow> nat \<Rightarrow> nat \<Rightarrow> bool \<Rightarrow> bytes \<Rightarrow> (nat \<times> nat list \<times> nat) res" where
  "Decode_loop out e prefixZeroes skipZeros [] = Ret (prefixZeroes, out, e)"
| "Decode_loop out e prefixZeroes skipZeros (target # input) =
     (if \<not> skipZeros \<and> target = encodeTable 0 then Decode_loop out e (Suc prefixZeroes) False input
      else if decodeTable target = -1 then Fail (OtherError 58)
      else res_bind (conv_loop 256 58 out e (length out) (nat (decodeTable target)))
             (\<lambda>(out', e'). Decode_loop out' e' prefixZeroes True input))"

definition Decode :: "bytes \<Rightarrow> bytes res" where
  "Decode input =
     (let capacity = length input * 733 div 1000 + 1
      in res_bind (Decode_loop (replicate capacity 0) capacity 0 False input)
           (\<lambda>(prefixZeroes, out, e). Ret (replicate prefixZeroes 0 @ map word_of_nat (drop e out))))"

subsection \<open>Digits and their value\<close>

definition radix_val :: "nat \<Rightarrow> nat list \<Rightarrow> nat" where
  "radix_val B ds = foldl (\<lambda>a d. a * B + d) 0 ds"

lemma radix_val_Nil [simp]: "radix_val B [] = 0"
  by (simp add: radix_val_def)

lemma radix_val_snoc [simp]: "radix_val B (ds @ [d]) = radix_val B ds * B + d"
  by (simp add: radix_val_def)

lemma radix_val_append: "radix_val B (ds @ es) = radix_val B ds * B ^ length es + radix_val B es"
proof (induction es rule: rev_induct)
  case (snoc x xs)
  then have "radix_val B ((ds @ xs) @ [x]) = (radix_val B ds * B ^ length xs + radix_val B xs) * B + x"
    by (simp only: radix_val_snoc)
  then show ?case by (simp add: algebra_simps)
qed simp

lemma radix_val_Cons: "radix_val B (d # ds) = d * B ^ length ds + radix_val B ds"
  using radix_val_append [of B "[d]" ds] by (simp add: radix_val_def)

lemma radix_val_zeros [simp]: "radix_val B (replicate n 0) = 0"
  by (induction n) (simp_all add: radix_val_Cons)

lemma radix_val_bound: "\<forall>d \<in> set ds. d < B \<Longrightarrow> radix_val B ds < B ^ length ds"
proof (induction ds rule: rev_induct)
  case (snoc d ds)
  then have "Suc (radix_val B ds) \<le> B ^ length ds" "d < B" by auto
  then have "Suc (radix_val B ds) * B \<le> B ^ length ds * B" "d < B"
    by (simp_all only: mult_le_mono1)
  then show ?case by (simp add: algebra_simps)
qed simp

text \<open>Digits without a leading zero are determined by their value.\<close>

definition canon :: "nat \<Rightarrow> nat list \<Rightarrow> bool" where
  "canon B ds \<longleftrightarrow> (\<forall>d \<in> set ds. d < B) \<and> (ds \<noteq> [] \<longrightarrow> hd ds \<noteq> 0)"

lemma canon_snoc: "canon B (ds @ [d]) \<Longrightarrow> canon B ds \<and> d < B \<and> (ds = [] \<longrightarrow> d \<noteq> 0)"
  by (cases ds) (auto simp: canon_def)

lemma canon_val_0: "canon B ds \<Longrightarrow> radix_val B ds = 0 \<longleftrightarrow> ds = []"
proof (induction ds rule: rev_induct)
  case (snoc d ds)
  then show ?case using canon_snoc [OF snoc.prems] by (cases "ds = []") (auto simp: radix_val_Cons)
qed simp

lemma canon_unique:
  "canon B ds \<Longrightarrow> canon B es \<Longrightarrow> radix_val B ds = radix_val B es \<Longrightarrow> ds = es"
proof (induction ds arbitrary: es rule: rev_induct)
  case Nil
  then show ?case using canon_val_0 [of B es] by simp
next
  case (snoc d ds)
  from snoc.prems have "es \<noteq> []" using canon_val_0 [of B "ds @ [d]"] by auto
  then obtain e fs where es: "es = fs @ [e]" by (cases es rule: rev_exhaust) auto
  note c = canon_snoc [OF snoc.prems(1)] canon_snoc [OF snoc.prems(2) [unfolded es]]
  have eq: "radix_val B ds * B + d = radix_val B fs * B + e"
    using snoc.prems(3) es by simp
  have "d = e" using arg_cong [OF eq, of "\<lambda>x. x mod B"] c by simp
  moreover have "radix_val B ds = radix_val B fs" using eq \<open>d = e\<close> c by auto
  ultimately show ?case using snoc.IH c es by blast
qed

subsection \<open>The inner loop\<close>

lemma take_Suc_update:
  "i < length xs \<Longrightarrow> take (Suc i) (xs[i := v]) = take i xs @ [v]"
  by (simp add: take_Suc_conv_app_nth)

lemma conv_loop_ok:
  assumes "k \<le> length out" "\<forall>j < e. j < k \<longrightarrow> out ! j = 0" "0 < B"
    "M * radix_val B (take k out) + carry < B ^ k"
  shows "\<exists>out' k'. conv_loop B M out e k carry = Ret (out', k') \<and> length out' = length out \<and>
    k' \<le> e \<and> k' \<le> k \<and> drop k out' = drop k out \<and> take k' out' = take k' out \<and>
    radix_val B (take k out') = M * radix_val B (take k out) + carry \<and>
    (\<forall>j. k' \<le> j \<longrightarrow> j < k \<longrightarrow> out' ! j < B) \<and> (k' = k \<longrightarrow> carry = 0) \<and>
    (k' < k \<longrightarrow> k' < e \<longrightarrow> out' ! k' \<noteq> 0)"
  using assms
proof (induction k arbitrary: out carry)
  case 0
  then show ?case by simp
next
  case (Suc i)
  show ?case
  proof (cases "e < Suc i \<or> carry \<noteq> 0")
    case False
    then have "\<forall>j < Suc i. out ! j = 0" using Suc.prems by auto
    then have "take (Suc i) out = replicate (Suc i) 0"
      using Suc.prems(1) by (intro nth_equalityI) (auto simp del: replicate_Suc)
    then have "radix_val B (take (Suc i) out) = 0" by (simp del: replicate_Suc)
    with False show ?thesis by simp
  next
    case True
    define c where "c = carry + M * out ! i"
    let ?out = "out[i := c mod B]"
    have i: "i < length out" using Suc.prems(1) by simp
    have tk: "take (Suc i) out = take i out @ [out ! i]" "take i ?out = take i out"
      using i by (simp_all add: take_Suc_conv_app_nth)
    have eq: "M * radix_val B (take (Suc i) out) + carry =
        (M * radix_val B (take i ?out) + c div B) * B + c mod B"
      using tk by (simp add: c_def algebra_simps)
    then have "(M * radix_val B (take i ?out) + c div B) * B < B ^ Suc i"
      using Suc.prems(4) by linarith
    then have fit: "M * radix_val B (take i ?out) + c div B < B ^ i"
      by (simp only: power_Suc2 mult_less_cancel2)
    from Suc.IH [OF _ _ Suc.prems(3) fit] Suc.prems(1,2) obtain out' k'
      where r: "conv_loop B M ?out e i (c div B) = Ret (out', k')" "length out' = length out"
        "k' \<le> e" "k' \<le> i" "drop i out' = drop i ?out" "take k' out' = take k' ?out"
        "radix_val B (take i out') = M * radix_val B (take i ?out) + c div B"
        "\<forall>j. k' \<le> j \<longrightarrow> j < i \<longrightarrow> out' ! j < B" "k' = i \<longrightarrow> c div B = 0"
        "k' < i \<longrightarrow> k' < e \<longrightarrow> out' ! k' \<noteq> 0"
      by auto
    have last: "out' ! i = c mod B" "drop (Suc i) out' = drop (Suc i) out"
      using r(2,5) i Cons_nth_drop_Suc [of i out'] Cons_nth_drop_Suc [of i ?out]
      by (simp_all, metis list.inject, metis list.inject)
    have "conv_loop B M out e (Suc i) carry = Ret (out', k')"
      using True r(1) by (simp add: c_def Let_def)
    moreover have "radix_val B (take (Suc i) out') = M * radix_val B (take (Suc i) out) + carry"
      unfolding eq using last r(2,7) i by (simp add: take_Suc_conv_app_nth)
    moreover have "out' ! i \<noteq> 0" if "k' = i" "i < e"
    proof -
      have "c = carry" "carry \<noteq> 0" using that True Suc.prems(2) by (auto simp: c_def)
      moreover have "c div B = 0" using r(9) that by simp
      ultimately show ?thesis using last Suc.prems(3) by (auto simp: div_eq_0_iff)
    qed
    moreover have "take k' out' = take k' out" using r(4,6) by simp
    moreover have "\<forall>j. k' \<le> j \<longrightarrow> j < Suc i \<longrightarrow> out' ! j < B"
      using r(8) last Suc.prems(3) by (auto simp: less_Suc_eq)
    ultimately show ?thesis using r(2-4,10) last by (auto simp: le_less)
  qed
qed

text \<open>
  The array between two input digits: zero before \<open>e\<close>, and from \<open>e\<close> on the canonical digits of the
  number read so far.
\<close>

definition holds_number :: "nat \<Rightarrow> nat list \<Rightarrow> nat \<Rightarrow> nat \<Rightarrow> bool" where
  "holds_number B out e V \<longleftrightarrow> e \<le> length out \<and> take e out = replicate e 0 \<and> canon B (drop e out) \<and>
     radix_val B (drop e out) = V"

lemma holds_number_val:
  assumes "take e out = replicate e 0"
  shows "radix_val B out = radix_val B (drop e out)"
  using radix_val_append [of B "take e out" "drop e out"] unfolding append_take_drop_id
  by (simp add: assms)

lemma conv_loop_step:
  assumes "holds_number B out e V" "0 < B" "0 < M" "M * V + carry < B ^ length out"
  shows "\<exists>out' e'. conv_loop B M out e (length out) carry = Ret (out', e') \<and>
    length out' = length out \<and> holds_number B out' e' (M * V + carry)"
proof -
  note h = assms(1) [unfolded holds_number_def]
  have "\<forall>j < e. j < length out \<longrightarrow> out ! j = 0"
    using h by (metis nth_replicate nth_take)
  moreover have "radix_val B out = V" using h holds_number_val [of e out B] by simp
  ultimately obtain out' e' where r: "conv_loop B M out e (length out) carry = Ret (out', e')"
    "length out' = length out" "e' \<le> e" "e' \<le> length out" "take e' out' = take e' out"
    "radix_val B out' = M * V + carry" "\<forall>j. e' \<le> j \<longrightarrow> j < length out \<longrightarrow> out' ! j < B"
    "e' < length out \<longrightarrow> e' < e \<longrightarrow> out' ! e' \<noteq> 0"
    using conv_loop_ok [OF order_refl, of e out B M carry] assms(2,4) by auto
  have z: "take e' out' = replicate e' 0"
    using r(3,5) h by (metis min.absorb1 take_replicate take_take)
  have digits: "\<forall>d \<in> set (drop e' out'). d < B"
    using r(2,7) by (auto simp: in_set_conv_nth)
  have "hd (drop e' out') \<noteq> 0" if ne: "drop e' out' \<noteq> []"
  proof (cases "e' < e")
    case True
    then show ?thesis using r(2,8) ne by (simp add: hd_drop_conv_nth)
  next
    case False
    with r(3) have e: "e' = e" by simp
    show ?thesis
    proof
      assume "hd (drop e' out') = 0"
      then obtain ds where ds: "drop e' out' = 0 # ds" using ne by (cases "drop e' out'") auto
      obtain d es where des: "drop e out = d # es" using ne r(2) e by (cases "drop e out") auto
      have len: "length es = length ds"
        using arg_cong [OF ds, of length] arg_cong [OF des, of length] r(2) e by simp
      have "radix_val B (0 # ds) < B ^ length ds"
        using radix_val_bound [of ds B] digits ds by (simp add: radix_val_Cons)
      moreover have "B ^ length ds \<le> V"
      proof -
        have "1 * B ^ length ds \<le> d * B ^ length ds"
          using h des by (intro mult_le_mono1) (simp add: canon_def)
        moreover have "V = d * B ^ length ds + radix_val B es"
          using h des len by (simp add: radix_val_Cons)
        ultimately show ?thesis by linarith
      qed
      moreover have "radix_val B (0 # ds) = M * V + carry"
        using holds_number_val [OF z, of B] r(6) ds by simp
      moreover have "V \<le> M * V" using assms(3) by simp
      ultimately show False by linarith
    qed
  qed
  then have "canon B (drop e' out')" using digits by (simp add: canon_def)
  moreover have "radix_val B (drop e' out') = M * V + carry"
    using holds_number_val [OF z, of B] r(6) by simp
  ultimately have "holds_number B out' e' (M * V + carry)"
    using z r(2,4) by (simp add: holds_number_def)
  with r(1,2) show ?thesis by blast
qed


lemma holds_number_start: "holds_number B (replicate n 0) n 0"
  by (simp add: holds_number_def canon_def)

subsection \<open>The two directions\<close>

text \<open>The number a byte string denotes, and room for it in either radix.\<close>

lemma be_val_radix: "be_val bs = radix_val 256 (map unat bs)"
  by (induction bs) (simp_all add: radix_val_Cons)

lemma radix_room:
  fixes a b p q n m :: nat
  assumes "a ^ q \<le> b ^ p" "p * n \<le> q * m" "0 < q" "0 < b"
  shows "a ^ n \<le> b ^ m"
proof -
  have "(a ^ n) ^ q = (a ^ q) ^ n" by (simp add: power_mult [symmetric] mult.commute)
  also have "\<dots> \<le> (b ^ p) ^ n" using assms(1) by (rule power_mono) simp
  also have "\<dots> = b ^ (p * n)" by (simp add: power_mult)
  also have "\<dots> \<le> b ^ (q * m)" using assms(2,4) by (intro power_increasing) auto
  also have "\<dots> = (b ^ m) ^ q" by (simp add: power_mult [symmetric] mult.commute)
  finally show ?thesis using assms(3) by (simp only: power_mono_iff zero_le)
qed

lemma encode_room: "(256 :: nat) ^ n \<le> 58 ^ (n * 138 div 100 + 1)"
proof (rule radix_room [of 256 8 58 11])
  show "(256 :: nat) ^ 8 \<le> 58 ^ 11" by simp
  have "n * 138 < 100 * (n * 138 div 100 + 1)" by (metis Suc_eq_plus1 dividend_less_div_times zero_less_numeral mult.commute mult_Suc_right add.commute)
  then show "11 * n \<le> 8 * (n * 138 div 100 + 1)" by linarith
qed simp_all

lemma decode_room: "(58 :: nat) ^ n \<le> 256 ^ (n * 733 div 1000 + 1)"
proof (rule radix_room [of 58 71 256 52])
  show "(58 :: nat) ^ 71 \<le> 256 ^ 52" by simp
  have "n * 733 < 1000 * (n * 733 div 1000 + 1)" by (metis Suc_eq_plus1 dividend_less_div_times zero_less_numeral mult.commute mult_Suc_right add.commute)
  then show "52 * n \<le> 71 * (n * 733 div 1000 + 1)" by linarith
qed simp_all

lemma radix_step_bound:
  fixes V :: nat
  assumes "V < B ^ n" "d < B"
  shows "B * V + d < B ^ Suc n"
proof -
  have "B * Suc V \<le> B * B ^ n" using assms(1) by (intro mult_le_mono2) simp
  with assms(2) show ?thesis by simp
qed

lemma Encode_loop_ok:
  assumes "holds_number 58 out e V" "V < 256 ^ n" "256 ^ (n + length input) \<le> (58 :: nat) ^ length out"
  shows "\<exists>out' e'. Encode_loop out e input = Ret (out', e') \<and>
    holds_number 58 out' e' (V * 256 ^ length input + be_val input)"
  using assms
proof (induction input arbitrary: out e V n)
  case Nil
  then show ?case by simp
next
  case (Cons b input)
  have step: "256 * V + unat b < 256 ^ Suc n"
    using Cons.prems(2) unat_byte_bound by (rule radix_step_bound)
  have "(256 :: nat) ^ Suc n \<le> 256 ^ (n + length (b # input))" by (intro power_increasing) simp_all
  with step Cons.prems(3) have "256 * V + unat b < 58 ^ length out" by linarith
  from conv_loop_step [OF Cons.prems(1) _ _ this] obtain out' e'
    where r: "conv_loop 58 256 out e (length out) (unat b) = Ret (out', e')"
      "length out' = length out" "holds_number 58 out' e' (256 * V + unat b)" by auto
  from Cons.IH [OF r(3) step] Cons.prems(3) r(2) obtain out'' e''
    where "Encode_loop out' e' input = Ret (out'', e'')"
      "holds_number 58 out'' e'' ((256 * V + unat b) * 256 ^ length input + be_val input)" by auto
  with r(1) show ?case by (auto simp: algebra_simps)
qed

lemma Decode_loop_ok:
  assumes "holds_number 256 out e V" "V < 58 ^ n" "58 ^ (n + length ds) \<le> (256 :: nat) ^ length out"
    "\<forall>d \<in> set ds. d < 58"
    "\<And>d. d < 58 \<Longrightarrow> decodeTable (encodeTable d) = int d"
  shows "\<exists>out' e'. Decode_loop out e z True (map encodeTable ds) = Ret (z, out', e') \<and>
    holds_number 256 out' e' (V * 58 ^ length ds + radix_val 58 ds)"
  using assms(1-4)
proof (induction ds arbitrary: out e V n)
  case Nil
  then show ?case by simp
next
  case (Cons d ds)
  have d: "decodeTable (encodeTable d) = int d" using Cons.prems(4) assms(5) by simp
  have step: "58 * V + d < 58 ^ Suc n"
    using Cons.prems(2,4) by (intro radix_step_bound) simp_all
  have "(58 :: nat) ^ Suc n \<le> 58 ^ (n + length (d # ds))" by (intro power_increasing) simp_all
  with step Cons.prems(3) have "58 * V + d < 256 ^ length out" by linarith
  from conv_loop_step [OF Cons.prems(1) _ _ this] obtain out' e'
    where r: "conv_loop 256 58 out e (length out) d = Ret (out', e')"
      "length out' = length out" "holds_number 256 out' e' (58 * V + d)" by auto
  from Cons.IH [OF r(3) step] Cons.prems(3,4) r(2) obtain out'' e''
    where "Decode_loop out' e' z True (map encodeTable ds) = Ret (z, out'', e'')"
      "holds_number 256 out'' e'' ((58 * V + d) * 58 ^ length ds + radix_val 58 ds)" by auto
  with r(1) d show ?case by (auto simp: algebra_simps radix_val_Cons)
qed


lemma NewAlphabet_loop_other:
  "b \<notin> set alphabet \<Longrightarrow> NewAlphabet_loop table idx alphabet b = table b"
  by (induction alphabet arbitrary: table idx) auto

lemma NewAlphabet_loop_nth:
  "distinct alphabet \<Longrightarrow> d < length alphabet \<Longrightarrow>
   NewAlphabet_loop table idx alphabet (alphabet ! d) = int (idx + d)"
proof (induction alphabet arbitrary: table idx d)
  case (Cons ch alphabet)
  then show ?case by (cases d) (auto simp: NewAlphabet_loop_other)
qed simp

lemma inj_on_byte: "inj_on (word_of_nat :: nat \<Rightarrow> byte) {..<256}"
proof (rule inj_onI)
  fix x y :: nat
  assume "x \<in> {..<256}" "y \<in> {..<256}" "word_of_nat x = (word_of_nat y :: byte)"
  then have "unat (word_of_nat x :: byte) = unat (word_of_nat y :: byte)" "x < 256" "y < 256"
    by simp_all
  then show "x = y" by (simp only: unat_of_nat) simp
qed

lemma BitcoinAlphabet_distinct: "distinct BitcoinAlphabet"
  unfolding BitcoinAlphabet_def distinct_map
  by (intro conjI inj_on_subset [OF inj_on_byte]) auto

lemma length_BitcoinAlphabet: "length BitcoinAlphabet = 58"
  by (simp add: BitcoinAlphabet_def)

lemma decode_encode_digit: "d < 58 \<Longrightarrow> decodeTable (encodeTable d) = int d"
  using NewAlphabet_loop_nth [OF BitcoinAlphabet_distinct, of d "\<lambda>_. -1" 0]
  by (simp add: decodeTable_def encodeTable_def length_BitcoinAlphabet)

lemma encodeTable_zero: "d < 58 \<Longrightarrow> encodeTable d = encodeTable 0 \<longleftrightarrow> d = 0"
  using decode_encode_digit [of d] decode_encode_digit [of 0] by auto

lemma Decode_loop_zeros:
  "Decode_loop out e z False (replicate n (encodeTable 0) @ rest) = Decode_loop out e (z + n) False rest"
  by (induction n arbitrary: z) auto

lemma Decode_loop_skip:
  assumes "canon 58 ds"
  shows "Decode_loop out e z False (map encodeTable ds) = Decode_loop out e z True (map encodeTable ds)"
proof (cases ds)
  case (Cons d ds')
  then have "encodeTable d \<noteq> encodeTable 0" using assms encodeTable_zero [of d] by (simp add: canon_def)
  then show ?thesis unfolding Cons list.map Decode_loop.simps by (simp only: simp_thms if_False)
qed simp

lemma takeWhile_zeros: "takeWhile (\<lambda>b. b = 0) bs = replicate (length (takeWhile (\<lambda>b. b = 0) bs)) (0 :: byte)"
proof -
  have "\<forall>b \<in> set (takeWhile (\<lambda>b. b = 0) bs). b = 0" by (blast dest: set_takeWhileD)
  then show ?thesis by (rule replicate_length_same [symmetric])
qed

lemma canon_bytes:
  "canon 256 (map unat (dropWhile (\<lambda>b. b = 0) (bs :: bytes)))"
proof -
  have "hd (map unat (dropWhile (\<lambda>b. b = 0) bs)) \<noteq> 0" if "dropWhile (\<lambda>b. b = 0) bs \<noteq> []"
    using hd_dropWhile [OF that] that by (simp add: hd_map unat_eq_0)
  then show ?thesis using unat_byte_bound by (auto simp: canon_def)
qed

lemma Encode_shape:
  fixes bs :: bytes
  defines "z \<equiv> length (takeWhile (\<lambda>b. b = 0) bs)" and "rest \<equiv> dropWhile (\<lambda>b. b = 0) bs"
  shows "\<exists>ds. Encode bs = Ret (replicate z (encodeTable 0) @ map encodeTable ds) \<and>
    canon 58 ds \<and> radix_val 58 ds = be_val rest"
proof -
  define cap where "cap = length rest * 138 div 100 + 1"
  have "length bs = z + length rest" unfolding z_def rest_def
    by (metis length_append takeWhile_dropWhile_id)
  then have len: "length rest = length bs - z" by simp
  have rest: "rest = drop z bs" by (simp add: rest_def z_def dropWhile_eq_drop)
  have "(256 :: nat) ^ (0 + length rest) \<le> 58 ^ length (replicate cap (0 :: nat))"
    using encode_room by (simp add: cap_def)
  from Encode_loop_ok [OF holds_number_start _ this] obtain out e
    where "Encode_loop (replicate cap 0) cap rest = Ret (out, e)" "holds_number 58 out e (be_val rest)"
    by auto
  then show ?thesis
    by (auto simp: Encode_def Let_def z_def [symmetric] rest [symmetric] cap_def len [symmetric] holds_number_def)
qed

lemma Decode_Encode: "\<exists>txt. Encode bs = Ret txt \<and> Decode txt = Ret bs"
proof -
  define z where "z = length (takeWhile (\<lambda>b. b = 0) bs)"
  define rest where "rest = dropWhile (\<lambda>b. b = 0) bs"
  obtain ds where ds: "Encode bs = Ret (replicate z (encodeTable 0) @ map encodeTable ds)"
    "canon 58 ds" "radix_val 58 ds = be_val rest"
    using Encode_shape [of bs] unfolding z_def rest_def by blast
  let ?txt = "replicate z (encodeTable 0) @ map encodeTable ds"
  define cap where "cap = length ?txt * 733 div 1000 + 1"
  have "(58 :: nat) ^ (0 + length ds) \<le> 58 ^ length ?txt" by (intro power_increasing) simp_all
  also have "\<dots> \<le> 256 ^ length (replicate cap (0 :: nat))"
    unfolding cap_def length_replicate by (rule decode_room)
  finally have room: "(58 :: nat) ^ (0 + length ds) \<le> 256 ^ length (replicate cap (0 :: nat))" .
  have "\<forall>d \<in> set ds. d < 58" using ds(2) by (simp add: canon_def)
  from Decode_loop_ok [OF holds_number_start _ room this decode_encode_digit] obtain out e
    where r: "Decode_loop (replicate cap 0) cap z True (map encodeTable ds) = Ret (z, out, e)"
      "holds_number 256 out e (be_val rest)" unfolding ds(3) by fastforce
  have "canon 256 (drop e out)" "radix_val 256 (drop e out) = radix_val 256 (map unat rest)"
    using r(2) by (simp_all add: holds_number_def be_val_radix)
  then have "drop e out = map unat rest"
    using canon_bytes [of bs] by (intro canon_unique [of 256]) (simp_all add: rest_def)
  then have "map word_of_nat (drop e out) = rest"
    by (simp add: map_idI)
  moreover have "replicate z 0 @ rest = bs"
    unfolding z_def rest_def takeWhile_zeros [symmetric] by simp
  ultimately have "Decode ?txt = Ret bs"
    using r(1) Decode_loop_zeros [of "replicate cap 0" cap 0 z] Decode_loop_skip [OF ds(2)]
    unfolding Decode_def Let_def cap_def [symmetric] by simp
  with ds(1) show ?thesis by blast
qed

end
