(* ===== verification/Ptt_Ids.thy ===== *)
theory Ptt_Ids
  imports Base58
begin

text \<open>
  Identifiers, salts and the compact boolean codecs of \<^verbatim>\<open>common/types\<close> (\<^verbatim>\<open>ptt_id.go\<close>,
  \<^verbatim>\<open>salt.go\<close>, \<^verbatim>\<open>bool.go\<close>). A \<^verbatim>\<open>PttID\<close> is an array of 40 bytes: the address of a public key and a
  postfix. The address function of the curve library is the parameter \<open>addr\<close>; a read from the
  random source is the parameter \<open>rand\<close>: for a buffer length, the buffer's contents after the call,
  the count and the error. A constructor that returns a nil pointer with a nil error returns
  \<open>Ret None\<close>.
\<close>

type_synonym PttID = bytes
type_synonym Salt = bytes
type_synonym rand_read = "nat \<Rightarrow> bytes \<times> nat \<times> go_error option"

subsection \<open>Definitions\<close>

definition AddressLength :: nat where
  "AddressLength = 20"

definition SizePttID :: nat where
  "SizePttID = AddressLength + AddressLength"

definition SizeSalt :: nat where
  "SizeSalt = 32"

definition quoteBytes :: bytes where
  "quoteBytes = [34]"

definition NewPttID :: "rand_read \<Rightarrow> PttID option res" where
  "NewPttID rand =
     (case rand SizePttID of (buf, nRead, err) \<Rightarrow>
        (case err of
           Some e \<Rightarrow> Fail e
         | None \<Rightarrow> if nRead \<noteq> SizePttID then Ret None else Ret (Some buf)))"

definition NewPttIDWithPostifx :: "rand_read \<Rightarrow> bytes \<Rightarrow> PttID option res" where
  "NewPttIDWithPostifx rand postfix =
     (if SizePttID < length postfix then Panic
      else
        (let lenRand = SizePttID - length postfix
         in case rand lenRand of (buf, nRead, err) \<Rightarrow>
              (case err of
                 Some e \<Rightarrow> Fail e
               | None \<Rightarrow>
                   if nRead \<noteq> lenRand then Ret None
                   else Ret (Some (buf @ copy_into (replicate (length postfix) 0) postfix)))))"

definition NewPttIDFromKey :: "('pub \<Rightarrow> bytes) \<Rightarrow> rand_read \<Rightarrow> 'pub \<Rightarrow> PttID res" where
  "NewPttIDFromKey addr rand key =
     (let p = copy_into (replicate SizePttID 0) (addr key);
          nCopy = min SizePttID (length (addr key))
      in if nCopy \<noteq> AddressLength then Fail (TypesError T_ErrInvalidID)
         else case rand (SizePttID - AddressLength) of (buf, nRead, err) \<Rightarrow>
           if err \<noteq> None \<or> nRead \<noteq> AddressLength then Fail (TypesError T_ErrInvalidID)
           else Ret (take AddressLength p @ buf))"

definition NewPttIDFromAddrPostfix :: "bytes \<Rightarrow> bytes \<Rightarrow> PttID res" where
  "NewPttIDFromAddrPostfix address postfix =
     (let p = copy_into (replicate SizePttID 0) address
      in if min SizePttID (length address) \<noteq> AddressLength then Fail (TypesError T_ErrInvalidID)
         else if min (SizePttID - AddressLength) (length postfix) \<noteq> AddressLength
         then Fail (TypesError T_ErrInvalidID)
         else Ret (take AddressLength p @ copy_into (drop AddressLength p) postfix))"

definition NewPttIDFromPubkeyPostfix :: "('pub \<Rightarrow> bytes) \<Rightarrow> 'pub \<Rightarrow> bytes \<Rightarrow> PttID res" where
  "NewPttIDFromPubkeyPostfix addr key postfix = NewPttIDFromAddrPostfix (addr key) postfix"

definition NewPttIDWithPubkeyAndRefID :: "('pub \<Rightarrow> bytes) \<Rightarrow> 'pub \<Rightarrow> PttID \<Rightarrow> PttID res" where
  "NewPttIDWithPubkeyAndRefID addr key refID =
     NewPttIDFromPubkeyPostfix addr key (take AddressLength refID)"

definition PttID_MarshalJSON :: "PttID \<Rightarrow> bytes res" where
  "PttID_MarshalJSON p =
     res_bind (Encode p) (\<lambda>marshaled. Concat [Some quoteBytes, Some marshaled, Some quoteBytes])"

definition PttID_UnmarshalJSON :: "bytes \<Rightarrow> PttID res" where
  "PttID_UnmarshalJSON b =
     (if length b < 2 then Fail (TypesError T_ErrInvalidID)
      else
        (let b' = (if hd b = 34 then slice 1 (length b - 1) b else b)
         in res_bind (Decode b') (\<lambda>decodedBytes.
              if length decodedBytes \<noteq> SizePttID then Fail (TypesError T_ErrInvalidID)
              else Ret (copy_into (replicate SizePttID 0) decodedBytes))))"

definition PttID_MarshalText :: "PttID \<Rightarrow> bytes res" where
  "PttID_MarshalText p =
     res_bind (PttID_MarshalJSON p) (\<lambda>pBytes. Ret (slice 1 (length pBytes - 1) pBytes))"

definition PttID_UnmarshalText :: "bytes \<Rightarrow> PttID res" where
  "PttID_UnmarshalText b = PttID_UnmarshalJSON b"

definition UnmarshalTextPttID :: "bytes \<Rightarrow> bool \<Rightarrow> PttID option res" where
  "UnmarshalTextPttID b isAllowNil =
     (if length b = 0 then (if isAllowNil then Ret None else Fail (TypesError T_ErrInvalidID))
      else res_bind (PttID_UnmarshalText b) (\<lambda>p. Ret (Some p)))"

definition PttID_Unmarshal :: "bytes \<Rightarrow> PttID res" where
  "PttID_Unmarshal theIDStr =
     (if length theIDStr \<noteq> SizePttID then Fail (TypesError T_ErrInvalidID)
      else Ret (copy_into (replicate SizePttID 0) theIDStr))"

definition IsSamePubKey :: "('pub \<Rightarrow> bytes) \<Rightarrow> PttID \<Rightarrow> 'pub \<Rightarrow> bool" where
  "IsSamePubKey addr p key \<longleftrightarrow> take AddressLength p = addr key"

definition IsSameKeyWithPttID :: "PttID \<Rightarrow> PttID option \<Rightarrow> bool" where
  "IsSameKeyWithPttID p p2 =
     (case p2 of None \<Rightarrow> False | Some q \<Rightarrow> take AddressLength p = take AddressLength q)"

definition IsSameKeyWithNodeID :: "PttID \<Rightarrow> bytes option \<Rightarrow> bool" where
  "IsSameKeyWithNodeID p n =
     (case n of None \<Rightarrow> False | Some q \<Rightarrow> take AddressLength p = take AddressLength q)"

definition Salt_MarshalJSON :: "Salt \<Rightarrow> bytes res" where
  "Salt_MarshalJSON s =
     res_bind (Encode s) (\<lambda>marshaled. Concat [Some quoteBytes, Some marshaled, Some quoteBytes])"

definition Salt_UnmarshalJSON :: "bytes \<Rightarrow> Salt res" where
  "Salt_UnmarshalJSON b =
     (if length b < 2 then Fail (TypesError T_ErrInvalidID)
      else
        (let b' = (if hd b = 34 then slice 1 (length b - 1) b else b)
         in res_bind (Decode b') (\<lambda>decodedBytes.
              if length decodedBytes \<noteq> SizeSalt then Fail (TypesError T_ErrInvalidID)
              else Ret (copy_into (replicate SizeSalt 0) decodedBytes))))"

definition Bool_MarshalJSON :: "bool \<Rightarrow> bytes res" where
  "Bool_MarshalJSON b = (if b then Ret [49] else Ret [48])"

definition Bool_UnmarshalJSON :: "bytes \<Rightarrow> bool res" where
  "Bool_UnmarshalJSON theByte =
     (if length theByte \<noteq> 1 then Fail (TypesError T_ErrNotBool) else Ret (hd theByte = 49))"

text \<open>
  The nested array: one digit for the row length, then one digit per entry. A row that is longer than the
  first one runs past the buffer, which panics.
\<close>

fun BoolDoubleArray_write :: "bytes \<Rightarrow> nat \<Rightarrow> bool list \<Rightarrow> bytes res" where
  "BoolDoubleArray_write out idx [] = Ret out"
| "BoolDoubleArray_write out idx (b # bs) =
     (if idx < length out
      then BoolDoubleArray_write (out[idx := (if b then 49 else 48)]) (Suc idx) bs
      else Panic)"

definition BoolDoubleArray_MarshalJSON :: "bool list list \<Rightarrow> bytes res" where
  "BoolDoubleArray_MarshalJSON bary2 =
     (case bary2 of
        [] \<Rightarrow> Ret []
      | row # _ \<Rightarrow>
          (let n = length bary2; m = length row
           in if m = 0 then Ret []
              else BoolDoubleArray_write ((replicate (m * n + 1) 0)[0 := word_of_nat (m + 48)]) 1
                     (concat bary2)))"

fun BoolDoubleArray_rows :: "nat \<Rightarrow> nat \<Rightarrow> bytes \<Rightarrow> bool list list" where
  "BoolDoubleArray_rows 0 m pBytes = []"
| "BoolDoubleArray_rows (Suc i) m pBytes =
     map (\<lambda>b. b \<noteq> 48) (take m pBytes) # BoolDoubleArray_rows i m (drop m pBytes)"

text \<open>\<open>Ret None\<close> leaves the receiver as it was.\<close>

definition BoolDoubleArray_UnmarshalJSON :: "bytes \<Rightarrow> bool list list option res" where
  "BoolDoubleArray_UnmarshalJSON theBytes =
     (if length theBytes < 1 then Fail (TypesError T_ErrNotBoolDAry)
      else
        (let m = int (unat (hd theBytes)) - 48
         in if m < 0 \<or> m > 10 then Fail (TypesError T_ErrNotBoolDAry)
            else if m = 0 then Panic
            else
              (let n = (length theBytes - 1) div nat m
               in if n = 0 then Ret None
                  else Ret (Some (BoolDoubleArray_rows n (nat m) (tl theBytes))))))"

subsection \<open>Identifiers\<close>

lemmas id_size_defs = SizePttID_def AddressLength_def SizeSalt_def

lemma NewPttIDFromPubkeyPostfix_ok:
  assumes "length (addr key) = AddressLength" "length postfix = AddressLength"
  shows "NewPttIDFromPubkeyPostfix addr key postfix = Ret (addr key @ postfix)"
  using assms
  by (simp add: NewPttIDFromPubkeyPostfix_def NewPttIDFromAddrPostfix_def id_size_defs copy_into_def)

lemma NewPttIDFromKey_owner:
  assumes "length (addr key) = AddressLength" "NewPttIDFromKey addr rand key = Ret p"
  shows "IsSamePubKey addr p key"
  using assms
  by (auto simp: NewPttIDFromKey_def IsSamePubKey_def id_size_defs copy_into_def Let_def
      split: prod.splits if_splits)

lemma PttID_Unmarshal_ok [simp]: "length p = SizePttID \<Longrightarrow> PttID_Unmarshal p = Ret p"
  by (simp add: PttID_Unmarshal_def)

lemma slice_inner: "slice 1 (length ([q] @ b @ [q]) - 1) ([q] @ b @ [q]) = b"
  by (simp add: slice_def)

lemma Encode_longer: "Encode bs = Ret enc \<Longrightarrow> length bs \<le> length enc"
proof -
  assume encoded: "Encode bs = Ret enc"
  define z where "z = length (takeWhile (\<lambda>b. b = 0) bs)"
  define rest where "rest = dropWhile (\<lambda>b. b = 0) bs"
  obtain ds where ds: "enc = replicate z (encodeTable 0) @ map encodeTable ds"
    "canon 58 ds" "radix_val 58 ds = be_val rest"
    using Encode_shape [of bs] encoded unfolding z_def rest_def by auto
  have len: "length bs = z + length rest"
    unfolding z_def rest_def by (metis length_append takeWhile_dropWhile_id)
  have "length rest \<le> length ds"
  proof (cases rest)
    case (Cons b bs')
    have "rest \<noteq> []" using Cons by simp
    then have "hd rest \<noteq> 0" unfolding rest_def by (rule hd_dropWhile)
    then have "b \<noteq> 0" using Cons by simp
    then have "1 * 256 ^ length bs' \<le> unat b * 256 ^ length bs'"
      by (intro mult_le_mono1) (simp add: Suc_le_eq unat_gt_0)
    then have "256 ^ length bs' \<le> unat b * 256 ^ length bs' + be_val bs'" by linarith
    then have "256 ^ length bs' \<le> be_val rest" using Cons by simp
    also have "be_val rest < 58 ^ length ds"
      using radix_val_bound [of ds 58] ds by (simp add: canon_def)
    finally have big: "(256 :: nat) ^ length bs' < 58 ^ length ds" .
    show ?thesis
    proof (rule ccontr)
      assume "\<not> ?thesis"
      then have "(58 :: nat) ^ length ds \<le> 58 ^ length bs'" using Cons by (intro power_increasing) simp_all
      also have "\<dots> \<le> 256 ^ length bs'" by (rule power_mono) simp_all
      finally show False using big by simp
    qed
  qed simp
  with ds(1) len show ?thesis by simp
qed

lemma alphabet_no_quote: "34 \<notin> set BitcoinAlphabet"
proof
  let ?codes = "[49..<58] @ [65..<73] @ [74..<79] @ [80..<91] @ [97..<108] @ [109..<123]"
  assume "34 \<in> set BitcoinAlphabet"
  then have "(34 :: byte) \<in> word_of_nat ` set ?codes" by (simp only: BitcoinAlphabet_def set_map)
  then obtain n where n: "34 = (word_of_nat n :: byte)" "n \<in> set ?codes" by (rule imageE)
  then have "unat (34 :: byte) = unat (word_of_nat n :: byte)" "n < 256" by auto
  then have "n = 34" by (simp only: unat_of_nat) simp
  with n(2) show False by simp
qed

lemma Encode_no_quote: "Encode bs = Ret enc \<Longrightarrow> 34 \<notin> set enc"
proof -
  assume "Encode bs = Ret enc"
  then obtain ds z where t: "enc = replicate z (encodeTable 0) @ map encodeTable ds" "canon 58 ds"
    using Encode_shape [of bs] by auto
  have "encodeTable d \<noteq> 34" if "d < 58" for d
    using alphabet_no_quote nth_mem [of d BitcoinAlphabet] that
    unfolding encodeTable_def length_BitcoinAlphabet by metis
  from this [of 0] this t show ?thesis by (fastforce simp: canon_def)
qed

text \<open>The quoted and the bare text form of \<open>n\<close> bytes, read back as the methods do.\<close>

lemma base58_text:
  assumes "2 \<le> length bs"
  shows "\<exists>enc. Encode bs = Ret enc \<and> Decode enc = Ret bs \<and> 2 \<le> length enc \<and> hd enc \<noteq> 34"
proof -
  obtain enc where enc: "Encode bs = Ret enc" "Decode enc = Ret bs" using Decode_Encode by blast
  have "2 \<le> length enc" using Encode_longer [OF enc(1)] assms by simp
  moreover have "hd enc \<in> set enc" using \<open>2 \<le> length enc\<close> by (cases enc) auto
  ultimately show ?thesis using enc Encode_no_quote [OF enc(1)] by metis
qed

text \<open>
  C39: An identifier of 40 bytes survives its JSON form and its text form: \<^verbatim>\<open>MarshalJSON\<close> and
  \<^verbatim>\<open>MarshalText\<close> always return, and \<^verbatim>\<open>UnmarshalJSON\<close>, \<^verbatim>\<open>UnmarshalText\<close> and \<^verbatim>\<open>UnmarshalTextPttID\<close> on
  what they returned give the identifier back.
\<close>

theorem ptt_id_text_round_trip:
  assumes "length p = SizePttID"
  shows "\<exists>json text. PttID_MarshalJSON p = Ret json \<and> PttID_UnmarshalJSON json = Ret p \<and>
    PttID_MarshalText p = Ret text \<and> PttID_UnmarshalText text = Ret p \<and>
    UnmarshalTextPttID text isAllowNil = Ret (Some p)"
proof -
  obtain enc where enc: "Encode p = Ret enc" "Decode enc = Ret p" "2 \<le> length enc" "hd enc \<noteq> 34"
    using base58_text [of p] assms by (auto simp: id_size_defs)
  have m: "PttID_MarshalJSON p = Ret ([34] @ enc @ [34])"
    using enc(1) by (simp add: PttID_MarshalJSON_def quoteBytes_def)
  have t: "PttID_MarshalText p = Ret enc"
    unfolding PttID_MarshalText_def m res_bind_simps slice_inner ..
  have "PttID_UnmarshalJSON ([34] @ enc @ [34]) = Ret p"
    using enc(2) assms slice_inner [of 34 enc] by (simp add: PttID_UnmarshalJSON_def)
  moreover have u: "PttID_UnmarshalText enc = Ret p"
    using enc assms by (simp add: PttID_UnmarshalText_def PttID_UnmarshalJSON_def)
  moreover have "UnmarshalTextPttID enc isAllowNil = Ret (Some p)"
    using u enc(3) by (auto simp: UnmarshalTextPttID_def)
  ultimately show ?thesis using m t by blast
qed

theorem ptt_id_text_round_trip_witness:
  "\<exists>json text. PttID_MarshalJSON (replicate 40 7) = Ret json \<and> PttID_UnmarshalJSON json = Ret (replicate 40 7) \<and>
    PttID_MarshalText (replicate 40 7) = Ret text \<and> PttID_UnmarshalText text = Ret (replicate 40 7) \<and>
    UnmarshalTextPttID text False = Ret (Some (replicate 40 7))"
  by (rule ptt_id_text_round_trip) (simp add: id_size_defs)

lemma Salt_JSON_round_trip:
  assumes "length s = SizeSalt"
  shows "\<exists>json. Salt_MarshalJSON s = Ret json \<and> Salt_UnmarshalJSON json = Ret s"
proof -
  obtain enc where enc: "Encode s = Ret enc" "Decode enc = Ret s"
    using base58_text [of s] assms by (auto simp: id_size_defs)
  then have "Salt_MarshalJSON s = Ret ([34] @ enc @ [34])"
    by (simp add: Salt_MarshalJSON_def quoteBytes_def)
  moreover have "Salt_UnmarshalJSON ([34] @ enc @ [34]) = Ret s"
    using enc assms slice_inner [of 34 enc] by (simp add: Salt_UnmarshalJSON_def)
  ultimately show ?thesis by blast
qed

subsection \<open>Booleans\<close>

lemma Bool_round_trip: "res_bind (Bool_MarshalJSON b) Bool_UnmarshalJSON = Ret b"
  by (simp add: Bool_MarshalJSON_def Bool_UnmarshalJSON_def)

definition digit_of :: "bool \<Rightarrow> byte" where
  "digit_of b = (if b then 49 else 48)"

lemma BoolDoubleArray_write_ok:
  "idx + length bs \<le> length out \<Longrightarrow>
   BoolDoubleArray_write out idx bs =
     Ret (take idx out @ map digit_of bs @ drop (idx + length bs) out)"
proof (induction bs arbitrary: out idx)
  case (Cons b bs)
  let ?out = "out[idx := digit_of b]"
  have i: "idx < length out" using Cons.prems by simp
  have "BoolDoubleArray_write ?out (Suc idx) bs =
      Ret (take (Suc idx) ?out @ map digit_of bs @ drop (Suc idx + length bs) ?out)"
    using Cons.prems by (intro Cons.IH) simp
  moreover have "take (Suc idx) ?out = take idx out @ [digit_of b]"
    using i by (simp add: take_Suc_conv_app_nth)
  moreover have "drop (Suc idx + length bs) ?out = drop (Suc idx + length bs) out"
    by simp
  ultimately show ?case using i by (simp add: digit_of_def split: if_splits)
qed simp

lemma BoolDoubleArray_rows_ok:
  "\<forall>row \<in> set rows. length row = m \<Longrightarrow>
   BoolDoubleArray_rows (length rows) m (map digit_of (concat rows)) = rows"
  by (induction rows) (auto simp: digit_of_def comp_def intro!: map_idI)

text \<open>
  A rectangle of at most ten columns survives the compact form.
\<close>

lemma BoolDoubleArray_round_trip:
  assumes "rows \<noteq> []" "\<forall>row \<in> set rows. length row = m" "0 < m" "m \<le> 10"
  shows "res_bind (BoolDoubleArray_MarshalJSON rows) BoolDoubleArray_UnmarshalJSON = Ret (Some rows)"
proof -
  have m: "length (hd rows) = m" using assms by simp
  have total: "length (concat rows) = m * length rows"
    using assms(2) by (induction rows) auto
  let ?out = "(replicate (m * length rows + 1) (0 :: byte))[0 := word_of_nat (m + 48)]"
  have "BoolDoubleArray_MarshalJSON rows = BoolDoubleArray_write ?out 1 (concat rows)"
    using assms m by (cases rows) (simp_all add: BoolDoubleArray_MarshalJSON_def Let_def)
  also have "\<dots> = Ret (word_of_nat (m + 48) # map digit_of (concat rows))"
    using total by (subst BoolDoubleArray_write_ok) simp_all
  finally have enc: "BoolDoubleArray_MarshalJSON rows = Ret (word_of_nat (m + 48) # map digit_of (concat rows))" .
  have "unat (word_of_nat (m + 48) :: byte) = m + 48"
    using assms(4) by (subst unat_of_nat) simp
  moreover have "length (map digit_of (concat rows)) div m = length rows"
    using total assms(3) by simp
  moreover have "nat (int (m + 48) - 48) = m" by simp
  ultimately show ?thesis
    using assms BoolDoubleArray_rows_ok [OF assms(2)]
    by (simp add: enc BoolDoubleArray_UnmarshalJSON_def Let_def del: of_nat_add of_nat_numeral length_map)
qed

text \<open>
  The row length is a divisor before it is compared with zero, so the one-byte text \<^verbatim>\<open>0\<close> stops
  the program.
\<close>

lemma BoolDoubleArray_zero_panics: "BoolDoubleArray_UnmarshalJSON (48 # bs) = Panic"
  by (simp add: BoolDoubleArray_UnmarshalJSON_def)

end
