(* ===== verification/Signing_Keys.thy ===== *)
theory Signing_Keys
  imports Ptt_Ids Timestamps Statuses
begin

text \<open>
  Keys and signatures: \<^verbatim>\<open>key/bip32/key.go\<close>, \<^verbatim>\<open>key/key.go\<close>, \<^verbatim>\<open>service/key_info.go\<close>,
  \<^verbatim>\<open>service/key_types.go\<close> and the signing helpers of \<^verbatim>\<open>service/utils.go\<close>.

  \<open>ecc\<close> is what the program takes from its cryptographic libraries: the order of the curve, the
  multiplication of the base point, the addition of points, the test whether a point is on the curve,
  HMAC-SHA512, Keccak-256, and the signature scheme. A private key is its scalar, a public key its
  point. \<open>ecc_ok\<close> states the documented facts about them: the group law, the lengths of the
  digests, and that a signature made with a key verifies under its public key.

  \<^verbatim>\<open>PubkeyBytes\<close> memoises its result in the key it is called on, which no caller can observe; it is a
  function here. The data of a \<^verbatim>\<open>KeyExtraInfo\<close> is an arbitrary JSON value: \<open>ke_Data\<close> is what
  \<^verbatim>\<open>GetData\<close> decodes it to, \<open>None\<close> if it does not decode.
\<close>

subsection \<open>Definitions\<close>

type_synonym PrivateKey = nat
type_synonym PublicKey = "nat \<times> nat"

record ecc =
  ecc_N :: nat
  ScalarBaseMult :: "nat \<Rightarrow> PublicKey"
  ecc_Add :: "PublicKey \<Rightarrow> PublicKey \<Rightarrow> PublicKey"
  IsOnCurve :: "PublicKey \<Rightarrow> bool"
  ecc_hmac512 :: "bytes \<Rightarrow> bytes \<Rightarrow> bytes"
  Keccak256 :: "bytes \<Rightarrow> bytes"
  crypto_Sign :: "bytes \<Rightarrow> PrivateKey \<Rightarrow> bytes res"
  VerifySignature :: "bytes \<Rightarrow> bytes \<Rightarrow> bytes \<Rightarrow> bool"

definition FromECDSA :: "PrivateKey \<Rightarrow> bytes" where
  "FromECDSA priv = be_bytes 32 priv"

definition ToECDSA :: "ecc \<Rightarrow> bytes \<Rightarrow> PrivateKey res" where
  "ToECDSA E d =
     (if 8 * length d \<noteq> 256 then Fail (CryptoError 0)
      else if ecc_N E \<le> be_val d then Fail (CryptoError 1)
      else if be_val d = 0 then Fail (CryptoError 2)
      else Ret (be_val d))"

definition FromECDSAPub :: "PublicKey \<Rightarrow> bytes" where
  "FromECDSAPub pub = 4 # be_bytes 32 (fst pub) @ be_bytes 32 (snd pub)"

definition UnmarshalPubkey :: "ecc \<Rightarrow> bytes \<Rightarrow> PublicKey res" where
  "UnmarshalPubkey E pub =
     (if length pub \<noteq> 65 \<or> hd pub \<noteq> 4 then Fail (CryptoError 3)
      else
        (let p = (be_val (slice 1 33 pub), be_val (slice 33 65 pub))
         in if IsOnCurve E p then Ret p else Fail (CryptoError 3)))"

definition PubkeyBytesToAddress :: "ecc \<Rightarrow> bytes \<Rightarrow> bytes" where
  "PubkeyBytesToAddress E pubBytes = slice 12 32 (Keccak256 E (tl pubBytes))"

definition PubkeyToAddress :: "ecc \<Rightarrow> PublicKey \<Rightarrow> bytes" where
  "PubkeyToAddress E p = PubkeyBytesToAddress E (FromECDSAPub p)"

record ExtendedKey =
  ek_key :: bytes
  ek_chainCode :: bytes
  ek_childNum :: u32
  ek_isPrivate :: bool

definition PrivKeyToExtKey :: "PrivateKey \<Rightarrow> bytes \<Rightarrow> ExtendedKey" where
  "PrivKeyToExtKey key chainCode =
     \<lparr>ek_key = FromECDSA key, ek_chainCode = chainCode, ek_childNum = 0, ek_isPrivate = True\<rparr>"

definition PubKeyToExtKey :: "PublicKey \<Rightarrow> bytes \<Rightarrow> ExtendedKey" where
  "PubKeyToExtKey pub chainCode =
     \<lparr>ek_key = FromECDSAPub pub, ek_chainCode = chainCode, ek_childNum = 0, ek_isPrivate = False\<rparr>"

text \<open>\<^verbatim>\<open>crypto.ToECDSA\<close>'s error is dropped and its nil result dereferenced.\<close>

definition PubkeyBytes :: "ecc \<Rightarrow> ExtendedKey \<Rightarrow> bytes res" where
  "PubkeyBytes E k =
     (if \<not> ek_isPrivate k then Ret (ek_key k)
      else (case ToECDSA E (ek_key k) of
              Ret key \<Rightarrow> Ret (FromECDSAPub (ScalarBaseMult E key))
            | _ \<Rightarrow> Panic))"

definition ToPrivkey :: "ecc \<Rightarrow> ExtendedKey \<Rightarrow> PrivateKey res" where
  "ToPrivkey E k = (if \<not> ek_isPrivate k then Fail (CryptoError 4) else ToECDSA E (ek_key k))"

definition ToPubkey :: "ecc \<Rightarrow> ExtendedKey \<Rightarrow> PublicKey res" where
  "ToPubkey E k = res_bind (PubkeyBytes E k) (UnmarshalPubkey E)"

definition PrivkeyBytes :: "ExtendedKey \<Rightarrow> bytes res" where
  "PrivkeyBytes k = (if \<not> ek_isPrivate k then Fail (CryptoError 4) else Ret (ek_key k))"

text \<open>\<^verbatim>\<open>big.Int.Bytes\<close>: the big-endian bytes without leading zeros.\<close>

function nat_bytes :: "nat \<Rightarrow> bytes" where
  "nat_bytes n = (if n = 0 then [] else nat_bytes (n div 256) @ [word_of_nat (n mod 256)])"
  by pat_completeness auto
termination
  by (relation "measure id") auto

declare nat_bytes.simps [simp del]

definition ErrInvalidChild :: go_error where
  "ErrInvalidChild = CryptoError 5"

definition Child_priv :: "ecc \<Rightarrow> bytes \<Rightarrow> nat \<Rightarrow> bytes res" where
  "Child_priv E key ilNum =
     (let childKey = nat_bytes ((ilNum + be_val key) mod ecc_N E)
      in if length childKey * 8 \<noteq> 256 then Fail ErrInvalidChild else Ret childKey)"

definition Child_pub :: "ecc \<Rightarrow> bytes \<Rightarrow> nat \<Rightarrow> bytes res" where
  "Child_pub E key ilNum =
     (let il = ScalarBaseMult E ilNum
      in if fst il = 0 \<or> snd il = 0 then Fail ErrInvalidChild
         else res_bind (UnmarshalPubkey E key) (\<lambda>pubKey. Ret (FromECDSAPub (ecc_Add E il pubKey))))"

definition Child :: "ecc \<Rightarrow> ExtendedKey \<Rightarrow> u32 \<Rightarrow> ExtendedKey res" where
  "Child E k idx =
     res_bind (PubkeyBytes E k) (\<lambda>pubBytes.
       if length pubBytes < 33 then Panic
       else
         (let ilr = ecc_hmac512 E (ek_chainCode k) (take 33 pubBytes @ PutUint32 idx);
              il = take (length ilr div 2) ilr;
              childChainCode = drop (length ilr div 2) ilr;
              ilNum = be_val il
          in if ecc_N E \<le> ilNum \<or> ilNum = 0 then Fail ErrInvalidChild
             else res_bind (if ek_isPrivate k then Child_priv E (ek_key k) ilNum
                            else Child_pub E (ek_key k) ilNum)
                    (\<lambda>childKey.
                       Ret \<lparr>ek_key = childKey, ek_chainCode = childChainCode, ek_childNum = idx,
                            ek_isPrivate = ek_isPrivate k\<rparr>)))"

definition bip32_Key :: "ecc \<Rightarrow> Salt res \<Rightarrow> PrivateKey \<Rightarrow> u32 \<Rightarrow> (ExtendedKey \<times> Salt) res" where
  "bip32_Key E newSalt masterKey idx =
     res_bind newSalt (\<lambda>salt.
       res_bind (Child E (PrivKeyToExtKey masterKey salt) idx) (\<lambda>k. Ret (k, salt)))"

definition KeyTypeBIP32 :: byte where
  "KeyTypeBIP32 = 1"

record KeyBIP32 =
  bip_Parent :: bytes
  bip_Salt :: "Salt option"
  bip_Child :: u32

record KeyExtraInfo =
  ke_KeyType :: byte
  ke_Data :: "KeyBIP32 option"

text \<open>A missing salt is a nil pointer to an array, which the slice expression dereferences.\<close>

definition IsValidBIP32 :: "ecc \<Rightarrow> KeyExtraInfo \<Rightarrow> bytes \<Rightarrow> PttID \<Rightarrow> bool res" where
  "IsValidBIP32 E k pubKeyBytes doerID =
     (case ke_Data k of
        None \<Rightarrow> Ret False
      | Some keyBIP32 \<Rightarrow>
          (case UnmarshalPubkey E (bip_Parent keyBIP32) of
             Ret parentPubKey \<Rightarrow>
               if \<not> IsSamePubKey (PubkeyToAddress E) doerID parentPubKey then Ret False
               else (case bip_Salt keyBIP32 of
                       None \<Rightarrow> Panic
                     | Some salt \<Rightarrow>
                         (case Child E (PubKeyToExtKey parentPubKey salt) (bip_Child keyBIP32) of
                            Ret childKey \<Rightarrow>
                              res_bind (PubkeyBytes E childKey) (\<lambda>b. Ret (b = pubKeyBytes))
                          | Fail _ \<Rightarrow> Ret False
                          | Panic \<Rightarrow> Panic))
           | Fail _ \<Rightarrow> Ret False
           | Panic \<Rightarrow> Panic))"

definition KeyExtraInfo_IsValid :: "ecc \<Rightarrow> KeyExtraInfo \<Rightarrow> bytes \<Rightarrow> PttID \<Rightarrow> bool res" where
  "KeyExtraInfo_IsValid E k pubKeyBytes doerID =
     (if ke_KeyType k = KeyTypeBIP32 then IsValidBIP32 E k pubKeyBytes doerID else Ret False)"

definition MaxIterDeriveKeyBIP32 :: nat where
  "MaxIterDeriveKeyBIP32 = 10"

text \<open>
  The loop of \<^verbatim>\<open>deriveKeyBIP32\<close>: \<open>n\<close> attempts are left, each with a salt of its own, and
  the last error is returned when all of them fail.
\<close>

fun deriveKeyBIP32_loop ::
  "ecc \<Rightarrow> (nat \<Rightarrow> Salt res) \<Rightarrow> PrivateKey \<Rightarrow> nat \<Rightarrow> nat \<Rightarrow> (ExtendedKey \<times> Salt) res \<Rightarrow>
   ((ExtendedKey \<times> Salt) \<times> nat) res" where
  "deriveKeyBIP32_loop E salts masterKey idx 0 lastErr = res_bind lastErr (\<lambda>r. Ret (r, idx))"
| "deriveKeyBIP32_loop E salts masterKey idx (Suc n) lastErr =
     (case bip32_Key E (salts idx) masterKey (word_of_nat idx) of
        Ret r \<Rightarrow> Ret (r, idx)
      | Fail e \<Rightarrow> deriveKeyBIP32_loop E salts masterKey (Suc idx) n (Fail e)
      | Panic \<Rightarrow> Panic)"

definition deriveKeyBIP32 :: "ecc \<Rightarrow> (nat \<Rightarrow> Salt res) \<Rightarrow> PrivateKey \<Rightarrow> (ExtendedKey \<times> KeyExtraInfo) res" where
  "deriveKeyBIP32 E salts masterKey =
     res_bind (deriveKeyBIP32_loop E salts masterKey 0 MaxIterDeriveKeyBIP32 (Fail ErrInvalidChild))
       (\<lambda>((extendedKey, salt), idx).
          Ret (extendedKey,
            \<lparr>ke_KeyType = KeyTypeBIP32,
             ke_Data = Some \<lparr>bip_Parent = FromECDSAPub (ScalarBaseMult E masterKey),
                             bip_Salt = Some salt, bip_Child = word_of_nat idx\<rparr>\<rparr>))"

record KeyInfo =
  ki_ID :: PttID
  ki_CreateTS :: Timestamp
  ki_CreatorID :: "PttID option"
  ki_EntityID :: "PttID option"
  ki_Status :: Status
  ki_Hash :: bytes
  ki_Key :: PrivateKey
  ki_KeyBytes :: bytes
  ki_PubKeyBytes :: bytes
  ki_UpdateTS :: Timestamp
  ki_Extra :: "KeyExtraInfo option"
  ki_Count :: int

definition keyInfoIDToHash :: "PttID \<Rightarrow> bytes" where
  "keyInfoIDToHash theID = copy_into (replicate AddressLength 0) (take AddressLength theID)"

definition keyInfoHashToID :: "bytes \<Rightarrow> PttID" where
  "keyInfoHashToID hash =
     copy_into (replicate AddressLength 0) hash @ replicate (SizePttID - AddressLength) 0"

definition newKeyInfo ::
  "ecc \<Rightarrow> Timestamp res \<Rightarrow> ExtendedKey \<Rightarrow> KeyExtraInfo option \<Rightarrow> PttID option \<Rightarrow> PttID option \<Rightarrow> KeyInfo res" where
  "newKeyInfo E getTS extendedKey extra entityID doerID =
     res_bind (ToPrivkey E extendedKey) (\<lambda>privKey.
     res_bind (PrivkeyBytes extendedKey) (\<lambda>privBytes.
     res_bind (PubkeyBytes E extendedKey) (\<lambda>pubBytes.
     let hash = PubkeyBytesToAddress E pubBytes
     in res_bind getTS (\<lambda>ts.
          Ret \<lparr>ki_ID = keyInfoHashToID hash, ki_CreateTS = ts, ki_CreatorID = doerID, ki_EntityID = entityID,
               ki_Status = StatusInvalid, ki_Hash = hash, ki_Key = privKey, ki_KeyBytes = privBytes,
               ki_PubKeyBytes = pubBytes, ki_UpdateTS = ts, ki_Extra = extra, ki_Count = 0\<rparr>))))"

definition NewJoinKeyInfo :: "ecc \<Rightarrow> PrivateKey res \<Rightarrow> Timestamp res \<Rightarrow> PttID \<Rightarrow> KeyInfo res" where
  "NewJoinKeyInfo E generateKey getTS entityID =
     res_bind generateKey (\<lambda>key. newKeyInfo E getTS (PrivKeyToExtKey key []) None (Some entityID) None)"

definition NewOpKeyInfo ::
  "ecc \<Rightarrow> (nat \<Rightarrow> Salt res) \<Rightarrow> Timestamp res \<Rightarrow> PttID \<Rightarrow> PttID \<Rightarrow> PrivateKey \<Rightarrow> KeyInfo res" where
  "NewOpKeyInfo E salts getTS entityID doerID masterKey =
     res_bind (deriveKeyBIP32 E salts masterKey) (\<lambda>(key, extra).
       newKeyInfo E getTS key (Some extra) (Some entityID) (Some doerID))"

definition NewSignKeyInfo ::
  "ecc \<Rightarrow> (nat \<Rightarrow> Salt res) \<Rightarrow> Timestamp res \<Rightarrow> PttID \<Rightarrow> PrivateKey \<Rightarrow> KeyInfo res" where
  "NewSignKeyInfo E salts getTS doerID masterKey =
     res_bind (deriveKeyBIP32 E salts masterKey) (\<lambda>(key, extra).
       newKeyInfo E getTS key (Some extra) None (Some doerID))"

text \<open>
  \<^verbatim>\<open>SignData\<close> returns the data with its salt, the hash, the signature and the public key, and
  counts the use of the key.
\<close>

definition SignData ::
  "ecc \<Rightarrow> Salt res \<Rightarrow> bytes \<Rightarrow> KeyInfo \<Rightarrow> (bytes \<times> bytes \<times> bytes \<times> bytes) res \<times> KeyInfo" where
  "SignData E newSalt dat keyInfo =
     (case newSalt of
        Fail e \<Rightarrow> (Fail e, keyInfo)
      | Panic \<Rightarrow> (Panic, keyInfo)
      | Ret salt \<Rightarrow>
          (let bytesWithSalt = dat @ salt;
               hash = Keccak256 E bytesWithSalt
           in case crypto_Sign E hash (ki_Key keyInfo) of
                Fail e \<Rightarrow> (Fail e, keyInfo)
              | Panic \<Rightarrow> (Panic, keyInfo)
              | Ret sig \<Rightarrow>
                  (Ret (bytesWithSalt, hash, sig, ki_PubKeyBytes keyInfo),
                   keyInfo\<lparr>ki_Count := ki_Count keyInfo + 1\<rparr>)))"

definition verifyDataCheckKey :: "ecc \<Rightarrow> bytes \<Rightarrow> PttID \<Rightarrow> KeyExtraInfo option \<Rightarrow> bool res" where
  "verifyDataCheckKey E pubKeyBytes doerID extra =
     (case extra of
        None \<Rightarrow>
          (case UnmarshalPubkey E pubKeyBytes of
             Ret pubKey \<Rightarrow> Ret (IsSamePubKey (PubkeyToAddress E) doerID pubKey)
           | _ \<Rightarrow> Ret False)
      | Some k \<Rightarrow> KeyExtraInfo_IsValid E k pubKeyBytes doerID)"

definition VerifyData ::
  "ecc \<Rightarrow> bytes \<Rightarrow> bytes \<Rightarrow> bytes \<Rightarrow> bytes \<Rightarrow> PttID \<Rightarrow> KeyExtraInfo option \<Rightarrow> unit res" where
  "VerifyData E bytesWithSalt expectedHash sig pubKeyBytes doerID extra =
     res_bind (verifyDataCheckKey E pubKeyBytes doerID extra) (\<lambda>isValidKey.
       if \<not> isValidKey then Fail (ServiceError S_ErrInvalidKey)
       else
         (let hash = Keccak256 E bytesWithSalt
          in if hash \<noteq> expectedHash then Fail (ServiceError S_ErrInvalidData)
             else if length sig < 64 then Panic
             else if \<not> VerifySignature E pubKeyBytes hash (take 64 sig) then Fail (ServiceError S_ErrInvalidData)
             else Ret ()))"

subsection \<open>What the libraries promise\<close>

definition scalar_ok :: "ecc \<Rightarrow> nat \<Rightarrow> bool" where
  "scalar_ok E d \<longleftrightarrow> 0 < d \<and> d < ecc_N E"

definition ecc_ok :: "ecc \<Rightarrow> bool" where
  "ecc_ok E \<longleftrightarrow> ecc_N E \<le> 256 ^ 32 \<and>
     (\<forall>d. scalar_ok E d \<longrightarrow> IsOnCurve E (ScalarBaseMult E d) \<and>
        0 < fst (ScalarBaseMult E d) \<and> fst (ScalarBaseMult E d) < 256 ^ 32 \<and>
        0 < snd (ScalarBaseMult E d) \<and> snd (ScalarBaseMult E d) < 256 ^ 32) \<and>
     (\<forall>a b. scalar_ok E a \<longrightarrow> scalar_ok E b \<longrightarrow> (a + b) mod ecc_N E \<noteq> 0 \<longrightarrow>
        ecc_Add E (ScalarBaseMult E a) (ScalarBaseMult E b) = ScalarBaseMult E ((a + b) mod ecc_N E)) \<and>
     (\<forall>b. length (Keccak256 E b) = 32) \<and>
     (\<forall>h d sig. scalar_ok E d \<longrightarrow> crypto_Sign E h d = Ret sig \<longrightarrow>
        length sig = 65 \<and> VerifySignature E (FromECDSAPub (ScalarBaseMult E d)) h (take 64 sig))"

lemma ecc_okD:
  assumes "ecc_ok E"
  shows "ecc_N E \<le> 256 ^ 32" "length (Keccak256 E b) = 32"
    and "scalar_ok E d \<Longrightarrow> IsOnCurve E (ScalarBaseMult E d) \<and>
        0 < fst (ScalarBaseMult E d) \<and> fst (ScalarBaseMult E d) < 256 ^ 32 \<and>
        0 < snd (ScalarBaseMult E d) \<and> snd (ScalarBaseMult E d) < 256 ^ 32"
    and "scalar_ok E a \<Longrightarrow> scalar_ok E d \<Longrightarrow> (a + d) mod ecc_N E \<noteq> 0 \<Longrightarrow>
        ecc_Add E (ScalarBaseMult E a) (ScalarBaseMult E d) = ScalarBaseMult E ((a + d) mod ecc_N E)"
    and "scalar_ok E d \<Longrightarrow> crypto_Sign E h d = Ret sig \<Longrightarrow>
        length sig = 65 \<and> VerifySignature E (FromECDSAPub (ScalarBaseMult E d)) h (take 64 sig)"
  using assms unfolding ecc_ok_def by blast+

subsection \<open>Encodings\<close>

lemma nat_bytes_val: "be_val (nat_bytes n) = n"
proof (induction n rule: nat_bytes.induct)
  case (1 n)
  have app: "be_val (xs @ [b]) = be_val xs * 256 + unat b" for xs and b :: byte
    by (simp add: be_val_def)
  show ?case
  proof (cases "n = 0")
    case False
    then have "be_val (nat_bytes n) = n div 256 * 256 + unat (word_of_nat (n mod 256) :: byte)"
      using 1 by (subst nat_bytes.simps) (simp add: app)
    also have "unat (word_of_nat (n mod 256) :: byte) = n mod 256"
      by (subst unat_of_nat) simp
    finally show ?thesis by simp
  qed (simp add: nat_bytes.simps)
qed

lemma length_FromECDSAPub [simp]: "length (FromECDSAPub p) = 65"
  by (simp add: FromECDSAPub_def)

lemma UnmarshalPubkey_FromECDSAPub:
  assumes "fst p < 256 ^ 32" "snd p < 256 ^ 32" "IsOnCurve E p"
  shows "UnmarshalPubkey E (FromECDSAPub p) = Ret p"
proof -
  have "slice 1 33 (FromECDSAPub p) = be_bytes 32 (fst p)"
    "slice 33 65 (FromECDSAPub p) = be_bytes 32 (snd p)"
    by (simp_all add: FromECDSAPub_def slice_def)
  moreover have "hd (FromECDSAPub p) = 4" by (simp add: FromECDSAPub_def)
  ultimately show ?thesis using assms
    by (simp add: UnmarshalPubkey_def be_val_be_bytes)
qed

lemma UnmarshalPubkey_base:
  assumes "ecc_ok E" "scalar_ok E d"
  shows "UnmarshalPubkey E (FromECDSAPub (ScalarBaseMult E d)) = Ret (ScalarBaseMult E d)"
  using ecc_okD(3) [OF assms] by (intro UnmarshalPubkey_FromECDSAPub) blast+

lemma ToECDSA_FromECDSA:
  assumes "ecc_ok E" "scalar_ok E d"
  shows "ToECDSA E (FromECDSA d) = Ret d"
proof -
  have "be_val (FromECDSA d) = d"
    using assms(2) ecc_okD(1) [OF assms(1)] unfolding scalar_ok_def FromECDSA_def be_val_be_bytes
    by (intro mod_less) linarith
  then show ?thesis using assms(2) by (simp add: ToECDSA_def scalar_ok_def FromECDSA_def)
qed

lemma length_PubkeyToAddress: "ecc_ok E \<Longrightarrow> length (PubkeyToAddress E p) = AddressLength"
  by (simp add: PubkeyToAddress_def PubkeyBytesToAddress_def ecc_okD(2) AddressLength_def)

lemma keyInfoID_round_trip: "length h = AddressLength \<Longrightarrow> keyInfoIDToHash (keyInfoHashToID h) = h"
  by (simp add: keyInfoIDToHash_def keyInfoHashToID_def)

subsection \<open>Derived keys\<close>

lemma PubkeyBytes_priv:
  "ecc_ok E \<Longrightarrow> scalar_ok E d \<Longrightarrow>
   PubkeyBytes E (PrivKeyToExtKey d cc) = Ret (FromECDSAPub (ScalarBaseMult E d))"
  by (simp add: PubkeyBytes_def PrivKeyToExtKey_def ToECDSA_FromECDSA)

text \<open>
  The scalar \<open>s\<close> that one derivation step adds to the parent's, and the chain code it leaves: they
  depend on the parent's public key only.
\<close>

definition child_digest :: "ecc \<Rightarrow> bytes \<Rightarrow> bytes \<Rightarrow> u32 \<Rightarrow> nat \<times> bytes" where
  "child_digest E cc pubBytes idx =
     (let ilr = ecc_hmac512 E cc (take 33 pubBytes @ PutUint32 idx)
      in (be_val (take (length ilr div 2) ilr), drop (length ilr div 2) ilr))"

lemma Child_priv_ok:
  assumes E: "ecc_ok E" "scalar_ok E d" and run: "Child E (PrivKeyToExtKey d cc) idx = Ret c"
  shows "\<exists>s cc'. child_digest E cc (FromECDSAPub (ScalarBaseMult E d)) idx = (s, cc') \<and> scalar_ok E s \<and>
    scalar_ok E ((s + d) mod ecc_N E) \<and> be_val (ek_key c) = (s + d) mod ecc_N E \<and>
    length (ek_key c) = 32 \<and> ek_isPrivate c \<and> ek_chainCode c = cc' \<and>
    PubkeyBytes E c = Ret (FromECDSAPub (ScalarBaseMult E ((s + d) mod ecc_N E)))"
proof -
  let ?pub = "FromECDSAPub (ScalarBaseMult E d)"
  obtain s cc' where s: "child_digest E cc ?pub idx = (s, cc')" by fastforce
  have key: "ek_isPrivate (PrivKeyToExtKey d cc)" "ek_chainCode (PrivKeyToExtKey d cc) = cc"
    "ek_key (PrivKeyToExtKey d cc) = FromECDSA d" by (simp_all add: PrivKeyToExtKey_def)
  have val: "be_val (FromECDSA d) = d"
    using E(2) ecc_okD(1) [OF E(1)] unfolding scalar_ok_def FromECDSA_def be_val_be_bytes
    by (intro mod_less) linarith
  have c: "s < ecc_N E" "s \<noteq> 0" "length (nat_bytes ((s + d) mod ecc_N E)) = 32"
    "c = \<lparr>ek_key = nat_bytes ((s + d) mod ecc_N E), ek_chainCode = cc', ek_childNum = idx, ek_isPrivate = True\<rparr>"
    using run s PubkeyBytes_priv [OF E, of cc] key val
    by (auto simp: Child_def Child_priv_def child_digest_def Let_def split: if_splits)
  have "nat_bytes 0 = []" by (simp add: nat_bytes.simps)
  then have "(s + d) mod ecc_N E \<noteq> 0" using c(3) by (metis list.size(3) zero_neq_numeral)
  then have sc: "scalar_ok E s" "scalar_ok E ((s + d) mod ecc_N E)"
    using c(1,2) by (auto simp: scalar_ok_def)
  moreover have "PubkeyBytes E c = Ret (FromECDSAPub (ScalarBaseMult E ((s + d) mod ecc_N E)))"
    using sc(2) c(3,4) by (simp add: PubkeyBytes_def ToECDSA_def nat_bytes_val scalar_ok_def not_le)
  ultimately show ?thesis using s c by (simp add: nat_bytes_val)
qed

lemma Child_pub_ok:
  assumes E: "ecc_ok E" "scalar_ok E d"
    and s: "child_digest E cc (FromECDSAPub (ScalarBaseMult E d)) idx = (s, cc')" "scalar_ok E s"
      "scalar_ok E ((s + d) mod ecc_N E)"
  shows "Child E (PubKeyToExtKey (ScalarBaseMult E d) cc) idx =
    Ret \<lparr>ek_key = FromECDSAPub (ScalarBaseMult E ((s + d) mod ecc_N E)), ek_chainCode = cc',
         ek_childNum = idx, ek_isPrivate = False\<rparr>"
proof -
  have "ecc_Add E (ScalarBaseMult E s) (ScalarBaseMult E d) = ScalarBaseMult E ((s + d) mod ecc_N E)"
    using ecc_okD(4) [OF E(1) s(2) E(2)] s(3) by (simp add: scalar_ok_def)
  moreover have "fst (ScalarBaseMult E s) \<noteq> 0" "snd (ScalarBaseMult E s) \<noteq> 0"
    using ecc_okD(3) [OF E(1) s(2)] by auto
  ultimately show ?thesis
    using s UnmarshalPubkey_base [OF E]
    by (auto simp: Child_def Child_pub_def PubKeyToExtKey_def PubkeyBytes_def child_digest_def Let_def
        scalar_ok_def)
qed

lemma deriveKeyBIP32_loop_ok:
  assumes "deriveKeyBIP32_loop E salts d idx n lastErr = Ret ((k, salt), i)" "\<And>r. lastErr \<noteq> Ret r"
  shows "Child E (PrivKeyToExtKey d salt) (word_of_nat i) = Ret k"
  using assms
proof (induction n arbitrary: idx lastErr)
  case 0
  then show ?case by (cases lastErr) auto
next
  case (Suc n)
  then show ?case
    by (auto simp: bip32_Key_def res_bind_eq_Ret split: res.splits)
qed

lemma derived_key_accepted:
  assumes E: "ecc_ok E" "scalar_ok E d"
    and id: "IsSamePubKey (PubkeyToAddress E) doerID (ScalarBaseMult E d)"
    and run: "deriveKeyBIP32 E salts d = Ret (k, extra)"
  shows "\<exists>e. scalar_ok E e \<and> ToPrivkey E k = Ret e \<and>
    PubkeyBytes E k = Ret (FromECDSAPub (ScalarBaseMult E e)) \<and>
    KeyExtraInfo_IsValid E extra (FromECDSAPub (ScalarBaseMult E e)) doerID = Ret True"
proof -
  obtain salt i where r: "deriveKeyBIP32_loop E salts d 0 MaxIterDeriveKeyBIP32 (Fail ErrInvalidChild) = Ret ((k, salt), i)"
    and ex: "extra = \<lparr>ke_KeyType = KeyTypeBIP32,
             ke_Data = Some \<lparr>bip_Parent = FromECDSAPub (ScalarBaseMult E d),
                             bip_Salt = Some salt, bip_Child = word_of_nat i\<rparr>\<rparr>"
    using run by (auto simp: deriveKeyBIP32_def res_bind_eq_Ret)
  have "Child E (PrivKeyToExtKey d salt) (word_of_nat i) = Ret k"
    using deriveKeyBIP32_loop_ok [OF r] by simp
  from Child_priv_ok [OF E this] obtain s cc' where
    s: "child_digest E salt (FromECDSAPub (ScalarBaseMult E d)) (word_of_nat i) = (s, cc')" "scalar_ok E s"
      "scalar_ok E ((s + d) mod ecc_N E)" "be_val (ek_key k) = (s + d) mod ecc_N E" "length (ek_key k) = 32"
      "ek_isPrivate k" "PubkeyBytes E k = Ret (FromECDSAPub (ScalarBaseMult E ((s + d) mod ecc_N E)))"
    by blast
  have "(s + d) mod ecc_N E < ecc_N E" "(s + d) mod ecc_N E \<noteq> 0" using s(3) by (auto simp: scalar_ok_def)
  then have "ToPrivkey E k = Ret ((s + d) mod ecc_N E)"
    using s(4-6) by (simp add: ToPrivkey_def ToECDSA_def not_le)
  moreover have "KeyExtraInfo_IsValid E extra (FromECDSAPub (ScalarBaseMult E ((s + d) mod ecc_N E))) doerID = Ret True"
    using id Child_pub_ok [OF E s(1-3)] UnmarshalPubkey_base [OF E]
    by (simp add: ex KeyExtraInfo_IsValid_def IsValidBIP32_def PubkeyBytes_def)
  ultimately show ?thesis using s by blast
qed

text \<open>
  A key a node may sign with: its public key belongs to the private key, and the check that other nodes
  run accepts it for \<open>doerID\<close>.
\<close>

definition key_usable :: "ecc \<Rightarrow> PttID \<Rightarrow> KeyInfo \<Rightarrow> bool" where
  "key_usable E doerID ki \<longleftrightarrow> scalar_ok E (ki_Key ki) \<and>
     ki_PubKeyBytes ki = FromECDSAPub (ScalarBaseMult E (ki_Key ki)) \<and>
     verifyDataCheckKey E (ki_PubKeyBytes ki) doerID (ki_Extra ki) = Ret True"

lemma newKeyInfo_eq:
  assumes "scalar_ok E e" "ToPrivkey E k = Ret e" "PubkeyBytes E k = Ret pub"
  shows "newKeyInfo E (Ret ts) k extra entityID doerID = Ret
    \<lparr>ki_ID = keyInfoHashToID (PubkeyBytesToAddress E pub), ki_CreateTS = ts, ki_CreatorID = doerID,
     ki_EntityID = entityID, ki_Status = StatusInvalid, ki_Hash = PubkeyBytesToAddress E pub,
     ki_Key = e, ki_KeyBytes = ek_key k, ki_PubKeyBytes = pub, ki_UpdateTS = ts, ki_Extra = extra,
     ki_Count = 0\<rparr>"
  using assms by (auto simp: newKeyInfo_def PrivkeyBytes_def ToPrivkey_def Let_def split: if_splits)

lemma new_key_usable:
  assumes "ecc_ok E" "scalar_ok E masterKey"
    and "IsSamePubKey (PubkeyToAddress E) doerID (ScalarBaseMult E masterKey)"
    and "NewOpKeyInfo E salts (Ret ts) entityID doerID masterKey = Ret ki \<or>
      NewSignKeyInfo E salts (Ret ts) doerID masterKey = Ret ki"
  shows "key_usable E doerID ki \<and> ki_CreatorID ki = Some doerID \<and> ToECDSA E (ki_KeyBytes ki) = Ret (ki_Key ki) \<and>
    keyInfoIDToHash (ki_ID ki) = ki_Hash ki"
proof -
  obtain k extra entity where d: "deriveKeyBIP32 E salts masterKey = Ret (k, extra)"
    and n: "newKeyInfo E (Ret ts) k (Some extra) entity (Some doerID) = Ret ki"
    using assms(4) by (auto simp: NewOpKeyInfo_def NewSignKeyInfo_def res_bind_eq_Ret)
  from derived_key_accepted [OF assms(1-3) d] obtain e where
    e: "scalar_ok E e" "ToPrivkey E k = Ret e" "PubkeyBytes E k = Ret (FromECDSAPub (ScalarBaseMult E e))"
      "KeyExtraInfo_IsValid E extra (FromECDSAPub (ScalarBaseMult E e)) doerID = Ret True" by blast
  note ki = newKeyInfo_eq [OF e(1-3), of ts "Some extra" entity "Some doerID"]
  have "ek_isPrivate k" using e(2) by (auto simp: ToPrivkey_def split: if_splits)
  then have "ToECDSA E (ek_key k) = Ret e" using e(2) by (simp add: ToPrivkey_def)
  moreover have "length (PubkeyBytesToAddress E (FromECDSAPub (ScalarBaseMult E e))) = AddressLength"
    using length_PubkeyToAddress [OF assms(1)] by (simp add: PubkeyToAddress_def)
  ultimately show ?thesis using n ki e
    by (auto simp: key_usable_def verifyDataCheckKey_def keyInfoID_round_trip)
qed

text \<open>
  C38: A signing key derived from a master key (\<^verbatim>\<open>NewOpKeyInfo\<close>, \<^verbatim>\<open>NewSignKeyInfo\<close>) is one that every
  other node accepts. If the identifier belongs to the master key, the key info holds a private key with
  its public key, and \<^verbatim>\<open>verifyDataCheckKey\<close>, which redoes the derivation from the master's public
  key alone, accepts that public key for the identifier: the private and the public derivation of
  \<^verbatim>\<open>ExtendedKey.Child\<close> agree.
\<close>

theorem derived_key_valid:
  assumes "ecc_ok E" "scalar_ok E masterKey"
    and "IsSamePubKey (PubkeyToAddress E) doerID (ScalarBaseMult E masterKey)"
    and "NewOpKeyInfo E salts (Ret ts) entityID doerID masterKey = Ret ki \<or>
      NewSignKeyInfo E salts (Ret ts) doerID masterKey = Ret ki"
  shows "key_usable E doerID ki \<and> ki_CreatorID ki = Some doerID \<and> ToECDSA E (ki_KeyBytes ki) = Ret (ki_Key ki) \<and>
    keyInfoIDToHash (ki_ID ki) = ki_Hash ki"
  using assms by (rule new_key_usable)

text \<open>
  A model of the library facts: the group of residues, with points that repeat their scalar.
\<close>

definition example_ecc :: ecc where
  "example_ecc =
     \<lparr>ecc_N = 256 ^ 32, ScalarBaseMult = \<lambda>d. (d, d),
      ecc_Add = \<lambda>p q. ((fst p + fst q) mod 256 ^ 32, (fst p + fst q) mod 256 ^ 32),
      IsOnCurve = \<lambda>p. fst p = snd p, ecc_hmac512 = \<lambda>k d. replicate 31 0 @ [1] @ replicate 32 0,
      Keccak256 = \<lambda>b. replicate 32 (word_of_nat (length b)),
      crypto_Sign = \<lambda>h d. Ret (replicate 65 0),
      VerifySignature = \<lambda>pub h sig. True\<rparr>"

lemma example_ecc_ok: "ecc_ok example_ecc"
  by (auto simp: ecc_ok_def example_ecc_def scalar_ok_def)

definition example_scalar :: nat where
  "example_scalar = 256 ^ 31"

lemma example_scalar_ok: "scalar_ok example_ecc example_scalar"
  by (simp add: scalar_ok_def example_ecc_def example_scalar_def)

definition example_doer :: PttID where
  "example_doer = PubkeyToAddress example_ecc (example_scalar, example_scalar) @ replicate 20 0"

lemma example_doer_owner: "IsSamePubKey (PubkeyToAddress example_ecc) example_doer (ScalarBaseMult example_ecc example_scalar)"
proof -
  have "ScalarBaseMult example_ecc example_scalar = (example_scalar, example_scalar)" by (simp add: example_ecc_def)
  then show ?thesis
    using length_PubkeyToAddress [OF example_ecc_ok] by (simp add: IsSamePubKey_def example_doer_def)
qed

text \<open>A number of 32 digits in radix 256 has 32 bytes.\<close>

lemma length_nat_bytes: "256 ^ k \<le> n \<Longrightarrow> n < 256 ^ Suc k \<Longrightarrow> length (nat_bytes n) = Suc k"
proof (induction k arbitrary: n)
  case 0
  then show ?case by (subst nat_bytes.simps) (simp add: nat_bytes.simps)
next
  case (Suc k)
  have "256 ^ k * 256 \<le> n" using Suc.prems(1) by (simp add: mult.commute)
  then have "256 ^ k \<le> n div 256" by (simp add: less_eq_div_iff_mult_less_eq)
  moreover have "n div 256 < 256 ^ Suc k" using Suc.prems(2) by (simp add: less_mult_imp_div_less mult.commute)
  moreover have "n \<noteq> 0" using Suc.prems(1) by (metis not_less zero_less_numeral zero_less_power)
  ultimately show ?case using Suc.IH [of "n div 256"] by (subst nat_bytes.simps) simp
qed

lemma be_val_zeros: "be_val (replicate n 0 @ bs) = be_val bs"
  by (induction n) simp_all

lemma example_child:
  "\<exists>k. Child example_ecc (PrivKeyToExtKey example_scalar []) 0 = Ret k"
proof -
  define d where "d = example_scalar"
  have small: "1 + d < 256 ^ 32" by (simp add: d_def example_scalar_def)
  have "length (nat_bytes (1 + d)) = Suc 31"
    by (rule length_nat_bytes) (simp_all add: d_def example_scalar_def)
  then have len: "length (nat_bytes (1 + d)) = 32" by simp
  have "be_val (FromECDSA d) = d mod 256 ^ 32" unfolding FromECDSA_def by (rule be_val_be_bytes)
  then have val: "be_val (FromECDSA d) = d" using small by simp
  have "be_val (replicate 31 0 @ [1 :: byte]) = 1" by (simp add: be_val_zeros)
  moreover have "take 32 (replicate 31 0 @ [1 :: byte] @ replicate 32 0) = replicate 31 0 @ [1]" by simp
  ultimately have il: "be_val (take 32 (replicate 31 0 @ [1 :: byte] @ replicate 32 0)) = 1" by simp
  have N: "ecc_N example_ecc = 256 ^ 32" by (simp add: example_ecc_def)
  have "(1 + d) mod 256 ^ 32 = 1 + d" using small by (rule mod_less)
  then have "Child_priv example_ecc (FromECDSA d) 1 = Ret (nat_bytes (1 + d))"
    unfolding Child_priv_def val Let_def N by (simp only: len) simp
  moreover have h: "ecc_hmac512 example_ecc cc b = replicate 31 0 @ [1] @ replicate 32 0" for cc b
    by (simp add: example_ecc_def)
  moreover have "length (replicate 31 0 @ [1 :: byte] @ replicate 32 0) div 2 = 32" by simp
  moreover have "ek_isPrivate (PrivKeyToExtKey d [])" "ek_key (PrivKeyToExtKey d []) = FromECDSA d"
    by (simp_all add: PrivKeyToExtKey_def)
  moreover have "\<not> (256 ^ 32 \<le> (1 :: nat) \<or> (1 :: nat) = 0)" by simp
  ultimately have "\<exists>k. Child example_ecc (PrivKeyToExtKey d []) 0 = Ret k"
    unfolding Child_def PubkeyBytes_priv [OF example_ecc_ok example_scalar_ok, folded d_def] Let_def
      res_bind_simps h N
    by (simp only: il if_False if_True length_FromECDSAPub res_bind_simps) simp
  then show ?thesis by (simp only: d_def)
qed

lemma derive_first:
  assumes "bip32_Key E (salts 0) d 0 = Ret (k, salt)"
  shows "\<exists>extra. deriveKeyBIP32 E salts d = Ret (k, extra)"
proof -
  have n: "MaxIterDeriveKeyBIP32 = Suc 9" by (simp add: MaxIterDeriveKeyBIP32_def)
  show ?thesis using assms unfolding deriveKeyBIP32_def n deriveKeyBIP32_loop.simps by simp
qed

lemma example_derive:
  "\<exists>ki. NewSignKeyInfo example_ecc (\<lambda>_. Ret []) (Ret ts) example_doer example_scalar = Ret ki"
proof -
  obtain k where "Child example_ecc (PrivKeyToExtKey example_scalar []) 0 = Ret k" using example_child by blast
  then have "bip32_Key example_ecc (Ret []) example_scalar 0 = Ret (k, [])" by (simp add: bip32_Key_def)
  then obtain extra where d: "deriveKeyBIP32 example_ecc (\<lambda>_. Ret []) example_scalar = Ret (k, extra)"
    using derive_first [of example_ecc "\<lambda>_. Ret []" example_scalar] by blast
  from derived_key_accepted [OF example_ecc_ok example_scalar_ok example_doer_owner d] obtain e
    where "scalar_ok example_ecc e" "ToPrivkey example_ecc k = Ret e"
      "PubkeyBytes example_ecc k = Ret (FromECDSAPub (ScalarBaseMult example_ecc e))" by blast
  from newKeyInfo_eq [OF this] d show ?thesis by (simp add: NewSignKeyInfo_def)
qed

theorem derived_key_valid_witness:
  "\<exists>ki. NewSignKeyInfo example_ecc (\<lambda>_. Ret []) (Ret ZeroTimestamp) example_doer example_scalar = Ret ki \<and>
    key_usable example_ecc example_doer ki"
proof -
  obtain ki where "NewSignKeyInfo example_ecc (\<lambda>_. Ret []) (Ret ZeroTimestamp) example_doer example_scalar = Ret ki"
    using example_derive by blast
  with derived_key_valid [OF example_ecc_ok example_scalar_ok example_doer_owner, of "\<lambda>_. Ret []" ZeroTimestamp "[]"]
  show ?thesis by blast
qed

text \<open>A usable key produces signatures that \<^verbatim>\<open>VerifyData\<close> accepts.\<close>

lemma sign_verify_data:
  assumes "ecc_ok E" "key_usable E doerID ki"
    and "SignData E newSalt dat ki = (Ret (bytesWithSalt, hash, sig, pub), ki')"
  shows "\<exists>salt. newSalt = Ret salt \<and> bytesWithSalt = dat @ salt \<and> hash = Keccak256 E (dat @ salt) \<and>
    pub = ki_PubKeyBytes ki \<and> VerifyData E (dat @ salt) hash sig pub doerID (ki_Extra ki) = Ret ()"
proof -
  obtain salt where s: "newSalt = Ret salt" "bytesWithSalt = dat @ salt" "hash = Keccak256 E (dat @ salt)"
    "crypto_Sign E hash (ki_Key ki) = Ret sig" "pub = ki_PubKeyBytes ki"
    using assms(3) by (auto simp: SignData_def Let_def split: res.splits)
  have u: "scalar_ok E (ki_Key ki)" "pub = FromECDSAPub (ScalarBaseMult E (ki_Key ki))"
    "verifyDataCheckKey E pub doerID (ki_Extra ki) = Ret True"
    using assms(2) unfolding s(5) key_usable_def by blast+
  have "length sig = 65" "VerifySignature E pub hash (take 64 sig)"
    using ecc_okD(5) [OF assms(1) u(1) s(4)] u(2) by auto
  then have "VerifyData E (dat @ salt) hash sig pub doerID (ki_Extra ki) = Ret ()"
    using u s by (simp add: VerifyData_def Let_def)
  with s show ?thesis by blast
qed

text \<open>
  Two panics a peer can cause with data signed by its own key: a derived key without its salt,
  and a signature shorter than 64 bytes.
\<close>

lemma missing_salt_panics:
  assumes "UnmarshalPubkey E parent = Ret p" "IsSamePubKey (PubkeyToAddress E) doerID p"
  shows "verifyDataCheckKey E pub doerID
    (Some \<lparr>ke_KeyType = KeyTypeBIP32, ke_Data = Some \<lparr>bip_Parent = parent, bip_Salt = None, bip_Child = c\<rparr>\<rparr>) = Panic"
  using assms by (simp add: verifyDataCheckKey_def KeyExtraInfo_IsValid_def IsValidBIP32_def)

lemma short_signature_panics:
  assumes "verifyDataCheckKey E pub doerID extra = Ret True" "length sig < 64"
  shows "VerifyData E dat (Keccak256 E dat) sig pub doerID extra = Panic"
  using assms by (simp add: VerifyData_def)

end
