(* ===== verification/Oplogs.thy ===== *)
theory Oplogs
  imports Signing_Keys Ldb_Batches Merkle_Trees Lock_Maps
begin

text \<open>
  The operation log entry and its signatures (\<^verbatim>\<open>service/oplog.go\<close>, \<^verbatim>\<open>service/types.go\<close>). An entry
  is signed by its creator, then collects signatures: of the creator's other devices
  (internal signs) and of the masters of the entity (master signs), each list ordered by the signer's
  identifier. It becomes valid when a master log identifier is set.

  \<open>BaseOplog\<close> holds the exported fields, those JSON sees; the unexported fields that \<^verbatim>\<open>SetDB\<close> fills are
  the record \<open>oplog_db\<close>, passed next to it. Nil and empty byte slices and sign lists behave alike in this
  code and are both \<open>[]\<close>. \<open>op_env\<close> holds the parameters: the cryptographic library, the JSON codec of
  an entry (\<open>oe_dec b o\<close> is \<^verbatim>\<open>json.Unmarshal(b, o)\<close>, which overwrites the fields present in \<open>b\<close>),
  the codec of the index and the environment of the Merkle tree.
\<close>

subsection \<open>Definitions\<close>

record SignInfo =
  sign_ID :: PttID
  sign_CreateTS :: Timestamp
  sign_Hash :: bytes
  sign_Salt :: Salt
  sign_Sig :: bytes
  sign_Pubkey :: bytes
  sign_Extra :: "KeyExtraInfo option"

type_synonym OpType = u32

record BaseOplog =
  log_V :: byte
  log_ID :: PttID
  log_CreatorID :: PttID
  log_CreateTS :: Timestamp
  log_ObjID :: PttID
  log_Op :: OpType
  log_PreLogID :: "PttID option"
  log_Data :: "bytes option"
  log_CreatorHash :: bytes
  log_Salt :: Salt
  log_Sig :: bytes
  log_Pubkey :: bytes
  log_KeyExtra :: "KeyExtraInfo option"
  log_UpdateTS :: Timestamp
  log_Hash :: bytes
  log_MasterLogID :: "PttID option"
  log_MasterSigns :: "SignInfo list"
  log_InternalSigns :: "SignInfo list"
  log_IsSync :: bool
  log_IsNewer :: bool
  log_Extra :: "bytes option"

record oplog_db =
  dbPrefixID :: PttID
  dbPrefix :: bytes
  dbIdxPrefix :: bytes
  dbMerklePrefix :: "bytes option"
  dbPrefixInternal :: bytes
  dbPrefixMaster :: bytes

record op_env =
  oe_ecc :: ecc
  oe_enc :: "BaseOplog \<Rightarrow> go_error + bytes"
  oe_dec :: "bytes \<Rightarrow> BaseOplog \<Rightarrow> BaseOplog option"
  oe_ix :: index_codec
  oe_merkle :: merkle_env

definition EmptySalt :: Salt where
  "EmptySalt = replicate SizeSalt 0"

definition CurrentVersion :: byte where
  "CurrentVersion = 2"

definition ExpireOplogSeconds :: int where
  "ExpireOplogSeconds = 300"

definition SizeDBKeyPrefix :: nat where
  "SizeDBKeyPrefix = 5"

text \<open>A prefix that is too short for its fifth byte to be replaced panics.\<close>

definition dbPrefixToDBPrefixInternal :: "bytes \<Rightarrow> bytes res" where
  "dbPrefixToDBPrefixInternal prefix =
     (let b = CloneBytes prefix
      in if length b < SizeDBKeyPrefix then Panic else Ret (b[SizeDBKeyPrefix - 1 := 105]))"

definition dbPrefixToDBPrefixMaster :: "bytes \<Rightarrow> bytes res" where
  "dbPrefixToDBPrefixMaster prefix =
     (let b = CloneBytes prefix
      in if length b < SizeDBKeyPrefix then Panic else Ret (b[SizeDBKeyPrefix - 1 := 109]))"

definition Oplog_SetDB :: "PttID \<Rightarrow> bytes \<Rightarrow> bytes \<Rightarrow> bytes option \<Rightarrow> oplog_db res" where
  "Oplog_SetDB theID prefix idxPrefix merklePrefix =
     res_bind (dbPrefixToDBPrefixInternal prefix) (\<lambda>prefixInternal.
     res_bind (dbPrefixToDBPrefixMaster prefix) (\<lambda>prefixMaster.
       Ret \<lparr>dbPrefixID = theID, dbPrefix = prefix, dbIdxPrefix = idxPrefix, dbMerklePrefix = merklePrefix,
            dbPrefixInternal = prefixInternal, dbPrefixMaster = prefixMaster\<rparr>))"

definition zero_oplog :: BaseOplog where
  "zero_oplog =
     \<lparr>log_V = 0, log_ID = [], log_CreatorID = [], log_CreateTS = ZeroTimestamp, log_ObjID = [],
      log_Op = 0, log_PreLogID = None, log_Data = None, log_CreatorHash = [], log_Salt = EmptySalt,
      log_Sig = [], log_Pubkey = [], log_KeyExtra = None, log_UpdateTS = ZeroTimestamp, log_Hash = [],
      log_MasterLogID = None, log_MasterSigns = [], log_InternalSigns = [], log_IsSync = False,
      log_IsNewer = False, log_Extra = None\<rparr>"

text \<open>\<^verbatim>\<open>NewOplog\<close> uses \<^verbatim>\<open>NewPttID\<close>'s identifier, which may be nil.\<close>

definition NewOplog ::
  "rand_read \<Rightarrow> PttID \<Rightarrow> Timestamp \<Rightarrow> PttID \<Rightarrow> OpType \<Rightarrow> bytes option \<Rightarrow> PttID \<Rightarrow> bytes \<Rightarrow> bytes \<Rightarrow> bytes option \<Rightarrow>
   (BaseOplog \<times> oplog_db) res" where
  "NewOplog rand objID ts doerID op dat prefixID prefix idxPrefix merklePrefix =
     res_bind (NewPttID rand) (\<lambda>opID.
     res_bind (Oplog_SetDB prefixID prefix idxPrefix merklePrefix) (\<lambda>D.
       case opID of
         None \<Rightarrow> Panic
       | Some theID \<Rightarrow>
           Ret (zero_oplog\<lparr>log_V := CurrentVersion, log_ID := theID, log_CreatorID := doerID, log_CreateTS := ts,
                  log_UpdateTS := ts, log_ObjID := objID, log_Op := op, log_Data := dat, log_IsSync := True\<rparr>, D)))"

definition sign_fields :: "SignInfo \<Rightarrow> bytes list" where
  "sign_fields s = [sign_Hash s, sign_Salt s, sign_Sig s, sign_Pubkey s]"

definition SignsHash :: "op_env \<Rightarrow> BaseOplog \<Rightarrow> bytes res" where
  "SignsHash E o1 =
     (let theBytes =
            [case log_MasterLogID o1 of None \<Rightarrow> [] | Some theID \<Rightarrow> theID] @
            [log_CreatorHash o1, log_Salt o1, log_Sig o1, log_Pubkey o1] @
            concat (map sign_fields (log_MasterSigns o1)) @
            concat (map sign_fields (log_InternalSigns o1))
      in res_bind (Concat (map Some theBytes)) (\<lambda>concatBytes. Ret (Keccak256 (oe_ecc E) concatBytes)))"

text \<open>\<^verbatim>\<open>o.Hash, _ = o.SignsHash()\<close>\<close>

definition set_hash :: "op_env \<Rightarrow> BaseOplog \<Rightarrow> BaseOplog" where
  "set_hash E o1 = o1\<lparr>log_Hash := (case SignsHash E o1 of Ret h \<Rightarrow> h | _ \<Rightarrow> [])\<rparr>"

definition Oplog_Sign :: "op_env \<Rightarrow> Salt res \<Rightarrow> KeyInfo \<Rightarrow> BaseOplog \<Rightarrow> unit res \<times> BaseOplog \<times> KeyInfo" where
  "Oplog_Sign E newSalt keyInfo o0 =
     (let restore = \<lambda>o'. o'\<lparr>log_IsSync := log_IsSync o0, log_Extra := log_Extra o0\<rparr>;
          o1 = o0\<lparr>log_UpdateTS := ZeroTimestamp, log_Hash := [], log_CreatorHash := [], log_Sig := [],
                  log_Salt := EmptySalt, log_Pubkey := [], log_MasterLogID := None, log_MasterSigns := [],
                  log_InternalSigns := [], log_IsSync := False, log_IsNewer := False, log_Extra := None\<rparr>
      in case oe_enc E o1 of
           Inl e \<Rightarrow> (Fail e, restore o1, keyInfo)
         | Inr marshaled \<Rightarrow>
             (case SignData (oe_ecc E) newSalt marshaled keyInfo of
                (Fail e, keyInfo') \<Rightarrow> (Fail e, restore o1, keyInfo')
              | (Panic, keyInfo') \<Rightarrow> (Panic, restore o1, keyInfo')
              | (Ret (bytesWithSalt, hash, sig, pubBytes), keyInfo') \<Rightarrow>
                  (let o2 = o1\<lparr>log_CreatorHash := hash,
                               log_Salt := copy_into (log_Salt o1) (drop (length marshaled) bytesWithSalt),
                               log_Sig := sig, log_Pubkey := pubBytes, log_KeyExtra := ki_Extra keyInfo,
                               log_UpdateTS := log_CreateTS o1\<rparr>
                   in (Ret (), restore (set_hash E o2), keyInfo'))))"

text \<open>The insertion of a signature into a list ordered by identifier.\<close>

definition insert_sign :: "SignInfo \<Rightarrow> SignInfo list \<Rightarrow> SignInfo list" where
  "insert_sign s signs =
     (let idx = go_search (\<lambda>i. sign_ID s \<le> sign_ID (signs ! i)) 0 (length signs)
      in take idx signs @ [s] @ drop idx signs)"

text \<open>
  What \<^verbatim>\<open>MasterSign\<close> and \<^verbatim>\<open>InternalSign\<close> share: the entry is stripped of what is not signed, marshalled
  and signed; \<open>keep\<close> is the deferred function that puts fields undo.
\<close>

definition strip_signs :: "BaseOplog \<Rightarrow> BaseOplog" where
  "strip_signs o1 =
     o1\<lparr>log_UpdateTS := ZeroTimestamp, log_Hash := [], log_MasterLogID := None, log_MasterSigns := [],
        log_InternalSigns := [], log_IsSync := False, log_IsNewer := False, log_Extra := None\<rparr>"

definition sign_stripped ::
  "op_env \<Rightarrow> Salt res \<Rightarrow> Timestamp \<Rightarrow> PttID \<Rightarrow> KeyInfo \<Rightarrow> BaseOplog \<Rightarrow> SignInfo res \<times> KeyInfo" where
  "sign_stripped E newSalt ts theID keyInfo o1 =
     (case oe_enc E o1 of
        Inl e \<Rightarrow> (Fail e, keyInfo)
      | Inr marshaled \<Rightarrow>
          (case SignData (oe_ecc E) newSalt marshaled keyInfo of
             (Fail e, keyInfo') \<Rightarrow> (Fail e, keyInfo')
           | (Panic, keyInfo') \<Rightarrow> (Panic, keyInfo')
           | (Ret (bytesWithSalt, hash, sig, pubBytes), keyInfo') \<Rightarrow>
               (Ret \<lparr>sign_ID = theID, sign_CreateTS = ts, sign_Hash = hash,
                     sign_Salt = copy_into EmptySalt (drop (length marshaled) bytesWithSalt),
                     sign_Sig = sig, sign_Pubkey = pubBytes, sign_Extra = ki_Extra keyInfo\<rparr>, keyInfo')))"

definition oplog_expired :: "Timestamp \<Rightarrow> BaseOplog \<Rightarrow> bool" where
  "oplog_expired ts o1 \<longleftrightarrow> IsLess (log_CreateTS o1) (ts\<lparr>Ts := i64 (Ts ts - ExpireOplogSeconds)\<rparr>)"

definition MasterSign ::
  "op_env \<Rightarrow> Timestamp res \<Rightarrow> Salt res \<Rightarrow> PttID \<Rightarrow> KeyInfo \<Rightarrow> BaseOplog \<Rightarrow> unit res \<times> BaseOplog \<times> KeyInfo" where
  "MasterSign E getTS newSalt theID keyInfo o0 =
     (case getTS of
        Fail e \<Rightarrow> (Fail e, o0, keyInfo)
      | Panic \<Rightarrow> (Panic, o0, keyInfo)
      | Ret ts \<Rightarrow>
          if oplog_expired ts o0 then (Fail (ServiceError S_ErrInvalidOplog), o0, keyInfo)
          else
            (let restore = \<lambda>o'. o'\<lparr>log_MasterLogID := log_MasterLogID o0, log_IsSync := log_IsSync o0,
                                   log_Extra := log_Extra o0\<rparr>;
                 o1 = strip_signs o0
             in case sign_stripped E newSalt ts theID keyInfo o1 of
                  (Fail e, keyInfo') \<Rightarrow> (Fail e, restore o1, keyInfo')
                | (Panic, keyInfo') \<Rightarrow> (Panic, restore o1, keyInfo')
                | (Ret masterSign, keyInfo') \<Rightarrow>
                    (let o2 = o1\<lparr>log_MasterSigns := insert_sign masterSign (log_MasterSigns o0),
                                 log_UpdateTS := ts\<rparr>
                     in (Ret (), restore (set_hash E o2), keyInfo'))))"

definition InternalSign ::
  "op_env \<Rightarrow> Timestamp res \<Rightarrow> Salt res \<Rightarrow> PttID \<Rightarrow> KeyInfo \<Rightarrow> BaseOplog \<Rightarrow> unit res \<times> BaseOplog \<times> KeyInfo" where
  "InternalSign E getTS newSalt theID keyInfo o0 =
     (case getTS of
        Fail e \<Rightarrow> (Fail e, o0, keyInfo)
      | Panic \<Rightarrow> (Panic, o0, keyInfo)
      | Ret ts \<Rightarrow>
          if oplog_expired ts o0 then (Fail (ServiceError S_ErrInvalidOplog), o0, keyInfo)
          else
            (let restore = \<lambda>o'. o'\<lparr>log_MasterLogID := log_MasterLogID o0, log_MasterSigns := log_MasterSigns o0,
                                   log_IsSync := log_IsSync o0, log_Extra := log_Extra o0\<rparr>;
                 o1 = strip_signs o0
             in case sign_stripped E newSalt ts theID keyInfo o1 of
                  (Fail e, keyInfo') \<Rightarrow> (Fail e, restore o1, keyInfo')
                | (Panic, keyInfo') \<Rightarrow> (Panic, restore o1, keyInfo')
                | (Ret internalSign, keyInfo') \<Rightarrow>
                    (let o2 = o1\<lparr>log_InternalSigns := insert_sign internalSign (log_InternalSigns o0),
                                 log_UpdateTS := ts\<rparr>
                     in (Ret (), restore (set_hash E o2), keyInfo'))))"

definition SetMasterLogID :: "op_env \<Rightarrow> PttID \<Rightarrow> BaseOplog \<Rightarrow> BaseOplog" where
  "SetMasterLogID E oplogID o0 =
     set_hash E (o0\<lparr>log_MasterLogID := Some oplogID, log_InternalSigns := []\<rparr>)"

fun verify_signs :: "op_env \<Rightarrow> BaseOplog \<Rightarrow> SignInfo list \<Rightarrow> unit res" where
  "verify_signs E o1 [] = Ret ()"
| "verify_signs E o1 (s # signs) =
     (case oe_enc E o1 of
        Inl e \<Rightarrow> Fail e
      | Inr marshaled \<Rightarrow>
          res_bind (VerifyData (oe_ecc E) (marshaled @ sign_Salt s) (sign_Hash s) (sign_Sig s) (sign_Pubkey s)
                     (sign_ID s) (sign_Extra s))
            (\<lambda>_. verify_signs E o1 signs))"

text \<open>
  The fields \<^verbatim>\<open>Verify\<close> clears before it marshals the entry, and the deferred function that restores them.
  \<^verbatim>\<open>KeyExtra\<close> is cleared and is not among the fields restored.
\<close>

definition creator_core :: "BaseOplog \<Rightarrow> BaseOplog" where
  "creator_core o1 =
     o1\<lparr>log_UpdateTS := ZeroTimestamp, log_Hash := [], log_CreatorHash := [], log_Sig := [],
        log_Salt := EmptySalt, log_Pubkey := [], log_KeyExtra := None, log_MasterLogID := None,
        log_MasterSigns := [], log_InternalSigns := [], log_IsSync := False, log_IsNewer := False,
        log_Extra := None\<rparr>"

definition verify_restore :: "BaseOplog \<Rightarrow> BaseOplog \<Rightarrow> BaseOplog" where
  "verify_restore o0 o1 =
     o1\<lparr>log_UpdateTS := log_UpdateTS o0, log_Hash := log_Hash o0, log_CreatorHash := log_CreatorHash o0,
        log_Salt := log_Salt o0, log_Sig := log_Sig o0, log_Pubkey := log_Pubkey o0,
        log_MasterLogID := log_MasterLogID o0, log_MasterSigns := log_MasterSigns o0,
        log_InternalSigns := log_InternalSigns o0, log_IsSync := log_IsSync o0,
        log_IsNewer := log_IsNewer o0, log_Extra := log_Extra o0\<rparr>"

definition signer_core :: "BaseOplog \<Rightarrow> BaseOplog \<Rightarrow> BaseOplog" where
  "signer_core o0 o1 =
     o1\<lparr>log_Hash := [], log_CreatorHash := log_CreatorHash o0, log_Sig := log_Sig o0, log_Salt := log_Salt o0,
        log_Pubkey := log_Pubkey o0, log_KeyExtra := log_KeyExtra o0\<rparr>"

definition Oplog_Verify :: "op_env \<Rightarrow> BaseOplog \<Rightarrow> unit res \<times> BaseOplog" where
  "Oplog_Verify E o0 =
     (if IsLess (log_UpdateTS o0) (log_CreateTS o0) then (Fail (ServiceError S_ErrInvalidOplog), o0)
      else
        (case SignsHash E o0 of
           Fail e \<Rightarrow> (Fail e, o0)
         | Panic \<Rightarrow> (Panic, o0)
         | Ret hash \<Rightarrow>
             if log_Hash o0 \<noteq> hash then (Fail (ServiceError S_ErrInvalidData), o0)
             else
               (let o1 = creator_core o0
                in case oe_enc E o1 of
                     Inl e \<Rightarrow> (Fail e, verify_restore o0 o1)
                   | Inr marshaled \<Rightarrow>
                       (case VerifyData (oe_ecc E) (marshaled @ log_Salt o0) (log_CreatorHash o0) (log_Sig o0)
                               (log_Pubkey o0) (log_CreatorID o0) (log_KeyExtra o0) of
                          Fail e \<Rightarrow> (Fail e, verify_restore o0 o1)
                        | Panic \<Rightarrow> (Panic, verify_restore o0 o1)
                        | Ret _ \<Rightarrow>
                            (let o2 = signer_core o0 o1
                             in (res_bind (verify_signs E o2 (log_MasterSigns o0))
                                   (\<lambda>_. verify_signs E o2 (log_InternalSigns o0)), verify_restore o0 o2))))))"

definition Oplog_ToStatus :: "BaseOplog \<Rightarrow> Status" where
  "Oplog_ToStatus o1 =
     (if log_MasterLogID o1 \<noteq> None then StatusAlive
      else if 0 < length (log_InternalSigns o1) then StatusInternalPending
      else if 0 < length (log_MasterSigns o1) then StatusPending
      else StatusInvalid)"

definition IDInOplogSigns :: "PttID \<Rightarrow> SignInfo list \<Rightarrow> bool" where
  "IDInOplogSigns theID signs =
     (if length signs = 0 then False
      else
        (let idx = go_search (\<lambda>i. theID \<le> sign_ID (signs ! i)) 0 (length signs)
         in idx < length signs \<and> sign_ID (signs ! idx) = theID))"

text \<open>
  The merge of two sign lists. The loop ends as soon as one of the lists is exhausted. The recursion is over
  the rests of the lists from \<^verbatim>\<open>idx\<close> and \<^verbatim>\<open>idxOrig\<close> on, which are not empty inside the loop.
\<close>

fun integrate_loop :: "SignInfo list \<Rightarrow> SignInfo list \<Rightarrow> SignInfo list" where
  "integrate_loop (s # ss) (r # rs) =
     (if sign_ID s < sign_ID r then s # (if ss = [] then [] else integrate_loop ss (r # rs))
      else if sign_ID r < sign_ID s then r # (if rs = [] then [] else integrate_loop (s # ss) rs)
      else s # (if ss = [] \<or> rs = [] then [] else integrate_loop ss rs))"
| "integrate_loop ss rs = []"

definition integrateSignInfos :: "SignInfo list \<Rightarrow> SignInfo list \<Rightarrow> SignInfo list \<times> bool \<times> bool" where
  "integrateSignInfos signInfos origSignInfos =
     (if signInfos = [] \<and> origSignInfos = [] then ([], True, True)
      else if origSignInfos = [] then (signInfos, True, False)
      else if signInfos = [] then (origSignInfos, False, True)
      else
        (let newSignInfos = integrate_loop signInfos origSignInfos
         in (newSignInfos, length newSignInfos = length signInfos, length newSignInfos = length origSignInfos)))"

subsection \<open>Lists of signatures\<close>

definition signs_sorted :: "SignInfo list \<Rightarrow> bool" where
  "signs_sorted signs \<longleftrightarrow> sorted (map sign_ID signs)"

lemma search_signs:
  fixes theID :: PttID
  assumes "signs_sorted signs"
  defines "idx \<equiv> go_search (\<lambda>i. theID \<le> sign_ID (signs ! i)) 0 (length signs)"
  shows "idx \<le> length signs" "\<forall>s \<in> set (take idx signs). sign_ID s < theID"
    "\<forall>s \<in> set (drop idx signs). theID \<le> sign_ID s"
proof -
  have "mono_pred (\<lambda>i. theID \<le> sign_ID (signs ! i)) (length signs)"
    unfolding mono_pred_def
  proof (intro allI impI)
    fix i j
    assume "i \<le> j" "j < length signs" "theID \<le> sign_ID (signs ! i)"
    moreover have "sign_ID (signs ! i) \<le> sign_ID (signs ! j)"
      using assms(1) sorted_nth_mono [of "map sign_ID signs" i j] calculation by (simp add: signs_sorted_def)
    ultimately show "theID \<le> sign_ID (signs ! j)" by (rule_tac order_trans)
  qed
  from go_search_correct [OF le0 this]
  have c: "idx \<le> length signs" "\<forall>k < idx. \<not> theID \<le> sign_ID (signs ! k)"
    "\<forall>k. idx \<le> k \<longrightarrow> k < length signs \<longrightarrow> theID \<le> sign_ID (signs ! k)"
    unfolding idx_def by blast+
  show "idx \<le> length signs" by (rule c(1))
  show "\<forall>s \<in> set (take idx signs). sign_ID s < theID"
    using c(1,2) by (auto simp: in_set_conv_nth not_le)
  show "\<forall>s \<in> set (drop idx signs). theID \<le> sign_ID s"
    using c(1,3) by (auto simp: in_set_conv_nth)
qed

lemma insert_sign_sorted:
  assumes "signs_sorted signs"
  shows "signs_sorted (insert_sign s signs)" "mset (insert_sign s signs) = add_mset s (mset signs)"
proof -
  define idx where "idx = go_search (\<lambda>i. sign_ID s \<le> sign_ID (signs ! i)) 0 (length signs)"
  note c = search_signs [OF assms, of "sign_ID s", folded idx_def]
  have ins: "insert_sign s signs = take idx signs @ [s] @ drop idx signs"
    by (simp add: insert_sign_def idx_def Let_def)
  have "sorted (map sign_ID (take idx signs))" "sorted (map sign_ID (drop idx signs))"
    using assms by (simp_all add: signs_sorted_def take_map [symmetric] drop_map [symmetric] sorted_wrt_take sorted_wrt_drop)
  then show "signs_sorted (insert_sign s signs)"
    using c(2,3) unfolding ins signs_sorted_def by (fastforce simp: sorted_append)
  show "mset (insert_sign s signs) = add_mset s (mset signs)"
    unfolding ins by (metis (no_types) append_Cons append_Nil append_take_drop_id mset.simps(2) mset_append union_mset_add_mset_right)
qed

lemma IDInOplogSigns_iff:
  assumes "signs_sorted signs"
  shows "IDInOplogSigns theID signs \<longleftrightarrow> theID \<in> sign_ID ` set signs"
proof -
  define idx where "idx = go_search (\<lambda>i. theID \<le> sign_ID (signs ! i)) 0 (length signs)"
  note c = search_signs [OF assms, of theID, folded idx_def]
  show ?thesis
  proof (cases "idx < length signs")
    case True
    then have split: "drop idx signs = signs ! idx # drop (Suc idx) signs" by (simp add: Cons_nth_drop_Suc)
    have "sign_ID (signs ! idx) = theID" if "theID \<in> sign_ID ` set signs"
    proof -
      have "set signs = set (take idx signs) \<union> set (drop idx signs)" by (metis append_take_drop_id set_append)
      with that c(2) obtain s where s: "s \<in> set (drop idx signs)" "sign_ID s = theID" by fastforce
      have "sorted (map sign_ID (drop idx signs))"
        using assms by (simp add: signs_sorted_def drop_map [symmetric] sorted_wrt_drop)
      then have "sign_ID (signs ! idx) \<le> sign_ID s" using s(1) unfolding split by auto
      then show ?thesis using s(2) c(3) split by (simp add: order_antisym)
    qed
    moreover have "signs ! idx \<in> set signs" using True by simp
    ultimately show ?thesis using True
      by (auto simp: IDInOplogSigns_def Let_def idx_def [symmetric])
  next
    case False
    then have "take idx signs = signs" using c(1) by simp
    then have "theID \<notin> sign_ID ` set signs" using c(2) by fastforce
    then show ?thesis using False by (auto simp: IDInOplogSigns_def Let_def idx_def [symmetric])
  qed
qed

text \<open>
  Two lists where neither has a signer past the other's last one merge to the union. In general the rest of the
  longer list is lost: the second master of a list that extends the stored one is dropped.
\<close>

lemma integrate_drops_signer:
  assumes "sign_ID a < sign_ID b"
  shows "integrateSignInfos [a, b] [a] = ([a], False, True)"
    and "integrateSignInfos [a] [b] = ([a], True, True)"
  using assms by (auto simp: integrateSignInfos_def Let_def)

lemma integrate_sorted_subset:
  "set (integrate_loop ss rs) \<subseteq> set ss \<union> set rs"
  by (induction ss rs rule: integrate_loop.induct) auto


subsection \<open>What verification accepts\<close>

definition signed_by ::
  "op_env \<Rightarrow> BaseOplog \<Rightarrow> bytes \<Rightarrow> Salt \<Rightarrow> bytes \<Rightarrow> bytes \<Rightarrow> PttID \<Rightarrow> KeyExtraInfo option \<Rightarrow> bool" where
  "signed_by E core hash salt sig pub theID extra \<longleftrightarrow>
     (\<exists>m. oe_enc E core = Inr m \<and> VerifyData (oe_ecc E) (m @ salt) hash sig pub theID extra = Ret ())"

definition sign_ok :: "op_env \<Rightarrow> BaseOplog \<Rightarrow> SignInfo \<Rightarrow> bool" where
  "sign_ok E o1 s \<longleftrightarrow>
     signed_by E (strip_signs o1) (sign_Hash s) (sign_Salt s) (sign_Sig s) (sign_Pubkey s) (sign_ID s) (sign_Extra s)"

definition verified_log :: "op_env \<Rightarrow> BaseOplog \<Rightarrow> bool" where
  "verified_log E o1 \<longleftrightarrow> log_CreateTS o1 \<le> log_UpdateTS o1 \<and> SignsHash E o1 = Ret (log_Hash o1) \<and>
     signed_by E (creator_core o1) (log_CreatorHash o1) (log_Salt o1) (log_Sig o1) (log_Pubkey o1)
       (log_CreatorID o1) (log_KeyExtra o1) \<and>
     (\<forall>s \<in> set (log_MasterSigns o1) \<union> set (log_InternalSigns o1). sign_ok E o1 s)"

text \<open>
  What a creator signs, written from the zero entry: the fields it covers. And what a good signature is: the key is one of
  the signer, the hash is that of the encoded text with the salt, and the signature is one of the hash.
\<close>

definition creator_part :: "BaseOplog \<Rightarrow> BaseOplog" where
  "creator_part o1 =
     zero_oplog\<lparr>log_V := log_V o1, log_ID := log_ID o1, log_CreatorID := log_CreatorID o1, log_CreateTS := log_CreateTS o1,
       log_ObjID := log_ObjID o1, log_Op := log_Op o1, log_PreLogID := log_PreLogID o1, log_Data := log_Data o1\<rparr>"

definition good_signature ::
  "op_env \<Rightarrow> BaseOplog \<Rightarrow> bytes \<Rightarrow> Salt \<Rightarrow> bytes \<Rightarrow> bytes \<Rightarrow> PttID \<Rightarrow> KeyExtraInfo option \<Rightarrow> bool" where
  "good_signature E part hash salt sig pub theID extra \<longleftrightarrow>
     (case oe_enc E part of
        Inl e \<Rightarrow> False
      | Inr m \<Rightarrow>
          verifyDataCheckKey (oe_ecc E) pub theID extra = Ret True \<and> hash = Keccak256 (oe_ecc E) (m @ salt) \<and>
          64 \<le> length sig \<and> VerifySignature (oe_ecc E) pub hash (take 64 sig))"

lemma signed_by_good: "signed_by = good_signature"
  by (auto simp: fun_eq_iff signed_by_def good_signature_def VerifyData_def Let_def res_bind_eq_Ret split: sum.split)

lemma creator_core_part: "creator_core o1 = creator_part o1"
  by (cases o1) (simp add: creator_core_def creator_part_def zero_oplog_def)

lemma strip_signs_part:
  "strip_signs o1 = (creator_part o1)\<lparr>log_CreatorHash := log_CreatorHash o1, log_Salt := log_Salt o1, log_Sig := log_Sig o1,
     log_Pubkey := log_Pubkey o1, log_KeyExtra := log_KeyExtra o1\<rparr>"
  by (cases o1) (simp add: strip_signs_def creator_part_def zero_oplog_def)

lemma SignsHash_eq:
  "SignsHash E o1 = Ret (Keccak256 (oe_ecc E)
     ((case log_MasterLogID o1 of None \<Rightarrow> [] | Some theID \<Rightarrow> theID) @
      log_CreatorHash o1 @ log_Salt o1 @ log_Sig o1 @ log_Pubkey o1 @
      concat (concat (map sign_fields (log_MasterSigns o1))) @
      concat (concat (map sign_fields (log_InternalSigns o1)))))"
  by (simp add: SignsHash_def Let_def del: list.map)

lemma SignsHash_signers:
  "SignsHash E o1 = Ret h \<longleftrightarrow> h = Keccak256 (oe_ecc E)
     ((case log_MasterLogID o1 of None \<Rightarrow> [] | Some theID \<Rightarrow> theID) @
      log_CreatorHash o1 @ log_Salt o1 @ log_Sig o1 @ log_Pubkey o1 @
      concat (map (\<lambda>s. sign_Hash s @ sign_Salt s @ sign_Sig s @ sign_Pubkey s) (log_MasterSigns o1 @ log_InternalSigns o1)))"
proof -
  have "concat (concat (map sign_fields ss)) = concat (map (\<lambda>s. sign_Hash s @ sign_Salt s @ sign_Sig s @ sign_Pubkey s) ss)" for ss
    by (induction ss) (simp_all add: sign_fields_def)
  then show ?thesis by (auto simp: SignsHash_eq)
qed

lemma set_hash_eq: "\<exists>h. set_hash E o1 = o1\<lparr>log_Hash := h\<rparr> \<and> SignsHash E o1 = Ret h"
  by (simp add: set_hash_def SignsHash_eq)

lemma strip_signs_core [simp]:
  "strip_signs (o1\<lparr>log_UpdateTS := a\<rparr>) = strip_signs o1"
  "strip_signs (o1\<lparr>log_Hash := b\<rparr>) = strip_signs o1"
  "strip_signs (o1\<lparr>log_MasterLogID := c\<rparr>) = strip_signs o1"
  "strip_signs (o1\<lparr>log_MasterSigns := d\<rparr>) = strip_signs o1"
  "strip_signs (o1\<lparr>log_InternalSigns := d\<rparr>) = strip_signs o1"
  "strip_signs (o1\<lparr>log_IsSync := f\<rparr>) = strip_signs o1"
  "strip_signs (o1\<lparr>log_IsNewer := f\<rparr>) = strip_signs o1"
  "strip_signs (o1\<lparr>log_Extra := g\<rparr>) = strip_signs o1"
  "strip_signs (strip_signs o1) = strip_signs o1"
  by (simp_all add: strip_signs_def)

lemma strip_signs_sel [simp]:
  "log_CreateTS (strip_signs o1) = log_CreateTS o1" "log_CreatorID (strip_signs o1) = log_CreatorID o1"
  "log_CreatorHash (strip_signs o1) = log_CreatorHash o1" "log_Salt (strip_signs o1) = log_Salt o1"
  "log_Sig (strip_signs o1) = log_Sig o1" "log_Pubkey (strip_signs o1) = log_Pubkey o1"
  "log_KeyExtra (strip_signs o1) = log_KeyExtra o1" "log_ID (strip_signs o1) = log_ID o1"
  "log_MasterSigns (strip_signs o1) = []" "log_InternalSigns (strip_signs o1) = []"
  "log_MasterLogID (strip_signs o1) = None"
  by (simp_all add: strip_signs_def)

text \<open>Entries with the same stripped form differ only in what signatures do not cover.\<close>

lemma creator_core_strip:
  "creator_core o1 =
     (strip_signs o1)\<lparr>log_CreatorHash := [], log_Sig := [], log_Salt := EmptySalt, log_Pubkey := [],
                     log_KeyExtra := None\<rparr>"
  by (simp add: creator_core_def strip_signs_def)

lemma same_stripped:
  assumes "strip_signs o1 = strip_signs o2"
  shows "creator_core o1 = creator_core o2" "sign_ok E o1 = sign_ok E o2"
    "log_CreateTS o1 = log_CreateTS o2" "log_CreatorID o1 = log_CreatorID o2"
    "log_CreatorHash o1 = log_CreatorHash o2" "log_Salt o1 = log_Salt o2" "log_Sig o1 = log_Sig o2"
    "log_Pubkey o1 = log_Pubkey o2" "log_KeyExtra o1 = log_KeyExtra o2"
  using assms strip_signs_sel [of o1] strip_signs_sel [of o2]
  by (simp_all add: creator_core_strip sign_ok_def fun_eq_iff)

lemma verify_signs_iff:
  "verify_signs E (strip_signs o1) signs = Ret () \<longleftrightarrow> (\<forall>s \<in> set signs. sign_ok E o1 s)"
proof (induction signs)
  case (Cons s signs)
  then show ?case
    by (cases "oe_enc E (strip_signs o1)")
      (auto simp: sign_ok_def signed_by_def res_bind_eq_Ret)
qed simp

lemma signer_core_eq: "signer_core o1 (creator_core o1) = strip_signs o1"
  by (simp add: signer_core_def creator_core_def strip_signs_def)

lemma verify_restore_eq: "verify_restore o1 (strip_signs o1) = o1"
  by (simp add: verify_restore_def strip_signs_def)

lemma Verify_iff: "Oplog_Verify E o1 = (Ret (), o2) \<longleftrightarrow> o2 = o1 \<and> verified_log E o1"
proof -
  obtain h where h: "SignsHash E o1 = Ret h" using SignsHash_eq by blast
  show ?thesis
  proof (cases "oe_enc E (creator_core o1)")
    case (Inl e)
    then show ?thesis
      by (auto simp: Oplog_Verify_def h verified_log_def signed_by_def)
  next
    case (Inr m)
    let ?v = "VerifyData (oe_ecc E) (m @ log_Salt o1) (log_CreatorHash o1) (log_Sig o1) (log_Pubkey o1)
        (log_CreatorID o1) (log_KeyExtra o1)"
    show ?thesis
      unfolding Oplog_Verify_def h res.case Let_def Inr sum.case signer_core_eq verify_restore_eq
      by (cases ?v) (auto simp: verified_log_def signed_by_def Inr h verify_signs_iff res_bind_eq_Ret not_less)
  qed
qed

subsection \<open>Signing\<close>

lemma copy_salt: "length salt = SizeSalt \<Longrightarrow> copy_into EmptySalt salt = salt"
  by (simp add: EmptySalt_def)

lemma sign_stripped_ok:
  assumes "ecc_ok (oe_ecc E)" "key_usable (oe_ecc E) theID ki" "length salt = SizeSalt"
    and "sign_stripped E (Ret salt) ts theID ki (strip_signs o1) = (Ret s, ki')"
  shows "sign_ok E o1 s" "sign_ID s = theID" "sign_CreateTS s = ts"
proof -
  obtain m b hash sig pub where m: "oe_enc E (strip_signs o1) = Inr m"
    "SignData (oe_ecc E) (Ret salt) m ki = (Ret (b, hash, sig, pub), ki')"
    "s = \<lparr>sign_ID = theID, sign_CreateTS = ts, sign_Hash = hash,
          sign_Salt = copy_into EmptySalt (drop (length m) b), sign_Sig = sig, sign_Pubkey = pub,
          sign_Extra = ki_Extra ki\<rparr>"
    using assms(4) by (auto simp: sign_stripped_def split: sum.splits prod.splits res.splits)
  from sign_verify_data [OF assms(1,2) m(2)] m(1,3) assms(3)
  show "sign_ok E o1 s" "sign_ID s = theID" "sign_CreateTS s = ts"
    by (auto simp: sign_ok_def signed_by_def copy_salt)
qed

lemma Sign_ok:
  assumes "ecc_ok (oe_ecc E)" "key_usable (oe_ecc E) (log_CreatorID o0) ki" "length salt = SizeSalt"
    and "log_KeyExtra o0 = None" "Oplog_Sign E (Ret salt) ki o0 = (Ret (), o1, ki')"
  shows "verified_log E o1" "log_MasterSigns o1 = []" "log_InternalSigns o1 = []" "log_MasterLogID o1 = None"
    "log_UpdateTS o1 = log_CreateTS o0" "log_ID o1 = log_ID o0" "log_CreatorID o1 = log_CreatorID o0"
proof -
  let ?core = "o0\<lparr>log_UpdateTS := ZeroTimestamp, log_Hash := [], log_CreatorHash := [], log_Sig := [],
      log_Salt := EmptySalt, log_Pubkey := [], log_MasterLogID := None, log_MasterSigns := [],
      log_InternalSigns := [], log_IsSync := False, log_IsNewer := False, log_Extra := None\<rparr>"
  obtain m b hash sig pub where m: "oe_enc E ?core = Inr m"
    "SignData (oe_ecc E) (Ret salt) m ki = (Ret (b, hash, sig, pub), ki')"
    "o1 = (set_hash E (?core\<lparr>log_CreatorHash := hash, log_Salt := copy_into EmptySalt (drop (length m) b),
        log_Sig := sig, log_Pubkey := pub, log_KeyExtra := ki_Extra ki, log_UpdateTS := log_CreateTS o0\<rparr>))
        \<lparr>log_IsSync := log_IsSync o0, log_Extra := log_Extra o0\<rparr>"
    using assms(5) by (auto simp: Oplog_Sign_def Let_def split: sum.splits prod.splits res.splits)
  from sign_verify_data [OF assms(1,2) m(2)]
  have v: "b = m @ salt" "VerifyData (oe_ecc E) (m @ salt) hash sig pub (log_CreatorID o0) (ki_Extra ki) = Ret ()"
    by auto
  let ?o2 = "?core\<lparr>log_CreatorHash := hash, log_Salt := salt, log_Sig := sig, log_Pubkey := pub,
      log_KeyExtra := ki_Extra ki, log_UpdateTS := log_CreateTS o0\<rparr>"
  obtain h where h: "set_hash E ?o2 = ?o2\<lparr>log_Hash := h\<rparr>" "SignsHash E ?o2 = Ret h"
    using set_hash_eq by blast
  have o1: "o1 = ?o2\<lparr>log_Hash := h, log_IsSync := log_IsSync o0, log_Extra := log_Extra o0\<rparr>"
    unfolding m(3) v(1) using assms(3) h(1) by (simp add: copy_salt)
  have "creator_core o1 = ?core" using assms(4) by (simp add: o1 creator_core_def strip_signs_def)
  moreover have "SignsHash E o1 = Ret h" using h(2) by (simp add: o1 SignsHash_eq)
  ultimately show "verified_log E o1"
    using v(2) m(1) by (auto simp: verified_log_def signed_by_def o1)
  show "log_MasterSigns o1 = []" "log_InternalSigns o1 = []" "log_MasterLogID o1 = None"
    "log_UpdateTS o1 = log_CreateTS o0" "log_ID o1 = log_ID o0" "log_CreatorID o1 = log_CreatorID o0"
    by (simp_all add: o1)
qed


lemma MasterSign_run:
  assumes "MasterSign E (Ret ts) (Ret salt) theID ki o0 = (Ret (), o1, ki')"
  obtains s h where "\<not> oplog_expired ts o0"
    "sign_stripped E (Ret salt) ts theID ki (strip_signs o0) = (Ret s, ki')"
    "o1 = (strip_signs o0)\<lparr>log_MasterSigns := insert_sign s (log_MasterSigns o0), log_UpdateTS := ts, log_Hash := h,
        log_MasterLogID := log_MasterLogID o0, log_IsSync := log_IsSync o0, log_Extra := log_Extra o0\<rparr>"
    "SignsHash E (o1\<lparr>log_MasterLogID := None\<rparr>) = Ret h"
proof -
  obtain s where s: "\<not> oplog_expired ts o0"
    "sign_stripped E (Ret salt) ts theID ki (strip_signs o0) = (Ret s, ki')"
    "o1 = (set_hash E ((strip_signs o0)\<lparr>log_MasterSigns := insert_sign s (log_MasterSigns o0), log_UpdateTS := ts\<rparr>))
        \<lparr>log_MasterLogID := log_MasterLogID o0, log_IsSync := log_IsSync o0, log_Extra := log_Extra o0\<rparr>"
    using assms by (auto simp: MasterSign_def Let_def split: if_splits prod.splits res.splits)
  let ?o2 = "(strip_signs o0)\<lparr>log_MasterSigns := insert_sign s (log_MasterSigns o0), log_UpdateTS := ts\<rparr>"
  obtain h where h: "set_hash E ?o2 = ?o2\<lparr>log_Hash := h\<rparr>" "SignsHash E ?o2 = Ret h"
    using set_hash_eq by blast
  have o1: "o1 = ?o2\<lparr>log_Hash := h, log_MasterLogID := log_MasterLogID o0, log_IsSync := log_IsSync o0,
      log_Extra := log_Extra o0\<rparr>"
    unfolding s(3) h(1) by simp
  moreover have "SignsHash E (o1\<lparr>log_MasterLogID := None\<rparr>) = Ret h"
    using h(2) by (simp add: o1 SignsHash_eq)
  ultimately show ?thesis using that [OF s(1,2)] by simp
qed

lemma InternalSign_run:
  assumes "InternalSign E (Ret ts) (Ret salt) theID ki o0 = (Ret (), o1, ki')"
  obtains s h where "\<not> oplog_expired ts o0"
    "sign_stripped E (Ret salt) ts theID ki (strip_signs o0) = (Ret s, ki')"
    "o1 = (strip_signs o0)\<lparr>log_InternalSigns := insert_sign s (log_InternalSigns o0), log_UpdateTS := ts, log_Hash := h,
        log_MasterLogID := log_MasterLogID o0, log_MasterSigns := log_MasterSigns o0,
        log_IsSync := log_IsSync o0, log_Extra := log_Extra o0\<rparr>"
    "SignsHash E (o1\<lparr>log_MasterLogID := None, log_MasterSigns := []\<rparr>) = Ret h"
proof -
  obtain s where s: "\<not> oplog_expired ts o0"
    "sign_stripped E (Ret salt) ts theID ki (strip_signs o0) = (Ret s, ki')"
    "o1 = (set_hash E ((strip_signs o0)\<lparr>log_InternalSigns := insert_sign s (log_InternalSigns o0), log_UpdateTS := ts\<rparr>))
        \<lparr>log_MasterLogID := log_MasterLogID o0, log_MasterSigns := log_MasterSigns o0,
         log_IsSync := log_IsSync o0, log_Extra := log_Extra o0\<rparr>"
    using assms by (auto simp: InternalSign_def Let_def split: if_splits prod.splits res.splits)
  let ?o2 = "(strip_signs o0)\<lparr>log_InternalSigns := insert_sign s (log_InternalSigns o0), log_UpdateTS := ts\<rparr>"
  obtain h where h: "set_hash E ?o2 = ?o2\<lparr>log_Hash := h\<rparr>" "SignsHash E ?o2 = Ret h"
    using set_hash_eq by blast
  have o1: "o1 = ?o2\<lparr>log_Hash := h, log_MasterLogID := log_MasterLogID o0, log_MasterSigns := log_MasterSigns o0,
      log_IsSync := log_IsSync o0, log_Extra := log_Extra o0\<rparr>"
    unfolding s(3) h(1) by simp
  moreover have "SignsHash E (o1\<lparr>log_MasterLogID := None, log_MasterSigns := []\<rparr>) = Ret h"
    using h(2) by (simp add: o1 SignsHash_eq)
  ultimately show ?thesis using that [OF s(1,2)] by simp
qed

text \<open>The signatures of an entry remain good as long as the signed part stays.\<close>

lemma verified_log_cong:
  assumes "verified_log E o0" "strip_signs o1 = strip_signs o0" "log_CreateTS o0 \<le> log_UpdateTS o1"
    and "SignsHash E o1 = Ret (log_Hash o1)"
    and "\<And>s. s \<in> set (log_MasterSigns o1) \<union> set (log_InternalSigns o1) \<Longrightarrow> sign_ok E o0 s"
  shows "verified_log E o1"
  using assms same_stripped [OF assms(2)] by (simp add: verified_log_def)

lemma MasterSign_ok:
  assumes "ecc_ok (oe_ecc E)" "key_usable (oe_ecc E) theID ki" "length salt = SizeSalt"
    and "verified_log E o0" "signs_sorted (log_MasterSigns o0)" "log_MasterLogID o0 = None" "log_CreateTS o0 \<le> ts"
    and "MasterSign E (Ret ts) (Ret salt) theID ki o0 = (Ret (), o1, ki')"
  shows "verified_log E o1" "signs_sorted (log_MasterSigns o1)" "log_InternalSigns o1 = []"
    "log_MasterLogID o1 = None" "sign_ID ` set (log_MasterSigns o1) = insert theID (sign_ID ` set (log_MasterSigns o0))"
proof -
  obtain s h where s: "sign_stripped E (Ret salt) ts theID ki (strip_signs o0) = (Ret s, ki')"
    "o1 = (strip_signs o0)\<lparr>log_MasterSigns := insert_sign s (log_MasterSigns o0), log_UpdateTS := ts, log_Hash := h,
        log_MasterLogID := log_MasterLogID o0, log_IsSync := log_IsSync o0, log_Extra := log_Extra o0\<rparr>"
    "SignsHash E (o1\<lparr>log_MasterLogID := None\<rparr>) = Ret h"
    using MasterSign_run [OF assms(8)] by blast
  note ok = sign_stripped_ok [OF assms(1-3) s(1)]
  have sel: "log_MasterSigns o1 = insert_sign s (log_MasterSigns o0)" "log_InternalSigns o1 = []"
    "log_MasterLogID o1 = None" "log_UpdateTS o1 = ts" "log_Hash o1 = h" "strip_signs o1 = strip_signs o0"
    using assms(6) by (simp_all add: s(2))
  have ins: "set (log_MasterSigns o1) = insert s (set (log_MasterSigns o0))"
    using arg_cong [OF insert_sign_sorted(2) [OF assms(5), of s], of set_mset] sel(1) by simp
  show "log_InternalSigns o1 = []" "log_MasterLogID o1 = None" by (rule sel)+
  show "signs_sorted (log_MasterSigns o1)" using insert_sign_sorted(1) [OF assms(5)] sel(1) by simp
  show "sign_ID ` set (log_MasterSigns o1) = insert theID (sign_ID ` set (log_MasterSigns o0))"
    using ins ok(2) by simp
  have "SignsHash E o1 = Ret (log_Hash o1)" using s(3) sel(3,5) by (simp add: SignsHash_eq)
  moreover have "\<And>r. r \<in> set (log_MasterSigns o1) \<union> set (log_InternalSigns o1) \<Longrightarrow> sign_ok E o0 r"
    using ins sel(2) ok(1) assms(4) by (auto simp: verified_log_def)
  ultimately show "verified_log E o1"
    using assms(7) sel(4,6) by (intro verified_log_cong [OF assms(4)]) simp_all
qed

lemma InternalSign_ok:
  assumes "ecc_ok (oe_ecc E)" "key_usable (oe_ecc E) theID ki" "length salt = SizeSalt"
    and "verified_log E o0" "signs_sorted (log_InternalSigns o0)" "log_MasterLogID o0 = None" "log_MasterSigns o0 = []"
    and "log_CreateTS o0 \<le> ts" "InternalSign E (Ret ts) (Ret salt) theID ki o0 = (Ret (), o1, ki')"
  shows "verified_log E o1" "signs_sorted (log_InternalSigns o1)" "log_MasterSigns o1 = []"
    "log_MasterLogID o1 = None"
    "sign_ID ` set (log_InternalSigns o1) = insert theID (sign_ID ` set (log_InternalSigns o0))"
proof -
  obtain s h where s: "sign_stripped E (Ret salt) ts theID ki (strip_signs o0) = (Ret s, ki')"
    "o1 = (strip_signs o0)\<lparr>log_InternalSigns := insert_sign s (log_InternalSigns o0), log_UpdateTS := ts, log_Hash := h,
        log_MasterLogID := log_MasterLogID o0, log_MasterSigns := log_MasterSigns o0,
        log_IsSync := log_IsSync o0, log_Extra := log_Extra o0\<rparr>"
    "SignsHash E (o1\<lparr>log_MasterLogID := None, log_MasterSigns := []\<rparr>) = Ret h"
    using InternalSign_run [OF assms(9)] by blast
  note ok = sign_stripped_ok [OF assms(1-3) s(1)]
  have sel: "log_InternalSigns o1 = insert_sign s (log_InternalSigns o0)" "log_MasterSigns o1 = []"
    "log_MasterLogID o1 = None" "log_UpdateTS o1 = ts" "log_Hash o1 = h" "strip_signs o1 = strip_signs o0"
    using assms(6,7) by (simp_all add: s(2))
  have ins: "set (log_InternalSigns o1) = insert s (set (log_InternalSigns o0))"
    using arg_cong [OF insert_sign_sorted(2) [OF assms(5), of s], of set_mset] sel(1) by simp
  show "log_MasterSigns o1 = []" "log_MasterLogID o1 = None" by (rule sel)+
  show "signs_sorted (log_InternalSigns o1)" using insert_sign_sorted(1) [OF assms(5)] sel(1) by simp
  show "sign_ID ` set (log_InternalSigns o1) = insert theID (sign_ID ` set (log_InternalSigns o0))"
    using ins ok(2) by simp
  have "SignsHash E o1 = Ret (log_Hash o1)" using s(3) sel(2,3,5) by (simp add: SignsHash_eq)
  moreover have "\<And>r. r \<in> set (log_MasterSigns o1) \<union> set (log_InternalSigns o1) \<Longrightarrow> sign_ok E o0 r"
    using ins sel(2) ok(1) assms(4) by (auto simp: verified_log_def)
  ultimately show "verified_log E o1"
    using assms(8) sel(4,6) by (intro verified_log_cong [OF assms(4)]) simp_all
qed

lemma SetMasterLogID_ok:
  assumes "verified_log E o0"
  shows "verified_log E (SetMasterLogID E theID o0)"
    "log_MasterSigns (SetMasterLogID E theID o0) = log_MasterSigns o0"
    "log_InternalSigns (SetMasterLogID E theID o0) = []"
    "Oplog_ToStatus (SetMasterLogID E theID o0) = StatusAlive"
proof -
  let ?o1 = "o0\<lparr>log_MasterLogID := Some theID, log_InternalSigns := []\<rparr>"
  obtain h where h: "SetMasterLogID E theID o0 = ?o1\<lparr>log_Hash := h\<rparr>" "SignsHash E ?o1 = Ret h"
    using set_hash_eq [of E ?o1] by (auto simp: SetMasterLogID_def)
  have "SignsHash E (?o1\<lparr>log_Hash := h\<rparr>) = Ret h" using h(2) by (simp add: SignsHash_eq)
  then show "verified_log E (SetMasterLogID E theID o0)"
    unfolding h(1) using assms by (intro verified_log_cong [OF assms]) (auto simp: verified_log_def)
  show "log_MasterSigns (SetMasterLogID E theID o0) = log_MasterSigns o0"
    "log_InternalSigns (SetMasterLogID E theID o0) = []"
    "Oplog_ToStatus (SetMasterLogID E theID o0) = StatusAlive"
    by (simp_all add: h(1) Oplog_ToStatus_def)
qed

text \<open>
  The life of an entry until it is valid: creation, signatures by devices before any master has signed, signatures
  by masters, and the master log identifier. Each signer's clock is not before the creation time.
\<close>

inductive signed_log :: "op_env \<Rightarrow> BaseOplog \<Rightarrow> bool" for E where
  created: "\<lbrakk>log_KeyExtra o0 = None; key_usable (oe_ecc E) (log_CreatorID o0) ki; length salt = SizeSalt;
     Oplog_Sign E (Ret salt) ki o0 = (Ret (), o1, ki')\<rbrakk> \<Longrightarrow> signed_log E o1"
| internal: "\<lbrakk>signed_log E o0; log_MasterLogID o0 = None; log_MasterSigns o0 = [];
     key_usable (oe_ecc E) theID ki; length salt = SizeSalt; log_CreateTS o0 \<le> ts;
     InternalSign E (Ret ts) (Ret salt) theID ki o0 = (Ret (), o1, ki')\<rbrakk> \<Longrightarrow> signed_log E o1"
| master: "\<lbrakk>signed_log E o0; log_MasterLogID o0 = None; key_usable (oe_ecc E) theID ki; length salt = SizeSalt;
     log_CreateTS o0 \<le> ts; MasterSign E (Ret ts) (Ret salt) theID ki o0 = (Ret (), o1, ki')\<rbrakk> \<Longrightarrow> signed_log E o1"
| validated: "signed_log E o0 \<Longrightarrow> signed_log E (SetMasterLogID E theID o0)"

lemma signed_log_invariant:
  assumes "ecc_ok (oe_ecc E)" "signed_log E o1"
  shows "verified_log E o1 \<and> signs_sorted (log_MasterSigns o1) \<and> signs_sorted (log_InternalSigns o1)"
  using assms(2)
proof induction
  case (created o0 ki salt o1 ki')
  from Sign_ok(1-3) [OF assms(1) created(2,3,1,4)] show ?case by (simp add: signs_sorted_def)
next
  case (internal o0 theID ki salt ts o1 ki')
  have "verified_log E o0" "signs_sorted (log_InternalSigns o0)" using internal(8) by auto
  from InternalSign_ok(1-3) [OF assms(1) internal(4,5) this internal(2,3,6,7)] show ?case
    by (simp add: signs_sorted_def)
next
  case (master o0 theID ki salt ts o1 ki')
  have "verified_log E o0" "signs_sorted (log_MasterSigns o0)" using master(7) by auto
  from MasterSign_ok(1-3) [OF assms(1) master(3,4) this master(2,5,6)] show ?case
    by (simp add: signs_sorted_def)
next
  case (validated o0 theID)
  then have "verified_log E o0" "signs_sorted (log_MasterSigns o0)" by auto
  then show ?case using SetMasterLogID_ok(1-3) [of E o0 theID] by (simp add: signs_sorted_def)
qed

text \<open>
  C36: An entry that went through \<^verbatim>\<open>Sign\<close>, any number of \<^verbatim>\<open>InternalSign\<close>s before the first master signs, any
  number of \<^verbatim>\<open>MasterSign\<close>s and \<^verbatim>\<open>SetMasterLogID\<close> is accepted by \<^verbatim>\<open>Verify\<close> on every node, which leaves it
  unchanged, given that each signer used a key of its own and no clock is before the creation time. Its sign lists
  are sorted by the identifier of the signer, and \<^verbatim>\<open>IDInOplogSigns\<close>, a binary search, finds exactly the signers.
\<close>

theorem signed_oplog_verifies:
  assumes "ecc_ok (oe_ecc E)" "signed_log E o1"
  shows "Oplog_Verify E o1 = (Ret (), o1) \<and>
    sorted (map sign_ID (log_MasterSigns o1)) \<and> sorted (map sign_ID (log_InternalSigns o1)) \<and>
    (\<forall>theID. IDInOplogSigns theID (log_MasterSigns o1) \<longleftrightarrow> theID \<in> sign_ID ` set (log_MasterSigns o1)) \<and>
    (\<forall>theID. IDInOplogSigns theID (log_InternalSigns o1) \<longleftrightarrow> theID \<in> sign_ID ` set (log_InternalSigns o1))"
proof -
  have "verified_log E o1" and o: "signs_sorted (log_MasterSigns o1)" "signs_sorted (log_InternalSigns o1)"
    using signed_log_invariant [OF assms] by simp_all
  then show ?thesis using IDInOplogSigns_iff [OF o(1)] IDInOplogSigns_iff [OF o(2)] by (simp add: Verify_iff signs_sorted_def)
qed

definition example_key :: KeyInfo where
  "example_key =
     \<lparr>ki_ID = [], ki_CreateTS = ZeroTimestamp, ki_CreatorID = None, ki_EntityID = None,
      ki_Status = StatusInvalid, ki_Hash = [], ki_Key = example_scalar, ki_KeyBytes = [],
      ki_PubKeyBytes = FromECDSAPub (example_scalar, example_scalar), ki_UpdateTS = ZeroTimestamp, ki_Extra = None,
      ki_Count = 0\<rparr>"

lemma example_key_usable: "key_usable example_ecc example_doer example_key"
proof -
  have b: "ScalarBaseMult example_ecc example_scalar = (example_scalar, example_scalar)" by (simp add: example_ecc_def)
  show ?thesis
    using UnmarshalPubkey_base [OF example_ecc_ok example_scalar_ok] example_doer_owner example_scalar_ok
    by (simp add: key_usable_def example_key_def verifyDataCheckKey_def b)
qed

definition example_op_env :: op_env where
  "example_op_env =
     \<lparr>oe_ecc = example_ecc, oe_enc = \<lambda>_. Inr [7], oe_dec = \<lambda>_ o1. Some o1,
      oe_ix = \<lparr>ix_enc = \<lambda>_. Inr [], ix_dec = \<lambda>_. None\<rparr>,
      oe_merkle = \<lparr>env_keccak = \<lambda>_. replicate 32 0, env_offs = 0, env_ts_enc = \<lambda>_. Inr [],
        env_dbable = \<lambda>_. None, env_list_enc = \<lambda>_. Inr [], env_list_dec = \<lambda>_. None, env_order = \<lambda>x. x\<rparr>\<rparr>"

theorem signed_oplog_verifies_witness:
  "\<exists>o1. Oplog_ToStatus o1 = StatusAlive \<and> Oplog_Verify example_op_env o1 = (Ret (), o1) \<and>
    IDInOplogSigns example_doer (log_MasterSigns o1)"
proof -
  let ?E = example_op_env and ?o0 = "zero_oplog\<lparr>log_CreatorID := example_doer\<rparr>" and ?salt = "replicate 32 0"
  have E: "oe_ecc ?E = example_ecc" "ecc_ok (oe_ecc ?E)" using example_ecc_ok by (simp_all add: example_op_env_def)
  have sd: "\<exists>b h sg pub k'. SignData example_ecc (Ret ?salt) [7] k = (Ret (b, h, sg, pub), k')" for k
    by (simp add: SignData_def example_ecc_def Let_def)
  obtain o1 ki' where o1: "Oplog_Sign ?E (Ret ?salt) example_key ?o0 = (Ret (), o1, ki')"
    using sd [of example_key] by (auto simp: Oplog_Sign_def Let_def example_op_env_def)
  have s1: "signed_log ?E o1"
    using example_key_usable by (intro signed_log.created [OF _ _ _ o1]) (simp_all add: E zero_oplog_def SizeSalt_def)
  note l1 = Sign_ok [OF E(2) _ _ _ o1, unfolded E(1), simplified, OF example_key_usable]
  have c1: "log_MasterSigns o1 = []" "log_MasterLogID o1 = None" "log_CreateTS o1 = ZeroTimestamp"
    using l1 o1 by (auto simp: Oplog_Sign_def Let_def example_op_env_def zero_oplog_def SizeSalt_def set_hash_def
        split: prod.splits res.splits)
  have "\<not> oplog_expired ZeroTimestamp o1"
    using c1(3) by (simp add: oplog_expired_def ExpireOplogSeconds_def i64_def ZeroTimestamp_def less_Timestamp_ext_def)
  moreover obtain s k where "sign_stripped ?E (Ret ?salt) ZeroTimestamp example_doer example_key (strip_signs o1) = (Ret s, k)"
    using sd [of example_key] by (auto simp: sign_stripped_def example_op_env_def)
  ultimately obtain o2 k2 where o2: "MasterSign ?E (Ret ZeroTimestamp) (Ret ?salt) example_doer example_key o1 = (Ret (), o2, k2)"
    by (simp add: MasterSign_def Let_def)
  have s2: "signed_log ?E o2"
    using s1 o2 c1 example_key_usable
    by (intro signed_log.master [OF s1 c1(2) _ _ _ o2]) (simp_all add: E SizeSalt_def)
  let ?o3 = "SetMasterLogID ?E [] o2"
  have s3: "signed_log ?E ?o3" using s2 by (rule signed_log.validated)
  have "sign_ID ` set (log_MasterSigns o2) = {example_doer}"
    using MasterSign_ok(5) [OF E(2) _ _ _ _ c1(2) _ o2] example_key_usable c1 signed_log_invariant [OF E(2) s1]
    by (simp add: E SizeSalt_def)
  then show ?thesis
    using signed_oplog_verifies [OF E(2) s3] SetMasterLogID_ok(2,4) signed_log_invariant [OF E(2) s2]
    by (intro exI [of _ ?o3]) auto
qed

text \<open>
  C37: \<^verbatim>\<open>Verify\<close> accepts an entry exactly when its update time is not before its creation time; its hash is the hash of
  the master log identifier and of the hash, salt, signature and key of the creator, of every master and of every
  internal signer, in this order; the creator has signed the version, identifiers, creation time, operation, predecessor and data
  of the entry and nothing else; and every master and internal signer has signed that together with the creator's signature.
  A signature counts when the key belongs to the signer it names, the signed hash is that of the text with the salt,
  and the curve accepts it.
\<close>

theorem verify_accepts_exactly:
  "Oplog_Verify E o1 = (Ret (), o1) \<longleftrightarrow>
    IsLessEqual (log_CreateTS o1) (log_UpdateTS o1) \<and>
    log_Hash o1 = Keccak256 (oe_ecc E)
      ((case log_MasterLogID o1 of None \<Rightarrow> [] | Some theID \<Rightarrow> theID) @
       log_CreatorHash o1 @ log_Salt o1 @ log_Sig o1 @ log_Pubkey o1 @
       concat (map (\<lambda>s. sign_Hash s @ sign_Salt s @ sign_Sig s @ sign_Pubkey s) (log_MasterSigns o1 @ log_InternalSigns o1))) \<and>
    good_signature E (creator_part o1) (log_CreatorHash o1) (log_Salt o1) (log_Sig o1) (log_Pubkey o1)
      (log_CreatorID o1) (log_KeyExtra o1) \<and>
    list_all (\<lambda>s. good_signature E
        ((creator_part o1)\<lparr>log_CreatorHash := log_CreatorHash o1, log_Salt := log_Salt o1, log_Sig := log_Sig o1,
           log_Pubkey := log_Pubkey o1, log_KeyExtra := log_KeyExtra o1\<rparr>)
        (sign_Hash s) (sign_Salt s) (sign_Sig s) (sign_Pubkey s) (sign_ID s) (sign_Extra s))
      (log_MasterSigns o1 @ log_InternalSigns o1)"
  unfolding Verify_iff verified_log_def sign_ok_def signed_by_good creator_core_part strip_signs_part SignsHash_signers
  by (auto simp: list_all_iff)

text \<open>
  \<^verbatim>\<open>InternalSign\<close> hashes the entry while the master signs are taken out and puts them back afterwards. If
  there are any, the stored hash is the hash of other data, and unless the hash function collides
  every node rejects the entry.
\<close>

lemma internal_sign_stale_hash:
  assumes "InternalSign E (Ret ts) (Ret salt) theID ki o0 = (Ret (), o1, ki')" "log_MasterSigns o0 \<noteq> []"
    and "\<not> IsLess ts (log_CreateTS o0)"
    and "SignsHash E o1 \<noteq> SignsHash E (o1\<lparr>log_MasterLogID := None, log_MasterSigns := []\<rparr>)"
  shows "fst (Oplog_Verify E o1) = Fail (ServiceError S_ErrInvalidData)"
proof -
  obtain s h where s: "o1 = (strip_signs o0)\<lparr>log_InternalSigns := insert_sign s (log_InternalSigns o0), log_UpdateTS := ts,
        log_Hash := h, log_MasterLogID := log_MasterLogID o0, log_MasterSigns := log_MasterSigns o0,
        log_IsSync := log_IsSync o0, log_Extra := log_Extra o0\<rparr>"
    "SignsHash E (o1\<lparr>log_MasterLogID := None, log_MasterSigns := []\<rparr>) = Ret h"
    using InternalSign_run [OF assms(1)] by blast
  obtain h' where h': "SignsHash E o1 = Ret h'" using SignsHash_eq by blast
  then have "h' \<noteq> log_Hash o1" using assms(4) s by auto
  moreover have "\<not> IsLess (log_UpdateTS o1) (log_CreateTS o1)" using assms(3) by (simp add: s(1))
  ultimately show ?thesis using h' by (simp add: Oplog_Verify_def)
qed

text \<open>A failed signature leaves the entry without its hash, update time and signatures.\<close>

lemma failed_sign_loses_signs:
  assumes "MasterSign E (Ret ts) (Fail e) theID ki o0 = (r, o1, ki')" "\<not> oplog_expired ts o0"
    "oe_enc E (strip_signs o0) = Inr m"
  shows "r = Fail e" "log_Hash o1 = []" "log_UpdateTS o1 = ZeroTimestamp" "log_MasterSigns o1 = []"
    "log_InternalSigns o1 = []"
  using assms by (auto simp: MasterSign_def sign_stripped_def SignData_def strip_signs_def Let_def)

end
