(* ===== verification/Oplog_Stores.thy ===== *)
theory Oplog_Stores
  imports Oplogs "HOL-Library.Countable"
begin

text \<open>
  Operation log entries in the database (\<^verbatim>\<open>service/oplog.go\<close>, \<^verbatim>\<open>service/oplog_utils.go\<close>).

  An entry is stored under a key made of a prefix, the identifier of its entity, its update time, its identifier and its
  operation. The prefix tells a valid entry from one that waits for masters or for the creator's
  devices. A valid and synced entry also has a leaf of the Merkle tree, and an index entry under its identifier lists
  the keys. \<open>log_store\<close> is what the entries of one log share: the database batch, the lock map and the
  Merkle tree (absent for logs without one). \<open>env\<close> is what other goroutines do to the lock map
  while a call waits for a lock.
\<close>

subsection \<open>Definitions\<close>

record log_store =
  ls_batch :: LDBBatch
  ls_lock :: LockMap
  ls_merkle :: "Merkle option"

type_synonym lock_env = "nat \<Rightarrow> LockMap \<Rightarrow> LockMap"

definition MarshalOp :: "OpType \<Rightarrow> bytes res" where
  "MarshalOp op = Ret (PutUint32 op)"

definition UnmarshalOp :: "bytes \<Rightarrow> OpType res" where
  "UnmarshalOp opBytes = (if length opBytes \<noteq> 4 then Fail (ServiceError S_ErrInvalidOp) else Uint32 opBytes)"

definition HashToAddr :: "bytes \<Rightarrow> bytes res" where
  "HashToAddr theBytes = (if length theBytes < 32 then Panic else Ret (slice 12 32 theBytes))"

definition Oplog_IdxKey :: "oplog_db \<Rightarrow> BaseOplog \<Rightarrow> bytes res" where
  "Oplog_IdxKey D o1 = Concat [Some (dbIdxPrefix D), Some (dbPrefixID D), Some (log_ID o1)]"

definition Oplog_MarshalKey :: "oplog_db \<Rightarrow> bytes \<Rightarrow> BaseOplog \<Rightarrow> bytes res" where
  "Oplog_MarshalKey D prefix o1 =
     res_bind (MarshalOp (log_Op o1)) (\<lambda>opBytes.
       Concat [Some prefix, Some (dbPrefixID D), Some (Timestamp_Marshal (log_UpdateTS o1)), Some (log_ID o1), Some opBytes])"

definition Oplog_MarshalMerkleKey :: "oplog_db \<Rightarrow> BaseOplog \<Rightarrow> bytes res" where
  "Oplog_MarshalMerkleKey D o1 =
     res_bind (MarshalOp (log_Op o1)) (\<lambda>opBytes.
       Concat [dbMerklePrefix D, Some (dbPrefixID D), Some [MerkleTreeLevelNow],
               Some (Timestamp_Marshal (log_UpdateTS o1)), Some (log_ID o1), Some opBytes])"

definition keyToUpdateTS :: "bytes \<Rightarrow> Timestamp res" where
  "keyToUpdateTS theBytes =
     (let offsetTS = SizeDBKeyPrefix + SizePttID; endOffsetTS = offsetTS + 12
      in if length theBytes < endOffsetTS then Panic else UnmarshalTimestamp (slice offsetTS endOffsetTS theBytes))"

definition bytesToStatus :: "bytes \<Rightarrow> Status res" where
  "bytesToStatus theBytes =
     (if length theBytes < SizeDBKeyPrefix then Panic
      else
        (let c = theBytes ! (SizeDBKeyPrefix - 1)
         in if c = 105 then Ret StatusInternalPending
            else if c = 109 then Ret StatusPending
            else Ret StatusAlive))"

definition OplogKeyToIDBytes :: "bytes \<Rightarrow> bytes res" where
  "OplogKeyToIDBytes key =
     (let offset = SizeDBKeyPrefix + SizePttID + 12; next' = offset + SizePttID
      in if length key < next' then Fail (ServiceError S_ErrInvalidKey) else Ret (slice offset next' key))"

definition OplogKeyToIdxKey :: "bytes \<Rightarrow> bytes \<Rightarrow> bytes res" where
  "OplogKeyToIdxKey key idxPrefix =
     (let offset = SizeDBKeyPrefix; nextOffset = offset + SizePttID;
          offset2 = nextOffset + 12; nextOffset2 = offset2 + SizePttID
      in if length key < nextOffset2 then Panic
         else Concat [Some idxPrefix, Some (slice offset nextOffset key), Some (slice offset2 nextOffset2 key)])"

text \<open>The lock around an operation on an entry, taken unless the caller holds it already.\<close>

definition oplog_lock ::
  "lock_env \<Rightarrow> bool \<Rightarrow> PttID \<Rightarrow> (BaseOplog \<Rightarrow> log_store \<Rightarrow> 'a res \<times> BaseOplog \<times> log_store) \<Rightarrow>
   BaseOplog \<Rightarrow> log_store \<Rightarrow> 'a res \<times> BaseOplog \<times> log_store" where
  "oplog_lock env isLocked theID body o1 s =
     (if isLocked then body o1 s
      else
        (case LM_Lock env (ls_lock s) (Some theID) of
           Ret (None, l) \<Rightarrow>
             (case body o1 (s\<lparr>ls_lock := l\<rparr>) of
                (r, o2, s2) \<Rightarrow>
                  (r, o2, s2\<lparr>ls_lock := (case LM_Unlock (ls_lock s2) (Some theID) of Ret l2 \<Rightarrow> l2 | _ \<Rightarrow> ls_lock s2)\<rparr>))
         | Ret (Some e, l) \<Rightarrow> (Fail e, o1, s\<lparr>ls_lock := l\<rparr>)
         | _ \<Rightarrow> (Panic, o1, s)))"

definition oplog_rlock ::
  "lock_env \<Rightarrow> bool \<Rightarrow> PttID \<Rightarrow> (BaseOplog \<Rightarrow> log_store \<Rightarrow> 'a res \<times> BaseOplog \<times> log_store) \<Rightarrow>
   BaseOplog \<Rightarrow> log_store \<Rightarrow> 'a res \<times> BaseOplog \<times> log_store" where
  "oplog_rlock env isLocked theID body o1 s =
     (if isLocked then body o1 s
      else
        (case LM_RLock env (ls_lock s) (Some theID) of
           Ret (None, l) \<Rightarrow>
             (case body o1 (s\<lparr>ls_lock := l\<rparr>) of
                (r, o2, s2) \<Rightarrow>
                  (r, o2, s2\<lparr>ls_lock := (case LM_RUnlock (ls_lock s2) (Some theID) of Ret l2 \<Rightarrow> l2 | _ \<Rightarrow> ls_lock s2)\<rparr>))
         | Ret (Some e, l) \<Rightarrow> (Fail e, o1, s\<lparr>ls_lock := l\<rparr>)
         | _ \<Rightarrow> (Panic, o1, s)))"

text \<open>
  The key under which the entry is stored already: \<open>Ret None\<close> if it is not.
\<close>

definition orig_key :: "op_env \<Rightarrow> bytes \<Rightarrow> LDBBatch \<Rightarrow> bytes option res" where
  "orig_key E idxKey b =
     (case fst (GetKeyByIdxKey (oe_ix E) idxKey 0 (bt_db b)) of
        Ret k \<Rightarrow> Ret (Some k)
      | Fail e \<Rightarrow> (if e = LdbErrNotFound then Ret None else Fail e)
      | Panic \<Rightarrow> Panic)"

definition delete_all :: "op_env \<Rightarrow> bytes \<Rightarrow> LDBBatch \<Rightarrow> LDBBatch" where
  "delete_all E idxKey b = snd (DeleteAll (oe_ix E) idxKey b)"

definition pending_key :: "oplog_db \<Rightarrow> BaseOplog \<Rightarrow> bytes option res" where
  "pending_key D o1 =
     (if Oplog_ToStatus o1 = StatusInternalPending
      then res_bind (Oplog_MarshalKey D (dbPrefixInternal D) o1) (\<lambda>k. Ret (Some k))
      else if Oplog_ToStatus o1 = StatusPending
      then res_bind (Oplog_MarshalKey D (dbPrefixMaster D) o1) (\<lambda>k. Ret (Some k))
      else Ret None)"

definition SaveCorePending ::
  "op_env \<Rightarrow> oplog_db \<Rightarrow> BaseOplog \<Rightarrow> LDBBatch \<Rightarrow> (bytes \<times> Index \<times> kv_list) res \<times> LDBBatch" where
  "SaveCorePending E D o1 =
     res_then (Oplog_IdxKey D o1) (\<lambda>idxKey b.
       res_then (orig_key E idxKey b) (\<lambda>origKey b.
         let currentStatus = Oplog_ToStatus o1
         in res_then (case origKey of None \<Rightarrow> Ret currentStatus | Some k \<Rightarrow> bytesToStatus k) (\<lambda>origStatus b.
              if currentStatus < origStatus then (Fail (ServiceError S_ErrInvalidOplog), b)
              else
                (let b1 = (if currentStatus > origStatus then delete_all E idxKey b else b)
                 in res_then (pending_key D o1) (\<lambda>key b.
                      case oe_enc E o1 of
                        Inl e \<Rightarrow> (Fail e, b)
                      | Inr marshaled \<Rightarrow>
                          (Ret (idxKey, \<lparr>Index_Keys = Some [key], Index_UpdateTS = log_UpdateTS o1\<rparr>,
                                [(key_bytes key, marshaled)]), b)) b1)) b) b)"

definition merkle_leaf :: "oplog_db \<Rightarrow> bytes \<Rightarrow> BaseOplog \<Rightarrow> kv_list res" where
  "merkle_leaf D key o1 =
     (if log_MasterLogID o1 \<noteq> None \<and> log_IsSync o1 \<and> dbMerklePrefix D \<noteq> None then
        res_bind (HashToAddr (log_Hash o1)) (\<lambda>addr.
        res_bind (Node_Marshal \<lparr>node_Level = MerkleTreeLevelNow, node_Addr = addr, node_UpdateTS = log_UpdateTS o1,
                                node_NChildren = 0, node_Key = key\<rparr>) (\<lambda>marshaledNode.
        res_bind (Oplog_MarshalMerkleKey D o1) (\<lambda>marshaledMerkleKey.
          Ret [(marshaledMerkleKey, marshaledNode)])))
      else Ret [])"

definition SaveCore ::
  "op_env \<Rightarrow> oplog_db \<Rightarrow> BaseOplog \<Rightarrow> LDBBatch \<Rightarrow> (bytes \<times> Index \<times> kv_list) res \<times> LDBBatch" where
  "SaveCore E D o1 =
     (if log_MasterLogID o1 = None then SaveCorePending E D o1
      else
        res_then (Oplog_MarshalKey D (dbPrefix D) o1) (\<lambda>key b.
          case oe_enc E o1 of
            Inl e \<Rightarrow> (Fail e, b)
          | Inr marshaled \<Rightarrow>
              res_then (Oplog_IdxKey D o1) (\<lambda>idxKey b.
                res_then (merkle_leaf D key o1) (\<lambda>leaf b.
                  let kvs = (key, marshaled) # leaf;
                      idx = \<lparr>Index_Keys = Some (map (Some \<circ> fst) kvs), Index_UpdateTS = log_UpdateTS o1\<rparr>
                  in res_then (orig_key E idxKey b) (\<lambda>origKey b.
                       case origKey of
                         None \<Rightarrow> (Ret (idxKey, idx, kvs), b)
                       | Some k \<Rightarrow>
                           res_then (bytesToStatus k) (\<lambda>origStatus b.
                             (Ret (idxKey, idx, kvs), if origStatus \<noteq> StatusAlive then delete_all E idxKey b else b)) b) b) b) b))"

definition setMerkleUpdateTS :: "BaseOplog \<Rightarrow> bytes option list \<Rightarrow> log_store \<Rightarrow> unit res \<times> log_store" where
  "setMerkleUpdateTS o1 origKeys s =
     (case ls_merkle s of
        None \<Rightarrow> (Ret (), s)
      | Some m \<Rightarrow>
          if log_MasterLogID o1 = None \<or> \<not> log_IsSync o1 then (Ret (), s)
          else
            (let put = \<lambda>(m', db'). s\<lparr>ls_merkle := Some m', ls_batch := (ls_batch s)\<lparr>bt_db := db'\<rparr>\<rparr>
             in case origKeys of
                  [] \<Rightarrow> (Ret (), put (SetUpdateTS (log_UpdateTS o1) (m, bt_db (ls_batch s))))
                | k # _ \<Rightarrow>
                    (case keyToUpdateTS (key_bytes k) of
                       Fail e \<Rightarrow> (Fail e, s)
                     | Panic \<Rightarrow> (Panic, s)
                     | Ret origUpdateTS \<Rightarrow>
                         (Ret (), put (SetUpdateTS2 (log_UpdateTS o1) origUpdateTS (m, bt_db (ls_batch s)))))))"

definition Save_body :: "op_env \<Rightarrow> oplog_db \<Rightarrow> BaseOplog \<Rightarrow> log_store \<Rightarrow> unit res \<times> BaseOplog \<times> log_store" where
  "Save_body E D o0 s =
     (let o1 = o0\<lparr>log_IsNewer := False\<rparr>
      in case SaveCore E D o1 (ls_batch s) of
           (Fail e, b) \<Rightarrow> (Fail e, o1, s\<lparr>ls_batch := b\<rparr>)
         | (Panic, b) \<Rightarrow> (Panic, o1, s\<lparr>ls_batch := b\<rparr>)
         | (Ret (idxKey, idx, kvs), b) \<Rightarrow>
             (case ForcePutAll (oe_ix E) idxKey idx kvs b of
                ((_, Some e), b2) \<Rightarrow> (Fail e, o1, s\<lparr>ls_batch := b2\<rparr>)
              | ((origKeys, None), b2) \<Rightarrow>
                  (case setMerkleUpdateTS o1 origKeys (s\<lparr>ls_batch := b2\<rparr>) of
                     (r, s2) \<Rightarrow> (r, o1, s2))))"

definition Oplog_Save ::
  "op_env \<Rightarrow> lock_env \<Rightarrow> oplog_db \<Rightarrow> bool \<Rightarrow> BaseOplog \<Rightarrow> log_store \<Rightarrow> unit res \<times> BaseOplog \<times> log_store" where
  "Oplog_Save E env D isLocked o1 = oplog_lock env isLocked (log_ID o1) (Save_body E D) o1"

definition ForceSave ::
  "op_env \<Rightarrow> lock_env \<Rightarrow> oplog_db \<Rightarrow> bool \<Rightarrow> BaseOplog \<Rightarrow> log_store \<Rightarrow> unit res \<times> BaseOplog \<times> log_store" where
  "ForceSave E env D isLocked o1 s = Oplog_Save E env D isLocked o1 s"

definition Oplog_GetKey ::
  "op_env \<Rightarrow> lock_env \<Rightarrow> oplog_db \<Rightarrow> PttID \<Rightarrow> bool \<Rightarrow> BaseOplog \<Rightarrow> log_store \<Rightarrow> bytes res \<times> BaseOplog \<times> log_store" where
  "Oplog_GetKey E env D theID isLocked =
     oplog_rlock env isLocked theID (\<lambda>o1 s.
       let o2 = o1\<lparr>log_ID := theID\<rparr>
       in (res_bind (Oplog_IdxKey D o2) (\<lambda>idxKey. fst (GetKeyByIdxKey (oe_ix E) idxKey 0 (bt_db (ls_batch s)))), o2, s))"

definition Oplog_Load :: "op_env \<Rightarrow> bytes \<Rightarrow> BaseOplog \<Rightarrow> log_store \<Rightarrow> unit res \<times> BaseOplog \<times> log_store" where
  "Oplog_Load E key o1 s =
     (case Batch_DBGet key (ls_batch s) of
        Fail e \<Rightarrow> (Fail e, o1, s)
      | Panic \<Rightarrow> (Panic, o1, s)
      | Ret marshaled \<Rightarrow>
          (case oe_dec E marshaled o1 of None \<Rightarrow> (Fail JsonError, o1, s) | Some o2 \<Rightarrow> (Ret (), o2, s)))"

definition Oplog_Get ::
  "op_env \<Rightarrow> lock_env \<Rightarrow> oplog_db \<Rightarrow> PttID \<Rightarrow> bool \<Rightarrow> BaseOplog \<Rightarrow> log_store \<Rightarrow> unit res \<times> BaseOplog \<times> log_store" where
  "Oplog_Get E env D theID isLocked =
     oplog_rlock env isLocked theID (\<lambda>o1 s.
       case Oplog_GetKey E env D theID True o1 s of
         (Ret key, o2, s2) \<Rightarrow> Oplog_Load E key o2 s2
       | (Fail e, o2, s2) \<Rightarrow> (Fail e, o2, s2)
       | (Panic, o2, s2) \<Rightarrow> (Panic, o2, s2))"

definition Oplog_Delete ::
  "op_env \<Rightarrow> lock_env \<Rightarrow> oplog_db \<Rightarrow> bool \<Rightarrow> BaseOplog \<Rightarrow> log_store \<Rightarrow> unit res \<times> BaseOplog \<times> log_store" where
  "Oplog_Delete E env D isLocked o0 =
     oplog_lock env isLocked (log_ID o0) (\<lambda>o1 s.
       case Oplog_IdxKey D o1 of
         Ret idxKey \<Rightarrow>
           (case DeleteAll (oe_ix E) idxKey (ls_batch s) of
              (Some e, b) \<Rightarrow> (Fail e, o1, s\<lparr>ls_batch := b\<rparr>)
            | (None, b) \<Rightarrow> (Ret (), o1, s\<lparr>ls_batch := b\<rparr>))
       | Fail e \<Rightarrow> (Fail e, o1, s)
       | Panic \<Rightarrow> (Panic, o1, s)) o0"

definition CheckAlreadyExists :: "op_env \<Rightarrow> oplog_db \<Rightarrow> BaseOplog \<Rightarrow> log_store \<Rightarrow> unit res" where
  "CheckAlreadyExists E D o1 s =
     res_bind (Oplog_IdxKey D o1) (\<lambda>idxKey.
       case Batch_DBGet idxKey (ls_batch s) of
         Fail e \<Rightarrow> (if e = LdbErrNotFound then Ret () else Fail e)
       | Panic \<Rightarrow> Panic
       | Ret val \<Rightarrow>
           (case ix_dec (oe_ix E) val of
              None \<Rightarrow> Fail JsonError
            | Some idx \<Rightarrow>
                if IsLessEqual (log_UpdateTS o1) (Index_UpdateTS idx) then Fail (ServiceError S_ErrOplogAlreadyExists)
                else Ret ()))"

text \<open>The fields an entry takes over from the stored one when the stored one wins.\<close>

definition take_over :: "BaseOplog \<Rightarrow> BaseOplog \<Rightarrow> BaseOplog" where
  "take_over orig o1 =
     o1\<lparr>log_UpdateTS := log_UpdateTS orig, log_Hash := log_Hash orig, log_MasterLogID := log_MasterLogID orig,
        log_MasterSigns := log_MasterSigns orig, log_InternalSigns := log_InternalSigns orig\<rparr>"

text \<open>
  \<^verbatim>\<open>SelectExisting\<close> returns two flags and an error together: \<open>Ret (origIsSync, isToBroadcast, err)\<close>.
\<close>

type_synonym flags = "bool \<times> bool \<times> go_error option"

definition force_save_flags ::
  "op_env \<Rightarrow> lock_env \<Rightarrow> oplog_db \<Rightarrow> bool \<Rightarrow> BaseOplog \<Rightarrow> log_store \<Rightarrow> flags res \<times> BaseOplog \<times> log_store" where
  "force_save_flags E env D origIsSync o1 s =
     (case ForceSave E env D True o1 s of
        (Ret _, o2, s2) \<Rightarrow> (Ret (origIsSync, True, None), o2, s2)
      | (Fail e, o2, s2) \<Rightarrow> (Ret (origIsSync, True, Some e), o2, s2)
      | (Panic, o2, s2) \<Rightarrow> (Panic, o2, s2))"

definition select_valid ::
  "op_env \<Rightarrow> lock_env \<Rightarrow> oplog_db \<Rightarrow> BaseOplog \<Rightarrow> BaseOplog \<Rightarrow> log_store \<Rightarrow> flags res \<times> BaseOplog \<times> log_store" where
  "select_valid E env D orig o1 s =
     (if IsLess (log_UpdateTS o1) (log_UpdateTS orig) then force_save_flags E env D (log_IsSync orig) o1 s
      else if IsLess (log_UpdateTS orig) (log_UpdateTS o1)
      then (Ret (log_IsSync orig, False, None), take_over orig o1, s)
      else if log_Hash o1 < log_Hash orig then force_save_flags E env D (log_IsSync orig) o1 s
      else (Ret (log_IsSync orig, False, None), take_over orig o1, s))"

definition select_found ::
  "op_env \<Rightarrow> lock_env \<Rightarrow> oplog_db \<Rightarrow> BaseOplog \<Rightarrow> BaseOplog \<Rightarrow> log_store \<Rightarrow> flags res \<times> BaseOplog \<times> log_store" where
  "select_found E env D orig o1 s =
     (if log_Hash o1 = log_Hash orig then (Ret (log_IsSync orig, False, None), o1, s)
      else if log_MasterLogID o1 = None
      then (Ret (log_IsSync orig, False, Some (ServiceError S_ErrInvalidOplog)), o1, s)
      else if log_MasterLogID orig = None then
        (case ForceSave E env D True o1 s of
           (Panic, o2, s2) \<Rightarrow> (Panic, o2, s2)
         | (_, o2, s2) \<Rightarrow> (Ret (log_IsSync orig, True, None), o2, s2))
      else select_valid E env D orig o1 s)"

definition SelectExisting ::
  "op_env \<Rightarrow> lock_env \<Rightarrow> oplog_db \<Rightarrow> bool \<Rightarrow> BaseOplog \<Rightarrow> log_store \<Rightarrow> flags res \<times> BaseOplog \<times> log_store" where
  "SelectExisting E env D isLocked o0 =
     oplog_lock env isLocked (log_ID o0) (\<lambda>o1 s.
       case Oplog_Get E env D (log_ID o1) True zero_oplog s of
         (Panic, _, s1) \<Rightarrow> (Panic, o1, s1)
       | (Fail e, _, s1) \<Rightarrow>
           (Ret (False, e = LdbErrNotFound, if e = LdbErrNotFound then None else Some e), o1, s1)
       | (Ret _, orig, s1) \<Rightarrow>
           (let oplogIsSync = (if Oplog_ToStatus o1 \<le> Oplog_ToStatus orig \<and> log_IsSync orig then log_IsSync orig
                               else log_IsSync o1);
                o2 = o1\<lparr>log_IsNewer := False, log_Extra := log_Extra orig,
                        log_IsSync := (if log_IsSync orig then log_IsSync orig else oplogIsSync)\<rparr>
            in case select_found E env D orig o2 s1 of
                 (r, o3, s2) \<Rightarrow> (r, o3\<lparr>log_IsSync := oplogIsSync, log_IsNewer := log_IsNewer o1\<rparr>, s2))) o0"

definition integrate_pending ::
  "op_env \<Rightarrow> lock_env \<Rightarrow> oplog_db \<Rightarrow> Timestamp res \<Rightarrow> BaseOplog \<Rightarrow> BaseOplog \<Rightarrow> log_store \<Rightarrow>
   flags res \<times> BaseOplog \<times> log_store" where
  "integrate_pending E env D getTS orig o1 s =
     (case integrateSignInfos (log_MasterSigns o1) (log_MasterSigns orig) of
        (newMasterSigns, isAllMasters, isAllOrigMasters) \<Rightarrow>
          (case integrateSignInfos (log_InternalSigns o1) (log_InternalSigns orig) of
             (newInternalSigns, isAllInternals, isAllOrigInternals) \<Rightarrow>
               (let o2 = o1\<lparr>log_MasterSigns := newMasterSigns, log_InternalSigns := newInternalSigns\<rparr>
                in if isAllOrigMasters \<and> isAllOrigInternals then
                     (Ret (log_IsSync orig, False, None), o2\<lparr>log_UpdateTS := log_UpdateTS orig, log_Hash := log_Hash orig\<rparr>, s)
                   else if isAllMasters \<and> isAllInternals then
                     (case ForceSave E env D True o2 s of
                        (Ret _, o3, s2) \<Rightarrow> (Ret (log_IsSync orig, False, None), o3, s2)
                      | (Fail e, o3, s2) \<Rightarrow> (Ret (log_IsSync orig, False, Some e), o3, s2)
                      | (Panic, o3, s2) \<Rightarrow> (Panic, o3, s2))
                   else
                     (let o3 = set_hash E o2
                      in case getTS of
                           Ret ts \<Rightarrow> (Ret (log_IsSync orig, True, None), o3\<lparr>log_UpdateTS := ts\<rparr>, s)
                         | Fail e \<Rightarrow> (Ret (False, False, Some e), o3\<lparr>log_UpdateTS := ZeroTimestamp\<rparr>, s)
                         | Panic \<Rightarrow> (Panic, o3, s)))))"

definition IntegrateExisting ::
  "op_env \<Rightarrow> lock_env \<Rightarrow> oplog_db \<Rightarrow> Timestamp res \<Rightarrow> bool \<Rightarrow> BaseOplog \<Rightarrow> log_store \<Rightarrow>
   flags res \<times> BaseOplog \<times> log_store" where
  "IntegrateExisting E env D getTS isLocked o0 =
     oplog_lock env isLocked (log_ID o0) (\<lambda>o1 s.
       case Oplog_Get E env D (log_ID o1) True zero_oplog s of
         (Panic, _, s1) \<Rightarrow> (Panic, o1, s1)
       | (Fail e, _, s1) \<Rightarrow> (Ret (False, False, if e = LdbErrNotFound then None else Some e), o1, s1)
       | (Ret _, orig, s1) \<Rightarrow>
           (let o2 = o1\<lparr>log_IsNewer := False, log_Extra := log_Extra orig,
                        log_IsSync := (if Oplog_ToStatus o1 \<le> Oplog_ToStatus orig then log_IsSync orig else log_IsSync o1)\<rparr>;
                (r, o3, s2) =
                  (if log_Hash o2 = log_Hash orig then (Ret (log_IsSync orig, False, None), o2, s1)
                   else if log_MasterLogID o2 \<noteq> None then
                     (case SelectExisting E env D True o2 s1 of
                        (Ret (_, _, err), o3, s2) \<Rightarrow> (Ret (log_IsSync orig, False, err), o3, s2)
                      | (Fail e, o3, s2) \<Rightarrow> (Fail e, o3, s2)
                      | (Panic, o3, s2) \<Rightarrow> (Panic, o3, s2))
                   else if log_MasterLogID orig \<noteq> None then
                     (Ret (log_IsSync orig, False, None), take_over orig o2, s1)
                   else integrate_pending E env D getTS orig o2 s1)
            in (r, o3\<lparr>log_IsNewer := log_IsNewer o1\<rparr>, s2))) o0"

subsection \<open>Lists of entries\<close>

definition service_DBPrefix :: "bytes \<Rightarrow> PttID \<Rightarrow> bytes res" where
  "service_DBPrefix prefix theID = Concat [Some prefix, Some theID]"

definition getOplogIterCore ::
  "op_env \<Rightarrow> lock_env \<Rightarrow> bytes \<Rightarrow> bytes \<Rightarrow> bytes option \<Rightarrow> PttID \<Rightarrow> PttID option \<Rightarrow> bool \<Rightarrow> Status \<Rightarrow> ListOrder \<Rightarrow>
   log_store \<Rightarrow> Iterator res \<times> log_store" where
  "getOplogIterCore E env oplogPrefix idxPrefix merklePrefix prefixID logID isLocked status listOrder =
     res_then
       (if status = StatusInternalPending then dbPrefixToDBPrefixInternal oplogPrefix
        else if status = StatusPending then dbPrefixToDBPrefixMaster oplogPrefix
        else Ret oplogPrefix) (\<lambda>oplogPrefix' s.
       res_then (service_DBPrefix oplogPrefix' prefixID) (\<lambda>prefix s.
         case logID of
           None \<Rightarrow> (NewIteratorWithPrefix [] prefix listOrder (bt_db (ls_batch s)), s)
         | Some theID \<Rightarrow>
             res_then (Oplog_SetDB prefixID oplogPrefix' idxPrefix merklePrefix) (\<lambda>D s.
               case Oplog_GetKey E env D theID isLocked zero_oplog s of
                 (Ret startKey, _, s2) \<Rightarrow> (NewIteratorWithPrefix startKey prefix listOrder (bt_db (ls_batch s2)), s2)
               | (Fail e, _, s2) \<Rightarrow> (Fail e, s2)
               | (Panic, _, s2) \<Rightarrow> (Panic, s2)) s) s)"

definition GetOplogIterWithOplog ::
  "op_env \<Rightarrow> lock_env \<Rightarrow> oplog_db \<Rightarrow> PttID option \<Rightarrow> ListOrder \<Rightarrow> Status \<Rightarrow> bool \<Rightarrow> log_store \<Rightarrow> Iterator res \<times> log_store" where
  "GetOplogIterWithOplog E env D startID listOrder status isLocked =
     getOplogIterCore E env (dbPrefix D) (dbIdxPrefix D) (dbMerklePrefix D) (dbPrefixID D) startID isLocked status listOrder"

text \<open>The loop of \<^verbatim>\<open>GetOplogList\<close> over the values the iterator visits; entries that do not decode are skipped.\<close>

fun oplog_list_loop :: "op_env \<Rightarrow> int \<Rightarrow> int \<Rightarrow> kv_list \<Rightarrow> BaseOplog list" where
  "oplog_list_loop E limit i [] = []"
| "oplog_list_loop E limit i ((k, v) # kvs) =
     (if 0 < limit \<and> limit \<le> i then []
      else case oe_dec E v zero_oplog of
             None \<Rightarrow> oplog_list_loop E limit i kvs
           | Some o1 \<Rightarrow> o1 # oplog_list_loop E limit (i + 1) kvs)"

definition GetOplogList ::
  "op_env \<Rightarrow> lock_env \<Rightarrow> oplog_db \<Rightarrow> PttID option \<Rightarrow> int \<Rightarrow> ListOrder \<Rightarrow> Status \<Rightarrow> bool \<Rightarrow> log_store \<Rightarrow>
   BaseOplog list res \<times> log_store" where
  "GetOplogList E env D startID limit listOrder status isLocked s =
     (case GetOplogIterWithOplog E env D startID listOrder status isLocked s of
        (Ret iter, s2) \<Rightarrow>
          (case GetFuncIter listOrder of
             None \<Rightarrow> (Panic, s2)
           | Some _ \<Rightarrow> (Ret (oplog_list_loop E limit 0 (visited listOrder iter)), s2))
      | (Fail e, s2) \<Rightarrow> (Fail e, s2)
      | (Panic, s2) \<Rightarrow> (Panic, s2))"

fun getOplogsFromKeys :: "op_env \<Rightarrow> bytes list \<Rightarrow> log_store \<Rightarrow> BaseOplog list res" where
  "getOplogsFromKeys E [] s = Ret []"
| "getOplogsFromKeys E (key # keys) s =
     (case Oplog_Load E key zero_oplog s of
        (Ret _, o1, _) \<Rightarrow> res_bind (getOplogsFromKeys E keys s) (\<lambda>os. Ret (o1 # os))
      | (Fail _, _, _) \<Rightarrow> getOplogsFromKeys E keys s
      | (Panic, _, _) \<Rightarrow> Panic)"

definition key_set :: "bytes list \<Rightarrow> bytes \<Rightarrow> bool" where
  "key_set keys = fold (\<lambda>key keyMap. keyMap(key := True)) keys (\<lambda>_. False)"

definition DiffOplogKeys :: "bytes list \<Rightarrow> bytes list \<Rightarrow> (bytes list \<times> bytes list) res" where
  "DiffOplogKeys myKeys theirKeys =
     (let keyMap = key_set theirKeys;
          myExtraKeys = filter (\<lambda>key. \<not> keyMap key) myKeys;
          keyMap2 = key_set myKeys;
          theirExtraKeys = filter (\<lambda>key. \<not> keyMap2 key) theirKeys
      in Ret (myExtraKeys, theirExtraKeys))"

definition ConcatLog :: "BaseOplog list option list \<Rightarrow> BaseOplog list res" where
  "ConcatLog slices = Ret (concat (somes slices))"

subsection \<open>A database at rest\<close>

text \<open>No fault is pending and no key is locked, as between two operations of a healthy node.\<close>

definition quiet :: "LDBBatch \<Rightarrow> bool" where
  "quiet b \<longleftrightarrow> no_fault (bt_db b) \<and> ldb_locks (bt_db b) = Map.empty"

abbreviation bview :: "LDBBatch \<Rightarrow> bytes \<rightharpoonup> bytes" where
  "bview b \<equiv> ldb_view (bt_db b)"

lemma Ldb_Get_quiet: "quiet b \<Longrightarrow> Ldb_Get k (bt_db b) = (case bview b k of None \<Rightarrow> Fail LdbErrNotFound | Some v \<Rightarrow> Ret v)"
  by (simp add: quiet_def no_fault_def Ldb_Get_def ldb_view_def)

definition rec_keys :: "index_codec \<Rightarrow> bytes \<Rightarrow> LDBBatch \<Rightarrow> bytes option list" where
  "rec_keys C idxKey b =
     (case bview b idxKey of
        None \<Rightarrow> []
      | Some v \<Rightarrow> (case ix_dec C v of None \<Rightarrow> [] | Some d \<Rightarrow> index_keys d))"

definition index_readable :: "index_codec \<Rightarrow> bytes \<Rightarrow> LDBBatch \<Rightarrow> bool" where
  "index_readable C idxKey b \<longleftrightarrow> (\<forall>v. bview b idxKey = Some v \<longrightarrow> ix_dec C v \<noteq> None)"

lemma GetKeyByIdxKey_quiet:
  assumes "quiet b"
  shows "GetKeyByIdxKey C idxKey i (bt_db b) =
    (case bview b idxKey of
       None \<Rightarrow> Fail LdbErrNotFound
     | Some v \<Rightarrow> (case ix_dec C v of None \<Rightarrow> Fail (DbError D_ErrInvalidDBable) | Some d \<Rightarrow> nth_key i d), bt_db b)"
  using assms unfolding GetKeyByIdxKey_def with_rlock_eq
  by (simp add: quiet_def read_index_def Ldb_Get_def no_fault_def ldb_view_def split: option.split)

lemma DeleteAll_quiet:
  assumes "quiet b" "index_readable C idxKey b"
  shows "\<exists>b'. DeleteAll C idxKey b = (None, b') \<and> quiet b' \<and>
    bview b' = (\<lambda>k. if k = idxKey \<or> k \<in> key_bytes ` set (rec_keys C idxKey b) then None else bview b k)"
proof -
  let ?body = "\<lambda>b. case Ldb_Get idxKey (bt_db b) of
         Fail e \<Rightarrow> (if e = LdbErrNotFound then None else Some e, b)
       | Panic \<Rightarrow> (None, b)
       | Ret v \<Rightarrow>
           (case ix_dec C v of
              None \<Rightarrow> (Some (DbError D_ErrInvalidDBable), b)
            | Some d \<Rightarrow> Batch_DBDelete idxKey (delete_keys (index_keys d) b))"
  obtain r b2 where run: "?body (lock_batch idxKey b) = (r, b2)" by fastforce
  have free: "ldb_locks (bt_db b) idxKey = None" using assms(1) by (simp add: quiet_def)
  have nf: "no_fault (bt_db (lock_batch idxKey b))" using assms(1) by (simp add: quiet_def)
  have l: "ldb_locks (bt_db b2) = (ldb_locks (bt_db b))(idxKey \<mapsto> -1)"
    using run by (auto simp: Batch_DBDelete_def split: res.splits option.splits prod.splits
        dest!: arg_cong [where f = "\<lambda>x. ldb_locks (snd x)"])
  show ?thesis
    unfolding DeleteAll_def batch_lock_run [where body = ?body, OF free run l]
    using run assms nf
    by (auto simp: Ldb_Get_def no_fault_def ldb_view_def Batch_DBDelete_def Ldb_Delete_def quiet_def rec_keys_def
        index_readable_def delete_keys_view [OF nf] split: option.splits)
qed

lemma ForcePutAll_quiet:
  assumes "quiet b" "index_readable C idxKey b" "ix_enc C idx = Inr m"
  shows "\<exists>b'. ForcePutAll C idxKey idx kvs b = ((rec_keys C idxKey b, None), b') \<and> quiet b' \<and>
    bview b' = (\<lambda>k. if k = idxKey \<or> k \<in> key_bytes ` set (rec_keys C idxKey b) then None else bview b k)
      (idxKey \<mapsto> m) ++ map_of (rev kvs)"
proof -
  let ?body = "with_stored_index C idxKey (\<lambda>e. ([], Some e)) (put_new C idxKey idx kvs [])
    (\<lambda>d. put_over C idxKey idx kvs True [] (index_keys d) d)"
  let ?b = "lock_batch idxKey b"
  let ?b1 = "delete_keys (rec_keys C idxKey b) ?b"
  let ?w = "?b1\<lparr>bt_db := (bt_db ?b1)\<lparr>ldb_kvs := put_kvs kvs (kv_put idxKey m (ldb_kvs (bt_db ?b1)))\<rparr>, bt_ops := [], bt_size := 0\<rparr>"
  have free: "ldb_locks (bt_db b) idxKey = None" and nf: "no_fault (bt_db ?b)"
    using assms(1) by (simp_all add: quiet_def)
  have put: "PutAllWithKeyIndex C idxKey idx kvs ?b1 = (None, ?w)"
    using assms(1) by (intro PutAllWithKeyIndex_ok assms(3)) (simp add: quiet_def no_fault_def)
  have run: "?body ?b = ((rec_keys C idxKey b, None), ?w)"
  proof (cases "bview b idxKey")
    case None
    then have "rec_keys C idxKey b = []" by (simp add: rec_keys_def)
    with put None assms(1) show ?thesis
      by (simp add: with_stored_index_def Ldb_Has_def quiet_def no_fault_def ldb_view_def put_new_def delete_keys_def)
  next
    case (Some v)
    with assms(2) obtain d where d: "ix_dec C v = Some d" by (auto simp: index_readable_def)
    with Some have "rec_keys C idxKey b = index_keys d" by (simp add: rec_keys_def)
    with put Some d assms(1) show ?thesis
      by (simp add: with_stored_index_def Ldb_Has_def Ldb_Get_def quiet_def no_fault_def ldb_view_def put_over_def Let_def)
  qed
  have l: "ldb_locks (bt_db ?w) = (ldb_locks (bt_db b))(idxKey \<mapsto> -1)" by simp
  show ?thesis
    unfolding ForcePutAll_def batch_lock_run [where body = ?body, OF free run l]
    using assms(1) by (auto simp: quiet_def no_fault_def ldb_view_def map_of_put_kvs delete_keys_view [OF nf] fun_eq_iff map_add_def
        split: option.split)
qed

subsection \<open>The log as a finite map\<close>

definition idx_key :: "oplog_db \<Rightarrow> PttID \<Rightarrow> bytes" where
  "idx_key D theID = dbIdxPrefix D @ dbPrefixID D @ theID"

definition log_key :: "oplog_db \<Rightarrow> BaseOplog \<Rightarrow> bytes" where
  "log_key D o1 =
     (if log_MasterLogID o1 \<noteq> None then dbPrefix D
      else if Oplog_ToStatus o1 = StatusInternalPending then dbPrefixInternal D
      else dbPrefixMaster D) @
     dbPrefixID D @ Timestamp_Marshal (log_UpdateTS o1) @ log_ID o1 @ PutUint32 (log_Op o1)"

text \<open>What the log stores: the entry that the first key of the index leads to.\<close>

definition log_map :: "op_env \<Rightarrow> oplog_db \<Rightarrow> log_store \<Rightarrow> PttID \<rightharpoonup> BaseOplog" where
  "log_map E D s theID =
     (if length theID \<noteq> SizePttID then None
      else case rec_keys (oe_ix E) (idx_key D theID) (ls_batch s) of
             Some k # _ \<Rightarrow>
               (case bview (ls_batch s) k of
                  None \<Rightarrow> None
                | Some m \<Rightarrow> oe_dec E m (zero_oplog\<lparr>log_ID := theID\<rparr>))
           | _ \<Rightarrow> None)"

text \<open>The prefixes of \<^verbatim>\<open>SetDB\<close>, for an entry prefix that is not itself one of a pending log.\<close>

definition log_db_ok :: "oplog_db \<Rightarrow> bool" where
  "log_db_ok D \<longleftrightarrow>
     length (dbPrefixID D) = SizePttID \<and> length (dbIdxPrefix D) = 5 \<and>
     length (dbPrefix D) = 5 \<and> dbPrefix D ! 4 \<noteq> 105 \<and> dbPrefix D ! 4 \<noteq> 109 \<and>
     length (dbPrefixInternal D) = 5 \<and> dbPrefixInternal D ! 4 = 105 \<and>
     length (dbPrefixMaster D) = 5 \<and> dbPrefixMaster D ! 4 = 109 \<and>
     (\<forall>p. dbMerklePrefix D = Some p \<longrightarrow> length p = 5)"

definition owned :: "PttID \<Rightarrow> bytes \<Rightarrow> bool" where
  "owned theID k \<longleftrightarrow> length k = 101 \<and> slice 57 97 k = theID \<or> length k = 102 \<and> slice 58 98 k = theID"

text \<open>An index entry of identifier \<open>theID\<close> leads to an entry of that identifier whose key tells its status and time.\<close>

definition record_ok :: "op_env \<Rightarrow> LDBBatch \<Rightarrow> PttID \<Rightarrow> bytes \<Rightarrow> bool" where
  "record_ok E b theID v \<longleftrightarrow>
     (\<exists>d k ks m o1. ix_dec (oe_ix E) v = Some d \<and> Index_Keys d = Some (Some k # ks) \<and>
        owned theID k \<and> (\<forall>x \<in> set ks. owned theID (key_bytes x)) \<and>
        bview b k = Some m \<and> oe_dec E m (zero_oplog\<lparr>log_ID := theID\<rparr>) = Some o1 \<and> log_ID o1 = theID \<and>
        bytesToStatus k = Ret (Oplog_ToStatus o1) \<and> keyToUpdateTS k = Ret (log_UpdateTS o1))"

definition store_ok :: "op_env \<Rightarrow> oplog_db \<Rightarrow> log_store \<Rightarrow> bool" where
  "store_ok E D s \<longleftrightarrow>
     quiet (ls_batch s) \<and>
     (\<forall>theID v. length theID = SizePttID \<longrightarrow> bview (ls_batch s) (idx_key D theID) = Some v \<longrightarrow>
        record_ok E (ls_batch s) theID v) \<and>
     (\<forall>m. ls_merkle s = Some m \<longrightarrow> length (mk_toUpdatePrefixWithID m) = 45)"

lemma store_empty_ok:
  "quiet b \<Longrightarrow> (\<And>theID. bview b (idx_key D theID) = None) \<Longrightarrow> store_ok E D \<lparr>ls_batch = b, ls_lock = l, ls_merkle = None\<rparr>"
  by (simp add: store_ok_def)

lemma Concat_keys [simp]:
  "Oplog_IdxKey D o1 = Ret (idx_key D (log_ID o1))"
  by (simp add: Oplog_IdxKey_def idx_key_def Concat_eq)

lemma idx_key_inj [simp]: "idx_key D a = idx_key D b \<longleftrightarrow> a = b"
  by (simp add: idx_key_def)

lemma length_idx_key: "log_db_ok D \<Longrightarrow> length theID = SizePttID \<Longrightarrow> length (idx_key D theID) = 85"
  by (simp add: idx_key_def log_db_ok_def SizePttID_def AddressLength_def)

lemma owned_length: "owned theID k \<Longrightarrow> length k = 101 \<or> length k = 102"
  by (auto simp: owned_def)

lemma owned_unique: "owned a k \<Longrightarrow> owned b k \<Longrightarrow> a = b"
  by (auto simp: owned_def)

lemma key_bytes_Some [simp]: "key_bytes (Some k) = k"
  by (simp add: key_bytes_def)

text \<open>The state of one identifier in a consistent store.\<close>

lemma stored_cases:
  assumes "store_ok E D s" "length theID = SizePttID"
  shows "(bview (ls_batch s) (idx_key D theID) = None \<and> log_map E D s theID = None) \<or>
    (\<exists>v d k ks m o1. bview (ls_batch s) (idx_key D theID) = Some v \<and> ix_dec (oe_ix E) v = Some d \<and>
       Index_Keys d = Some (Some k # ks) \<and> (\<forall>x \<in> set (Some k # ks). owned theID (key_bytes x)) \<and>
       bview (ls_batch s) k = Some m \<and> oe_dec E m (zero_oplog\<lparr>log_ID := theID\<rparr>) = Some o1 \<and>
       log_map E D s theID = Some o1 \<and> log_ID o1 = theID \<and>
       bytesToStatus k = Ret (Oplog_ToStatus o1) \<and> keyToUpdateTS k = Ret (log_UpdateTS o1))"
proof (cases "bview (ls_batch s) (idx_key D theID)")
  case None
  then show ?thesis by (simp add: log_map_def rec_keys_def)
next
  case (Some v)
  with assms have "record_ok E (ls_batch s) theID v" by (simp add: store_ok_def)
  then obtain d k ks m o1 where r: "ix_dec (oe_ix E) v = Some d" "Index_Keys d = Some (Some k # ks)"
    "owned theID k" "\<forall>x \<in> set ks. owned theID (key_bytes x)" "bview (ls_batch s) k = Some m"
    "oe_dec E m (zero_oplog\<lparr>log_ID := theID\<rparr>) = Some o1" "log_ID o1 = theID"
    "bytesToStatus k = Ret (Oplog_ToStatus o1)" "keyToUpdateTS k = Ret (log_UpdateTS o1)"
    unfolding record_ok_def by blast
  then have "log_map E D s theID = Some o1"
    using Some assms(2) by (simp add: log_map_def rec_keys_def index_keys_def)
  with Some r show ?thesis by auto
qed

lemma rec_keys_owned:
  assumes "store_ok E D s" "length theID = SizePttID" "k \<in> key_bytes ` set (rec_keys (oe_ix E) (idx_key D theID) (ls_batch s))"
  shows "owned theID k"
  using stored_cases [OF assms(1,2)] assms(3) by (auto simp: rec_keys_def index_keys_def)

lemma store_readable:
  assumes "store_ok E D s" "length theID = SizePttID"
  shows "index_readable (oe_ix E) (idx_key D theID) (ls_batch s)"
  using stored_cases [OF assms] by (auto simp: index_readable_def)

lemma store_quiet: "store_ok E D s \<Longrightarrow> quiet (ls_batch s)"
  by (simp add: store_ok_def)

text \<open>The invariant and the map depend on the index entries and the owned keys only.\<close>

lemma store_cong:
  assumes "store_ok E D s" "log_db_ok D" "quiet (ls_batch s')"
    and "\<And>m. ls_merkle s' = Some m \<Longrightarrow> length (mk_toUpdatePrefixWithID m) = 45"
    and same: "\<And>k. length k \<noteq> 53 \<Longrightarrow> bview (ls_batch s') k = bview (ls_batch s) k"
  shows "store_ok E D s' \<and> log_map E D s' = log_map E D s"
proof -
  have i: "length theID = SizePttID \<Longrightarrow> bview (ls_batch s') (idx_key D theID) = bview (ls_batch s) (idx_key D theID)" for theID
    using length_idx_key [OF assms(2)] by (intro same) simp
  have o: "owned theID k \<Longrightarrow> bview (ls_batch s') k = bview (ls_batch s) k" for theID k
    by (intro same) (auto dest: owned_length)
  have r: "record_ok E (ls_batch s) theID v \<Longrightarrow> record_ok E (ls_batch s') theID v" for theID v
    unfolding record_ok_def using o by metis
  have "store_ok E D s'" using assms(1,3,4) i r by (simp add: store_ok_def)
  moreover have "log_map E D s' theID = log_map E D s theID" for theID
  proof (cases "length theID = SizePttID")
    case True
    from stored_cases [OF assms(1) this] i [OF True] o show ?thesis
      by (auto simp: log_map_def rec_keys_def index_keys_def)
  qed (simp add: log_map_def)
  ultimately show ?thesis by blast
qed

subsection \<open>Saving an entry\<close>

definition log_merkle_key :: "oplog_db \<Rightarrow> bytes \<Rightarrow> BaseOplog \<Rightarrow> bytes" where
  "log_merkle_key D p o1 =
     p @ dbPrefixID D @ [MerkleTreeLevelNow] @ Timestamp_Marshal (log_UpdateTS o1) @ log_ID o1 @ PutUint32 (log_Op o1)"

definition log_keys :: "oplog_db \<Rightarrow> BaseOplog \<Rightarrow> bytes list" where
  "log_keys D o1 =
     log_key D o1 #
     (case dbMerklePrefix D of
        Some p \<Rightarrow> (if log_MasterLogID o1 \<noteq> None \<and> log_IsSync o1 then [log_merkle_key D p o1] else [])
      | None \<Rightarrow> [])"

definition log_index :: "oplog_db \<Rightarrow> BaseOplog \<Rightarrow> Index" where
  "log_index D o1 = \<lparr>Index_Keys = Some (map Some (log_keys D o1)), Index_UpdateTS = log_UpdateTS o1\<rparr>"

text \<open>
  An entry that can be saved: it has a status, a hash and a representable time, and the codecs read back what they
  write for it.
\<close>

definition saveable :: "op_env \<Rightarrow> oplog_db \<Rightarrow> BaseOplog \<Rightarrow> bool" where
  "saveable E D o1 \<longleftrightarrow>
     length (log_ID o1) = SizePttID \<and> ts_ok (log_UpdateTS o1) \<and> 32 \<le> length (log_Hash o1) \<and>
     Oplog_ToStatus o1 \<noteq> StatusInvalid \<and>
     (\<exists>m. oe_enc E o1 = Inr m \<and> oe_dec E m (zero_oplog\<lparr>log_ID := log_ID o1\<rparr>) = Some o1) \<and>
     index_codec_ok (oe_ix E) (log_index D o1)"

lemma slice_parts:
  assumes "length a = i" "length x = j"
  shows "slice i (i + j) (a @ x @ r) = x"
  using assms by (simp add: slice_def)

lemma log_key_facts:
  assumes "log_db_ok D" "length (log_ID o1) = SizePttID" "ts_ok (log_UpdateTS o1)"
  shows "length (log_key D o1) = 101" "owned (log_ID o1) (log_key D o1)"
    "Oplog_ToStatus o1 \<noteq> StatusInvalid \<Longrightarrow> bytesToStatus (log_key D o1) = Ret (Oplog_ToStatus o1)"
    "keyToUpdateTS (log_key D o1) = Ret (log_UpdateTS o1)"
proof -
  obtain p where p: "log_key D o1 = p @ dbPrefixID D @ Timestamp_Marshal (log_UpdateTS o1) @ log_ID o1 @ PutUint32 (log_Op o1)"
    "length p = 5"
    using assms(1) by (auto simp: log_key_def log_db_ok_def)
  have d: "length (dbPrefixID D) = 40" "length (log_ID o1) = 40"
    using assms(1,2) by (simp_all add: log_db_ok_def id_size_defs)
  show len: "length (log_key D o1) = 101" using p d by simp
  have "slice 57 (57 + 40) ((p @ dbPrefixID D @ Timestamp_Marshal (log_UpdateTS o1)) @ log_ID o1 @ PutUint32 (log_Op o1)) = log_ID o1"
    using p(2) d by (intro slice_parts) simp_all
  then show "owned (log_ID o1) (log_key D o1)" using len p(1) by (simp add: owned_def)
  have "slice 45 (45 + 12) ((p @ dbPrefixID D) @ Timestamp_Marshal (log_UpdateTS o1) @ log_ID o1 @ PutUint32 (log_Op o1)) =
      Timestamp_Marshal (log_UpdateTS o1)"
    using p(2) d by (intro slice_parts) simp_all
  then show "keyToUpdateTS (log_key D o1) = Ret (log_UpdateTS o1)"
    using len p(1) Unmarshal_Marshal_Timestamp [OF assms(3)]
    by (simp add: keyToUpdateTS_def SizeDBKeyPrefix_def id_size_defs)
  have "log_key D o1 ! 4 = p ! 4" using p by (simp add: nth_append)
  then show "Oplog_ToStatus o1 \<noteq> StatusInvalid \<Longrightarrow> bytesToStatus (log_key D o1) = Ret (Oplog_ToStatus o1)"
    using len assms(1)
    by (auto simp: bytesToStatus_def SizeDBKeyPrefix_def log_key_def log_db_ok_def Oplog_ToStatus_def nth_append status_defs)
qed

lemma log_keys_owned:
  assumes "log_db_ok D" "saveable E D o1" "k \<in> set (log_keys D o1)"
  shows "owned (log_ID o1) k"
proof -
  have len: "length (log_ID o1) = SizePttID" and ts: "ts_ok (log_UpdateTS o1)"
    using assms(2) by (simp_all add: saveable_def)
  have m: "owned (log_ID o1) (log_merkle_key D p o1)" if "dbMerklePrefix D = Some p" for p
  proof -
    have d: "length p = 5" "length (dbPrefixID D) = 40" "length (log_ID o1) = 40"
      using assms(1) that len by (simp_all add: log_db_ok_def id_size_defs)
    then have "slice 58 (58 + 40) ((p @ dbPrefixID D @ [MerkleTreeLevelNow] @ Timestamp_Marshal (log_UpdateTS o1)) @
        log_ID o1 @ PutUint32 (log_Op o1)) = log_ID o1"
      by (intro slice_parts) simp_all
    with d show ?thesis by (simp add: owned_def log_merkle_key_def)
  qed
  show ?thesis
    using assms(3) m log_key_facts(2) [OF assms(1) len ts]
    by (auto simp: log_keys_def split: option.splits if_splits)
qed

text \<open>The record that \<^verbatim>\<open>SaveCore\<close> prepares.\<close>

definition log_record :: "oplog_db \<Rightarrow> BaseOplog \<Rightarrow> bytes \<Rightarrow> kv_list \<Rightarrow> bool" where
  "log_record D o1 marshaled kvs \<longleftrightarrow> map fst kvs = log_keys D o1 \<and> snd (hd kvs) = marshaled"

lemma HashToAddr_ok: "32 \<le> length h \<Longrightarrow> HashToAddr h = Ret (slice 12 32 h)"
  by (simp add: HashToAddr_def)

lemma MarshalMerkleKey_eq: "dbMerklePrefix D = Some p \<Longrightarrow> Oplog_MarshalMerkleKey D o1 = Ret (log_merkle_key D p o1)"
  by (simp add: Oplog_MarshalMerkleKey_def MarshalOp_def Concat_eq log_merkle_key_def)

lemma merkle_leaf_ok:
  assumes "saveable E D o1" "log_MasterLogID o1 \<noteq> None"
  shows "\<exists>leaf. merkle_leaf D (log_key D o1) o1 = Ret leaf \<and> log_record D o1 marshaled ((log_key D o1, marshaled) # leaf)"
proof (cases "dbMerklePrefix D")
  case None
  then show ?thesis by (simp add: merkle_leaf_def log_record_def log_keys_def)
next
  case (Some p)
  with assms show ?thesis
    by (simp add: merkle_leaf_def log_record_def log_keys_def saveable_def HashToAddr_ok Node_Marshal_eq
        MarshalMerkleKey_eq [OF Some])
qed

lemma orig_key_eq:
  assumes "store_ok E D s" "length theID = SizePttID"
  shows "log_map E D s theID = None \<and> orig_key E (idx_key D theID) (ls_batch s) = Ret None \<or>
    (\<exists>k o1. log_map E D s theID = Some o1 \<and> orig_key E (idx_key D theID) (ls_batch s) = Ret (Some k) \<and>
       bytesToStatus k = Ret (Oplog_ToStatus o1))"
  using stored_cases [OF assms]
  by (auto simp: orig_key_def GetKeyByIdxKey_quiet [OF store_quiet [OF assms(1)]] nth_key_def index_keys_def)

text \<open>The abstract operation: an entry replaces the stored one, except that a pending entry does not step back.\<close>

definition spec_rejects :: "BaseOplog \<Rightarrow> (PttID \<rightharpoonup> BaseOplog) \<Rightarrow> bool" where
  "spec_rejects o1 A \<longleftrightarrow>
     log_MasterLogID o1 = None \<and>
     (case A (log_ID o1) of None \<Rightarrow> False | Some orig \<Rightarrow> Oplog_ToStatus o1 < Oplog_ToStatus orig)"

definition spec_save :: "BaseOplog \<Rightarrow> (PttID \<rightharpoonup> BaseOplog) \<Rightarrow> unit res \<times> (PttID \<rightharpoonup> BaseOplog)" where
  "spec_save o1 A =
     (if spec_rejects o1 A then (Fail (ServiceError S_ErrInvalidOplog), A) else (Ret (), A(log_ID o1 \<mapsto> o1)))"

definition core_batch :: "op_env \<Rightarrow> oplog_db \<Rightarrow> BaseOplog \<Rightarrow> LDBBatch \<Rightarrow> LDBBatch \<Rightarrow> bool" where
  "core_batch E D o1 b b1 \<longleftrightarrow> b1 = b \<or> b1 = delete_all E (idx_key D (log_ID o1)) b"

text \<open>What \<^verbatim>\<open>SaveCore\<close> returns for an entry that is not rejected.\<close>

definition core_result ::
  "op_env \<Rightarrow> oplog_db \<Rightarrow> BaseOplog \<Rightarrow> bytes \<Rightarrow> LDBBatch \<Rightarrow> (bytes \<times> Index \<times> kv_list) res \<times> LDBBatch \<Rightarrow> bool" where
  "core_result E D o1 m b res \<longleftrightarrow>
     (\<exists>kvs b1. res = (Ret (idx_key D (log_ID o1), log_index D o1, kvs), b1) \<and>
        log_record D o1 m kvs \<and> core_batch E D o1 b b1)"

lemma SaveCorePending_ok:
  assumes "store_ok E D s" "saveable E D o1" "log_MasterLogID o1 = None" "oe_enc E o1 = Inr m"
  shows "if spec_rejects o1 (log_map E D s)
    then SaveCorePending E D o1 (ls_batch s) = (Fail (ServiceError S_ErrInvalidOplog), ls_batch s)
    else core_result E D o1 m (ls_batch s) (SaveCorePending E D o1 (ls_batch s))"
proof -
  have len: "length (log_ID o1) = SizePttID" using assms(2) by (simp add: saveable_def)
  have "Oplog_ToStatus o1 = StatusInternalPending \<or> Oplog_ToStatus o1 = StatusPending"
    using assms(2,3) by (auto simp: saveable_def Oplog_ToStatus_def)
  then have key: "pending_key D o1 = Ret (Some (log_key D o1))"
    using assms(3) by (auto simp: pending_key_def Oplog_MarshalKey_def MarshalOp_def Concat_eq log_key_def status_defs)
  have ks: "log_keys D o1 = [log_key D o1]" using assms(3) by (simp add: log_keys_def split: option.split)
  show ?thesis
    using orig_key_eq [OF assms(1) len] assms(3)
    by (auto simp: SaveCorePending_def key assms(4) spec_rejects_def core_result_def log_record_def log_index_def ks
        core_batch_def Let_def)
qed

lemma SaveCore_ok:
  assumes "store_ok E D s" "saveable E D o1" "oe_enc E o1 = Inr m"
  shows "if spec_rejects o1 (log_map E D s)
    then SaveCore E D o1 (ls_batch s) = (Fail (ServiceError S_ErrInvalidOplog), ls_batch s)
    else core_result E D o1 m (ls_batch s) (SaveCore E D o1 (ls_batch s))"
proof (cases "log_MasterLogID o1 = None")
  case True
  with SaveCorePending_ok [OF assms(1,2) this assms(3)] show ?thesis by (simp add: SaveCore_def)
next
  case False
  have len: "length (log_ID o1) = SizePttID" using assms(2) by (simp add: saveable_def)
  obtain leaf where leaf: "merkle_leaf D (log_key D o1) o1 = Ret leaf" "log_record D o1 m ((log_key D o1, m) # leaf)"
    using merkle_leaf_ok [OF assms(2) False] by blast
  have key: "Oplog_MarshalKey D (dbPrefix D) o1 = Ret (log_key D o1)"
    using False by (simp add: Oplog_MarshalKey_def MarshalOp_def Concat_eq log_key_def)
  have idx: "\<lparr>Index_Keys = Some (Some (log_key D o1) # map (Some \<circ> fst) leaf), Index_UpdateTS = log_UpdateTS o1\<rparr> = log_index D o1"
    using leaf(2) [unfolded log_record_def, THEN conjunct1, symmetric] by (simp add: log_index_def)
  show ?thesis
    using orig_key_eq [OF assms(1) len] False leaf idx
    by (auto simp: SaveCore_def key assms(3) spec_rejects_def core_result_def core_batch_def Let_def)
qed

text \<open>The record is written over the stored one, whether or not \<^verbatim>\<open>SaveCore\<close> removed that first.\<close>

lemma core_batch_put:
  assumes "store_ok E D s" "length (log_ID o1) = SizePttID" "log_db_ok D" "core_batch E D o1 (ls_batch s) b1"
    and "ix_enc (oe_ix E) idx = Inr m"
  defines "ik \<equiv> idx_key D (log_ID o1)"
  shows "\<exists>b'. ForcePutAll (oe_ix E) ik idx kvs b1 = ((rec_keys (oe_ix E) ik b1, None), b') \<and> quiet b' \<and>
    rec_keys (oe_ix E) ik b1 \<in> {[], rec_keys (oe_ix E) ik (ls_batch s)} \<and>
    bview b' = (\<lambda>k. if k = ik \<or> k \<in> key_bytes ` set (rec_keys (oe_ix E) ik (ls_batch s)) then None else bview (ls_batch s) k)
      (ik \<mapsto> m) ++ map_of (rev kvs)"
proof -
  let ?del = "\<lambda>k. if k = ik \<or> k \<in> key_bytes ` set (rec_keys (oe_ix E) ik (ls_batch s)) then None else bview (ls_batch s) k"
  have q: "quiet (ls_batch s)" and rd: "index_readable (oe_ix E) ik (ls_batch s)"
    using store_quiet store_readable assms(1,2) by (auto simp: ik_def)
  from assms(4) consider "b1 = ls_batch s" | "b1 = delete_all E ik (ls_batch s)"
    by (auto simp: core_batch_def ik_def)
  then show ?thesis
  proof cases
    case 1
    with ForcePutAll_quiet [OF q rd assms(5)] show ?thesis by auto
  next
    case 2
    from DeleteAll_quiet [OF q rd] 2 have d: "quiet b1" "bview b1 = ?del"
      by (auto simp: delete_all_def)
    have none: "rec_keys (oe_ix E) ik b1 = []" "index_readable (oe_ix E) ik b1"
      using d(2) by (simp_all add: rec_keys_def index_readable_def)
    have "(\<lambda>k. if k = ik \<or> k \<in> key_bytes ` set (rec_keys (oe_ix E) ik b1) then None else bview b1 k) = ?del"
      unfolding none(1) d(2) by (auto simp: fun_eq_iff)
    with ForcePutAll_quiet [OF d(1) none(2) assms(5)] none(1) show ?thesis by auto
  qed
qed

lemma log_record_lookup:
  assumes "log_db_ok D" "saveable E D o1" "log_record D o1 m kvs"
  shows "map_of (rev kvs) (log_key D o1) = Some m" "k \<notin> set (log_keys D o1) \<Longrightarrow> map_of (rev kvs) k = None"
proof -
  from assms(3) obtain leaf where k: "kvs = (log_key D o1, m) # leaf"
    by (cases kvs) (auto simp: log_record_def log_keys_def)
  have "log_key D o1 \<notin> fst ` set leaf"
  proof
    assume "log_key D o1 \<in> fst ` set leaf"
    then have "log_key D o1 \<in> set (map fst leaf)" by simp
    with assms(3) k obtain p where "dbMerklePrefix D = Some p" "log_key D o1 = log_merkle_key D p o1"
      by (auto simp: log_record_def log_keys_def split: option.splits if_splits)
    moreover have "length (log_key D o1) = 101"
      using assms(1,2) by (intro log_key_facts) (simp_all add: saveable_def)
    ultimately show False
      using assms(1,2) by (simp add: log_merkle_key_def log_db_ok_def saveable_def id_size_defs)
  qed
  then have "map_of (rev leaf) (log_key D o1) = None" by (simp add: map_of_eq_None_iff)
  with k show "map_of (rev kvs) (log_key D o1) = Some m" by (simp add: map_add_def)
  have "set (map fst kvs) = set (log_keys D o1)" using assms(3) by (simp add: log_record_def)
  then show "k \<notin> set (log_keys D o1) \<Longrightarrow> map_of (rev kvs) k = None" by (simp add: map_of_eq_None_iff)
qed

text \<open>The database after the record of an entry has replaced the stored one.\<close>

definition replaces :: "op_env \<Rightarrow> oplog_db \<Rightarrow> BaseOplog \<Rightarrow> bytes \<Rightarrow> kv_list \<Rightarrow> LDBBatch \<Rightarrow> LDBBatch \<Rightarrow> bool" where
  "replaces E D o1 mi kvs b b' \<longleftrightarrow>
     (let ik = idx_key D (log_ID o1)
      in bview b' = (\<lambda>k. if k = ik \<or> k \<in> key_bytes ` set (rec_keys (oe_ix E) ik b) then None else bview b k)(ik \<mapsto> mi) ++
           map_of (rev kvs))"

lemma replaced_views:
  assumes ok: "store_ok E D s" "log_db_ok D" "saveable E D o1" "log_record D o1 m kvs"
    and V: "replaces E D o1 mi kvs (ls_batch s) b'"
  shows "bview b' (idx_key D (log_ID o1)) = Some mi" "bview b' (log_key D o1) = Some m"
    "length theID = SizePttID \<Longrightarrow> theID \<noteq> log_ID o1 \<Longrightarrow> bview b' (idx_key D theID) = bview (ls_batch s) (idx_key D theID)"
    "owned theID k \<Longrightarrow> theID \<noteq> log_ID o1 \<Longrightarrow> bview b' k = bview (ls_batch s) k"
proof -
  note V = V [unfolded replaces_def Let_def]
  have len: "length (log_ID o1) = SizePttID" using ok(3) by (simp add: saveable_def)
  note lookup = log_record_lookup [OF ok(2-4)]
  have notidx: "idx_key D theID \<notin> set (log_keys D o1)"
    "idx_key D theID \<notin> key_bytes ` set (rec_keys (oe_ix E) (idx_key D (log_ID o1)) (ls_batch s))"
    if "length theID = SizePttID" for theID
    using that length_idx_key [OF ok(2) that] log_keys_owned [OF ok(2,3)] rec_keys_owned [OF ok(1) len]
    by (fastforce dest: owned_length)+
  show "bview b' (idx_key D (log_ID o1)) = Some mi"
    using lookup(2) [OF notidx(1) [OF len]] by (simp add: V map_add_def)
  show "bview b' (log_key D o1) = Some m" by (simp add: V map_add_def lookup(1))
  show "bview b' (idx_key D theID) = bview (ls_batch s) (idx_key D theID)"
    if "length theID = SizePttID" "theID \<noteq> log_ID o1"
    using that lookup(2) [OF notidx(1) [OF that(1)]] notidx(2) [OF that(1)] by (simp add: V map_add_def)
  show "bview b' k = bview (ls_batch s) k" if "owned theID k" "theID \<noteq> log_ID o1"
  proof -
    have "k \<notin> set (log_keys D o1)" using that log_keys_owned [OF ok(2,3)] owned_unique by blast
    moreover have "k \<notin> key_bytes ` set (rec_keys (oe_ix E) (idx_key D (log_ID o1)) (ls_batch s))"
      using that rec_keys_owned [OF ok(1) len] owned_unique by blast
    moreover have "k \<noteq> idx_key D (log_ID o1)" using owned_length [OF that(1)] length_idx_key [OF ok(2) len] by auto
    ultimately show ?thesis using lookup(2) by (simp add: V map_add_def)
  qed
qed

lemma replaced_store:
  assumes ok: "store_ok E D s" "log_db_ok D" "saveable E D o1" "log_record D o1 m kvs"
    and dec: "ix_dec (oe_ix E) mi = Some (log_index D o1)" "oe_dec E m (zero_oplog\<lparr>log_ID := log_ID o1\<rparr>) = Some o1"
    and b': "quiet (ls_batch s')" "ls_merkle s' = ls_merkle s"
    and V: "replaces E D o1 mi kvs (ls_batch s) (ls_batch s')"
  shows "store_ok E D s' \<and> log_map E D s' = (log_map E D s)(log_ID o1 \<mapsto> o1)"
proof -
  have len: "length (log_ID o1) = SizePttID" using ok(3) by (simp add: saveable_def)
  note view = replaced_views [OF ok V]
  have key: "owned (log_ID o1) (log_key D o1)" "bytesToStatus (log_key D o1) = Ret (Oplog_ToStatus o1)"
    "keyToUpdateTS (log_key D o1) = Ret (log_UpdateTS o1)"
    using ok(3) by (auto simp: saveable_def intro!: log_key_facts [OF ok(2)])
  have keys: "index_keys (log_index D o1) = Some (log_key D o1) # map Some (tl (log_keys D o1))"
    by (simp add: index_keys_def log_index_def log_keys_def)
  have own: "\<forall>x \<in> set (map Some (tl (log_keys D o1))). owned (log_ID o1) (key_bytes x)"
    using log_keys_owned [OF ok(2,3)] by (cases "log_keys D o1") auto
  have "Index_Keys (log_index D o1) = Some (Some (log_key D o1) # map Some (tl (log_keys D o1)))"
    by (simp add: log_index_def log_keys_def)
  then have self: "record_ok E (ls_batch s') (log_ID o1) mi"
    unfolding record_ok_def using dec key view(2) own by blast
  have other: "record_ok E (ls_batch s') theID v" if "record_ok E (ls_batch s) theID v" "theID \<noteq> log_ID o1" for theID v
    using that(1) view(4) [OF _ that(2)] unfolding record_ok_def by metis
  have "record_ok E (ls_batch s') theID v"
    if "length theID = SizePttID" "bview (ls_batch s') (idx_key D theID) = Some v" for theID v
    using that self other view(1,3) ok(1) by (cases "theID = log_ID o1") (auto simp: store_ok_def)
  then have "store_ok E D s'" using ok(1) b' by (simp add: store_ok_def)
  moreover have "log_map E D s' (log_ID o1) = Some o1"
    using len by (simp add: log_map_def rec_keys_def view dec keys)
  moreover have "log_map E D s' theID = log_map E D s theID" if "theID \<noteq> log_ID o1" for theID
  proof (cases "length theID = SizePttID")
    case True
    from stored_cases [OF ok(1) True] view(3) [OF True that] view(4) [OF _ that] show ?thesis
      by (auto simp: log_map_def rec_keys_def index_keys_def)
  qed (simp add: log_map_def)
  ultimately show ?thesis by (auto simp: fun_eq_iff)
qed

text \<open>Noting the hours to update in the Merkle tree does not touch the log.\<close>

lemma SetUpdateTS_frame:
  assumes "no_fault db" "ldb_locks db = Map.empty" "length (mk_toUpdatePrefixWithID m) = 45" "SetUpdateTS ts (m, db) = (m', db')"
  shows "no_fault db' \<and> ldb_locks db' = Map.empty \<and> length (mk_toUpdatePrefixWithID m') = 45 \<and>
    (\<forall>k. length k \<noteq> 53 \<longrightarrow> ldb_view db' k = ldb_view db k)"
  using assms
  by (auto simp: SetUpdateTS_def Let_def MarshalToUpdateTSKey_def Ldb_Put_def no_fault_def ldb_view_def)

lemma SetUpdateTS2_frame:
  assumes "no_fault db" "ldb_locks db = Map.empty" "length (mk_toUpdatePrefixWithID m) = 45" "SetUpdateTS2 ts ts2 (m, db) = (m', db')"
  shows "no_fault db' \<and> ldb_locks db' = Map.empty \<and> length (mk_toUpdatePrefixWithID m') = 45 \<and>
    (\<forall>k. length k \<noteq> 53 \<longrightarrow> ldb_view db' k = ldb_view db k)"
  using assms
  by (auto simp: SetUpdateTS2_def Let_def MarshalToUpdateTSKey_def Ldb_Put_def no_fault_def ldb_view_def split: if_splits)

lemma setMerkleUpdateTS_ok:
  assumes ok: "store_ok E D s" "log_db_ok D"
    and orig: "origKeys \<noteq> [] \<Longrightarrow> \<exists>ts. keyToUpdateTS (key_bytes (hd origKeys)) = Ret ts"
  shows "\<exists>s'. setMerkleUpdateTS o1 origKeys s = (Ret (), s') \<and> store_ok E D s' \<and> log_map E D s' = log_map E D s \<and>
    ls_lock s' = ls_lock s"
proof (cases "ls_merkle s = None \<or> log_MasterLogID o1 = None \<or> \<not> log_IsSync o1")
  case True
  then show ?thesis using ok(1) by (auto simp: setMerkleUpdateTS_def split: option.split)
next
  case False
  then obtain m where m: "ls_merkle s = Some m" "log_MasterLogID o1 \<noteq> None" "log_IsSync o1" by auto
  have pre: "no_fault (bt_db (ls_batch s))" "ldb_locks (bt_db (ls_batch s)) = Map.empty" "length (mk_toUpdatePrefixWithID m) = 45"
    using ok(1) m(1) by (auto simp: store_ok_def quiet_def)
  define put where "put = (\<lambda>(m', db'). s\<lparr>ls_merkle := Some m', ls_batch := (ls_batch s)\<lparr>bt_db := db'\<rparr>\<rparr>)"
  have put_ok: "store_ok E D (put (m', db')) \<and> log_map E D (put (m', db')) = log_map E D s"
    if "no_fault db' \<and> ldb_locks db' = Map.empty \<and> length (mk_toUpdatePrefixWithID m') = 45 \<and>
      (\<forall>k. length k \<noteq> 53 \<longrightarrow> ldb_view db' k = ldb_view (bt_db (ls_batch s)) k)" for m' db'
    using that by (intro store_cong [OF ok]) (auto simp: put_def quiet_def)
  show ?thesis
  proof (cases origKeys)
    case Nil
    obtain m' db' where u: "SetUpdateTS (log_UpdateTS o1) (m, bt_db (ls_batch s)) = (m', db')" by fastforce
    have "setMerkleUpdateTS o1 origKeys s = (Ret (), put (m', db'))"
      using m Nil u by (auto simp: setMerkleUpdateTS_def put_def)
    with put_ok [OF SetUpdateTS_frame [OF pre u]] show ?thesis by (simp add: put_def)
  next
    case (Cons k ks)
    then obtain ts where ts: "keyToUpdateTS (key_bytes k) = Ret ts" using orig by auto
    obtain m' db' where u: "SetUpdateTS2 (log_UpdateTS o1) ts (m, bt_db (ls_batch s)) = (m', db')" by fastforce
    have "setMerkleUpdateTS o1 origKeys s = (Ret (), put (m', db'))"
      using m Cons ts u by (auto simp: setMerkleUpdateTS_def put_def)
    with put_ok [OF SetUpdateTS2_frame [OF pre u]] show ?thesis by (simp add: put_def)
  qed
qed

lemma first_key_time:
  assumes "store_ok E D s" "length theID = SizePttID" "rec_keys (oe_ix E) (idx_key D theID) (ls_batch s) \<noteq> []"
  shows "\<exists>ts. keyToUpdateTS (key_bytes (hd (rec_keys (oe_ix E) (idx_key D theID) (ls_batch s)))) = Ret ts"
  using stored_cases [OF assms(1,2)] assms(3) by (auto simp: rec_keys_def index_keys_def)

lemma Save_body_ok:
  assumes ok: "store_ok E D s" "log_db_ok D" and o1: "o1 = o0\<lparr>log_IsNewer := False\<rparr>" "saveable E D o1"
  shows "\<exists>s'. Save_body E D o0 s = (fst (spec_save o1 (log_map E D s)), o1, s') \<and> store_ok E D s' \<and>
    log_map E D s' = snd (spec_save o1 (log_map E D s)) \<and> ls_lock s' = ls_lock s"
proof -
  obtain m where m: "oe_enc E o1 = Inr m" "oe_dec E m (zero_oplog\<lparr>log_ID := log_ID o1\<rparr>) = Some o1"
    using o1(2) by (auto simp: saveable_def)
  obtain mi where mi: "ix_enc (oe_ix E) (log_index D o1) = Inr mi" "ix_dec (oe_ix E) mi = Some (log_index D o1)"
    using o1(2) by (auto simp: saveable_def index_codec_ok_def)
  have len: "length (log_ID o1) = SizePttID" using o1(2) by (simp add: saveable_def)
  note core = SaveCore_ok [OF ok(1) o1(2) m(1)]
  show ?thesis
  proof (cases "spec_rejects o1 (log_map E D s)")
    case True
    with core ok(1) show ?thesis by (simp add: Save_body_def spec_save_def o1(1) [symmetric] Let_def)
  next
    case False
    let ?ik = "idx_key D (log_ID o1)"
    obtain kvs b1 where kb: "SaveCore E D o1 (ls_batch s) = (Ret (?ik, log_index D o1, kvs), b1)"
      "log_record D o1 m kvs" "core_batch E D o1 (ls_batch s) b1"
      using core False by (auto simp: core_result_def)
    obtain b2 where put: "ForcePutAll (oe_ix E) ?ik (log_index D o1) kvs b1 = ((rec_keys (oe_ix E) ?ik b1, None), b2)"
      "quiet b2" "rec_keys (oe_ix E) ?ik b1 \<in> {[], rec_keys (oe_ix E) ?ik (ls_batch s)}"
      "replaces E D o1 mi kvs (ls_batch s) b2"
      using core_batch_put [OF ok(1) len ok(2) kb(3) mi(1), of kvs] unfolding replaces_def Let_def by blast
    have s2: "store_ok E D (s\<lparr>ls_batch := b2\<rparr>) \<and> log_map E D (s\<lparr>ls_batch := b2\<rparr>) = (log_map E D s)(log_ID o1 \<mapsto> o1)"
      using put(2,4) by (intro replaced_store [OF ok o1(2) kb(2) mi(2) m(2)]) simp_all
    have "\<exists>ts. keyToUpdateTS (key_bytes (hd (rec_keys (oe_ix E) ?ik b1))) = Ret ts" if "rec_keys (oe_ix E) ?ik b1 \<noteq> []"
      using that put(3) first_key_time [OF ok(1) len] by auto
    from setMerkleUpdateTS_ok [OF conjunct1 [OF s2] ok(2) this, of o1] s2 show ?thesis
      using False kb(1) put(1) by (auto simp: Save_body_def spec_save_def o1(1) [symmetric] Let_def)
  qed
qed

subsection \<open>Locks around an operation\<close>

text \<open>The lock of an entry is granted: one of the attempts finds it free.\<close>

definition can_lock :: "lock_env \<Rightarrow> LockMap \<Rightarrow> PttID \<Rightarrow> bool" where
  "can_lock env l theID \<longleftrightarrow> 0 < sleepTime l \<and> (\<exists>m < NIterLock. lockMap (seen env 0 l m) theID = None)"

lemma store_lock_irrelevant [simp]:
  "store_ok E D (s\<lparr>ls_lock := l\<rparr>) = store_ok E D s" "log_map E D (s\<lparr>ls_lock := l\<rparr>) = log_map E D s"
  by (auto simp: store_ok_def log_map_def fun_eq_iff split: list.split option.split)

lemma oplog_lock_ok:
  assumes "isLocked \<or> can_lock env (ls_lock s) theID"
    and "\<And>l. \<exists>r o2 s2. body o1 (s\<lparr>ls_lock := l\<rparr>) = (r, o2, s2) \<and> P r o2 s2"
    and "\<And>r o2 s2 l. P r o2 (s2\<lparr>ls_lock := l\<rparr>) = P r o2 s2"
  shows "\<exists>r o2 s2. oplog_lock env isLocked theID body o1 s = (r, o2, s2) \<and> P r o2 s2"
proof (cases isLocked)
  case True
  with assms(2) [of "ls_lock s"] show ?thesis by (simp add: oplog_lock_def)
next
  case False
  with assms(1) have free: "0 < sleepTime (ls_lock s)" "\<exists>m < NIterLock. lockMap (seen env 0 (ls_lock s) m) theID = None"
    by (auto simp: can_lock_def)
  with try_loop_lock [of env theID 0 NIterLock "ls_lock s" None] obtain l where
    "try_loop LM_TryLock env (Some theID) 0 NIterLock (ls_lock s) None = (None, l)"
    by (metis (no_types, lifting) prod.collapse)
  then have l: "LM_Lock env (ls_lock s) (Some theID) = Ret (None, l)" using free(1) by (simp add: LM_Lock_eq)
  obtain r o2 s2 where "body o1 (s\<lparr>ls_lock := l\<rparr>) = (r, o2, s2)" "P r o2 s2" using assms(2) by blast
  with False l assms(3) show ?thesis by (simp add: oplog_lock_def)
qed

subsection \<open>Reading and deleting\<close>

lemma Oplog_Get_locked:
  assumes "store_ok E D s" "length theID = SizePttID"
  shows "Oplog_Get E env D theID True zero_oplog s =
    (case log_map E D s theID of
       None \<Rightarrow> (Fail LdbErrNotFound, zero_oplog\<lparr>log_ID := theID\<rparr>, s)
     | Some o1 \<Rightarrow> (Ret (), o1, s))"
  using stored_cases [OF assms]
  by (auto simp: Oplog_Get_def Oplog_GetKey_def oplog_rlock_def Oplog_Load_def Batch_DBGet_def Let_def
      GetKeyByIdxKey_quiet [OF store_quiet [OF assms(1)]] Ldb_Get_quiet [OF store_quiet [OF assms(1)]] nth_key_def index_keys_def
      split: option.split)

lemma deleted_store:
  assumes ok: "store_ok E D s" "log_db_ok D" "length theID = SizePttID"
    and b': "quiet (ls_batch s')" "ls_merkle s' = ls_merkle s"
    and V: "bview (ls_batch s') = (\<lambda>k. if k = idx_key D theID \<or>
        k \<in> key_bytes ` set (rec_keys (oe_ix E) (idx_key D theID) (ls_batch s)) then None else bview (ls_batch s) k)"
  shows "store_ok E D s' \<and> log_map E D s' = (log_map E D s)(theID := None)"
proof -
  have V3: "bview (ls_batch s') (idx_key D i) = bview (ls_batch s) (idx_key D i)"
    if "length i = SizePttID" "i \<noteq> theID" for i
    using that length_idx_key [OF ok(2) that(1)] rec_keys_owned [OF ok(1,3), THEN owned_length] by (fastforce simp: V)
  have V4: "bview (ls_batch s') k = bview (ls_batch s) k" if "owned i k" "i \<noteq> theID" for i k
    using that owned_length [OF that(1)] length_idx_key [OF ok(2,3)] rec_keys_owned [OF ok(1,3)] owned_unique
    by (fastforce simp: V)
  have V1: "bview (ls_batch s') (idx_key D theID) = None" by (simp add: V)
  have other: "record_ok E (ls_batch s') i v" if "record_ok E (ls_batch s) i v" "i \<noteq> theID" for i v
    using that(1) V4 [OF _ that(2)] unfolding record_ok_def by metis
  have "record_ok E (ls_batch s') i v" if "length i = SizePttID" "bview (ls_batch s') (idx_key D i) = Some v" for i v
    using that other V1 V3 ok(1) by (cases "i = theID") (auto simp: store_ok_def)
  then have "store_ok E D s'" using ok(1) b' by (simp add: store_ok_def)
  moreover have "log_map E D s' theID = None" by (simp add: log_map_def rec_keys_def V1)
  moreover have "log_map E D s' i = log_map E D s i" if "i \<noteq> theID" for i
  proof (cases "length i = SizePttID")
    case True
    from stored_cases [OF ok(1) True] V3 [OF True that] V4 [OF _ that] show ?thesis
      by (auto simp: log_map_def rec_keys_def index_keys_def)
  qed (simp add: log_map_def)
  ultimately show ?thesis by (auto simp: fun_eq_iff)
qed

lemma Oplog_Delete_ok:
  assumes "store_ok E D s" "log_db_ok D" "length (log_ID o1) = SizePttID" "isLocked \<or> can_lock env (ls_lock s) (log_ID o1)"
  shows "\<exists>s'. Oplog_Delete E env D isLocked o1 s = (Ret (), o1, s') \<and> store_ok E D s' \<and>
    log_map E D s' = (log_map E D s)(log_ID o1 := None)"
proof -
  obtain b' where d: "DeleteAll (oe_ix E) (idx_key D (log_ID o1)) (ls_batch s) = (None, b')" "quiet b'"
    "bview b' = (\<lambda>k. if k = idx_key D (log_ID o1) \<or>
        k \<in> key_bytes ` set (rec_keys (oe_ix E) (idx_key D (log_ID o1)) (ls_batch s)) then None else bview (ls_batch s) k)"
    using DeleteAll_quiet [OF store_quiet [OF assms(1)] store_readable [OF assms(1,3)]] by blast
  have "store_ok E D (s\<lparr>ls_lock := l, ls_batch := b'\<rparr>) \<and>
      log_map E D (s\<lparr>ls_lock := l, ls_batch := b'\<rparr>) = (log_map E D s)(log_ID o1 := None)" for l
    using d by (intro deleted_store [OF assms(1-3)]) simp_all
  then have "\<exists>r o2 s2. Oplog_Delete E env D isLocked o1 s = (r, o2, s2) \<and>
      (r = Ret () \<and> o2 = o1 \<and> store_ok E D s2 \<and> log_map E D s2 = (log_map E D s)(log_ID o1 := None))"
    unfolding Oplog_Delete_def using d(1) by (intro oplog_lock_ok [OF assms(4)]) simp_all
  then show ?thesis by blast
qed

lemma Oplog_Save_ok:
  assumes "store_ok E D s" "log_db_ok D" "saveable E D (o1\<lparr>log_IsNewer := False\<rparr>)"
    and "isLocked \<or> can_lock env (ls_lock s) (log_ID o1)"
  shows "\<exists>s'. Oplog_Save E env D isLocked o1 s =
      (fst (spec_save (o1\<lparr>log_IsNewer := False\<rparr>) (log_map E D s)), o1\<lparr>log_IsNewer := False\<rparr>, s') \<and> store_ok E D s' \<and>
    log_map E D s' = snd (spec_save (o1\<lparr>log_IsNewer := False\<rparr>) (log_map E D s))"
proof -
  let ?o = "o1\<lparr>log_IsNewer := False\<rparr>"
  have "\<exists>r o2 s2. Save_body E D o1 (s\<lparr>ls_lock := l\<rparr>) = (r, o2, s2) \<and>
      (r = fst (spec_save ?o (log_map E D s)) \<and> o2 = ?o \<and> store_ok E D s2 \<and>
       log_map E D s2 = snd (spec_save ?o (log_map E D s)))" for l
    using Save_body_ok [of E D "s\<lparr>ls_lock := l\<rparr>" ?o o1] assms(1-3) by auto
  then have "\<exists>r o2 s2. Oplog_Save E env D isLocked o1 s = (r, o2, s2) \<and>
      (r = fst (spec_save ?o (log_map E D s)) \<and> o2 = ?o \<and> store_ok E D s2 \<and>
       log_map E D s2 = snd (spec_save ?o (log_map E D s)))"
    unfolding Oplog_Save_def by (intro oplog_lock_ok [OF assms(4)]) simp_all
  then show ?thesis by blast
qed

subsection \<open>Choosing between two versions\<close>

text \<open>The codecs read back what they write, for every entry and index.\<close>

definition log_codec_ok :: "op_env \<Rightarrow> bool" where
  "log_codec_ok E \<longleftrightarrow>
     (\<forall>o1. \<exists>m. oe_enc E o1 = Inr m \<and> oe_dec E m (zero_oplog\<lparr>log_ID := log_ID o1\<rparr>) = Some o1) \<and>
     (\<forall>idx. index_codec_ok (oe_ix E) idx)"

definition entry_wf :: "BaseOplog \<Rightarrow> bool" where
  "entry_wf o1 \<longleftrightarrow> length (log_ID o1) = SizePttID \<and> ts_ok (log_UpdateTS o1) \<and> 32 \<le> length (log_Hash o1)"

lemma saveable_valid: "log_codec_ok E \<Longrightarrow> entry_wf o1 \<Longrightarrow> log_MasterLogID o1 \<noteq> None \<Longrightarrow> saveable E D o1"
  by (simp add: saveable_def log_codec_ok_def entry_wf_def Oplog_ToStatus_def status_defs)

text \<open>The fields that tell the versions of an entry apart.\<close>

definition version :: "BaseOplog \<Rightarrow> Timestamp \<times> bytes \<times> PttID option \<times> SignInfo list \<times> SignInfo list" where
  "version o1 = (log_UpdateTS o1, log_Hash o1, log_MasterLogID o1, log_MasterSigns o1, log_InternalSigns o1)"

lemma version_take_over [simp]: "version (take_over orig o1) = version orig"
  by (simp add: version_def take_over_def)

text \<open>A new version replaces a stored one that is pending, later, or of the same time with the larger hash.\<close>

definition supersedes :: "BaseOplog \<Rightarrow> BaseOplog \<Rightarrow> bool" where
  "supersedes o1 orig \<longleftrightarrow>
     log_Hash o1 \<noteq> log_Hash orig \<and>
     (log_MasterLogID orig = None \<or> log_UpdateTS o1 < log_UpdateTS orig \<or>
      log_UpdateTS o1 = log_UpdateTS orig \<and> log_Hash o1 < log_Hash orig)"

lemma ForceSave_valid:
  assumes "store_ok E D s" "log_db_ok D" "log_codec_ok E" "entry_wf o1" "log_MasterLogID o1 \<noteq> None"
  shows "\<exists>s'. ForceSave E env D True o1 s = (Ret (), o1\<lparr>log_IsNewer := False\<rparr>, s') \<and> store_ok E D s' \<and>
    log_map E D s' = (log_map E D s)(log_ID o1 \<mapsto> o1\<lparr>log_IsNewer := False\<rparr>) \<and> ls_lock s' = ls_lock s"
proof -
  have "saveable E D (o1\<lparr>log_IsNewer := False\<rparr>)"
    using assms(3-5) by (intro saveable_valid) (simp_all add: entry_wf_def)
  from Save_body_ok [OF assms(1,2) refl this] assms(5) show ?thesis
    by (auto simp: ForceSave_def Oplog_Save_def oplog_lock_def spec_save_def spec_rejects_def)
qed

lemma select_found_spec:
  assumes "store_ok E D s" "log_db_ok D" "log_codec_ok E" "entry_wf o1" "log_MasterLogID o1 \<noteq> None" "\<not> log_IsNewer o1"
  shows "\<exists>o2 s2. select_found E env D orig o1 s = (Ret (log_IsSync orig, supersedes o1 orig, None), o2, s2) \<and> store_ok E D s2 \<and>
    ls_lock s2 = ls_lock s \<and> log_map E D s2 = (if supersedes o1 orig then (log_map E D s)(log_ID o1 \<mapsto> o1) else log_map E D s) \<and>
    o2 = (if supersedes o1 orig \<or> log_Hash o1 = log_Hash orig then o1 else take_over orig o1)"
proof -
  have [simp]: "o1\<lparr>log_IsNewer := False\<rparr> = o1" using assms(6) by simp
  obtain s' where f: "ForceSave E env D True o1 s = (Ret (), o1, s')" "store_ok E D s'"
    "log_map E D s' = (log_map E D s)(log_ID o1 \<mapsto> o1)" "ls_lock s' = ls_lock s"
    using ForceSave_valid [OF assms(1-5), of env] by auto
  show ?thesis
  proof (cases "supersedes o1 orig")
    case True
    with f assms(5) show ?thesis
      by (auto simp: select_found_def select_valid_def force_save_flags_def supersedes_def)
  next
    case False
    with assms(1,5) show ?thesis
      by (auto simp: select_found_def select_valid_def supersedes_def)
  qed
qed

lemma SelectExisting_new:
  assumes "store_ok E D s" "length (log_ID o1) = SizePttID" "log_map E D s (log_ID o1) = None"
  shows "SelectExisting E env D True o1 s = (Ret (False, True, None), o1, s)"
  using assms by (simp add: SelectExisting_def oplog_lock_def Oplog_Get_locked)

lemma SelectExisting_found:
  assumes "store_ok E D s" "log_db_ok D" "log_codec_ok E" "entry_wf o1" "log_MasterLogID o1 \<noteq> None"
    and "log_map E D s (log_ID o1) = Some orig"
  shows "\<exists>o2 s2. SelectExisting E env D True o1 s = (Ret (log_IsSync orig, supersedes o1 orig, None), o2, s2) \<and>
    store_ok E D s2 \<and> ls_lock s2 = ls_lock s \<and> log_ID o2 = log_ID o1 \<and>
    version o2 = (if supersedes o1 orig \<or> log_Hash o1 = log_Hash orig then version o1 else version orig) \<and>
    (if supersedes o1 orig
     then (\<exists>o3. log_map E D s2 = (log_map E D s)(log_ID o1 \<mapsto> o3) \<and> version o3 = version o1)
     else log_map E D s2 = log_map E D s)"
proof -
  let ?sync = "if Oplog_ToStatus o1 \<le> Oplog_ToStatus orig \<and> log_IsSync orig then log_IsSync orig else log_IsSync o1"
  let ?o = "o1\<lparr>log_IsNewer := False, log_Extra := log_Extra orig,
    log_IsSync := (if log_IsSync orig then log_IsSync orig else ?sync)\<rparr>"
  have len: "length (log_ID o1) = SizePttID" using assms(4) by (simp add: entry_wf_def)
  have sup: "supersedes ?o orig = supersedes o1 orig" by (simp add: supersedes_def)
  have "entry_wf ?o" "log_MasterLogID ?o \<noteq> None" "\<not> log_IsNewer ?o" using assms(4,5) by (simp_all add: entry_wf_def)
  from select_found_spec [OF assms(1-3) this, of env orig, unfolded sup] obtain o2 s2 where
    f: "select_found E env D orig ?o s = (Ret (log_IsSync orig, supersedes o1 orig, None), o2, s2)" "store_ok E D s2" "ls_lock s2 = ls_lock s"
      "log_map E D s2 = (if supersedes o1 orig then (log_map E D s)(log_ID o1 \<mapsto> ?o) else log_map E D s)"
      "o2 = (if supersedes o1 orig \<or> log_Hash o1 = log_Hash orig then ?o else take_over orig ?o)"
    by auto
  have run: "SelectExisting E env D True o1 s =
      (Ret (log_IsSync orig, supersedes o1 orig, None), o2\<lparr>log_IsSync := ?sync, log_IsNewer := log_IsNewer o1\<rparr>, s2)"
    using assms(6) f(1) by (simp add: SelectExisting_def oplog_lock_def Oplog_Get_locked [OF assms(1) len] Let_def)
  have "log_ID o2 = log_ID o1" "version o2 = (if supersedes o1 orig \<or> log_Hash o1 = log_Hash orig then version o1 else version orig)"
    unfolding f(5) by (auto simp: version_def take_over_def)
  moreover have "version ?o = version o1" by (simp add: version_def)
  ultimately show ?thesis
    unfolding run using f(2-4) by (auto simp: version_def)
qed

subsection \<open>The log as an interface\<close>

text \<open>
  What the handlers rely on: saving, deleting and reading behave as on a finite map, whose pending
  entries do not step back. The lemmas hold for every sequence of commands.
\<close>

datatype log_cmd = PutLog BaseOplog | DelLog BaseOplog

fun spec_cmd :: "log_cmd \<Rightarrow> (PttID \<rightharpoonup> BaseOplog) \<Rightarrow> (PttID \<rightharpoonup> BaseOplog)" where
  "spec_cmd (PutLog o1) A = snd (spec_save (o1\<lparr>log_IsNewer := False\<rparr>) A)"
| "spec_cmd (DelLog o1) A = A(log_ID o1 := None)"

fun cmd_entry :: "log_cmd \<Rightarrow> BaseOplog" where
  "cmd_entry (PutLog o1) = o1"
| "cmd_entry (DelLog o1) = o1"

locale log_database =
  fixes ok :: "'s \<Rightarrow> bool"
    and cur :: "'s \<Rightarrow> PttID \<rightharpoonup> BaseOplog"
    and good :: "BaseOplog \<Rightarrow> bool"
    and save :: "BaseOplog \<Rightarrow> 's \<Rightarrow> unit res \<times> BaseOplog \<times> 's"
    and remove :: "BaseOplog \<Rightarrow> 's \<Rightarrow> unit res \<times> BaseOplog \<times> 's"
    and find :: "PttID \<Rightarrow> 's \<Rightarrow> unit res \<times> BaseOplog \<times> 's"
  assumes save_law: "ok s \<Longrightarrow> good o1 \<Longrightarrow> \<exists>s'. save o1 s =
      (fst (spec_save (o1\<lparr>log_IsNewer := False\<rparr>) (cur s)), o1\<lparr>log_IsNewer := False\<rparr>, s') \<and> ok s' \<and>
      cur s' = snd (spec_save (o1\<lparr>log_IsNewer := False\<rparr>) (cur s))"
    and remove_law: "ok s \<Longrightarrow> good o1 \<Longrightarrow> \<exists>s'. remove o1 s = (Ret (), o1, s') \<and> ok s' \<and> cur s' = (cur s)(log_ID o1 := None)"
    and find_law: "ok s \<Longrightarrow> length theID = SizePttID \<Longrightarrow>
      find theID s = (case cur s theID of
         None \<Rightarrow> (Fail LdbErrNotFound, zero_oplog\<lparr>log_ID := theID\<rparr>, s) | Some o1 \<Rightarrow> (Ret (), o1, s))"
begin

definition run_cmd :: "log_cmd \<Rightarrow> 's \<Rightarrow> 's" where
  "run_cmd c s = (case c of PutLog o1 \<Rightarrow> snd (snd (save o1 s)) | DelLog o1 \<Rightarrow> snd (snd (remove o1 s)))"

lemma run_cmd_refines: "ok s \<Longrightarrow> good (cmd_entry c) \<Longrightarrow> ok (run_cmd c s) \<and> cur (run_cmd c s) = spec_cmd c (cur s)"
  using save_law [of s "cmd_entry c"] remove_law [of s "cmd_entry c"] by (cases c) (auto simp: run_cmd_def)

lemma runs_refine:
  "ok s \<Longrightarrow> \<forall>c \<in> set cs. good (cmd_entry c) \<Longrightarrow>
    ok (fold run_cmd cs s) \<and> cur (fold run_cmd cs s) = fold spec_cmd cs (cur s)"
  by (induction cs arbitrary: s) (simp_all add: run_cmd_refines)

lemma find_after_runs:
  assumes "ok s" "\<forall>c \<in> set cs. good (cmd_entry c)" "length theID = SizePttID"
  shows "fst (find theID (fold run_cmd cs s)) =
      (if fold spec_cmd cs (cur s) theID = None then Fail LdbErrNotFound else Ret ())"
    "fold spec_cmd cs (cur s) theID = Some o1 \<Longrightarrow> fst (snd (find theID (fold run_cmd cs s))) = o1"
  using runs_refine [OF assms(1,2)] find_law [OF _ assms(3), of "fold run_cmd cs s"] by (auto split: option.splits)

end

definition log_cmd_ok :: "op_env \<Rightarrow> oplog_db \<Rightarrow> BaseOplog \<Rightarrow> bool" where
  "log_cmd_ok E D o1 \<longleftrightarrow> saveable E D (o1\<lparr>log_IsNewer := False\<rparr>)"

interpretation log_db: log_database "\<lambda>s. store_ok E D s \<and> log_db_ok D" "log_map E D" "log_cmd_ok E D"
  "Oplog_Save E env D True" "Oplog_Delete E env D True" "\<lambda>theID. Oplog_Get E env D theID True zero_oplog" for E env D
proof (unfold_locales, goal_cases)
  case (1 s o1)
  then show ?case using Oplog_Save_ok [of E D s o1 True env] by (auto simp: log_cmd_ok_def)
next
  case (2 s o1)
  then show ?case using Oplog_Delete_ok [of E D s o1 True env] by (auto simp: log_cmd_ok_def saveable_def)
next
  case (3 s theID)
  then show ?case by (auto simp: Oplog_Get_locked)
qed

definition log_run :: "op_env \<Rightarrow> lock_env \<Rightarrow> oplog_db \<Rightarrow> log_cmd \<Rightarrow> log_store \<Rightarrow> log_store" where
  "log_run E env D c s =
     (case c of PutLog o1 \<Rightarrow> snd (snd (Oplog_Save E env D True o1 s)) | DelLog o1 \<Rightarrow> snd (snd (Oplog_Delete E env D True o1 s)))"

lemma log_run_cmd: "log_run E env D = log_db.run_cmd E env D"
  by (simp add: fun_eq_iff log_run_def log_db.run_cmd_def split: log_cmd.split)

subsection \<open>A concrete codec\<close>

text \<open>
  The entries and indexes of the model are countable, so a codec that reads back what it writes exists: it writes
  as many bytes as the number of the value.
\<close>

instance Timestamp_ext :: (countable) countable
  by (rule countable_classI [of "\<lambda>t. to_nat (Ts t, NanoTs t, Timestamp.more t)"]) (simp add: Timestamp.equality)

instance KeyBIP32_ext :: (countable) countable
  by (rule countable_classI [of "\<lambda>k. to_nat (bip_Parent k, bip_Salt k, bip_Child k, KeyBIP32.more k)"])
    (simp add: KeyBIP32.equality)

instance KeyExtraInfo_ext :: (countable) countable
  by (rule countable_classI [of "\<lambda>k. to_nat (ke_KeyType k, ke_Data k, KeyExtraInfo.more k)"])
    (simp add: KeyExtraInfo.equality)

instance SignInfo_ext :: (countable) countable
  by (rule countable_classI [of "\<lambda>k. to_nat (sign_ID k, sign_CreateTS k, sign_Hash k, sign_Salt k, sign_Sig k, sign_Pubkey k,
      sign_Extra k, SignInfo.more k)"]) (simp add: SignInfo.equality)

instance BaseOplog_ext :: (countable) countable
  by (rule countable_classI [of "\<lambda>k. to_nat ((log_V k, log_ID k, log_CreatorID k, log_CreateTS k, log_ObjID k, log_Op k,
      log_PreLogID k), (log_Data k, log_CreatorHash k, log_Salt k, log_Sig k, log_Pubkey k, log_KeyExtra k, log_UpdateTS k),
      (log_Hash k, log_MasterLogID k, log_MasterSigns k, log_InternalSigns k, log_IsSync k, log_IsNewer k, log_Extra k),
      BaseOplog.more k)"])
    (simp add: BaseOplog.equality)

instance Index_ext :: (countable) countable
  by (rule countable_classI [of "\<lambda>k. to_nat (Index_Keys k, Index_UpdateTS k, Index.more k)"]) (simp add: Index.equality)

definition counting_env :: op_env where
  "counting_env = example_op_env\<lparr>oe_enc := \<lambda>o1. Inr (replicate (to_nat o1) 0), oe_dec := \<lambda>m _. Some (from_nat (length m)),
     oe_ix := \<lparr>ix_enc = \<lambda>i. Inr (replicate (to_nat i) 0), ix_dec = \<lambda>m. Some (from_nat (length m))\<rparr>\<rparr>"

lemma counting_env_ok: "log_codec_ok counting_env"
  by (simp add: log_codec_ok_def counting_env_def index_codec_ok_def)

definition example_log_db :: oplog_db where
  "example_log_db =
     \<lparr>dbPrefixID = replicate 40 1, dbPrefix = [46, 109, 101, 108, 103], dbIdxPrefix = [46, 109, 101, 105, 103],
      dbMerklePrefix = Some [46, 109, 101, 109, 107],
      dbPrefixInternal = [46, 109, 101, 108, 105], dbPrefixMaster = [46, 109, 101, 108, 109]\<rparr>"

lemma example_log_db_ok: "log_db_ok example_log_db"
  by (simp add: log_db_ok_def example_log_db_def id_size_defs)

lemma SetDB_example:
  "Oplog_SetDB (replicate 40 1) [46, 109, 101, 108, 103] [46, 109, 101, 105, 103] (Some [46, 109, 101, 109, 107]) = Ret example_log_db"
  by (simp add: Oplog_SetDB_def dbPrefixToDBPrefixInternal_def dbPrefixToDBPrefixMaster_def CloneBytes_def
      SizeDBKeyPrefix_def example_log_db_def)

definition empty_store :: log_store where
  "empty_store = \<lparr>ls_batch = NewLDBBatch (NewLDBDatabase (\<lambda>_ _. None) []), ls_lock = NewLockMap 1, ls_merkle = None\<rparr>"

lemma empty_store_ok: "store_ok E D empty_store" "log_map E D empty_store = Map.empty"
  by (auto simp: empty_store_def store_ok_def quiet_def NewLDBBatch_def NewLDBDatabase_def no_fault_def ldb_view_def log_map_def
      rec_keys_def fun_eq_iff)

definition example_entry :: "int \<Rightarrow> byte \<Rightarrow> BaseOplog" where
  "example_entry t h =
     zero_oplog\<lparr>log_ID := replicate 40 2, log_UpdateTS := mkTs t 0, log_Hash := replicate 32 h, log_MasterLogID := Some (replicate 40 3)\<rparr>"

lemma example_entry_ok:
  "0 \<le> t \<Longrightarrow> t < 2 ^ 63 \<Longrightarrow> entry_wf (example_entry t h)" "log_MasterLogID (example_entry t h) \<noteq> None"
  by (simp_all add: entry_wf_def example_entry_def id_size_defs ts_ok_def mkTs_def in_i64_def)

subsection \<open>Properties\<close>

text \<open>
  C2: the log in the database refines a finite map from identifiers to entries. Starting from a
  consistent store, every sequence of \<^verbatim>\<open>Save\<close> and \<^verbatim>\<open>Delete\<close> calls keeps it consistent and changes the
  stored entries as the abstract commands do: a saved entry replaces the one stored under its identifier
  at whatever key that was, a pending entry that would take a step back is refused, other
  identifiers are untouched; \<^verbatim>\<open>Get\<close> then returns exactly the entry of the map, or
  not found, and changes nothing.
\<close>

theorem log_run_refines:
  assumes "store_ok E D s" "log_db_ok D" "\<forall>c \<in> set cs. log_cmd_ok E D (cmd_entry c)" "length theID = SizePttID"
  shows "let s' = fold (log_run E env D) cs s in store_ok E D s' \<and> log_map E D s' = fold spec_cmd cs (log_map E D s) \<and>
    Oplog_Get E env D theID True zero_oplog s' =
      (case fold spec_cmd cs (log_map E D s) theID of
         None \<Rightarrow> (Fail LdbErrNotFound, zero_oplog\<lparr>log_ID := theID\<rparr>, s')
       | Some o1 \<Rightarrow> (Ret (), o1, s'))"
proof -
  let ?s' = "fold (log_run E env D) cs s"
  have "store_ok E D ?s' \<and> log_map E D ?s' = fold spec_cmd cs (log_map E D s)"
    unfolding log_run_cmd using log_db.runs_refine [of E D s cs env] assms(1-3) by blast
  then show ?thesis using Oplog_Get_locked [of E D ?s' theID env] assms(4) by (simp add: Let_def)
qed

theorem log_run_refines_witness:
  "Oplog_Get counting_env (\<lambda>_ l. l) example_log_db (replicate 40 2) True zero_oplog
     (fold (log_run counting_env (\<lambda>_ l. l) example_log_db) [PutLog (example_entry 5 1), PutLog (example_entry 7 9)] empty_store) =
   (Ret (), example_entry 7 9,
    fold (log_run counting_env (\<lambda>_ l. l) example_log_db) [PutLog (example_entry 5 1), PutLog (example_entry 7 9)] empty_store)"
proof -
  let ?cs = "[PutLog (example_entry 5 1), PutLog (example_entry 7 9)]"
  have n: "(example_entry t h)\<lparr>log_IsNewer := False\<rparr> = example_entry t h" for t h
    by (simp add: example_entry_def zero_oplog_def)
  have "saveable counting_env example_log_db (example_entry t h)" if "0 \<le> t" "t < 2 ^ 63" for t h
    using that by (intro saveable_valid counting_env_ok example_entry_ok)
  then have "\<forall>c \<in> set ?cs. log_cmd_ok counting_env example_log_db (cmd_entry c)" by (simp add: log_cmd_ok_def n)
  moreover have "length (replicate 40 (2 :: byte)) = SizePttID" by (simp add: id_size_defs)
  moreover have "fold spec_cmd ?cs Map.empty (replicate 40 2) = Some (example_entry 7 9)"
    by (simp add: n spec_save_def spec_rejects_def example_entry_ok) (simp add: example_entry_def)
  ultimately show ?thesis
    using log_run_refines [OF empty_store_ok(1) example_log_db_ok, of ?cs counting_env "replicate 40 2" "\<lambda>_ l. l"]
    by (simp add: empty_store_ok(2) Let_def)
qed

end
