(* ===== verification/Log_Signers.thy ===== *)
theory Log_Signers
  imports Oplogs
begin

text \<open>
  Who signs a log entry and when it becomes valid: the keys of this device
  (\<^verbatim>\<open>me/my_info_utils_key_info.go\<close>), the weighted quorum of the user's devices
  (\<^verbatim>\<open>me/protocol_manager_utils_oplog.go\<close>) and the masters of an entity
  (\<^verbatim>\<open>service/protocol_manager_utils_master.go\<close>, \<^verbatim>\<open>service/protocol_manager_utils_oplog.go\<close>).

  \<open>signer\<close> is the part of \<^verbatim>\<open>MyInfo\<close> that signing uses. Its clock and its source of salts are
  functions of a counter, so that each call of \<^verbatim>\<open>GetTimestamp\<close> and \<^verbatim>\<open>NewSalt\<close> may return something else. The
  function fields of \<^verbatim>\<open>BaseProtocolManager\<close> that an entity may override (\<^verbatim>\<open>isMaster\<close>, \<^verbatim>\<open>isValidOplog\<close>) hold
  their defaults here.
\<close>

subsection \<open>Definitions\<close>

record signer =
  sg_ID :: PttID
  sg_NodeSignID :: PttID
  sg_myKey :: PrivateKey
  sg_nodeKey :: PrivateKey
  sg_signKeyInfo :: KeyInfo
  sg_nodeSignKeyInfo :: KeyInfo
  sg_clock :: "nat \<Rightarrow> Timestamp res"
  sg_salts :: "nat \<Rightarrow> Salt res"
  sg_tick :: nat
  sg_draw :: nat

definition NRenewSignKey :: int where
  "NRenewSignKey = 100"

definition now_ts :: "signer \<Rightarrow> Timestamp res" where
  "now_ts g = sg_clock g (sg_tick g)"

definition fresh_salt :: "signer \<Rightarrow> Salt res" where
  "fresh_salt g = sg_salts g (sg_draw g)"

text \<open>Time passes and salts are used up.\<close>

definition advance :: "signer \<Rightarrow> signer" where
  "advance g = g\<lparr>sg_tick := Suc (sg_tick g), sg_draw := sg_draw g + MaxIterDeriveKeyBIP32\<rparr>"

definition new_sign_key :: "ecc \<Rightarrow> PttID \<Rightarrow> PrivateKey \<Rightarrow> signer \<Rightarrow> KeyInfo res" where
  "new_sign_key E doerID key g = NewSignKeyInfo E (\<lambda>i. sg_salts g (sg_draw g + i)) (now_ts g) doerID key"

definition CreateSignKeyInfo :: "ecc \<Rightarrow> signer \<Rightarrow> unit res \<times> signer" where
  "CreateSignKeyInfo E g =
     (case new_sign_key E (sg_ID g) (sg_myKey g) g of
        Ret keyInfo \<Rightarrow> (Ret (), advance (g\<lparr>sg_signKeyInfo := keyInfo\<rparr>))
      | Fail e \<Rightarrow> (Fail e, advance g)
      | Panic \<Rightarrow> (Panic, g))"

definition SignKey :: "ecc \<Rightarrow> signer \<Rightarrow> KeyInfo res \<times> signer" where
  "SignKey E g =
     (if ki_Count (sg_signKeyInfo g) > NRenewSignKey
      then (case CreateSignKeyInfo E g of
              (Panic, g') \<Rightarrow> (Panic, g') | (_, g') \<Rightarrow> (Ret (sg_signKeyInfo g'), g'))
      else (Ret (sg_signKeyInfo g), g))"

definition CreateNodeSignKeyInfo :: "ecc \<Rightarrow> signer \<Rightarrow> unit res \<times> signer" where
  "CreateNodeSignKeyInfo E g =
     (case new_sign_key E (sg_NodeSignID g) (sg_nodeKey g) g of
        Ret keyInfo \<Rightarrow> (Ret (), advance (g\<lparr>sg_nodeSignKeyInfo := keyInfo\<rparr>))
      | Fail e \<Rightarrow> (Fail e, advance g)
      | Panic \<Rightarrow> (Panic, g))"

definition NodeSignKey :: "ecc \<Rightarrow> signer \<Rightarrow> KeyInfo res \<times> signer" where
  "NodeSignKey E g =
     (if ki_Count (sg_nodeSignKeyInfo g) > NRenewSignKey
      then (case CreateNodeSignKeyInfo E g of
              (Panic, g') \<Rightarrow> (Panic, g') | (_, g') \<Rightarrow> (Ret (sg_nodeSignKeyInfo g'), g'))
      else (Ret (sg_nodeSignKeyInfo g), g))"

definition MyInfo_Sign :: "op_env \<Rightarrow> BaseOplog \<Rightarrow> signer \<Rightarrow> unit res \<times> BaseOplog \<times> signer" where
  "MyInfo_Sign E o1 g =
     (case SignKey (oe_ecc E) g of
        (Ret key, g1) \<Rightarrow>
          (case Oplog_Sign E (fresh_salt g1) key o1 of
             (r, o2, key') \<Rightarrow> (r, o2, advance (g1\<lparr>sg_signKeyInfo := key'\<rparr>)))
      | (_, g1) \<Rightarrow> (Panic, o1, g1))"

definition MyInfo_InternalSign :: "op_env \<Rightarrow> BaseOplog \<Rightarrow> signer \<Rightarrow> unit res \<times> BaseOplog \<times> signer" where
  "MyInfo_InternalSign E o1 g =
     (case NodeSignKey (oe_ecc E) g of
        (Ret key, g1) \<Rightarrow>
          (case InternalSign E (now_ts g1) (fresh_salt g1) (sg_NodeSignID g1) key o1 of
             (r, o2, key') \<Rightarrow> (r, o2, advance (g1\<lparr>sg_nodeSignKeyInfo := key'\<rparr>)))
      | (_, g1) \<Rightarrow> (Panic, o1, g1))"

definition MyInfo_MasterSign :: "op_env \<Rightarrow> BaseOplog \<Rightarrow> signer \<Rightarrow> unit res \<times> BaseOplog \<times> signer" where
  "MyInfo_MasterSign E o1 g =
     (case SignKey (oe_ecc E) g of
        (Ret key, g1) \<Rightarrow>
          (case MasterSign E (now_ts g1) (fresh_salt g1) (sg_ID g1) key o1 of
             (r, o2, key') \<Rightarrow> (r, o2, advance (g1\<lparr>sg_signKeyInfo := key'\<rparr>)))
      | (_, g1) \<Rightarrow> (Panic, o1, g1))"

definition MyMasterSign :: "op_env \<Rightarrow> BaseOplog \<Rightarrow> signer \<Rightarrow> unit res \<times> BaseOplog \<times> signer" where
  "MyMasterSign E o1 g =
     (case NodeSignKey (oe_ecc E) g of
        (Ret key, g1) \<Rightarrow>
          (case MasterSign E (now_ts g1) (fresh_salt g1) (sg_NodeSignID g1) key o1 of
             (r, o2, key') \<Rightarrow> (r, o2, advance (g1\<lparr>sg_nodeSignKeyInfo := key'\<rparr>)))
      | (_, g1) \<Rightarrow> (Panic, o1, g1))"

subsubsection \<open>The user's devices\<close>

text \<open>
  \<^verbatim>\<open>MyNodes\<close> (by raft identifier) and \<^verbatim>\<open>MyNodeByNodeSignIDs\<close> hold pointers to the same \<^verbatim>\<open>MyNode\<close> objects, so the
  objects live in a store \<open>mp_heap\<close> and the two maps hold their addresses. Only the fields the quorum
  depends on are kept.
\<close>

type_synonym NodeID = bytes

record MyNode =
  node_NodeID :: NodeID
  node_Weight :: u32
  node_Status :: Status

record my_pm =
  mp_heap :: "nat \<rightharpoonup> MyNode"
  mp_next :: nat
  MyNodes :: "u64 \<rightharpoonup> nat"
  MyNodeByNodeSignIDs :: "PttID \<rightharpoonup> nat"
  totalWeight :: u32
  mp_masterLogID :: "PttID option"

definition WeightServer :: u32 where "WeightServer = 2000000"
definition WeightDesktop :: u32 where "WeightDesktop = 2000"
definition WeightMobile :: u32 where "WeightMobile = 2"

datatype NodeType = NodeTypeUnknown | NodeTypeMobile | NodeTypeDesktop | NodeTypeServer

fun nodeTypeToWeight :: "NodeType \<Rightarrow> u32" where
  "nodeTypeToWeight NodeTypeServer = WeightServer"
| "nodeTypeToWeight NodeTypeDesktop = WeightDesktop"
| "nodeTypeToWeight NodeTypeMobile = WeightMobile"
| "nodeTypeToWeight NodeTypeUnknown = 0"

definition Quorum :: "my_pm \<Rightarrow> u32" where
  "Quorum P = totalWeight P div 2 + 1"

definition node_weight :: "my_pm \<Rightarrow> PttID \<Rightarrow> u32" where
  "node_weight P theID =
     (case MyNodeByNodeSignIDs P theID of
        None \<Rightarrow> 0
      | Some p \<Rightarrow> (case mp_heap P p of None \<Rightarrow> 0 | Some n \<Rightarrow> node_Weight n))"

definition sign_weight :: "my_pm \<Rightarrow> SignInfo list \<Rightarrow> u32" where
  "sign_weight P signInfos = fold (\<lambda>s weight. weight + node_weight P (sign_ID s)) signInfos 0"

definition IsValidInternalOplog :: "my_pm \<Rightarrow> SignInfo list \<Rightarrow> PttID option \<times> u32 \<times> bool" where
  "IsValidInternalOplog P signInfos =
     (let weight = sign_weight P signInfos
      in if Quorum P \<le> weight then (mp_masterLogID P, weight, True) else (None, 0, False))"

text \<open>
  The part of \<^verbatim>\<open>publishEntriesAddNodeCreateMasterOplogAndSetMyNode\<close> and
  \<^verbatim>\<open>publishEntriesRemoveNodeDealWithMyNodes\<close> that changes the table of devices. \<open>nodeSignID\<close> is what
  \<^verbatim>\<open>setNodeSignID\<close> returns for the node.
\<close>

definition set_my_node :: "u64 \<Rightarrow> NodeID \<Rightarrow> u32 \<Rightarrow> PttID res \<Rightarrow> my_pm \<Rightarrow> unit res \<times> my_pm" where
  "set_my_node raftID nodeID weight nodeSignID P =
     (let (p, P1) =
            (case MyNodes P raftID of
               Some p \<Rightarrow> (p, P)
             | None \<Rightarrow>
                 (mp_next P,
                  P\<lparr>mp_heap := (mp_heap P)(mp_next P \<mapsto>
                      \<lparr>node_NodeID = nodeID, node_Weight = 0, node_Status = StatusInternalPending\<rparr>),
                    mp_next := Suc (mp_next P), MyNodes := (MyNodes P)(raftID \<mapsto> mp_next P)\<rparr>))
      in case mp_heap P1 p of
           None \<Rightarrow> (Panic, P1)
         | Some n \<Rightarrow>
             (let status = (if node_Status n = StatusInit then StatusInternalPending else node_Status n);
                  P2 = P1\<lparr>mp_heap := (mp_heap P1)(p \<mapsto> n\<lparr>node_Weight := weight, node_Status := status\<rparr>),
                          totalWeight := totalWeight P1 + (weight - node_Weight n)\<rparr>
              in case nodeSignID of
                   Ret theID \<Rightarrow> (Ret (), P2\<lparr>MyNodeByNodeSignIDs := (MyNodeByNodeSignIDs P2)(theID \<mapsto> p)\<rparr>)
                 | Fail e \<Rightarrow> (Fail e, P2)
                 | Panic \<Rightarrow> (Panic, P2)))"

definition heap_weight :: "my_pm \<Rightarrow> nat \<Rightarrow> u32" where
  "heap_weight P p = (case mp_heap P p of None \<Rightarrow> 0 | Some n \<Rightarrow> node_Weight n)"

text \<open>The loop over \<^verbatim>\<open>pm.MyNodes\<close> adds up weights, whatever the order of the map iteration.\<close>

definition total_of :: "my_pm \<Rightarrow> u32" where
  "total_of P = (\<Sum>r \<in> dom (MyNodes P). heap_weight P (the (MyNodes P r)))"

definition remove_my_node :: "u64 \<Rightarrow> PttID res \<Rightarrow> my_pm \<Rightarrow> nat res \<times> my_pm" where
  "remove_my_node raftID nodeSignID P =
     (case MyNodes P raftID of
        None \<Rightarrow> (Fail (MeError M_ErrInvalidNode), P)
      | Some p \<Rightarrow>
          (case nodeSignID of
             Fail e \<Rightarrow> (Fail (MeError M_ErrInvalidNode), P)
           | Panic \<Rightarrow> (Panic, P)
           | Ret theID \<Rightarrow>
               (let P1 = P\<lparr>MyNodes := (MyNodes P)(raftID := None),
                           MyNodeByNodeSignIDs := (MyNodeByNodeSignIDs P)(theID := None)\<rparr>
                in (Ret p, P1\<lparr>totalWeight := total_of P1\<rparr>))))"

subsubsection \<open>The masters of an entity\<close>

record Master =
  master_ID :: PttID
  master_Status :: Status

record entity_pm =
  masters :: "PttID \<rightharpoonup> Master"
  newestMasterLogID :: "PttID option"

definition DBNewestMasterLogIDPrefix :: bytes where
  "DBNewestMasterLogIDPrefix = [46, 110, 109, 108, 100]"

definition DBMasterLog0HashPrefix :: bytes where
  "DBMasterLog0HashPrefix = [46, 109, 108, 48, 104]"

definition db_error :: "go_error option \<times> LDBDatabase \<Rightarrow> unit res \<times> LDBDatabase" where
  "db_error r = (case r of (None, db) \<Rightarrow> (Ret (), db) | (Some e, db) \<Rightarrow> (Fail e, db))"

text \<open>Saving a nil identifier dereferences it.\<close>

definition saveNewestMasterLogID :: "PttID \<Rightarrow> entity_pm \<Rightarrow> LDBDatabase \<Rightarrow> unit res \<times> LDBDatabase" where
  "saveNewestMasterLogID entityID pm =
     res_then (Concat [Some DBNewestMasterLogIDPrefix, Some entityID]) (\<lambda>key db.
       case newestMasterLogID pm of
         None \<Rightarrow> (Panic, db)
       | Some theID \<Rightarrow> db_error (Ldb_Put key theID db))"

definition SetNewestMasterLogID ::
  "PttID \<Rightarrow> PttID option \<Rightarrow> entity_pm \<times> LDBDatabase \<Rightarrow> unit res \<times> entity_pm \<times> LDBDatabase" where
  "SetNewestMasterLogID entityID theID = (\<lambda>(pm, db).
     let pm' = pm\<lparr>newestMasterLogID := theID\<rparr>
     in case saveNewestMasterLogID entityID pm' db of (r, db') \<Rightarrow> (r, pm', db'))"

definition loadNewestMasterLogID :: "PttID \<Rightarrow> LDBDatabase \<Rightarrow> PttID option res" where
  "loadNewestMasterLogID entityID db =
     res_bind (Concat [Some DBNewestMasterLogIDPrefix, Some entityID]) (\<lambda>key.
       case Ldb_Get key db of
         Ret val \<Rightarrow> Ret (Some (copy_into (replicate SizePttID 0) val))
       | Fail e \<Rightarrow> (if e = LdbErrNotFound then Ret None else Fail e)
       | Panic \<Rightarrow> Panic)"

definition saveMasterLog0Hash :: "PttID \<Rightarrow> bytes option \<Rightarrow> LDBDatabase \<Rightarrow> unit res \<times> LDBDatabase" where
  "saveMasterLog0Hash entityID hash =
     res_then (Concat [Some DBMasterLog0HashPrefix, Some entityID]) (\<lambda>key db.
       db_error (Ldb_Put key (case hash of None \<Rightarrow> [] | Some h \<Rightarrow> h) db))"

definition SetMasterLog0Hash ::
  "PttID \<Rightarrow> bytes option \<Rightarrow> bytes option \<times> LDBDatabase \<Rightarrow> unit res \<times> bytes option \<times> LDBDatabase" where
  "SetMasterLog0Hash entityID theBytes = (\<lambda>(hash, db).
     if hash \<noteq> None then (Ret (), hash, db)
     else case saveMasterLog0Hash entityID theBytes db of (r, db') \<Rightarrow> (r, theBytes, db'))"

definition loadMasterLog0Hash :: "PttID \<Rightarrow> LDBDatabase \<Rightarrow> bytes option res" where
  "loadMasterLog0Hash entityID db =
     res_bind (Concat [Some DBMasterLog0HashPrefix, Some entityID]) (\<lambda>key.
       case Ldb_Get key db of
         Ret val \<Rightarrow> Ret (Some val)
       | Fail e \<Rightarrow> (if e = LdbErrNotFound then Ret None else Fail e)
       | Panic \<Rightarrow> Panic)"

definition GetMaster :: "PttID \<Rightarrow> entity_pm \<Rightarrow> Master res" where
  "GetMaster theID pm = (case masters pm theID of None \<Rightarrow> Fail (TypesError T_ErrInvalidID) | Some m \<Rightarrow> Ret m)"

definition defaultIsMaster :: "PttID \<Rightarrow> entity_pm \<Rightarrow> bool" where
  "defaultIsMaster theID pm = (case GetMaster theID pm of Ret m \<Rightarrow> master_Status m = StatusAlive | _ \<Rightarrow> False)"

definition register_master :: "Master \<Rightarrow> entity_pm \<Rightarrow> entity_pm" where
  "register_master m pm = (if master_Status m \<noteq> StatusAlive then pm else pm\<lparr>masters := (masters pm)(master_ID m \<mapsto> m)\<rparr>)"

definition registerMasters :: "Master list \<Rightarrow> entity_pm \<Rightarrow> entity_pm" where
  "registerMasters ms pm = fold (\<lambda>m pm. if master_Status m \<noteq> StatusAlive then pm else register_master m pm) ms pm"

definition unregister_master :: "Master \<Rightarrow> entity_pm \<Rightarrow> entity_pm" where
  "unregister_master m pm = pm\<lparr>masters := (masters pm)(master_ID m := None)\<rparr>"

definition defaultIsValidOplog :: "SignInfo list \<Rightarrow> entity_pm \<Rightarrow> PttID option \<times> u32 \<times> bool" where
  "defaultIsValidOplog signInfos pm =
     (let lenMaster = card (dom (masters pm));
          count = length (filter (\<lambda>s. masters pm (sign_ID s) \<noteq> None) signInfos)
      in if count < lenMaster then (None, 0, False) else (newestMasterLogID pm, word_of_nat count, True))"

text \<open>\<^verbatim>\<open>SetMasterLogID\<close> with a pointer that may be nil.\<close>

definition set_master_log :: "op_env \<Rightarrow> PttID option \<Rightarrow> BaseOplog \<Rightarrow> BaseOplog" where
  "set_master_log E masterLogID o1 =
     (case masterLogID of
        Some theID \<Rightarrow> SetMasterLogID E theID o1
      | None \<Rightarrow> set_hash E (o1\<lparr>log_MasterLogID := None, log_InternalSigns := []\<rparr>))"

record sign_ctx =
  sx_signer :: signer
  sx_devices :: my_pm
  sx_pm :: entity_pm

definition defaultForceSignOplog :: "op_env \<Rightarrow> BaseOplog \<Rightarrow> sign_ctx \<Rightarrow> unit res \<times> BaseOplog \<times> sign_ctx" where
  "defaultForceSignOplog E o1 x =
     (case MyInfo_Sign E o1 (sx_signer x) of
        (Ret _, o2, g2) \<Rightarrow>
          if log_MasterLogID o2 \<noteq> None then (Ret (), o2, x\<lparr>sx_signer := g2\<rparr>)
          else
            (case MyInfo_MasterSign E o2 g2 of
               (Ret _, o3, g3) \<Rightarrow> (Ret (), set_master_log E (newestMasterLogID (sx_pm x)) o3, x\<lparr>sx_signer := g3\<rparr>)
             | (r, o3, g3) \<Rightarrow> (r, o3, x\<lparr>sx_signer := g3\<rparr>))
      | (r, o2, g2) \<Rightarrow> (r, o2, x\<lparr>sx_signer := g2\<rparr>))"

definition sign_as_master :: "op_env \<Rightarrow> BaseOplog \<Rightarrow> sign_ctx \<Rightarrow> bool res \<times> BaseOplog \<times> sign_ctx" where
  "sign_as_master E o1 x =
     (case MyInfo_MasterSign E o1 (sx_signer x) of
        (Ret _, o2, g2) \<Rightarrow>
          (case defaultIsValidOplog (log_MasterSigns o2) (sx_pm x) of
             (masterLogID, weight, isValid) \<Rightarrow>
               (Ret True, if isValid then set_master_log E masterLogID o2 else o2, x\<lparr>sx_signer := g2\<rparr>))
      | (Fail e, o2, g2) \<Rightarrow> (Fail e, o2, x\<lparr>sx_signer := g2\<rparr>)
      | (Panic, o2, g2) \<Rightarrow> (Panic, o2, x\<lparr>sx_signer := g2\<rparr>))"

definition defaultInternalSign :: "op_env \<Rightarrow> BaseOplog \<Rightarrow> sign_ctx \<Rightarrow> bool res \<times> BaseOplog \<times> sign_ctx" where
  "defaultInternalSign E o1 x =
     (let myID = sg_ID (sx_signer x)
      in if log_MasterLogID o1 \<noteq> None then (Ret False, o1, x)
         else if myID \<noteq> log_CreatorID o1 \<and> \<not> defaultIsMaster myID (sx_pm x) then (Ret False, o1, x)
         else if IDInOplogSigns myID (log_MasterSigns o1) then (Ret False, o1, x)
         else if IDInOplogSigns (sg_NodeSignID (sx_signer x)) (log_InternalSigns o1) then (Ret False, o1, x)
         else
           (case MyInfo_InternalSign E o1 (sx_signer x) of
              (Ret _, o2, g2) \<Rightarrow>
                (let x2 = x\<lparr>sx_signer := g2\<rparr>
                 in case IsValidInternalOplog (sx_devices x2) (log_InternalSigns o2) of
                      (_, _, isValid) \<Rightarrow> if \<not> isValid then (Ret True, o2, x2) else sign_as_master E o2 x2)
            | (Fail e, o2, g2) \<Rightarrow> (Fail e, o2, x\<lparr>sx_signer := g2\<rparr>)
            | (Panic, o2, g2) \<Rightarrow> (Panic, o2, x\<lparr>sx_signer := g2\<rparr>)))"

definition SignOplog :: "op_env \<Rightarrow> BaseOplog \<Rightarrow> sign_ctx \<Rightarrow> unit res \<times> BaseOplog \<times> sign_ctx" where
  "SignOplog E o1 x =
     (case MyInfo_Sign E o1 (sx_signer x) of
        (Ret _, o2, g2) \<Rightarrow>
          (case defaultInternalSign E o2 (x\<lparr>sx_signer := g2\<rparr>) of
             (r, o3, x3) \<Rightarrow> (res_bind r (\<lambda>_. Ret ()), o3, x3))
      | (r, o2, g2) \<Rightarrow> (r, o2, x\<lparr>sx_signer := g2\<rparr>))"

definition defaultValidateIntegrateSign :: "op_env \<Rightarrow> BaseOplog \<Rightarrow> sign_ctx \<Rightarrow> unit res \<times> BaseOplog \<times> sign_ctx" where
  "defaultValidateIntegrateSign E o1 x =
     (case IsValidInternalOplog (sx_devices x) (log_InternalSigns o1) of
        (_, _, isValid) \<Rightarrow>
          (case (if isValid then MyInfo_MasterSign E o1 (sx_signer x) else (Ret (), o1, sx_signer x)) of
             (Ret _, o2, g2) \<Rightarrow>
               (case defaultIsValidOplog (log_MasterSigns o2) (sx_pm x) of
                  (masterLogID, weight, isValid) \<Rightarrow>
                    (Ret (), if isValid then set_master_log E masterLogID o2 else o2, x\<lparr>sx_signer := g2\<rparr>))
           | (r, o2, g2) \<Rightarrow> (r, o2, x\<lparr>sx_signer := g2\<rparr>)))"

definition SetOplogIsSync ::
  "op_env \<Rightarrow> bool \<Rightarrow> BaseOplog \<Rightarrow> sign_ctx \<Rightarrow> (bool \<times> BaseOplog list) res \<times> BaseOplog \<times> sign_ctx" where
  "SetOplogIsSync E isBroadcast o1 x =
     (case defaultInternalSign E (o1\<lparr>log_IsSync := True\<rparr>) x of
        (Ret isNewSign, o2, x2) \<Rightarrow> (Ret (isNewSign, if isNewSign \<and> isBroadcast then [o2] else []), o2, x2)
      | (Fail e, o2, x2) \<Rightarrow> (Fail e, o2, x2)
      | (Panic, o2, x2) \<Rightarrow> (Panic, o2, x2))"

definition PostprocessPendingDeleteOplog ::
  "op_env \<Rightarrow> BaseOplog list \<Rightarrow> BaseOplog \<Rightarrow> sign_ctx \<Rightarrow> BaseOplog list res \<times> BaseOplog \<times> sign_ctx" where
  "PostprocessPendingDeleteOplog E toBroadcastLogs o1 x =
     (case defaultInternalSign E o1 x of
        (Ret _, o2, x2) \<Rightarrow> (Ret (toBroadcastLogs @ [o2]), o2, x2)
      | (Fail _, o2, x2) \<Rightarrow> (Ret toBroadcastLogs, o2, x2)
      | (Panic, o2, x2) \<Rightarrow> (Panic, o2, x2))"

subsection \<open>The table of devices\<close>

text \<open>
  The tables reached from the empty one by adding and removing nodes of a set \<open>N\<close>. \<open>rid\<close> and \<open>sid\<close> are the raft identifier and the
  signing identifier of a node, which derive from its public key.
\<close>

definition no_devices :: my_pm where
  "no_devices = \<lparr>mp_heap = Map.empty, mp_next = 0, MyNodes = Map.empty, MyNodeByNodeSignIDs = Map.empty,
     totalWeight = 0, mp_masterLogID = None\<rparr>"

inductive devices :: "NodeID set \<Rightarrow> (NodeID \<Rightarrow> u64) \<Rightarrow> (NodeID \<Rightarrow> PttID) \<Rightarrow> my_pm \<Rightarrow> bool" for N rid sid where
  none: "devices N rid sid no_devices"
| add: "devices N rid sid P \<Longrightarrow> n \<in> N \<Longrightarrow> set_my_node (rid n) n w (Ret (sid n)) P = (r, P') \<Longrightarrow> devices N rid sid P'"
| remove: "devices N rid sid P \<Longrightarrow> n \<in> N \<Longrightarrow> remove_my_node (rid n) (Ret (sid n)) P = (q, P') \<Longrightarrow> devices N rid sid P'"

definition devices_ok :: "NodeID set \<Rightarrow> (NodeID \<Rightarrow> u64) \<Rightarrow> (NodeID \<Rightarrow> PttID) \<Rightarrow> my_pm \<Rightarrow> bool" where
  "devices_ok N rid sid P \<longleftrightarrow>
     (\<forall>r p. MyNodes P r = Some p \<longrightarrow> p < mp_next P \<and>
        (\<exists>n. mp_heap P p = Some n \<and> node_NodeID n \<in> N \<and> r = rid (node_NodeID n) \<and> MyNodeByNodeSignIDs P (sid (node_NodeID n)) = Some p)) \<and>
     (\<forall>i p. MyNodeByNodeSignIDs P i = Some p \<longrightarrow> (\<exists>n \<in> N. i = sid n \<and> MyNodes P (rid n) = Some p)) \<and>
     totalWeight P = total_of P"

lemma devices_okD:
  assumes "devices_ok N rid sid P"
  shows "MyNodes P r = Some p \<Longrightarrow> p < mp_next P \<and>
      (\<exists>n. mp_heap P p = Some n \<and> node_NodeID n \<in> N \<and> r = rid (node_NodeID n) \<and> MyNodeByNodeSignIDs P (sid (node_NodeID n)) = Some p)"
    "MyNodeByNodeSignIDs P i = Some p \<Longrightarrow> \<exists>n \<in> N. i = sid n \<and> MyNodes P (rid n) = Some p"
    "totalWeight P = total_of P"
  using assms unfolding devices_ok_def by blast+

lemma devices_same_node:
  assumes "devices_ok N rid sid P" "MyNodes P r = Some p" "MyNodes P r' = Some p"
  shows "r = r'"
  using devices_okD(1) [OF assms(1,2)] devices_okD(1) [OF assms(1,3)] by auto

lemma total_of_add:
  assumes "MyNodes P r = None" "\<And>r' p. MyNodes P r' = Some p \<Longrightarrow> p \<noteq> q"
    and "MyNodes P' = (MyNodes P)(r \<mapsto> q)" "\<And>p. p \<noteq> q \<Longrightarrow> mp_heap P' p = mp_heap P p"
  shows "total_of P' = total_of P + heap_weight P' q"
proof -
  have "total_of P' = heap_weight P' q + (\<Sum>x \<in> dom (MyNodes P). heap_weight P' (the (MyNodes P' x)))"
    using assms(1) by (simp add: total_of_def assms(3) domIff)
  also have "(\<Sum>x \<in> dom (MyNodes P). heap_weight P' (the (MyNodes P' x))) = total_of P"
    unfolding total_of_def
  proof (rule sum.cong [OF refl])
    fix x
    assume "x \<in> dom (MyNodes P)"
    then obtain p where p: "MyNodes P x = Some p" by blast
    with assms(1,2) have "p \<noteq> q" "x \<noteq> r" by auto
    then show "heap_weight P' (the (MyNodes P' x)) = heap_weight P (the (MyNodes P x))"
      using p assms(3,4) by (simp add: heap_weight_def)
  qed
  finally show ?thesis by (simp add: add.commute)
qed

lemma total_of_change:
  assumes "MyNodes P r = Some p" "\<And>r'. MyNodes P r' = Some p \<Longrightarrow> r' = r"
    and "MyNodes P' = MyNodes P" "\<And>q. q \<noteq> p \<Longrightarrow> mp_heap P' q = mp_heap P q"
  shows "total_of P' = total_of P + (heap_weight P' p - heap_weight P p)"
proof -
  have r: "r \<in> dom (MyNodes P)" using assms(1) by blast
  have "(\<Sum>x \<in> dom (MyNodes P) - {r}. heap_weight P' (the (MyNodes P' x))) =
      (\<Sum>x \<in> dom (MyNodes P) - {r}. heap_weight P (the (MyNodes P x)))"
  proof (rule sum.cong [OF refl])
    fix x
    assume "x \<in> dom (MyNodes P) - {r}"
    then obtain q where "MyNodes P x = Some q" "q \<noteq> p" using assms(2) by blast
    then show "heap_weight P' (the (MyNodes P' x)) = heap_weight P (the (MyNodes P x))"
      using assms(3,4) by (simp add: heap_weight_def)
  qed
  then show ?thesis
    unfolding total_of_def assms(3) sum.remove [OF finite r] using assms(1,3) by simp
qed

lemma set_my_node_new:
  assumes inj: "inj_on rid N" "inj_on sid N" and n: "n \<in> N" and ok: "devices_ok N rid sid P" and None: "MyNodes P (rid n) = None"
    and run: "set_my_node (rid n) n w (Ret (sid n)) P = (r, P')"
  shows "devices_ok N rid sid P'"
proof -
  let ?q = "mp_next P" and ?node = "\<lparr>node_NodeID = n, node_Weight = w, node_Status = StatusInternalPending\<rparr>"
  have P': "P' = P\<lparr>mp_heap := (mp_heap P)(?q \<mapsto> ?node), mp_next := Suc ?q, MyNodes := (MyNodes P)(rid n \<mapsto> ?q),
      totalWeight := totalWeight P + w, MyNodeByNodeSignIDs := (MyNodeByNodeSignIDs P)(sid n \<mapsto> ?q)\<rparr>"
    using run None by (auto simp: set_my_node_def Let_def StatusInternalPending_def StatusInit_def)
  have fresh: "p \<noteq> ?q" if "MyNodes P r' = Some p" for r' p using devices_okD(1) [OF ok that] by auto
  have "total_of P' = total_of P + heap_weight P' ?q"
    by (rule total_of_add [OF None fresh]) (simp_all add: P')
  then have "totalWeight P' = total_of P'" using devices_okD(3) [OF ok] by (simp add: P' heap_weight_def)
  moreover have "p < mp_next P' \<and> (\<exists>m. mp_heap P' p = Some m \<and> node_NodeID m \<in> N \<and> r' = rid (node_NodeID m) \<and>
      MyNodeByNodeSignIDs P' (sid (node_NodeID m)) = Some p)" if "MyNodes P' r' = Some p" for r' p
  proof (cases "r' = rid n")
    case True
    with that n show ?thesis by (simp add: P')
  next
    case False
    with that have p: "MyNodes P r' = Some p" by (simp add: P')
    then obtain m where m: "p < mp_next P" "mp_heap P p = Some m" "node_NodeID m \<in> N" "r' = rid (node_NodeID m)"
      "MyNodeByNodeSignIDs P (sid (node_NodeID m)) = Some p"
      using devices_okD(1) [OF ok] by blast
    with False n inj(2) have "sid (node_NodeID m) \<noteq> sid n" by (auto dest: inj_onD)
    with m show ?thesis by (simp add: P')
  qed
  moreover have "\<exists>m \<in> N. i = sid m \<and> MyNodes P' (rid m) = Some p" if "MyNodeByNodeSignIDs P' i = Some p" for i p
  proof (cases "i = sid n")
    case True
    with that n show ?thesis by (auto simp: P')
  next
    case False
    with that have "MyNodeByNodeSignIDs P i = Some p" by (simp add: P')
    then obtain m where m: "m \<in> N" "i = sid m" "MyNodes P (rid m) = Some p" using devices_okD(2) [OF ok] by blast
    with False n inj(1) have "rid m \<noteq> rid n" by (auto dest: inj_onD)
    with m show ?thesis by (auto simp: P')
  qed
  ultimately show ?thesis unfolding devices_ok_def by blast
qed

lemma set_my_node_again:
  assumes inj: "inj_on rid N" "inj_on sid N" and n: "n \<in> N" and ok: "devices_ok N rid sid P" and Some: "MyNodes P (rid n) = Some q"
    and run: "set_my_node (rid n) n w (Ret (sid n)) P = (r, P')"
  shows "devices_ok N rid sid P'"
proof -
  obtain m where m: "mp_heap P q = Some m" "rid n = rid (node_NodeID m)" "MyNodeByNodeSignIDs P (sid (node_NodeID m)) = Some q"
    "node_NodeID m \<in> N"
    using devices_okD(1) [OF ok Some] by blast
  then have nid: "node_NodeID m = n" using inj_onD [OF inj(1) _ n] by metis
  define m' where "m' = m\<lparr>node_Weight := w, node_Status := if node_Status m = StatusInit then StatusInternalPending else node_Status m\<rparr>"
  have m': "node_NodeID m' = n" "node_Weight m' = w" by (simp_all add: m'_def nid)
  have signs: "(MyNodeByNodeSignIDs P)(sid n \<mapsto> q) = MyNodeByNodeSignIDs P"
    using m(3) nid by (simp add: fun_upd_idem)
  have P': "MyNodes P' = MyNodes P" "MyNodeByNodeSignIDs P' = MyNodeByNodeSignIDs P" "mp_next P' = mp_next P"
    "mp_heap P' = (mp_heap P)(q \<mapsto> m')" "totalWeight P' = totalWeight P + (w - node_Weight m)"
  proof -
    have "P' = P\<lparr>mp_heap := (mp_heap P)(q \<mapsto> m'), totalWeight := totalWeight P + (w - node_Weight m),
        MyNodeByNodeSignIDs := (MyNodeByNodeSignIDs P)(sid n \<mapsto> q)\<rparr>"
      using run Some m(1) by (simp add: set_my_node_def Let_def m'_def)
    then show "MyNodes P' = MyNodes P" "MyNodeByNodeSignIDs P' = MyNodeByNodeSignIDs P" "mp_next P' = mp_next P"
      "mp_heap P' = (mp_heap P)(q \<mapsto> m')" "totalWeight P' = totalWeight P + (w - node_Weight m)"
      by (simp_all add: signs)
  qed
  have "total_of P' = total_of P + (heap_weight P' q - heap_weight P q)"
  proof (rule total_of_change [OF Some])
    show "r' = rid n" if "MyNodes P r' = Some q" for r' using devices_same_node [OF ok that Some] .
  qed (simp_all add: P')
  then have "totalWeight P' = total_of P'" using devices_okD(3) [OF ok] m(1) m'(2) by (simp add: P' heap_weight_def)
  moreover have "p < mp_next P' \<and> (\<exists>m. mp_heap P' p = Some m \<and> node_NodeID m \<in> N \<and> r' = rid (node_NodeID m) \<and>
      MyNodeByNodeSignIDs P' (sid (node_NodeID m)) = Some p)" if "MyNodes P' r' = Some p" for r' p
  proof (cases "p = q")
    case True
    then have "r' = rid n" using that devices_same_node [OF ok _ Some] by (simp add: P')
    with True devices_okD(1) [OF ok Some] m(3) m'(1) nid n show ?thesis by (simp add: P')
  next
    case False
    with that devices_okD(1) [OF ok, of r' p] show ?thesis by (simp add: P')
  qed
  moreover have "\<exists>m \<in> N. i = sid m \<and> MyNodes P' (rid m) = Some p" if "MyNodeByNodeSignIDs P' i = Some p" for i p
    using that devices_okD(2) [OF ok] by (simp add: P')
  ultimately show ?thesis unfolding devices_ok_def by blast
qed

lemma set_my_node_ok:
  assumes "inj_on rid N" "inj_on sid N" "n \<in> N" "devices_ok N rid sid P" "set_my_node (rid n) n w (Ret (sid n)) P = (r, P')"
  shows "devices_ok N rid sid P'"
  using set_my_node_new [OF assms(1-4) _ assms(5)] set_my_node_again [OF assms(1-4) _ assms(5)] by (cases "MyNodes P (rid n)") simp_all

lemma remove_my_node_ok:
  assumes inj: "inj_on rid N" "inj_on sid N" and n: "n \<in> N" and ok: "devices_ok N rid sid P"
    and run: "remove_my_node (rid n) (Ret (sid n)) P = (q, P')"
  shows "devices_ok N rid sid P'"
proof (cases "MyNodes P (rid n)")
  case None
  with run ok show ?thesis by (simp add: remove_my_node_def)
next
  case (Some p0)
  let ?P = "P\<lparr>MyNodes := (MyNodes P)(rid n := None), MyNodeByNodeSignIDs := (MyNodeByNodeSignIDs P)(sid n := None)\<rparr>"
  have P': "P' = ?P\<lparr>totalWeight := total_of ?P\<rparr>" using run Some by (simp add: remove_my_node_def Let_def)
  have "total_of P' = total_of ?P" by (simp add: P' total_of_def heap_weight_def)
  moreover have "p < mp_next P' \<and> (\<exists>m. mp_heap P' p = Some m \<and> node_NodeID m \<in> N \<and> r' = rid (node_NodeID m) \<and>
      MyNodeByNodeSignIDs P' (sid (node_NodeID m)) = Some p)" if "MyNodes P' r' = Some p" for r' p
  proof -
    have p: "MyNodes P r' = Some p" "r' \<noteq> rid n" using that by (auto simp: P' split: if_splits)
    then obtain m where m: "p < mp_next P" "mp_heap P p = Some m" "node_NodeID m \<in> N" "r' = rid (node_NodeID m)"
      "MyNodeByNodeSignIDs P (sid (node_NodeID m)) = Some p"
      using devices_okD(1) [OF ok] by blast
    with p(2) n inj(2) have "sid (node_NodeID m) \<noteq> sid n" by (auto dest: inj_onD)
    with m show ?thesis by (simp add: P')
  qed
  moreover have "\<exists>m \<in> N. i = sid m \<and> MyNodes P' (rid m) = Some p" if "MyNodeByNodeSignIDs P' i = Some p" for i p
  proof -
    have "MyNodeByNodeSignIDs P i = Some p" "i \<noteq> sid n" using that by (auto simp: P' split: if_splits)
    then obtain m where m: "m \<in> N" "i = sid m" "MyNodes P (rid m) = Some p" "i \<noteq> sid n" using devices_okD(2) [OF ok] by blast
    then have "rid m \<noteq> rid n" using n inj(1) by (auto dest: inj_onD)
    with m show ?thesis by (auto simp: P')
  qed
  ultimately show ?thesis unfolding devices_ok_def by (auto simp: P')
qed

lemma devices_reach_ok:
  assumes "devices N rid sid P" "inj_on rid N" "inj_on sid N"
  shows "devices_ok N rid sid P"
  using assms(1)
proof induction
  case none
  then show ?case by (simp add: devices_ok_def no_devices_def total_of_def)
next
  case (add P n w r P')
  from set_my_node_ok [OF assms(2,3) add.hyps(2) add.IH add.hyps(3)] show ?case .
next
  case (remove P n q P')
  from remove_my_node_ok [OF assms(2,3) remove.hyps(2) remove.IH remove.hyps(3)] show ?case .
qed

subsection \<open>Quorums\<close>

lemma unat_sum_word:
  assumes "finite A" "(\<Sum>a \<in> A. unat (f a :: u32)) < 2 ^ 32"
  shows "unat (\<Sum>a \<in> A. f a) = (\<Sum>a \<in> A. unat (f a))"
  using assms
proof (induction rule: finite_induct)
  case (insert x F)
  then have "unat (\<Sum>a \<in> F. f a) = (\<Sum>a \<in> F. unat (f a))" by simp
  with insert show ?case by (simp add: unat_word_ariths)
qed simp

lemma fold_sign_weight: "fold (\<lambda>s weight. weight + node_weight P (sign_ID s)) ss w = w + (\<Sum>s \<leftarrow> ss. node_weight P (sign_ID s))"
  by (induction ss arbitrary: w) (simp_all add: add.assoc)

lemma sign_weight_distinct:
  assumes "distinct (map sign_ID ss)"
  shows "sign_weight P ss = (\<Sum>i \<in> sign_ID ` set ss. node_weight P i)"
proof -
  have "sign_weight P ss = (\<Sum>i \<leftarrow> map sign_ID ss. node_weight P i)"
    by (simp add: sign_weight_def fold_sign_weight comp_def)
  also have "\<dots> = (\<Sum>i \<in> set (map sign_ID ss). node_weight P i)"
    by (rule sum_list_distinct_conv_sum_set [OF assms])
  finally show ?thesis by simp
qed

definition device_weights :: "my_pm \<Rightarrow> nat" where
  "device_weights P = (\<Sum>r \<in> dom (MyNodes P). unat (heap_weight P (the (MyNodes P r))))"

text \<open>The devices behind distinct signers are distinct, so their weights add up to at most the total.\<close>

lemma devices_sign_unique:
  assumes "devices_ok N rid sid P" "inj_on rid N" "MyNodeByNodeSignIDs P i = Some p" "MyNodeByNodeSignIDs P j = Some p"
  shows "i = j"
proof -
  obtain m n where "m \<in> N" "n \<in> N" "i = sid m" "MyNodes P (rid m) = Some p" "j = sid n" "MyNodes P (rid n) = Some p"
    using devices_okD(2) [OF assms(1,3)] devices_okD(2) [OF assms(1,4)] by blast
  with devices_same_node [OF assms(1)] inj_onD [OF assms(2)] show ?thesis by blast
qed

lemma device_weights_addresses:
  assumes "devices_ok N rid sid P"
  shows "device_weights P = (\<Sum>p \<in> ran (MyNodes P). unat (heap_weight P p))"
proof -
  have "inj_on (\<lambda>r. the (MyNodes P r)) (dom (MyNodes P))"
    using devices_same_node [OF assms] by (auto simp: inj_on_def)
  moreover have "ran (MyNodes P) = (\<lambda>r. the (MyNodes P r)) ` dom (MyNodes P)"
    by (force simp: ran_def image_def)
  ultimately show ?thesis by (simp add: device_weights_def sum.reindex)
qed

lemma signer_weights_bound:
  assumes ok: "devices_ok N rid sid P" and inj: "inj_on rid N" and fin: "finite S"
  shows "(\<Sum>i \<in> S. unat (node_weight P i)) \<le> device_weights P"
proof -
  let ?S = "{i \<in> S. MyNodeByNodeSignIDs P i \<noteq> None}" and ?f = "\<lambda>i. the (MyNodeByNodeSignIDs P i)"
  have inj_f: "inj_on ?f ?S"
    using devices_sign_unique [OF ok inj] by (auto simp: inj_on_def)
  have sub: "?f ` ?S \<subseteq> ran (MyNodes P)"
    using devices_okD(2) [OF ok] by (fastforce simp: ran_def)
  have fin_ran: "finite (ran (MyNodes P))" by (rule finite_ran) simp
  have "(\<Sum>i \<in> S. unat (node_weight P i)) = (\<Sum>i \<in> ?S. unat (node_weight P i))"
    using fin by (intro sum.mono_neutral_right) (auto simp: node_weight_def)
  also have "\<dots> = (\<Sum>i \<in> ?S. unat (heap_weight P (?f i)))"
    by (intro sum.cong) (auto simp: node_weight_def heap_weight_def)
  also have "\<dots> = (\<Sum>p \<in> ?f ` ?S. unat (heap_weight P p))" by (rule sum.reindex_cong [OF inj_f refl refl, symmetric])
  also have "\<dots> \<le> (\<Sum>p \<in> ran (MyNodes P). unat (heap_weight P p))" using sub fin_ran by (intro sum_mono2) simp_all
  finally show ?thesis using device_weights_addresses [OF ok] by simp
qed

lemma total_weight_nat:
  assumes "devices_ok N rid sid P" "device_weights P < 2 ^ 32"
  shows "unat (totalWeight P) = device_weights P" "unat (Quorum P) = device_weights P div 2 + 1"
proof -
  have "unat (total_of P) = device_weights P"
    unfolding total_of_def device_weights_def using assms(2) by (intro unat_sum_word) (simp_all add: device_weights_def)
  then show t: "unat (totalWeight P) = device_weights P" using devices_okD(3) [OF assms(1)] by simp
  have "device_weights P div 2 + 1 < 2 ^ 32" using assms(2) by simp
  then show "unat (Quorum P) = device_weights P div 2 + 1"
    unfolding Quorum_def using t by (simp add: unat_word_ariths)
qed

lemma accepted_weight:
  assumes ok: "devices_ok N rid sid P" "inj_on rid N" and small: "device_weights P < 2 ^ 32"
    and acc: "distinct (map sign_ID ss)" "IsValidInternalOplog P ss = (m, w, True)"
  shows "device_weights P div 2 + 1 \<le> (\<Sum>i \<in> sign_ID ` set ss. unat (node_weight P i))"
proof -
  have b: "(\<Sum>i \<in> sign_ID ` set ss. unat (node_weight P i)) < 2 ^ 32"
    using signer_weights_bound [OF ok, of "sign_ID ` set ss"] small by simp
  have "unat (sign_weight P ss) = (\<Sum>i \<in> sign_ID ` set ss. unat (node_weight P i))"
    unfolding sign_weight_distinct [OF acc(1)] by (rule unat_sum_word [OF _ b]) simp
  moreover have "Quorum P \<le> sign_weight P ss" using acc(2) by (simp add: IsValidInternalOplog_def Let_def split: if_splits)
  ultimately show ?thesis using total_weight_nat(2) [OF ok(1) small] by (simp add: word_le_nat_alt)
qed

subsection \<open>Properties\<close>

text \<open>
  C3: two device quorums share a device. In every table reached by adding and removing
  nodes, whose raft and signing identifiers do not collide and whose weights fit 32 bits, the running total is the
  sum of the weights, and two lists of distinct signers that \<^verbatim>\<open>IsValidInternalOplog\<close> both accepts have a registered
  device of positive weight in common.
\<close>

theorem quorums_intersect:
  assumes "devices N rid sid P" "inj_on rid N" "inj_on sid N" "device_weights P < 2 ^ 32"
    and "distinct (map sign_ID as)" "IsValidInternalOplog P as = (m1, w1, True)"
    and "distinct (map sign_ID bs)" "IsValidInternalOplog P bs = (m2, w2, True)"
  shows "unat (totalWeight P) = device_weights P \<and>
    (\<exists>i. i \<in> sign_ID ` set as \<and> i \<in> sign_ID ` set bs \<and> 0 < node_weight P i)"
proof -
  have ok: "devices_ok N rid sid P" using devices_reach_ok assms(1-3) .
  let ?w = "\<lambda>S. \<Sum>i \<in> S. unat (node_weight P i)" and ?A = "sign_ID ` set as" and ?B = "sign_ID ` set bs"
  have "?w ?A + ?w ?B = ?w (?A \<union> ?B) + ?w (?A \<inter> ?B)" by (simp add: sum.union_inter)
  moreover have "?w (?A \<union> ?B) \<le> device_weights P" using signer_weights_bound [OF ok assms(2)] by simp
  moreover have "device_weights P div 2 + 1 \<le> ?w ?A" "device_weights P div 2 + 1 \<le> ?w ?B"
    using accepted_weight [OF ok assms(2,4)] assms(5-8) by blast+
  ultimately have "0 < ?w (?A \<inter> ?B)" by linarith
  then have "\<exists>i \<in> ?A \<inter> ?B. 0 < unat (node_weight P i)" by (metis (no_types, lifting) not_gr_zero sum.neutral)
  then obtain i where i: "i \<in> ?A" "i \<in> ?B" "0 < unat (node_weight P i)" by blast
  then have "0 < node_weight P i" by (simp add: word_less_nat_alt)
  with i total_weight_nat(1) [OF ok assms(4)] show ?thesis by blast
qed

definition example_rid :: "NodeID \<Rightarrow> u64" where
  "example_rid n = (if n = [1] then 1 else if n = [2] then 2 else 3)"

definition example_node :: "byte \<Rightarrow> MyNode" where
  "example_node b = \<lparr>node_NodeID = [b], node_Weight = 2, node_Status = StatusInternalPending\<rparr>"

definition example_devices :: my_pm where
  "example_devices = \<lparr>mp_heap = [0 \<mapsto> example_node 1, 1 \<mapsto> example_node 2, 2 \<mapsto> example_node 3], mp_next = 3,
     MyNodes = [1 \<mapsto> 0, 2 \<mapsto> 1, 3 \<mapsto> 2], MyNodeByNodeSignIDs = [[1] \<mapsto> 0, [2] \<mapsto> 1, [3] \<mapsto> 2],
     totalWeight = 6, mp_masterLogID = None\<rparr>"

lemma example_devices_reached: "devices {[1], [2], [3]} example_rid (\<lambda>n. n) example_devices"
proof -
  let ?d = "devices {[1], [2], [3]} example_rid (\<lambda>n. n)" and ?set = "\<lambda>n. set_my_node (example_rid n) n 2 (Ret n)"
  have a: "?d P \<Longrightarrow> n \<in> {[1], [2], [3]} \<Longrightarrow> ?d (snd (?set n P))" for P n
    by (rule devices.add [where n = n and w = 2 and r = "fst (?set n P)"]) simp_all
  have "?d (snd (?set [3] (snd (?set [2] (snd (?set [1] no_devices))))))"
    by (intro a devices.none) simp_all
  also have "snd (?set [3] (snd (?set [2] (snd (?set [1] no_devices))))) = example_devices"
    by (simp add: set_my_node_def Let_def no_devices_def example_rid_def example_devices_def example_node_def
        StatusInternalPending_def StatusInit_def numeral_2_eq_2 numeral_3_eq_3)
  finally show ?thesis .
qed

definition example_sign :: "byte \<Rightarrow> SignInfo" where
  "example_sign b = \<lparr>sign_ID = [b], sign_CreateTS = ZeroTimestamp, sign_Hash = [], sign_Salt = [], sign_Sig = [],
     sign_Pubkey = [], sign_Extra = None\<rparr>"

theorem quorums_intersect_witness:
  "IsValidInternalOplog example_devices [example_sign 1, example_sign 2] = (None, 4, True) \<and>
   IsValidInternalOplog example_devices [example_sign 2, example_sign 3] = (None, 4, True) \<and>
   (\<exists>i. i \<in> sign_ID ` set [example_sign 1, example_sign 2] \<and> i \<in> sign_ID ` set [example_sign 2, example_sign 3] \<and>
     0 < node_weight example_devices i)"
proof -
  let ?P = example_devices
  have w: "node_weight ?P [1] = 2" "node_weight ?P [2] = 2" "node_weight ?P [3] = 2"
    by (simp_all add: node_weight_def example_devices_def example_node_def)
  have a: "IsValidInternalOplog ?P [example_sign 1, example_sign 2] = (None, 4, True)"
    and b: "IsValidInternalOplog ?P [example_sign 2, example_sign 3] = (None, 4, True)"
    by (simp_all add: IsValidInternalOplog_def sign_weight_def example_sign_def w Quorum_def) (simp_all add: example_devices_def)
  have i: "inj_on example_rid {[1], [2], [3]}" "inj_on (\<lambda>n. n) {[1], [2], [3 :: byte]}"
    by (simp_all add: example_rid_def)
  have d: "device_weights ?P < 2 ^ 32"
    by (simp add: device_weights_def example_devices_def heap_weight_def example_node_def)
  have "distinct (map sign_ID [example_sign 1, example_sign 2])" "distinct (map sign_ID [example_sign 2, example_sign 3])"
    by (simp_all add: example_sign_def)
  from quorums_intersect [OF example_devices_reached i d this(1) a this(2) b] a b show ?thesis by blast
qed

text \<open>The newest master log identifier survives a restart.\<close>

lemma newest_master_log_reloaded:
  assumes "no_fault db" "length theID = SizePttID"
  shows "case SetNewestMasterLogID entityID (Some theID) (pm, db) of (r, pm', db') \<Rightarrow>
    r = Ret () \<and> newestMasterLogID pm' = Some theID \<and> loadNewestMasterLogID entityID db' = Ret (Some theID)"
  using assms
  by (simp add: SetNewestMasterLogID_def saveNewestMasterLogID_def loadNewestMasterLogID_def db_error_def Concat_eq
      Ldb_Put_def Ldb_Get_def no_fault_def Let_def)

text \<open>The hash of the first master log is written once.\<close>

lemma master_log0_hash_fixed:
  "hash = Some h \<Longrightarrow> SetMasterLog0Hash entityID theBytes (hash, db) = (Ret (), Some h, db)"
  by (simp add: SetMasterLog0Hash_def)

text \<open>A signer that is listed twice is counted twice, so one device can pass for a quorum.\<close>

lemma duplicate_signer_counted:
  assumes "MyNodeByNodeSignIDs P i = Some p" "mp_heap P p = Some n" "sign_ID s = i"
  shows "sign_weight P [s, s] = 2 * node_Weight n"
  using assms by (simp add: sign_weight_def node_weight_def)

lemma duplicate_master_counted:
  assumes "sign_ID s = i" "masters pm i \<noteq> None" "card (dom (masters pm)) = 2"
  shows "defaultIsValidOplog [s, s] pm = (newestMasterLogID pm, 2, True)"
  using assms by (simp add: defaultIsValidOplog_def)

end
