(* ===== verification/Oplog_Handlers.thy ===== *)
theory Oplog_Handlers
  imports Oplog_Stores Log_Signers
begin

text \<open>
  Handling log entries that arrive from peers (\<^verbatim>\<open>service/protocol_handle_oplogs.go\<close>,
  \<^verbatim>\<open>service/protocol_manager_utils_oplog.go\<close>): a list is trimmed and verified, then each entry is locked, compared with
  the stored version, processed and saved.

  The functions a caller passes in stay parameters: \<open>processLog\<close> applies an entry to the objects of the entity,
  \<open>processPendingLog\<close> does so for a pending one, \<open>postprocessLogs\<close> broadcasts. They act on the handler's state:
  the process information (a type variable), the store of the log, and what signing uses. An entry is
  passed by pointer in Go, so such a function also returns the entry it was given.
\<close>

subsection \<open>Definitions\<close>

record 'i hctx =
  hx_info :: 'i
  hx_store :: log_store
  hx_sign :: sign_ctx

type_synonym 'i process_log = "BaseOplog \<Rightarrow> 'i hctx \<Rightarrow> BaseOplog list res \<times> BaseOplog \<times> 'i hctx"
type_synonym 'i process_pending = "BaseOplog \<Rightarrow> 'i hctx \<Rightarrow> (bool \<times> BaseOplog list) res \<times> BaseOplog \<times> 'i hctx"
type_synonym 'i postprocess = "BaseOplog list \<Rightarrow> bool \<Rightarrow> 'i hctx \<Rightarrow> 'i hctx"

text \<open>\<^verbatim>\<open>err := oplog.Lock()\<close> with \<^verbatim>\<open>defer oplog.Unlock()\<close>.\<close>

definition entry_lock ::
  "lock_env \<Rightarrow> (BaseOplog \<Rightarrow> 'i hctx \<Rightarrow> 'a res \<times> BaseOplog \<times> 'i hctx) \<Rightarrow> BaseOplog \<Rightarrow> 'i hctx \<Rightarrow>
   'a res \<times> BaseOplog \<times> 'i hctx" where
  "entry_lock env body o1 h =
     (let s = hx_store h
      in case LM_Lock env (ls_lock s) (Some (log_ID o1)) of
           Ret (None, l) \<Rightarrow>
             (case body o1 (h\<lparr>hx_store := s\<lparr>ls_lock := l\<rparr>\<rparr>) of
                (r, o2, h2) \<Rightarrow>
                  (r, o2, h2\<lparr>hx_store := (hx_store h2)\<lparr>ls_lock :=
                     (case LM_Unlock (ls_lock (hx_store h2)) (Some (log_ID o1)) of
                        Ret l2 \<Rightarrow> l2 | _ \<Rightarrow> ls_lock (hx_store h2))\<rparr>\<rparr>))
         | Ret (Some e, l) \<Rightarrow> (Fail e, o1, h\<lparr>hx_store := s\<lparr>ls_lock := l\<rparr>\<rparr>)
         | _ \<Rightarrow> (Panic, o1, h))"

definition save_entry :: "op_env \<Rightarrow> lock_env \<Rightarrow> oplog_db \<Rightarrow> BaseOplog \<Rightarrow> 'i hctx \<Rightarrow> unit res \<times> BaseOplog \<times> 'i hctx" where
  "save_entry E env D o1 h =
     (case Oplog_Save E env D True o1 (hx_store h) of (r, o2, s2) \<Rightarrow> (r, o2, h\<lparr>hx_store := s2\<rparr>))"

definition process_and_save ::
  "op_env \<Rightarrow> lock_env \<Rightarrow> oplog_db \<Rightarrow> 'i process_log \<Rightarrow> bool \<Rightarrow> BaseOplog \<Rightarrow> 'i hctx \<Rightarrow>
   (bool \<times> BaseOplog list) res \<times> BaseOplog \<times> 'i hctx" where
  "process_and_save E env D processLog origIsSync o1 h =
     (case processLog o1 h of
        (Panic, o2, h2) \<Rightarrow> (Panic, o2, h2)
      | (r, o2, h2) \<Rightarrow>
          if r \<noteq> Fail (ServiceError S_ErrNewerOplog) \<and> (\<forall>x. r \<noteq> Ret x)
          then (case r of Fail e \<Rightarrow> (Fail e, o2, h2) | _ \<Rightarrow> (Panic, o2, h2))
          else
            (let isSync = log_IsSync o2;
                 origLogs = (case r of Ret logs \<Rightarrow> logs | _ \<Rightarrow> []);
                 o3 = (if r = Fail (ServiceError S_ErrNewerOplog) then o2\<lparr>log_IsSync := True\<rparr> else o2);
                 o4 = (if origIsSync then o3\<lparr>log_IsSync := origIsSync\<rparr> else o3)
             in case save_entry E env D o4 h2 of
                  (Panic, o5, h5) \<Rightarrow> (Panic, o5, h5)
                | (Fail e, o5, h5) \<Rightarrow>
                    if e \<noteq> DbError D_ErrInvalidUpdateTS then (Fail e, o5, h5) else (Ret (isSync, origLogs), o5, h5)
                | (Ret _, o5, h5) \<Rightarrow> (Ret (isSync, origLogs), o5, h5)))"

definition handle_locked ::
  "op_env \<Rightarrow> lock_env \<Rightarrow> oplog_db \<Rightarrow> 'i process_log \<Rightarrow> BaseOplog \<Rightarrow> 'i hctx \<Rightarrow>
   (bool \<times> BaseOplog list) res \<times> BaseOplog \<times> 'i hctx" where
  "handle_locked E env D processLog o1 h =
     (case SelectExisting E env D True o1 (hx_store h) of
        (Panic, o2, s2) \<Rightarrow> (Panic, o2, h\<lparr>hx_store := s2\<rparr>)
      | (Fail e, o2, s2) \<Rightarrow> (Fail e, o2, h\<lparr>hx_store := s2\<rparr>)
      | (Ret (_, _, Some e), o2, s2) \<Rightarrow> (Fail e, o2, h\<lparr>hx_store := s2\<rparr>)
      | (Ret (origIsSync, isToBroadcast, None), o2, s2) \<Rightarrow>
          if log_IsSync o2 then (Ret (isToBroadcast, []), o2, h\<lparr>hx_store := s2\<rparr>)
          else process_and_save E env D processLog origIsSync o2 (h\<lparr>hx_store := s2\<rparr>))"

definition handleOplog ::
  "op_env \<Rightarrow> lock_env \<Rightarrow> oplog_db \<Rightarrow> 'i process_log \<Rightarrow> BaseOplog \<Rightarrow> 'i hctx \<Rightarrow>
   (bool \<times> BaseOplog list) res \<times> BaseOplog \<times> 'i hctx" where
  "handleOplog E env D processLog = entry_lock env (handle_locked E env D processLog)"

text \<open>
  The loop of \<^verbatim>\<open>handleOplogs\<close>: an entry to skip is passed over, another error ends the loop, and \<^verbatim>\<open>err\<close> is what the last
  call left in it. A panic is \<open>Panic\<close>.
\<close>

fun handle_loop ::
  "op_env \<Rightarrow> lock_env \<Rightarrow> oplog_db \<Rightarrow> 'i process_log \<Rightarrow> BaseOplog list \<Rightarrow> go_error option \<Rightarrow> Timestamp \<Rightarrow> BaseOplog list \<Rightarrow>
   'i hctx \<Rightarrow> (Timestamp \<times> go_error option \<times> BaseOplog list) res \<times> 'i hctx" where
  "handle_loop E env D processLog [] err newestUpdateTS toBroadcastLogs h = (Ret (newestUpdateTS, err, toBroadcastLogs), h)"
| "handle_loop E env D processLog (o1 # oplogs) err newestUpdateTS toBroadcastLogs h =
     (case handleOplog E env D processLog o1 h of
        (Panic, o2, h2) \<Rightarrow> (Panic, h2)
      | (Fail e, o2, h2) \<Rightarrow>
          if e = ServiceError S_ErrSkipOplog
          then handle_loop E env D processLog oplogs (Some e) newestUpdateTS toBroadcastLogs h2
          else (Ret (newestUpdateTS, Some e, toBroadcastLogs), h2)
      | (Ret (isToBroadcast, origLogs), o2, h2) \<Rightarrow>
          handle_loop E env D processLog oplogs None
            (if IsLess newestUpdateTS (log_UpdateTS o2) then log_UpdateTS o2 else newestUpdateTS)
            (toBroadcastLogs @ origLogs @ (if isToBroadcast then [o2] else [])) h2)"

definition handleOplogs ::
  "op_env \<Rightarrow> lock_env \<Rightarrow> oplog_db \<Rightarrow> 'i process_log \<Rightarrow> 'i postprocess \<Rightarrow> BaseOplog list \<Rightarrow> 'i hctx \<Rightarrow>
   (Timestamp \<times> go_error option) res \<times> 'i hctx" where
  "handleOplogs E env D processLog postprocessLogs oplogs h =
     (case handle_loop E env D processLog oplogs None ZeroTimestamp [] h of
        (Ret (newestUpdateTS, err, toBroadcastLogs), h2) \<Rightarrow>
          (Ret (newestUpdateTS, err), postprocessLogs toBroadcastLogs False h2)
      | (Fail e, h2) \<Rightarrow> (Fail e, h2)
      | (Panic, h2) \<Rightarrow> (Panic, h2))"

subsubsection \<open>Preprocessing\<close>

definition checkPreOplog ::
  "op_env \<Rightarrow> lock_env \<Rightarrow> oplog_db \<Rightarrow> BaseOplog \<Rightarrow> BaseOplog \<Rightarrow> (PttID \<rightharpoonup> BaseOplog) \<Rightarrow> log_store \<Rightarrow>
   unit res \<times> BaseOplog \<times> (PttID \<rightharpoonup> BaseOplog) \<times> log_store" where
  "checkPreOplog E env D o1 prelog existIDs s =
     (case log_PreLogID o1 of
        None \<Rightarrow> (Ret (), prelog, existIDs(log_ID o1 \<mapsto> o1), s)
      | Some preLogID \<Rightarrow>
          if (case existIDs preLogID of None \<Rightarrow> False | Some l \<Rightarrow> log_MasterLogID l \<noteq> None)
          then (Ret (), prelog, existIDs(log_ID o1 \<mapsto> o1), s)
          else
            (case Oplog_Get E env D preLogID False prelog s of
               (Panic, prelog2, s2) \<Rightarrow> (Panic, prelog2, existIDs, s2)
             | (Fail _, prelog2, s2) \<Rightarrow> (Fail (ServiceError S_ErrInvalidOplog), prelog2, existIDs, s2)
             | (Ret _, prelog2, s2) \<Rightarrow>
                 if log_MasterLogID prelog2 = None
                 then (Fail (ServiceError S_ErrInvalidOplog), prelog2, existIDs, s2)
                 else (Ret (), prelog2, existIDs(log_ID o1 \<mapsto> o1), s2)))"

fun check_pre_loop ::
  "op_env \<Rightarrow> lock_env \<Rightarrow> oplog_db \<Rightarrow> BaseOplog list \<Rightarrow> BaseOplog \<Rightarrow> (PttID \<rightharpoonup> BaseOplog) \<Rightarrow> log_store \<Rightarrow>
   BaseOplog list res \<times> log_store" where
  "check_pre_loop E env D [] prelog existIDs s = (Ret [], s)"
| "check_pre_loop E env D (o1 # oplogs) prelog existIDs s =
     (case checkPreOplog E env D o1 prelog existIDs s of
        (Panic, _, _, s2) \<Rightarrow> (Panic, s2)
      | (Fail _, _, _, s2) \<Rightarrow> (Ret [], s2)
      | (Ret _, prelog2, existIDs2, s2) \<Rightarrow>
          (case check_pre_loop E env D oplogs prelog2 existIDs2 s2 of
             (r, s3) \<Rightarrow> (res_bind r (\<lambda>good. Ret (o1 # good)), s3)))"

fun verify_all :: "op_env \<Rightarrow> BaseOplog list \<Rightarrow> BaseOplog list res" where
  "verify_all E [] = Ret []"
| "verify_all E (o1 # oplogs) =
     (case Oplog_Verify E o1 of
        (Ret _, o2) \<Rightarrow> res_bind (verify_all E oplogs) (\<lambda>os. Ret (o2 # os))
      | (Fail e, _) \<Rightarrow> Fail e
      | (Panic, _) \<Rightarrow> Panic)"

definition expire_ts :: "op_env \<Rightarrow> Merkle option \<Rightarrow> log_store \<Rightarrow> Timestamp res" where
  "expire_ts E merkle s =
     res_bind (case merkle of None \<Rightarrow> Ret ZeroTimestamp | Some m \<Rightarrow> GetSyncTime (oe_merkle E) m (bt_db (ls_batch s)))
       (\<lambda>expireTS.
          if Ts expireTS \<ge> OffsetMerkleSyncTime then Ret (expireTS\<lparr>Ts := i64 (Ts expireTS - OffsetMerkleSyncTime)\<rparr>)
          else Ret ZeroTimestamp)"

text \<open>The entries from the first one after the expiry, and those up to the last one that is not in the future.\<close>

definition drop_expired :: "Timestamp \<Rightarrow> BaseOplog list \<Rightarrow> BaseOplog list" where
  "drop_expired expireTS oplogs = dropWhile (\<lambda>o1. \<not> IsLess expireTS (log_UpdateTS o1)) oplogs"

definition drop_future :: "Timestamp \<Rightarrow> BaseOplog list \<Rightarrow> BaseOplog list" where
  "drop_future now oplogs = rev (dropWhile (\<lambda>o1. \<not> IsLess (log_UpdateTS o1) now) (rev oplogs))"

definition preprocessOplogs ::
  "op_env \<Rightarrow> lock_env \<Rightarrow> oplog_db \<Rightarrow> Timestamp res \<Rightarrow> bool \<Rightarrow> Merkle option \<Rightarrow> BaseOplog list \<Rightarrow> log_store \<Rightarrow>
   BaseOplog list res \<times> log_store" where
  "preprocessOplogs E env D getTS isPending merkle oplogs s =
     (case res_bind getTS (\<lambda>now. res_bind (expire_ts E merkle s) (\<lambda>expireTS. Ret (now, expireTS))) of
        Fail e \<Rightarrow> (Fail e, s)
      | Panic \<Rightarrow> (Panic, s)
      | Ret (now, expireTS) \<Rightarrow>
          (let oplogs1 = (if isPending then drop_expired expireTS oplogs else oplogs);
               oplogs2 = drop_future now oplogs1
           in if oplogs2 = [] then (Ret [], s)
              else
                (case verify_all E (map (\<lambda>o1. o1\<lparr>log_IsSync := False\<rparr>) oplogs2) of
                   Fail e \<Rightarrow> (Fail e, s)
                 | Panic \<Rightarrow> (Panic, s)
                 | Ret oplogs3 \<Rightarrow> check_pre_loop E env D oplogs3 zero_oplog Map.empty s)))"

definition save_sync_time :: "op_env \<Rightarrow> Timestamp \<Rightarrow> log_store \<Rightarrow> go_error option \<times> log_store" where
  "save_sync_time E ts s =
     (case ls_merkle s of
        None \<Rightarrow> (None, s)
      | Some m \<Rightarrow>
          (case SaveSyncTime (oe_merkle E) ts m (bt_db (ls_batch s)) of
             (Ret m', db) \<Rightarrow> (None, s\<lparr>ls_merkle := Some m', ls_batch := (ls_batch s)\<lparr>bt_db := db\<rparr>\<rparr>)
           | (Fail e, db) \<Rightarrow>
               (if e = DbError D_ErrInvalidUpdateTS then None else Some e, s\<lparr>ls_batch := (ls_batch s)\<lparr>bt_db := db\<rparr>\<rparr>)
           | (Panic, db) \<Rightarrow> (None, s\<lparr>ls_batch := (ls_batch s)\<lparr>bt_db := db\<rparr>\<rparr>)))"

definition HandleOplogs ::
  "op_env \<Rightarrow> lock_env \<Rightarrow> oplog_db \<Rightarrow> Timestamp res \<Rightarrow> bool \<Rightarrow> 'i process_log \<Rightarrow> 'i postprocess \<Rightarrow> BaseOplog list \<Rightarrow> 'i hctx \<Rightarrow>
   unit res \<times> 'i hctx" where
  "HandleOplogs E env D getTS isUpdateSyncTime processLog postprocessLogs oplogs h =
     (if oplogs = [] then (Ret (), h)
      else
        (case preprocessOplogs E env D getTS False (ls_merkle (hx_store h)) oplogs (hx_store h) of
           (Panic, s1) \<Rightarrow> (Panic, h\<lparr>hx_store := s1\<rparr>)
         | (Fail e, s1) \<Rightarrow> (Fail e, h\<lparr>hx_store := s1\<rparr>)
         | (Ret oplogs1, s1) \<Rightarrow>
             if oplogs1 = [] then (Ret (), h\<lparr>hx_store := s1\<rparr>)
             else
               (case handleOplogs E env D processLog postprocessLogs oplogs1 (h\<lparr>hx_store := s1\<rparr>) of
                  (Ret (newestUpdateTS, err), h2) \<Rightarrow>
                    (case (if isUpdateSyncTime then save_sync_time E newestUpdateTS (hx_store h2) else (None, hx_store h2)) of
                       (err2, s3) \<Rightarrow>
                         (case err of
                            Some e \<Rightarrow> (Fail e, h2\<lparr>hx_store := s3\<rparr>)
                          | None \<Rightarrow>
                              (case err2 of Some e \<Rightarrow> (Fail e, h2\<lparr>hx_store := s3\<rparr>) | None \<Rightarrow> (Ret (), h2\<lparr>hx_store := s3\<rparr>))))
                | (Fail e, h2) \<Rightarrow> (Fail e, h2)
                | (Panic, h2) \<Rightarrow> (Panic, h2))))"

subsubsection \<open>Pending entries\<close>

definition IntegrateOplog ::
  "op_env \<Rightarrow> lock_env \<Rightarrow> oplog_db \<Rightarrow> BaseOplog \<Rightarrow> 'i hctx \<Rightarrow> (bool \<times> bool) res \<times> BaseOplog \<times> 'i hctx" where
  "IntegrateOplog E env D o1 h =
     (let g = sx_signer (hx_sign h)
      in case IntegrateExisting E env D (now_ts g) True o1 (hx_store h) of
           (Panic, o2, s2) \<Rightarrow> (Panic, o2, h\<lparr>hx_store := s2\<rparr>)
         | (Fail e, o2, s2) \<Rightarrow> (Fail e, o2, h\<lparr>hx_store := s2\<rparr>)
         | (Ret (_, _, Some e), o2, s2) \<Rightarrow> (Fail e, o2, h\<lparr>hx_store := s2\<rparr>)
         | (Ret (origIsSync, isToSign, None), o2, s2) \<Rightarrow>
             if \<not> isToSign then (Ret (origIsSync, False), o2, h\<lparr>hx_store := s2\<rparr>)
             else
               (case defaultValidateIntegrateSign E o2 ((hx_sign h)\<lparr>sx_signer := advance g\<rparr>) of
                  (Panic, o3, x3) \<Rightarrow> (Panic, o3, h\<lparr>hx_store := s2, hx_sign := x3\<rparr>)
                | (Fail e, o3, x3) \<Rightarrow> (Fail e, o3, h\<lparr>hx_store := s2, hx_sign := x3\<rparr>)
                | (Ret _, o3, x3) \<Rightarrow>
                    (let o4 = (if origIsSync then o3\<lparr>log_IsSync := origIsSync\<rparr> else o3)
                     in case save_entry E env D o4 (h\<lparr>hx_store := s2, hx_sign := x3\<rparr>) of
                          (r, o5, h5) \<Rightarrow>
                            (res_bind r (\<lambda>_. Ret (origIsSync, True)), o5\<lparr>log_IsSync := log_IsSync o3\<rparr>, h5))))"

definition process_pending_and_save ::
  "op_env \<Rightarrow> lock_env \<Rightarrow> oplog_db \<Rightarrow> 'i process_pending \<Rightarrow> bool \<Rightarrow> bool \<Rightarrow> BaseOplog \<Rightarrow> 'i hctx \<Rightarrow>
   (bool \<times> BaseOplog list) res \<times> BaseOplog \<times> 'i hctx" where
  "process_pending_and_save E env D processPendingLog origIsSync isNewSign o1 h =
     (case processPendingLog o1 h of
        (Panic, o2, h2) \<Rightarrow> (Panic, o2, h2)
      | (Fail e, o2, h2) \<Rightarrow>
          (Fail (if e = ServiceError S_ErrNewerOplog then ServiceError S_ErrSkipOplog else e), o2, h2)
      | (Ret (isToSign, origLogs), o2, h2) \<Rightarrow>
          (case (if isToSign then defaultInternalSign E o2 (hx_sign h2) else (Ret False, o2, hx_sign h2)) of
             (Panic, o3, x3) \<Rightarrow> (Panic, o3, h2\<lparr>hx_sign := x3\<rparr>)
           | (Fail e, o3, x3) \<Rightarrow> (Fail e, o3, h2\<lparr>hx_sign := x3\<rparr>)
           | (Ret _, o3, x3) \<Rightarrow>
               (case save_entry E env D (if origIsSync then o3\<lparr>log_IsSync := origIsSync\<rparr> else o3) (h2\<lparr>hx_sign := x3\<rparr>) of
                  (Panic, o4, h4) \<Rightarrow> (Panic, o4, h4)
                | (Fail e, o4, h4) \<Rightarrow>
                    if e = DbError D_ErrInvalidUpdateTS then (Ret (isNewSign \<or> isToSign, origLogs), o4, h4) else (Fail e, o4, h4)
                | (Ret _, o4, h4) \<Rightarrow> (Ret (isNewSign \<or> isToSign, origLogs), o4, h4))))"

definition handlePendingOplog ::
  "op_env \<Rightarrow> lock_env \<Rightarrow> oplog_db \<Rightarrow> 'i process_pending \<Rightarrow> 'i process_log \<Rightarrow> BaseOplog \<Rightarrow> 'i hctx \<Rightarrow>
   (bool \<times> BaseOplog list) res \<times> BaseOplog \<times> 'i hctx" where
  "handlePendingOplog E env D processPendingLog processLog =
     entry_lock env (\<lambda>o1 h.
       case IntegrateOplog E env D o1 h of
         (Panic, o2, h2) \<Rightarrow> (Panic, o2, h2)
       | (Fail e, o2, h2) \<Rightarrow> (Fail e, o2, h2)
       | (Ret (origIsSync, isNewSign), o2, h2) \<Rightarrow>
           if log_IsSync o2 then
             (if isNewSign then
                (case save_entry E env D o2 h2 of
                   (Panic, o3, h3) \<Rightarrow> (Panic, o3, h3)
                 | (Fail e, o3, h3) \<Rightarrow> (Fail e, o3, h3)
                 | (Ret _, o3, h3) \<Rightarrow> (Ret (isNewSign, []), o3, h3))
              else (Ret (isNewSign, []), o2, h2))
           else if log_MasterLogID o2 \<noteq> None then
             (case processLog o2 h2 of
                (Panic, o3, h3) \<Rightarrow> (Panic, o3, h3)
              | (Fail e, o3, h3) \<Rightarrow>
                  if e = ServiceError S_ErrNewerOplog then (Ret (True, []), o3\<lparr>log_IsSync := True\<rparr>, h3) else (Fail e, o3, h3)
              | (Ret origLogs, o3, h3) \<Rightarrow> (Ret (True, origLogs), o3, h3))
           else process_pending_and_save E env D processPendingLog origIsSync isNewSign o2 h2)"

fun handle_pending_loop ::
  "op_env \<Rightarrow> lock_env \<Rightarrow> oplog_db \<Rightarrow> 'i process_pending \<Rightarrow> 'i process_log \<Rightarrow> BaseOplog list \<Rightarrow> go_error option \<Rightarrow> BaseOplog list \<Rightarrow>
   'i hctx \<Rightarrow> (go_error option \<times> BaseOplog list) res \<times> 'i hctx" where
  "handle_pending_loop E env D processPendingLog processLog [] err toBroadcastLogs h = (Ret (err, toBroadcastLogs), h)"
| "handle_pending_loop E env D processPendingLog processLog (o1 # oplogs) err toBroadcastLogs h =
     (case handlePendingOplog E env D processPendingLog processLog o1 h of
        (Panic, o2, h2) \<Rightarrow> (Panic, h2)
      | (Fail e, o2, h2) \<Rightarrow>
          if e = ServiceError S_ErrSkipOplog
          then handle_pending_loop E env D processPendingLog processLog oplogs (Some e) toBroadcastLogs h2
          else (Ret (Some e, toBroadcastLogs), h2)
      | (Ret (isToBroadcast, origLogs), o2, h2) \<Rightarrow>
          handle_pending_loop E env D processPendingLog processLog oplogs None
            (toBroadcastLogs @ origLogs @ (if isToBroadcast then [o2] else [])) h2)"

definition handlePendingOplogs ::
  "op_env \<Rightarrow> lock_env \<Rightarrow> oplog_db \<Rightarrow> 'i process_pending \<Rightarrow> 'i process_log \<Rightarrow> 'i postprocess \<Rightarrow> BaseOplog list \<Rightarrow> 'i hctx \<Rightarrow>
   unit res \<times> 'i hctx" where
  "handlePendingOplogs E env D processPendingLog processLog postprocessLogs oplogs h =
     (case handle_pending_loop E env D processPendingLog processLog oplogs None [] h of
        (Ret (err, toBroadcastLogs), h2) \<Rightarrow>
          (case err of None \<Rightarrow> Ret () | Some e \<Rightarrow> Fail e, postprocessLogs toBroadcastLogs True h2)
      | (Fail e, h2) \<Rightarrow> (Fail e, h2)
      | (Panic, h2) \<Rightarrow> (Panic, h2))"

definition HandlePendingOplogs ::
  "op_env \<Rightarrow> lock_env \<Rightarrow> oplog_db \<Rightarrow> Timestamp res \<Rightarrow> 'i process_pending \<Rightarrow> 'i process_log \<Rightarrow> 'i postprocess \<Rightarrow> BaseOplog list \<Rightarrow>
   'i hctx \<Rightarrow> unit res \<times> 'i hctx" where
  "HandlePendingOplogs E env D getTS processPendingLog processLog postprocessLogs oplogs h =
     (if oplogs = [] then (Ret (), h)
      else
        (case preprocessOplogs E env D getTS True None oplogs (hx_store h) of
           (Panic, s1) \<Rightarrow> (Panic, h\<lparr>hx_store := s1\<rparr>)
         | (Fail e, s1) \<Rightarrow> (Fail e, h\<lparr>hx_store := s1\<rparr>)
         | (Ret oplogs1, s1) \<Rightarrow>
             if oplogs1 = [] then (Ret (), h\<lparr>hx_store := s1\<rparr>)
             else handlePendingOplogs E env D processPendingLog processLog postprocessLogs oplogs1 (h\<lparr>hx_store := s1\<rparr>)))"

subsubsection \<open>Failed entries and clean-up\<close>

fun handle_failed_loop ::
  "op_env \<Rightarrow> lock_env \<Rightarrow> oplog_db \<Rightarrow> (BaseOplog \<Rightarrow> 'i hctx \<Rightarrow> unit res \<times> BaseOplog \<times> 'i hctx) \<Rightarrow> BaseOplog list \<Rightarrow> 'i hctx \<Rightarrow>
   unit res \<times> 'i hctx" where
  "handle_failed_loop E env D handleFailed [] h = (Ret (), h)"
| "handle_failed_loop E env D handleFailed (o1 # oplogs) h =
     (case handleFailed o1 h of
        (Panic, o2, h2) \<Rightarrow> (Panic, h2)
      | (Fail _, o2, h2) \<Rightarrow> handle_failed_loop E env D handleFailed oplogs h2
      | (Ret _, o2, h2) \<Rightarrow>
          (case Oplog_Delete E env D False o2 (hx_store h2) of
             (Panic, o3, s3) \<Rightarrow> (Panic, h2\<lparr>hx_store := s3\<rparr>)
           | (_, o3, s3) \<Rightarrow> handle_failed_loop E env D handleFailed oplogs (h2\<lparr>hx_store := s3\<rparr>)))"

definition HandleFailedOplogs ::
  "op_env \<Rightarrow> lock_env \<Rightarrow> oplog_db \<Rightarrow> (BaseOplog \<Rightarrow> 'i hctx \<Rightarrow> unit res \<times> BaseOplog \<times> 'i hctx) \<Rightarrow> BaseOplog list \<Rightarrow> 'i hctx \<Rightarrow>
   unit res \<times> 'i hctx" where
  "HandleFailedOplogs E env D handleFailedOplog oplogs h = handle_failed_loop E env D handleFailedOplog oplogs h"

definition HandleFailedValidOplogs ::
  "op_env \<Rightarrow> lock_env \<Rightarrow> oplog_db \<Rightarrow> (BaseOplog \<Rightarrow> 'i hctx \<Rightarrow> unit res \<times> BaseOplog \<times> 'i hctx) \<Rightarrow> ('i hctx \<Rightarrow> 'i hctx) \<Rightarrow>
   BaseOplog list \<Rightarrow> 'i hctx \<Rightarrow> unit res \<times> 'i hctx" where
  "HandleFailedValidOplogs E env D handleFailedValidOplog postprocessLogs oplogs h =
     (case handle_failed_loop E env D handleFailedValidOplog oplogs h of
        (Ret _, h2) \<Rightarrow> (Ret (), postprocessLogs h2)
      | (r, h2) \<Rightarrow> (r, h2))"

definition is_pending_for :: "bool \<Rightarrow> Timestamp \<Rightarrow> BaseOplog \<Rightarrow> bool" where
  "is_pending_for wanted expireTime l \<longleftrightarrow> \<not> IsLess (log_CreateTS l) expireTime \<and> wanted"

definition GetPendingOplogs ::
  "op_env \<Rightarrow> lock_env \<Rightarrow> oplog_db \<Rightarrow> Timestamp res \<Rightarrow> bool \<Rightarrow> bool \<Rightarrow> bool \<Rightarrow> log_store \<Rightarrow>
   (BaseOplog list \<times> BaseOplog list) res \<times> log_store" where
  "GetPendingOplogs E env D getTS isMyPeer isMasterPeer isGetAll =
     res_then getTS (\<lambda>ts s.
       let expireTime = ts\<lparr>Ts := i64 (Ts ts - ExpireOplogSeconds)\<rparr>
       in st_bind (GetOplogList E env D None 0 ListOrderNext StatusPending False) (\<lambda>pendingLogs.
            st_bind (GetOplogList E env D None 0 ListOrderNext StatusInternalPending False) (\<lambda>internalPendingLogs s.
              let expired = \<lambda>l. IsLess (log_CreateTS l) expireTime
              in (Ret (filter (is_pending_for (isMasterPeer \<or> isGetAll) expireTime) pendingLogs @
                       filter (is_pending_for (isMyPeer \<or> isGetAll) expireTime) internalPendingLogs,
                       filter expired pendingLogs @ filter expired internalPendingLogs), s))) s)"

text \<open>The loop of \<^verbatim>\<open>CleanOplog\<close> over one prefix; \<open>o1\<close> is the entry it decodes into again and again.\<close>

fun clean_loop ::
  "op_env \<Rightarrow> lock_env \<Rightarrow> oplog_db \<Rightarrow> kv_list \<Rightarrow> BaseOplog \<Rightarrow> log_store \<Rightarrow> BaseOplog \<times> log_store" where
  "clean_loop E env D [] o1 s = (o1, s)"
| "clean_loop E env D ((k, v) # kvs) o1 s =
     (case oe_dec E v o1 of
        None \<Rightarrow> clean_loop E env D kvs o1 (s\<lparr>ls_batch := (ls_batch s)\<lparr>bt_db := snd (Ldb_Delete k (bt_db (ls_batch s)))\<rparr>\<rparr>)
      | Some o2 \<Rightarrow> (case Oplog_Delete E env D True o2 s of (_, o3, s3) \<Rightarrow> clean_loop E env D kvs o3 s3))"

definition clean_status ::
  "op_env \<Rightarrow> lock_env \<Rightarrow> oplog_db \<Rightarrow> Status \<Rightarrow> BaseOplog \<Rightarrow> log_store \<Rightarrow> BaseOplog res \<times> log_store" where
  "clean_status E env D status o1 s =
     (case GetOplogIterWithOplog E env D None ListOrderNext status False s of
        (Ret iter, s2) \<Rightarrow> (case clean_loop E env D (visited ListOrderNext iter) o1 s2 of (o2, s3) \<Rightarrow> (Ret o2, s3))
      | (Fail e, s2) \<Rightarrow> (Fail e, s2)
      | (Panic, s2) \<Rightarrow> (Panic, s2))"

definition CleanOplog :: "op_env \<Rightarrow> lock_env \<Rightarrow> oplog_db \<Rightarrow> BaseOplog \<Rightarrow> log_store \<Rightarrow> BaseOplog res \<times> log_store" where
  "CleanOplog E env D o0 =
     st_bind (clean_status E env D StatusAlive o0) (\<lambda>o1.
     st_bind (clean_status E env D StatusPending o1) (\<lambda>o2.
     st_bind (clean_status E env D StatusInternalPending o2) (\<lambda>o3 s.
       case ls_merkle s of
         None \<Rightarrow> (Ret o3, s)
       | Some m \<Rightarrow> (Ret o3, s\<lparr>ls_batch := (ls_batch s)\<lparr>bt_db := Merkle_Clean m (bt_db (ls_batch s))\<rparr>\<rparr>))))"

fun merkle_list_loop :: "int \<Rightarrow> int \<Rightarrow> kv_list \<Rightarrow> MerkleNode list res" where
  "merkle_list_loop limit i [] = Ret []"
| "merkle_list_loop limit i ((k, v) # kvs) =
     (if 0 < limit \<and> i = limit then Ret []
      else case Node_Unmarshal v of
             Panic \<Rightarrow> Panic
           | Fail _ \<Rightarrow> merkle_list_loop limit i kvs
           | Ret n \<Rightarrow> res_bind (merkle_list_loop limit (i + 1) kvs) (\<lambda>ns. Ret (n # ns)))"

definition GetOplogMerkleNodeList ::
  "Merkle \<Rightarrow> MerkleTreeLevel \<Rightarrow> bytes \<Rightarrow> int \<Rightarrow> ListOrder \<Rightarrow> LDBDatabase \<Rightarrow> MerkleNode list res" where
  "GetOplogMerkleNodeList m level startKey limit listOrder db =
     res_bind (if startKey = [] then MarshalKey m level ZeroTimestamp else Ret startKey) (\<lambda>startKey.
     res_bind (GetMerkleIterByKey m startKey level listOrder db) (\<lambda>iter.
       merkle_list_loop limit 0 (drop (it_pos iter) (it_entries iter))))"

subsection \<open>One entry\<close>

text \<open>
  A run without other goroutines: the lock of an entry is free before and after. A function passed to the handlers is
  benign for a log if it leaves that log, its locks and the version of the entry alone; it accepts the entry or says that
  the object is newer.
\<close>

abbreviation alone :: lock_env where
  "alone \<equiv> \<lambda>_ l. l"

definition unlocked :: "PttID \<Rightarrow> log_store \<Rightarrow> bool" where
  "unlocked theID s \<longleftrightarrow> 0 < sleepTime (ls_lock s) \<and> lockMap (ls_lock s) theID = None"

definition same_log :: "op_env \<Rightarrow> oplog_db \<Rightarrow> 'i hctx \<Rightarrow> 'i hctx \<Rightarrow> bool" where
  "same_log E D h h2 \<longleftrightarrow>
     store_ok E D (hx_store h2) \<and> log_map E D (hx_store h2) = log_map E D (hx_store h) \<and>
     ls_lock (hx_store h2) = ls_lock (hx_store h)"

definition benign :: "op_env \<Rightarrow> oplog_db \<Rightarrow> 'i process_log \<Rightarrow> bool" where
  "benign E D processLog \<longleftrightarrow>
     (\<forall>o1 h r o2 h2. store_ok E D (hx_store h) \<longrightarrow> processLog o1 h = (r, o2, h2) \<longrightarrow>
        same_log E D h h2 \<and> log_ID o2 = log_ID o1 \<and> version o2 = version o1 \<and>
        (r = Fail (ServiceError S_ErrNewerOplog) \<or> (\<exists>logs. r = Ret logs)))"

lemma version_wf:
  "version o2 = version o1 \<Longrightarrow> log_ID o2 = log_ID o1 \<Longrightarrow> entry_wf o2 = entry_wf o1"
  "version o2 = version o1 \<Longrightarrow> (log_MasterLogID o2 = None) = (log_MasterLogID o1 = None)"
  by (simp_all add: version_def entry_wf_def)

lemma save_entry_valid:
  assumes "store_ok E D (hx_store h)" "log_db_ok D" "log_codec_ok E" "entry_wf o1" "log_MasterLogID o1 \<noteq> None"
  shows "\<exists>h2. save_entry E env D o1 h = (Ret (), o1\<lparr>log_IsNewer := False\<rparr>, h2) \<and> store_ok E D (hx_store h2) \<and>
    ls_lock (hx_store h2) = ls_lock (hx_store h) \<and>
    log_map E D (hx_store h2) = (log_map E D (hx_store h))(log_ID o1 \<mapsto> o1\<lparr>log_IsNewer := False\<rparr>)"
  using ForceSave_valid [OF assms, of env] by (auto simp: save_entry_def ForceSave_def)

lemma process_and_save_ok:
  assumes ok: "store_ok E D (hx_store h)" "log_db_ok D" "log_codec_ok E" "entry_wf o1" "log_MasterLogID o1 \<noteq> None"
    and pl: "benign E D processLog"
  shows "\<exists>r o2 h2 o3. process_and_save E env D processLog origIsSync o1 h = (Ret r, o2, h2) \<and> store_ok E D (hx_store h2) \<and>
    ls_lock (hx_store h2) = ls_lock (hx_store h) \<and> log_ID o2 = log_ID o1 \<and>
    log_map E D (hx_store h2) = (log_map E D (hx_store h))(log_ID o1 \<mapsto> o3) \<and> version o3 = version o1"
proof -
  obtain r o2 h2 where p: "processLog o1 h = (r, o2, h2)" by (metis prod_cases3)
  then have b: "same_log E D h h2" "log_ID o2 = log_ID o1" "version o2 = version o1"
    "r = Fail (ServiceError S_ErrNewerOplog) \<or> (\<exists>logs. r = Ret logs)"
    using pl ok(1) unfolding benign_def by blast+
  define o3 where "o3 = (if r = Fail (ServiceError S_ErrNewerOplog) then o2\<lparr>log_IsSync := True\<rparr> else o2)"
  define o4 where "o4 = (if origIsSync then o3\<lparr>log_IsSync := origIsSync\<rparr> else o3)"
  have o4: "log_ID o4 = log_ID o1" "version o4 = version o1"
    using b(2,3) by (auto simp: o4_def o3_def version_def)
  have "\<exists>h5. save_entry E env D o4 h2 = (Ret (), o4\<lparr>log_IsNewer := False\<rparr>, h5) \<and> store_ok E D (hx_store h5) \<and>
      ls_lock (hx_store h5) = ls_lock (hx_store h2) \<and>
      log_map E D (hx_store h5) = (log_map E D (hx_store h2))(log_ID o4 \<mapsto> o4\<lparr>log_IsNewer := False\<rparr>)"
    using b(1) ok(4,5) version_wf [OF o4(2)] o4(1)
    by (intro save_entry_valid ok(2,3)) (auto simp: same_log_def)
  then obtain h5 where s: "save_entry E env D o4 h2 = (Ret (), o4\<lparr>log_IsNewer := False\<rparr>, h5)" "store_ok E D (hx_store h5)"
    "ls_lock (hx_store h5) = ls_lock (hx_store h2)"
    "log_map E D (hx_store h5) = (log_map E D (hx_store h2))(log_ID o4 \<mapsto> o4\<lparr>log_IsNewer := False\<rparr>)"
    by blast
  have "\<exists>x. process_and_save E env D processLog origIsSync o1 h = (Ret x, o4\<lparr>log_IsNewer := False\<rparr>, h5)"
    using b(4)
  proof
    assume "r = Fail (ServiceError S_ErrNewerOplog)"
    then show ?thesis using s(1) by (cases origIsSync) (simp_all add: process_and_save_def p Let_def o4_def o3_def)
  next
    assume "\<exists>logs. r = Ret logs"
    then show ?thesis using s(1) by (cases origIsSync) (auto simp: process_and_save_def p Let_def o4_def o3_def)
  qed
  moreover have "version (o4\<lparr>log_IsNewer := False\<rparr>) = version o1" using o4(2) by (simp add: version_def)
  ultimately show ?thesis using b(1) s(2-4) o4(1) by (auto simp: same_log_def)
qed

text \<open>What is stored of an entry after a version of it has been handled.\<close>

definition winner :: "BaseOplog \<Rightarrow> BaseOplog option \<Rightarrow> BaseOplog" where
  "winner o1 stored = (case stored of None \<Rightarrow> o1 | Some orig \<Rightarrow> if supersedes o1 orig then o1 else orig)"

lemma handle_selected:
  assumes ok: "store_ok E D s" "log_db_ok D" "log_codec_ok E" "entry_wf o1" "log_MasterLogID o1 \<noteq> None"
    and coh: "\<And>orig. log_map E D s (log_ID o1) = Some orig \<Longrightarrow> log_Hash o1 = log_Hash orig \<Longrightarrow> version o1 = version orig"
  shows "\<exists>origIsSync isToBroadcast o2 s2. SelectExisting E env D True o1 s = (Ret (origIsSync, isToBroadcast, None), o2, s2) \<and>
    store_ok E D s2 \<and> ls_lock s2 = ls_lock s \<and> log_ID o2 = log_ID o1 \<and>
    version o2 = version (winner o1 (log_map E D s (log_ID o1))) \<and>
    (log_map E D s (log_ID o1) = None \<and> s2 = s \<and> log_IsSync o2 = log_IsSync o1 \<or>
     (\<exists>o3. log_map E D s2 = (log_map E D s)(log_ID o1 \<mapsto> o3) \<and> version o3 = version (winner o1 (log_map E D s (log_ID o1)))))"
proof (cases "log_map E D s (log_ID o1)")
  case None
  have "length (log_ID o1) = SizePttID" using ok(4) by (simp add: entry_wf_def)
  from SelectExisting_new [OF ok(1) this None] None ok(1) show ?thesis by (auto simp: winner_def)
next
  case (Some orig)
  from SelectExisting_found [OF ok Some, of env] obtain o2 s2 where f:
    "SelectExisting E env D True o1 s = (Ret (log_IsSync orig, supersedes o1 orig, None), o2, s2)"
    "store_ok E D s2" "ls_lock s2 = ls_lock s" "log_ID o2 = log_ID o1"
    "version o2 = (if supersedes o1 orig \<or> log_Hash o1 = log_Hash orig then version o1 else version orig)"
    "if supersedes o1 orig then \<exists>o3. log_map E D s2 = (log_map E D s)(log_ID o1 \<mapsto> o3) \<and> version o3 = version o1
     else log_map E D s2 = log_map E D s"
    by blast
  have w: "version o2 = version (winner o1 (log_map E D s (log_ID o1)))"
    using f(5) coh [OF Some] by (auto simp: winner_def Some supersedes_def)
  have "\<exists>o3. log_map E D s2 = (log_map E D s)(log_ID o1 \<mapsto> o3) \<and> version o3 = version (winner o1 (log_map E D s (log_ID o1)))"
  proof (cases "supersedes o1 orig")
    case True
    with f(6) Some show ?thesis by (simp add: winner_def)
  next
    case False
    with f(6) have "log_map E D s2 = (log_map E D s)(log_ID o1 \<mapsto> orig)" using Some by (simp add: fun_upd_idem)
    with False Some show ?thesis by (auto simp: winner_def)
  qed
  with f(1-4) w show ?thesis by blast
qed

lemma entry_lock_alone:
  assumes "unlocked (log_ID o1) (hx_store h)"
    and "body o1 (h\<lparr>hx_store := (hx_store h)\<lparr>ls_lock := (ls_lock (hx_store h))\<lparr>lockMap := (lockMap (ls_lock (hx_store h)))(log_ID o1 \<mapsto> -1)\<rparr>\<rparr>\<rparr>)
      = (r, o2, h2)"
    and "ls_lock (hx_store h2) = (ls_lock (hx_store h))\<lparr>lockMap := (lockMap (ls_lock (hx_store h)))(log_ID o1 \<mapsto> -1)\<rparr>"
  shows "entry_lock alone body o1 h = (r, o2, h2\<lparr>hx_store := (hx_store h2)\<lparr>ls_lock := ls_lock (hx_store h)\<rparr>\<rparr>)"
proof -
  let ?l = "ls_lock (hx_store h)"
  have "LM_Lock alone ?l (Some (log_ID o1)) = Ret (None, ?l\<lparr>lockMap := (lockMap ?l)(log_ID o1 \<mapsto> -1)\<rparr>)"
    using assms(1) by (simp add: unlocked_def LM_Lock_eq NIterLock_def numeral_eq_Suc LM_TryLock_def Let_def)
  moreover have "(lockMap ?l)(log_ID o1 := None) = lockMap ?l" using assms(1) by (simp add: unlocked_def fun_upd_idem)
  ultimately show ?thesis
    using assms(2,3) by (simp add: entry_lock_def LM_Unlock_def Let_def)
qed

text \<open>The stored version and an arriving one are comparable: equal hashes mean equal versions, and the stored one is valid.\<close>

definition comparable :: "BaseOplog \<Rightarrow> BaseOplog option \<Rightarrow> bool" where
  "comparable o1 stored \<longleftrightarrow>
     (\<forall>orig. stored = Some orig \<longrightarrow> entry_wf orig \<and> log_MasterLogID orig \<noteq> None \<and>
        (log_Hash o1 = log_Hash orig \<longrightarrow> version o1 = version orig))"

definition handled ::
  "op_env \<Rightarrow> oplog_db \<Rightarrow> BaseOplog \<Rightarrow> log_store \<Rightarrow> log_store \<Rightarrow> bool" where
  "handled E D o1 s s2 \<longleftrightarrow>
     store_ok E D s2 \<and> ls_lock s2 = ls_lock s \<and>
     (\<exists>o3. log_map E D s2 = (log_map E D s)(log_ID o1 \<mapsto> o3) \<and> version o3 = version (winner o1 (log_map E D s (log_ID o1))))"

lemma handle_locked_ok:
  assumes ok: "store_ok E D (hx_store h)" "log_db_ok D" "log_codec_ok E" "entry_wf o1" "log_MasterLogID o1 \<noteq> None"
    and pl: "benign E D processLog" and new: "\<not> log_IsSync o1" and cmp: "comparable o1 (log_map E D (hx_store h) (log_ID o1))"
  shows "\<exists>r o2 h2. handle_locked E env D processLog o1 h = (Ret r, o2, h2) \<and> handled E D o1 (hx_store h) (hx_store h2)"
proof -
  let ?A = "log_map E D (hx_store h)" and ?id = "log_ID o1"
  have coh: "?A ?id = Some orig \<Longrightarrow> log_Hash o1 = log_Hash orig \<Longrightarrow> version o1 = version orig" for orig
    using cmp by (simp add: comparable_def)
  obtain origIsSync isToBroadcast o2 s2 where sel:
    "SelectExisting E env D True o1 (hx_store h) = (Ret (origIsSync, isToBroadcast, None), o2, s2)"
    "store_ok E D s2" "ls_lock s2 = ls_lock (hx_store h)" "log_ID o2 = ?id" "version o2 = version (winner o1 (?A ?id))"
    "?A ?id = None \<and> s2 = hx_store h \<and> log_IsSync o2 = log_IsSync o1 \<or>
     (\<exists>o3. log_map E D s2 = ?A(?id \<mapsto> o3) \<and> version o3 = version (winner o1 (?A ?id)))"
    using handle_selected [OF ok coh, of env] by blast
  have win: "entry_wf (winner o1 (?A ?id))" "log_MasterLogID (winner o1 (?A ?id)) \<noteq> None"
    using ok(4,5) cmp by (auto simp: winner_def comparable_def split: option.split)
  have o2: "entry_wf o2" "log_MasterLogID o2 \<noteq> None"
    using sel(5) win ok(4) by (auto simp: entry_wf_def version_def sel(4))
  let ?h = "h\<lparr>hx_store := s2\<rparr>"
  show ?thesis
  proof (cases "log_IsSync o2")
    case True
    with sel(2,3,6) new have "handled E D o1 (hx_store h) s2" by (auto simp: handled_def)
    with True sel(1) show ?thesis by (auto simp: handle_locked_def)
  next
    case False
    have "store_ok E D (hx_store ?h)" using sel(2) by simp
    from process_and_save_ok [OF this ok(2,3) o2 pl, of env origIsSync] obtain r o4 h4 o3 where p:
      "process_and_save E env D processLog origIsSync o2 ?h = (Ret r, o4, h4)" "store_ok E D (hx_store h4)"
      "ls_lock (hx_store h4) = ls_lock s2" "log_map E D (hx_store h4) = (log_map E D s2)(?id \<mapsto> o3)" "version o3 = version o2"
      by (auto simp: sel(4))
    have "(log_map E D s2)(?id \<mapsto> o3) = ?A(?id \<mapsto> o3)" using sel(6) by auto
    with p sel(3,5) have "handled E D o1 (hx_store h) (hx_store h4)" by (auto simp: handled_def)
    with False sel(1) p(1) show ?thesis by (simp add: handle_locked_def)
  qed
qed

lemma handleOplog_ok:
  assumes ok: "store_ok E D (hx_store h)" "log_db_ok D" "log_codec_ok E" "entry_wf o1" "log_MasterLogID o1 \<noteq> None"
    and pl: "benign E D processLog" and new: "\<not> log_IsSync o1" and cmp: "comparable o1 (log_map E D (hx_store h) (log_ID o1))"
    and free: "unlocked (log_ID o1) (hx_store h)"
  shows "\<exists>r o2 h2. handleOplog E alone D processLog o1 h = (Ret r, o2, h2) \<and> handled E D o1 (hx_store h) (hx_store h2)"
proof -
  define l where "l = (ls_lock (hx_store h))\<lparr>lockMap := (lockMap (ls_lock (hx_store h)))(log_ID o1 \<mapsto> -1)\<rparr>"
  let ?h = "h\<lparr>hx_store := (hx_store h)\<lparr>ls_lock := l\<rparr>\<rparr>"
  have "store_ok E D (hx_store ?h)" "comparable o1 (log_map E D (hx_store ?h) (log_ID o1))" using ok(1) cmp by simp_all
  from handle_locked_ok [OF this(1) ok(2-5) pl new this(2), of alone] obtain r o2 h2 where
    b: "handle_locked E alone D processLog o1 ?h = (Ret r, o2, h2)" "handled E D o1 (hx_store ?h) (hx_store h2)"
    by blast
  have "ls_lock (hx_store h2) = l" using b(2) by (simp add: handled_def)
  from entry_lock_alone [where body = "handle_locked E alone D processLog", OF free, folded l_def, OF b(1) this] b(2) show ?thesis
    by (auto simp: handleOplog_def handled_def)
qed

subsection \<open>Convergence\<close>

text \<open>The versions of one entry are ordered by time, then by hash.\<close>

definition older :: "BaseOplog \<Rightarrow> BaseOplog \<Rightarrow> bool" where
  "older a b \<longleftrightarrow> log_UpdateTS a < log_UpdateTS b \<or> log_UpdateTS a = log_UpdateTS b \<and> log_Hash a \<le> log_Hash b"

lemma older_refl: "older a a" by (simp add: older_def)

lemma older_trans: "older a b \<Longrightarrow> older b c \<Longrightarrow> older a c"
  by (auto simp: older_def)

lemma older_version: "version a = version a' \<Longrightarrow> older a b = older a' b" "version b = version b' \<Longrightarrow> older a b = older a b'"
  by (simp_all add: older_def version_def)

definition versions_of :: "PttID \<Rightarrow> BaseOplog list \<Rightarrow> bool" where
  "versions_of theID os \<longleftrightarrow>
     (\<forall>a \<in> set os. log_ID a = theID \<and> entry_wf a \<and> log_MasterLogID a \<noteq> None \<and> \<not> log_IsSync a) \<and>
     (\<forall>a \<in> set os. \<forall>b \<in> set os. log_Hash a = log_Hash b \<longrightarrow> version a = version b)"

lemma versions_ofD:
  assumes "versions_of theID os" "a \<in> set os"
  shows "log_ID a = theID" "entry_wf a" "log_MasterLogID a \<noteq> None" "\<not> log_IsSync a"
    "b \<in> set os \<Longrightarrow> log_Hash a = log_Hash b \<Longrightarrow> version a = version b"
  using assms unfolding versions_of_def by blast+

lemma versions_of_subset: "versions_of theID os \<Longrightarrow> set os' \<subseteq> set os \<Longrightarrow> versions_of theID os'"
  unfolding versions_of_def by blast

definition oldest :: "BaseOplog \<Rightarrow> BaseOplog list \<Rightarrow> bool" where
  "oldest m os \<longleftrightarrow> m \<in> set os \<and> (\<forall>a \<in> set os. older m a)"

lemma oldest_unique:
  assumes "versions_of theID os" "oldest m os" "oldest n os"
  shows "version m = version n"
proof -
  have mn: "m \<in> set os" "n \<in> set os" using assms(2,3) by (simp_all add: oldest_def)
  then have o: "older m n" "older n m" using assms(2,3) unfolding oldest_def by blast+
  have "log_UpdateTS m \<le> log_UpdateTS n" using o(1) unfolding older_def by (elim disjE conjE) simp_all
  moreover have "log_UpdateTS n \<le> log_UpdateTS m" using o(2) unfolding older_def by (elim disjE conjE) simp_all
  ultimately have "log_UpdateTS m = log_UpdateTS n" by (rule antisym)
  with o have "log_Hash m = log_Hash n" unfolding older_def by simp
  with versions_ofD(5) [OF assms(1) mn] show ?thesis by simp
qed

text \<open>What is stored under \<open>theID\<close> has the version of the oldest of the entries handled.\<close>

definition holds_oldest :: "op_env \<Rightarrow> oplog_db \<Rightarrow> PttID \<Rightarrow> BaseOplog list \<Rightarrow> log_store \<Rightarrow> bool" where
  "holds_oldest E D theID os s \<longleftrightarrow>
     store_ok E D s \<and> unlocked theID s \<and>
     (if os = [] then log_map E D s theID = None
      else \<exists>o1 m. log_map E D s theID = Some o1 \<and> log_ID o1 = theID \<and> oldest m os \<and> version o1 = version m)"

lemma winner_oldest:
  assumes vs: "versions_of theID (os @ [o1])" and m: "oldest m os" "version orig = version m"
  shows "\<exists>n. oldest n (os @ [o1]) \<and> version (winner o1 (Some orig)) = version n"
proof -
  have f: "log_Hash orig = log_Hash m" "log_UpdateTS orig = log_UpdateTS m" "log_MasterLogID orig = log_MasterLogID m"
    using m(2) by (simp_all add: version_def)
  have "m \<in> set os" using m(1) by (simp add: oldest_def)
  then have mv: "log_MasterLogID m \<noteq> None" "m \<in> set (os @ [o1])" using versions_ofD(3) [OF vs, of m] by simp_all
  show ?thesis
  proof (cases "supersedes o1 orig")
    case True
    then have "older o1 m" using f mv(1) by (auto simp: supersedes_def older_def)
    then have "oldest o1 (os @ [o1])" using m(1) older_trans older_refl by (auto simp: oldest_def)
    with True show ?thesis by (auto simp: winner_def)
  next
    case False
    have "older m o1"
    proof (cases "log_Hash o1 = log_Hash m")
      case True
      then have "version o1 = version m" using versions_ofD(5) [OF vs _ mv(2), of o1] by simp
      then show ?thesis by (simp add: older_def version_def)
    next
      case False
      with \<open>\<not> supersedes o1 orig\<close> f mv(1) show ?thesis by (auto simp: supersedes_def older_def)
    qed
    then have "oldest m (os @ [o1])" using m(1) by (auto simp: oldest_def)
    with False m(2) show ?thesis by (auto simp: winner_def)
  qed
qed

lemma handle_step:
  assumes env: "log_db_ok D" "log_codec_ok E" "benign E D processLog"
    and vs: "versions_of theID (os @ [o1])" and st: "holds_oldest E D theID os (hx_store h)"
  shows "\<exists>r o2 h2. handleOplog E alone D processLog o1 h = (Ret r, o2, h2) \<and> holds_oldest E D theID (os @ [o1]) (hx_store h2)"
proof -
  have o1: "log_ID o1 = theID" "entry_wf o1" "log_MasterLogID o1 \<noteq> None" "\<not> log_IsSync o1"
    using versions_ofD(1-4) [OF vs, of o1] by simp_all
  have s: "store_ok E D (hx_store h)" "unlocked (log_ID o1) (hx_store h)" using st o1(1) by (simp_all add: holds_oldest_def)
  let ?A = "log_map E D (hx_store h)"
  have cmp: "comparable o1 (?A (log_ID o1))"
  proof (cases "os = []")
    case True
    with st o1(1) show ?thesis by (simp add: holds_oldest_def comparable_def)
  next
    case False
    then obtain orig m where om: "?A theID = Some orig" "log_ID orig = theID" "oldest m os" "version orig = version m"
      using st by (auto simp: holds_oldest_def)
    then have m: "m \<in> set (os @ [o1])" by (simp add: oldest_def)
    have "entry_wf m" "log_ID m = theID" "log_MasterLogID m \<noteq> None" "log_Hash o1 = log_Hash m \<longrightarrow> version o1 = version m"
      using versions_ofD(1-3) [OF vs m] versions_ofD(5) [OF vs _ m, of o1] by simp_all
    with om o1(1) show ?thesis by (auto simp: comparable_def version_def entry_wf_def)
  qed
  from handleOplog_ok [OF s(1) env(1,2) o1(2,3) env(3) o1(4) cmp s(2)] obtain r o2 h2 o3 where
    h2: "handleOplog E alone D processLog o1 h = (Ret r, o2, h2)" "store_ok E D (hx_store h2)"
      "ls_lock (hx_store h2) = ls_lock (hx_store h)" "log_map E D (hx_store h2) = ?A(theID \<mapsto> o3)"
      "version o3 = version (winner o1 (?A theID))"
    by (auto simp: handled_def o1(1))
  have id3: "log_ID o3 = theID"
    using stored_cases [OF h2(2), of theID] o1(1,2) h2(4) by (auto simp: entry_wf_def)
  have "\<exists>n. oldest n (os @ [o1]) \<and> version (winner o1 (?A theID)) = version n"
  proof (cases "os = []")
    case True
    with st have "?A theID = None" by (simp add: holds_oldest_def)
    with True show ?thesis by (auto simp: winner_def oldest_def older_refl)
  next
    case False
    then obtain orig m where "?A theID = Some orig" "oldest m os" "version orig = version m"
      using st by (auto simp: holds_oldest_def)
    with winner_oldest [OF vs this(2,3)] show ?thesis by simp
  qed
  with h2(2-5) s(2) o1(1) id3 have "holds_oldest E D theID (os @ [o1]) (hx_store h2)"
    by (auto simp: holds_oldest_def unlocked_def)
  with h2(1) show ?thesis by blast
qed

lemma handle_loop_oldest:
  assumes env: "log_db_ok D" "log_codec_ok E" "benign E D processLog"
    and "versions_of theID (done @ os)" "holds_oldest E D theID done (hx_store h)"
  shows "\<exists>ts logs h2. handle_loop E alone D processLog os None newest bc h = (Ret (ts, None, logs), h2) \<and>
    holds_oldest E D theID (done @ os) (hx_store h2)"
  using assms(4,5)
proof (induction os arbitrary: "done" h newest bc)
  case Nil
  then show ?case by simp
next
  case (Cons o1 os)
  have "versions_of theID (done @ [o1])" by (rule versions_of_subset [OF Cons.prems(1)]) auto
  from handle_step [OF env this Cons.prems(2)] obtain r o2 h2 where
    h2: "handleOplog E alone D processLog o1 h = (Ret r, o2, h2)" "holds_oldest E D theID (done @ [o1]) (hx_store h2)"
    by blast
  have "versions_of theID ((done @ [o1]) @ os)" using Cons.prems(1) by simp
  from Cons.IH [OF this h2(2)] show ?case using h2(1) by (cases r) simp
qed

definition benign_post :: "op_env \<Rightarrow> oplog_db \<Rightarrow> 'i postprocess \<Rightarrow> bool" where
  "benign_post E D post \<longleftrightarrow> (\<forall>logs p h. store_ok E D (hx_store h) \<longrightarrow> same_log E D h (post logs p h))"

lemma handleOplogs_oldest:
  assumes "log_db_ok D" "log_codec_ok E" "benign E D processLog" "benign_post E D post"
    and "versions_of theID os" "holds_oldest E D theID [] (hx_store h)"
  shows "\<exists>ts h2. handleOplogs E alone D processLog post os h = (Ret (ts, None), h2) \<and> holds_oldest E D theID os (hx_store h2)"
proof -
  obtain ts logs h2 where l: "handle_loop E alone D processLog os None ZeroTimestamp [] h = (Ret (ts, None, logs), h2)"
    "holds_oldest E D theID os (hx_store h2)"
    using handle_loop_oldest [OF assms(1-3), of theID "[]" os h ZeroTimestamp "[]"] assms(5,6) by auto
  have "same_log E D h2 (post logs False h2)" using assms(4) l(2) by (simp add: benign_post_def holds_oldest_def)
  then have "holds_oldest E D theID os (hx_store (post logs False h2))"
    using l(2) unfolding holds_oldest_def same_log_def unlocked_def by (simp split: if_splits)
  with l(1) show ?thesis by (simp add: handleOplogs_def)
qed

subsection \<open>Preprocessing\<close>

lemma verify_all_ok:
  "verify_all E os = Ret os' \<Longrightarrow> list_all2 (\<lambda>a b. Oplog_Verify E a = (Ret (), b)) os os'"
proof (induction os arbitrary: os')
  case (Cons o1 os)
  obtain r o2 where "Oplog_Verify E o1 = (r, o2)" by fastforce
  with Cons show ?case by (auto simp: res_bind_eq_Ret split: res.splits)
qed simp

lemma verify_all_same:
  "verify_all E os = Ret os' \<Longrightarrow> os' = os \<and> (\<forall>x \<in> set os'. Oplog_Verify E x = (Ret (), x))"
proof -
  assume "verify_all E os = Ret os'"
  then have "list_all2 (\<lambda>a b. b = a \<and> Oplog_Verify E b = (Ret (), b)) os os'"
    by (auto intro: list_all2_mono [OF verify_all_ok] simp: Verify_iff)
  then show ?thesis by (induction rule: list_all2_induct) auto
qed

text \<open>
  What \<^verbatim>\<open>json.Unmarshal\<close> does with a field that is left out when it is empty, here the master log identifier: an absent field keeps
  the value of the variable decoded into. Whether decoding succeeds does not depend on that variable.
\<close>

definition json_keeps_absent :: "op_env \<Rightarrow> bool" where
  "json_keeps_absent E \<longleftrightarrow>
     (\<forall>m o1 o2 theID. oe_dec E m o1 = Some o2 \<longrightarrow>
        (\<exists>l. oe_dec E m (zero_oplog\<lparr>log_ID := theID\<rparr>) = Some l \<and>
             log_MasterLogID o2 = (if log_MasterLogID l = None then log_MasterLogID o1 else log_MasterLogID l)))"

text \<open>The predecessor of an entry is stored in the log, as a valid entry.\<close>

definition valid_in_log :: "op_env \<Rightarrow> oplog_db \<Rightarrow> log_store \<Rightarrow> BaseOplog \<Rightarrow> bool" where
  "valid_in_log E D s o1 \<longleftrightarrow> (\<exists>p l. log_PreLogID o1 = Some p \<and> log_map E D s p = Some l \<and> log_MasterLogID l \<noteq> None)"

text \<open>
  When an entry may follow the entries \<open>earlier\<close> of its list: it has no predecessor; its predecessor is one of them and valid, or is valid in the log;
  or its predecessor is in the log but not valid, while the predecessor of one of them is (the decoded identifier is then still there).
\<close>

definition may_follow :: "op_env \<Rightarrow> oplog_db \<Rightarrow> log_store \<Rightarrow> BaseOplog list \<Rightarrow> BaseOplog \<Rightarrow> bool" where
  "may_follow E D s earlier o1 \<longleftrightarrow>
     (case log_PreLogID o1 of
        None \<Rightarrow> True
      | Some p \<Rightarrow>
          (\<exists>l \<in> set earlier. log_ID l = p \<and> log_MasterLogID l \<noteq> None) \<or> valid_in_log E D s o1 \<or>
          log_map E D s p \<noteq> None \<and> (\<exists>o0 \<in> set earlier. valid_in_log E D s o0))"

lemma store_ok_lock [simp]: "store_ok E D (s\<lparr>ls_lock := l\<rparr>) = store_ok E D s"
  by (simp add: store_ok_def)

lemma log_map_batch:
  assumes "ls_batch s = ls_batch s2"
  shows "log_map E D s = log_map E D s2"
  unfolding fun_eq_iff log_map_def assms by simp

lemma Oplog_Get_unlocked:
  "Oplog_Get E env D p False o1 s =
     (case LM_RLock env (ls_lock s) (Some p) of
        Ret (None, l) \<Rightarrow>
          (case Oplog_Get E env D p True o1 (s\<lparr>ls_lock := l\<rparr>) of
             (r, o2, s2) \<Rightarrow> (r, o2, s2\<lparr>ls_lock := (case LM_RUnlock (ls_lock s2) (Some p) of Ret l2 \<Rightarrow> l2 | _ \<Rightarrow> ls_lock s2)\<rparr>))
      | Ret (Some e, l) \<Rightarrow> (Fail e, o1, s\<lparr>ls_lock := l\<rparr>)
      | _ \<Rightarrow> (Panic, o1, s))"
  unfolding Oplog_Get_def oplog_rlock_def if_True if_False by (rule refl)

lemma Oplog_Get_into:
  assumes "store_ok E D s" "length p = SizePttID" "Oplog_Get E env D p True o1 s = (Ret u, o2, s2)"
  shows "s2 = s" "\<exists>l m. log_map E D s p = Some l \<and> oe_dec E m (zero_oplog\<lparr>log_ID := p\<rparr>) = Some l \<and> oe_dec E m (o1\<lparr>log_ID := p\<rparr>) = Some o2"
  using stored_cases [OF assms(1,2)] assms(3)
  by (auto simp: Oplog_Get_def Oplog_GetKey_def oplog_rlock_def Oplog_Load_def Batch_DBGet_def Let_def
    GetKeyByIdxKey_quiet [OF store_quiet [OF assms(1)]] Ldb_Get_quiet [OF store_quiet [OF assms(1)]] nth_key_def index_keys_def
    split: option.splits)

lemma Oplog_Get_shared:
  assumes "store_ok E D s" "length p = SizePttID" "json_keeps_absent E"
    and "Oplog_Get E env D p False prelog s = (Ret u, prelog2, s2)"
  shows "\<exists>l. log_map E D s p = Some l \<and>
      log_MasterLogID prelog2 = (if log_MasterLogID l = None then log_MasterLogID prelog else log_MasterLogID l)"
    and "ls_batch s2 = ls_batch s" "store_ok E D s2"
proof -
  obtain lk where lk: "LM_RLock env (ls_lock s) (Some p) = Ret (None, lk)"
    using assms(4) unfolding Oplog_Get_unlocked by (auto split: res.splits prod.splits option.splits)
  obtain s3 l2 where get: "Oplog_Get E env D p True prelog (s\<lparr>ls_lock := lk\<rparr>) = (Ret u, prelog2, s3)" and s2: "s2 = s3\<lparr>ls_lock := l2\<rparr>"
    using assms(4) unfolding Oplog_Get_unlocked lk by (auto split: prod.splits)
  let ?s = "s\<lparr>ls_lock := lk\<rparr>"
  have ok: "store_ok E D ?s" using assms(1) by simp
  note g = Oplog_Get_into [OF ok assms(2) get]
  have "log_map E D ?s = log_map E D s" by (rule log_map_batch) simp
  with g(2) obtain l m where l: "log_map E D s p = Some l" "oe_dec E m (zero_oplog\<lparr>log_ID := p\<rparr>) = Some l"
    "oe_dec E m (prelog\<lparr>log_ID := p\<rparr>) = Some prelog2" by auto
  from assms(3) l(3) obtain l' where "oe_dec E m (zero_oplog\<lparr>log_ID := p\<rparr>) = Some l'"
    "log_MasterLogID prelog2 = (if log_MasterLogID l' = None then log_MasterLogID (prelog\<lparr>log_ID := p\<rparr>) else log_MasterLogID l')"
    unfolding json_keeps_absent_def by blast
  with l show "\<exists>l. log_map E D s p = Some l \<and>
      log_MasterLogID prelog2 = (if log_MasterLogID l = None then log_MasterLogID prelog else log_MasterLogID l)" by simp
  show "ls_batch s2 = ls_batch s" "store_ok E D s2" using assms(1) unfolding s2 g(1) by simp_all
qed

text \<open>What the loop knows after the entries \<open>earlier\<close>.\<close>

definition pre_known :: "op_env \<Rightarrow> oplog_db \<Rightarrow> log_store \<Rightarrow> BaseOplog list \<Rightarrow> BaseOplog \<Rightarrow> (PttID \<rightharpoonup> BaseOplog) \<Rightarrow> bool" where
  "pre_known E D s earlier prelog existIDs \<longleftrightarrow>
     store_ok E D s \<and> (\<forall>p l. existIDs p = Some l \<longrightarrow> l \<in> set earlier \<and> log_ID l = p) \<and>
     (log_MasterLogID prelog \<noteq> None \<longrightarrow> (\<exists>o0 \<in> set earlier. valid_in_log E D s o0))"

lemma checkPreOplog_Ret:
  assumes "pre_known E D s earlier prelog existIDs" "json_keeps_absent E"
    and "\<And>p. log_PreLogID o1 = Some p \<Longrightarrow> length p = SizePttID"
    and "checkPreOplog E env D o1 prelog existIDs s = (Ret u, prelog2, existIDs2, s2)"
  shows "may_follow E D s earlier o1" "pre_known E D s2 (earlier @ [o1]) prelog2 existIDs2" "log_map E D s2 = log_map E D s"
proof -
  have known: "store_ok E D s" "\<And>p l. existIDs p = Some l \<Longrightarrow> l \<in> set earlier \<and> log_ID l = p"
    "log_MasterLogID prelog \<noteq> None \<Longrightarrow> \<exists>o0 \<in> set earlier. valid_in_log E D s o0"
    using assms(1) unfolding pre_known_def by blast+
  have new: "existIDs2 = existIDs(log_ID o1 \<mapsto> o1)"
    using assms(4) by (auto simp: checkPreOplog_def split: option.splits if_splits prod.splits res.splits)
  consider (free) "log_PreLogID o1 = None \<or> (\<exists>p l. log_PreLogID o1 = Some p \<and> existIDs p = Some l \<and> log_MasterLogID l \<noteq> None)"
      "prelog2 = prelog" "s2 = s"
    | (read) p where "log_PreLogID o1 = Some p" "Oplog_Get E env D p False prelog s = (Ret (), prelog2, s2)" "log_MasterLogID prelog2 \<noteq> None"
    using assms(4) by (auto simp: checkPreOplog_def split: option.splits if_splits prod.splits res.splits)
  then have "may_follow E D s earlier o1 \<and> pre_known E D s2 (earlier @ [o1]) prelog2 existIDs2 \<and> log_map E D s2 = log_map E D s"
  proof cases
    case free
    have "may_follow E D s earlier o1" using free(1) known(2) unfolding may_follow_def by (auto split: option.split)
    moreover have "pre_known E D s2 (earlier @ [o1]) prelog2 existIDs2"
      using known free(2,3) unfolding pre_known_def new by auto
    ultimately show ?thesis using free(3) by simp
  next
    case read
    note g = Oplog_Get_shared [OF known(1) assms(3) [OF read(1)] assms(2) read(2)]
    have maps: "log_map E D s2 = log_map E D s" by (rule log_map_batch [OF g(2)])
    then have same: "valid_in_log E D s2 = valid_in_log E D s" by (simp add: valid_in_log_def fun_eq_iff)
    obtain l where l: "log_map E D s p = Some l"
      "log_MasterLogID prelog2 = (if log_MasterLogID l = None then log_MasterLogID prelog else log_MasterLogID l)" using g(1) by blast
    have either: "valid_in_log E D s o1 \<or> (\<exists>o0 \<in> set earlier. valid_in_log E D s o0)"
      using l read(1,3) known(3) unfolding valid_in_log_def by (cases "log_MasterLogID l = None") auto
    then have "may_follow E D s earlier o1" using l(1) read(1) by (auto simp: may_follow_def)
    moreover have "pre_known E D s2 (earlier @ [o1]) prelog2 existIDs2"
      using known(2) g(3) either unfolding pre_known_def new same by auto
    ultimately show ?thesis using maps by blast
  qed
  then show "may_follow E D s earlier o1" "pre_known E D s2 (earlier @ [o1]) prelog2 existIDs2" "log_map E D s2 = log_map E D s" by blast+
qed

lemma may_follow_cong:
  assumes "log_map E D s2 = log_map E D s"
  shows "may_follow E D s2 = may_follow E D s"
  unfolding fun_eq_iff may_follow_def valid_in_log_def assms by simp

lemma check_pre_loop_Ret:
  "check_pre_loop E env D os prelog existIDs s = (Ret os', s') \<Longrightarrow> pre_known E D s earlier prelog existIDs \<Longrightarrow> json_keeps_absent E \<Longrightarrow>
   \<forall>o1 \<in> set os. \<forall>p. log_PreLogID o1 = Some p \<longrightarrow> length p = SizePttID \<Longrightarrow>
   (\<exists>n. os' = take n os) \<and> (\<forall>i < length os'. may_follow E D s (earlier @ take i os') (os' ! i))"
proof (induction os arbitrary: prelog existIDs s os' s' earlier)
  case (Cons o1 os)
  obtain r prelog2 ex2 s2 where c: "checkPreOplog E env D o1 prelog existIDs s = (r, prelog2, ex2, s2)" by (metis prod_cases4)
  show ?case
  proof (cases r)
    case (Ret u)
    obtain r3 s3 where l: "check_pre_loop E env D os prelog2 ex2 s2 = (r3, s3)" by fastforce
    with Cons.prems(1) c Ret obtain good where g: "r3 = Ret good" "os' = o1 # good" by (auto simp: res_bind_eq_Ret)
    have len: "\<And>p. log_PreLogID o1 = Some p \<Longrightarrow> length p = SizePttID" using Cons.prems(4) by simp
    note ok = checkPreOplog_Ret [OF Cons.prems(2,3) len c [unfolded Ret]]
    from Cons.IH [OF l [unfolded g(1)] ok(2) Cons.prems(3)] Cons.prems(4) obtain n where
      n: "good = take n os" "\<forall>i < length good. may_follow E D s2 ((earlier @ [o1]) @ take i good) (good ! i)" by auto
    have "os' = take (Suc n) (o1 # os)" using g(2) n(1) by simp
    moreover have "may_follow E D s (earlier @ take i os') (os' ! i)" if "i < length os'" for i
      using that ok(1) n(2) may_follow_cong [OF ok(3)] unfolding g(2) by (cases i) auto
    ultimately show ?thesis by blast
  next
    case (Fail e)
    with Cons.prems(1) c have "os' = []" by simp
    then show ?thesis by (metis less_nat_zero_code list.size(3) take_0)
  qed (use Cons.prems(1) c in simp)
qed simp

subsection \<open>Properties\<close>

text \<open>
  C1: replicas converge. Two nodes that handle the same set of valid versions of one log entry, each in its own order and
  with repetitions, through \<^verbatim>\<open>handleOplogs\<close> end without error and store the same version of it: the one with the smallest
  update time and, among those, the smallest hash. The functions passed in leave the log alone, equal hashes
  mean equal versions, and the logs start without the entry.
\<close>

theorem replicas_converge:
  assumes "log_db_ok D1" "log_codec_ok E1" "benign E1 D1 processLog1" "benign_post E1 D1 post1"
    and "log_db_ok D2" "log_codec_ok E2" "benign E2 D2 processLog2" "benign_post E2 D2 post2"
    and "versions_of theID as" "as \<noteq> []" "set bs = set as"
    and "store_ok E1 D1 (hx_store h1)" "unlocked theID (hx_store h1)" "log_map E1 D1 (hx_store h1) theID = None"
    and "store_ok E2 D2 (hx_store h2)" "unlocked theID (hx_store h2)" "log_map E2 D2 (hx_store h2) theID = None"
  shows "\<exists>ts1 h1' o1 ts2 h2' o2.
    handleOplogs E1 alone D1 processLog1 post1 as h1 = (Ret (ts1, None), h1') \<and>
    handleOplogs E2 alone D2 processLog2 post2 bs h2 = (Ret (ts2, None), h2') \<and>
    log_map E1 D1 (hx_store h1') theID = Some o1 \<and> log_map E2 D2 (hx_store h2') theID = Some o2 \<and>
    version o1 = version o2 \<and> (\<forall>a \<in> set as. older o1 a)"
proof -
  have vb: "versions_of theID bs" by (rule versions_of_subset [OF assms(9)]) (simp add: assms(11))
  have e: "holds_oldest E1 D1 theID [] (hx_store h1)" "holds_oldest E2 D2 theID [] (hx_store h2)"
    using assms(12-17) by (simp_all add: holds_oldest_def)
  obtain ts1 h1' where r1: "handleOplogs E1 alone D1 processLog1 post1 as h1 = (Ret (ts1, None), h1')"
    "holds_oldest E1 D1 theID as (hx_store h1')"
    using handleOplogs_oldest [OF assms(1-4,9) e(1)] by blast
  obtain ts2 h2' where r2: "handleOplogs E2 alone D2 processLog2 post2 bs h2 = (Ret (ts2, None), h2')"
    "holds_oldest E2 D2 theID bs (hx_store h2')"
    using handleOplogs_oldest [OF assms(5-8) vb e(2)] by blast
  have "bs \<noteq> []" using assms(10,11) by auto
  then obtain o1 m o2 n where
    m: "log_map E1 D1 (hx_store h1') theID = Some o1" "oldest m as" "version o1 = version m"
    and n: "log_map E2 D2 (hx_store h2') theID = Some o2" "oldest n bs" "version o2 = version n"
    using r1(2) r2(2) assms(10) by (auto simp: holds_oldest_def)
  have "oldest n as" using n(2) assms(11) by (simp add: oldest_def)
  with oldest_unique [OF assms(9) m(2)] m(3) n(3) have "version o1 = version o2" by simp
  moreover have "\<forall>a \<in> set as. older o1 a" using m(2) older_version(1) [OF m(3)] by (simp add: oldest_def)
  ultimately show ?thesis using r1(1) r2(1) m(1) n(1) by blast
qed

definition example_ctx :: "log_store \<Rightarrow> unit hctx" where
  "example_ctx s = \<lparr>hx_info = (), hx_store = s,
     hx_sign = \<lparr>sx_signer = \<lparr>sg_ID = [], sg_NodeSignID = [], sg_myKey = 1, sg_nodeKey = 1, sg_signKeyInfo = example_key,
         sg_nodeSignKeyInfo = example_key, sg_clock = \<lambda>_. Ret ZeroTimestamp, sg_salts = \<lambda>_. Ret [], sg_tick = 0, sg_draw = 0\<rparr>,
       sx_devices = no_devices, sx_pm = \<lparr>masters = Map.empty, newestMasterLogID = None\<rparr>\<rparr>\<rparr>"

theorem replicas_converge_witness:
  "\<exists>ts1 h1' o1 ts2 h2' o2.
    handleOplogs counting_env alone example_log_db (\<lambda>l h. (Ret [], l, h)) (\<lambda>_ _ h. h) [example_entry 7 9, example_entry 5 1]
      (example_ctx empty_store) = (Ret (ts1, None), h1') \<and>
    handleOplogs counting_env alone example_log_db (\<lambda>l h. (Ret [], l, h)) (\<lambda>_ _ h. h) [example_entry 5 1, example_entry 7 9, example_entry 5 1]
      (example_ctx empty_store) = (Ret (ts2, None), h2') \<and>
    log_map counting_env example_log_db (hx_store h1') (replicate 40 2) = Some o1 \<and>
    log_map counting_env example_log_db (hx_store h2') (replicate 40 2) = Some o2 \<and> version o1 = version o2"
proof -
  have b: "benign counting_env example_log_db (\<lambda>l (h :: unit hctx). (Ret [], l, h))"
    by (simp add: benign_def same_log_def)
  have p: "benign_post counting_env example_log_db (\<lambda>_ _ (h :: unit hctx). h)" by (simp add: benign_post_def same_log_def)
  have i: "log_ID (example_entry t x) = replicate 40 2" "\<not> log_IsSync (example_entry t x)" "log_Hash (example_entry t x) = replicate 32 x" for t x
    by (simp_all add: example_entry_def zero_oplog_def)
  have ne: "replicate 32 (9 :: byte) \<noteq> replicate 32 1" by (simp add: replicate_eq_replicate)
  have v: "versions_of (replicate 40 2) [example_entry 7 9, example_entry 5 1]"
    unfolding versions_of_def using ne example_entry_ok(2) [of 7 9] example_entry_ok(2) [of 5 1]
    by (auto simp: i example_entry_ok(1))
  have u: "unlocked (replicate 40 2) (hx_store (example_ctx empty_store))"
    by (simp add: unlocked_def example_ctx_def empty_store_def NewLockMap_def)
  have s: "store_ok counting_env example_log_db (hx_store (example_ctx empty_store))"
    "log_map counting_env example_log_db (hx_store (example_ctx empty_store)) (replicate 40 2) = None"
    by (simp_all add: example_ctx_def empty_store_ok)
  have bs: "set [example_entry 5 1, example_entry 7 9, example_entry 5 1] = set [example_entry 7 9, example_entry 5 1]" by auto
  from replicas_converge [OF example_log_db_ok counting_env_ok b p example_log_db_ok counting_env_ok b p v _ bs s(1) u s(2) s(1) u s(2)]
  show ?thesis by blast
qed

text \<open>
  C13: Every entry \<^verbatim>\<open>preprocessOplogs\<close> passes on is an entry it was given that \<^verbatim>\<open>Verify\<close> accepts, and may follow the ones passed on before
  it: its predecessor, if any, is one of them and valid, or is stored in this log as a valid entry, or is stored in this log while an
  earlier entry of the list has a valid stored predecessor. In the last case the predecessor may itself be
  pending, since all predecessors are decoded into one variable.
\<close>

theorem preprocess_sound:
  assumes "store_ok E D s" "json_keeps_absent E"
    and "\<forall>o1 \<in> set oplogs. \<forall>p. log_PreLogID o1 = Some p \<longrightarrow> length p = SizePttID"
    and "preprocessOplogs E env D getTS isPending merkle oplogs s = (Ret os, s')"
  shows "(\<forall>i < length os. may_follow E D s (take i os) (os ! i)) \<and>
    (\<forall>o2 \<in> set os. \<exists>o1 \<in> set oplogs. o2 = o1\<lparr>log_IsSync := False\<rparr> \<and> Oplog_Verify E o2 = (Ret (), o2))"
proof (cases "os = []")
  case False
  let ?given = "\<lambda>now expireTS. map (\<lambda>o1. o1\<lparr>log_IsSync := False\<rparr>)
    (drop_future now (if isPending then drop_expired expireTS oplogs else oplogs))"
  have sub: "x \<in> set (?given now expireTS) \<Longrightarrow> \<exists>o1 \<in> set oplogs. x = o1\<lparr>log_IsSync := False\<rparr>" for x now expireTS
    by (auto simp: drop_future_def drop_expired_def dest!: set_dropWhileD split: if_splits)
  obtain now expireTS vs where v: "verify_all E (?given now expireTS) = Ret vs"
    "check_pre_loop E env D vs zero_oplog Map.empty s = (Ret os, s')"
    using False assms(4) by (auto simp: preprocessOplogs_def Let_def split: res.splits prod.splits if_splits)
  have vs: "vs = ?given now expireTS" "\<forall>x \<in> set vs. Oplog_Verify E x = (Ret (), x)" using verify_all_same [OF v(1)] by blast+
  have given: "\<exists>o1 \<in> set oplogs. x = o1\<lparr>log_IsSync := False\<rparr>" if "x \<in> set vs" for x
    using that sub unfolding vs(1) by blast
  have "\<forall>o1 \<in> set vs. \<forall>p. log_PreLogID o1 = Some p \<longrightarrow> length p = SizePttID"
    using given assms(3) by force
  moreover have "pre_known E D s [] zero_oplog Map.empty" using assms(1) by (simp add: pre_known_def zero_oplog_def)
  ultimately have n: "\<exists>n. os = take n vs" "\<forall>i < length os. may_follow E D s (take i os) (os ! i)"
    using check_pre_loop_Ret [OF v(2) _ assms(2), of "[]"] by simp_all
  have "\<exists>o1 \<in> set oplogs. o2 = o1\<lparr>log_IsSync := False\<rparr> \<and> Oplog_Verify E o2 = (Ret (), o2)" if "o2 \<in> set os" for o2
  proof -
    have "o2 \<in> set vs" using that n(1) in_set_takeD by metis
    then show ?thesis using given vs(2) by blast
  qed
  with n(2) show ?thesis by blast
qed simp

text \<open>A codec that keeps the master log identifier of the variable when the text has none.\<close>

definition keeping_env :: op_env where
  "keeping_env = counting_env\<lparr>oe_dec := \<lambda>m o1.
     let l = from_nat (length m)
     in Some (if log_MasterLogID l = None then l\<lparr>log_MasterLogID := log_MasterLogID o1\<rparr> else l)\<rparr>"

lemma keeping_env_ok: "log_codec_ok keeping_env" "json_keeps_absent keeping_env" "oe_ecc keeping_env = example_ecc"
proof -
  have same: "l\<lparr>log_MasterLogID := None\<rparr> = l" if "log_MasterLogID l = None" for l :: BaseOplog
    using that by (cases l) simp
  show "log_codec_ok keeping_env"
    by (auto simp: log_codec_ok_def keeping_env_def counting_env_def index_codec_ok_def Let_def zero_oplog_def same)
  show "json_keeps_absent keeping_env"
    by (auto simp: json_keeps_absent_def keeping_env_def Let_def zero_oplog_def same)
  show "oe_ecc keeping_env = example_ecc" by (simp add: keeping_env_def counting_env_def example_op_env_def)
qed

lemma example_signed:
  assumes "oe_ecc E = example_ecc" "\<And>o1. \<exists>m. oe_enc E o1 = Inr m"
  shows "\<exists>o1. Oplog_Verify E o1 = (Ret (), o1) \<and> \<not> log_IsSync o1 \<and> log_PreLogID o1 = pre \<and> log_UpdateTS o1 = ZeroTimestamp"
proof -
  let ?o0 = "zero_oplog\<lparr>log_CreatorID := example_doer, log_PreLogID := pre\<rparr>" and ?salt = "replicate 32 0"
  have E: "ecc_ok (oe_ecc E)" using example_ecc_ok assms(1) by simp
  have sd: "\<exists>b h sg pub k'. SignData example_ecc (Ret ?salt) m example_key = (Ret (b, h, sg, pub), k')" for m
    by (simp add: SignData_def example_ecc_def Let_def)
  let ?core = "?o0\<lparr>log_UpdateTS := ZeroTimestamp, log_Hash := [], log_CreatorHash := [], log_Sig := [],
      log_Salt := EmptySalt, log_Pubkey := [], log_MasterLogID := None, log_MasterSigns := [],
      log_InternalSigns := [], log_IsSync := False, log_IsNewer := False, log_Extra := None\<rparr>"
  obtain m where "oe_enc E ?core = Inr m" using assms(2) by blast
  with sd [of m] obtain o1 ki' where o1: "Oplog_Sign E (Ret ?salt) example_key ?o0 = (Ret (), o1, ki')"
    by (auto simp: Oplog_Sign_def Let_def assms(1))
  have "signed_log E o1"
    using example_key_usable by (intro signed_log.created [OF _ _ _ o1]) (simp_all add: assms(1) zero_oplog_def SizeSalt_def)
  then have "Oplog_Verify E o1 = (Ret (), o1)" using signed_log_invariant [OF E] by (simp add: Verify_iff)
  moreover have "\<not> log_IsSync o1 \<and> log_PreLogID o1 = pre \<and> log_UpdateTS o1 = ZeroTimestamp"
    using o1 by (auto simp: Oplog_Sign_def Let_def zero_oplog_def set_hash_def split: prod.splits res.splits sum.splits)
  ultimately show ?thesis by blast
qed

lemma example_stored:
  "\<exists>s. store_ok keeping_env example_log_db s \<and> ls_lock s = NewLockMap 1 \<and> log_map keeping_env example_log_db s (replicate 40 2) = Some (example_entry 5 1)"
proof -
  let ?s = "log_run keeping_env alone example_log_db (PutLog (example_entry 5 1)) empty_store"
  have n: "(example_entry 5 1)\<lparr>log_IsNewer := False\<rparr> = example_entry 5 1" by (simp add: example_entry_def zero_oplog_def)
  have "log_cmd_ok keeping_env example_log_db (example_entry 5 1)"
    unfolding log_cmd_ok_def n by (intro saveable_valid keeping_env_ok example_entry_ok) simp_all
  then have run: "store_ok keeping_env example_log_db ?s" "log_map keeping_env example_log_db ?s = spec_cmd (PutLog (example_entry 5 1)) Map.empty"
    using log_db.run_cmd_refines [of keeping_env example_log_db empty_store "PutLog (example_entry 5 1)" alone]
    by (simp_all add: log_run_cmd empty_store_ok example_log_db_ok)
  have "log_map keeping_env example_log_db (?s\<lparr>ls_lock := NewLockMap 1\<rparr>) = log_map keeping_env example_log_db ?s"
    by (rule log_map_batch) simp
  moreover have "spec_cmd (PutLog (example_entry 5 1)) Map.empty (replicate 40 2) = Some (example_entry 5 1)"
    by (simp add: n spec_save_def spec_rejects_def example_entry_ok) (simp add: example_entry_def)
  ultimately show ?thesis using run by (intro exI [of _ "?s\<lparr>ls_lock := NewLockMap 1\<rparr>"]) simp
qed

theorem preprocess_sound_witness:
  "\<exists>o1 s s'. log_PreLogID o1 = Some (replicate 40 2) \<and>
     preprocessOplogs keeping_env alone example_log_db (Ret (mkTs 10 0)) False None [o1] s = (Ret [o1], s') \<and>
     may_follow keeping_env example_log_db s [] o1 \<and> Oplog_Verify keeping_env o1 = (Ret (), o1)"
proof -
  let ?E = keeping_env and ?D = example_log_db and ?p = "replicate 40 2 :: PttID"
  obtain s where s: "store_ok ?E ?D s" "ls_lock s = NewLockMap 1" "log_map ?E ?D s ?p = Some (example_entry 5 1)"
    using example_stored by blast
  have "\<exists>m. oe_enc ?E o1 = Inr m" for o1 using keeping_env_ok(1) unfolding log_codec_ok_def by blast
  from example_signed [OF keeping_env_ok(3) this, of "Some ?p"] obtain o1 where o1: "Oplog_Verify ?E o1 = (Ret (), o1)" "\<not> log_IsSync o1"
    "log_PreLogID o1 = Some ?p" "log_UpdateTS o1 = ZeroTimestamp" by blast
  have same: "o1\<lparr>log_IsSync := False\<rparr> = o1" using o1(2) by simp
  have len: "length ?p = SizePttID" by (simp add: id_size_defs)
  obtain lk where lk: "LM_RLock alone (NewLockMap 1) (Some ?p) = Ret (None, lk)"
    by (simp add: LM_RLock_def NewLockMap_def NIterLock_def LM_TryRLock_def numeral_eq_Suc)
  have "log_map ?E ?D (s\<lparr>ls_lock := lk\<rparr>) = log_map ?E ?D s" by (rule log_map_batch) simp
  then have "Oplog_Get ?E alone ?D ?p True zero_oplog (s\<lparr>ls_lock := lk\<rparr>) = (Ret (), example_entry 5 1, s\<lparr>ls_lock := lk\<rparr>)"
    using Oplog_Get_locked [OF _ len, of ?E ?D "s\<lparr>ls_lock := lk\<rparr>" alone] s(1,3) by simp
  then obtain s' where get: "Oplog_Get ?E alone ?D ?p False zero_oplog s = (Ret (), example_entry 5 1, s')"
    unfolding Oplog_Get_unlocked s(2) lk by simp
  have "log_MasterLogID (example_entry 5 1) \<noteq> None" by (rule example_entry_ok)
  then have "checkPreOplog ?E alone ?D o1 zero_oplog Map.empty s = (Ret (), example_entry 5 1, [log_ID o1 \<mapsto> o1], s')"
    using get o1(3) by (simp add: checkPreOplog_def)
  then have p: "preprocessOplogs ?E alone ?D (Ret (mkTs 10 0)) False None [o1] s = (Ret [o1], s')"
    by (simp add: preprocessOplogs_def expire_ts_def drop_future_def ZeroTimestamp_def mkTs_def
        less_Timestamp_ext_def OffsetMerkleSyncTime_def o1(1,4) same)
  have "\<forall>x \<in> set [o1]. \<forall>q. log_PreLogID x = Some q \<longrightarrow> length q = SizePttID" using o1(3) len by simp
  from preprocess_sound [OF s(1) keeping_env_ok(2) this p] have "may_follow ?E ?D s [] o1" by simp
  with p o1(1,3) show ?thesis by blast
qed

subsection \<open>Findings\<close>

text \<open>A list whose last entry is to be skipped ends with the error of the skip, although every other entry was handled.\<close>

lemma last_skip_is_reported:
  assumes "handleOplog E env D processLog o1 h = (Fail (ServiceError S_ErrSkipOplog), o2, h2)"
  shows "fst (handleOplogs E env D processLog post [o1] h) = Ret (ZeroTimestamp, Some (ServiceError S_ErrSkipOplog))"
  using assms by (simp add: handleOplogs_def)

text \<open>A pending entry that integration made valid is processed, and its sync flag is not saved.\<close>

lemma pending_valid_not_saved:
  assumes "IntegrateOplog E env D o1 h = (Ret (origIsSync, isNewSign), o2, h2)" "\<not> log_IsSync o2" "log_MasterLogID o2 \<noteq> None"
    and "processLog o2 h2 = (Fail (ServiceError S_ErrNewerOplog), o3, h3)"
    and "LM_Lock env (ls_lock (hx_store h0)) (Some (log_ID o1)) = Ret (None, l)" "h = h0\<lparr>hx_store := (hx_store h0)\<lparr>ls_lock := l\<rparr>\<rparr>"
  shows "\<exists>h4. handlePendingOplog E env D processPendingLog processLog o1 h0 = (Ret (True, []), o3\<lparr>log_IsSync := True\<rparr>, h4) \<and>
    ls_batch (hx_store h4) = ls_batch (hx_store h3)"
  using assms by (auto simp: handlePendingOplog_def entry_lock_def Let_def)

text \<open>Without a Merkle tree nothing expires: the expiry of \<^verbatim>\<open>preprocessOplogs\<close> is the zero time.\<close>

lemma pending_never_expires: "expire_ts E None s = Ret ZeroTimestamp"
  by (simp add: expire_ts_def ZeroTimestamp_def mkTs_def OffsetMerkleSyncTime_def)

text \<open>An entry from the future is passed on if an entry of the past follows it.\<close>

lemma future_entry_kept:
  assumes "IsLess (log_UpdateTS b) now"
  shows "drop_future now [a, b] = [a, b]"
  using assms by (simp add: drop_future_def)

text \<open>
  The entry that pre-logs are decoded into is shared: a pre-log without a master log identifier takes over that of the
  previous one, since JSON leaves absent fields alone, and passes for valid.
\<close>

lemma stale_prelog_accepted:
  assumes "log_PreLogID o1 = Some p" "existIDs p = None" "Oplog_Get E env D p False prelog s = (Ret (), prelog2, s2)"
    and "log_MasterLogID prelog2 = log_MasterLogID prelog" "log_MasterLogID prelog \<noteq> None"
  shows "fst (checkPreOplog E env D o1 prelog existIDs s) = Ret ()"
  using assms by (simp add: checkPreOplog_def)

end
