(* ===== verification/Raft_Stores.thy ===== *)
theory Raft_Stores
  imports Level_Db Ptt_Ids "HOL-Library.Countable"
begin

text \<open>
  \<^verbatim>\<open>me/raft_storage.go\<close>: the log, hard state and snapshot that the devices of a user keep for the raft
  library, in a LevelDB database. \<open>RaftStorage\<close> carries the global \<^verbatim>\<open>dbRaft\<close> as its last field. The
  mutex of the struct is left out: every method runs under it. The protobuf codec of the raft
  messages is generated code, the parameter \<open>raft_codec\<close>; memory is unbounded, so \<^verbatim>\<open>make\<close> does not fail.

  The log is shown to refine a list of entries of which a prefix is visible: \<^verbatim>\<open>Append\<close> replaces from its
  first index on and moves the end, a restart makes everything visible that was ever written and not
  overwritten.
\<close>

subsection \<open>Definitions\<close>

record Entry =
  ent_Term :: u64
  ent_Index :: u64
  ent_Type :: u32
  ent_Data :: "bytes option"
  ent_XXX_unrecognized :: "bytes option"

record ConfState =
  cs_Nodes :: "u64 list"
  cs_Learners :: "u64 list"
  cs_Weights :: "u32 list"
  cs_XXX_unrecognized :: "bytes option"

record SnapshotMetadata =
  md_ConfState :: ConfState
  md_Index :: u64
  md_Term :: u64
  md_XXX_unrecognized :: "bytes option"

record Snapshot =
  snap_Data :: "bytes option"
  snap_Metadata :: SnapshotMetadata
  snap_XXX_unrecognized :: "bytes option"

record HardState =
  hs_Term :: u64
  hs_Vote :: u64
  hs_Commit :: u64
  hs_XXX_unrecognized :: "bytes option"

definition zero_Entry :: Entry where
  "zero_Entry = \<lparr>ent_Term = 0, ent_Index = 0, ent_Type = 0, ent_Data = None, ent_XXX_unrecognized = None\<rparr>"

definition zero_ConfState :: ConfState where
  "zero_ConfState = \<lparr>cs_Nodes = [], cs_Learners = [], cs_Weights = [], cs_XXX_unrecognized = None\<rparr>"

definition zero_Snapshot :: Snapshot where
  "zero_Snapshot =
     \<lparr>snap_Data = None,
      snap_Metadata = \<lparr>md_ConfState = zero_ConfState, md_Index = 0, md_Term = 0, md_XXX_unrecognized = None\<rparr>,
      snap_XXX_unrecognized = None\<rparr>"

definition zero_HardState :: HardState where
  "zero_HardState = \<lparr>hs_Term = 0, hs_Vote = 0, hs_Commit = 0, hs_XXX_unrecognized = None\<rparr>"

text \<open>\<^verbatim>\<open>Marshal\<close> and \<^verbatim>\<open>Unmarshal\<close> of the messages; a decoder reads into the zero message.\<close>

record raft_codec =
  rc_Entry :: "Entry \<Rightarrow> go_error + bytes"
  rc_Entry_of :: "bytes \<Rightarrow> go_error + Entry"
  rc_HardState :: "HardState \<Rightarrow> go_error + bytes"
  rc_HardState_of :: "bytes \<Rightarrow> go_error + HardState"
  rc_Snapshot :: "Snapshot \<Rightarrow> go_error + bytes"
  rc_Snapshot_of :: "bytes \<Rightarrow> go_error + Snapshot"
  rc_ConfState :: "ConfState \<Rightarrow> go_error + bytes"
  rc_ConfState_of :: "bytes \<Rightarrow> go_error + ConfState"

definition DBRaftPrefix :: bytes where
  "DBRaftPrefix = [46, 114, 102, 100, 98]"

definition DBKeyRaftHardState :: bytes where
  "DBKeyRaftHardState = [46, 114, 102, 104, 115]"

definition DBKeyRaftSnapshot :: bytes where
  "DBKeyRaftSnapshot = [46, 114, 102, 115, 110]"

definition MaxUint64 :: u64 where
  "MaxUint64 = 0xFFFFFFFFFFFFFFFF"

record RaftStorage =
  lastIdx :: u64
  firstIdx :: u64
  hardState :: HardState
  snapshot :: Snapshot
  rs_myID :: PttID
  dbRaft :: LDBDatabase

definition new_raft_storage :: "PttID \<Rightarrow> LDBDatabase \<Rightarrow> RaftStorage" where
  "new_raft_storage theID db =
     \<lparr>lastIdx = 0, firstIdx = 0, hardState = zero_HardState, snapshot = zero_Snapshot, rs_myID = theID, dbRaft = db\<rparr>"

subsubsection \<open>Keys and iterators\<close>

definition Raft_MarshalKey :: "u64 \<Rightarrow> RaftStorage \<Rightarrow> bytes" where
  "Raft_MarshalKey idx rs = DBRaftPrefix @ rs_myID rs @ PutUint64 idx"

definition MarshalKeyRaftHardState :: "RaftStorage \<Rightarrow> bytes" where
  "MarshalKeyRaftHardState rs = DBKeyRaftHardState @ rs_myID rs"

definition MarshalKeyRaftSnapshot :: "RaftStorage \<Rightarrow> bytes" where
  "MarshalKeyRaftSnapshot rs = DBKeyRaftSnapshot @ rs_myID rs"

definition GetIdxByKey :: "bytes \<Rightarrow> u64 res" where
  "GetIdxByKey key = (if length key < 45 then Panic else Uint64 (drop 45 key))"

definition Raft_GetIter :: "u64 \<Rightarrow> RaftStorage \<Rightarrow> Iterator res" where
  "Raft_GetIter idx rs =
     NewIteratorWithRange
       (Some \<lparr>Range_Start = Some (Raft_MarshalKey idx rs), Range_Limit = Some (Raft_MarshalKey MaxUint64 rs)\<rparr>)
       ListOrderNext (dbRaft rs)"

definition Raft_GetPrevIter :: "u64 \<Rightarrow> RaftStorage \<Rightarrow> Iterator res" where
  "Raft_GetPrevIter idx rs =
     NewIteratorWithRange
       (Some \<lparr>Range_Start = Some (Raft_MarshalKey 0 rs), Range_Limit = Some (Raft_MarshalKey idx rs)\<rparr>)
       ListOrderPrev (dbRaft rs)"

subsubsection \<open>Reading and writing\<close>

definition raft_put :: "bytes \<Rightarrow> go_error + bytes \<Rightarrow> RaftStorage \<Rightarrow> unit res \<times> RaftStorage" where
  "raft_put key marshaled rs =
     (case marshaled of
        Inl e \<Rightarrow> (Fail e, rs)
      | Inr theBytes \<Rightarrow>
          (case Ldb_Put key theBytes (dbRaft rs) of
             (Some e, db) \<Rightarrow> (Fail e, rs\<lparr>dbRaft := db\<rparr>)
           | (None, db) \<Rightarrow> (Ret (), rs\<lparr>dbRaft := db\<rparr>)))"

definition raft_get :: "(bytes \<Rightarrow> go_error + 'a) \<Rightarrow> bytes \<Rightarrow> RaftStorage \<Rightarrow> 'a res" where
  "raft_get dec key rs =
     res_bind (Ldb_Get key (dbRaft rs)) (\<lambda>theBytes. case dec theBytes of Inl e \<Rightarrow> Fail e | Inr x \<Rightarrow> Ret x)"

definition SaveEntry :: "raft_codec \<Rightarrow> Entry \<Rightarrow> RaftStorage \<Rightarrow> unit res \<times> RaftStorage" where
  "SaveEntry C ent rs = raft_put (Raft_MarshalKey (ent_Index ent) rs) (rc_Entry C ent) rs"

definition GetEntry :: "raft_codec \<Rightarrow> u64 \<Rightarrow> RaftStorage \<Rightarrow> Entry res" where
  "GetEntry C idx rs = raft_get (rc_Entry_of C) (Raft_MarshalKey idx rs) rs"

definition GetTermByIdx :: "raft_codec \<Rightarrow> u64 \<Rightarrow> RaftStorage \<Rightarrow> u64 res" where
  "GetTermByIdx C idx rs = res_bind (GetEntry C idx rs) (\<lambda>entry. Ret (ent_Term entry))"

definition Raft_Term :: "raft_codec \<Rightarrow> u64 \<Rightarrow> RaftStorage \<Rightarrow> u64 res" where
  "Raft_Term C idx rs =
     res_bind (raft_get (rc_Entry_of C) (Raft_MarshalKey idx rs) rs) (\<lambda>ent. Ret (ent_Term ent))"

definition SetHardState :: "raft_codec \<Rightarrow> HardState \<Rightarrow> RaftStorage \<Rightarrow> unit res \<times> RaftStorage" where
  "SetHardState C st =
     st_bind (\<lambda>rs. raft_put (MarshalKeyRaftHardState rs) (rc_HardState C st) rs)
       (\<lambda>_ rs. (Ret (), rs\<lparr>hardState := st\<rparr>))"

definition LoadHardState :: "raft_codec \<Rightarrow> RaftStorage \<Rightarrow> HardState res" where
  "LoadHardState C rs = raft_get (rc_HardState_of C) (MarshalKeyRaftHardState rs) rs"

definition LoadSnapshot :: "raft_codec \<Rightarrow> RaftStorage \<Rightarrow> Snapshot res" where
  "LoadSnapshot C rs = raft_get (rc_Snapshot_of C) (MarshalKeyRaftSnapshot rs) rs"

definition InitialState :: "RaftStorage \<Rightarrow> HardState \<times> ConfState" where
  "InitialState rs = (hardState rs, md_ConfState (snap_Metadata (snapshot rs)))"

definition Raft_LastIndex :: "RaftStorage \<Rightarrow> u64" where
  "Raft_LastIndex rs = lastIdx rs"

definition Raft_FirstIndex :: "RaftStorage \<Rightarrow> u64" where
  "Raft_FirstIndex rs = firstIdx rs"

definition Raft_Snapshot :: "RaftStorage \<Rightarrow> Snapshot" where
  "Raft_Snapshot rs = snapshot rs"

fun entries_loop :: "raft_codec \<Rightarrow> u64 \<Rightarrow> u64 \<Rightarrow> kv_list \<Rightarrow> Entry list \<Rightarrow> Entry list res" where
  "entries_loop C endIdx i [] ents = (if i \<noteq> endIdx then Fail (MeError M_ErrInvalidEntry) else Ret ents)"
| "entries_loop C endIdx i ((k, v) # kvs) ents =
     (if i = endIdx then Ret ents
      else (case rc_Entry_of C v of
              Inl _ \<Rightarrow> Fail (MeError M_ErrInvalidEntry)
            | Inr ent \<Rightarrow>
                if ent_Index ent \<noteq> i then Fail (MeError M_ErrInvalidEntry)
                else entries_loop C endIdx (i + 1) kvs (ents @ [ent])))"

definition Raft_Entries :: "raft_codec \<Rightarrow> u64 \<Rightarrow> u64 \<Rightarrow> u64 \<Rightarrow> RaftStorage \<Rightarrow> Entry list res" where
  "Raft_Entries C startIdx endIdx maxSize rs =
     (if endIdx \<le> startIdx then Ret []
      else res_bind (Raft_GetIter startIdx rs) (\<lambda>iter.
        entries_loop C endIdx startIdx (visited ListOrderNext iter) []))"

text \<open>
  \<^verbatim>\<open>Compact\<close> and \<^verbatim>\<open>CleanRaftStorage\<close> ignore the result of \<^verbatim>\<open>Delete\<close>.
\<close>

definition delete_keys :: "bytes list \<Rightarrow> RaftStorage \<Rightarrow> RaftStorage" where
  "delete_keys keys rs = rs\<lparr>dbRaft := fold (\<lambda>key db. snd (Ldb_Delete key db)) keys (dbRaft rs)\<rparr>"

definition Raft_Compact :: "u64 \<Rightarrow> RaftStorage \<Rightarrow> unit res \<times> RaftStorage" where
  "Raft_Compact idx rs =
     (if idx = 0 then (Ret (), rs)
      else if idx < firstIdx rs then (Ret (), rs)
      else if idx > lastIdx rs then (Ret (), rs)
      else res_then (Raft_GetPrevIter (idx - 1) rs)
             (\<lambda>iter rs. (Ret (), delete_keys (map fst (visited ListOrderPrev iter)) rs)) rs)"

definition CleanRaftStorage :: "RaftStorage \<Rightarrow> unit res \<times> RaftStorage" where
  "CleanRaftStorage rs =
     res_then (Raft_GetIter 0 rs) (\<lambda>iter rs. (Ret (), delete_keys (map fst (visited ListOrderNext iter)) rs)) rs"

definition ApplySnapshot :: "raft_codec \<Rightarrow> Snapshot \<Rightarrow> RaftStorage \<Rightarrow> unit res \<times> RaftStorage" where
  "ApplySnapshot C snap rs =
     (let rsIndex = md_Index (snap_Metadata (snapshot rs));
          snapIndex = md_Index (snap_Metadata snap)
      in if rsIndex \<ge> snapIndex then (Fail RaftErrSnapOutOfDate, rs)
         else
           st_bind (raft_put (MarshalKeyRaftSnapshot rs) (rc_Snapshot C snap)) (\<lambda>_ rs.
             let rs1 = rs\<lparr>snapshot := snap, firstIdx := snapIndex + 1, lastIdx := snapIndex\<rparr>
             in (Ret (), snd (Raft_Compact snapIndex rs1))) rs)"

definition CreateSnapshot :: "raft_codec \<Rightarrow> u64 \<Rightarrow> ConfState \<Rightarrow> bytes option \<Rightarrow> RaftStorage \<Rightarrow> Snapshot res \<times> RaftStorage" where
  "CreateSnapshot C i cs theData rs =
     (if i \<le> md_Index (snap_Metadata (snapshot rs)) then (Fail RaftErrSnapOutOfDate, rs)
      else if i > lastIdx rs then (Fail (MeError M_ErrInvalidEntry), rs)
      else
        (let rs1 = rs\<lparr>snapshot := (snapshot rs)\<lparr>snap_Metadata := (snap_Metadata (snapshot rs))\<lparr>md_Index := i\<rparr>\<rparr>\<rparr>
         in res_then (GetTermByIdx C i rs1) (\<lambda>theTerm rs.
              let s = (snapshot rs)\<lparr>snap_Metadata := (snap_Metadata (snapshot rs))\<lparr>md_Term := theTerm\<rparr>, snap_Data := theData\<rparr>
              in (Ret s, rs\<lparr>snapshot := s\<rparr>)) rs1))"

fun save_entries :: "raft_codec \<Rightarrow> Entry list \<Rightarrow> RaftStorage \<Rightarrow> unit res \<times> RaftStorage" where
  "save_entries C [] rs = (Ret (), rs)"
| "save_entries C (ent # ents) rs = st_bind (SaveEntry C ent) (\<lambda>_. save_entries C ents) rs"

text \<open>
  \<^verbatim>\<open>ents[rsFirstIdx-ents[0].Index:]\<close> panics past the length, \<^verbatim>\<open>ents[len(ents)-1]\<close> on an empty slice.
\<close>

definition Raft_Append :: "raft_codec \<Rightarrow> Entry list \<Rightarrow> RaftStorage \<Rightarrow> unit res \<times> RaftStorage" where
  "Raft_Append C ents rs =
     (if ents = [] then (Ret (), rs)
      else if ent_Index (last ents) < firstIdx rs then (Ret (), rs)
      else
        (let off = (if firstIdx rs > ent_Index (hd ents) then unat (firstIdx rs - ent_Index (hd ents)) else 0);
             ents1 = drop off ents
         in if off > length ents then (Panic, rs)
            else st_bind (save_entries C ents1) (\<lambda>_ rs.
              if ents1 = [] then (Panic, rs) else (Ret (), rs\<lparr>lastIdx := ent_Index (last ents1)\<rparr>)) rs))"

text \<open>
  \<^verbatim>\<open>NewRaftStorage\<close> drops the errors of its own initialisation. \<open>ignore_err\<close> keeps a panic.
\<close>

definition ignore_err :: "('s \<Rightarrow> 'a res \<times> 's) \<Rightarrow> 's \<Rightarrow> unit res \<times> 's" where
  "ignore_err c s = (case c s of (Panic, s') \<Rightarrow> (Panic, s') | (_, s') \<Rightarrow> (Ret (), s'))"

definition init_storage :: "raft_codec \<Rightarrow> RaftStorage \<Rightarrow> unit res \<times> RaftStorage" where
  "init_storage C =
     st_bind (ignore_err (SaveEntry C zero_Entry)) (\<lambda>_ rs.
       st_bind (ignore_err (SetHardState C zero_HardState)) (\<lambda>_.
         ignore_err (ApplySnapshot C zero_Snapshot)) (rs\<lparr>firstIdx := 1, lastIdx := 0\<rparr>))"

definition NewRaftStorageWithClean :: "raft_codec \<Rightarrow> PttID \<Rightarrow> LDBDatabase \<Rightarrow> unit res \<times> RaftStorage" where
  "NewRaftStorageWithClean C theID db =
     st_bind CleanRaftStorage (\<lambda>_ rs. init_storage C (new_raft_storage theID (dbRaft rs))) (new_raft_storage theID db)"

definition or_zero :: "'a \<Rightarrow> 'a res \<Rightarrow> 'a res" where
  "or_zero z r = (if r = Fail LdbErrNotFound then Ret z else r)"

definition load_storage :: "raft_codec \<Rightarrow> u64 \<Rightarrow> RaftStorage \<Rightarrow> unit res \<times> RaftStorage" where
  "load_storage C firstKey rs =
     (let rs1 = rs\<lparr>firstIdx := firstKey + 1\<rparr>
      in res_then (Raft_GetPrevIter MaxUint64 rs1) (\<lambda>iter rs.
           case visited ListOrderPrev iter of
             [] \<Rightarrow> (Fail (MeError M_ErrInvalidEntry), rs)
           | (k, _) # _ \<Rightarrow>
               res_then (GetIdxByKey k) (\<lambda>lastKey rs.
                 let rs2 = rs\<lparr>lastIdx := lastKey\<rparr>
                 in res_then (or_zero zero_HardState (LoadHardState C rs2)) (\<lambda>hs rs.
                      let rs3 = rs\<lparr>hardState := hs\<rparr>
                      in res_then (or_zero zero_Snapshot (LoadSnapshot C rs3)) (\<lambda>snap rs.
                           (Ret (), rs\<lparr>snapshot := snap\<rparr>)) rs3) rs2) rs) rs1)"

definition NewRaftStorage :: "raft_codec \<Rightarrow> bool \<Rightarrow> PttID \<Rightarrow> LDBDatabase \<Rightarrow> unit res \<times> RaftStorage" where
  "NewRaftStorage C isClean theID db =
     (if isClean then NewRaftStorageWithClean C theID db
      else
        (let rs = new_raft_storage theID db
         in res_then (Raft_GetIter 0 rs) (\<lambda>iter rs.
              case visited ListOrderNext iter of
                [] \<Rightarrow> init_storage C rs
              | (k, _) # _ \<Rightarrow> res_then (GetIdxByKey k) (\<lambda>firstKey. load_storage C firstKey) rs) rs))"

subsection \<open>What the database holds\<close>

lemma kv_sorted_unique:
  assumes "kv_sorted xs" "kv_sorted ys" "set xs = set ys"
  shows "xs = ys"
proof -
  have keys: "map fst xs = map fst ys"
    using assms by (intro strict_sorted_equal) (auto simp: kv_sorted_def)
  then have len: "length xs = length ys" by (metis length_map)
  show ?thesis
  proof (rule nth_equalityI [OF len])
    fix i assume i: "i < length xs"
    then have "fst (xs ! i) = fst (ys ! i)" using keys len by (metis nth_map)
    moreover have "ys ! i \<in> set xs" using i len assms(3) by simp
    ultimately show "xs ! i = ys ! i"
      using i kv_sorted_distinct [OF assms(1)] by (metis eq_key_imp_eq_value nth_mem prod.collapse)
  qed
qed

definition raft_codec_ok :: "raft_codec \<Rightarrow> bool" where
  "raft_codec_ok C \<longleftrightarrow>
     (\<forall>e. \<exists>b. rc_Entry C e = Inr b \<and> rc_Entry_of C b = Inr e) \<and>
     (\<forall>h. \<exists>b. rc_HardState C h = Inr b \<and> rc_HardState_of C b = Inr h)"

definition entry_bytes :: "raft_codec \<Rightarrow> Entry \<Rightarrow> bytes" where
  "entry_bytes C e = projr (rc_Entry C e)"

lemma entry_bytes [simp]:
  assumes "raft_codec_ok C"
  shows "rc_Entry C e = Inr (entry_bytes C e)" "rc_Entry_of C (entry_bytes C e) = Inr e"
proof -
  obtain b where "rc_Entry C e = Inr b" "rc_Entry_of C b = Inr e"
    using assms by (auto simp: raft_codec_ok_def)
  then show "rc_Entry C e = Inr (entry_bytes C e)" "rc_Entry_of C (entry_bytes C e) = Inr e"
    by (simp_all add: entry_bytes_def)
qed

definition raft_key :: "PttID \<Rightarrow> nat \<Rightarrow> bytes" where
  "raft_key theID i = DBRaftPrefix @ theID @ PutUint64 (of_nat i)"

definition index_bound :: nat where
  "index_bound = 2 ^ 64 - 1"

lemma u64_of_nat_less: "i < 2 ^ 64 \<Longrightarrow> j < 2 ^ 64 \<Longrightarrow> (of_nat i :: u64) < of_nat j \<longleftrightarrow> i < j"
  by (simp add: word_less_nat_alt unat_of_nat)

lemma u64_of_nat_eq: "i < 2 ^ 64 \<Longrightarrow> j < 2 ^ 64 \<Longrightarrow> (of_nat i :: u64) = of_nat j \<longleftrightarrow> i = j"
  by (metis u64_of_nat_less linorder_neq_iff)

lemma raft_key_less [simp]:
  "i \<le> index_bound \<Longrightarrow> j \<le> index_bound \<Longrightarrow> raft_key theID i < raft_key theID j \<longleftrightarrow> i < j"
  by (simp add: raft_key_def codec_simps u64_of_nat_less index_bound_def)

lemma raft_key_inj [simp]:
  "i \<le> index_bound \<Longrightarrow> j \<le> index_bound \<Longrightarrow> raft_key theID i = raft_key theID j \<longleftrightarrow> i = j"
  by (metis raft_key_less linorder_neq_iff)

lemma raft_key_le [simp]:
  "i \<le> index_bound \<Longrightarrow> j \<le> index_bound \<Longrightarrow> raft_key theID i \<le> raft_key theID j \<longleftrightarrow> i \<le> j"
  by (metis raft_key_less linorder_not_less)

definition raft_range :: "PttID \<Rightarrow> nat \<Rightarrow> nat \<Rightarrow> Range" where
  "raft_range theID a b = \<lparr>Range_Start = Some (raft_key theID a), Range_Limit = Some (raft_key theID b)\<rparr>"

lemma in_raft_range: "in_range (Some (raft_range theID a b)) k \<longleftrightarrow> raft_key theID a \<le> k \<and> k < raft_key theID b"
  by (simp add: in_range_def raft_range_def)

lemma MaxUint64_bound: "MaxUint64 = of_nat index_bound"
  by (simp add: MaxUint64_def index_bound_def)

lemma Raft_MarshalKey_eq: "Raft_MarshalKey idx rs = raft_key (rs_myID rs) (unat idx)"
  by (simp add: Raft_MarshalKey_def raft_key_def)

lemma Raft_GetIter_eq:
  "\<exists>it. Raft_GetIter (of_nat a) rs = Ret it \<and>
     (a \<le> index_bound \<longrightarrow> visited ListOrderNext it =
       filter (\<lambda>kv. in_range (Some (raft_range (rs_myID rs) a index_bound)) (fst kv)) (ldb_kvs (dbRaft rs)))"
  using visited_range_next [of "Some (raft_range (rs_myID rs) a index_bound)" "dbRaft rs"]
  by (simp add: Raft_GetIter_def raft_range_def raft_key_def Raft_MarshalKey_def MaxUint64_bound NewIteratorWithRange_def)

text \<open>The log part of the database is exactly the entries \<open>D\<close>, at the indices from 0 on.\<close>

definition log_kvs :: "raft_codec \<Rightarrow> PttID \<Rightarrow> nat \<Rightarrow> Entry list \<Rightarrow> kv_list" where
  "log_kvs C theID a D = map (\<lambda>i. (raft_key theID i, entry_bytes C (D ! i))) [a..<length D]"

definition log_at :: "raft_codec \<Rightarrow> PttID \<Rightarrow> Entry list \<Rightarrow> LDBDatabase \<Rightarrow> bool" where
  "log_at C theID D db \<longleftrightarrow>
     (\<forall>k. in_range (Some (raft_range theID 0 index_bound)) k \<longrightarrow>
       (\<forall>v. ldb_view db k = Some v \<longleftrightarrow> (\<exists>i < length D. k = raft_key theID i \<and> v = entry_bytes C (D ! i))))"

lemma log_kvs_sorted:
  assumes "length D \<le> index_bound"
  shows "kv_sorted (log_kvs C theID a D)"
proof -
  have "sorted_wrt (\<lambda>i j. raft_key theID i < raft_key theID j) [a..<length D]"
    using assms by (auto intro: sorted_wrt_mono_rel [OF _ sorted_wrt_upt])
  then show ?thesis by (simp add: kv_sorted_def log_kvs_def sorted_wrt_map)
qed

lemma range_entries:
  assumes "ldb_ok db" "log_at C theID D db" "length D \<le> index_bound" "a \<le> index_bound"
  shows "filter (\<lambda>kv. in_range (Some (raft_range theID a index_bound)) (fst kv)) (ldb_kvs db) = log_kvs C theID a D"
proof (rule kv_sorted_unique)
  have s: "kv_sorted (ldb_kvs db)" using assms(1) by (simp add: ldb_ok_def)
  then show "kv_sorted (filter (\<lambda>kv. in_range (Some (raft_range theID a index_bound)) (fst kv)) (ldb_kvs db))"
    by (simp add: kv_sorted_def sorted_wrt_map sorted_wrt_filter)
  show "kv_sorted (log_kvs C theID a D)" using assms(3) by (rule log_kvs_sorted)
  have "(k, v) \<in> set (ldb_kvs db) \<and> in_range (Some (raft_range theID a index_bound)) k \<longleftrightarrow> (k, v) \<in> set (log_kvs C theID a D)"
    for k v
  proof -
    have "raft_key theID a \<le> k \<Longrightarrow> raft_key theID 0 \<le> k"
      using assms(4) by (metis order_trans raft_key_le zero_le)
    then have "(k, v) \<in> set (ldb_kvs db) \<and> in_range (Some (raft_range theID a index_bound)) k \<longleftrightarrow>
        in_range (Some (raft_range theID a index_bound)) k \<and>
        (\<exists>i < length D. k = raft_key theID i \<and> v = entry_bytes C (D ! i))"
      using assms(2) by (auto simp: log_at_def ldb_view_def kv_get_iff [OF s, symmetric] in_raft_range)
    also have "\<dots> \<longleftrightarrow> (k, v) \<in> set (log_kvs C theID a D)"
      using assms(3,4) by (auto simp: in_raft_range log_kvs_def)
    finally show ?thesis .
  qed
  then have "kv \<in> set (ldb_kvs db) \<and> in_range (Some (raft_range theID a index_bound)) (fst kv) \<longleftrightarrow>
      kv \<in> set (log_kvs C theID a D)" for kv
    by (cases kv) (simp only: fst_conv)
  then show "set (filter (\<lambda>kv. in_range (Some (raft_range theID a index_bound)) (fst kv)) (ldb_kvs db)) =
      set (log_kvs C theID a D)" unfolding set_filter by blast
qed

lemma log_at_get:
  assumes "log_at C theID D db" "i < length D" "length D \<le> index_bound"
  shows "ldb_view db (raft_key theID i) = Some (entry_bytes C (D ! i))"
  using assms by (auto simp: log_at_def in_raft_range)

lemma log_at_put:
  assumes "log_at C theID D db" "i \<le> length D" "i < index_bound" "length D \<le> index_bound"
    and v: "ldb_view db' = (ldb_view db)(raft_key theID i \<mapsto> entry_bytes C e)"
  shows "log_at C theID (take i D @ [e] @ drop (Suc i) D) db'"
  unfolding log_at_def
proof (intro allI impI)
  fix k w assume k: "in_range (Some (raft_range theID 0 index_bound)) k"
  let ?D = "take i D @ [e] @ drop (Suc i) D"
  have len: "length ?D = max (length D) (Suc i)" using assms(2) by auto
  have nth: "?D ! j = (if j = i then e else D ! j)" if "j < length ?D" for j
  proof (cases "i < j")
    case True
    then obtain m where "j = Suc (i + m)" using less_iff_Suc_add by blast
    with that assms(2) show ?thesis by (simp add: nth_append min_def split: if_splits)
  qed (use assms(2) in \<open>auto simp: nth_append min_def\<close>)
  show "ldb_view db' k = Some w \<longleftrightarrow> (\<exists>j < length ?D. k = raft_key theID j \<and> w = entry_bytes C (?D ! j))"
  proof (cases "k = raft_key theID i")
    case True
    then show ?thesis using assms len nth by (auto intro!: exI [of _ i])
  next
    case False
    then have "ldb_view db' k = Some w \<longleftrightarrow> (\<exists>j < length D. k = raft_key theID j \<and> w = entry_bytes C (D ! j))"
      using assms(1) k by (auto simp: log_at_def v)
    also have "\<dots> \<longleftrightarrow> (\<exists>j < length ?D. k = raft_key theID j \<and> w = entry_bytes C (?D ! j))"
    proof (rule ex_cong1)
      fix j
      have "j \<noteq> i \<Longrightarrow> j < length ?D \<longleftrightarrow> j < length D" using len assms(2) by auto
      then show "(j < length D \<and> k = raft_key theID j \<and> w = entry_bytes C (D ! j)) =
          (j < length ?D \<and> k = raft_key theID j \<and> w = entry_bytes C (?D ! j))"
        using False nth by metis
    qed
    finally show ?thesis .
  qed
qed

lemma log_at_other:
  assumes "log_at C theID D db" "\<not> in_range (Some (raft_range theID 0 index_bound)) k" "ldb_view db' = (ldb_view db)(k \<mapsto> v)"
  shows "log_at C theID D db'"
  using assms by (auto simp: log_at_def)

text \<open>The database without faults is used through the contract \<open>ldb\<close>.\<close>

lemma quiet_put:
  assumes "no_fault db" "ldb_ok db"
  shows "\<exists>db'. Ldb_Put k v db = (None, db') \<and> no_fault db' \<and> ldb_ok db' \<and> ldb_view db' = (ldb_view db)(k \<mapsto> v)"
proof -
  obtain db' where "Ldb_Put k v db = (None, db')" "no_fault db'" "ldb_view db' = (ldb_view db)(k \<mapsto> v)"
    using ldb.put_view [OF assms(1), of k v] by (auto simp: ldb_ops_def)
  moreover from this(1) have "ldb_ok db'" using Ldb_Put_frame(3) [OF assms(2), of k v] by simp
  ultimately show ?thesis by blast
qed

lemma quiet_get: "no_fault db \<Longrightarrow> Ldb_Get k db = (case ldb_view db k of None \<Rightarrow> Fail LdbErrNotFound | Some v \<Rightarrow> Ret v)"
  by (simp add: Ldb_Get_def no_fault_def ldb_view_def)

definition numbered :: "nat \<Rightarrow> Entry list \<Rightarrow> bool" where
  "numbered k ents \<longleftrightarrow> (\<forall>i < length ents. ent_Index (ents ! i) = of_nat (k + i))"

lemma numbered_Cons: "numbered k (e # es) \<longleftrightarrow> ent_Index e = of_nat k \<and> numbered (Suc k) es"
  by (auto simp: numbered_def nth_Cons split: nat.splits)

lemma numbered_append: "numbered k (xs @ ys) \<longleftrightarrow> numbered k xs \<and> numbered (k + length xs) ys"
  by (induction xs arbitrary: k) (auto simp: numbered_Cons numbered_def [of _ "[]"])

lemma numbered_take: "numbered k xs \<Longrightarrow> numbered k (take n xs)"
  by (simp add: numbered_def)

lemma numbered_drop: "numbered k xs \<Longrightarrow> numbered (k + n) (drop n xs)"
  by (auto simp: numbered_def add.assoc)

text \<open>What a change to the log leaves alone.\<close>

definition log_frame :: "PttID \<Rightarrow> LDBDatabase \<Rightarrow> LDBDatabase \<Rightarrow> bool" where
  "log_frame theID db db' \<longleftrightarrow> no_fault db' \<and> ldb_ok db' \<and>
     (\<forall>k. \<not> in_range (Some (raft_range theID 0 index_bound)) k \<longrightarrow> ldb_view db' k = ldb_view db k)"

lemma save_entries_log:
  assumes "raft_codec_ok C" "numbered k ents"
    and "no_fault (dbRaft rs)" "ldb_ok (dbRaft rs)" "log_at C (rs_myID rs) D (dbRaft rs)"
    and "k \<le> length D" "k + length ents \<le> index_bound" "length D \<le> index_bound"
  shows "\<exists>db'. save_entries C ents rs = (Ret (), rs\<lparr>dbRaft := db'\<rparr>) \<and> log_frame (rs_myID rs) (dbRaft rs) db' \<and>
    log_at C (rs_myID rs) (take k D @ ents @ drop (k + length ents) D) db'"
  using assms(2-8)
proof (induction ents arbitrary: k D rs)
  case Nil
  then show ?case by (intro exI [of _ "dbRaft rs"]) (simp add: log_frame_def)
next
  case (Cons e ents)
  let ?id = "rs_myID rs" and ?k = "raft_key (rs_myID rs) k" and ?D = "take k D @ [e] @ drop (Suc k) D"
  have k: "k < index_bound" using Cons.prems(6) by simp
  then have "unat (ent_Index e) = k"
    using Cons.prems(1) by (simp add: numbered_Cons index_bound_def unat_of_nat)
  moreover obtain db1 where db1: "Ldb_Put ?k (entry_bytes C e) (dbRaft rs) = (None, db1)" "no_fault db1" "ldb_ok db1"
      "ldb_view db1 = (ldb_view (dbRaft rs))(?k \<mapsto> entry_bytes C e)"
    using quiet_put [OF Cons.prems(2,3)] by blast
  ultimately have step: "SaveEntry C e rs = (Ret (), rs\<lparr>dbRaft := db1\<rparr>)"
    using assms(1) by (simp add: SaveEntry_def raft_put_def Raft_MarshalKey_eq)
  have len: "length ?D \<le> index_bound" using Cons.prems(5,7) k by auto
  have log: "log_at C ?id ?D db1"
    using Cons.prems k db1(4) by (intro log_at_put) auto
  obtain db' where db': "save_entries C ents (rs\<lparr>dbRaft := db1\<rparr>) = (Ret (), rs\<lparr>dbRaft := db'\<rparr>)" "log_frame ?id db1 db'"
      "log_at C ?id (take (Suc k) ?D @ ents @ drop (Suc k + length ents) ?D) db'"
    using Cons.IH [of "Suc k" "rs\<lparr>dbRaft := db1\<rparr>" ?D] Cons.prems db1 log len by (auto simp: numbered_Cons)
  have "take (Suc k) ?D @ ents @ drop (Suc k + length ents) ?D = take k D @ (e # ents) @ drop (k + length (e # ents)) D"
    using Cons.prems(5) by (simp add: min_def ac_simps)
  moreover have "in_range (Some (raft_range ?id 0 index_bound)) ?k" using k by (simp add: in_raft_range)
  then have "log_frame ?id (dbRaft rs) db'"
    using db'(2) db1(4) by (auto simp: log_frame_def)
  ultimately show ?case using db' step by (auto simp: st_bind_def)
qed

lemma entries_loop_log:
  assumes "raft_codec_ok C" "numbered a es" "b \<le> length es" "a + length es \<le> index_bound"
  shows "entries_loop C (of_nat (a + b)) (of_nat a) (map (\<lambda>i. (f i, entry_bytes C (es ! i))) [0..<length es]) acc =
    Ret (acc @ take b es)"
  using assms(2-4)
proof (induction es arbitrary: a b acc f)
  case (Cons e es)
  have m: "map (\<lambda>i. (f i, entry_bytes C ((e # es) ! i))) [0..<length (e # es)] =
      (f 0, entry_bytes C e) # map (\<lambda>i. (f (Suc i), entry_bytes C (es ! i))) [0..<length es]"
    by (simp add: upt_conv_Cons map_Suc_upt [symmetric] comp_def del: upt_Suc)
  have eq: "(of_nat a :: u64) = of_nat (a + b) \<longleftrightarrow> b = 0"
    using Cons.prems by (subst u64_of_nat_eq) (auto simp: index_bound_def)
  show ?case
  proof (cases b)
    case (Suc c)
    have "entries_loop C (of_nat (Suc a + c)) (of_nat (Suc a)) (map (\<lambda>i. (f (Suc i), entry_bytes C (es ! i))) [0..<length es]) (acc @ [e]) =
        Ret ((acc @ [e]) @ take c es)"
      using Cons.prems Suc by (intro Cons.IH) (auto simp: numbered_Cons)
    with Suc eq Cons.prems(1) assms(1) show ?thesis
      unfolding m by (simp add: numbered_Cons add.commute)
  next
    case 0
    show ?thesis unfolding m using 0 by simp
  qed
qed simp

lemma state_keys_outside:
  "\<not> in_range (Some (raft_range theID 0 index_bound)) (DBKeyRaftHardState @ theID)"
  "\<not> in_range (Some (raft_range theID 0 index_bound)) (DBKeyRaftSnapshot @ theID)"
  by (simp_all add: in_raft_range raft_key_def DBRaftPrefix_def DBKeyRaftHardState_def DBKeyRaftSnapshot_def)

lemma load_frame:
  assumes "no_fault (dbRaft rs)" "log_frame (rs_myID rs) (dbRaft rs) db'" "rs_myID rs' = rs_myID rs" "dbRaft rs' = db'"
  shows "LoadHardState C rs' = LoadHardState C rs" "LoadSnapshot C rs' = LoadSnapshot C rs"
proof -
  have "ldb_view db' (DBKeyRaftHardState @ rs_myID rs) = ldb_view (dbRaft rs) (DBKeyRaftHardState @ rs_myID rs)"
    "ldb_view db' (DBKeyRaftSnapshot @ rs_myID rs) = ldb_view (dbRaft rs) (DBKeyRaftSnapshot @ rs_myID rs)" "no_fault db'"
    using assms(2) state_keys_outside by (auto simp: log_frame_def)
  with assms show "LoadHardState C rs' = LoadHardState C rs" "LoadSnapshot C rs' = LoadSnapshot C rs"
    by (simp_all add: LoadHardState_def LoadSnapshot_def raft_get_def quiet_get MarshalKeyRaftHardState_def MarshalKeyRaftSnapshot_def)
qed

subsection \<open>The log as a list\<close>

text \<open>
  The abstract log: \<open>rl_all\<close> are the entries of index 1, 2, and so on that the database holds, of which
  the first \<open>rl_len\<close> are in the log. Index 0 holds the empty entry.
\<close>

record raft_log =
  rl_all :: "Entry list"
  rl_len :: nat
  rl_hs :: HardState

definition raft_rel :: "raft_codec \<Rightarrow> RaftStorage \<Rightarrow> raft_log \<Rightarrow> bool" where
  "raft_rel C rs A \<longleftrightarrow>
     no_fault (dbRaft rs) \<and> ldb_ok (dbRaft rs) \<and> length (rs_myID rs) = SizePttID \<and>
     firstIdx rs = 1 \<and> lastIdx rs = of_nat (rl_len A) \<and> rl_len A \<le> length (rl_all A) \<and>
     length (rl_all A) < index_bound \<and> numbered 1 (rl_all A) \<and>
     log_at C (rs_myID rs) (zero_Entry # rl_all A) (dbRaft rs) \<and>
     hardState rs = rl_hs A \<and> LoadHardState C rs = Ret (rl_hs A) \<and>
     snapshot rs = zero_Snapshot \<and> LoadSnapshot C rs = Fail LdbErrNotFound"

definition rl_append :: "Entry list \<Rightarrow> raft_log \<Rightarrow> raft_log" where
  "rl_append ents A =
     (let k = unat (ent_Index (hd ents));
          new = drop (1 - k) ents;
          j = k - 1
      in if new = [] then A
         else A\<lparr>rl_all := take j (rl_all A) @ new @ drop (j + length new) (rl_all A), rl_len := j + length new\<rparr>)"

text \<open>What the raft library appends: consecutive indices that continue or overwrite the log.\<close>

definition append_ok :: "Entry list \<Rightarrow> raft_log \<Rightarrow> bool" where
  "append_ok ents A \<longleftrightarrow>
     ents = [] \<or> (\<exists>k \<le> rl_len A + 1. numbered k ents \<and> k + length ents \<le> index_bound)"

lemma numbered_log: "numbered 1 all \<Longrightarrow> numbered 0 (zero_Entry # all)"
  by (simp add: numbered_Cons zero_Entry_def)

lemma raft_entries_of_rel:
  assumes "raft_codec_ok C" "raft_rel C rs A" "1 \<le> lo" "lo \<le> hi" "hi \<le> rl_len A + 1"
  shows "Raft_Entries C (of_nat lo) (of_nat hi) maxSize rs = Ret (take (hi - lo) (drop (lo - 1) (rl_all A)))"
proof (cases "lo = hi")
  case False
  let ?D = "zero_Entry # rl_all A"
  have b: "hi \<le> index_bound" "length ?D \<le> index_bound" "hi \<le> length ?D" using assms(2,5) by (auto simp: raft_rel_def)
  then have lt: "\<not> (of_nat hi :: u64) \<le> of_nat lo"
    using assms(4) False u64_of_nat_less [of lo hi] by (simp add: index_bound_def not_le)
  obtain it where it: "Raft_GetIter (of_nat lo) rs = Ret it" "visited ListOrderNext it = log_kvs C (rs_myID rs) lo ?D"
    using Raft_GetIter_eq [of lo rs] range_entries [of "dbRaft rs" C "rs_myID rs" ?D lo] assms(2,4) b by (auto simp: raft_rel_def)
  have kvs: "log_kvs C (rs_myID rs) lo ?D =
      map (\<lambda>i. (raft_key (rs_myID rs) (lo + i), entry_bytes C (drop lo ?D ! i))) [0..<length (drop lo ?D)]"
    unfolding log_kvs_def by (rule nth_equalityI) (use assms(4) b in \<open>auto simp: ac_simps simp del: upt_Suc\<close>)
  have "numbered lo (drop lo ?D)"
    using numbered_drop [OF numbered_log, of "rl_all A" lo] assms(2) by (simp add: raft_rel_def)
  then have "entries_loop C (of_nat (lo + (hi - lo))) (of_nat lo) (log_kvs C (rs_myID rs) lo ?D) [] =
      Ret ([] @ take (hi - lo) (drop lo ?D))"
    unfolding kvs using assms(1,4) b by (intro entries_loop_log) auto
  moreover have "drop lo ?D = drop (lo - 1) (rl_all A)" using assms(3) by (cases lo) auto
  ultimately show ?thesis using lt it assms(4) by (simp add: Raft_Entries_def)
qed (simp add: Raft_Entries_def)

lemma raft_term_of_rel:
  assumes "raft_codec_ok C" "raft_rel C rs A" "i \<le> rl_len A"
  shows "Raft_Term C (of_nat i) rs = Ret (ent_Term ((zero_Entry # rl_all A) ! i))"
proof -
  have "unat (of_nat i :: u64) = i" using assms(2,3) by (simp add: raft_rel_def index_bound_def unat_of_nat)
  moreover have "ldb_view (dbRaft rs) (raft_key (rs_myID rs) i) = Some (entry_bytes C ((zero_Entry # rl_all A) ! i))"
    using assms(2,3) by (intro log_at_get) (auto simp: raft_rel_def)
  ultimately show ?thesis
    using assms(1,2) by (simp add: Raft_Term_def raft_get_def Raft_MarshalKey_eq quiet_get raft_rel_def)
qed

lemma numbered_unat:
  assumes "numbered k ents" "i < length ents" "k + length ents \<le> index_bound"
  shows "unat (ent_Index (ents ! i)) = k + i"
proof -
  have "ent_Index (ents ! i) = of_nat (k + i)" "k + i < 2 ^ 64"
    using assms by (auto simp: numbered_def index_bound_def)
  then show ?thesis by (simp add: unat_of_nat del: of_nat_add)
qed

text \<open>The relation survives a change of the log part of the database.\<close>

lemma raft_rel_log:
  assumes "raft_rel C rs A" "log_frame (rs_myID rs) (dbRaft rs) db'"
    and "log_at C (rs_myID rs) (zero_Entry # all) db'" "numbered 1 all" "n \<le> length all" "length all < index_bound" "l = of_nat n"
  shows "raft_rel C (rs\<lparr>dbRaft := db', lastIdx := l\<rparr>) (A\<lparr>rl_all := all, rl_len := n\<rparr>)"
proof -
  let ?rs = "rs\<lparr>dbRaft := db', lastIdx := l\<rparr>"
  have "no_fault (dbRaft rs)" using assms(1) by (simp add: raft_rel_def)
  then have "LoadHardState C ?rs = LoadHardState C rs" "LoadSnapshot C ?rs = LoadSnapshot C rs"
    using load_frame [OF _ assms(2), of ?rs] by simp_all
  moreover have "no_fault db'" "ldb_ok db'" using assms(2) by (simp_all add: log_frame_def)
  ultimately show ?thesis using assms(1,3-7) by (simp add: raft_rel_def)
qed

lemma append_window:
  assumes "ents \<noteq> []" "numbered k ents" "k + length ents \<le> index_bound"
  shows "unat (ent_Index (hd ents)) = k"
    and "ent_Index (last ents) < 1 \<longleftrightarrow> drop (1 - k) ents = []"
    and "(if ent_Index (hd ents) < 1 then unat (1 - ent_Index (hd ents)) else 0) = 1 - k"
proof -
  show h: "unat (ent_Index (hd ents)) = k"
    using assms(1) numbered_unat [OF assms(2) _ assms(3), of 0] by (simp add: hd_conv_nth)
  have l: "unat (ent_Index (last ents)) = k + (length ents - 1)"
    using assms(1) numbered_unat [OF assms(2) _ assms(3), of "length ents - 1"] by (simp add: last_conv_nth)
  show "ent_Index (last ents) < 1 \<longleftrightarrow> drop (1 - k) ents = []"
    unfolding word_less_nat_alt l using assms(1) by (cases ents; cases k) auto
  show "(if ent_Index (hd ents) < 1 then unat (1 - ent_Index (hd ents)) else 0) = 1 - k"
  proof (cases "k = 0")
    case True
    with h have "ent_Index (hd ents) = 0" by (simp add: unat_eq_0)
    with True show ?thesis by simp
  next
    case False
    then show ?thesis unfolding word_less_nat_alt h by simp
  qed
qed

lemma splice_log:
  assumes "numbered 1 all" "numbered (Suc j) new" "j \<le> length all" "length all < index_bound"
    and "Suc j + length new \<le> index_bound" "new \<noteq> []"
  shows "numbered 1 (take j all @ new @ drop (j + length new) all)"
    and "j + length new \<le> length (take j all @ new @ drop (j + length new) all)"
    and "length (take j all @ new @ drop (j + length new) all) < index_bound"
    and "ent_Index (last new) = of_nat (j + length new)"
proof -
  have l: "length (take j all @ new @ drop (j + length new) all) = j + length new + (length all - (j + length new))"
    using assms(3) by simp
  show "length (take j all @ new @ drop (j + length new) all) < index_bound" unfolding l using assms(4,5) by linarith
  show "j + length new \<le> length (take j all @ new @ drop (j + length new) all)" unfolding l by (rule le_add1)
  show "numbered 1 (take j all @ new @ drop (j + length new) all)"
    using numbered_take [OF assms(1)] numbered_drop [OF assms(1), of "j + length new"] assms(2,3)
    by (simp add: numbered_append min_absorb2 add.assoc)
  have "ent_Index (last new) = of_nat (Suc j + (length new - 1))"
    using assms(2,6) unfolding last_conv_nth [OF assms(6)] numbered_def by (metis diff_less length_greater_0_conv zero_less_one)
  then show "ent_Index (last new) = of_nat (j + length new)"
    using assms(6) by (metis One_nat_def Suc_pred add_Suc add_Suc_right length_greater_0_conv)
qed

lemma append_rel:
  assumes "raft_codec_ok C" "raft_rel C rs A" "append_ok ents A"
  shows "\<exists>rs'. Raft_Append C ents rs = (Ret (), rs') \<and> raft_rel C rs' (rl_append ents A) \<and> rs_myID rs' = rs_myID rs"
proof (cases "ents = []")
  case False
  then obtain k where k: "k \<le> rl_len A + 1" "numbered k ents" "k + length ents \<le> index_bound"
    using assms(3) by (auto simp: append_ok_def)
  let ?D = "zero_Entry # rl_all A" and ?new = "drop (1 - k) ents" and ?j = "k - 1"
  let ?all = "take ?j (rl_all A) @ ?new @ drop (?j + length ?new) (rl_all A)"
  note w = append_window [OF False k(2,3)]
  have rel: "firstIdx rs = 1" "rl_len A \<le> length (rl_all A)" "length (rl_all A) < index_bound" "numbered 1 (rl_all A)"
    "no_fault (dbRaft rs)" "ldb_ok (dbRaft rs)" "log_at C (rs_myID rs) ?D (dbRaft rs)"
    using assms(2) by (simp_all add: raft_rel_def)
  show ?thesis
  proof (cases "?new = []")
    case True
    with assms(2) False w rel(1) show ?thesis by (simp add: Raft_Append_def rl_append_def)
  next
    case new: False
    have num: "numbered (Suc ?j) ?new" using numbered_drop [OF k(2), of "1 - k"] by (cases k) auto
    have bound: "Suc ?j + length ?new \<le> index_bound" using k(3) new by (cases k) auto
    have j: "?j \<le> length (rl_all A)" using k(1) rel(2) by linarith
    obtain db' where db': "save_entries C ?new rs = (Ret (), rs\<lparr>dbRaft := db'\<rparr>)" "log_frame (rs_myID rs) (dbRaft rs) db'"
        "log_at C (rs_myID rs) (take (Suc ?j) ?D @ ?new @ drop (Suc ?j + length ?new) ?D) db'"
      using save_entries_log [OF assms(1) num rel(5,6,7)] rel(3) bound j by auto
    have run: "Raft_Append C ents rs = (Ret (), rs\<lparr>dbRaft := db', lastIdx := ent_Index (last ?new)\<rparr>)"
      unfolding Raft_Append_def rel(1) Let_def w(2,3) using False new db'(1) by (simp add: st_bind_def)
    note sp = splice_log [OF rel(4) num j rel(3) bound new]
    have "rl_append ents A = A\<lparr>rl_all := ?all, rl_len := ?j + length ?new\<rparr>"
      using new w(1) by (simp add: rl_append_def Let_def)
    moreover have "raft_rel C (rs\<lparr>dbRaft := db', lastIdx := ent_Index (last ?new)\<rparr>) (A\<lparr>rl_all := ?all, rl_len := ?j + length ?new\<rparr>)"
      using db'(3) by (intro raft_rel_log [OF assms(2) db'(2) _ sp]) simp
    ultimately show ?thesis using run by simp
  qed
qed (use assms in \<open>auto simp: Raft_Append_def rl_append_def\<close>)

lemma hard_state_rel:
  assumes "raft_codec_ok C" "raft_rel C rs A"
  shows "\<exists>rs'. SetHardState C hs rs = (Ret (), rs') \<and> raft_rel C rs' (A\<lparr>rl_hs := hs\<rparr>) \<and> rs_myID rs' = rs_myID rs"
proof -
  let ?k = "DBKeyRaftHardState @ rs_myID rs"
  obtain b where b: "rc_HardState C hs = Inr b" "rc_HardState_of C b = Inr hs" using assms(1) by (auto simp: raft_codec_ok_def)
  obtain db' where db': "Ldb_Put ?k b (dbRaft rs) = (None, db')" "no_fault db'" "ldb_ok db'"
      "ldb_view db' = (ldb_view (dbRaft rs))(?k \<mapsto> b)"
    using quiet_put [of "dbRaft rs" ?k b] assms(2) by (auto simp: raft_rel_def)
  let ?rs = "rs\<lparr>dbRaft := db', hardState := hs\<rparr>"
  have run: "SetHardState C hs rs = (Ret (), ?rs)"
    using b db'(1) by (simp add: SetHardState_def st_bind_def raft_put_def MarshalKeyRaftHardState_def)
  have "LoadHardState C ?rs = Ret hs"
    using db' b by (simp add: LoadHardState_def raft_get_def quiet_get MarshalKeyRaftHardState_def)
  moreover have "DBKeyRaftSnapshot @ rs_myID rs \<noteq> ?k" by (simp add: DBKeyRaftHardState_def DBKeyRaftSnapshot_def)
  then have "LoadSnapshot C ?rs = LoadSnapshot C rs"
    using db' assms(2) by (simp add: LoadSnapshot_def raft_get_def quiet_get MarshalKeyRaftSnapshot_def raft_rel_def)
  moreover have "log_at C (rs_myID rs) (zero_Entry # rl_all A) db'"
    using log_at_other [OF _ state_keys_outside(1) db'(4)] assms(2) by (simp add: raft_rel_def)
  ultimately show ?thesis using run assms(2) db' by (simp add: raft_rel_def)
qed

lemma GetIdxByKey_raft_key [simp]: "length theID = SizePttID \<Longrightarrow> GetIdxByKey (raft_key theID i) = Ret (of_nat i)"
  by (simp add: GetIdxByKey_def raft_key_def DBRaftPrefix_def id_size_defs codec_simps)

lemma first_and_last_key:
  assumes "ldb_ok (dbRaft rs)" "log_at C (rs_myID rs) (e # all) (dbRaft rs)" "length all < index_bound"
  shows "\<exists>it v kvs. Raft_GetIter 0 rs = Ret it \<and> visited ListOrderNext it = (raft_key (rs_myID rs) 0, v) # kvs"
    and "\<exists>it v kvs. Raft_GetPrevIter MaxUint64 rs = Ret it \<and>
      visited ListOrderPrev it = (raft_key (rs_myID rs) (length all), v) # kvs"
proof -
  let ?id = "rs_myID rs" and ?R = "raft_range (rs_myID rs) 0 index_bound"
  have kvs: "filter (\<lambda>kv. in_range (Some ?R) (fst kv)) (ldb_kvs (dbRaft rs)) = log_kvs C ?id 0 (e # all)"
    using assms by (intro range_entries) auto
  show "\<exists>it v kvs. Raft_GetIter 0 rs = Ret it \<and> visited ListOrderNext it = (raft_key ?id 0, v) # kvs"
    using Raft_GetIter_eq [of 0 rs] kvs by (auto simp: log_kvs_def upt_conv_Cons simp del: upt_Suc)
  have "\<exists>it. NewIteratorWithRange (Some ?R) ListOrderPrev (dbRaft rs) = Ret it \<and>
      visited ListOrderPrev it = rev (filter (\<lambda>kv. in_range (Some ?R) (fst kv)) (ldb_kvs (dbRaft rs)))"
    by (rule visited_range_prev [where l = "raft_key ?id index_bound"]) (simp_all add: in_raft_range, simp add: raft_range_def)
  then show "\<exists>it v kvs. Raft_GetPrevIter MaxUint64 rs = Ret it \<and>
      visited ListOrderPrev it = (raft_key ?id (length all), v) # kvs"
    unfolding kvs by (auto simp: log_kvs_def Raft_GetPrevIter_def raft_range_def Raft_MarshalKey_def raft_key_def MaxUint64_bound)
qed

lemma restart_rel:
  assumes "raft_rel C rs A"
  shows "\<exists>rs'. NewRaftStorage C False (rs_myID rs) (dbRaft rs) = (Ret (), rs') \<and>
    raft_rel C rs' (A\<lparr>rl_len := length (rl_all A)\<rparr>) \<and> rs_myID rs' = rs_myID rs"
proof -
  let ?rs0 = "new_raft_storage (rs_myID rs) (dbRaft rs)"
  let ?rs1 = "?rs0\<lparr>firstIdx := 1\<rparr>"
  let ?rs2 = "?rs1\<lparr>lastIdx := of_nat (length (rl_all A))\<rparr>"
  have load: "LoadHardState C rs' = Ret (rl_hs A)" "LoadSnapshot C rs' = Fail LdbErrNotFound"
    if "rs_myID rs' = rs_myID rs" "dbRaft rs' = dbRaft rs" for rs'
    using assms that load_frame [of rs "dbRaft rs" rs' C] by (simp_all add: raft_rel_def log_frame_def)
  have id: "length (rs_myID rs) = SizePttID" using assms by (simp add: raft_rel_def)
  obtain it v kvs where it: "Raft_GetIter 0 ?rs0 = Ret it" "visited ListOrderNext it = (raft_key (rs_myID rs) 0, v) # kvs"
    using first_and_last_key(1) [of ?rs0 C zero_Entry "rl_all A"] assms by (auto simp: raft_rel_def new_raft_storage_def)
  obtain it2 v2 kvs2 where it2: "Raft_GetPrevIter MaxUint64 ?rs1 = Ret it2"
      "visited ListOrderPrev it2 = (raft_key (rs_myID rs) (length (rl_all A)), v2) # kvs2"
    using first_and_last_key(2) [of ?rs1 C zero_Entry "rl_all A"] assms by (auto simp: raft_rel_def new_raft_storage_def)
  have "load_storage C 0 ?rs0 = (Ret (), ?rs2\<lparr>hardState := rl_hs A, snapshot := zero_Snapshot\<rparr>)"
    using it2 id load [of ?rs2] load [of "?rs2\<lparr>hardState := rl_hs A\<rparr>"]
    by (simp add: load_storage_def or_zero_def new_raft_storage_def)
  then have "NewRaftStorage C False (rs_myID rs) (dbRaft rs) = (Ret (), ?rs2\<lparr>hardState := rl_hs A, snapshot := zero_Snapshot\<rparr>)"
    using it id by (simp add: NewRaftStorage_def)
  moreover have "raft_rel C (?rs2\<lparr>hardState := rl_hs A, snapshot := zero_Snapshot\<rparr>) (A\<lparr>rl_len := length (rl_all A)\<rparr>)"
    using assms load [of "?rs2\<lparr>hardState := rl_hs A, snapshot := zero_Snapshot\<rparr>"]
    by (simp add: raft_rel_def new_raft_storage_def)
  ultimately show ?thesis by (simp add: new_raft_storage_def)
qed

text \<open>A clean start forgets the log, whatever the database held under the log's keys.\<close>

lemma delete_log_keys_view:
  assumes "no_fault db" "ldb_ok db"
  shows "let db' = fold (\<lambda>k db. snd (Ldb_Delete k db)) ks db
    in no_fault db' \<and> ldb_ok db' \<and> ldb_view db' = (\<lambda>k. if k \<in> set ks then None else ldb_view db k)"
  using assms
proof (induction ks arbitrary: db)
  case (Cons k ks)
  obtain db1 where db1: "Ldb_Delete k db = (None, db1)" "no_fault db1" "ldb_view db1 = (ldb_view db)(k := None)"
    using ldb.del_view [OF Cons.prems(1), of k] by (auto simp: ldb_ops_def)
  moreover have "ldb_ok db1" using Ldb_Delete_frame(3) [OF Cons.prems(2), of k] db1(1) by simp
  ultimately show ?case using Cons.IH [of db1] by (auto simp: Let_def fun_eq_iff)
qed (simp add: Let_def)

lemma clean_log:
  assumes "no_fault db" "ldb_ok db"
  shows "\<exists>db'. CleanRaftStorage (new_raft_storage theID db) = (Ret (), new_raft_storage theID db') \<and>
    log_frame theID db db' \<and> log_at C theID [] db'"
proof -
  let ?rs = "new_raft_storage theID db" and ?R = "raft_range theID 0 index_bound"
  obtain it where it: "Raft_GetIter 0 ?rs = Ret it"
      "visited ListOrderNext it = filter (\<lambda>kv. in_range (Some ?R) (fst kv)) (ldb_kvs db)"
    using Raft_GetIter_eq [of 0 ?rs] by (auto simp: new_raft_storage_def)
  let ?ks = "map fst (visited ListOrderNext it)"
  define db1 where "db1 = fold (\<lambda>k db. snd (Ldb_Delete k db)) ?ks db"
  have db1: "no_fault db1" "ldb_ok db1" "ldb_view db1 = (\<lambda>k. if k \<in> set ?ks then None else ldb_view db k)"
    using delete_log_keys_view [OF assms, of ?ks] by (simp_all add: db1_def Let_def)
  have "ldb_view db1 k = None" if "in_range (Some ?R) k" for k
  proof (cases "ldb_view db k")
    case (Some v)
    then have "k \<in> set ?ks" using that by (force simp: it(2) ldb_view_def dest: map_of_SomeD)
    then show ?thesis unfolding db1(3) by simp
  qed (simp add: db1(3))
  moreover have "ldb_view db1 k = ldb_view db k" if "\<not> in_range (Some ?R) k" for k
    using that unfolding db1(3) it(2) by auto
  ultimately have "log_at C theID [] db1" "log_frame theID db db1"
    using db1(1,2) by (simp_all add: log_at_def log_frame_def)
  then show ?thesis
    using it(1) by (auto simp: CleanRaftStorage_def delete_keys_def db1_def new_raft_storage_def)
qed

definition empty_log :: raft_log where
  "empty_log = \<lparr>rl_all = [], rl_len = 0, rl_hs = zero_HardState\<rparr>"

lemma init_rel:
  assumes "raft_codec_ok C" "no_fault db" "ldb_ok db" "length theID = SizePttID"
    and "ldb_view db (DBKeyRaftSnapshot @ theID) = None" "log_at C theID [] db"
  shows "\<exists>rs. init_storage C (new_raft_storage theID db) = (Ret (), rs) \<and> raft_rel C rs empty_log \<and> rs_myID rs = theID"
proof -
  let ?rs = "new_raft_storage theID db" and ?k = "DBKeyRaftHardState @ theID"
  have "numbered 0 [zero_Entry]" using numbered_log [of "[]"] by (simp add: numbered_def)
  then obtain db2 where db2: "save_entries C [zero_Entry] ?rs = (Ret (), ?rs\<lparr>dbRaft := db2\<rparr>)" "log_frame theID db db2"
      "log_at C theID [zero_Entry] db2"
    using save_entries_log [OF assms(1), of 0 "[zero_Entry]" ?rs "[]"] assms by (auto simp: new_raft_storage_def index_bound_def)
  then have save: "SaveEntry C zero_Entry ?rs = (Ret (), ?rs\<lparr>dbRaft := db2\<rparr>)"
    by (auto simp: st_bind_def res_then_def split: prod.splits res.splits)
  have snap: "ldb_view db2 (DBKeyRaftSnapshot @ theID) = None"
    using db2(2) assms(5) state_keys_outside(2) [of theID] by (simp add: log_frame_def)
  let ?rs2 = "?rs\<lparr>dbRaft := db2, firstIdx := 1, lastIdx := 0\<rparr>"
  obtain b where b: "rc_HardState C zero_HardState = Inr b" "rc_HardState_of C b = Inr zero_HardState"
    using assms(1) by (auto simp: raft_codec_ok_def)
  obtain db3 where db3: "Ldb_Put ?k b db2 = (None, db3)" "no_fault db3" "ldb_ok db3" "ldb_view db3 = (ldb_view db2)(?k \<mapsto> b)"
    using quiet_put [of db2 ?k b] db2(2) by (auto simp: log_frame_def)
  let ?rs3 = "?rs2\<lparr>dbRaft := db3, hardState := zero_HardState\<rparr>"
  have set: "SetHardState C zero_HardState ?rs2 = (Ret (), ?rs3)"
    using b db3(1) by (simp add: SetHardState_def st_bind_def raft_put_def MarshalKeyRaftHardState_def new_raft_storage_def)
  have "ApplySnapshot C zero_Snapshot ?rs3 = (Fail RaftErrSnapOutOfDate, ?rs3)"
    by (simp add: ApplySnapshot_def new_raft_storage_def)
  then have "init_storage C ?rs = (Ret (), ?rs3)"
    using save set by (simp add: init_storage_def st_bind_def ignore_err_def)
  moreover have "DBKeyRaftSnapshot @ theID \<noteq> ?k" by (simp add: DBKeyRaftHardState_def DBKeyRaftSnapshot_def)
  then have "raft_rel C ?rs3 empty_log"
    using assms(4) db2(3) db3 b snap log_at_other [OF db2(3) state_keys_outside(1) db3(4)]
    by (simp add: raft_rel_def new_raft_storage_def LoadHardState_def LoadSnapshot_def raft_get_def quiet_get
        MarshalKeyRaftHardState_def MarshalKeyRaftSnapshot_def numbered_def index_bound_def empty_log_def)
  ultimately show ?thesis by (simp add: new_raft_storage_def)
qed

lemma clean_rel:
  assumes "raft_codec_ok C" "no_fault db" "ldb_ok db" "length theID = SizePttID"
    and "ldb_view db (DBKeyRaftSnapshot @ theID) = None"
  shows "\<exists>rs. NewRaftStorage C True theID db = (Ret (), rs) \<and> raft_rel C rs empty_log \<and> rs_myID rs = theID"
proof -
  obtain db' where db': "CleanRaftStorage (new_raft_storage theID db) = (Ret (), new_raft_storage theID db')"
      "log_frame theID db db'" "log_at C theID [] db'"
    using clean_log [OF assms(2,3)] by blast
  then have "ldb_view db' (DBKeyRaftSnapshot @ theID) = None"
    using assms(5) state_keys_outside(2) [of theID] by (simp add: log_frame_def)
  with db' init_rel [OF assms(1) _ _ assms(4), of db'] show ?thesis
    by (auto simp: NewRaftStorage_def NewRaftStorageWithClean_def st_bind_def log_frame_def new_raft_storage_def)
qed

subsection \<open>Runs\<close>

fun run_all :: "('c \<Rightarrow> 's \<Rightarrow> unit res \<times> 's) \<Rightarrow> 'c list \<Rightarrow> 's \<Rightarrow> unit res \<times> 's" where
  "run_all run [] s = (Ret (), s)"
| "run_all run (c # cs) s = st_bind (run c) (\<lambda>_. run_all run cs) s"

fun run_ok :: "('c \<Rightarrow> 'a \<Rightarrow> bool) \<Rightarrow> ('c \<Rightarrow> 'a \<Rightarrow> 'a) \<Rightarrow> 'c list \<Rightarrow> 'a \<Rightarrow> bool" where
  "run_ok ok spec [] A = True"
| "run_ok ok spec (c # cs) A = (ok c A \<and> run_ok ok spec cs (spec c A))"

text \<open>
  Commands on a state that a specification describes: when every command keeps the relation, so does a run.
\<close>

locale command_refinement =
  fixes rel :: "'s \<Rightarrow> 'a \<Rightarrow> bool"
    and ok :: "'c \<Rightarrow> 'a \<Rightarrow> bool"
    and run :: "'c \<Rightarrow> 's \<Rightarrow> unit res \<times> 's"
    and spec :: "'c \<Rightarrow> 'a \<Rightarrow> 'a"
  assumes simulates: "rel s A \<Longrightarrow> ok c A \<Longrightarrow> \<exists>s'. run c s = (Ret (), s') \<and> rel s' (spec c A)"
begin

lemma run_simulates:
  "rel s A \<Longrightarrow> run_ok ok spec cs A \<Longrightarrow> \<exists>s'. run_all run cs s = (Ret (), s') \<and> rel s' (fold spec cs A)"
proof (induction cs arbitrary: s A)
  case (Cons c cs)
  obtain s1 where "run c s = (Ret (), s1)" "rel s1 (spec c A)" using simulates Cons.prems by fastforce
  then show ?case using Cons.IH [of s1 "spec c A"] Cons.prems by (simp add: st_bind_def)
qed simp

end

datatype raft_cmd = RAppend "Entry list" | RSetHardState HardState | RRestart

definition raft_run :: "raft_codec \<Rightarrow> raft_cmd \<Rightarrow> RaftStorage \<Rightarrow> unit res \<times> RaftStorage" where
  "raft_run C c rs =
     (case c of
        RAppend ents \<Rightarrow> Raft_Append C ents rs
      | RSetHardState hs \<Rightarrow> SetHardState C hs rs
      | RRestart \<Rightarrow> NewRaftStorage C False (rs_myID rs) (dbRaft rs))"

definition rl_run :: "raft_cmd \<Rightarrow> raft_log \<Rightarrow> raft_log" where
  "rl_run c A =
     (case c of
        RAppend ents \<Rightarrow> rl_append ents A
      | RSetHardState hs \<Rightarrow> A\<lparr>rl_hs := hs\<rparr>
      | RRestart \<Rightarrow> A\<lparr>rl_len := length (rl_all A)\<rparr>)"

definition raft_cmd_ok :: "raft_cmd \<Rightarrow> raft_log \<Rightarrow> bool" where
  "raft_cmd_ok c A = (case c of RAppend ents \<Rightarrow> append_ok ents A | _ \<Rightarrow> True)"

interpretation raft_log: command_refinement "\<lambda>rs A. raft_codec_ok C \<and> raft_rel C rs A \<and> rs_myID rs = theID"
  raft_cmd_ok "raft_run C" rl_run for C theID
proof
  fix s A c assume "raft_codec_ok C \<and> raft_rel C s A \<and> rs_myID s = theID" "raft_cmd_ok c A"
  then show "\<exists>s'. raft_run C c s = (Ret (), s') \<and> raft_codec_ok C \<and> raft_rel C s' (rl_run c A) \<and> rs_myID s' = theID"
    using append_rel [of C s A] hard_state_rel [of C s A] restart_rel [of C s A]
    by (auto simp: raft_cmd_ok_def raft_run_def rl_run_def split: raft_cmd.splits)
qed

subsection \<open>Where the storage departs from the raft library's contract\<close>

text \<open>
  \<^verbatim>\<open>ApplySnapshot\<close> of the empty snapshot, with which a new storage is meant to reset the stored one, is always out of date.
\<close>

lemma empty_snapshot_rejected: "ApplySnapshot C zero_Snapshot rs = (Fail RaftErrSnapOutOfDate, rs)"
  by (simp add: ApplySnapshot_def zero_Snapshot_def)

text \<open>\<^verbatim>\<open>Compact\<close> does not move the first index past the entries it removes.\<close>

lemma compact_keeps_first: "firstIdx (snd (Raft_Compact idx rs)) = firstIdx rs"
  by (auto simp: Raft_Compact_def delete_keys_def res_then_def split: res.splits)

text \<open>A received snapshot leaves no entry at its own index, so its term cannot be read.\<close>

lemma snapshot_term_missing:
  assumes "raft_rel C rs A" "rc_Snapshot C snap = Inr b" "md_Index (snap_Metadata snap) = of_nat i"
    and "length (rl_all A) < i" "i < index_bound"
  shows "\<exists>rs'. ApplySnapshot C snap rs = (Ret (), rs') \<and> Raft_LastIndex rs' = of_nat i \<and>
    Raft_Term C (of_nat i) rs' = Fail LdbErrNotFound"
proof -
  let ?k = "DBKeyRaftSnapshot @ rs_myID rs" and ?key = "raft_key (rs_myID rs) i"
  have db: "no_fault (dbRaft rs)" "ldb_ok (dbRaft rs)" "log_at C (rs_myID rs) (zero_Entry # rl_all A) (dbRaft rs)" "snapshot rs = zero_Snapshot"
    using assms(1) by (simp_all add: raft_rel_def)
  obtain db' where db': "Ldb_Put ?k b (dbRaft rs) = (None, db')" "no_fault db'" "ldb_view db' = (ldb_view (dbRaft rs))(?k \<mapsto> b)"
    using quiet_put [OF db(1,2), of ?k b] by blast
  let ?rs = "rs\<lparr>dbRaft := db', snapshot := snap, firstIdx := of_nat i + 1, lastIdx := of_nat i\<rparr>"
  have u: "unat (of_nat i :: u64) = i" using assms(5) by (simp add: index_bound_def unat_of_nat)
  have "(of_nat i :: u64) < of_nat (i + 1)" using assms(5) by (subst u64_of_nat_less) (auto simp: index_bound_def)
  then have "Raft_Compact (of_nat i) ?rs = (Ret (), ?rs)" by (simp add: Raft_Compact_def add.commute)
  moreover have "0 < (of_nat i :: u64)" using u assms(4) by (simp add: word_less_nat_alt)
  ultimately have run: "ApplySnapshot C snap rs = (Ret (), ?rs)"
    using db' db(4) assms(2,3)
    by (simp add: ApplySnapshot_def st_bind_def raft_put_def MarshalKeyRaftSnapshot_def zero_Snapshot_def Let_def)
  have "in_range (Some (raft_range (rs_myID rs) 0 index_bound)) ?key" using assms(5) by (simp add: in_raft_range)
  then have "ldb_view (dbRaft rs) ?key = None" "?key \<noteq> ?k"
    using db(3) assms(4,5) state_keys_outside(2) [of "rs_myID rs"] by (auto simp: log_at_def less_Suc_eq_le not_Some_eq [symmetric] simp del: not_Some_eq)
  then have "Raft_Term C (of_nat i) ?rs = Fail LdbErrNotFound"
    using db' u by (simp add: Raft_Term_def raft_get_def Raft_MarshalKey_eq quiet_get)
  with run show ?thesis by (simp add: Raft_LastIndex_def)
qed

text \<open>
  Three entries of term 1 are written, the second is overwritten by the leader of term 2, and the node restarts: the
  third entry is back in the log, after an entry of a later term.
\<close>

definition example_raft_entry :: "u64 \<Rightarrow> u64 \<Rightarrow> Entry" where
  "example_raft_entry theTerm idx =
     \<lparr>ent_Term = theTerm, ent_Index = idx, ent_Type = 0, ent_Data = None, ent_XXX_unrecognized = None\<rparr>"

definition overwritten :: "raft_cmd list" where
  "overwritten = [RAppend [example_raft_entry 1 1, example_raft_entry 1 2, example_raft_entry 1 3],
     RAppend [example_raft_entry 2 2]]"

lemma overwritten_ok: "run_ok raft_cmd_ok rl_run overwritten empty_log"
  "fold rl_run overwritten empty_log =
     \<lparr>rl_all = [example_raft_entry 1 1, example_raft_entry 2 2, example_raft_entry 1 3], rl_len = 2, rl_hs = zero_HardState\<rparr>"
proof -
  have n: "numbered 1 [example_raft_entry 1 1, example_raft_entry 1 2, example_raft_entry 1 3]" "numbered 2 [example_raft_entry 2 2]"
    by (simp_all add: numbered_Cons numbered_def [of _ "[]"] example_raft_entry_def)
  have "append_ok [example_raft_entry 1 1, example_raft_entry 1 2, example_raft_entry 1 3] empty_log"
    unfolding append_ok_def using n(1) by (intro disjI2 exI [of _ 1]) (simp add: empty_log_def index_bound_def)
  moreover have "append_ok [example_raft_entry 2 2] A" if "rl_len A = 3" for A
    unfolding append_ok_def using n(2) that by (intro disjI2 exI [of _ 2]) (simp add: index_bound_def)
  ultimately show "run_ok raft_cmd_ok rl_run overwritten empty_log"
    by (simp add: overwritten_def raft_cmd_ok_def rl_run_def rl_append_def example_raft_entry_def empty_log_def)
  show "fold rl_run overwritten empty_log =
     \<lparr>rl_all = [example_raft_entry 1 1, example_raft_entry 2 2, example_raft_entry 1 3], rl_len = 2, rl_hs = zero_HardState\<rparr>"
    by (simp add: overwritten_def rl_run_def rl_append_def example_raft_entry_def empty_log_def)
qed

lemma restart_revives_overwritten:
  assumes "raft_codec_ok C" "no_fault db" "ldb_ok db" "length theID = SizePttID" "ldb_view db (DBKeyRaftSnapshot @ theID) = None"
  shows "\<exists>rs0 rs rs'. NewRaftStorage C True theID db = (Ret (), rs0) \<and>
    run_all (raft_run C) overwritten rs0 = (Ret (), rs) \<and> Raft_LastIndex rs = 2 \<and>
    NewRaftStorage C False theID (dbRaft rs) = (Ret (), rs') \<and> Raft_LastIndex rs' = 3 \<and>
    Raft_Term C 2 rs' = Ret 2 \<and> Raft_Term C 3 rs' = Ret 1"
proof -
  obtain rs0 where rs0: "NewRaftStorage C True theID db = (Ret (), rs0)" "raft_rel C rs0 empty_log" "rs_myID rs0 = theID"
    using clean_rel [OF assms] by blast
  let ?all = "[example_raft_entry 1 1, example_raft_entry 2 2, example_raft_entry 1 3]"
  obtain rs where rs: "run_all (raft_run C) overwritten rs0 = (Ret (), rs)" "rs_myID rs = theID"
      "raft_rel C rs \<lparr>rl_all = ?all, rl_len = 2, rl_hs = zero_HardState\<rparr>"
    using raft_log.run_simulates [of C rs0 empty_log theID overwritten] assms(1) rs0 overwritten_ok by auto
  obtain rs' where rs': "NewRaftStorage C False theID (dbRaft rs) = (Ret (), rs')"
      "raft_rel C rs' \<lparr>rl_all = ?all, rl_len = 3, rl_hs = zero_HardState\<rparr>"
    using restart_rel [OF rs(3)] rs(2) by (auto simp: numeral_3_eq_3)
  have "Raft_Term C (of_nat 2) rs' = Ret 2" "Raft_Term C (of_nat 3) rs' = Ret 1"
    using raft_term_of_rel [OF assms(1) rs'(2), of 2] raft_term_of_rel [OF assms(1) rs'(2), of 3]
    by (simp_all add: example_raft_entry_def numeral_3_eq_3 numeral_2_eq_2)
  then show ?thesis
    using rs0(1) rs rs' by (simp add: raft_rel_def Raft_LastIndex_def)
qed

subsection \<open>Properties\<close>

text \<open>
  C4: From a clean start, every sequence of \<^verbatim>\<open>Append\<close> (of consecutive entries that continue or overwrite
  the log), \<^verbatim>\<open>SetHardState\<close> and restarts succeeds, and the storage answers like the abstract log: the first
  and last index, the hard state, the entries of every window of the log, and the term of every index of the log
  and of index 0. After an overwriting \<^verbatim>\<open>Append\<close> the log ends with it; after a restart it also has
  the entries that an overwriting \<^verbatim>\<open>Append\<close> had cut off.
\<close>

theorem raft_log_refines:
  assumes "raft_codec_ok C" "no_fault db" "ldb_ok db" "length theID = SizePttID"
    and "ldb_view db (DBKeyRaftSnapshot @ theID) = None"
    and "run_ok raft_cmd_ok rl_run cs empty_log"
  shows "\<exists>rs0 rs. NewRaftStorage C True theID db = (Ret (), rs0) \<and> run_all (raft_run C) cs rs0 = (Ret (), rs) \<and>
    (let A = fold rl_run cs empty_log
     in Raft_FirstIndex rs = 1 \<and> Raft_LastIndex rs = of_nat (rl_len A) \<and> fst (InitialState rs) = rl_hs A \<and>
        (\<forall>lo hi maxSize. 1 \<le> lo \<and> lo \<le> hi \<and> hi \<le> rl_len A + 1 \<longrightarrow>
           Raft_Entries C (of_nat lo) (of_nat hi) maxSize rs = Ret (take (hi - lo) (drop (lo - 1) (rl_all A)))) \<and>
        (\<forall>i \<le> rl_len A. Raft_Term C (of_nat i) rs = Ret (ent_Term ((zero_Entry # rl_all A) ! i))))"
proof -
  obtain rs0 where rs0: "NewRaftStorage C True theID db = (Ret (), rs0)" "raft_rel C rs0 empty_log" "rs_myID rs0 = theID"
    using clean_rel [OF assms(1-5)] by blast
  then obtain rs where rs: "run_all (raft_run C) cs rs0 = (Ret (), rs)" "raft_rel C rs (fold rl_run cs empty_log)"
    using raft_log.run_simulates [of C rs0 empty_log theID cs] assms(1,6) by blast
  then show ?thesis
    using rs0(1) raft_entries_of_rel [OF assms(1) rs(2)] raft_term_of_rel [OF assms(1) rs(2)]
    by (simp add: Let_def raft_rel_def Raft_FirstIndex_def Raft_LastIndex_def InitialState_def)
qed

text \<open>
  Raft messages are countable, so a codec that reads back what it writes exists: it writes as many bytes as the
  number of the message.
\<close>

instance Entry_ext :: (countable) countable
  by (rule countable_classI [of "\<lambda>e. to_nat (ent_Term e, ent_Index e, ent_Type e, ent_Data e, ent_XXX_unrecognized e, Entry.more e)"])
    (simp add: Entry.equality)

instance HardState_ext :: (countable) countable
  by (rule countable_classI [of "\<lambda>h. to_nat (hs_Term h, hs_Vote h, hs_Commit h, hs_XXX_unrecognized h, HardState.more h)"])
    (simp add: HardState.equality)

instance ConfState_ext :: (countable) countable
  by (rule countable_classI [of "\<lambda>c. to_nat (cs_Nodes c, cs_Learners c, cs_Weights c, cs_XXX_unrecognized c, ConfState.more c)"])
    (simp add: ConfState.equality)

instance SnapshotMetadata_ext :: (countable) countable
  by (rule countable_classI [of "\<lambda>m. to_nat (md_ConfState m, md_Index m, md_Term m, md_XXX_unrecognized m, SnapshotMetadata.more m)"])
    (simp add: SnapshotMetadata.equality)

instance Snapshot_ext :: (countable) countable
  by (rule countable_classI [of "\<lambda>s. to_nat (snap_Data s, snap_Metadata s, snap_XXX_unrecognized s, Snapshot.more s)"])
    (simp add: Snapshot.equality)

definition counting_codec :: raft_codec where
  "counting_codec =
     \<lparr>rc_Entry = \<lambda>e. Inr (replicate (to_nat e) 0), rc_Entry_of = \<lambda>b. Inr (from_nat (length b)),
      rc_HardState = \<lambda>e. Inr (replicate (to_nat e) 0), rc_HardState_of = \<lambda>b. Inr (from_nat (length b)),
      rc_Snapshot = \<lambda>e. Inr (replicate (to_nat e) 0), rc_Snapshot_of = \<lambda>b. Inr (from_nat (length b)),
      rc_ConfState = \<lambda>e. Inr (replicate (to_nat e) 0), rc_ConfState_of = \<lambda>b. Inr (from_nat (length b))\<rparr>"

lemma counting_codec_ok: "raft_codec_ok counting_codec"
  by (simp add: raft_codec_ok_def counting_codec_def)

theorem raft_log_refines_witness:
  "\<exists>rs0 rs. NewRaftStorage counting_codec True (replicate 40 7) (NewLDBDatabase (\<lambda>_ _. None) []) = (Ret (), rs0) \<and>
     run_all (raft_run counting_codec) overwritten rs0 = (Ret (), rs) \<and>
     Raft_LastIndex rs = 2 \<and> Raft_Term counting_codec 2 rs = Ret 2 \<and>
     Raft_Entries counting_codec 1 3 100 rs = Ret [example_raft_entry 1 1, example_raft_entry 2 2]"
proof -
  let ?db = "NewLDBDatabase (\<lambda>_ _. None) []"
  have db: "no_fault ?db" "ldb_ok ?db" "ldb_view ?db (DBKeyRaftSnapshot @ replicate 40 7) = None" "length (replicate 40 (7 :: byte)) = SizePttID"
    by (simp_all add: NewLDBDatabase_def no_fault_def ldb_ok_def kv_sorted_def ldb_view_def id_size_defs)
  obtain rs0 rs where rs: "NewRaftStorage counting_codec True (replicate 40 7) ?db = (Ret (), rs0)"
      "run_all (raft_run counting_codec) overwritten rs0 = (Ret (), rs)" "Raft_LastIndex rs = 2"
      "\<And>lo hi maxSize. 1 \<le> lo \<and> lo \<le> hi \<and> hi \<le> 3 \<Longrightarrow>
         Raft_Entries counting_codec (of_nat lo) (of_nat hi) maxSize rs =
           Ret (take (hi - lo) (drop (lo - 1) [example_raft_entry 1 1, example_raft_entry 2 2, example_raft_entry 1 3]))"
      "\<And>i. i \<le> 2 \<Longrightarrow> Raft_Term counting_codec (of_nat i) rs =
         Ret (ent_Term ([zero_Entry, example_raft_entry 1 1, example_raft_entry 2 2, example_raft_entry 1 3] ! i))"
    using raft_log_refines [OF counting_codec_ok db(1,2,4,3) overwritten_ok(1)] unfolding overwritten_ok(2)
    by (auto simp: Let_def)
  have "Raft_Entries counting_codec (of_nat 1) (of_nat 3) 100 rs = Ret [example_raft_entry 1 1, example_raft_entry 2 2]"
    using rs(4) [of 1 3 100] by (simp add: numeral_2_eq_2)
  moreover have "Raft_Term counting_codec (of_nat 2) rs = Ret 2"
    using rs(5) [of 2] by (simp add: example_raft_entry_def numeral_2_eq_2)
  ultimately show ?thesis using rs(1-3) by auto
qed

end
