(* ===== verification/Raft_Serving.thy ===== *)
theory Raft_Serving
  imports Raft_Stores
begin

text \<open>
  \<^verbatim>\<open>me/protocol_raft.go\<close>, \<^verbatim>\<open>me/protocol_raft_snapshot.go\<close> and the first part of \<^verbatim>\<open>me/protocol_raft_entries.go\<close>: the loop that
  takes what the raft library has decided (\<^verbatim>\<open>Ready\<close>), stores it and applies the committed entries to the table of devices.

  \<open>raft_pm\<close> is the raft part of \<^verbatim>\<open>ProtocolManager\<close>; \<open>rp_rest\<close> is the rest of it, which configuration
  changes work on through the functions of \<open>publish_env\<close>. The mutexes of the fields are left out: each
  accessor holds its own for its whole body. Messages to peers are output. The library itself is only present through the
  sequence of \<^verbatim>\<open>Ready\<close> values and \<^verbatim>\<open>ApplyConfChange\<close>.
\<close>

subsection \<open>Definitions\<close>

record 's raft_pm =
  raftAppliedIndex :: u64
  raftSnapshotIndex :: u64
  raftLastIndex :: u64
  raftLead :: u64
  raftConfState :: ConfState
  rp_myID :: PttID
  dbMeCore :: LDBDatabase
  pm_rs :: RaftStorage
  rp_rest :: 's

definition DBKeyRaftLastIndex :: bytes where
  "DBKeyRaftLastIndex = [46, 114, 102, 108, 105]"

definition DBKeyRaftAppliedIndex :: bytes where
  "DBKeyRaftAppliedIndex = [46, 114, 102, 97, 105]"

definition DBKeyRaftSnapshotIndex :: bytes where
  "DBKeyRaftSnapshotIndex = [46, 114, 102, 115, 105]"

definition DBKeyRaftConfState :: bytes where
  "DBKeyRaftConfState = [46, 114, 102, 99, 115]"

definition MarshalRaftAppliedIndexKey :: "'s raft_pm \<Rightarrow> bytes res" where
  "MarshalRaftAppliedIndexKey pm = Concat [Some DBKeyRaftAppliedIndex, Some (rp_myID pm)]"

definition MarshalRaftSnapshotIndexKey :: "'s raft_pm \<Rightarrow> bytes res" where
  "MarshalRaftSnapshotIndexKey pm = Concat [Some DBKeyRaftSnapshotIndex, Some (rp_myID pm)]"

definition MarshalRaftLastIndexKey :: "'s raft_pm \<Rightarrow> bytes res" where
  "MarshalRaftLastIndexKey pm = Concat [Some DBKeyRaftLastIndex, Some (rp_myID pm)]"

definition MarshalRaftConfStateKey :: "'s raft_pm \<Rightarrow> bytes res" where
  "MarshalRaftConfStateKey pm = Concat [Some DBKeyRaftConfState, Some (rp_myID pm)]"

text \<open>The accessors of the four persistent fields share their calls of the database.\<close>

definition core_put :: "bytes res \<Rightarrow> bytes \<Rightarrow> 's raft_pm \<Rightarrow> unit res \<times> 's raft_pm" where
  "core_put key val =
     res_then key (\<lambda>k pm.
       case Ldb_Put k val (dbMeCore pm) of
         (Some e, db) \<Rightarrow> (Fail e, pm\<lparr>dbMeCore := db\<rparr>)
       | (None, db) \<Rightarrow> (Ret (), pm\<lparr>dbMeCore := db\<rparr>))"

definition core_delete :: "bytes res \<Rightarrow> 's raft_pm \<Rightarrow> unit res \<times> 's raft_pm" where
  "core_delete key =
     res_then key (\<lambda>k pm.
       case Ldb_Delete k (dbMeCore pm) of
         (Some e, db) \<Rightarrow> (Fail e, pm\<lparr>dbMeCore := db\<rparr>)
       | (None, db) \<Rightarrow> (Ret (), pm\<lparr>dbMeCore := db\<rparr>))"

definition SetRaftAppliedIndex :: "u64 \<Rightarrow> 's raft_pm \<Rightarrow> unit res \<times> 's raft_pm" where
  "SetRaftAppliedIndex idx pm =
     st_bind (core_put (MarshalRaftAppliedIndexKey pm) (PutUint64 idx)) (\<lambda>_ pm. (Ret (), pm\<lparr>raftAppliedIndex := idx\<rparr>)) pm"

definition SetRaftSnapshotIndex :: "u64 \<Rightarrow> 's raft_pm \<Rightarrow> unit res \<times> 's raft_pm" where
  "SetRaftSnapshotIndex idx pm =
     st_bind (core_put (MarshalRaftSnapshotIndexKey pm) (PutUint64 idx)) (\<lambda>_ pm. (Ret (), pm\<lparr>raftSnapshotIndex := idx\<rparr>)) pm"

definition SetRaftLastIndex :: "u64 \<Rightarrow> 's raft_pm \<Rightarrow> unit res \<times> 's raft_pm" where
  "SetRaftLastIndex idx pm =
     st_bind (core_put (MarshalRaftLastIndexKey pm) (PutUint64 idx)) (\<lambda>_ pm. (Ret (), pm\<lparr>raftLastIndex := idx\<rparr>)) pm"

definition SetRaftConfState :: "raft_codec \<Rightarrow> ConfState \<Rightarrow> 's raft_pm \<Rightarrow> unit res \<times> 's raft_pm" where
  "SetRaftConfState C cs pm =
     (case rc_ConfState C cs of
        Inl e \<Rightarrow> (Fail e, pm)
      | Inr val \<Rightarrow> st_bind (core_put (MarshalRaftConfStateKey pm) val) (\<lambda>_ pm. (Ret (), pm\<lparr>raftConfState := cs\<rparr>)) pm)"

definition LoadRaftAppliedIndex :: "'s raft_pm \<Rightarrow> unit res \<times> 's raft_pm" where
  "LoadRaftAppliedIndex pm =
     res_then (res_bind (MarshalRaftAppliedIndexKey pm) (\<lambda>k. res_bind (Ldb_Get k (dbMeCore pm)) Uint64))
       (\<lambda>idx pm. (Ret (), pm\<lparr>raftAppliedIndex := idx\<rparr>)) pm"

definition LoadRaftSnapshotIndex :: "'s raft_pm \<Rightarrow> unit res \<times> 's raft_pm" where
  "LoadRaftSnapshotIndex pm =
     res_then (res_bind (MarshalRaftSnapshotIndexKey pm) (\<lambda>k. res_bind (Ldb_Get k (dbMeCore pm)) Uint64))
       (\<lambda>idx pm. (Ret (), pm\<lparr>raftSnapshotIndex := idx\<rparr>)) pm"

definition LoadRaftLastIndex :: "'s raft_pm \<Rightarrow> unit res \<times> 's raft_pm" where
  "LoadRaftLastIndex pm =
     res_then (res_bind (MarshalRaftLastIndexKey pm) (\<lambda>k. res_bind (Ldb_Get k (dbMeCore pm)) Uint64))
       (\<lambda>idx pm. (Ret (), pm\<lparr>raftLastIndex := idx\<rparr>)) pm"

definition LoadRaftConfState :: "raft_codec \<Rightarrow> 's raft_pm \<Rightarrow> unit res \<times> 's raft_pm" where
  "LoadRaftConfState C pm =
     res_then (res_bind (MarshalRaftConfStateKey pm) (\<lambda>k. res_bind (Ldb_Get k (dbMeCore pm)) (\<lambda>val.
         case rc_ConfState_of C val of Inl e \<Rightarrow> Fail e | Inr cs \<Rightarrow> Ret cs)))
       (\<lambda>cs pm. (Ret (), pm\<lparr>raftConfState := cs\<rparr>)) pm"

definition SetRaftLead :: "u64 \<Rightarrow> 's raft_pm \<Rightarrow> 's raft_pm" where
  "SetRaftLead idx pm = pm\<lparr>raftLead := idx\<rparr>"

definition pm_storage :: "(RaftStorage \<Rightarrow> unit res \<times> RaftStorage) \<Rightarrow> 's raft_pm \<Rightarrow> unit res \<times> 's raft_pm" where
  "pm_storage c pm = (case c (pm_rs pm) of (r, rs) \<Rightarrow> (r, pm\<lparr>pm_rs := rs\<rparr>))"

definition PM_CleanRaftStorage :: "'s raft_pm \<Rightarrow> unit res \<times> 's raft_pm" where
  "PM_CleanRaftStorage pm =
     st_bind (core_delete (MarshalRaftAppliedIndexKey pm)) (\<lambda>_.
     st_bind (core_delete (MarshalRaftSnapshotIndexKey pm)) (\<lambda>_.
     st_bind (core_delete (MarshalRaftLastIndexKey pm)) (\<lambda>_.
     st_bind (core_delete (MarshalRaftConfStateKey pm)) (\<lambda>_.
       pm_storage CleanRaftStorage)))) pm"

subsubsection \<open>Snapshots and committed entries\<close>

definition IsEmptyHardState :: "HardState \<Rightarrow> bool" where
  "IsEmptyHardState st \<longleftrightarrow> hs_Term st = 0 \<and> hs_Vote st = 0 \<and> hs_Commit st = 0"

definition IsEmptySnap :: "Snapshot \<Rightarrow> bool" where
  "IsEmptySnap sp \<longleftrightarrow> md_Index (snap_Metadata sp) = 0"

definition PublishRaftSnapshot :: "raft_codec \<Rightarrow> Snapshot \<Rightarrow> 's raft_pm \<Rightarrow> unit res \<times> 's raft_pm" where
  "PublishRaftSnapshot C snap pm =
     (if IsEmptySnap snap then (Ret (), pm)
      else if md_Index (snap_Metadata snap) \<le> raftAppliedIndex pm then (Fail (MeError M_ErrInvalidRaftIndex), pm)
      else
        st_bind (ignore_err (SetRaftConfState C (md_ConfState (snap_Metadata snap)))) (\<lambda>_.
        st_bind (ignore_err (SetRaftSnapshotIndex (md_Index (snap_Metadata snap)))) (\<lambda>_.
          ignore_err (SetRaftAppliedIndex (md_Index (snap_Metadata snap))))) pm)"

definition raftEntriesToApply :: "Entry list \<Rightarrow> 's raft_pm \<Rightarrow> Entry list" where
  "raftEntriesToApply ents pm =
     (if ents = [] then []
      else
        (let newFirstIdx = raftAppliedIndex pm - ent_Index (hd ents) + 1
         in if newFirstIdx < of_nat (length ents) then drop (unat newFirstIdx) ents else []))"

record ConfChange =
  cc_ID :: u64
  cc_Type :: u32
  cc_NodeID :: u64
  cc_Weight :: u32
  cc_Context :: "bytes option"

definition EntryConfChange :: u32 where "EntryConfChange = 1"
definition ConfChangeAddNode :: u32 where "ConfChangeAddNode = 0"
definition ConfChangeRemoveNode :: u32 where "ConfChangeRemoveNode = 1"

text \<open>
  \<open>pe_conf_change\<close> is \<^verbatim>\<open>cc.Unmarshal\<close> with its error dropped, \<open>pe_add\<close> and \<open>pe_remove\<close> are
  \<^verbatim>\<open>publishEntriesAddNode\<close> and \<^verbatim>\<open>publishEntriesRemoveNode\<close>, whose errors are only logged, and \<open>pe_apply\<close> is
  \<^verbatim>\<open>raftNode.ApplyConfChange\<close>.
\<close>

record 's publish_env =
  pe_conf_change :: "bytes option \<Rightarrow> ConfChange"
  pe_add :: "Entry \<Rightarrow> ConfChange \<Rightarrow> 's \<Rightarrow> 's"
  pe_remove :: "Entry \<Rightarrow> ConfChange \<Rightarrow> 's \<Rightarrow> 's"
  pe_apply :: "ConfChange \<Rightarrow> 's \<Rightarrow> ConfState \<times> 's"

definition conf_change :: "'s publish_env \<Rightarrow> Entry \<Rightarrow> 's \<Rightarrow> ConfState \<times> 's" where
  "conf_change H ent s =
     (let cc = pe_conf_change H (ent_Data ent);
          s1 = (if cc_Type cc = ConfChangeAddNode then pe_add H ent cc s
                else if cc_Type cc = ConfChangeRemoveNode then pe_remove H ent cc s
                else s)
      in pe_apply H cc s1)"

definition publish_entry :: "raft_codec \<Rightarrow> 's publish_env \<Rightarrow> Entry \<Rightarrow> 's raft_pm \<Rightarrow> unit res \<times> 's raft_pm" where
  "publish_entry C H ent =
     st_bind
       (if ent_Type ent = EntryConfChange then
          (\<lambda>pm. case conf_change H ent (rp_rest pm) of
                  (cs, s) \<Rightarrow> ignore_err (SetRaftConfState C cs) (pm\<lparr>rp_rest := s\<rparr>))
        else (\<lambda>pm. (Ret (), pm)))
       (\<lambda>_. ignore_err (SetRaftAppliedIndex (ent_Index ent)))"

fun PublishRaftEntries :: "raft_codec \<Rightarrow> 's publish_env \<Rightarrow> Entry list \<Rightarrow> 's raft_pm \<Rightarrow> unit res \<times> 's raft_pm" where
  "PublishRaftEntries C H [] pm = (Ret (), pm)"
| "PublishRaftEntries C H (ent # ents) pm = st_bind (publish_entry C H ent) (\<lambda>_. PublishRaftEntries C H ents) pm"

subsubsection \<open>The loop\<close>

definition serve_init :: "raft_codec \<Rightarrow> 's raft_pm \<Rightarrow> unit res \<times> 's raft_pm" where
  "serve_init C pm =
     (let md = snap_Metadata (Raft_Snapshot (pm_rs pm))
      in st_bind (ignore_err (SetRaftConfState C (md_ConfState md))) (\<lambda>_.
         st_bind (ignore_err (SetRaftSnapshotIndex (md_Index md))) (\<lambda>_.
           ignore_err (SetRaftAppliedIndex (md_Index md)))) pm)"

record Ready =
  rd_Lead :: "u64 option"
  rd_HardState :: HardState
  rd_Entries :: "Entry list"
  rd_Snapshot :: Snapshot
  rd_CommittedEntries :: "Entry list"

definition serve_store :: "raft_codec \<Rightarrow> Ready \<Rightarrow> 's raft_pm \<Rightarrow> unit res \<times> 's raft_pm" where
  "serve_store C rd =
     st_bind (\<lambda>pm. (Ret (), case rd_Lead rd of None \<Rightarrow> pm | Some lead \<Rightarrow> SetRaftLead lead pm)) (\<lambda>_.
     st_bind (if IsEmptyHardState (rd_HardState rd) then (\<lambda>pm. (Ret (), pm))
              else ignore_err (pm_storage (SetHardState C (rd_HardState rd)))) (\<lambda>_.
     st_bind (if IsEmptySnap (rd_Snapshot rd) then (\<lambda>pm. (Ret (), pm))
              else st_bind (ignore_err (pm_storage (ApplySnapshot C (rd_Snapshot rd)))) (\<lambda>_.
                ignore_err (PublishRaftSnapshot C (rd_Snapshot rd)))) (\<lambda>_.
       ignore_err (pm_storage (Raft_Append C (rd_Entries rd))))))"

definition serve_ready :: "raft_codec \<Rightarrow> 's publish_env \<Rightarrow> Ready \<Rightarrow> 's raft_pm \<Rightarrow> unit res \<times> 's raft_pm" where
  "serve_ready C H rd =
     st_bind (serve_store C rd) (\<lambda>_ pm.
       PublishRaftEntries C H (raftEntriesToApply (rd_CommittedEntries rd) pm) pm)"

subsection \<open>One entry after another\<close>

lemma core_put_quiet:
  assumes "no_fault (dbMeCore pm)"
  shows "\<exists>db'. core_put (Ret k) v pm = (Ret (), pm\<lparr>dbMeCore := db'\<rparr>) \<and> no_fault db'"
  using ldb.put_view [OF assms, of k v] by (auto simp: core_put_def ldb_ops_def)

lemma SetRaftAppliedIndex_quiet:
  assumes "no_fault (dbMeCore pm)"
  shows "\<exists>db'. SetRaftAppliedIndex idx pm = (Ret (), pm\<lparr>dbMeCore := db', raftAppliedIndex := idx\<rparr>) \<and> no_fault db'"
  using core_put_quiet [OF assms, of "DBKeyRaftAppliedIndex @ rp_myID pm" "PutUint64 idx"]
  by (auto simp: SetRaftAppliedIndex_def MarshalRaftAppliedIndexKey_def Concat_eq st_bind_def)

definition same_raft :: "'s raft_pm \<Rightarrow> 's raft_pm \<Rightarrow> bool" where
  "same_raft pm pm' \<longleftrightarrow> no_fault (dbMeCore pm') \<and> pm_rs pm' = pm_rs pm \<and> rp_rest pm' = rp_rest pm \<and>
     raftAppliedIndex pm' = raftAppliedIndex pm"

lemma SetRaftConfState_quiet:
  assumes "no_fault (dbMeCore pm)"
  shows "\<exists>pm'. ignore_err (SetRaftConfState C cs) pm = (Ret (), pm') \<and> same_raft pm pm'"
proof (cases "rc_ConfState C cs")
  case (Inl e)
  then show ?thesis using assms by (simp add: SetRaftConfState_def ignore_err_def same_raft_def)
next
  case (Inr val)
  obtain db' where "core_put (Ret (DBKeyRaftConfState @ rp_myID pm)) val pm = (Ret (), pm\<lparr>dbMeCore := db'\<rparr>)" "no_fault db'"
    using core_put_quiet [OF assms] by blast
  then show ?thesis
    using Inr by (simp add: SetRaftConfState_def ignore_err_def same_raft_def MarshalRaftConfStateKey_def Concat_eq st_bind_def)
qed

text \<open>What applying an entry does to the rest of the manager.\<close>

definition publish_rest :: "'s publish_env \<Rightarrow> Entry \<Rightarrow> 's \<Rightarrow> 's" where
  "publish_rest H ent s = (if ent_Type ent = EntryConfChange then snd (conf_change H ent s) else s)"

lemma publish_entry_quiet:
  assumes "no_fault (dbMeCore pm)"
  shows "\<exists>pm'. publish_entry C H ent pm = (Ret (), pm') \<and> no_fault (dbMeCore pm') \<and> pm_rs pm' = pm_rs pm \<and>
    rp_rest pm' = publish_rest H ent (rp_rest pm) \<and> raftAppliedIndex pm' = ent_Index ent"
proof (cases "ent_Type ent = EntryConfChange")
  case True
  obtain cs s where c: "conf_change H ent (rp_rest pm) = (cs, s)" by fastforce
  obtain pm1 where pm1: "ignore_err (SetRaftConfState C cs) (pm\<lparr>rp_rest := s\<rparr>) = (Ret (), pm1)" "same_raft (pm\<lparr>rp_rest := s\<rparr>) pm1"
    using SetRaftConfState_quiet [of "pm\<lparr>rp_rest := s\<rparr>" C cs] assms by auto
  obtain db' where "SetRaftAppliedIndex (ent_Index ent) pm1 = (Ret (), pm1\<lparr>dbMeCore := db', raftAppliedIndex := ent_Index ent\<rparr>)" "no_fault db'"
    using SetRaftAppliedIndex_quiet [of pm1] pm1(2) by (auto simp: same_raft_def)
  then show ?thesis
    using True c pm1 by (simp add: publish_entry_def st_bind_def publish_rest_def same_raft_def ignore_err_def [of "SetRaftAppliedIndex (ent_Index ent)"])
next
  case False
  then show ?thesis
    using SetRaftAppliedIndex_quiet [OF assms, of "ent_Index ent"] by (auto simp: publish_entry_def st_bind_def publish_rest_def ignore_err_def)
qed

lemma PublishRaftEntries_quiet:
  assumes "no_fault (dbMeCore pm)"
  shows "\<exists>pm'. PublishRaftEntries C H ents pm = (Ret (), pm') \<and> no_fault (dbMeCore pm') \<and> pm_rs pm' = pm_rs pm \<and>
    rp_rest pm' = fold (publish_rest H) ents (rp_rest pm) \<and>
    raftAppliedIndex pm' = (if ents = [] then raftAppliedIndex pm else ent_Index (last ents))"
  using assms
proof (induction ents arbitrary: pm)
  case (Cons ent ents)
  obtain pm1 where pm1: "publish_entry C H ent pm = (Ret (), pm1)" "no_fault (dbMeCore pm1)" "pm_rs pm1 = pm_rs pm"
      "rp_rest pm1 = publish_rest H ent (rp_rest pm)" "raftAppliedIndex pm1 = ent_Index ent"
    using publish_entry_quiet [OF Cons.prems] by blast
  then show ?case using Cons.IH [of pm1] by (auto simp: st_bind_def)
qed simp

subsection \<open>Which entries are applied\<close>

text \<open>The entries of index \<open>a + 1\<close> to \<open>b\<close> of a log.\<close>

definition window :: "Entry list \<Rightarrow> nat \<Rightarrow> nat \<Rightarrow> Entry list" where
  "window L a b = take (b - a) (drop a L)"

lemma window_empty [simp]: "b \<le> a \<Longrightarrow> window L a b = []"
  by (simp add: window_def)

lemma length_window [simp]: "b \<le> length L \<Longrightarrow> length (window L a b) = b - a"
  by (simp add: window_def)

lemma window_append: "a \<le> m \<Longrightarrow> m \<le> b \<Longrightarrow> window L a m @ window L m b = window L a b"
proof -
  assume "a \<le> m" "m \<le> b"
  then obtain i j where "m = a + i" "b = a + i + j" by (metis le_Suc_ex)
  then show ?thesis by (simp add: window_def take_add add.commute)
qed

lemma window_index:
  assumes "numbered 1 L" "a < b" "b \<le> length L"
  shows "ent_Index (hd (window L a b)) = of_nat (a + 1)" "ent_Index (last (window L a b)) = of_nat b"
proof -
  have "hd (window L a b) = L ! a" using assms by (simp add: window_def hd_drop_conv_nth)
  then show "ent_Index (hd (window L a b)) = of_nat (a + 1)" using assms by (simp add: numbered_def)
  have "window L a b \<noteq> []" using assms length_window [of b L a] by (metis less_nat_zero_code list.size(3) zero_less_diff)
  then have "last (window L a b) = L ! (b - 1)" using assms by (simp add: last_conv_nth window_def)
  moreover have "ent_Index (L ! (b - 1)) = of_nat (1 + (b - 1))" using assms unfolding numbered_def by (metis diff_less le_trans less_nat_zero_code less_one linorder_not_less not_less_iff_gr_or_eq order_less_le_trans)
  ultimately show "ent_Index (last (window L a b)) = of_nat b" using assms(2) by simp
qed

lemma entries_to_apply_window:
  assumes "numbered 1 L" "length L < index_bound" "b \<le> length L" "raftAppliedIndex pm = of_nat m" "a \<le> m" "m \<le> length L"
  shows "raftEntriesToApply (window L a b) pm = window L m b"
proof (cases "a < b")
  case True
  then have ne: "window L a b \<noteq> []" using assms(3) length_window [of b L a] by (metis less_nat_zero_code list.size(3) zero_less_diff)
  have "raftAppliedIndex pm - ent_Index (hd (window L a b)) + 1 = of_nat (m - a)"
    using window_index(1) [OF assms(1) True assms(3)] assms(4,5) by (simp add: of_nat_diff)
  moreover have "(of_nat (m - a) :: u64) < of_nat (b - a) \<longleftrightarrow> m - a < b - a"
    using assms(2,3,6) by (subst u64_of_nat_less) (auto simp: index_bound_def)
  moreover have "unat (of_nat (m - a) :: u64) = m - a" using assms(2,6) by (simp add: index_bound_def unat_of_nat)
  moreover have "drop (m - a) (window L a b) = window L m b" using assms(5) by (simp add: window_def drop_take)
  ultimately show ?thesis using ne True assms(3) by (auto simp: raftEntriesToApply_def)
qed (use assms in \<open>simp add: raftEntriesToApply_def\<close>)

text \<open>
  When the applied index has fallen behind the entries that arrive, the difference wraps and all of them are dropped without an
  error.
\<close>

lemma gap_drops_all:
  assumes "ents \<noteq> []" "ent_Index (hd ents) = of_nat k" "raftAppliedIndex pm = of_nat m"
    and "m + 1 < k" "k + length ents \<le> index_bound"
  shows "raftEntriesToApply ents pm = []"
proof -
  obtain d where d: "k = m + 1 + d" "d \<noteq> 0" using assms(4) by (metis add.right_neutral le_Suc_ex less_imp_le nat_less_le)
  have "raftAppliedIndex pm - ent_Index (hd ents) + 1 = - (of_nat d :: u64)" using assms(2,3) d(1) by simp
  moreover have "- (of_nat d :: u64) = of_nat (2 ^ 64 - d)"
    using assms(5) d by (subst of_nat_diff) (simp_all add: index_bound_def)
  then have "unat (- (of_nat d :: u64)) = 2 ^ 64 - d" using d(2) by (simp add: unat_of_nat)
  moreover have "length ents < 2 ^ 64 - d" "length ents < 2 ^ 64" using assms(5) d(1) by (auto simp: index_bound_def)
  ultimately have "\<not> raftAppliedIndex pm - ent_Index (hd ents) + 1 < of_nat (length ents)"
    by (simp add: word_less_nat_alt unat_of_nat)
  then show ?thesis by (simp add: raftEntriesToApply_def)
qed

subsection \<open>Runs of the loop\<close>

text \<open>
  What the library hands over: no snapshot, entries that continue or overwrite the log, and committed entries that are a part of
  the committed log \<open>L\<close> and leave no gap after what was applied (they may repeat some of it).
\<close>

definition ready_ok :: "Entry list \<Rightarrow> Ready \<Rightarrow> raft_log \<times> nat \<Rightarrow> bool" where
  "ready_ok L rd = (\<lambda>(A, m).
     IsEmptySnap (rd_Snapshot rd) \<and> append_ok (rd_Entries rd) A \<and>
     (\<exists>a b. a \<le> m \<and> b \<le> length L \<and> rd_CommittedEntries rd = window L a b))"

definition ready_spec :: "Ready \<Rightarrow> raft_log \<times> nat \<Rightarrow> raft_log \<times> nat" where
  "ready_spec rd = (\<lambda>(A, m).
     (rl_append (rd_Entries rd) (if IsEmptyHardState (rd_HardState rd) then A else A\<lparr>rl_hs := rd_HardState rd\<rparr>),
      if rd_CommittedEntries rd = [] then m else max m (unat (ent_Index (last (rd_CommittedEntries rd))))))"

definition serving ::
  "raft_codec \<Rightarrow> 's publish_env \<Rightarrow> Entry list \<Rightarrow> nat \<Rightarrow> 's \<Rightarrow> 's raft_pm \<Rightarrow> raft_log \<times> nat \<Rightarrow> bool" where
  "serving C H L m0 s0 pm = (\<lambda>(A, m).
     raft_codec_ok C \<and> numbered 1 L \<and> length L < index_bound \<and>
     raft_rel C (pm_rs pm) A \<and> no_fault (dbMeCore pm) \<and> m0 \<le> m \<and> m \<le> length L \<and>
     raftAppliedIndex pm = of_nat m \<and> rp_rest pm = fold (publish_rest H) (window L m0 m) s0)"

lemma serve_store_rel:
  assumes "raft_codec_ok C" "raft_rel C (pm_rs pm) A" "IsEmptySnap (rd_Snapshot rd)" "append_ok (rd_Entries rd) A"
  shows "\<exists>pm'. serve_store C rd pm = (Ret (), pm') \<and> dbMeCore pm' = dbMeCore pm \<and> rp_rest pm' = rp_rest pm \<and>
    raftAppliedIndex pm' = raftAppliedIndex pm \<and> raft_rel C (pm_rs pm') (fst (ready_spec rd (A, m)))"
proof -
  let ?A = "if IsEmptyHardState (rd_HardState rd) then A else A\<lparr>rl_hs := rd_HardState rd\<rparr>"
  define pm1 where "pm1 = (case rd_Lead rd of None \<Rightarrow> pm | Some lead \<Rightarrow> SetRaftLead lead pm)"
  have pm1: "pm_rs pm1 = pm_rs pm" "dbMeCore pm1 = dbMeCore pm" "rp_rest pm1 = rp_rest pm" "raftAppliedIndex pm1 = raftAppliedIndex pm"
    by (simp_all add: pm1_def SetRaftLead_def split: option.split)
  obtain rs where rs: "(if IsEmptyHardState (rd_HardState rd) then (\<lambda>pm. (Ret (), pm))
      else ignore_err (pm_storage (SetHardState C (rd_HardState rd)))) pm1 = (Ret (), pm1\<lparr>pm_rs := rs\<rparr>)" "raft_rel C rs ?A"
  proof (cases "IsEmptyHardState (rd_HardState rd)")
    case True
    then show ?thesis using that [of "pm_rs pm1"] assms(2) pm1(1) by simp
  next
    case False
    then show ?thesis
      using that hard_state_rel [OF assms(1,2), of "rd_HardState rd"] pm1(1) by (auto simp: ignore_err_def pm_storage_def)
  qed
  have "append_ok (rd_Entries rd) ?A" using assms(4) by (simp add: append_ok_def)
  then obtain rs' where "Raft_Append C (rd_Entries rd) rs = (Ret (), rs')" "raft_rel C rs' (rl_append (rd_Entries rd) ?A)"
    using append_rel [OF assms(1) rs(2)] by blast
  then have "serve_store C rd pm = (Ret (), pm1\<lparr>pm_rs := rs'\<rparr>)"
    using rs(1) assms(3) by (simp add: serve_store_def st_bind_def pm1_def [symmetric] ignore_err_def [of "pm_storage (Raft_Append C (rd_Entries rd))"]
        pm_storage_def [of "Raft_Append C (rd_Entries rd)"])
  then show ?thesis
    using pm1 \<open>raft_rel C rs' (rl_append (rd_Entries rd) ?A)\<close> by (simp add: ready_spec_def)
qed

lemma serve_ready_rel:
  assumes "serving C H L m0 s0 pm (A, m)" "ready_ok L rd (A, m)"
  shows "\<exists>pm'. serve_ready C H rd pm = (Ret (), pm') \<and> serving C H L m0 s0 pm' (ready_spec rd (A, m))"
proof -
  note s = assms(1) [unfolded serving_def split_conv]
  obtain a b where ab: "a \<le> m" "b \<le> length L" "rd_CommittedEntries rd = window L a b"
    using assms(2) by (auto simp: ready_ok_def)
  obtain pm1 where pm1: "serve_store C rd pm = (Ret (), pm1)" "dbMeCore pm1 = dbMeCore pm" "rp_rest pm1 = rp_rest pm"
      "raftAppliedIndex pm1 = raftAppliedIndex pm" "raft_rel C (pm_rs pm1) (fst (ready_spec rd (A, m)))"
    using serve_store_rel [of C pm A rd m] assms(2) s by (auto simp: ready_ok_def)
  have ents: "raftEntriesToApply (rd_CommittedEntries rd) pm1 = window L m b"
    unfolding ab(3) using s ab pm1(4) by (intro entries_to_apply_window) auto
  obtain pm2 where pm2: "PublishRaftEntries C H (window L m b) pm1 = (Ret (), pm2)" "no_fault (dbMeCore pm2)" "pm_rs pm2 = pm_rs pm1"
      "rp_rest pm2 = fold (publish_rest H) (window L m b) (rp_rest pm1)"
      "raftAppliedIndex pm2 = (if window L m b = [] then raftAppliedIndex pm1 else ent_Index (last (window L m b)))"
    using PublishRaftEntries_quiet [of pm1 C H "window L m b"] s pm1(2) by auto
  have last: "b \<le> a \<or> unat (ent_Index (last (window L a b))) = b" and m: "snd (ready_spec rd (A, m)) = max m b"
  proof -
    show l: "b \<le> a \<or> unat (ent_Index (last (window L a b))) = b"
      using window_index(2) [of L a b] s ab(2) by (cases "b \<le> a") (auto simp: index_bound_def unat_of_nat)
    show "snd (ready_spec rd (A, m)) = max m b"
    proof (cases "b \<le> a")
      case False
      then have "window L a b \<noteq> []" using length_window [OF ab(2), of a] by auto
      then show ?thesis using l False by (simp add: ready_spec_def ab(3))
    qed (use ab in \<open>simp add: ready_spec_def\<close>)
  qed
  have "raftAppliedIndex pm2 = of_nat (max m b)"
  proof (cases "m < b")
    case True
    then have "window L m b \<noteq> []" using length_window [OF ab(2), of m] by auto
    then show ?thesis using True window_index(2) [of L m b] s ab(2) pm2(5) by (simp add: max_def)
  qed (use pm2(5) pm1(4) s in \<open>simp add: max_def\<close>)
  moreover have "rp_rest pm2 = fold (publish_rest H) (window L m0 (max m b)) s0"
  proof (cases "m < b")
    case True
    then have "window L m0 (max m b) = window L m0 m @ window L m b"
      using s window_append [of m0 m b L] by (simp add: max_def)
    then show ?thesis using pm2(4) pm1(3) s by simp
  qed (use pm2(4) pm1(3) s in \<open>simp add: max_def\<close>)
  ultimately have "serving C H L m0 s0 pm2 (fst (ready_spec rd (A, m)), max m b)"
    using s pm1(5) pm2(2,3) ab(2) by (auto simp: serving_def)
  then show ?thesis
    using pm1(1) pm2(1) ents m by (metis (no_types, lifting) prod.collapse serve_ready_def st_bind_run res_then_simps(1))
qed

interpretation serve: command_refinement "serving C H L m0 s0" "ready_ok L" "serve_ready C H" ready_spec for C H L m0 s0
proof
  fix s A c assume "serving C H L m0 s0 s A" "ready_ok L c A"
  then show "\<exists>s'. serve_ready C H c s = (Ret (), s') \<and> serving C H L m0 s0 s' (ready_spec c A)"
    using serve_ready_rel [of C H L m0 s0 s "fst A" "snd A" c] by simp
qed

lemma numbered_filter_above:
  assumes "numbered k ents" "k + length ents \<le> index_bound"
  shows "filter (\<lambda>e. m < unat (ent_Index e)) ents = drop (Suc m - k) ents"
  using assms
proof (induction ents arbitrary: k)
  case (Cons e ents)
  then have e: "unat (ent_Index e) = k" using numbered_unat [of k "e # ents" 0] by simp
  have IH: "filter (\<lambda>e. m < unat (ent_Index e)) ents = drop (Suc m - Suc k) ents"
    using Cons.IH [of "Suc k"] Cons.prems by (simp add: numbered_Cons)
  show ?case
  proof (cases "m < k")
    case True
    then show ?thesis using e IH by simp
  next
    case False
    then show ?thesis using e IH by (simp add: Suc_diff_le)
  qed
qed simp

subsection \<open>Properties\<close>

text \<open>
  C5: A run of the loop on what the library hands over (committed entries that repeat earlier ones included) succeeds; every committed
  entry is applied exactly once and in the order of the log, the applied index is that of the last one, and
  the stored log is the one the entries describe.
\<close>

theorem committed_applied_once:
  assumes "raft_codec_ok C" "raft_rel C (pm_rs pm) A" "no_fault (dbMeCore pm)"
    and "numbered 1 L" "length L < index_bound" "m \<le> length L" "raftAppliedIndex pm = of_nat m"
    and "run_ok (ready_ok L) ready_spec rds (A, m)"
  shows "\<exists>pm'. run_all (serve_ready C H) rds pm = (Ret (), pm') \<and>
    (let (A', m') = fold ready_spec rds (A, m)
     in m \<le> m' \<and> m' \<le> length L \<and> raftAppliedIndex pm' = of_nat m' \<and>
        rp_rest pm' = fold (publish_rest H) (window L m m') (rp_rest pm) \<and> raft_rel C (pm_rs pm') A')"
proof -
  have "serving C H L m (rp_rest pm) pm (A, m)" using assms(1-7) by (simp add: serving_def)
  from serve.run_simulates [OF this assms(8)] show ?thesis by (auto simp: serving_def Let_def)
qed

definition example_log :: "Entry list" where
  "example_log = [(example_raft_entry 1 1)\<lparr>ent_Type := EntryConfChange\<rparr>, (example_raft_entry 1 2)\<lparr>ent_Type := EntryConfChange\<rparr>]"

definition example_publish_env :: "u64 list publish_env" where
  "example_publish_env =
     \<lparr>pe_conf_change = \<lambda>_. \<lparr>cc_ID = 0, cc_Type = ConfChangeAddNode, cc_NodeID = 0, cc_Weight = 2, cc_Context = None\<rparr>,
      pe_add = \<lambda>ent _ s. s @ [ent_Index ent], pe_remove = \<lambda>_ _ s. s, pe_apply = \<lambda>_ s. (zero_ConfState, s)\<rparr>"

definition example_readies :: "Ready list" where
  "example_readies =
     [\<lparr>rd_Lead = Some 5, rd_HardState = zero_HardState, rd_Entries = example_log, rd_Snapshot = zero_Snapshot, rd_CommittedEntries = []\<rparr>,
      \<lparr>rd_Lead = None, rd_HardState = zero_HardState, rd_Entries = [], rd_Snapshot = zero_Snapshot,
       rd_CommittedEntries = take 1 example_log\<rparr>,
      \<lparr>rd_Lead = None, rd_HardState = zero_HardState, rd_Entries = [], rd_Snapshot = zero_Snapshot,
       rd_CommittedEntries = example_log\<rparr>]"

lemma example_readies_ok:
  "run_ok (ready_ok example_log) ready_spec example_readies (empty_log, 0)"
  "fold ready_spec example_readies (empty_log, 0) = (\<lparr>rl_all = example_log, rl_len = 2, rl_hs = zero_HardState\<rparr>, 2)"
proof -
  have n: "numbered 1 example_log" by (simp add: example_log_def numbered_Cons numbered_def [of _ "[]"] example_raft_entry_def)
  have a: "append_ok example_log empty_log"
    unfolding append_ok_def using n by (intro disjI2 exI [of _ 1]) (simp add: empty_log_def index_bound_def example_log_def)
  have e: "append_ok [] A" for A by (simp add: append_ok_def)
  have r: "ready_ok example_log rd X"
    if "IsEmptySnap (rd_Snapshot rd)" "append_ok (rd_Entries rd) (fst X)" "rd_CommittedEntries rd \<in> {[], take 1 example_log, example_log}" for rd X
  proof -
    have "[] = window example_log 0 0" "take 1 example_log = window example_log 0 1" "example_log = window example_log 0 2"
      "length example_log = 2"
      by (simp_all add: window_def example_log_def)
    then have "\<exists>b \<le> length example_log. rd_CommittedEntries rd = window example_log 0 b"
      using that(3) by (metis bot_nat_0.extremum insertE one_le_numeral order_refl singletonD)
    then show ?thesis using that(1,2) unfolding ready_ok_def split_beta by blast
  qed
  have "IsEmptySnap zero_Snapshot" by (simp add: IsEmptySnap_def zero_Snapshot_def)
  then show "run_ok (ready_ok example_log) ready_spec example_readies (empty_log, 0)"
    unfolding example_readies_def run_ok.simps using a e by (intro conjI TrueI r) simp_all
  show "fold ready_spec example_readies (empty_log, 0) = (\<lparr>rl_all = example_log, rl_len = 2, rl_hs = zero_HardState\<rparr>, 2)"
    by (simp add: example_readies_def ready_spec_def rl_append_def example_log_def example_raft_entry_def empty_log_def
        IsEmptyHardState_def zero_HardState_def)
qed

theorem committed_applied_once_witness:
  "\<exists>rs pm'. NewRaftStorage counting_codec True (replicate 40 7) (NewLDBDatabase (\<lambda>_ _. None) []) = (Ret (), rs) \<and>
     run_all (serve_ready counting_codec example_publish_env) example_readies
       \<lparr>raftAppliedIndex = 0, raftSnapshotIndex = 0, raftLastIndex = 0, raftLead = 0, raftConfState = zero_ConfState,
        rp_myID = replicate 40 7, dbMeCore = NewLDBDatabase (\<lambda>_ _. None) [], pm_rs = rs, rp_rest = []\<rparr> = (Ret (), pm') \<and>
     rp_rest pm' = [1, 2] \<and> raftAppliedIndex pm' = 2"
proof -
  let ?db = "NewLDBDatabase (\<lambda>_ _. None) []"
  have db: "no_fault ?db" "ldb_ok ?db" "ldb_view ?db (DBKeyRaftSnapshot @ replicate 40 7) = None" "length (replicate 40 (7 :: byte)) = SizePttID"
    by (simp_all add: NewLDBDatabase_def no_fault_def ldb_ok_def kv_sorted_def ldb_view_def id_size_defs)
  obtain rs where rs: "NewRaftStorage counting_codec True (replicate 40 7) ?db = (Ret (), rs)" "raft_rel counting_codec rs empty_log"
    using clean_rel [OF counting_codec_ok db(1,2,4,3)] by blast
  let ?pm = "\<lparr>raftAppliedIndex = 0, raftSnapshotIndex = 0, raftLastIndex = 0, raftLead = 0, raftConfState = zero_ConfState,
        rp_myID = replicate 40 7, dbMeCore = ?db, pm_rs = rs, rp_rest = []\<rparr>"
  have n: "numbered 1 example_log" by (simp add: example_log_def numbered_Cons numbered_def [of _ "[]"] example_raft_entry_def)
  have f: "fold (publish_rest example_publish_env) (window example_log 0 2) [] = [1, 2]"
    by (simp add: window_def example_log_def publish_rest_def conf_change_def example_publish_env_def example_raft_entry_def)
  show ?thesis
    using committed_applied_once [OF counting_codec_ok, of ?pm empty_log example_log 0 example_readies example_publish_env] rs db(1) n
      example_readies_ok f by (auto simp: example_log_def index_bound_def)
qed

text \<open>
  C40: On consecutive committed entries from index \<open>k\<close> whose indices stay in range, \<^verbatim>\<open>raftEntriesToApply\<close> returns exactly
  the entries above the applied index \<open>m\<close> when there is no gap between \<open>m\<close> and \<open>k\<close>, its 64-bit difference wrapping
  to zero when \<open>k\<close> is next; when there is a gap it returns nothing and no error.
\<close>

theorem entries_to_apply_exact:
  assumes "ents \<noteq> []" "numbered k ents" "k + length ents \<le> index_bound" "m < index_bound" "raftAppliedIndex pm = of_nat m"
  shows "raftEntriesToApply ents pm = (if k \<le> m + 1 then filter (\<lambda>e. m < unat (ent_Index e)) ents else [])"
proof (cases "k \<le> m + 1")
  case True
  have h: "ent_Index (hd ents) = of_nat k" using assms(1,2) by (cases ents) (simp_all add: numbered_Cons)
  obtain d where d: "m + 1 = k + d" using True le_Suc_ex by blast
  have "raftAppliedIndex pm - ent_Index (hd ents) + 1 = of_nat (m + 1) - of_nat k" by (simp add: assms(5) h)
  also have "\<dots> = of_nat d" unfolding d by simp
  finally have n: "raftAppliedIndex pm - ent_Index (hd ents) + 1 = of_nat d" .
  have "unat (of_nat d :: u64) = d" "(of_nat d :: u64) < of_nat (length ents) \<longleftrightarrow> d < length ents"
    using d assms(3,4) by (auto simp: index_bound_def unat_of_nat u64_of_nat_less)
  then have "raftEntriesToApply ents pm = drop d ents" using assms(1) n by (auto simp: raftEntriesToApply_def)
  then show ?thesis using True d numbered_filter_above [OF assms(2,3), of m] by simp
next
  case False
  then show ?thesis
    using gap_drops_all [OF assms(1) _ assms(5) _ assms(3)] assms(1,2) by (cases ents) (simp_all add: numbered_Cons)
qed

theorem entries_to_apply_exact_witness:
  "raftEntriesToApply [example_raft_entry 1 3, example_raft_entry 1 4]
     \<lparr>raftAppliedIndex = 3, raftSnapshotIndex = 0, raftLastIndex = 0, raftLead = 0, raftConfState = zero_ConfState,
      rp_myID = [], dbMeCore = NewLDBDatabase (\<lambda>_ _. None) [], pm_rs = new_raft_storage [] (NewLDBDatabase (\<lambda>_ _. None) []), rp_rest = ()\<rparr> =
   [example_raft_entry 1 4]"
proof -
  let ?pm = "\<lparr>raftAppliedIndex = 3, raftSnapshotIndex = 0, raftLastIndex = 0, raftLead = 0, raftConfState = zero_ConfState,
      rp_myID = [], dbMeCore = NewLDBDatabase (\<lambda>_ _. None) [], pm_rs = new_raft_storage [] (NewLDBDatabase (\<lambda>_ _. None) []), rp_rest = ()\<rparr>"
  have "numbered 3 [example_raft_entry 1 3, example_raft_entry 1 4]"
    by (simp add: numbered_Cons numbered_def [of _ "[]"] example_raft_entry_def)
  then show ?thesis
    using entries_to_apply_exact [of "[example_raft_entry 1 3, example_raft_entry 1 4]" 3 3 ?pm]
    by (simp add: index_bound_def example_raft_entry_def)
qed

end
