(* ===== verification/Blocks.thy ===== *)
theory Blocks
  imports Log_Signers
begin

text \<open>
  The contents of articles, messages and media as signed blocks: \<^verbatim>\<open>service/block.go\<close>, \<^verbatim>\<open>service/block_info.go\<close>,
  \<^verbatim>\<open>service/block_utils.go\<close>, \<^verbatim>\<open>service/protocol_manager_utils_block.go\<close> and the block
  part of \<^verbatim>\<open>service/protocol_sync_block.go\<close> and \<^verbatim>\<open>service/media.go\<close>.

  A content is cut into chunks. A chunk is marshalled, padded and encoded by a Reed-Solomon code into two
  parity shards, and only these are kept: each is a \<open>Block\<close>, signed by its author and stored under the
  object, the block info, the number of the chunk and of the shard. A \<open>BlockInfo\<close> travels with the
  object: it lists the expected hashes, and which blocks have arrived.

  The exported fields of a block are the record \<open>Block\<close>, those JSON sees. Its handle on the database is passed next to
  it: \<open>block_db\<close> is \<open>None\<close> before \<^verbatim>\<open>SetDB\<close> and the key prefix after it. Blocks are
  written and deleted in the database itself, not through the batch. \<open>block_env\<close> holds the parameters:
  the cryptographic library, the JSON codecs of a block and of a list of byte strings, and the
  Reed-Solomon library.
\<close>

subsection \<open>Definitions\<close>

definition NSubBlock :: nat where
  "NSubBlock = 2"

definition NLineInBlock :: int where
  "NLineInBlock = 20"

definition NScrambleInBlock :: nat where
  "NScrambleInBlock = 2"

definition NByteInBlock :: int where
  "NByteInBlock = 65535"

definition ErrInvalidBlock :: go_error where
  "ErrInvalidBlock = ServiceError S_ErrInvalidBlock"

record ContentBlock =
  cb_BlockID :: u32
  cb_Buf :: "bytes list"

definition NewContentBlock :: "u32 \<Rightarrow> bytes list \<Rightarrow> ContentBlock" where
  "NewContentBlock blockID buf = \<lparr>cb_BlockID = blockID, cb_Buf = buf\<rparr>"

record Block =
  blk_V :: byte
  blk_ID :: "PttID option"
  blk_BlockID :: u32
  blk_SubBlockID :: byte
  blk_Buf :: "bytes option"
  blk_ObjID :: "PttID option"
  blk_Hash :: bytes
  blk_Salt :: Salt
  blk_Sig :: bytes
  blk_Pub :: bytes
  blk_KeyExtra :: "KeyExtraInfo option"

type_synonym block_db = "bytes option"

text \<open>
  An encoder of the Reed-Solomon library: \<^verbatim>\<open>Encode\<close> fills the parity shards, \<^verbatim>\<open>Reconstruct\<close> the
  missing ones.
\<close>

record reed_solomon =
  rs_Encode :: "bytes list \<Rightarrow> bytes list res"
  rs_Reconstruct :: "bytes option list \<Rightarrow> bytes list res"

record block_env =
  be_ecc :: ecc
  be_enc :: "Block \<Rightarrow> go_error + bytes"
  be_dec :: "bytes \<Rightarrow> Block \<Rightarrow> Block option"
  be_bufs_enc :: "bytes list \<Rightarrow> go_error + bytes"
  be_bufs_dec :: "bytes \<Rightarrow> bytes list option"
  be_rs_New :: "nat \<Rightarrow> nat \<Rightarrow> reed_solomon res"

subsubsection \<open>Blocks\<close>

definition NewEmptyBlock :: Block where
  "NewEmptyBlock =
     \<lparr>blk_V = 0, blk_ID = None, blk_BlockID = 0, blk_SubBlockID = 0, blk_Buf = None, blk_ObjID = None,
      blk_Hash = [], blk_Salt = EmptySalt, blk_Sig = [], blk_Pub = [], blk_KeyExtra = None\<rparr>"

definition NewBlock :: "u32 \<Rightarrow> byte \<Rightarrow> bytes \<Rightarrow> Block" where
  "NewBlock blockID subBlockID buf =
     NewEmptyBlock\<lparr>blk_V := CurrentVersion, blk_BlockID := blockID, blk_SubBlockID := subBlockID, blk_Buf := Some buf\<rparr>"

definition Block_SetDB :: "PttID option \<Rightarrow> PttID option \<Rightarrow> Block \<Rightarrow> Block" where
  "Block_SetDB objID theID b = b\<lparr>blk_V := CurrentVersion, blk_ObjID := objID, blk_ID := theID\<rparr>"

text \<open>Slicing a nil identifier panics.\<close>

definition Block_MarshalKey :: "bytes \<Rightarrow> Block \<Rightarrow> bytes res" where
  "Block_MarshalKey D b =
     (case (blk_ObjID b, blk_ID b) of
        (Some objID, Some theID) \<Rightarrow>
          Concat [Some D, Some objID, Some theID, Some (PutUint32 (blk_BlockID b)), Some [blk_SubBlockID b]]
      | _ \<Rightarrow> Panic)"

definition Block_Prefix :: "bytes \<Rightarrow> Block \<Rightarrow> bytes res" where
  "Block_Prefix D b =
     (case blk_ObjID b of
        None \<Rightarrow> Panic
      | Some objID \<Rightarrow>
          (case blk_ID b of
             None \<Rightarrow> Concat [Some D, Some objID]
           | Some theID \<Rightarrow> Concat [Some D, Some objID, Some theID]))"

definition Block_Save :: "block_env \<Rightarrow> block_db \<Rightarrow> Block \<Rightarrow> LDBDatabase \<Rightarrow> unit res \<times> LDBDatabase" where
  "Block_Save E D b =
     (case D of
        None \<Rightarrow> Pair (Fail ErrInvalidBlock)
      | Some fullDBPrefix \<Rightarrow>
          res_then (Block_MarshalKey fullDBPrefix b) (\<lambda>key db.
            case be_enc E b of
              Inl e \<Rightarrow> (Fail e, db)
            | Inr marshaled \<Rightarrow>
                (case Ldb_Put key marshaled db of
                   (Some e, db') \<Rightarrow> (Fail e, db')
                 | (None, db') \<Rightarrow> (Ret (), db'))))"

definition Block_GetIter :: "block_db \<Rightarrow> Block \<Rightarrow> ListOrder \<Rightarrow> LDBDatabase \<Rightarrow> Iterator res" where
  "Block_GetIter D b listOrder db =
     (case D of
        None \<Rightarrow> Panic
      | Some fullDBPrefix \<Rightarrow>
          res_bind (Block_Prefix fullDBPrefix b) (\<lambda>prefix. NewIteratorWithPrefix [] prefix listOrder db))"

text \<open>The iterator reads a snapshot; an error of a deletion is dropped.\<close>

definition Block_RemoveAll :: "block_db \<Rightarrow> Block \<Rightarrow> LDBDatabase \<Rightarrow> unit res \<times> LDBDatabase" where
  "Block_RemoveAll D b db =
     res_then (Block_GetIter D b ListOrderNext db) (\<lambda>iter db.
       (Ret (), fold (\<lambda>kv db. snd (Ldb_Delete (fst kv) db)) (visited ListOrderNext iter) db)) db"

definition strip_block :: "Block \<Rightarrow> Block" where
  "strip_block b =
     b\<lparr>blk_Hash := [], blk_Salt := EmptySalt, blk_Sig := [], blk_Pub := [], blk_KeyExtra := None\<rparr>"

definition Block_Sign :: "block_env \<Rightarrow> Salt res \<Rightarrow> KeyInfo \<Rightarrow> Block \<Rightarrow> unit res \<times> Block \<times> KeyInfo" where
  "Block_Sign E newSalt key b0 =
     (let b = strip_block b0
      in case be_enc E b of
           Inl e \<Rightarrow> (Fail e, b, key)
         | Inr marshaled \<Rightarrow>
             (case SignData (be_ecc E) newSalt marshaled key of
                (Fail e, key') \<Rightarrow> (Fail e, b, key')
              | (Panic, key') \<Rightarrow> (Panic, b, key')
              | (Ret (bytesWithSalts, hash, sig, pubBytes), key') \<Rightarrow>
                  (Ret (),
                   b\<lparr>blk_Hash := hash, blk_Salt := copy_into (blk_Salt b) (drop (length marshaled) bytesWithSalts),
                     blk_Sig := sig, blk_Pub := pubBytes, blk_KeyExtra := ki_Extra key\<rparr>, key')))"

text \<open>The deferred function restores every field \<^verbatim>\<open>Verify\<close> clears: the block is unchanged.\<close>

definition Block_Verify :: "block_env \<Rightarrow> bytes \<Rightarrow> PttID \<Rightarrow> Block \<Rightarrow> unit res" where
  "Block_Verify E expectedHash creatorID b =
     (case be_enc E (strip_block b) of
        Inl e \<Rightarrow> Fail e
      | Inr marshaled \<Rightarrow>
          VerifyData (be_ecc E) (marshaled @ blk_Salt b) expectedHash (blk_Sig b) (blk_Pub b) creatorID (blk_KeyExtra b))"

definition SignBlock :: "block_env \<Rightarrow> Block \<Rightarrow> signer \<Rightarrow> unit res \<times> Block \<times> signer" where
  "SignBlock E block g =
     (case SignKey (be_ecc E) g of
        (Ret key, g1) \<Rightarrow>
          (case Block_Sign E (fresh_salt g1) key block of
             (r, block', key') \<Rightarrow> (r, block', advance (g1\<lparr>sg_signKeyInfo := key'\<rparr>)))
      | (_, g1) \<Rightarrow> (Panic, block, g1))"

subsubsection \<open>Block infos\<close>

record BlockInfo =
  bi_V :: byte
  bi_ID :: "PttID option"
  bi_NBlock :: int
  bi_Hashs :: "bytes list list"
  bi_IsGood :: "bool list list option"
  bi_IsAllGood :: bool
  bi_MediaIDs :: "PttID list option"
  bi_UpdaterID :: PttID
  bi_db :: block_db
  bi_objID :: "PttID option"

definition NewBlockInfo :: "PttID option \<Rightarrow> bytes list list \<Rightarrow> PttID list option \<Rightarrow> PttID \<Rightarrow> BlockInfo" where
  "NewBlockInfo theID hashs mediaIDs updaterID =
     (let nBlock = length hashs
      in \<lparr>bi_V = CurrentVersion, bi_ID = theID, bi_NBlock = int nBlock, bi_Hashs = hashs,
          bi_IsGood = Some (replicate nBlock (replicate NSubBlock False)), bi_IsAllGood = False,
          bi_MediaIDs = mediaIDs, bi_UpdaterID = updaterID, bi_db = None, bi_objID = None\<rparr>)"

definition BlockInfo_SetDB :: "bytes \<Rightarrow> PttID option \<Rightarrow> BlockInfo \<Rightarrow> BlockInfo" where
  "BlockInfo_SetDB fullDBPrefix objID b =
     b\<lparr>bi_V := CurrentVersion, bi_db := Some fullDBPrefix, bi_objID := objID\<rparr>"

text \<open>\<^verbatim>\<open>blockInfo.SetBlockDB(block)\<close>: the block, and the handle it gets.\<close>

definition SetBlockDB :: "BlockInfo \<Rightarrow> Block \<Rightarrow> Block" where
  "SetBlockDB b block = Block_SetDB (bi_objID b) (bi_ID b) block"

text \<open>A double index, which panics out of range.\<close>

definition index2 :: "'a list list \<Rightarrow> nat \<Rightarrow> nat \<Rightarrow> 'a res" where
  "index2 xs i j = (if i < length xs \<and> j < length (xs ! i) then Ret (xs ! i ! j) else Panic)"

definition update2 :: "'a list list \<Rightarrow> nat \<Rightarrow> nat \<Rightarrow> 'a \<Rightarrow> 'a list list res" where
  "update2 xs i j v =
     (if i < length xs \<and> j < length (xs ! i) then Ret (xs[i := (xs ! i)[j := v]]) else Panic)"

text \<open>\<^verbatim>\<open>make\<close> with a negative length panics.\<close>

definition InitIsGood :: "BlockInfo \<Rightarrow> BlockInfo res" where
  "InitIsGood b =
     (if bi_NBlock b < 0 then Panic
      else Ret (b\<lparr>bi_IsGood := Some (replicate (nat (bi_NBlock b)) (replicate NSubBlock False)), bi_IsAllGood := False\<rparr>))"

definition ResetIsGood :: "BlockInfo \<Rightarrow> BlockInfo res" where
  "ResetIsGood b = InitIsGood b"

definition BlockInfo_Init :: "int \<Rightarrow> BlockInfo \<Rightarrow> BlockInfo res" where
  "BlockInfo_Init nBlock b =
     (if nBlock < 0 then Panic
      else ResetIsGood (b\<lparr>bi_NBlock := nBlock, bi_Hashs := replicate (nat nBlock) (replicate 2 [])\<rparr>))"

text \<open>\<^verbatim>\<open>VerifyBlock\<close> marshals the block with its hash and signature in place.\<close>

definition VerifyBlock :: "block_env \<Rightarrow> BlockInfo \<Rightarrow> Block \<Rightarrow> bool res" where
  "VerifyBlock E b block =
     (if bi_NBlock b \<le> int (unat (blk_BlockID block)) then Ret False
      else if NSubBlock \<le> unat (blk_SubBlockID block) then Ret False
      else
        (case be_enc E block of
           Inl e \<Rightarrow> Ret False
         | Inr marshaled \<Rightarrow>
             (case VerifyData (be_ecc E) (marshaled @ blk_Salt block) (blk_Hash block) (blk_Sig block)
                     (blk_Pub block) (bi_UpdaterID b) (blk_KeyExtra block) of
                Ret _ \<Rightarrow> Ret True
              | Fail _ \<Rightarrow> Ret False
              | Panic \<Rightarrow> Panic)))"

text \<open>Both result slices are made with the length of the input and then appended to.\<close>

fun VerifyBlocks_loop ::
  "block_env \<Rightarrow> BlockInfo \<Rightarrow> Block list \<Rightarrow> Block option list \<Rightarrow> Block option list \<Rightarrow>
   (Block option list \<times> Block option list) res" where
  "VerifyBlocks_loop E b [] good bad = Ret (good, bad)"
| "VerifyBlocks_loop E b (block # blocks) good bad =
     res_bind (VerifyBlock E b block) (\<lambda>isGood.
       if isGood then VerifyBlocks_loop E b blocks (good @ [Some block]) bad
       else VerifyBlocks_loop E b blocks good (bad @ [Some block]))"

definition VerifyBlocks :: "block_env \<Rightarrow> BlockInfo \<Rightarrow> Block list \<Rightarrow> (Block option list \<times> Block option list) res" where
  "VerifyBlocks E b blocks =
     VerifyBlocks_loop E b blocks (replicate (length blocks) None) (replicate (length blocks) None)"

fun good_cols :: "nat \<Rightarrow> bool list \<Rightarrow> bool res" where
  "good_cols 0 row = Ret True"
| "good_cols (Suc n) [] = Panic"
| "good_cols (Suc n) (x # row) = (if \<not> x then Ret False else good_cols n row)"

fun good_rows :: "nat \<Rightarrow> bool list list \<Rightarrow> bool res" where
  "good_rows 0 rows = Ret True"
| "good_rows (Suc n) [] = Panic"
| "good_rows (Suc n) (row # rows) =
     res_bind (good_cols NSubBlock row) (\<lambda>g. if \<not> g then Ret False else good_rows n rows)"

definition GetIsAllGood :: "BlockInfo \<Rightarrow> bool res \<times> BlockInfo" where
  "GetIsAllGood b =
     (if bi_NBlock b = 0 then (Ret True, b)
      else if bi_IsAllGood b then (Ret True, b)
      else
        (case bi_IsGood b of
           None \<Rightarrow> (Ret False, b)
         | Some rows \<Rightarrow>
             (case good_rows (nat (bi_NBlock b)) rows of
                Ret True \<Rightarrow> (Ret True, b\<lparr>bi_IsAllGood := True\<rparr>)
              | r \<Rightarrow> (r, b))))"

definition GetIsGood :: "u32 \<Rightarrow> byte \<Rightarrow> BlockInfo \<Rightarrow> bool res \<times> BlockInfo" where
  "GetIsGood blockID subBlockID b =
     (let init = (case InitIsGood b of Ret b' \<Rightarrow> (Ret False, b') | _ \<Rightarrow> (Panic, b))
      in if word_of_int (bi_NBlock b) \<le> blockID then (Ret False, b)
         else if NSubBlock \<le> unat subBlockID then (Ret False, b)
         else
           (case bi_IsGood b of
              None \<Rightarrow> init
            | Some rows \<Rightarrow>
                if int (length rows) < bi_NBlock b then init
                else (index2 rows (unat blockID) (unat subBlockID), b)))"

definition SetIsGood :: "u32 \<Rightarrow> byte \<Rightarrow> bool \<Rightarrow> BlockInfo \<Rightarrow> BlockInfo res" where
  "SetIsGood blockID subBlockID isGood b =
     res_bind (if bi_IsGood b = None then InitIsGood b else Ret b) (\<lambda>b.
       case bi_IsGood b of
         None \<Rightarrow> Panic
       | Some rows \<Rightarrow>
           res_bind (update2 rows (unat blockID) (unat subBlockID) isGood) (\<lambda>rows'.
             Ret (b\<lparr>bi_IsGood := Some rows'\<rparr>)))"

fun set_cols :: "nat \<Rightarrow> bool list \<Rightarrow> bool list res" where
  "set_cols 0 row = Ret row"
| "set_cols (Suc n) [] = Panic"
| "set_cols (Suc n) (x # row) = res_bind (set_cols n row) (\<lambda>row'. Ret (True # row'))"

fun set_rows :: "nat \<Rightarrow> bool list list \<Rightarrow> bool list list res" where
  "set_rows 0 rows = Ret rows"
| "set_rows (Suc n) [] = Panic"
| "set_rows (Suc n) (row # rows) =
     res_bind (set_cols NSubBlock row) (\<lambda>row'. res_bind (set_rows n rows) (\<lambda>rows'. Ret (row' # rows')))"

definition SetIsAllGood :: "BlockInfo \<Rightarrow> BlockInfo res" where
  "SetIsAllGood b =
     res_bind (if bi_IsGood b = None then InitIsGood b else Ret b) (\<lambda>b.
       case bi_IsGood b of
         None \<Rightarrow> Panic
       | Some rows \<Rightarrow>
           res_bind (set_rows (nat (bi_NBlock b)) rows) (\<lambda>rows'.
             Ret (b\<lparr>bi_IsGood := Some rows', bi_IsAllGood := True\<rparr>)))"

text \<open>
  \<^verbatim>\<open>SaveBlocks\<close> stops at the first block that cannot be saved. A block comes with its handle.
\<close>

fun SaveBlocks_loop ::
  "block_env \<Rightarrow> (Block \<times> block_db) list \<Rightarrow> BlockInfo \<Rightarrow> LDBDatabase \<Rightarrow> unit res \<times> BlockInfo \<times> LDBDatabase" where
  "SaveBlocks_loop E [] b db = (Ret (), b, db)"
| "SaveBlocks_loop E ((block, D) # blocks) b db =
     (let rows = (case bi_IsGood b of None \<Rightarrow> [] | Some rows \<Rightarrow> rows);
          i = unat (blk_BlockID block);
          j = unat (blk_SubBlockID block)
      in case index2 rows i j of
           Ret True \<Rightarrow> SaveBlocks_loop E blocks b db
         | Ret False \<Rightarrow>
             (case (if D = None then Block_Save E (bi_db b) (SetBlockDB b block) db else Block_Save E D block db) of
                (Ret _, db') \<Rightarrow>
                  (case update2 rows i j True of
                     Ret rows' \<Rightarrow> SaveBlocks_loop E blocks (b\<lparr>bi_IsGood := Some rows'\<rparr>) db'
                   | _ \<Rightarrow> (Panic, b, db'))
              | (r, db') \<Rightarrow> (r, b, db'))
         | _ \<Rightarrow> (Panic, b, db))"

definition SaveBlocks_body ::
  "block_env \<Rightarrow> (Block \<times> block_db) list \<Rightarrow> BlockInfo \<Rightarrow> LDBDatabase \<Rightarrow> unit res \<times> BlockInfo \<times> LDBDatabase" where
  "SaveBlocks_body E blocks b db =
     (case (if bi_IsGood b = None then InitIsGood b else Ret b) of
        Ret b' \<Rightarrow> SaveBlocks_loop E blocks b' db
      | _ \<Rightarrow> (Panic, b, db))"

definition SaveBlocks ::
  "block_env \<Rightarrow> (nat \<Rightarrow> LockMap \<Rightarrow> LockMap) \<Rightarrow> bool \<Rightarrow> (Block \<times> block_db) list \<Rightarrow> BlockInfo \<Rightarrow>
   LockMap \<times> LDBDatabase \<Rightarrow> unit res \<times> BlockInfo \<times> LockMap \<times> LDBDatabase" where
  "SaveBlocks E env isLocked blocks b s =
     (case s of (l, db) \<Rightarrow>
        if isLocked then (case SaveBlocks_body E blocks b db of (r, b', db') \<Rightarrow> (r, b', l, db'))
        else
          (case LM_Lock env l (bi_ID b) of
             Ret (None, l1) \<Rightarrow>
               (case SaveBlocks_body E blocks b db of
                  (r, b', db') \<Rightarrow> (r, b', (case LM_Unlock l1 (bi_ID b) of Ret l2 \<Rightarrow> l2 | _ \<Rightarrow> l1), db'))
           | Ret (Some e, l1) \<Rightarrow> (Fail e, b, l1, db)
           | _ \<Rightarrow> (Panic, b, l, db)))"

subsubsection \<open>Scrambling\<close>

text \<open>The loop that cuts the padded text into \<open>k\<close> shards of \<open>n\<close> bytes.\<close>

fun cut_shards :: "nat \<Rightarrow> nat \<Rightarrow> bytes \<Rightarrow> bytes list" where
  "cut_shards 0 n pBytes = []"
| "cut_shards (Suc k) n pBytes = take n pBytes # cut_shards k n (drop n pBytes)"

definition scramble_pad :: "bytes \<Rightarrow> bytes" where
  "scramble_pad theBytes =
     (if length theBytes mod NScrambleInBlock \<noteq> 0
      then theBytes @ replicate (NScrambleInBlock - length theBytes mod NScrambleInBlock) 0
      else theBytes)"

definition ScrambleBuf :: "block_env \<Rightarrow> bytes list \<Rightarrow> bytes list res" where
  "ScrambleBuf E buf =
     (case be_bufs_enc E buf of
        Inl e \<Rightarrow> Fail e
      | Inr marshaled \<Rightarrow>
          res_bind (be_rs_New E NScrambleInBlock NScrambleInBlock) (\<lambda>enc.
            let theBytes = scramble_pad marshaled;
                nBytesInScramble = length theBytes div NScrambleInBlock;
                newBufs = cut_shards NScrambleInBlock nBytesInScramble theBytes @
                          replicate NScrambleInBlock (replicate nBytesInScramble 0)
            in res_bind (rs_Encode enc newBufs) (\<lambda>newBufs. Ret (drop NScrambleInBlock newBufs))))"

text \<open>The index after the last byte that is not zero.\<close>

fun unpad_end :: "bytes \<Rightarrow> nat \<Rightarrow> nat" where
  "unpad_end buf 0 = 0"
| "unpad_end buf (Suc i) = (if buf ! i = 0 then unpad_end buf i else Suc i)"

definition unscrambleBufUnpad :: "bytes \<Rightarrow> bytes" where
  "unscrambleBufUnpad buf = take (unpad_end buf (length buf)) buf"

definition UnscrambleBuf :: "block_env \<Rightarrow> bytes list \<Rightarrow> bytes list res" where
  "UnscrambleBuf E buf =
     (if length buf \<noteq> NScrambleInBlock then Fail ErrInvalidBlock
      else
        res_bind (be_rs_New E NScrambleInBlock NScrambleInBlock) (\<lambda>enc.
          let nBytesInScramble = length (hd buf);
              newBufs = replicate NScrambleInBlock None @ map Some buf
          in res_bind (rs_Reconstruct enc newBufs) (\<lambda>newBufs.
               let theBuf = concat (map (copy_into (replicate nBytesInScramble 0)) (take NScrambleInBlock newBufs))
               in case be_bufs_dec E (unscrambleBufUnpad theBuf) of
                    None \<Rightarrow> Fail JsonError
                  | Some result \<Rightarrow> Ret result)))"

definition unscrambleContentBlocksToBufs :: "block_env \<Rightarrow> Block list \<Rightarrow> bytes list res" where
  "unscrambleContentBlocksToBufs E contentBlocks =
     (if length contentBlocks \<noteq> NScrambleInBlock then Fail ErrInvalidBlock
      else UnscrambleBuf E (map (\<lambda>c. case blk_Buf c of None \<Rightarrow> [] | Some buf \<Rightarrow> buf) contentBlocks))"

subsubsection \<open>Writing a content\<close>

definition FullBlockDBPrefix :: "bytes \<Rightarrow> bytes option \<Rightarrow> bytes res" where
  "FullBlockDBPrefix dbBlockPrefix prefix =
     (case prefix of None \<Rightarrow> Ret dbBlockPrefix | Some p \<Rightarrow> Concat [Some dbBlockPrefix, Some p])"

type_synonym split_st = "signer \<times> LDBDatabase"

text \<open>One block is made, signed and saved; its hash is returned.\<close>

definition save_block :: "block_env \<Rightarrow> bytes \<Rightarrow> Block \<Rightarrow> split_st \<Rightarrow> bytes res \<times> split_st" where
  "save_block E D block s =
     (case SignBlock E block (fst s) of
        (Ret _, block', g') \<Rightarrow>
          (case Block_Save E (Some D) block' (snd s) of
             (Ret _, db') \<Rightarrow> (Ret (blk_Hash block'), g', db')
           | (Fail e, db') \<Rightarrow> (Fail e, g', db')
           | (Panic, db') \<Rightarrow> (Panic, g', db'))
      | (Fail e, _, g') \<Rightarrow> (Fail e, g', snd s)
      | (Panic, _, g') \<Rightarrow> (Panic, g', snd s))"

fun save_shards ::
  "block_env \<Rightarrow> bytes \<Rightarrow> PttID option \<Rightarrow> PttID option \<Rightarrow> nat \<Rightarrow> nat \<Rightarrow> bytes list \<Rightarrow>
   split_st \<Rightarrow> bytes list res \<times> split_st" where
  "save_shards E D objID theID blockID subBlockID [] = Pair (Ret [])"
| "save_shards E D objID theID blockID subBlockID (scrambledBuf # scrambledBufs) =
     st_bind (save_block E D (Block_SetDB objID theID (NewBlock (of_nat blockID) (of_nat subBlockID) scrambledBuf)))
       (\<lambda>hash. st_bind (save_shards E D objID theID blockID (Suc subBlockID) scrambledBufs)
          (\<lambda>hashs. Pair (Ret (hash # hashs))))"

definition save_chunk ::
  "block_env \<Rightarrow> bytes \<Rightarrow> PttID option \<Rightarrow> PttID option \<Rightarrow> nat \<Rightarrow> bytes list \<Rightarrow> split_st \<Rightarrow> bytes list res \<times> split_st" where
  "save_chunk E D objID theID blockID buf =
     res_then (ScrambleBuf E buf) (save_shards E D objID theID blockID 0)"

text \<open>
  The loop of \<^verbatim>\<open>SplitContentBlocks\<close>. Only the first chunk may have another number of lines than
  \<^verbatim>\<open>NLineInBlock\<close>; a negative number panics in the slice expression.
\<close>

function split_content ::
  "block_env \<Rightarrow> bytes \<Rightarrow> PttID option \<Rightarrow> PttID option \<Rightarrow> nat \<Rightarrow> int \<Rightarrow> bytes list \<Rightarrow> split_st \<Rightarrow>
   bytes list list res \<times> split_st" where
  "split_content E D objID theID blockID nLineInBlock currentBuf =
     (if currentBuf = [] then Pair (Ret [])
      else
        (let lenCurrentBuf = MinInt nLineInBlock (int (length currentBuf))
         in if lenCurrentBuf < 0 then Pair Panic
            else
              st_bind (save_chunk E D objID theID blockID (take (nat lenCurrentBuf) currentBuf))
                (\<lambda>eachHashs.
                   st_bind (split_content E D objID theID (Suc blockID) NLineInBlock (drop (nat lenCurrentBuf) currentBuf))
                     (\<lambda>hashs. Pair (Ret (eachHashs # hashs))))))"
  by pat_completeness auto
termination
  by (relation "measure (\<lambda>(E, D, objID, theID, blockID, n, buf). 2 * length buf + (if n \<le> 0 then 1 else 0))")
    (auto simp: NLineInBlock_def split: if_splits)

declare split_content.simps [simp del]

definition SplitContentBlocks ::
  "block_env \<Rightarrow> rand_read \<Rightarrow> bytes \<Rightarrow> bytes option \<Rightarrow> PttID option \<Rightarrow> bytes list \<Rightarrow> int \<Rightarrow> split_st \<Rightarrow>
   (PttID option \<times> bytes list list) res \<times> split_st" where
  "SplitContentBlocks E rand dbBlockPrefix prefix objID buf nFirstLineInBlock =
     res_then (NewPttID rand) (\<lambda>blockInfoID.
       res_then (FullBlockDBPrefix dbBlockPrefix prefix) (\<lambda>fullDBPrefix.
         st_bind (split_content E fullDBPrefix objID blockInfoID 0 nFirstLineInBlock buf)
           (\<lambda>hashs. Pair (Ret (blockInfoID, hashs)))))"

text \<open>The length of the next chunk of a medium: a last byte on its own joins the chunk before it.\<close>

definition media_chunk_len :: "bytes \<Rightarrow> nat" where
  "media_chunk_len currentBuf =
     nat (if int (length currentBuf) = NByteInBlock + 1 then int (length currentBuf)
          else MinInt NByteInBlock (int (length currentBuf)))"

definition media_chunk :: "bytes \<Rightarrow> bytes list" where
  "media_chunk currentBuf =
     (let lenCurrentBuf = media_chunk_len currentBuf;
          halfLenCurrentBuf = (lenCurrentBuf + 1) div 2
      in [take halfLenCurrentBuf currentBuf, slice halfLenCurrentBuf lenCurrentBuf currentBuf])"

function split_media ::
  "block_env \<Rightarrow> bytes \<Rightarrow> PttID option \<Rightarrow> PttID option \<Rightarrow> nat \<Rightarrow> bytes \<Rightarrow> split_st \<Rightarrow> bytes list list res \<times> split_st" where
  "split_media E D objID theID blockID currentBuf =
     (if currentBuf = [] then Pair (Ret [])
      else
        st_bind (save_chunk E D objID theID blockID (media_chunk currentBuf))
          (\<lambda>eachHashs.
             st_bind (split_media E D objID theID (Suc blockID) (drop (media_chunk_len currentBuf) currentBuf))
               (\<lambda>hashs. Pair (Ret (eachHashs # hashs)))))"
  by pat_completeness auto
termination
proof (relation "measure (\<lambda>(E, D, objID, theID, blockID, buf). length buf)", goal_cases)
  case (2 E D objID theID blockID buf)
  then have "0 < media_chunk_len buf" by (simp add: media_chunk_len_def NByteInBlock_def)
  with 2 show ?case by simp
qed simp

declare split_media.simps [simp del]

definition SplitMediaBlocks ::
  "block_env \<Rightarrow> rand_read \<Rightarrow> bytes \<Rightarrow> PttID option \<Rightarrow> bytes \<Rightarrow> split_st \<Rightarrow>
   (PttID option \<times> bytes list list) res \<times> split_st" where
  "SplitMediaBlocks E rand dbBlockPrefix objID buf =
     res_then (NewPttID rand) (\<lambda>blockInfoID.
       res_then (FullBlockDBPrefix dbBlockPrefix None) (\<lambda>fullDBPrefix.
         st_bind (split_media E fullDBPrefix objID blockInfoID 0 buf)
           (\<lambda>hashs. Pair (Ret (blockInfoID, hashs)))))"

subsubsection \<open>Reading a content\<close>

definition GetBlockIterWithBlockInfo :: "BlockInfo \<Rightarrow> LDBDatabase \<Rightarrow> Iterator res" where
  "GetBlockIterWithBlockInfo b db = Block_GetIter (bi_db b) (SetBlockDB b NewEmptyBlock) ListOrderNext db"

text \<open>Both list functions take zero, and anything above the number of blocks, as that number.\<close>

definition block_limit :: "u32 \<Rightarrow> BlockInfo \<Rightarrow> u32" where
  "block_limit limit b =
     (let n = word_of_int (bi_NBlock b)
      in if limit = 0 then n else if n < limit then n else limit)"

fun collect_blocks :: "block_env \<Rightarrow> u32 \<Rightarrow> kv_list \<Rightarrow> Block list" where
  "collect_blocks E limit [] = []"
| "collect_blocks E limit (kv # kvs) =
     (case be_dec E (snd kv) NewEmptyBlock of
        None \<Rightarrow> collect_blocks E limit kvs
      | Some each \<Rightarrow> if limit \<le> blk_BlockID each then [] else each # collect_blocks E limit kvs)"

definition GetBlockList :: "block_env \<Rightarrow> BlockInfo \<Rightarrow> u32 \<Rightarrow> LDBDatabase \<Rightarrow> Block list res \<times> BlockInfo" where
  "GetBlockList E b0 limit db =
     (case GetIsAllGood b0 of
        (Ret isAllGood, b) \<Rightarrow>
          (if \<not> isAllGood then Fail ErrInvalidBlock
           else res_bind (GetBlockIterWithBlockInfo b db) (\<lambda>iter.
                  Ret (collect_blocks E (block_limit limit b) (visited ListOrderNext iter))), b)
      | (_, b) \<Rightarrow> (Panic, b))"

fun fill_bufs ::
  "block_env \<Rightarrow> BlockInfo \<Rightarrow> u32 \<Rightarrow> kv_list \<Rightarrow> bytes option list list \<Rightarrow> bytes option list list res" where
  "fill_bufs E b limit [] bufs = Ret bufs"
| "fill_bufs E b limit (kv # kvs) bufs =
     (case be_dec E (snd kv) (SetBlockDB b NewEmptyBlock) of
        None \<Rightarrow> fill_bufs E b limit kvs bufs
      | Some each \<Rightarrow>
          if limit \<le> blk_BlockID each then Ret bufs
          else res_bind (update2 bufs (unat (blk_BlockID each)) (unat (blk_SubBlockID each)) (blk_Buf each))
                 (fill_bufs E b limit kvs))"

text \<open>A chunk with a missing shard, or one that cannot be decoded, is an invalid block.\<close>

fun unscramble_all :: "block_env \<Rightarrow> bytes option list list \<Rightarrow> bytes list list res" where
  "unscramble_all E [] = Ret []"
| "unscramble_all E (eachBuf # bufs) =
     (case UnscrambleBuf E (map (case_option [] id) eachBuf) of
        Ret unscrambledBuf \<Rightarrow> res_bind (unscramble_all E bufs) (\<lambda>rest. Ret (unscrambledBuf # rest))
      | Fail _ \<Rightarrow> Fail ErrInvalidBlock
      | Panic \<Rightarrow> Panic)"

definition number_content :: "bytes list list \<Rightarrow> ContentBlock list" where
  "number_content bufs = map (\<lambda>i. NewContentBlock (of_nat i) (bufs ! i)) [0..<length bufs]"

definition GetContentBlockList ::
  "block_env \<Rightarrow> BlockInfo \<Rightarrow> u32 \<Rightarrow> LDBDatabase \<Rightarrow> ContentBlock list res \<times> BlockInfo" where
  "GetContentBlockList E b0 limit0 db =
     (case GetIsAllGood b0 of
        (Ret isAllGood, b) \<Rightarrow>
          (if \<not> isAllGood then Fail ErrInvalidBlock
           else
             res_bind (GetBlockIterWithBlockInfo b db) (\<lambda>iter.
               let limit = block_limit limit0 b
               in res_bind (fill_bufs E b limit (visited ListOrderNext iter)
                              (replicate (unat limit) (replicate NSubBlock None))) (\<lambda>bufs.
                    if list_ex (list_ex (\<lambda>buf. buf = None)) bufs then Fail ErrInvalidBlock
                    else res_bind (unscramble_all E bufs) (\<lambda>bufs. Ret (number_content bufs)))), b)
      | (_, b) \<Rightarrow> (Panic, b))"

text \<open>
  \<^verbatim>\<open>Media.GetBuf\<close> of a medium with the identifier \<open>mediaID\<close> and the block info \<open>bi\<close>. The list it
  concatenates starts with nil slices, which \<^verbatim>\<open>Concat\<close> skips.
\<close>

definition GetBuf :: "block_env \<Rightarrow> bytes \<Rightarrow> PttID \<Rightarrow> BlockInfo option \<Rightarrow> LDBDatabase \<Rightarrow> bytes res" where
  "GetBuf E dbBlockPrefix mediaID bi db =
     (case bi of
        None \<Rightarrow> Fail ErrInvalidBlock
      | Some b \<Rightarrow>
          if \<not> bi_IsAllGood b then Fail ErrInvalidBlock
          else
            res_bind (fst (GetContentBlockList E (BlockInfo_SetDB dbBlockPrefix (Some mediaID) b) 0 db)) (\<lambda>contentBlocks.
              if bi_NBlock b < 0 then Panic
              else Concat (replicate (nat (bi_NBlock b) * NScrambleInBlock) None @
                     map Some (concat (map cb_Buf contentBlocks)))))"

subsubsection \<open>Blocks from a peer\<close>

text \<open>\<^verbatim>\<open>shrinkBlocks\<close> drops the blocks that have arrived already; \<^verbatim>\<open>GetIsGood\<close> may reset the flags.\<close>

fun shrinkBlocks :: "Block list \<Rightarrow> BlockInfo \<Rightarrow> Block list res \<times> BlockInfo" where
  "shrinkBlocks [] = Pair (Ret [])"
| "shrinkBlocks (block # blocks) =
     st_bind (GetIsGood (blk_BlockID block) (blk_SubBlockID block)) (\<lambda>isGood.
       st_bind (shrinkBlocks blocks) (\<lambda>rest. Pair (Ret (if isGood then rest else block # rest))))"

fun verifyBlocks :: "block_env \<Rightarrow> Block list \<Rightarrow> BlockInfo \<Rightarrow> PttID \<Rightarrow> unit res" where
  "verifyBlocks E [] blockInfo creatorID = Ret ()"
| "verifyBlocks E (block # blocks) blockInfo creatorID =
     res_bind (index2 (bi_Hashs blockInfo) (unat (blk_BlockID block)) (unat (blk_SubBlockID block))) (\<lambda>hash.
       res_bind (Block_Verify E hash creatorID block) (\<lambda>_. verifyBlocks E blocks blockInfo creatorID))"

fun saveBlocks :: "block_env \<Rightarrow> Block list \<Rightarrow> bool \<Rightarrow> BlockInfo \<times> LDBDatabase \<Rightarrow> bool res \<times> BlockInfo \<times> LDBDatabase" where
  "saveBlocks E [] saved s = (Ret saved, s)"
| "saveBlocks E (block # blocks) saved s =
     (case Block_Save E (bi_db (fst s)) (SetBlockDB (fst s) block) (snd s) of
        (Fail _, db') \<Rightarrow> saveBlocks E blocks saved (fst s, db')
      | (Panic, db') \<Rightarrow> (Panic, fst s, db')
      | (Ret _, db') \<Rightarrow>
          (case SetIsGood (blk_BlockID block) (blk_SubBlockID block) True (fst s) of
             Ret b' \<Rightarrow> saveBlocks E blocks True (b', db')
           | _ \<Rightarrow> (Panic, fst s, db')))"

text \<open>
  The part that \<^verbatim>\<open>handleSyncCreateBlockAck\<close> and \<^verbatim>\<open>handleSyncUpdateBlockAck\<close> share: the blocks for a block
  info are shrunk, verified and saved. \<open>Ret False\<close> stands for the returns without error on which nothing
  was stored.
\<close>

definition receive_blocks ::
  "block_env \<Rightarrow> PttID \<Rightarrow> Block list \<Rightarrow> BlockInfo \<times> LDBDatabase \<Rightarrow> bool res \<times> BlockInfo \<times> LDBDatabase" where
  "receive_blocks E creatorID blocks s =
     (case shrinkBlocks blocks (fst s) of
        (Ret blocks', b) \<Rightarrow>
          if blocks' = [] then (Ret False, b, snd s)
          else
            (case verifyBlocks E blocks' b creatorID of
               Ret _ \<Rightarrow> saveBlocks E blocks' False (b, snd s)
             | Fail e \<Rightarrow> (Fail e, b, snd s)
             | Panic \<Rightarrow> (Panic, b, snd s))
      | (_, b) \<Rightarrow> (Panic, b, snd s))"

text \<open>
  \<^verbatim>\<open>blocksToBlocksByIDsByObjs\<close> groups the blocks of a message by object and by block info. Its first two loops
  only size the slices. A block without an object or without an identifier is dereferenced.
\<close>

definition add_block ::
  "(PttID \<rightharpoonup> PttID \<rightharpoonup> Block list) \<Rightarrow> PttID \<Rightarrow> PttID \<Rightarrow> Block \<Rightarrow> (PttID \<rightharpoonup> PttID \<rightharpoonup> Block list)" where
  "add_block m objID theID block =
     (let byID = (case m objID of None \<Rightarrow> Map.empty | Some byID \<Rightarrow> byID);
          blocks = (case byID theID of None \<Rightarrow> [] | Some blocks \<Rightarrow> blocks)
      in m(objID \<mapsto> byID(theID \<mapsto> blocks @ [block])))"

fun group_blocks ::
  "Block list \<Rightarrow> (PttID \<rightharpoonup> PttID \<rightharpoonup> Block list) \<Rightarrow> (PttID \<rightharpoonup> PttID \<rightharpoonup> Block list) res" where
  "group_blocks [] m = Ret m"
| "group_blocks (block # blocks) m =
     (case (blk_ObjID block, blk_ID block) of
        (Some objID, Some theID) \<Rightarrow> group_blocks blocks (add_block m objID theID block)
      | _ \<Rightarrow> Panic)"

definition blocksToBlocksByIDsByObjs :: "Block list \<Rightarrow> (PttID \<rightharpoonup> PttID \<rightharpoonup> Block list) res" where
  "blocksToBlocksByIDsByObjs blocks = group_blocks blocks Map.empty"

text \<open>
  \<^verbatim>\<open>SyncBlockAck\<close> and \<^verbatim>\<open>SyncBlock\<close> send their items in messages of at most \<^verbatim>\<open>MaxSyncBlock\<close>; \<open>send\<close> is
  \<^verbatim>\<open>SendDataToPeer\<close>, and the first error ends the loop.
\<close>

definition MaxSyncBlock :: nat where
  "MaxSyncBlock = 50"

function send_batches :: "('a list \<Rightarrow> 's \<Rightarrow> unit res \<times> 's) \<Rightarrow> 'a list \<Rightarrow> 's \<Rightarrow> unit res \<times> 's" where
  "send_batches send pItems =
     (if pItems = [] then Pair (Ret ())
      else
        (let lenEach = (if length pItems < MaxSyncBlock then length pItems else MaxSyncBlock)
         in st_bind (send (take lenEach pItems)) (\<lambda>_. send_batches send (drop lenEach pItems))))"
  by pat_completeness auto
termination
  by (relation "measure (\<lambda>(send, pItems). length pItems)") (auto simp: MaxSyncBlock_def)

declare send_batches.simps [simp del]

text \<open>\<^verbatim>\<open>normalizeSize\<close>: the size of a picture is scaled down to the bounds.\<close>

definition go_quot :: "int \<Rightarrow> int \<Rightarrow> int" where
  "go_quot a b = sgn a * sgn b * (\<bar>a\<bar> div \<bar>b\<bar>)"

definition go_div :: "int \<Rightarrow> int \<Rightarrow> int res" where
  "go_div a b = (if b = 0 then Panic else Ret (i64 (go_quot a b)))"

definition normalizeSize :: "int \<Rightarrow> int \<Rightarrow> int \<Rightarrow> int \<Rightarrow> (int \<times> int) res" where
  "normalizeSize width height maxWidth maxHeight =
     res_bind (if width > maxWidth then res_bind (go_div (i64 (height * maxWidth)) width) (\<lambda>h. Ret (maxWidth, h)) else Ret (width, height))
       (\<lambda>(newWidth, newHeight).
          if newHeight > maxHeight then res_bind (go_div (i64 (width * maxHeight)) height) (\<lambda>w. Ret (w, maxHeight))
          else Ret (newWidth, newHeight))"

subsection \<open>What the libraries promise\<close>

text \<open>
  JSON text is never empty and never ends in a zero byte. A block reads back as it was written into a block
  whose omittable fields are still empty; an empty content would be omitted. The Reed-Solomon
  library computes parity shards from which it finds the data shards again.
\<close>

definition bufs_codec_ok :: "block_env \<Rightarrow> bool" where
  "bufs_codec_ok E \<longleftrightarrow>
     (\<forall>bufs. \<exists>m. be_bufs_enc E bufs = Inr m \<and> m \<noteq> [] \<and> last m \<noteq> 0 \<and> be_bufs_dec E m = Some bufs)"

definition blank_block :: "Block \<Rightarrow> bool" where
  "blank_block b \<longleftrightarrow> blk_Buf b = None \<and> strip_block b = b"

definition block_codec_ok :: "block_env \<Rightarrow> bool" where
  "block_codec_ok E \<longleftrightarrow>
     (\<forall>b. \<exists>m. be_enc E b = Inr m \<and>
        (\<forall>b0. blank_block b0 \<longrightarrow> blk_Buf b \<noteq> Some [] \<longrightarrow> blk_ObjID b \<noteq> None \<longrightarrow> length (blk_Salt b) = SizeSalt \<longrightarrow>
           be_dec E m b0 = Some b))"

definition rs_code_ok :: "reed_solomon \<Rightarrow> bool" where
  "rs_code_ok enc \<longleftrightarrow>
     (\<forall>n d1 d2. 0 < n \<longrightarrow> length d1 = n \<longrightarrow> length d2 = n \<longrightarrow>
        (\<exists>p1 p2. length p1 = n \<and> length p2 = n \<and>
           rs_Encode enc [d1, d2, replicate n 0, replicate n 0] = Ret [d1, d2, p1, p2] \<and>
           rs_Reconstruct enc [None, None, Some p1, Some p2] = Ret [d1, d2, p1, p2]))"

definition block_env_ok :: "block_env \<Rightarrow> bool" where
  "block_env_ok E \<longleftrightarrow> bufs_codec_ok E \<and> block_codec_ok E \<and> (\<exists>enc. be_rs_New E 2 2 = Ret enc \<and> rs_code_ok enc)"

lemma block_env_okD:
  assumes "block_env_ok E"
  shows "bufs_codec_ok E" "block_codec_ok E" "\<exists>enc. be_rs_New E 2 2 = Ret enc \<and> rs_code_ok enc"
  using assms by (auto simp: block_env_ok_def)

lemma block_enc_total: "block_codec_ok E \<Longrightarrow> \<exists>m. be_enc E b = Inr m"
  unfolding block_codec_ok_def by blast

lemma block_read_back:
  assumes "block_codec_ok E" "be_enc E b = Inr m" "blank_block b0" "blk_Buf b \<noteq> Some []" "blk_ObjID b \<noteq> None"
    "length (blk_Salt b) = SizeSalt"
  shows "be_dec E m b0 = Some b"
proof -
  obtain m' where "be_enc E b = Inr m'" "\<forall>b0. blank_block b0 \<longrightarrow> blk_Buf b \<noteq> Some [] \<longrightarrow> blk_ObjID b \<noteq> None \<longrightarrow>
      length (blk_Salt b) = SizeSalt \<longrightarrow> be_dec E m' b0 = Some b"
    using assms(1) unfolding block_codec_ok_def by blast
  with assms(2-6) show ?thesis by simp
qed

subsection \<open>Scrambling\<close>

lemma scramble_pad_even:
  "\<exists>k. scramble_pad b = b @ replicate k 0 \<and> even (length (scramble_pad b))"
proof (cases "even (length b)")
  case True
  then show ?thesis by (intro exI [of _ 0]) (simp add: scramble_pad_def NScrambleInBlock_def even_iff_mod_2_eq_zero)
next
  case False
  then show ?thesis by (intro exI [of _ 1]) (simp add: scramble_pad_def NScrambleInBlock_def odd_iff_mod_2_eq_one)
qed

lemma unpad_end_zeros:
  "n \<le> k \<Longrightarrow> unpad_end (buf @ replicate k 0) (length buf + n) = unpad_end (buf @ replicate k 0) (length buf)"
  by (induction n) (auto simp: nth_append)

lemma unscrambleBufUnpad_pad:
  assumes "m \<noteq> []" "last m \<noteq> 0"
  shows "unscrambleBufUnpad (m @ replicate k 0) = m"
proof -
  obtain n where n: "length m = Suc n" using assms(1) by (cases m) auto
  have "(m @ replicate k 0) ! n = last m" using n assms(1) by (simp add: nth_append last_conv_nth)
  then have "unpad_end (m @ replicate k 0) (length m) = length m" using assms(2) by (simp add: n)
  moreover have "unpad_end (m @ replicate k 0) (length m + k) = unpad_end (m @ replicate k 0) (length m)"
    by (rule unpad_end_zeros) simp
  ultimately show ?thesis by (simp add: unscrambleBufUnpad_def)
qed

text \<open>Scrambling never fails, and its two shards give the content back.\<close>

lemma scramble_roundtrip:
  assumes "block_env_ok E"
  shows "\<exists>s1 s2. ScrambleBuf E buf = Ret [s1, s2] \<and> s1 \<noteq> [] \<and> s2 \<noteq> [] \<and> UnscrambleBuf E [s1, s2] = Ret buf"
proof -
  obtain m where m: "be_bufs_enc E buf = Inr m" "m \<noteq> []" "last m \<noteq> 0" "be_bufs_dec E m = Some buf"
    using block_env_okD(1) [OF assms] unfolding bufs_codec_ok_def by blast
  obtain enc where enc: "be_rs_New E 2 2 = Ret enc" "rs_code_ok enc" using block_env_okD(3) [OF assms] by blast
  obtain k where k: "scramble_pad m = m @ replicate k 0" "even (length (scramble_pad m))"
    using scramble_pad_even by blast
  define t where "t = scramble_pad m"
  define n where "n = length t div 2"
  have len: "length t = 2 * n" using k(2) by (simp add: n_def t_def)
  have "t \<noteq> []" using k(1) m(2) by (simp add: t_def)
  then have "0 < n" using len by (cases n) auto
  have l: "length (take n t) = n" "length (drop n t) = n" using len by simp_all
  then have d: "take n (drop n t) = drop n t" by simp
  obtain p1 p2 where p: "length p1 = n" "length p2 = n"
    "rs_Encode enc [take n t, drop n t, replicate n 0, replicate n 0] = Ret [take n t, drop n t, p1, p2]"
    "rs_Reconstruct enc [None, None, Some p1, Some p2] = Ret [take n t, drop n t, p1, p2]"
    using enc(2) \<open>0 < n\<close> l unfolding rs_code_ok_def by blast
  have cut: "cut_shards NScrambleInBlock n t @ replicate NScrambleInBlock (replicate n 0) =
      [take n t, drop n t, replicate n 0, replicate n 0]"
    using d by (simp add: NScrambleInBlock_def numeral_2_eq_2)
  have s: "ScrambleBuf E buf = Ret [p1, p2]"
    using m(1) enc(1) p(3) cut
    by (simp add: ScrambleBuf_def Let_def t_def [symmetric] n_def [symmetric] NScrambleInBlock_def)
  have "concat (map (copy_into (replicate n 0)) [take n t, drop n t]) = t" using l by simp
  then have "UnscrambleBuf E [p1, p2] = Ret buf"
    using enc(1) p k(1) m(4) unscrambleBufUnpad_pad [OF m(2,3), of k]
    by (simp add: UnscrambleBuf_def NScrambleInBlock_def numeral_2_eq_2 t_def)
  moreover have "p1 \<noteq> []" "p2 \<noteq> []" using p(1,2) \<open>0 < n\<close> by auto
  ultimately show ?thesis using s by blast
qed

subsection \<open>Signing\<close>

text \<open>
  A signer whose identifier belongs to its key and whose current signing key is usable stays so: the
  renewed keys are usable too.
\<close>

definition signer_ok :: "ecc \<Rightarrow> signer \<Rightarrow> bool" where
  "signer_ok E g \<longleftrightarrow> ecc_ok E \<and> scalar_ok E (sg_myKey g) \<and>
     IsSamePubKey (PubkeyToAddress E) (sg_ID g) (ScalarBaseMult E (sg_myKey g)) \<and>
     key_usable E (sg_ID g) (sg_signKeyInfo g) \<and> (\<forall>i. sg_clock g i \<noteq> Panic) \<and>
     (\<forall>i. \<exists>salt. sg_salts g i = Ret salt \<and> length salt = SizeSalt)"

lemma signer_ok_advance [simp]: "signer_ok E (advance g) = signer_ok E g" "sg_ID (advance g) = sg_ID g"
  by (simp_all add: signer_ok_def advance_def)

lemma signer_ok_key: "signer_ok E g \<Longrightarrow> key_usable E (sg_ID g) key \<Longrightarrow> signer_ok E (g\<lparr>sg_signKeyInfo := key\<rparr>)"
  by (simp add: signer_ok_def)

lemma Child_not_panic:
  assumes "ecc_ok E" "scalar_ok E d"
  shows "Child E (PrivKeyToExtKey d cc) idx \<noteq> Panic"
proof -
  have "ek_isPrivate (PrivKeyToExtKey d cc)" by (simp add: PrivKeyToExtKey_def)
  then show ?thesis unfolding Child_def PubkeyBytes_priv [OF assms] by (auto simp: Let_def Child_priv_def)
qed

lemma derive_not_panic:
  assumes "ecc_ok E" "scalar_ok E d" "\<And>i. salts i \<noteq> Panic"
  shows "deriveKeyBIP32 E salts d \<noteq> Panic"
proof -
  have step: "bip32_Key E (salts i) d idx \<noteq> Panic" for i idx
    using assms(3) [of i] Child_not_panic [OF assms(1,2)]
    by (cases "salts i") (auto simp: bip32_Key_def res_bind_def split: res.splits)
  have "deriveKeyBIP32_loop E salts d idx n r \<noteq> Panic" if "r \<noteq> Panic" for idx n r
    using that
  proof (induction n arbitrary: idx r)
    case 0
    then show ?case by (cases r) auto
  next
    case (Suc n)
    then show ?case using step [of idx "word_of_nat idx"] by (auto split: res.split)
  qed
  then have "deriveKeyBIP32_loop E salts d 0 MaxIterDeriveKeyBIP32 (Fail ErrInvalidChild) \<noteq> Panic" by simp
  then show ?thesis by (auto simp: deriveKeyBIP32_def res_bind_def split: res.splits prod.splits)
qed

lemma new_sign_key_ok:
  assumes "signer_ok E g"
  shows "new_sign_key E (sg_ID g) (sg_myKey g) g \<noteq> Panic"
    and "new_sign_key E (sg_ID g) (sg_myKey g) g = Ret ki \<Longrightarrow> key_usable E (sg_ID g) ki"
proof -
  let ?salts = "\<lambda>i. sg_salts g (sg_draw g + i)"
  have g: "ecc_ok E" "scalar_ok E (sg_myKey g)"
    "IsSamePubKey (PubkeyToAddress E) (sg_ID g) (ScalarBaseMult E (sg_myKey g))" "now_ts g \<noteq> Panic"
    using assms by (auto simp: signer_ok_def now_ts_def)
  have "?salts i \<noteq> Panic" for i using assms by (auto simp: signer_ok_def dest: spec [of _ "sg_draw g + i"])
  then have d: "deriveKeyBIP32 E ?salts (sg_myKey g) \<noteq> Panic" by (rule derive_not_panic [OF g(1,2)])
  show "new_sign_key E (sg_ID g) (sg_myKey g) g \<noteq> Panic"
  proof (cases "deriveKeyBIP32 E ?salts (sg_myKey g)")
    case (Ret r)
    obtain k extra where r: "r = (k, extra)" by fastforce
    obtain e where e: "scalar_ok E e" "ToPrivkey E k = Ret e" "PubkeyBytes E k = Ret (FromECDSAPub (ScalarBaseMult E e))"
      using derived_key_accepted [OF g(1-3)] Ret unfolding r by blast
    have "PrivkeyBytes k \<noteq> Panic" by (simp add: PrivkeyBytes_def)
    then show ?thesis
      using Ret e g(4) unfolding r new_sign_key_def NewSignKeyInfo_def newKeyInfo_def
      by (cases "PrivkeyBytes k"; cases "now_ts g") (auto simp: Let_def)
  qed (use d in \<open>simp_all add: new_sign_key_def NewSignKeyInfo_def\<close>)
  assume k: "new_sign_key E (sg_ID g) (sg_myKey g) g = Ret ki"
  then obtain ts where "now_ts g = Ret ts"
    by (auto simp: new_sign_key_def NewSignKeyInfo_def newKeyInfo_def res_bind_eq_Ret Let_def)
  with k show "key_usable E (sg_ID g) ki"
    using new_key_usable [OF g(1-3), of ?salts ts _ ki] by (simp add: new_sign_key_def)
qed

lemma SignKey_ok:
  assumes "signer_ok E g"
  shows "\<exists>g'. SignKey E g = (Ret (sg_signKeyInfo g'), g') \<and> signer_ok E g' \<and> sg_ID g' = sg_ID g"
proof (cases "ki_Count (sg_signKeyInfo g) > NRenewSignKey")
  case True
  obtain r g1 where c: "CreateSignKeyInfo E g = (r, g1)" by fastforce
  have "r \<noteq> Panic \<and> signer_ok E g1 \<and> sg_ID g1 = sg_ID g"
  proof (cases "new_sign_key E (sg_ID g) (sg_myKey g) g")
    case (Ret ki)
    then show ?thesis
      using c new_sign_key_ok(2) [OF assms Ret] signer_ok_key [OF assms] by (auto simp: CreateSignKeyInfo_def)
  next
    case (Fail e)
    then show ?thesis using c assms by (auto simp: CreateSignKeyInfo_def)
  qed (use new_sign_key_ok(1) [OF assms] in simp)
  with True c show ?thesis by (cases r) (auto simp: SignKey_def)
qed (use assms in \<open>simp add: SignKey_def\<close>)

text \<open>The signature library does not fail on a digest.\<close>

definition signing_total :: "ecc \<Rightarrow> bool" where
  "signing_total E \<longleftrightarrow> (\<forall>h d. scalar_ok E d \<longrightarrow> length h = 32 \<longrightarrow> (\<exists>sig. crypto_Sign E h d = Ret sig))"

lemma Block_Sign_ok:
  assumes E: "block_codec_ok E" "ecc_ok (be_ecc E)" "signing_total (be_ecc E)"
    and key: "key_usable (be_ecc E) theID key" and salt: "length salt = SizeSalt"
  shows "\<exists>b' key'. Block_Sign E (Ret salt) key b = (Ret (), b', key') \<and> strip_block b' = strip_block b \<and>
    length (blk_Salt b') = SizeSalt \<and> Block_Verify E (blk_Hash b') theID b' = Ret () \<and> key_usable (be_ecc E) theID key'"
proof -
  obtain m where m: "be_enc E (strip_block b) = Inr m" using block_enc_total [OF E(1)] by blast
  have "scalar_ok (be_ecc E) (ki_Key key)" using key by (simp add: key_usable_def)
  then obtain sig where "crypto_Sign (be_ecc E) (Keccak256 (be_ecc E) (m @ salt)) (ki_Key key) = Ret sig"
    using E(3) ecc_okD(2) [OF E(2)] unfolding signing_total_def by blast
  then have s: "SignData (be_ecc E) (Ret salt) m key =
      (Ret (m @ salt, Keccak256 (be_ecc E) (m @ salt), sig, ki_PubKeyBytes key), key\<lparr>ki_Count := ki_Count key + 1\<rparr>)"
    by (simp add: SignData_def Let_def)
  have v: "VerifyData (be_ecc E) (m @ salt) (Keccak256 (be_ecc E) (m @ salt)) sig (ki_PubKeyBytes key) theID (ki_Extra key) = Ret ()"
    using sign_verify_data [OF E(2) key s] by simp
  have "key_usable (be_ecc E) theID (key\<lparr>ki_Count := ki_Count key + 1\<rparr>)" using key by (auto simp: key_usable_def)
  then show ?thesis
    using m s v salt by (simp add: Block_Sign_def Let_def Block_Verify_def strip_block_def EmptySalt_def)
qed

lemma SignBlock_ok:
  assumes E: "block_codec_ok E" "signing_total (be_ecc E)" and g: "signer_ok (be_ecc E) g"
  shows "\<exists>b' g'. SignBlock E b g = (Ret (), b', g') \<and> strip_block b' = strip_block b \<and>
    length (blk_Salt b') = SizeSalt \<and> Block_Verify E (blk_Hash b') (sg_ID g) b' = Ret () \<and>
    signer_ok (be_ecc E) g' \<and> sg_ID g' = sg_ID g"
proof -
  obtain g1 where g1: "SignKey (be_ecc E) g = (Ret (sg_signKeyInfo g1), g1)" "signer_ok (be_ecc E) g1" "sg_ID g1 = sg_ID g"
    using SignKey_ok [OF g] by blast
  then have k: "ecc_ok (be_ecc E)" "key_usable (be_ecc E) (sg_ID g) (sg_signKeyInfo g1)"
    unfolding signer_ok_def by auto
  obtain salt where salt: "fresh_salt g1 = Ret salt" "length salt = SizeSalt"
    using g1(2) by (auto simp: signer_ok_def fresh_salt_def)
  obtain b' key' where s: "Block_Sign E (Ret salt) (sg_signKeyInfo g1) b = (Ret (), b', key')"
    "strip_block b' = strip_block b" "length (blk_Salt b') = SizeSalt"
    "Block_Verify E (blk_Hash b') (sg_ID g) b' = Ret ()" "key_usable (be_ecc E) (sg_ID g) key'"
    using Block_Sign_ok [OF E(1) k(1) E(2) k(2) salt(2)] by blast
  have "signer_ok (be_ecc E) (g1\<lparr>sg_signKeyInfo := key'\<rparr>)" using signer_ok_key g1 s(5) by simp
  then show ?thesis using g1 salt s by (simp add: SignBlock_def)
qed

subsection \<open>Writing a content\<close>

definition block_key :: "bytes \<Rightarrow> PttID \<Rightarrow> PttID \<Rightarrow> nat \<Rightarrow> nat \<Rightarrow> bytes" where
  "block_key D objID theID i j = D @ objID @ theID @ PutUint32 (of_nat i) @ [of_nat j]"

lemma block_key_inj:
  assumes "i < 2 ^ 32" "i' < 2 ^ 32" "j < 256" "j' < 256"
  shows "block_key D objID theID i j = block_key D objID theID i' j' \<longleftrightarrow> i = i' \<and> j = j'"
proof -
  have "(of_nat i :: u32) = of_nat i' \<longleftrightarrow> i = i'" using assms(1,2) by (simp add: word_of_nat_eq_iff take_bit_eq_mod)
  moreover have "(of_nat j :: byte) = of_nat j' \<longleftrightarrow> j = j'" using assms(3,4) by (simp add: word_of_nat_eq_iff take_bit_eq_mod)
  ultimately show ?thesis by (auto simp: block_key_def codec_simps)
qed

text \<open>
  A block that belongs in place \<open>(i, j)\<close> of a content, with the expected hash, signed by its creator;
  and what the database holds for a whole chunk.
\<close>

definition genuine ::
  "block_env \<Rightarrow> PttID \<Rightarrow> PttID \<Rightarrow> PttID \<Rightarrow> nat \<Rightarrow> nat \<Rightarrow> bytes \<Rightarrow> bytes \<Rightarrow> Block \<Rightarrow> bool" where
  "genuine E creator objID theID i j hash buf b \<longleftrightarrow>
     blk_V b = CurrentVersion \<and> blk_ObjID b = Some objID \<and> blk_ID b = Some theID \<and>
     blk_BlockID b = of_nat i \<and> blk_SubBlockID b = of_nat j \<and> blk_Buf b = Some buf \<and> buf \<noteq> [] \<and>
     blk_Hash b = hash \<and> length (blk_Salt b) = SizeSalt \<and> Block_Verify E hash creator b = Ret ()"

definition stored :: "block_env \<Rightarrow> LDBDatabase \<Rightarrow> bytes \<Rightarrow> Block \<Rightarrow> bool" where
  "stored E db key b \<longleftrightarrow> (\<exists>m. be_enc E b = Inr m \<and> ldb_view db key = Some m)"

definition chunk_at ::
  "block_env \<Rightarrow> PttID \<Rightarrow> bytes \<Rightarrow> PttID \<Rightarrow> PttID \<Rightarrow> LDBDatabase \<Rightarrow> nat \<Rightarrow> bytes list \<Rightarrow> bytes list \<Rightarrow> bool" where
  "chunk_at E creator D objID theID db i chunk hashs \<longleftrightarrow>
     (\<exists>s1 s2 h1 h2 b1 b2. ScrambleBuf E chunk = Ret [s1, s2] \<and> hashs = [h1, h2] \<and>
        genuine E creator objID theID i 0 h1 s1 b1 \<and> stored E db (block_key D objID theID i 0) b1 \<and>
        genuine E creator objID theID i 1 h2 s2 b2 \<and> stored E db (block_key D objID theID i 1) b2)"

lemma genuine_read_back:
  assumes "block_codec_ok E" "genuine E creator objID theID i j hash buf b" "be_enc E b = Inr m" "blank_block b0"
  shows "be_dec E m b0 = Some b"
  using assms by (intro block_read_back [OF assms(1,3,4)]) (auto simp: genuine_def)

lemma chunk_at_frame:
  assumes "chunk_at E creator D objID theID db i c hs"
    and "\<And>j. j < 2 \<Longrightarrow> ldb_view db' (block_key D objID theID i j) = ldb_view db (block_key D objID theID i j)"
  shows "chunk_at E creator D objID theID db' i c hs"
proof -
  have "ldb_view db' (block_key D objID theID i 0) = ldb_view db (block_key D objID theID i 0)"
    "ldb_view db' (block_key D objID theID i 1) = ldb_view db (block_key D objID theID i 1)"
    using assms(2) by simp_all
  then show ?thesis using assms(1) by (simp add: chunk_at_def stored_def)
qed

definition quiet_db :: "LDBDatabase \<Rightarrow> bool" where
  "quiet_db db \<longleftrightarrow> no_fault db \<and> ldb_ok db"

lemma Block_Save_ok:
  assumes "block_codec_ok E" "quiet_db db" "genuine E creator objID theID i j hash buf b"
  shows "\<exists>db'. Block_Save E (Some D) b db = (Ret (), db') \<and> quiet_db db' \<and> stored E db' (block_key D objID theID i j) b \<and>
    (\<forall>k. k \<noteq> block_key D objID theID i j \<longrightarrow> ldb_view db' k = ldb_view db k)"
proof -
  obtain m where m: "be_enc E b = Inr m" using block_enc_total [OF assms(1)] by blast
  have "Block_MarshalKey D b = Ret (block_key D objID theID i j)"
    using assms(3) by (simp add: Block_MarshalKey_def genuine_def block_key_def)
  with m assms(2) show ?thesis
    by (simp add: Block_Save_def Ldb_Put_def quiet_db_def no_fault_def ldb_ok_def stored_def ldb_view_def)
qed

lemma save_block_ok:
  assumes E: "block_codec_ok E" "signing_total (be_ecc E)" and g: "signer_ok (be_ecc E) g" and db: "quiet_db db" and buf: "buf \<noteq> []"
  shows "\<exists>h b g' db'. save_block E D (Block_SetDB (Some objID) (Some theID) (NewBlock (of_nat i) (of_nat j) buf)) (g, db) = (Ret h, g', db') \<and>
    signer_ok (be_ecc E) g' \<and> sg_ID g' = sg_ID g \<and> quiet_db db' \<and>
    genuine E (sg_ID g) objID theID i j h buf b \<and> stored E db' (block_key D objID theID i j) b \<and>
    (\<forall>k. k \<noteq> block_key D objID theID i j \<longrightarrow> ldb_view db' k = ldb_view db k)"
proof -
  let ?b = "Block_SetDB (Some objID) (Some theID) (NewBlock (of_nat i) (of_nat j) buf)"
  obtain b g' where s: "SignBlock E ?b g = (Ret (), b, g')" "strip_block b = strip_block ?b"
    "length (blk_Salt b) = SizeSalt" "Block_Verify E (blk_Hash b) (sg_ID g) b = Ret ()"
    "signer_ok (be_ecc E) g'" "sg_ID g' = sg_ID g"
    using SignBlock_ok [OF E g] by blast
  have "blk_V b = CurrentVersion" "blk_ObjID b = Some objID" "blk_ID b = Some theID" "blk_BlockID b = of_nat i"
    "blk_SubBlockID b = of_nat j" "blk_Buf b = Some buf"
    using s(2) by (auto simp: strip_block_def Block_SetDB_def NewBlock_def NewEmptyBlock_def
        dest: arg_cong [where f = blk_V] arg_cong [where f = blk_ObjID] arg_cong [where f = blk_ID]
          arg_cong [where f = blk_BlockID] arg_cong [where f = blk_SubBlockID] arg_cong [where f = blk_Buf])
  then have gen: "genuine E (sg_ID g) objID theID i j (blk_Hash b) buf b" using s(3,4) buf by (simp add: genuine_def)
  obtain db' where d: "Block_Save E (Some D) b db = (Ret (), db')" "quiet_db db'"
    "stored E db' (block_key D objID theID i j) b"
    "\<forall>k. k \<noteq> block_key D objID theID i j \<longrightarrow> ldb_view db' k = ldb_view db k"
    using Block_Save_ok [OF E(1) db gen] by blast
  have "save_block E D ?b (g, db) = (Ret (blk_Hash b), g', db')"
    using s(1) d(1) by (simp add: save_block_def)
  with d(2-4) s(5,6) gen show ?thesis by blast
qed

lemma save_chunk_ok:
  assumes E: "block_env_ok E" "signing_total (be_ecc E)" and g: "signer_ok (be_ecc E) g" and db: "quiet_db db" and i: "i < 2 ^ 32"
  shows "\<exists>hs g' db'. save_chunk E D (Some objID) (Some theID) i chunk (g, db) = (Ret hs, g', db') \<and>
    signer_ok (be_ecc E) g' \<and> sg_ID g' = sg_ID g \<and> quiet_db db' \<and> chunk_at E (sg_ID g) D objID theID db' i chunk hs \<and>
    (\<forall>k. (\<forall>j < 2. k \<noteq> block_key D objID theID i j) \<longrightarrow> ldb_view db' k = ldb_view db k)"
proof -
  note c = block_env_okD(2) [OF E(1)]
  obtain s1 s2 where s: "ScrambleBuf E chunk = Ret [s1, s2]" "s1 \<noteq> []" "s2 \<noteq> []"
    using scramble_roundtrip [OF E(1)] by blast
  obtain h1 b1 g1 db1 where 1: "save_block E D (Block_SetDB (Some objID) (Some theID) (NewBlock (of_nat i) (of_nat 0) s1)) (g, db) = (Ret h1, g1, db1)"
    "signer_ok (be_ecc E) g1" "sg_ID g1 = sg_ID g" "quiet_db db1" "genuine E (sg_ID g) objID theID i 0 h1 s1 b1"
    "stored E db1 (block_key D objID theID i 0) b1" "\<forall>k. k \<noteq> block_key D objID theID i 0 \<longrightarrow> ldb_view db1 k = ldb_view db k"
    using save_block_ok [OF c E(2) g db s(2)] by blast
  obtain h2 b2 g2 db2 where 2: "save_block E D (Block_SetDB (Some objID) (Some theID) (NewBlock (of_nat i) (of_nat 1) s2)) (g1, db1) = (Ret h2, g2, db2)"
    "signer_ok (be_ecc E) g2" "sg_ID g2 = sg_ID g1" "quiet_db db2" "genuine E (sg_ID g1) objID theID i 1 h2 s2 b2"
    "stored E db2 (block_key D objID theID i 1) b2" "\<forall>k. k \<noteq> block_key D objID theID i 1 \<longrightarrow> ldb_view db2 k = ldb_view db1 k"
    using save_block_ok [OF c E(2) 1(2,4) s(3)] by blast
  have "block_key D objID theID i 0 \<noteq> block_key D objID theID i 1" using i by (simp add: block_key_inj)
  then have "stored E db2 (block_key D objID theID i 0) b1" using 1(6) 2(7) by (simp add: stored_def)
  then have "chunk_at E (sg_ID g) D objID theID db2 i chunk [h1, h2]"
    using s 1(3,5) 2(5,6) unfolding chunk_at_def by auto
  moreover have "\<forall>k. (\<forall>j < 2. k \<noteq> block_key D objID theID i j) \<longrightarrow> ldb_view db2 k = ldb_view db k"
    using 1(7) 2(7) by auto
  moreover have "save_chunk E D (Some objID) (Some theID) i chunk (g, db) = (Ret [h1, h2], g2, db2)"
    using s(1) 1(1) 2(1) by (simp add: save_chunk_def st_bind_run)
  ultimately show ?thesis using 1(3) 2(2-4) by auto
qed

text \<open>
  Both ways of cutting a content come down to one loop over a list of chunks.
\<close>

fun split_chunks ::
  "block_env \<Rightarrow> bytes \<Rightarrow> PttID option \<Rightarrow> PttID option \<Rightarrow> nat \<Rightarrow> bytes list list \<Rightarrow> split_st \<Rightarrow> bytes list list res \<times> split_st" where
  "split_chunks E D objID theID i [] = Pair (Ret [])"
| "split_chunks E D objID theID i (c # cs) =
     st_bind (save_chunk E D objID theID i c)
       (\<lambda>hs. st_bind (split_chunks E D objID theID (Suc i) cs) (\<lambda>hss. Pair (Ret (hs # hss))))"

function content_chunks :: "int \<Rightarrow> bytes list \<Rightarrow> bytes list list" where
  "content_chunks n buf =
     (if buf = [] then []
      else take (nat (min n (int (length buf)))) buf #
           content_chunks NLineInBlock (drop (nat (min n (int (length buf)))) buf))"
  by pat_completeness auto
termination
  by (relation "measure (\<lambda>(n, buf). 2 * length buf + (if n \<le> 0 then 1 else 0))")
    (auto simp: NLineInBlock_def split: if_splits)

function media_chunks :: "bytes \<Rightarrow> bytes list list" where
  "media_chunks buf = (if buf = [] then [] else media_chunk buf # media_chunks (drop (media_chunk_len buf) buf))"
  by pat_completeness auto
termination
proof (relation "measure length", goal_cases)
  case (2 buf)
  then have "0 < media_chunk_len buf" by (simp add: media_chunk_len_def NByteInBlock_def)
  with 2 show ?case by simp
qed simp

declare content_chunks.simps [simp del] media_chunks.simps [simp del]

lemma split_content_chunks:
  "0 \<le> n \<Longrightarrow> split_content E D objID theID i n buf = split_chunks E D objID theID i (content_chunks n buf)"
proof (induction n buf arbitrary: i rule: content_chunks.induct)
  case (1 n buf)
  show ?case
  proof (cases "buf = []")
    case True
    then show ?thesis by (simp add: split_content.simps content_chunks.simps)
  next
    case False
    let ?n = "nat (min n (int (length buf)))"
    have n: "\<not> min n (int (length buf)) < 0" using "1.prems" by simp
    have "split_content E D objID theID (Suc i) NLineInBlock (drop ?n buf) =
        split_chunks E D objID theID (Suc i) (content_chunks NLineInBlock (drop ?n buf))"
      using "1.IH" [OF False] by (simp add: NLineInBlock_def)
    then show ?thesis
      using False n by (subst split_content.simps, subst content_chunks.simps) (simp add: Let_def)
  qed
qed

lemma split_media_chunks: "split_media E D objID theID i buf = split_chunks E D objID theID i (media_chunks buf)"
proof (induction buf arbitrary: i rule: media_chunks.induct)
  case (1 buf)
  then show ?case by (subst split_media.simps, subst media_chunks.simps) simp
qed

lemma concat_content_chunks: "concat (content_chunks n buf) = buf"
proof (induction n buf rule: content_chunks.induct)
  case (1 n buf)
  then show ?case by (subst content_chunks.simps) simp
qed

lemma concat_media_chunk: "concat (media_chunk buf) = take (media_chunk_len buf) buf"
proof -
  let ?n = "media_chunk_len buf" and ?h = "(media_chunk_len buf + 1) div 2"
  have "?h + (?n - ?h) = ?n" by simp
  then have "take ?h buf @ take (?n - ?h) (drop ?h buf) = take ?n buf" by (metis take_add)
  then show ?thesis by (simp add: media_chunk_def Let_def slice_def)
qed

lemma concat_media_chunks: "concat (concat (media_chunks buf)) = buf"
proof (induction buf rule: media_chunks.induct)
  case (1 buf)
  then show ?case by (subst media_chunks.simps) (simp add: concat_media_chunk)
qed

lemma length_content_chunks: "length (content_chunks n buf) \<le> length buf + (if n \<le> 0 then 1 else 0)"
proof (induction n buf rule: content_chunks.induct)
  case (1 n buf)
  show ?case
  proof (cases "buf = []")
    case False
    have l: "0 < length buf" using False by simp
    have "length (content_chunks NLineInBlock (drop (nat (min n (int (length buf)))) buf)) \<le>
        length buf - nat (min n (int (length buf)))"
      using 1 [OF False] by (simp add: NLineInBlock_def)
    moreover have "Suc (length buf - nat (min n (int (length buf)))) \<le> length buf + (if n \<le> 0 then 1 else 0)"
      using l by (cases "n \<le> 0") (auto simp: min_def Suc_le_eq)
    ultimately show ?thesis using False by (subst content_chunks.simps) simp
  qed (simp add: content_chunks.simps)
qed

lemma length_media_chunks: "length (media_chunks buf) \<le> length buf"
proof (induction buf rule: media_chunks.induct)
  case (1 buf)
  show ?case
  proof (cases "buf = []")
    case False
    then have "0 < media_chunk_len buf" by (simp add: media_chunk_len_def NByteInBlock_def)
    then have "Suc (length buf - media_chunk_len buf) \<le> length buf" using False by (cases buf) auto
    with 1 [OF False] False show ?thesis by (subst media_chunks.simps) simp
  qed (simp add: media_chunks.simps)
qed

lemma split_chunks_ok:
  assumes E: "block_env_ok E" "signing_total (be_ecc E)"
  shows "signer_ok (be_ecc E) g \<Longrightarrow> quiet_db db \<Longrightarrow> i + length cs \<le> 2 ^ 32 \<Longrightarrow>
    \<exists>hss g' db'. split_chunks E D (Some objID) (Some theID) i cs (g, db) = (Ret hss, g', db') \<and>
      signer_ok (be_ecc E) g' \<and> sg_ID g' = sg_ID g \<and> quiet_db db' \<and> length hss = length cs \<and>
      (\<forall>n < length cs. chunk_at E (sg_ID g) D objID theID db' (i + n) (cs ! n) (hss ! n)) \<and>
      (\<forall>k. (\<forall>n j. i \<le> n \<longrightarrow> n < i + length cs \<longrightarrow> j < 2 \<longrightarrow> k \<noteq> block_key D objID theID n j) \<longrightarrow>
         ldb_view db' k = ldb_view db k)"
proof (induction cs arbitrary: i g db)
  case Nil
  then show ?case by auto
next
  case (Cons c cs)
  have i: "i < 2 ^ 32" using Cons.prems(3) by simp
  obtain hs g1 db1 where 1: "save_chunk E D (Some objID) (Some theID) i c (g, db) = (Ret hs, g1, db1)"
    "signer_ok (be_ecc E) g1" "sg_ID g1 = sg_ID g" "quiet_db db1" "chunk_at E (sg_ID g) D objID theID db1 i c hs"
    "\<forall>k. (\<forall>j < 2. k \<noteq> block_key D objID theID i j) \<longrightarrow> ldb_view db1 k = ldb_view db k"
    using save_chunk_ok [OF E Cons.prems(1,2) i] by blast
  have "Suc i + length cs \<le> 2 ^ 32" using Cons.prems(3) by simp
  from Cons.IH [OF 1(2,4) this] obtain hss g2 db2 where
    2: "split_chunks E D (Some objID) (Some theID) (Suc i) cs (g1, db1) = (Ret hss, g2, db2)"
      "signer_ok (be_ecc E) g2" "sg_ID g2 = sg_ID g1" "quiet_db db2" "length hss = length cs"
      "\<forall>n < length cs. chunk_at E (sg_ID g1) D objID theID db2 (Suc i + n) (cs ! n) (hss ! n)"
      "\<forall>k. (\<forall>n j. Suc i \<le> n \<longrightarrow> n < Suc i + length cs \<longrightarrow> j < 2 \<longrightarrow> k \<noteq> block_key D objID theID n j) \<longrightarrow>
         ldb_view db2 k = ldb_view db1 k" by blast
  have "ldb_view db2 (block_key D objID theID i j) = ldb_view db1 (block_key D objID theID i j)" if "j < 2" for j
  proof -
    have "block_key D objID theID i j \<noteq> block_key D objID theID n j'"
      if "Suc i \<le> n" "n < Suc i + length cs" "j' < 2" for n j'
      using that \<open>j < 2\<close> Cons.prems(3) by (subst block_key_inj) auto
    then show ?thesis using 2(7) by blast
  qed
  then have c: "chunk_at E (sg_ID g) D objID theID db2 i c hs" using chunk_at_frame [OF 1(5)] by blast
  have "chunk_at E (sg_ID g) D objID theID db2 (i + n) ((c # cs) ! n) ((hs # hss) ! n)" if "n < length (c # cs)" for n
    using that c 2(6) 1(3) by (cases n) auto
  moreover have "ldb_view db2 k = ldb_view db k"
    if k: "\<forall>n j. i \<le> n \<longrightarrow> n < i + length (c # cs) \<longrightarrow> j < 2 \<longrightarrow> k \<noteq> block_key D objID theID n j" for k
  proof -
    have "ldb_view db2 k = ldb_view db1 k" using 2(7) k by simp
    moreover have "ldb_view db1 k = ldb_view db k" using 1(6) k by simp
    ultimately show ?thesis by simp
  qed
  moreover have "split_chunks E D (Some objID) (Some theID) i (c # cs) (g, db) = (Ret (hs # hss), g2, db2)"
    using 1(1) 2(1) by (simp add: st_bind_run)
  ultimately show ?case using 1(3) 2(2-5) by auto
qed

end
