(* ===== verification/Block_Sync.thy ===== *)
theory Block_Sync
  imports Blocks Oplog_Stores
begin

text \<open>
  Reading a content back from its blocks, and passing the blocks to another node: what \<^verbatim>\<open>SplitContentBlocks\<close>
  and \<^verbatim>\<open>SplitMediaBlocks\<close> write is what \<^verbatim>\<open>GetContentBlockList\<close> and \<^verbatim>\<open>Media.GetBuf\<close> read, on the node
  that wrote it and on every node that has received the blocks; and a node marks a block as arrived only if it
  holds one that its creator signed, whatever its peers send.

  The flags of a block info and the buffers of a reader are tables of \<^verbatim>\<open>NBlock\<close> rows and
  \<^verbatim>\<open>NSubBlock\<close> columns: \<open>grid n G\<close> is the table with the entries \<open>G i j\<close>.
\<close>

subsection \<open>Tables\<close>

definition grid :: "nat \<Rightarrow> (nat \<Rightarrow> nat \<Rightarrow> 'a) \<Rightarrow> 'a list list" where
  "grid n G = map (\<lambda>i. [G i 0, G i 1]) [0..<n]"

lemma length_grid [simp]: "length (grid n G) = n"
  by (simp add: grid_def)

lemma grid_nth [simp]: "i < n \<Longrightarrow> grid n G ! i = [G i 0, G i 1]"
  by (simp add: grid_def)

lemma less_two: "j < 2 \<longleftrightarrow> j = 0 \<or> j = (1 :: nat)"
  by auto

lemma index2_grid [simp]: "i < n \<Longrightarrow> j < 2 \<Longrightarrow> index2 (grid n G) i j = Ret (G i j)"
  by (auto simp: index2_def less_two)

lemma update2_grid:
  assumes "i < n" "j < 2"
  shows "update2 (grid n G) i j v = Ret (grid n (G(i := (G i)(j := v))))"
proof -
  have "(grid n G)[i := (grid n G ! i)[j := v]] = grid n (G(i := (G i)(j := v)))"
    using assms by (intro nth_equalityI) (auto simp: nth_list_update less_two)
  then show ?thesis using assms by (auto simp: update2_def less_two)
qed

lemma grid_replicate: "replicate n (replicate NSubBlock v) = grid n (\<lambda>_ _. v)"
  by (intro nth_equalityI) (simp_all add: NSubBlock_def numeral_2_eq_2)

lemma grid_cong: "(\<And>i j. i < n \<Longrightarrow> j < 2 \<Longrightarrow> G i j = G' i j) \<Longrightarrow> grid n G = grid n G'"
  by (simp add: grid_def)

lemma grid_Suc: "grid (Suc n) G = [G 0 0, G 0 1] # grid n (\<lambda>i. G (Suc i))"
  by (simp add: grid_def map_upt_Suc del: upt_Suc)

lemma good_rows_grid: "(\<And>i j. i < n \<Longrightarrow> j < 2 \<Longrightarrow> G i j) \<Longrightarrow> good_rows n (grid n G) = Ret True"
proof (induction n arbitrary: G)
  case (Suc n)
  have "G 0 0" "G 0 1" using Suc.prems by simp_all
  moreover have "good_rows n (grid n (\<lambda>i. G (Suc i))) = Ret True" using Suc.prems by (intro Suc.IH) simp
  ultimately show ?case by (simp add: grid_Suc NSubBlock_def numeral_2_eq_2)
qed simp

lemma set_rows_grid: "set_rows n (grid n G) = Ret (grid n (\<lambda>_ _. True))"
proof (induction n arbitrary: G)
  case (Suc n)
  then show ?case by (simp add: grid_Suc NSubBlock_def numeral_2_eq_2)
qed (simp add: grid_def)

lemma no_missing_grid: "list_ex (list_ex (\<lambda>x. x = None)) (grid n G) \<longleftrightarrow> (\<exists>i < n. \<exists>j < 2. G i j = None)"
proof -
  have "list_ex (list_ex (\<lambda>x. x = None)) (grid n G) \<longleftrightarrow> (\<exists>i < n. G i 0 = None \<or> G i 1 = None)"
    by (simp add: grid_def list_ex_iff Bex_def eq_commute [of None])
  then show ?thesis unfolding less_two by blast
qed

subsection \<open>Reading\<close>

definition block_prefix :: "bytes \<Rightarrow> PttID \<Rightarrow> PttID \<Rightarrow> bytes" where
  "block_prefix D objID theID = D @ objID @ theID"

lemma block_key_prefix [simp]: "HasPrefix (block_key D objID theID i j) (block_prefix D objID theID)"
  by (simp add: HasPrefix_iff block_key_def block_prefix_def)

text \<open>
  A block info that points at a content of \<open>n\<close> chunks; the database holds the chunks \<open>cs\<close>, and nothing
  else under the prefix.
\<close>

definition info_at :: "bytes \<Rightarrow> PttID \<Rightarrow> PttID \<Rightarrow> nat \<Rightarrow> BlockInfo \<Rightarrow> bool" where
  "info_at D objID theID n b \<longleftrightarrow>
     bi_db b = Some D \<and> bi_objID b = Some objID \<and> bi_ID b = Some theID \<and> bi_NBlock b = int n"

definition only_blocks :: "bytes \<Rightarrow> PttID \<Rightarrow> PttID \<Rightarrow> nat \<Rightarrow> LDBDatabase \<Rightarrow> bool" where
  "only_blocks D objID theID n db \<longleftrightarrow>
     (\<forall>k. ldb_view db k \<noteq> None \<longrightarrow> HasPrefix k (block_prefix D objID theID) \<longrightarrow>
        (\<exists>i < n. \<exists>j < 2. k = block_key D objID theID i j))"

definition content_at ::
  "block_env \<Rightarrow> PttID \<Rightarrow> bytes \<Rightarrow> PttID \<Rightarrow> PttID \<Rightarrow> LDBDatabase \<Rightarrow> bytes list list \<Rightarrow> bytes list list \<Rightarrow> bool" where
  "content_at E creator D objID theID db cs hss \<longleftrightarrow>
     length hss = length cs \<and> (\<forall>i < length cs. chunk_at E creator D objID theID db i (cs ! i) (hss ! i)) \<and>
     only_blocks D objID theID (length cs) db"

lemma block_iter:
  assumes "block_prefix D objID theID \<noteq> []" "info_at D objID theID n b"
  shows "\<exists>it. GetBlockIterWithBlockInfo b db = Ret it \<and>
    visited ListOrderNext it = filter (\<lambda>kv. HasPrefix (fst kv) (block_prefix D objID theID)) (ldb_kvs db)"
proof -
  let ?P = "block_prefix D objID theID"
  let ?r = "Some \<lparr>Range_Start = Some ?P, Range_Limit = prefix_next ?P\<rparr>"
  have "GetBlockIterWithBlockInfo b db = NewIteratorWithPrefix [] ?P ListOrderNext db"
    using assms(2) by (simp add: GetBlockIterWithBlockInfo_def Block_GetIter_def info_at_def SetBlockDB_def Block_SetDB_def
        Block_Prefix_def block_prefix_def)
  then have "GetBlockIterWithBlockInfo b db = NewIteratorWithRange ?r ListOrderNext db"
    using assms(1) by (simp add: NewIteratorWithPrefix_def BytesPrefix_def prefix_limit_next)
  moreover have "in_range ?r k \<longleftrightarrow> HasPrefix k ?P" for k
    using range_next_iff [of ?P ?P k] by (auto simp: HasPrefix_iff)
  ultimately show ?thesis using visited_range_next [of ?r db] by simp
qed

text \<open>The block stored in place \<open>(i, j)\<close>, and what it holds.\<close>

definition shard :: "block_env \<Rightarrow> bytes list list \<Rightarrow> nat \<Rightarrow> nat \<Rightarrow> bytes" where
  "shard E cs i j = (case ScrambleBuf E (cs ! i) of Ret ss \<Rightarrow> ss ! j | _ \<Rightarrow> [])"

lemma content_block:
  assumes "content_at E creator D objID theID db cs hss" "i < length cs" "j < 2"
  shows "\<exists>b. genuine E creator objID theID i j (hss ! i ! j) (shard E cs i j) b \<and> stored E db (block_key D objID theID i j) b"
proof -
  have "chunk_at E creator D objID theID db i (cs ! i) (hss ! i)" using assms(1,2) by (simp add: content_at_def)
  then show ?thesis using assms(3) by (auto simp: chunk_at_def shard_def less_two)
qed

lemma blank_empty [simp]: "blank_block NewEmptyBlock" "blank_block (SetBlockDB b NewEmptyBlock)"
  by (simp_all add: blank_block_def strip_block_def NewEmptyBlock_def SetBlockDB_def Block_SetDB_def)

text \<open>Every entry under the prefix is a genuine block, and every block has an entry.\<close>

definition entry_at :: "block_env \<Rightarrow> PttID \<Rightarrow> bytes \<Rightarrow> PttID \<Rightarrow> PttID \<Rightarrow> bytes list list \<Rightarrow> bytes list list \<Rightarrow>
    bytes \<times> bytes \<Rightarrow> nat \<Rightarrow> nat \<Rightarrow> Block \<Rightarrow> bool" where
  "entry_at E creator D objID theID cs hss kv i j b \<longleftrightarrow>
     i < length cs \<and> j < 2 \<and> fst kv = block_key D objID theID i j \<and>
     genuine E creator objID theID i j (hss ! i ! j) (shard E cs i j) b \<and>
     (\<forall>b0. blank_block b0 \<longrightarrow> be_dec E (snd kv) b0 = Some b)"

lemma content_entries:
  assumes E: "block_codec_ok E" and c: "content_at E creator D objID theID db cs hss" and ok: "ldb_ok db"
    and kvs: "kvs = filter (\<lambda>kv. HasPrefix (fst kv) (block_prefix D objID theID)) (ldb_kvs db)"
  shows "\<forall>kv \<in> set kvs. \<exists>i j b. entry_at E creator D objID theID cs hss kv i j b"
    and "\<forall>i < length cs. \<forall>j < 2. \<exists>kv \<in> set kvs. \<exists>b. entry_at E creator D objID theID cs hss kv i j b"
proof -
  have view: "ldb_view db k = Some v \<longleftrightarrow> (k, v) \<in> set (ldb_kvs db)" for k v
    using ok kv_get_iff by (simp add: ldb_view_def ldb_ok_def)
  have at: "\<exists>b. entry_at E creator D objID theID cs hss (block_key D objID theID i j, v) i j b"
    if ij: "i < length cs" "j < 2" "ldb_view db (block_key D objID theID i j) = Some v" for i j v
  proof -
    obtain b where b: "genuine E creator objID theID i j (hss ! i ! j) (shard E cs i j) b"
      "stored E db (block_key D objID theID i j) b" using content_block [OF c ij(1,2)] by blast
    then have "be_enc E b = Inr v" using ij(3) by (simp add: stored_def)
    then have "\<forall>b0. blank_block b0 \<longrightarrow> be_dec E v b0 = Some b" using genuine_read_back [OF E b(1)] by blast
    with b(1) ij(1,2) have "entry_at E creator D objID theID cs hss (block_key D objID theID i j, v) i j b"
      by (simp add: entry_at_def)
    then show ?thesis by (rule exI)
  qed
  show "\<forall>kv \<in> set kvs. \<exists>i j b. entry_at E creator D objID theID cs hss kv i j b"
  proof
    fix kv assume kv: "kv \<in> set kvs"
    obtain k v where k: "kv = (k, v)" by fastforce
    have v: "ldb_view db k = Some v" "HasPrefix k (block_prefix D objID theID)"
      using kv unfolding view k kvs by simp_all
    have "only_blocks D objID theID (length cs) db" using c by (simp add: content_at_def)
    then obtain i j where ij: "i < length cs" "j < 2" "k = block_key D objID theID i j"
      using v unfolding only_blocks_def by blast
    show "\<exists>i j b. entry_at E creator D objID theID cs hss kv i j b"
      using at [OF ij(1,2)] v(1) unfolding k ij(3) by blast
  qed
  show "\<forall>i < length cs. \<forall>j < 2. \<exists>kv \<in> set kvs. \<exists>b. entry_at E creator D objID theID cs hss kv i j b"
  proof (intro allI impI)
    fix i j :: nat assume ij: "i < length cs" "j < 2"
    obtain b where "stored E db (block_key D objID theID i j) b" using content_block [OF c ij] by blast
    then obtain v where v: "ldb_view db (block_key D objID theID i j) = Some v" by (auto simp: stored_def)
    then have "(block_key D objID theID i j, v) \<in> set kvs" unfolding view kvs by simp
    with at [OF ij v] show "\<exists>kv \<in> set kvs. \<exists>b. entry_at E creator D objID theID cs hss kv i j b" by blast
  qed
qed

lemma entry_bounds:
  assumes "entry_at E creator D objID theID cs hss kv i j b" "length cs < 2 ^ 32"
  shows "unat (blk_BlockID b) = i" "unat (blk_SubBlockID b) = j" "\<not> of_nat (length cs) \<le> blk_BlockID b"
    "blk_Buf b = Some (shard E cs i j)"
proof -
  have b: "blk_BlockID b = of_nat i" "blk_SubBlockID b = of_nat j" "blk_Buf b = Some (shard E cs i j)" "i < length cs" "j < 2"
    using assms(1) by (simp_all add: entry_at_def genuine_def)
  show "unat (blk_BlockID b) = i" using b assms(2) by (simp add: unat_of_nat)
  show "unat (blk_SubBlockID b) = j" using b by (simp add: unat_of_nat)
  have "(of_nat i :: u32) < of_nat (length cs)" using b assms(2) by (simp add: word_less_nat_alt unat_of_nat)
  then show "\<not> of_nat (length cs) \<le> blk_BlockID b" using b(1) by simp
  show "blk_Buf b = Some (shard E cs i j)" by (rule b(3))
qed

definition present :: "block_env \<Rightarrow> PttID \<Rightarrow> bytes \<Rightarrow> PttID \<Rightarrow> PttID \<Rightarrow> bytes list list \<Rightarrow> bytes list list \<Rightarrow>
    kv_list \<Rightarrow> nat \<Rightarrow> nat \<Rightarrow> bool" where
  "present E creator D objID theID cs hss kvs i j \<longleftrightarrow> (\<exists>kv \<in> set kvs. \<exists>b. entry_at E creator D objID theID cs hss kv i j b)"

lemma entry_unique:
  assumes "entry_at E creator D objID theID cs hss kv i j b" "entry_at E creator D objID theID cs hss kv i' j' b'"
    "length cs < 2 ^ 32"
  shows "i' = i \<and> j' = j"
proof -
  have "i' < length cs" "j' < 2" "i < length cs" "j < 2" "block_key D objID theID i' j' = block_key D objID theID i j"
    using assms(1,2) by (simp_all add: entry_at_def)
  then show ?thesis using assms(3) block_key_inj [of i' i j' j D objID theID] by simp
qed

lemma present_Cons:
  assumes "entry_at E creator D objID theID cs hss kv i j b" "length cs < 2 ^ 32"
  shows "present E creator D objID theID cs hss (kv # kvs) i' j' \<longleftrightarrow>
    i' = i \<and> j' = j \<or> present E creator D objID theID cs hss kvs i' j'"
proof -
  have "(\<exists>b. entry_at E creator D objID theID cs hss kv i' j' b) \<longleftrightarrow> i' = i \<and> j' = j"
    using assms(1) entry_unique [OF assms(1) _ assms(2)] by blast
  then show ?thesis by (simp add: present_def)
qed

lemma fill_bufs_ok:
  assumes n: "length cs < 2 ^ 32" and "\<forall>kv \<in> set kvs. \<exists>i j b. entry_at E creator D objID theID cs hss kv i j b"
  shows "fill_bufs E bi (of_nat (length cs)) kvs (grid (length cs) G) =
    Ret (grid (length cs) (\<lambda>i j. if present E creator D objID theID cs hss kvs i j then Some (shard E cs i j) else G i j))"
  using assms(2)
proof (induction kvs arbitrary: G)
  case Nil
  then show ?case by (simp add: present_def)
next
  case (Cons kv kvs)
  obtain i j b where e: "entry_at E creator D objID theID cs hss kv i j b" using Cons.prems by auto
  note b = entry_bounds [OF e n]
  have ij: "i < length cs" "j < 2" "be_dec E (snd kv) (SetBlockDB bi NewEmptyBlock) = Some b"
    using e by (simp_all add: entry_at_def)
  let ?G = "G(i := (G i)(j := Some (shard E cs i j)))"
  have "fill_bufs E bi (of_nat (length cs)) (kv # kvs) (grid (length cs) G) =
      fill_bufs E bi (of_nat (length cs)) kvs (grid (length cs) ?G)"
    using ij b by (simp add: update2_grid)
  also have "\<dots> = Ret (grid (length cs) (\<lambda>i' j'. if present E creator D objID theID cs hss kvs i' j' then Some (shard E cs i' j') else ?G i' j'))"
    using Cons.prems by (intro Cons.IH) simp
  also have "\<dots> = Ret (grid (length cs) (\<lambda>i' j'. if present E creator D objID theID cs hss (kv # kvs) i' j' then Some (shard E cs i' j') else G i' j'))"
    unfolding present_Cons [OF e n] by (intro arg_cong [where f = Ret] grid_cong) simp
  finally show ?case .
qed

lemma unscramble_shard:
  assumes "block_env_ok E" "i < length cs"
  shows "UnscrambleBuf E [shard E cs i 0, shard E cs i 1] = Ret (cs ! i)"
  using scramble_roundtrip [OF assms(1), of "cs ! i"] by (auto simp: shard_def)

lemma unscramble_grid:
  assumes "\<And>i. i < n \<Longrightarrow> UnscrambleBuf E [F i 0, F i 1] = Ret (c i)"
  shows "unscramble_all E (grid n (\<lambda>i j. Some (F i j))) = Ret (map c [0..<n])"
  using assms
proof (induction n arbitrary: F c)
  case (Suc n)
  have "unscramble_all E (grid n (\<lambda>i j. Some (F (Suc i) j))) = Ret (map (\<lambda>i. c (Suc i)) [0..<n])"
    using Suc.prems by (intro Suc.IH) simp
  then show ?case using Suc.prems [of 0] by (simp add: grid_Suc map_upt_Suc del: upt_Suc)
qed (simp add: grid_def)

lemma block_limit_all: "length cs < 2 ^ 32 \<Longrightarrow> bi_NBlock b = int (length cs) \<Longrightarrow> block_limit 0 b = of_nat (length cs)"
  by (simp add: block_limit_def)

lemma read_content:
  assumes E: "block_env_ok E" and c: "content_at E creator D objID theID db cs hss" and ok: "ldb_ok db"
    and n: "length cs < 2 ^ 32" and P: "block_prefix D objID theID \<noteq> []"
    and b: "info_at D objID theID (length cs) b" "GetIsAllGood b0 = (Ret True, b)"
  shows "GetContentBlockList E b0 0 db = (Ret (number_content cs), b)"
proof -
  obtain it where it: "GetBlockIterWithBlockInfo b db = Ret it"
    "visited ListOrderNext it = filter (\<lambda>kv. HasPrefix (fst kv) (block_prefix D objID theID)) (ldb_kvs db)"
    using block_iter [OF P b(1)] by blast
  note e = content_entries [OF block_env_okD(2) [OF E] c ok it(2)]
  let ?full = "grid (length cs) (\<lambda>i j. Some (shard E cs i j))"
  have "present E creator D objID theID cs hss (visited ListOrderNext it) i j" if "i < length cs" "j < 2" for i j
    using e(2) that unfolding present_def by blast
  then have G: "fill_bufs E b (of_nat (length cs)) (visited ListOrderNext it) (grid (length cs) (\<lambda>_ _. None)) = Ret ?full"
    unfolding fill_bufs_ok [OF n e(1), of b "\<lambda>_ _. None"] by (intro arg_cong [where f = Ret] grid_cong) simp
  have "unscramble_all E (grid (length cs) (\<lambda>i j. Some (shard E cs i j))) = Ret (map ((!) cs) [0..<length cs])"
    using unscramble_shard [OF E] by (intro unscramble_grid) simp
  then have "unscramble_all E (grid (length cs) (\<lambda>i j. Some (shard E cs i j))) = Ret cs" by (simp add: map_nth)
  moreover have "unat (of_nat (length cs) :: u32) = length cs" using n by (simp add: unat_of_nat)
  moreover have "block_limit 0 b = of_nat (length cs)" using b(1) n by (simp add: block_limit_all info_at_def)
  ultimately show ?thesis using b(2) it(1) G
    by (simp add: GetContentBlockList_def Let_def grid_replicate no_missing_grid)
qed

lemma number_content_buf [simp]: "map cb_Buf (number_content cs) = cs" "length (number_content cs) = length cs"
  by (simp_all add: number_content_def NewContentBlock_def comp_def map_nth)

lemma read_media:
  assumes E: "block_env_ok E" and c: "content_at E creator D mediaID theID db cs hss" and ok: "ldb_ok db"
    and n: "length cs < 2 ^ 32" and P: "block_prefix D mediaID theID \<noteq> []"
    and b: "bi_ID b = Some theID" "bi_NBlock b = int (length cs)" "bi_IsAllGood b"
  shows "GetBuf E D mediaID (Some b) db = Ret (concat (concat cs))"
proof -
  let ?b = "BlockInfo_SetDB D (Some mediaID) b"
  have i: "info_at D mediaID theID (length cs) ?b" using b by (simp add: info_at_def BlockInfo_SetDB_def)
  have "GetIsAllGood ?b = (Ret True, ?b)" using b by (simp add: GetIsAllGood_def BlockInfo_SetDB_def)
  from read_content [OF E c ok n P i this]
  have "fst (GetContentBlockList E ?b 0 db) = Ret (number_content cs)" by simp
  moreover have "somes (replicate k None) = []" for k by (induction k) simp_all
  moreover have "somes (replicate k None @ map Some xs) = xs" for k and xs :: "bytes list"
    by (induction k) simp_all
  ultimately show ?thesis using b by (simp add: GetBuf_def Concat_eq)
qed

subsection \<open>What is written is what is read\<close>

text \<open>
  The two ways of cutting a content share one contract: the blocks are those of a list of chunks, and
  the chunks joined are the content.
\<close>

locale chunking =
  fixes cut :: "block_env \<Rightarrow> bytes \<Rightarrow> PttID option \<Rightarrow> PttID option \<Rightarrow> 'c \<Rightarrow> split_st \<Rightarrow> bytes list list res \<times> split_st"
    and chunks :: "'c \<Rightarrow> bytes list list"
    and join :: "bytes list list \<Rightarrow> 'c"
  assumes cut_chunks: "cut E D objID theID c = split_chunks E D objID theID 0 (chunks c)"
    and join_chunks: "join (chunks c) = c"
begin

lemma cut_ok:
  assumes E: "block_env_ok E" "signing_total (be_ecc E)" and g: "signer_ok (be_ecc E) g" and db: "quiet_db db"
    and n: "length (chunks c) < 2 ^ 32"
    and fresh: "\<And>k. HasPrefix k (block_prefix D objID theID) \<Longrightarrow> ldb_view db k = None"
  shows "\<exists>hss g' db'. cut E D (Some objID) (Some theID) c (g, db) = (Ret hss, g', db') \<and> quiet_db db' \<and>
    content_at E (sg_ID g) D objID theID db' (chunks c) hss \<and>
    (\<forall>k. \<not> HasPrefix k (block_prefix D objID theID) \<longrightarrow> ldb_view db' k = ldb_view db k)"
proof -
  have n': "0 + length (chunks c) \<le> 2 ^ 32" using n by simp
  obtain hss g' db' where s: "split_chunks E D (Some objID) (Some theID) 0 (chunks c) (g, db) = (Ret hss, g', db')"
    "quiet_db db'" "length hss = length (chunks c)"
    "\<forall>n < length (chunks c). chunk_at E (sg_ID g) D objID theID db' (0 + n) (chunks c ! n) (hss ! n)"
    "\<forall>k. (\<forall>n j. 0 \<le> n \<longrightarrow> n < 0 + length (chunks c) \<longrightarrow> j < 2 \<longrightarrow> k \<noteq> block_key D objID theID n j) \<longrightarrow>
         ldb_view db' k = ldb_view db k"
    using split_chunks_ok [OF E g db n'] by blast
  have "only_blocks D objID theID (length (chunks c)) db'"
    unfolding only_blocks_def using s(5) fresh by (metis add_0)
  then have "content_at E (sg_ID g) D objID theID db' (chunks c) hss" using s(3,4) by (simp add: content_at_def)
  moreover have "ldb_view db' k = ldb_view db k" if "\<not> HasPrefix k (block_prefix D objID theID)" for k
    using s(5) that block_key_prefix by metis
  ultimately show ?thesis using s(1,2) by (auto simp: cut_chunks)
qed

end

interpretation content: chunking "\<lambda>E D objID theID c. split_content E D objID theID 0 (int n) c" "content_chunks (int n)" concat for n
  by unfold_locales (simp_all add: split_content_chunks concat_content_chunks)

interpretation media: chunking "\<lambda>E D objID theID c. split_media E D objID theID 0 c" media_chunks "\<lambda>cs. concat (concat cs)"
  by unfold_locales (simp_all add: split_media_chunks concat_media_chunks)

text \<open>The author's block info is all good.\<close>

lemma author_info:
  assumes "length hss = n"
  shows "\<exists>bi. SetIsAllGood (NewBlockInfo (Some theID) hss mediaIDs creator) = Ret bi \<and> bi_IsAllGood bi \<and>
    bi_ID bi = Some theID \<and> bi_NBlock bi = int n \<and> info_at D objID theID n (BlockInfo_SetDB D (Some objID) bi) \<and>
    GetIsAllGood (BlockInfo_SetDB D (Some objID) bi) = (Ret True, BlockInfo_SetDB D (Some objID) bi)"
  using assms by (simp add: SetIsAllGood_def NewBlockInfo_def Let_def grid_replicate set_rows_grid info_at_def
      BlockInfo_SetDB_def GetIsAllGood_def)

text \<open>
  C9: A content that \<^verbatim>\<open>SplitContentBlocks\<close> writes is the content that \<^verbatim>\<open>GetContentBlockList\<close> reads. On a disk
  without faults, with a usable signing key, the call returns an identifier and the hashes; with the block info made
  of them the reader returns numbered content blocks whose lines, in order, are the lines written, and no
  entry outside the prefix of the content has changed.
\<close>

theorem content_roundtrip:
  assumes "block_env_ok E" "signing_total (be_ecc E)" "signer_ok (be_ecc E) g" "quiet_db db"
    and "NewPttID rand = Ret (Some theID)" "FullBlockDBPrefix dbBlockPrefix prefix = Ret D"
    and "Suc (length buf) < 2 ^ 32" "block_prefix D objID theID \<noteq> []"
    and "\<forall>k. HasPrefix k (block_prefix D objID theID) \<longrightarrow> ldb_view db k = None"
  shows "\<exists>hashs g' db' bi cbs.
    SplitContentBlocks E rand dbBlockPrefix prefix (Some objID) buf (int n) (g, db) = (Ret (Some theID, hashs), g', db') \<and>
    SetIsAllGood (NewBlockInfo (Some theID) hashs mediaIDs (sg_ID g)) = Ret bi \<and>
    fst (GetContentBlockList E (BlockInfo_SetDB D (Some objID) bi) 0 db') = Ret cbs \<and>
    concat (map cb_Buf cbs) = buf \<and> map cb_BlockID cbs = map of_nat [0..<length cbs] \<and>
    (\<forall>k. \<not> HasPrefix k (block_prefix D objID theID) \<longrightarrow> ldb_view db' k = ldb_view db k)"
proof -
  have l: "length (content_chunks (int n) buf) < 2 ^ 32"
    using length_content_chunks [of "int n" buf] assms(7) by (simp split: if_splits)
  obtain hss g' db' where s: "split_content E D (Some objID) (Some theID) 0 (int n) buf (g, db) = (Ret hss, g', db')"
    "quiet_db db'" "content_at E (sg_ID g) D objID theID db' (content_chunks (int n) buf) hss"
    "\<forall>k. \<not> HasPrefix k (block_prefix D objID theID) \<longrightarrow> ldb_view db' k = ldb_view db k"
    using content.cut_ok [OF assms(1-4) l] assms(9) by blast
  have len: "length hss = length (content_chunks (int n) buf)" using s(3) by (simp add: content_at_def)
  obtain bi where b: "SetIsAllGood (NewBlockInfo (Some theID) hss mediaIDs (sg_ID g)) = Ret bi"
    "info_at D objID theID (length (content_chunks (int n) buf)) (BlockInfo_SetDB D (Some objID) bi)"
    "GetIsAllGood (BlockInfo_SetDB D (Some objID) bi) = (Ret True, BlockInfo_SetDB D (Some objID) bi)"
    using author_info [OF len] by blast
  have "ldb_ok db'" using s(2) by (simp add: quiet_db_def)
  from read_content [OF assms(1) s(3) this l assms(8) b(2,3)]
  have r: "fst (GetContentBlockList E (BlockInfo_SetDB D (Some objID) bi) 0 db') = Ret (number_content (content_chunks (int n) buf))"
    by simp
  have "concat (map cb_Buf (number_content (content_chunks (int n) buf))) = buf" by (simp add: content.join_chunks)
  moreover have "map cb_BlockID (number_content cs) = map of_nat [0..<length (number_content cs)]" for cs
    by (simp add: number_content_def NewContentBlock_def)
  moreover have "SplitContentBlocks E rand dbBlockPrefix prefix (Some objID) buf (int n) (g, db) = (Ret (Some theID, hss), g', db')"
    using assms(5,6) s(1) by (simp add: SplitContentBlocks_def st_bind_run)
  ultimately show ?thesis using b(1) r s(4) by blast
qed

text \<open>
  C8: A medium that \<^verbatim>\<open>SplitMediaBlocks\<close> writes is the medium that \<^verbatim>\<open>Media.GetBuf\<close> reads, byte for
  byte, whatever its length below \<open>2 ^ 32\<close>: a last byte left over by the chunks of 65535 bytes is not lost.
\<close>

theorem media_roundtrip:
  assumes "block_env_ok E" "signing_total (be_ecc E)" "signer_ok (be_ecc E) g" "quiet_db db"
    and "NewPttID rand = Ret (Some theID)" "length buf < 2 ^ 32" "block_prefix D mediaID theID \<noteq> []"
    and "\<forall>k. HasPrefix k (block_prefix D mediaID theID) \<longrightarrow> ldb_view db k = None"
  shows "\<exists>hashs g' db' bi.
    SplitMediaBlocks E rand D (Some mediaID) buf (g, db) = (Ret (Some theID, hashs), g', db') \<and>
    SetIsAllGood (NewBlockInfo (Some theID) hashs None (sg_ID g)) = Ret bi \<and>
    GetBuf E D mediaID (Some bi) db' = Ret buf"
proof -
  have l: "length (media_chunks buf) < 2 ^ 32" using length_media_chunks [of buf] assms(6) by linarith
  obtain hss g' db' where s: "split_media E D (Some mediaID) (Some theID) 0 buf (g, db) = (Ret hss, g', db')"
    "quiet_db db'" "content_at E (sg_ID g) D mediaID theID db' (media_chunks buf) hss"
    using media.cut_ok [OF assms(1-4) l] assms(8) by blast
  have len: "length hss = length (media_chunks buf)" using s(3) by (simp add: content_at_def)
  obtain bi where b: "SetIsAllGood (NewBlockInfo (Some theID) hss None (sg_ID g)) = Ret bi" "bi_IsAllGood bi"
    "bi_ID bi = Some theID" "bi_NBlock bi = int (length (media_chunks buf))"
    using author_info [OF len] by blast
  have "ldb_ok db'" using s(2) by (simp add: quiet_db_def)
  from read_media [OF assms(1) s(3) this l assms(7) b(3,4,2)]
  have "GetBuf E D mediaID (Some bi) db' = Ret buf" by (simp add: media.join_chunks)
  moreover have "SplitMediaBlocks E rand D (Some mediaID) buf (g, db) = (Ret (Some theID, hss), g', db')"
    using assms(5) s(1) by (simp add: SplitMediaBlocks_def FullBlockDBPrefix_def st_bind_run)
  ultimately show ?thesis using b(1) by blast
qed

subsection \<open>Blocks from the author\<close>

definition sent_block :: "block_env \<Rightarrow> PttID \<Rightarrow> PttID \<Rightarrow> PttID \<Rightarrow> bytes list list \<Rightarrow> bytes list list \<Rightarrow> Block \<Rightarrow> bool" where
  "sent_block E creator objID theID cs hss blk \<longleftrightarrow>
     (\<exists>i < length cs. \<exists>j < 2. genuine E creator objID theID i j (hss ! i ! j) (shard E cs i j) blk)"

definition place_of :: "Block \<Rightarrow> nat \<times> nat" where
  "place_of blk = (unat (blk_BlockID blk), unat (blk_SubBlockID blk))"

lemma genuine_place:
  assumes "genuine E creator objID theID i j h buf blk" "i < 2 ^ 32" "j < 2"
  shows "place_of blk = (i, j)"
  using assms by (simp add: place_of_def genuine_def unat_of_nat)

lemma sent_blockE:
  assumes "sent_block E creator objID theID cs hss blk" "length cs < 2 ^ 32"
  obtains i j where "i < length cs" "j < 2" "place_of blk = (i, j)" "unat (blk_BlockID blk) = i" "unat (blk_SubBlockID blk) = j"
    "genuine E creator objID theID i j (hss ! i ! j) (shard E cs i j) blk"
proof -
  obtain i j where ij: "i < length cs" "j < 2" "genuine E creator objID theID i j (hss ! i ! j) (shard E cs i j) blk"
    using assms(1) unfolding sent_block_def by blast
  have "place_of blk = (i, j)" using genuine_place [OF ij(3)] ij(1,2) assms(2) by simp
  with ij that show thesis by (simp add: place_of_def)
qed

lemma collect_blocks_all:
  assumes n: "length cs < 2 ^ 32" and "\<forall>kv \<in> set kvs. \<exists>i j b. entry_at E creator D objID theID cs hss kv i j b"
  shows "(\<forall>blk \<in> set (collect_blocks E (of_nat (length cs)) kvs). sent_block E creator objID theID cs hss blk) \<and>
    (\<forall>i j. present E creator D objID theID cs hss kvs i j \<longrightarrow>
       (\<exists>blk \<in> set (collect_blocks E (of_nat (length cs)) kvs). place_of blk = (i, j)))"
  using assms(2)
proof (induction kvs)
  case (Cons kv kvs)
  obtain i j b where e: "entry_at E creator D objID theID cs hss kv i j b" using Cons.prems by auto
  have "collect_blocks E (of_nat (length cs)) (kv # kvs) = b # collect_blocks E (of_nat (length cs)) kvs"
    using e entry_bounds(3) [OF e n] by (simp add: entry_at_def)
  moreover have "sent_block E creator objID theID cs hss b" using e by (auto simp: entry_at_def sent_block_def)
  moreover have "place_of b = (i, j)" using entry_bounds(1,2) [OF e n] by (simp add: place_of_def)
  ultimately show ?case using Cons present_Cons [OF e n] by auto
qed (simp add: present_def)

text \<open>\<^verbatim>\<open>GetBlockList\<close> of an all good content lists its blocks, all of them.\<close>

lemma list_blocks:
  assumes E: "block_env_ok E" and c: "content_at E creator D objID theID db cs hss" and ok: "ldb_ok db"
    and n: "length cs < 2 ^ 32" and P: "block_prefix D objID theID \<noteq> []"
    and b: "info_at D objID theID (length cs) b" "GetIsAllGood b0 = (Ret True, b)"
  shows "\<exists>bs. GetBlockList E b0 0 db = (Ret bs, b) \<and> (\<forall>blk \<in> set bs. sent_block E creator objID theID cs hss blk) \<and>
    (\<forall>i < length cs. \<forall>j < 2. \<exists>blk \<in> set bs. place_of blk = (i, j))"
proof -
  obtain it where it: "GetBlockIterWithBlockInfo b db = Ret it"
    "visited ListOrderNext it = filter (\<lambda>kv. HasPrefix (fst kv) (block_prefix D objID theID)) (ldb_kvs db)"
    using block_iter [OF P b(1)] by blast
  note e = content_entries [OF block_env_okD(2) [OF E] c ok it(2)]
  have "present E creator D objID theID cs hss (visited ListOrderNext it) i j" if "i < length cs" "j < 2" for i j
    using e(2) that unfolding present_def by blast
  moreover have "block_limit 0 b = of_nat (length cs)" using b(1) n by (simp add: block_limit_all info_at_def)
  ultimately show ?thesis using collect_blocks_all [OF n e(1)] b(2) it(1) by (simp add: GetBlockList_def)
qed

text \<open>
  A node on its way to the content: the flags \<open>G\<close> tell which blocks have arrived, and each of them is stored.
\<close>

definition recv_at ::
  "block_env \<Rightarrow> PttID \<Rightarrow> bytes \<Rightarrow> PttID \<Rightarrow> PttID \<Rightarrow> bytes list list \<Rightarrow> bytes list list \<Rightarrow> (nat \<Rightarrow> nat \<Rightarrow> bool) \<Rightarrow>
   BlockInfo \<times> LDBDatabase \<Rightarrow> bool" where
  "recv_at E creator D objID theID cs hss G s \<longleftrightarrow>
     info_at D objID theID (length cs) (fst s) \<and> bi_Hashs (fst s) = hss \<and> bi_IsGood (fst s) = Some (grid (length cs) G) \<and>
     quiet_db (snd s) \<and> only_blocks D objID theID (length cs) (snd s) \<and>
     (\<forall>i < length cs. \<forall>j < 2. G i j \<longrightarrow>
        (\<exists>blk. genuine E creator objID theID i j (hss ! i ! j) (shard E cs i j) blk \<and> stored E (snd s) (block_key D objID theID i j) blk))"

lemma recv_atD:
  assumes "recv_at E creator D objID theID cs hss G s"
  shows "info_at D objID theID (length cs) (fst s)" "bi_Hashs (fst s) = hss" "bi_IsGood (fst s) = Some (grid (length cs) G)"
    "quiet_db (snd s)" "only_blocks D objID theID (length cs) (snd s)"
    "i < length cs \<Longrightarrow> j < 2 \<Longrightarrow> G i j \<Longrightarrow>
      \<exists>blk. genuine E creator objID theID i j (hss ! i ! j) (shard E cs i j) blk \<and> stored E (snd s) (block_key D objID theID i j) blk"
  using assms unfolding recv_at_def by blast+

lemma GetIsGood_grid:
  assumes "bi_NBlock b = int n" "bi_IsGood b = Some (grid n G)" "place_of blk = (i, j)" "i < n" "j < 2" "n < 2 ^ 32"
  shows "GetIsGood (blk_BlockID blk) (blk_SubBlockID blk) b = (Ret (G i j), b)"
proof -
  have "\<not> (of_nat n :: u32) \<le> blk_BlockID blk"
    using assms(3,4,6) by (simp add: place_of_def word_le_nat_alt unat_of_nat)
  then show ?thesis using assms by (simp add: GetIsGood_def Let_def place_of_def NSubBlock_def)
qed

lemma shrink_sent:
  assumes "bi_NBlock b = int (length cs)" "bi_IsGood b = Some (grid (length cs) G)" "length cs < 2 ^ 32"
    "\<forall>blk \<in> set bs. sent_block E creator objID theID cs hss blk"
  shows "shrinkBlocks bs b = (Ret (filter (\<lambda>blk. \<not> G (fst (place_of blk)) (snd (place_of blk))) bs), b)"
  using assms(4)
proof (induction bs)
  case (Cons blk bs)
  obtain i j where ij: "i < length cs" "j < 2" "place_of blk = (i, j)"
    using sent_blockE [OF _ assms(3)] Cons.prems by (metis list.set_intros(1))
  have "GetIsGood (blk_BlockID blk) (blk_SubBlockID blk) b = (Ret (G i j), b)"
    using GetIsGood_grid [OF assms(1,2) ij(3,1,2) assms(3)] .
  with Cons ij(3) show ?case by (simp add: st_bind_run)
qed simp

lemma verify_sent:
  assumes "length cs < 2 ^ 32" "bi_Hashs b = hss" "length hss = length cs" "\<forall>i < length cs. length (hss ! i) = 2"
    "\<forall>blk \<in> set bs. sent_block E creator objID theID cs hss blk"
  shows "verifyBlocks E bs b creator = Ret ()"
  using assms(5)
proof (induction bs)
  case (Cons blk bs)
  obtain i j where ij: "i < length cs" "j < 2" "unat (blk_BlockID blk) = i" "unat (blk_SubBlockID blk) = j"
    "genuine E creator objID theID i j (hss ! i ! j) (shard E cs i j) blk"
    using sent_blockE [OF _ assms(1)] Cons.prems by (metis list.set_intros(1))
  have "Block_Verify E (hss ! i ! j) creator blk = Ret ()" using ij(5) by (simp add: genuine_def)
  then show ?case using Cons ij assms(2-4) by (simp add: index2_def)
qed simp

lemma only_blocks_put:
  assumes "only_blocks D objID theID n db" "i < n" "j < 2"
    "\<forall>k. k \<noteq> block_key D objID theID i j \<longrightarrow> ldb_view db' k = ldb_view db k"
  shows "only_blocks D objID theID n db'"
  unfolding only_blocks_def
proof (intro allI impI)
  fix k assume k: "ldb_view db' k \<noteq> None" "HasPrefix k (block_prefix D objID theID)"
  show "\<exists>i < n. \<exists>j < 2. k = block_key D objID theID i j"
  proof (cases "k = block_key D objID theID i j")
    case False
    then have "ldb_view db k \<noteq> None" using k(1) assms(4) by simp
    then show ?thesis using assms(1) k(2) unfolding only_blocks_def by blast
  qed (use assms(2,3) in blast)
qed

lemma save_one:
  assumes E: "block_codec_ok E" and n: "length cs < 2 ^ 32" and r: "recv_at E creator D objID theID cs hss G (b, db)"
    and g: "genuine E creator objID theID i j (hss ! i ! j) (shard E cs i j) blk" and ij: "i < length cs" "j < 2"
  shows "\<exists>b' db'. Block_Save E (bi_db b) (SetBlockDB b blk) db = (Ret (), db') \<and>
    SetIsGood (blk_BlockID blk) (blk_SubBlockID blk) True b = Ret b' \<and>
    recv_at E creator D objID theID cs hss (G(i := (G i)(j := True))) (b', db')"
proof -
  have i: "bi_db b = Some D" "bi_objID b = Some objID" "bi_ID b = Some theID"
    using recv_atD(1) [OF r] by (simp_all add: info_at_def)
  have blk: "SetBlockDB b blk = blk" using g i by (simp add: SetBlockDB_def Block_SetDB_def genuine_def)
  have q: "quiet_db db" "bi_IsGood b = Some (grid (length cs) G)" using recv_atD(3,4) [OF r] by simp_all
  obtain db' where db': "Block_Save E (Some D) blk db = (Ret (), db')" "quiet_db db'"
    "stored E db' (block_key D objID theID i j) blk"
    "\<forall>k. k \<noteq> block_key D objID theID i j \<longrightarrow> ldb_view db' k = ldb_view db k"
    using Block_Save_ok [OF E q(1) g] by blast
  have "place_of blk = (i, j)" using genuine_place [OF g] ij n by simp
  then have p: "unat (blk_BlockID blk) = i" "unat (blk_SubBlockID blk) = j" by (simp_all add: place_of_def)
  let ?G = "G(i := (G i)(j := True))" and ?b = "b\<lparr>bi_IsGood := Some (grid (length cs) (G(i := (G i)(j := True))))\<rparr>"
  have good: "SetIsGood (blk_BlockID blk) (blk_SubBlockID blk) True b = Ret ?b"
    using q(2) p ij by (simp add: SetIsGood_def update2_grid)
  have arrived: "\<exists>blk. genuine E creator objID theID i' j' (hss ! i' ! j') (shard E cs i' j') blk \<and>
      stored E db' (block_key D objID theID i' j') blk" if ij': "i' < length cs" "j' < 2" "?G i' j'" for i' j'
  proof (cases "i' = i \<and> j' = j")
    case False
    then have "G i' j'" using ij'(3) by (auto split: if_splits)
    then obtain blk' where blk': "genuine E creator objID theID i' j' (hss ! i' ! j') (shard E cs i' j') blk'"
      "stored E db (block_key D objID theID i' j') blk'" using recv_atD(6) [OF r ij'(1,2)] by auto
    have "block_key D objID theID i' j' \<noteq> block_key D objID theID i j"
      using False ij'(1,2) ij n by (simp add: block_key_inj)
    then have "stored E db' (block_key D objID theID i' j') blk'" using blk'(2) db'(4) by (simp add: stored_def)
    with blk'(1) show ?thesis by blast
  qed (use g db'(3) in blast)
  have "only_blocks D objID theID (length cs) db'"
    using only_blocks_put [OF _ ij db'(4)] recv_atD(5) [OF r] by simp
  then have "recv_at E creator D objID theID cs hss ?G (?b, db')"
    unfolding recv_at_def using recv_atD(1,2) [OF r] db'(2) arrived by (auto simp: info_at_def)
  with db'(1) good blk i(1) show ?thesis by auto
qed

lemma save_sent:
  assumes E: "block_codec_ok E" and n: "length cs < 2 ^ 32"
  shows "recv_at E creator D objID theID cs hss G (b, db) \<Longrightarrow> \<forall>blk \<in> set bs. sent_block E creator objID theID cs hss blk \<Longrightarrow>
    \<exists>G' s'. saveBlocks E bs saved (b, db) = (Ret (saved \<or> bs \<noteq> []), s') \<and>
      recv_at E creator D objID theID cs hss G' s' \<and>
      (\<forall>i j. G' i j \<longleftrightarrow> G i j \<or> (\<exists>blk \<in> set bs. place_of blk = (i, j)))"
proof (induction bs arbitrary: G b db saved)
  case Nil
  then show ?case by auto
next
  case (Cons blk bs)
  obtain i j where ij: "i < length cs" "j < 2" "place_of blk = (i, j)"
    "genuine E creator objID theID i j (hss ! i ! j) (shard E cs i j) blk"
    using sent_blockE [OF _ n] Cons.prems(2) by (metis list.set_intros(1))
  obtain b' db' where s: "Block_Save E (bi_db b) (SetBlockDB b blk) db = (Ret (), db')"
    "SetIsGood (blk_BlockID blk) (blk_SubBlockID blk) True b = Ret b'"
    "recv_at E creator D objID theID cs hss (G(i := (G i)(j := True))) (b', db')"
    using save_one [OF E n Cons.prems(1) ij(4,1,2)] by blast
  obtain G' s' where i: "saveBlocks E bs True (b', db') = (Ret True, s')" "recv_at E creator D objID theID cs hss G' s'"
    "\<forall>i' j'. G' i' j' \<longleftrightarrow> (G(i := (G i)(j := True))) i' j' \<or> (\<exists>blk \<in> set bs. place_of blk = (i', j'))"
    using Cons.IH [OF s(3), of True] Cons.prems(2) by auto
  have "saveBlocks E (blk # bs) saved (b, db) = (Ret (saved \<or> blk # bs \<noteq> []), s')" using s(1,2) i(1) by simp
  moreover have "G' i' j' \<longleftrightarrow> G i' j' \<or> (\<exists>blk \<in> set (blk # bs). place_of blk = (i', j'))" for i' j'
    using i(3) ij(3) by auto
  ultimately show ?case using i(2) by blast
qed

lemma receive_sent:
  assumes E: "block_codec_ok E" and n: "length cs < 2 ^ 32" and h: "length hss = length cs" "\<forall>i < length cs. length (hss ! i) = 2"
    and r: "recv_at E creator D objID theID cs hss G s" and bs: "\<forall>blk \<in> set bs. sent_block E creator objID theID cs hss blk"
  shows "\<exists>x G' s'. receive_blocks E creator bs s = (Ret x, s') \<and> recv_at E creator D objID theID cs hss G' s' \<and>
      (\<forall>i j. G' i j \<longleftrightarrow> G i j \<or> (\<exists>blk \<in> set bs. place_of blk = (i, j)))"
proof -
  obtain b db where s: "s = (b, db)" by fastforce
  let ?bs = "filter (\<lambda>blk. \<not> G (fst (place_of blk)) (snd (place_of blk))) bs"
  have "bi_NBlock b = int (length cs)" "bi_IsGood b = Some (grid (length cs) G)" "bi_Hashs b = hss"
    using recv_atD(1-3) [OF r] s by (simp_all add: info_at_def)
  note shrink = shrink_sent [OF this(1,2) n bs] and hashs = this(3)
  have sent: "\<forall>blk \<in> set ?bs. sent_block E creator objID theID cs hss blk" using bs by simp
  have verify: "verifyBlocks E ?bs b creator = Ret ()" using verify_sent [OF n hashs h sent] .
  obtain G' s' where g: "saveBlocks E ?bs False (b, db) = (Ret (?bs \<noteq> []), s')" "recv_at E creator D objID theID cs hss G' s'"
    "\<forall>i j. G' i j \<longleftrightarrow> G i j \<or> (\<exists>blk \<in> set ?bs. place_of blk = (i, j))"
    using save_sent [OF E n r [unfolded s] sent, of False] by auto
  have "(G i j \<or> (\<exists>blk \<in> set ?bs. place_of blk = (i, j))) \<longleftrightarrow> (G i j \<or> (\<exists>blk \<in> set bs. place_of blk = (i, j)))" for i j
    by auto
  with g(3) have G': "\<forall>i j. G' i j \<longleftrightarrow> G i j \<or> (\<exists>blk \<in> set bs. place_of blk = (i, j))" by blast
  show ?thesis
  proof (cases "?bs = []")
    case True
    then have "receive_blocks E creator bs s = (Ret False, s)" using shrink by (simp add: receive_blocks_def s)
    moreover have "saveBlocks E ?bs False (b, db) = (Ret False, s)" unfolding True by (simp add: s)
    then have "s' = s" using g(1) by simp
    ultimately show ?thesis using g(2) G' by blast
  next
    case False
    then have "receive_blocks E creator bs s = (Ret True, s')" using shrink verify g(1) by (simp add: receive_blocks_def s)
    with g(2) G' show ?thesis by blast
  qed
qed

text \<open>Several messages, one after the other.\<close>

fun receive_all ::
  "block_env \<Rightarrow> PttID \<Rightarrow> Block list list \<Rightarrow> BlockInfo \<times> LDBDatabase \<Rightarrow> unit res \<times> BlockInfo \<times> LDBDatabase" where
  "receive_all E creatorID [] s = (Ret (), s)"
| "receive_all E creatorID (blocks # rest) s =
     (case receive_blocks E creatorID blocks s of
        (Ret _, s') \<Rightarrow> receive_all E creatorID rest s'
      | (Fail e, s') \<Rightarrow> (Fail e, s')
      | (Panic, s') \<Rightarrow> (Panic, s'))"

lemma receive_all_sent:
  assumes E: "block_codec_ok E" and n: "length cs < 2 ^ 32" and h: "length hss = length cs" "\<forall>i < length cs. length (hss ! i) = 2"
  shows "recv_at E creator D objID theID cs hss G s \<Longrightarrow> \<forall>blk \<in> set (concat bss). sent_block E creator objID theID cs hss blk \<Longrightarrow>
    \<exists>G' s'. receive_all E creator bss s = (Ret (), s') \<and> recv_at E creator D objID theID cs hss G' s' \<and>
      (\<forall>i j. G' i j \<longleftrightarrow> G i j \<or> (\<exists>blk \<in> set (concat bss). place_of blk = (i, j)))"
proof (induction bss arbitrary: G s)
  case Nil
  then show ?case by auto
next
  case (Cons bs bss)
  have "\<forall>blk \<in> set bs. sent_block E creator objID theID cs hss blk" using Cons.prems(2) by simp
  from receive_sent [OF E n h Cons.prems(1) this] obtain x G1 s1 where
    1: "receive_blocks E creator bs s = (Ret x, s1)" "recv_at E creator D objID theID cs hss G1 s1"
      "\<forall>i j. G1 i j \<longleftrightarrow> G i j \<or> (\<exists>blk \<in> set bs. place_of blk = (i, j))" by blast
  obtain G2 s2 where 2: "receive_all E creator bss s1 = (Ret (), s2)" "recv_at E creator D objID theID cs hss G2 s2"
    "\<forall>i j. G2 i j \<longleftrightarrow> G1 i j \<or> (\<exists>blk \<in> set (concat bss). place_of blk = (i, j))"
    using Cons.IH [OF 1(2)] Cons.prems(2) by auto
  have "receive_all E creator (bs # bss) s = (Ret (), s2)" using 1(1) 2(1) by simp
  moreover have "G2 i j \<longleftrightarrow> G i j \<or> (\<exists>blk \<in> set (concat (bs # bss)). place_of blk = (i, j))" for i j
    using 1(3) 2(3) by auto
  ultimately show ?case using 2(2) by blast
qed

lemma recv_start:
  assumes "quiet_db db" "\<forall>k. HasPrefix k (block_prefix D objID theID) \<longrightarrow> ldb_view db k = None" "length hss = length cs"
  shows "recv_at E creator D objID theID cs hss (\<lambda>_ _. False)
    (BlockInfo_SetDB D (Some objID) (NewBlockInfo (Some theID) hss mediaIDs creator), db)"
  using assms by (auto simp: recv_at_def info_at_def BlockInfo_SetDB_def NewBlockInfo_def Let_def grid_replicate only_blocks_def)

lemma recv_done:
  assumes E: "block_env_ok E" and r: "recv_at E creator D objID theID cs hss G (b, db)"
    and all: "\<forall>i < length cs. \<forall>j < 2. G i j" and h: "length hss = length cs" "\<forall>i < length cs. length (hss ! i) = 2"
  shows "content_at E creator D objID theID db cs hss"
    and "\<exists>b'. GetIsAllGood b = (Ret True, b') \<and> info_at D objID theID (length cs) b'"
proof -
  have "chunk_at E creator D objID theID db i (cs ! i) (hss ! i)" if "i < length cs" for i
  proof -
    obtain s1 s2 where ss: "ScrambleBuf E (cs ! i) = Ret [s1, s2]" using scramble_roundtrip [OF E] by blast
    have hs: "hss ! i = [hss ! i ! 0, hss ! i ! 1]" using h(2) \<open>i < length cs\<close> by (intro nth_equalityI) (auto simp: less_two)
    have "\<exists>blk. genuine E creator objID theID i j (hss ! i ! j) (shard E cs i j) blk \<and> stored E db (block_key D objID theID i j) blk"
      if "j < 2" for j
      using recv_atD(6) [OF r \<open>i < length cs\<close> that] all \<open>i < length cs\<close> that by simp
    from this [of 0] this [of 1] show ?thesis
      using ss hs unfolding chunk_at_def shard_def by auto
  qed
  then show "content_at E creator D objID theID db cs hss" using recv_atD(5) [OF r] h(1) by (simp add: content_at_def)
  have i: "info_at D objID theID (length cs) b" "bi_IsGood b = Some (grid (length cs) G)" using recv_atD(1,3) [OF r] by simp_all
  have "good_rows (length cs) (grid (length cs) G) = Ret True" using all by (intro good_rows_grid) simp
  then have "GetIsAllGood b = (Ret True, b) \<or> GetIsAllGood b = (Ret True, b\<lparr>bi_IsAllGood := True\<rparr>)"
    using i by (auto simp: GetIsAllGood_def info_at_def)
  then show "\<exists>b'. GetIsAllGood b = (Ret True, b') \<and> info_at D objID theID (length cs) b'"
    using i(1) by (auto simp: info_at_def)
qed

text \<open>
  C6: A content reaches another node. The author lists the blocks with \<^verbatim>\<open>GetBlockList\<close>; the other node, which
  knows the hashes only, receives them in any order, in any number of messages and any number of times. It
  accepts every message, and when each block has come once its block info is all good and
  \<^verbatim>\<open>GetContentBlockList\<close> returns there what it returns to the author.
\<close>

theorem content_replicated:
  assumes "block_env_ok E" "signing_total (be_ecc E)" "signer_ok (be_ecc E) g" "quiet_db db" "quiet_db db2"
    and "NewPttID rand = Ret (Some theID)" "FullBlockDBPrefix dbBlockPrefix prefix = Ret D"
    and "Suc (length buf) < 2 ^ 32" "block_prefix D objID theID \<noteq> []" "block_prefix D2 objID theID \<noteq> []"
    and "\<forall>k. HasPrefix k (block_prefix D objID theID) \<longrightarrow> ldb_view db k = None"
    and "\<forall>k. HasPrefix k (block_prefix D2 objID theID) \<longrightarrow> ldb_view db2 k = None"
  shows "\<exists>hashs g' db' bi bs cbs.
    SplitContentBlocks E rand dbBlockPrefix prefix (Some objID) buf (int n) (g, db) = (Ret (Some theID, hashs), g', db') \<and>
    SetIsAllGood (NewBlockInfo (Some theID) hashs mediaIDs (sg_ID g)) = Ret bi \<and>
    fst (GetBlockList E (BlockInfo_SetDB D (Some objID) bi) 0 db') = Ret bs \<and>
    fst (GetContentBlockList E (BlockInfo_SetDB D (Some objID) bi) 0 db') = Ret cbs \<and>
    (\<forall>bss. set (concat bss) = set bs \<longrightarrow>
       (\<exists>b2 db2'. receive_all E (sg_ID g) bss
            (BlockInfo_SetDB D2 (Some objID) (NewBlockInfo (Some theID) hashs mediaIDs (sg_ID g)), db2) = (Ret (), b2, db2') \<and>
          fst (GetIsAllGood b2) = Ret True \<and> fst (GetContentBlockList E b2 0 db2') = Ret cbs))"
proof -
  let ?cs = "content_chunks (int n) buf"
  have l: "length ?cs < 2 ^ 32" using length_content_chunks [of "int n" buf] assms(8) by (simp split: if_splits)
  obtain hss g' db' where s: "split_content E D (Some objID) (Some theID) 0 (int n) buf (g, db) = (Ret hss, g', db')"
    "quiet_db db'" "content_at E (sg_ID g) D objID theID db' ?cs hss"
    using content.cut_ok [OF assms(1-4) l] assms(11) by blast
  have len: "length hss = length ?cs" "\<forall>i < length ?cs. length (hss ! i) = 2"
    using s(3) by (auto simp: content_at_def chunk_at_def)
  obtain bi where b: "SetIsAllGood (NewBlockInfo (Some theID) hss mediaIDs (sg_ID g)) = Ret bi"
    "info_at D objID theID (length ?cs) (BlockInfo_SetDB D (Some objID) bi)"
    "GetIsAllGood (BlockInfo_SetDB D (Some objID) bi) = (Ret True, BlockInfo_SetDB D (Some objID) bi)"
    using author_info [OF len(1)] by blast
  have ok: "ldb_ok db'" using s(2) by (simp add: quiet_db_def)
  have r: "fst (GetContentBlockList E (BlockInfo_SetDB D (Some objID) bi) 0 db') = Ret (number_content ?cs)"
    using read_content [OF assms(1) s(3) ok l assms(9) b(2,3)] by simp
  obtain bs where bs: "fst (GetBlockList E (BlockInfo_SetDB D (Some objID) bi) 0 db') = Ret bs"
    "\<forall>blk \<in> set bs. sent_block E (sg_ID g) objID theID ?cs hss blk"
    "\<forall>i < length ?cs. \<forall>j < 2. \<exists>blk \<in> set bs. place_of blk = (i, j)"
    using list_blocks [OF assms(1) s(3) ok l assms(9) b(2,3)] by auto
  let ?b2 = "BlockInfo_SetDB D2 (Some objID) (NewBlockInfo (Some theID) hss mediaIDs (sg_ID g))"
  have "\<exists>b2 db2'. receive_all E (sg_ID g) bss (?b2, db2) = (Ret (), b2, db2') \<and>
      fst (GetIsAllGood b2) = Ret True \<and> fst (GetContentBlockList E b2 0 db2') = Ret (number_content ?cs)"
    if "set (concat bss) = set bs" for bss
  proof -
    note start = recv_start [OF assms(5,12) len(1), of E "sg_ID g" mediaIDs]
    have "\<forall>blk \<in> set (concat bss). sent_block E (sg_ID g) objID theID ?cs hss blk" using bs(2) that by simp
    from receive_all_sent [OF block_env_okD(2) [OF assms(1)] l len start this] obtain G s2 where
      2: "receive_all E (sg_ID g) bss (?b2, db2) = (Ret (), s2)" "recv_at E (sg_ID g) D2 objID theID ?cs hss G s2"
        "\<forall>i j. G i j \<longleftrightarrow> False \<or> (\<exists>blk \<in> set (concat bss). place_of blk = (i, j))" by blast
    obtain b2 db2' where s2: "s2 = (b2, db2')" by fastforce
    have "\<forall>i < length ?cs. \<forall>j < 2. G i j" using 2(3) bs(3) unfolding that by blast
    note fin = recv_done [OF assms(1) 2(2) [unfolded s2] this len]
    obtain b' where b': "GetIsAllGood b2 = (Ret True, b')" "info_at D2 objID theID (length ?cs) b'" using fin(2) by blast
    have "ldb_ok db2'" using recv_atD(4) [OF 2(2)] by (simp add: s2 quiet_db_def)
    from read_content [OF assms(1) fin(1) this l assms(10) b'(2,1)] show ?thesis using 2(1) b'(1) s2 by simp
  qed
  moreover have "SplitContentBlocks E rand dbBlockPrefix prefix (Some objID) buf (int n) (g, db) = (Ret (Some theID, hss), g', db')"
    using assms(6,7) s(1) by (simp add: SplitContentBlocks_def st_bind_run)
  ultimately show ?thesis using b(1) r bs(1) by blast
qed

subsection \<open>Blocks from anyone\<close>

text \<open>
  A flag is set only for a block that is stored, has the hash the block info expects and carries a signature that its
  creator's key accounts for. Saving replaces the version byte of a block and nothing else.
\<close>

definition authentic_block ::
  "block_env \<Rightarrow> PttID \<Rightarrow> bytes \<Rightarrow> PttID \<Rightarrow> PttID \<Rightarrow> bytes list list \<Rightarrow> LDBDatabase \<Rightarrow> u32 \<Rightarrow> byte \<Rightarrow> bool" where
  "authentic_block E creator D objID theID hashs db i j \<longleftrightarrow>
     (\<exists>blk hash. index2 hashs (unat i) (unat j) = Ret hash \<and> blk_BlockID blk = i \<and> blk_SubBlockID blk = j \<and>
        blk_ObjID blk = Some objID \<and> blk_ID blk = Some theID \<and> Block_Verify E hash creator blk = Ret () \<and>
        stored E db (D @ objID @ theID @ PutUint32 i @ [j]) (blk\<lparr>blk_V := CurrentVersion\<rparr>))"

definition authentic :: "block_env \<Rightarrow> PttID \<Rightarrow> bytes \<Rightarrow> PttID \<Rightarrow> PttID \<Rightarrow> BlockInfo \<times> LDBDatabase \<Rightarrow> bool" where
  "authentic E creator D objID theID s \<longleftrightarrow>
     (\<forall>rows i j. bi_IsGood (fst s) = Some rows \<longrightarrow> index2 rows (unat i) (unat j) = Ret True \<longrightarrow>
        authentic_block E creator D objID theID (bi_Hashs (fst s)) (snd s) i j)"

definition same_info :: "BlockInfo \<Rightarrow> BlockInfo \<Rightarrow> bool" where
  "same_info b b' \<longleftrightarrow> bi_db b' = bi_db b \<and> bi_objID b' = bi_objID b \<and> bi_ID b' = bi_ID b \<and> bi_Hashs b' = bi_Hashs b"

lemma same_info_simps [simp]: "same_info b b" "same_info b b' \<Longrightarrow> same_info b' b'' \<Longrightarrow> same_info b b''"
  by (simp_all add: same_info_def)

lemma InitIsGood_same: "InitIsGood b = Ret b' \<Longrightarrow>
    same_info b b' \<and> (\<exists>n. bi_IsGood b' = Some (replicate n (replicate NSubBlock False)))"
  by (auto simp: InitIsGood_def same_info_def split: if_splits)

lemma index2_fresh: "index2 (replicate n (replicate k False)) i j \<noteq> Ret True"
proof
  assume "index2 (replicate n (replicate k False)) i j = Ret True"
  then have "i < n" "j < length (replicate n (replicate k False) ! i)" "replicate n (replicate k False) ! i ! j"
    by (simp_all add: index2_def split: if_splits)
  then show False by simp
qed

lemma authentic_fresh:
  assumes "bi_IsGood b = Some (replicate n (replicate k False))"
  shows "authentic E creator D objID theID (b, db)"
  using assms by (simp add: authentic_def index2_fresh)

lemma GetIsGood_authentic:
  assumes "authentic E creator D objID theID (b, db)" "GetIsGood i j b = (r, b')"
  shows "authentic E creator D objID theID (b', db) \<and> same_info b b'"
proof -
  have "b' = b \<or> InitIsGood b = Ret b'"
    using assms(2) by (auto simp: GetIsGood_def Let_def split: if_splits option.splits res.splits)
  then show ?thesis
  proof
    assume "InitIsGood b = Ret b'"
    then show ?thesis using InitIsGood_same authentic_fresh by blast
  qed (use assms(1) in simp)
qed

lemma shrink_authentic:
  "authentic E creator D objID theID (b, db) \<Longrightarrow> shrinkBlocks bs b = (r, b') \<Longrightarrow>
   authentic E creator D objID theID (b', db) \<and> same_info b b' \<and> (\<forall>bs'. r = Ret bs' \<longrightarrow> set bs' \<subseteq> set bs)"
proof (induction bs arbitrary: b r b')
  case (Cons blk bs)
  obtain r1 b1 where 1: "GetIsGood (blk_BlockID blk) (blk_SubBlockID blk) b = (r1, b1)" by fastforce
  note a1 = GetIsGood_authentic [OF Cons.prems(1) 1]
  obtain r2 b2 where 2: "shrinkBlocks bs b1 = (r2, b2)" by fastforce
  note a2 = Cons.IH [OF conjunct1 [OF a1] 2]
  have "same_info b b2" using a1 a2 by (meson same_info_simps(2))
  then show ?case using Cons.prems(2) 1 2 a1 a2
    by (cases r1; cases r2) (auto simp: st_bind_def split: if_splits)
qed auto

lemma verify_all:
  "verifyBlocks E bs b creator = Ret () \<Longrightarrow> blk \<in> set bs \<Longrightarrow>
   \<exists>hash. index2 (bi_Hashs b) (unat (blk_BlockID blk)) (unat (blk_SubBlockID blk)) = Ret hash \<and> Block_Verify E hash creator blk = Ret ()"
  by (induction bs) (auto simp: res_bind_eq_Ret)

lemma place_key_inj: "D @ objID @ theID @ PutUint32 i @ [j] = D @ objID @ theID @ PutUint32 i' @ [j'] \<longleftrightarrow> i = i' \<and> j = j'"
  by (simp add: codec_simps)

lemma update2_index2:
  "update2 xs i j v = Ret ys \<Longrightarrow> index2 ys i' j' = Ret w \<Longrightarrow> (i' = i \<and> j' = j \<and> w = v) \<or> index2 xs i' j' = Ret w"
  by (auto simp: update2_def index2_def nth_list_update split: if_splits)

lemma SetIsGood_same:
  assumes "SetIsGood i j True b = Ret b'"
  shows "same_info b b' \<and> (\<forall>rows' i' j'. bi_IsGood b' = Some rows' \<longrightarrow> index2 rows' i' j' = Ret True \<longrightarrow>
    (i' = unat i \<and> j' = unat j) \<or> (\<exists>rows. bi_IsGood b = Some rows \<and> index2 rows i' j' = Ret True))"
proof -
  obtain b0 rows rows' where b: "(if bi_IsGood b = None then InitIsGood b else Ret b) = Ret b0" "bi_IsGood b0 = Some rows"
    "update2 rows (unat i) (unat j) True = Ret rows'" "b' = b0\<lparr>bi_IsGood := Some rows'\<rparr>"
    using assms by (auto simp: SetIsGood_def res_bind_eq_Ret split: option.splits)
  have c: "same_info b b0 \<and> (bi_IsGood b = Some rows \<or> (\<exists>n. rows = replicate n (replicate NSubBlock False)))"
    using b(1,2) InitIsGood_same [of b b0] by (auto split: if_splits)
  have "(i' = unat i \<and> j' = unat j) \<or> bi_IsGood b = Some rows \<and> index2 rows i' j' = Ret True"
    if "index2 rows' i' j' = Ret True" for i' j'
    using update2_index2 [OF b(3) that] c index2_fresh [of _ NSubBlock i' j'] by auto
  then show ?thesis using c b(4) by (auto simp: same_info_def)
qed

lemma Block_Save_view:
  assumes "Block_Save E (Some D) (SetBlockDB b blk) db = (r, db')" "bi_objID b = Some objID" "bi_ID b = Some theID"
  shows "r \<noteq> Ret () \<and> db' = db \<or>
    stored E db' (D @ objID @ theID @ PutUint32 (blk_BlockID blk) @ [blk_SubBlockID blk]) (SetBlockDB b blk) \<and>
    (\<forall>k. k \<noteq> D @ objID @ theID @ PutUint32 (blk_BlockID blk) @ [blk_SubBlockID blk] \<longrightarrow> ldb_view db' k = ldb_view db k)"
proof -
  have "Block_MarshalKey D (SetBlockDB b blk) = Ret (D @ objID @ theID @ PutUint32 (blk_BlockID blk) @ [blk_SubBlockID blk])"
    using assms(2,3) by (simp add: Block_MarshalKey_def SetBlockDB_def Block_SetDB_def)
  with assms(1) show ?thesis
    by (auto simp: Block_Save_def Ldb_Put_def stored_def ldb_view_def split: sum.splits option.splits prod.splits)
qed

definition verified :: "block_env \<Rightarrow> PttID \<Rightarrow> PttID \<Rightarrow> PttID \<Rightarrow> bytes list list \<Rightarrow> Block \<Rightarrow> bool" where
  "verified E creator objID theID hashs blk \<longleftrightarrow>
     blk_ObjID blk = Some objID \<and> blk_ID blk = Some theID \<and>
     (\<exists>hash. index2 hashs (unat (blk_BlockID blk)) (unat (blk_SubBlockID blk)) = Ret hash \<and> Block_Verify E hash creator blk = Ret ())"

lemma authentic_block_saved:
  assumes s: "Block_Save E (Some D) (SetBlockDB b blk) db = (r, db')" and b: "bi_objID b = Some objID" "bi_ID b = Some theID"
    and v: "verified E creator objID theID hashs blk"
  shows "r = Ret () \<Longrightarrow> authentic_block E creator D objID theID hashs db' (blk_BlockID blk) (blk_SubBlockID blk)"
    and "authentic_block E creator D objID theID hashs db i j \<Longrightarrow> authentic_block E creator D objID theID hashs db' i j"
proof -
  let ?k = "D @ objID @ theID @ PutUint32 (blk_BlockID blk) @ [blk_SubBlockID blk]"
  have blk: "SetBlockDB b blk = blk\<lparr>blk_V := CurrentVersion\<rparr>"
    using v b by (simp add: SetBlockDB_def Block_SetDB_def verified_def)
  have new: "authentic_block E creator D objID theID hashs db' (blk_BlockID blk) (blk_SubBlockID blk)"
    if "stored E db' ?k (SetBlockDB b blk)"
    using that v unfolding authentic_block_def verified_def blk by blast
  show "authentic_block E creator D objID theID hashs db' (blk_BlockID blk) (blk_SubBlockID blk)" if "r = Ret ()"
    using Block_Save_view [OF s b] that new by blast
  assume old: "authentic_block E creator D objID theID hashs db i j"
  show "authentic_block E creator D objID theID hashs db' i j"
  proof (cases "db' = db \<or> i = blk_BlockID blk \<and> j = blk_SubBlockID blk")
    case True
    then show ?thesis using Block_Save_view [OF s b] old new by auto
  next
    case False
    then have "ldb_view db' (D @ objID @ theID @ PutUint32 i @ [j]) = ldb_view db (D @ objID @ theID @ PutUint32 i @ [j])"
      using Block_Save_view [OF s b] place_key_inj by blast
    then show ?thesis using old by (simp add: authentic_block_def stored_def)
  qed
qed

lemma authentic_flag:
  assumes "SetIsGood (blk_BlockID blk) (blk_SubBlockID blk) True b = Ret b'" "authentic E creator D objID theID (b, db)"
    "authentic_block E creator D objID theID (bi_Hashs b) db (blk_BlockID blk) (blk_SubBlockID blk)"
  shows "authentic E creator D objID theID (b', db)"
  unfolding authentic_def
proof (intro allI impI)
  fix rows and i :: u32 and j :: byte assume g: "bi_IsGood (fst (b', db)) = Some rows" "index2 rows (unat i) (unat j) = Ret True"
  note same = SetIsGood_same [OF assms(1)]
  have "(unat i = unat (blk_BlockID blk) \<and> unat j = unat (blk_SubBlockID blk)) \<or>
      (\<exists>rows. bi_IsGood b = Some rows \<and> index2 rows (unat i) (unat j) = Ret True)" using same g by auto
  then have "authentic_block E creator D objID theID (bi_Hashs b) db i j"
    using assms(2,3) unfolding authentic_def by (auto simp: word_unat_eq_iff [symmetric])
  then show "authentic_block E creator D objID theID (bi_Hashs (fst (b', db))) (snd (b', db)) i j"
    using same by (simp add: same_info_def)
qed

lemma save_authentic:
  assumes "bi_db b = Some D" "bi_objID b = Some objID" "bi_ID b = Some theID"
    and "\<forall>blk \<in> set bs. verified E creator objID theID (bi_Hashs b) blk"
    and "authentic E creator D objID theID (b, db)" "saveBlocks E bs saved (b, db) = (r, b', db')"
  shows "authentic E creator D objID theID (b', db') \<and> same_info b b'"
  using assms
proof (induction bs arbitrary: b db saved)
  case (Cons blk bs)
  obtain r1 db1 where s: "Block_Save E (Some D) (SetBlockDB b blk) db = (r1, db1)" by fastforce
  have v: "verified E creator objID theID (bi_Hashs b) blk" using Cons.prems(4) by simp
  note w = authentic_block_saved [OF s Cons.prems(2,3) v]
  have kept: "authentic E creator D objID theID (b, db1)" using Cons.prems(5) w(2) by (auto simp: authentic_def)
  show ?case
  proof (cases "r1 = Ret ()")
    case True
    show ?thesis
    proof (cases "SetIsGood (blk_BlockID blk) (blk_SubBlockID blk) True b")
      case (Ret b1)
      have same: "same_info b b1" using SetIsGood_same [OF Ret] by blast
      have "authentic E creator D objID theID (b1, db1)" using authentic_flag [OF Ret kept] w(1) True by simp
      moreover have "bi_db b1 = Some D" "bi_objID b1 = Some objID" "bi_ID b1 = Some theID" "bi_Hashs b1 = bi_Hashs b"
        using same Cons.prems(1-3) by (simp_all add: same_info_def)
      moreover have "saveBlocks E bs True (b1, db1) = (r, b', db')" using Cons.prems(1,6) s True Ret by simp
      ultimately have "authentic E creator D objID theID (b', db') \<and> same_info b1 b'"
        using Cons.IH [of b1 db1 True] Cons.prems(4) by simp
      then show ?thesis using same same_info_simps(2) by blast
    qed (use Cons.prems(1,6) s True kept in auto)
  next
    case False
    then have "saveBlocks E bs saved (b, db1) = (r, b', db') \<or> b' = b \<and> db' = db1"
      using Cons.prems(1,6) s by (cases r1) auto
    then show ?thesis using Cons.IH [of b db1 saved] Cons.prems(1-4) kept by auto
  qed
qed simp

lemma receive_authentic:
  assumes "bi_db b = Some D" "bi_objID b = Some objID" "bi_ID b = Some theID"
    and bs: "\<forall>blk \<in> set bs. blk_ObjID blk = Some objID \<and> blk_ID blk = Some theID"
    and a: "authentic E creator D objID theID (b, db)" and run: "receive_blocks E creator bs (b, db) = (r, b', db')"
  shows "authentic E creator D objID theID (b', db') \<and> same_info b b'"
proof -
  obtain r1 b1 where s: "shrinkBlocks bs b = (r1, b1)" by fastforce
  note 1 = shrink_authentic [OF a s]
  show ?thesis
  proof (cases r1)
    case (Ret bs1)
    have sub: "set bs1 \<subseteq> set bs" using 1 Ret by blast
    have i: "bi_db b1 = Some D" "bi_objID b1 = Some objID" "bi_ID b1 = Some theID" using 1 assms(1-3) by (auto simp: same_info_def)
    show ?thesis
    proof (cases "bs1 = [] \<or> verifyBlocks E bs1 b1 creator \<noteq> Ret ()")
      case True
      then have "b' = b1 \<and> db' = db" using run s Ret by (auto simp: receive_blocks_def split: if_splits res.splits)
      then show ?thesis using 1 by simp
    next
      case False
      then have v: "\<forall>blk \<in> set bs1. verified E creator objID theID (bi_Hashs b1) blk"
        using verify_all [of E bs1 b1 creator] bs sub unfolding verified_def by blast
      have "saveBlocks E bs1 False (b1, db) = (r, b', db')" using run s Ret False by (simp add: receive_blocks_def)
      from save_authentic [OF i v conjunct1 [OF 1] this] show ?thesis using 1 same_info_simps(2) by blast
    qed
  qed (use run s 1 in \<open>auto simp: receive_blocks_def\<close>)
qed

text \<open>
  A message of a peer, as far as the block info of one object is concerned: the blocks are grouped, and the group
  of the block info is received.
\<close>

definition receive_message ::
  "block_env \<Rightarrow> PttID \<Rightarrow> PttID \<Rightarrow> PttID \<Rightarrow> Block list \<Rightarrow> BlockInfo \<times> LDBDatabase \<Rightarrow> bool res \<times> BlockInfo \<times> LDBDatabase" where
  "receive_message E creatorID objID theID blocks s =
     (case blocksToBlocksByIDsByObjs blocks of
        Ret byObjs \<Rightarrow>
          (case byObjs objID of
             None \<Rightarrow> (Ret False, s)
           | Some byIDs \<Rightarrow>
               (case byIDs theID of None \<Rightarrow> (Ret False, s) | Some bs \<Rightarrow> receive_blocks E creatorID bs s))
      | _ \<Rightarrow> (Panic, s))"

definition groups_ok :: "(PttID \<rightharpoonup> PttID \<rightharpoonup> Block list) \<Rightarrow> bool" where
  "groups_ok m \<longleftrightarrow> (\<forall>objID byIDs theID bs. m objID = Some byIDs \<longrightarrow> byIDs theID = Some bs \<longrightarrow>
     (\<forall>blk \<in> set bs. blk_ObjID blk = Some objID \<and> blk_ID blk = Some theID))"

lemma add_block_ok:
  "groups_ok m \<Longrightarrow> blk_ObjID blk = Some objID \<Longrightarrow> blk_ID blk = Some theID \<Longrightarrow> groups_ok (add_block m objID theID blk)"
  unfolding groups_ok_def add_block_def by (auto simp: Let_def split: if_splits option.splits dest!: sym [of "Some _"])

lemma group_blocks_ok: "groups_ok m \<Longrightarrow> group_blocks bs m = Ret m' \<Longrightarrow> groups_ok m'"
  by (induction bs m rule: group_blocks.induct) (auto split: option.splits intro: add_block_ok)

lemma message_authentic:
  assumes "bi_db b = Some D" "bi_objID b = Some objID" "bi_ID b = Some theID"
    and a: "authentic E creator D objID theID (b, db)"
  shows "receive_message E creator objID theID blocks (b, db) = (r, b', db') \<Longrightarrow>
    authentic E creator D objID theID (b', db') \<and> same_info b b'"
proof -
  assume run: "receive_message E creator objID theID blocks (b, db) = (r, b', db')"
  show ?thesis
  proof (cases "b' = b \<and> db' = db")
    case False
    then obtain m byIDs bs where m: "blocksToBlocksByIDsByObjs blocks = Ret m" "m objID = Some byIDs" "byIDs theID = Some bs"
      "receive_blocks E creator bs (b, db) = (r, b', db')"
      using run by (auto simp: receive_message_def split: res.splits option.splits)
    have "groups_ok m" using group_blocks_ok [of Map.empty blocks m] m(1) by (simp add: blocksToBlocksByIDsByObjs_def groups_ok_def)
    then have "\<forall>blk \<in> set bs. blk_ObjID blk = Some objID \<and> blk_ID blk = Some theID" using m(2,3) unfolding groups_ok_def by blast
    from receive_authentic [OF assms(1-3) this a m(4)] show ?thesis .
  qed (use a in simp)
qed

text \<open>
  C7: Whatever peers send, on a disk that may fail at any write: a block that a node marks as arrived is stored there, its
  content has the hash the block info expects, and it is signed with a key of the content's creator. The messages are
  arbitrary lists of blocks, handled one after the other.
\<close>

theorem received_blocks_authentic:
  assumes "bi_IsGood b = Some rows" "bi_Hashs b = hashs"
    and "fold (\<lambda>blocks s. snd (receive_message E creator objID theID blocks s)) messages
        (BlockInfo_SetDB D (Some objID) (NewBlockInfo (Some theID) hashs mediaIDs creator), db) = (b, db')"
    and "index2 rows (unat i) (unat j) = Ret True"
  shows "\<exists>blk hash. index2 hashs (unat i) (unat j) = Ret hash \<and> blk_BlockID blk = i \<and> blk_SubBlockID blk = j \<and>
    blk_ObjID blk = Some objID \<and> blk_ID blk = Some theID \<and> Block_Verify E hash creator blk = Ret () \<and>
    stored E db' (D @ objID @ theID @ PutUint32 i @ [j]) (blk\<lparr>blk_V := CurrentVersion\<rparr>)"
proof -
  let ?step = "\<lambda>blocks s. snd (receive_message E creator objID theID blocks s)"
  let ?inv = "\<lambda>s. authentic E creator D objID theID s \<and> bi_db (fst s) = Some D \<and> bi_objID (fst s) = Some objID \<and> bi_ID (fst s) = Some theID"
  have step: "?inv (?step blocks s)" if "?inv s" for blocks s
  proof -
    obtain r b' db' where "receive_message E creator objID theID blocks s = (r, b', db')" by (metis prod.exhaust)
    moreover obtain b0 db0 where "s = (b0, db0)" by fastforce
    ultimately show ?thesis
      using that message_authentic [of b0 D objID theID E creator db0 blocks r b' db'] by (auto simp: same_info_def)
  qed
  let ?s = "(BlockInfo_SetDB D (Some objID) (NewBlockInfo (Some theID) hashs mediaIDs creator), db)"
  have "?inv ?s" by (auto simp: BlockInfo_SetDB_def NewBlockInfo_def Let_def intro!: authentic_fresh)
  moreover have "?inv (fold ?step messages s)" if "?inv s" for s
    using that
  proof (induction messages arbitrary: s)
    case (Cons m ms)
    from Cons.IH [OF step [OF Cons.prems, of m]] show ?case by simp
  qed simp
  ultimately have "?inv (fold ?step messages ?s)" by blast
  then have "authentic E creator D objID theID (b, db')" unfolding assms(3) by blast
  then have "authentic_block E creator D objID theID hashs db' i j" using assms(1,2,4) by (simp add: authentic_def)
  then show ?thesis by (simp only: authentic_block_def)
qed

subsection \<open>Concrete libraries\<close>

text \<open>
  A block has a number, and so has a list of byte strings; a code that repeats the data shards stands for the
  Reed-Solomon code.
\<close>

instance Block_ext :: (countable) countable
  by (rule countable_classI [of "\<lambda>k. to_nat ((blk_V k, blk_ID k, blk_BlockID k, blk_SubBlockID k, blk_Buf k, blk_ObjID k),
      (blk_Hash k, blk_Salt k, blk_Sig k, blk_Pub k, blk_KeyExtra k), Block.more k)"])
    (simp add: Block.equality)

definition repeat_code :: reed_solomon where
  "repeat_code =
     \<lparr>rs_Encode = \<lambda>ss. Ret (take 2 ss @ take 2 ss),
      rs_Reconstruct = \<lambda>ss. Ret (map (case_option [] id) (drop 2 ss) @ map (case_option [] id) (drop 2 ss))\<rparr>"

definition counting_blocks :: block_env where
  "counting_blocks =
     \<lparr>be_ecc = example_ecc, be_enc = \<lambda>b. Inr (replicate (to_nat b) 0), be_dec = \<lambda>m _. Some (from_nat (length m)),
      be_bufs_enc = \<lambda>bufs. Inr (replicate (to_nat bufs) 0 @ [1]), be_bufs_dec = \<lambda>m. Some (from_nat (length m - 1)),
      be_rs_New = \<lambda>_ _. Ret repeat_code\<rparr>"

lemma counting_blocks_ok: "block_env_ok counting_blocks"
proof -
  have "rs_code_ok repeat_code" unfolding rs_code_ok_def
  proof (intro allI impI)
    fix n and d1 d2 :: bytes assume "length d1 = n" "length d2 = n"
    then show "\<exists>p1 p2. length p1 = n \<and> length p2 = n \<and>
        rs_Encode repeat_code [d1, d2, replicate n 0, replicate n 0] = Ret [d1, d2, p1, p2] \<and>
        rs_Reconstruct repeat_code [None, None, Some p1, Some p2] = Ret [d1, d2, p1, p2]"
      by (intro exI [of _ d1] exI [of _ d2]) (simp add: repeat_code_def numeral_2_eq_2)
  qed
  then show ?thesis by (simp add: block_env_ok_def bufs_codec_ok_def block_codec_ok_def counting_blocks_def)
qed

definition example_signer :: signer where
  "example_signer =
     \<lparr>sg_ID = example_doer, sg_NodeSignID = example_doer, sg_myKey = example_scalar, sg_nodeKey = example_scalar,
      sg_signKeyInfo = example_key, sg_nodeSignKeyInfo = example_key, sg_clock = \<lambda>_. Ret ZeroTimestamp,
      sg_salts = \<lambda>_. Ret (replicate 32 0), sg_tick = 0, sg_draw = 0\<rparr>"

lemma example_signer_ok:
  "signer_ok (be_ecc counting_blocks) example_signer" "signing_total (be_ecc counting_blocks)" "sg_ID example_signer = example_doer"
  using example_ecc_ok example_scalar_ok example_doer_owner example_key_usable
  by (simp_all add: signer_ok_def counting_blocks_def example_signer_def SizeSalt_def signing_total_def) (simp add: example_ecc_def)

definition empty_db :: LDBDatabase where
  "empty_db = NewLDBDatabase (\<lambda>_ _. None) []"

lemma empty_db_ok: "quiet_db empty_db" "ldb_view empty_db k = None"
  by (simp_all add: empty_db_def NewLDBDatabase_def quiet_db_def no_fault_def ldb_ok_def ldb_view_def kv_sorted_def)

definition example_rand :: rand_read where
  "example_rand n = (replicate n 9, n, None)"

lemma example_rand_id: "NewPttID example_rand = Ret (Some (replicate SizePttID 9))"
  by (simp add: NewPttID_def example_rand_def)

theorem content_roundtrip_witness:
  "\<exists>hashs g' db' bi cbs.
    SplitContentBlocks counting_blocks example_rand [46] None (Some [7]) [[1], [2], [3]] (int 2) (example_signer, empty_db) =
      (Ret (Some (replicate SizePttID 9), hashs), g', db') \<and>
    SetIsAllGood (NewBlockInfo (Some (replicate SizePttID 9)) hashs None example_doer) = Ret bi \<and>
    fst (GetContentBlockList counting_blocks (BlockInfo_SetDB [46] (Some [7]) bi) 0 db') = Ret cbs \<and>
    concat (map cb_Buf cbs) = [[1], [2], [3]]"
proof -
  have "FullBlockDBPrefix [46] None = Ret [46]" "Suc (length [[1], [2], [3 :: byte]]) < 2 ^ 32" "block_prefix [46] [7] theID \<noteq> []" for theID
    by (simp_all add: FullBlockDBPrefix_def block_prefix_def)
  from content_roundtrip [OF counting_blocks_ok example_signer_ok(2,1) empty_db_ok(1) example_rand_id this, where n = 2 and mediaIDs = None]
  show ?thesis using empty_db_ok(2) example_signer_ok(3) by auto
qed

theorem media_roundtrip_witness:
  "\<exists>hashs g' db' bi.
    SplitMediaBlocks counting_blocks example_rand [46] (Some [7]) [1, 2, 3] (example_signer, empty_db) =
      (Ret (Some (replicate SizePttID 9), hashs), g', db') \<and>
    SetIsAllGood (NewBlockInfo (Some (replicate SizePttID 9)) hashs None example_doer) = Ret bi \<and>
    GetBuf counting_blocks [46] [7] (Some bi) db' = Ret [1, 2, 3]"
proof -
  have "length [1, 2, 3 :: byte] < 2 ^ 32" "block_prefix [46] [7] theID \<noteq> []" for theID by (simp_all add: block_prefix_def)
  from media_roundtrip [OF counting_blocks_ok example_signer_ok(2,1) empty_db_ok(1) example_rand_id this]
  show ?thesis using empty_db_ok(2) example_signer_ok(3) by simp
qed

theorem content_replicated_witness:
  "\<exists>hashs g' db' bi bs cbs b2 db2'.
    SplitContentBlocks counting_blocks example_rand [46] None (Some [7]) [[1], [2], [3]] (int 2) (example_signer, empty_db) =
      (Ret (Some (replicate SizePttID 9), hashs), g', db') \<and>
    SetIsAllGood (NewBlockInfo (Some (replicate SizePttID 9)) hashs None example_doer) = Ret bi \<and>
    fst (GetBlockList counting_blocks (BlockInfo_SetDB [46] (Some [7]) bi) 0 db') = Ret bs \<and>
    fst (GetContentBlockList counting_blocks (BlockInfo_SetDB [46] (Some [7]) bi) 0 db') = Ret cbs \<and>
    receive_all counting_blocks example_doer [rev bs, bs]
      (BlockInfo_SetDB [47] (Some [7]) (NewBlockInfo (Some (replicate SizePttID 9)) hashs None example_doer), empty_db) = (Ret (), b2, db2') \<and>
    fst (GetContentBlockList counting_blocks b2 0 db2') = Ret cbs"
proof -
  have p: "FullBlockDBPrefix [46] None = Ret [46]" "Suc (length [[1], [2], [3 :: byte]]) < 2 ^ 32" "block_prefix [46] [7] theID \<noteq> []"
    "block_prefix [47] [7] theID \<noteq> []" for theID
    by (simp_all add: FullBlockDBPrefix_def block_prefix_def)
  obtain hashs g' db' bi bs cbs where r: "SplitContentBlocks counting_blocks example_rand [46] None (Some [7]) [[1], [2], [3]] (int 2) (example_signer, empty_db) =
      (Ret (Some (replicate SizePttID 9), hashs), g', db')"
    "SetIsAllGood (NewBlockInfo (Some (replicate SizePttID 9)) hashs None example_doer) = Ret bi"
    "fst (GetBlockList counting_blocks (BlockInfo_SetDB [46] (Some [7]) bi) 0 db') = Ret bs"
    "fst (GetContentBlockList counting_blocks (BlockInfo_SetDB [46] (Some [7]) bi) 0 db') = Ret cbs"
    "\<forall>bss. set (concat bss) = set bs \<longrightarrow>
       (\<exists>b2 db2'. receive_all counting_blocks example_doer bss
            (BlockInfo_SetDB [47] (Some [7]) (NewBlockInfo (Some (replicate SizePttID 9)) hashs None example_doer), empty_db) = (Ret (), b2, db2') \<and>
          fst (GetIsAllGood b2) = Ret True \<and> fst (GetContentBlockList counting_blocks b2 0 db2') = Ret cbs)"
    using content_replicated [OF counting_blocks_ok example_signer_ok(2,1) empty_db_ok(1) empty_db_ok(1) example_rand_id p, where n = 2 and mediaIDs = None]
      empty_db_ok(2) example_signer_ok(3) by auto
  moreover have "set (concat [rev bs, bs]) = set bs" by simp
  ultimately show ?thesis by blast
qed

definition example_chunks :: "bytes list list" where
  "example_chunks = content_chunks (int 1) [[1]]"

lemma example_chunks_eq: "example_chunks = [[[1]]]"
  by (simp add: example_chunks_def content_chunks.simps)

lemma example_sent_block:
  "\<exists>hss blk. length hss = 1 \<and> length (hss ! 0) = 2 \<and>
    genuine counting_blocks example_doer [7] [9] 0 0 (hss ! 0 ! 0) (shard counting_blocks example_chunks 0 0) blk"
proof -
  have l: "length (content_chunks (int 1) [[1]]) < 2 ^ 32" using example_chunks_eq by (simp add: example_chunks_def)
  obtain hss g' db' where "content_at counting_blocks (sg_ID example_signer) [46] [7] [9] db' (content_chunks (int 1) [[1]]) hss"
    using content.cut_ok [OF counting_blocks_ok example_signer_ok(2,1) empty_db_ok(1) l empty_db_ok(2)] by blast
  then have c: "content_at counting_blocks example_doer [46] [7] [9] db' example_chunks hss"
    by (simp only: example_signer_ok(3) example_chunks_def)
  then have "length hss = 1" "length (hss ! 0) = 2" by (auto simp: content_at_def chunk_at_def example_chunks_eq)
  moreover obtain blk where "genuine counting_blocks example_doer [7] [9] 0 0 (hss ! 0 ! 0) (shard counting_blocks example_chunks 0 0) blk"
    using content_block [OF c, of 0 0] by (auto simp: example_chunks_eq)
  ultimately show ?thesis by blast
qed

theorem received_blocks_authentic_witness:
  "\<exists>hashs message b rows db' blk.
    fold (\<lambda>blocks s. snd (receive_message counting_blocks example_doer [7] [9] blocks s)) [message]
      (BlockInfo_SetDB [46] (Some [7]) (NewBlockInfo (Some [9]) hashs None example_doer), empty_db) = (b, db') \<and>
    bi_IsGood b = Some rows \<and> index2 rows 0 0 = Ret True \<and>
    stored counting_blocks db' ([46] @ [7] @ [9] @ PutUint32 0 @ [0]) (blk\<lparr>blk_V := CurrentVersion\<rparr>)"
proof -
  let ?cs = example_chunks
  have cs: "length ?cs = 1" by (simp add: example_chunks_eq)
  obtain hss blk where g: "length hss = 1" "length (hss ! 0) = 2"
    "genuine counting_blocks example_doer [7] [9] 0 0 (hss ! 0 ! 0) (shard counting_blocks ?cs 0 0) blk"
    using example_sent_block by blast
  let ?s = "(BlockInfo_SetDB [46] (Some [7]) (NewBlockInfo (Some [9]) hss None example_doer), empty_db)"
  have start: "recv_at counting_blocks example_doer [46] [7] [9] ?cs hss (\<lambda>_ _. False) ?s"
    using recv_start [OF empty_db_ok(1)] empty_db_ok(2) g(1) cs by simp
  have h: "length ?cs < 2 ^ 32" "length hss = length ?cs" "\<forall>i < length ?cs. length (hss ! i) = 2" using g(1,2) cs by simp_all
  have "sent_block counting_blocks example_doer [7] [9] ?cs hss blk"
    unfolding sent_block_def using g(3) cs by (intro exI [of _ "0 :: nat"] conjI) simp_all
  then have "\<forall>b \<in> set [blk]. sent_block counting_blocks example_doer [7] [9] ?cs hss b" by simp
  from receive_sent [OF block_env_okD(2) [OF counting_blocks_ok] h start this] obtain x G s where
    s: "receive_blocks counting_blocks example_doer [blk] ?s = (Ret x, s)" "recv_at counting_blocks example_doer [46] [7] [9] ?cs hss G s"
      "\<forall>i j. G i j \<longleftrightarrow> False \<or> (\<exists>y \<in> set [blk]. place_of y = (i, j))" by blast
  obtain b db' where p: "s = (b, db')" by fastforce
  note r = s [unfolded p]
  have "G 0 0" using r(3) genuine_place [OF g(3)] by simp
  then have rows: "bi_IsGood b = Some (grid 1 G)" "index2 (grid 1 G) (unat (0 :: u32)) (unat (0 :: byte)) = Ret True" "bi_Hashs b = hss"
    using recv_atD(2,3) [OF r(2)] cs by simp_all
  have "blk_ObjID blk = Some [7]" "blk_ID blk = Some [9]" using g(3) by (simp_all add: genuine_def)
  then have run: "fold (\<lambda>blocks s. snd (receive_message counting_blocks example_doer [7] [9] blocks s)) [[blk]] ?s = (b, db')"
    using r(1) by (simp add: receive_message_def blocksToBlocksByIDsByObjs_def add_block_def
        del: BlockInfo.update_convs)
  from received_blocks_authentic [OF rows(1,3) run rows(2)] obtain blk' where
    "stored counting_blocks db' ([46] @ [7] @ [9] @ PutUint32 0 @ [0]) (blk'\<lparr>blk_V := CurrentVersion\<rparr>)" by blast
  moreover have "index2 (grid 1 G) 0 0 = Ret True" using rows(2) by (simp only: unsigned_0)
  ultimately show ?thesis using run rows(1) by blast
qed

subsection \<open>Findings\<close>

text \<open>
  A block of a peer whose number is not that of a block of the content is not dropped: \<^verbatim>\<open>GetIsGood\<close> answers false, so
  \<^verbatim>\<open>shrinkBlocks\<close> keeps it, and \<^verbatim>\<open>verifyBlocks\<close> then indexes the hashes with it.
\<close>

lemma out_of_range_block_panics:
  assumes "bi_NBlock b = int n" "n < 2 ^ 32" "length (bi_Hashs b) = n" "n \<le> unat (blk_BlockID blk)"
  shows "fst (receive_blocks E creator [blk] (b, db)) = Panic"
proof -
  have "(of_nat n :: u32) \<le> blk_BlockID blk" using assms(2,4) by (simp add: word_le_nat_alt unat_of_nat)
  then have "GetIsGood (blk_BlockID blk) (blk_SubBlockID blk) b = (Ret False, b)" using assms(1) by (simp add: GetIsGood_def Let_def)
  then have "shrinkBlocks [blk] b = (Ret [blk], b)" by (simp add: st_bind_run)
  moreover have "verifyBlocks E [blk] b creator = Panic" using assms(3,4) by (simp add: index2_def)
  ultimately show ?thesis by (simp add: receive_blocks_def)
qed

text \<open>A block of a peer without an object or without an identifier is dereferenced.\<close>

lemma unidentified_block_panics:
  "blk_ID blk = None \<or> blk_ObjID blk = None \<Longrightarrow> blocksToBlocksByIDsByObjs (blk # blocks) = Panic"
  by (auto simp: blocksToBlocksByIDsByObjs_def split: option.split)

text \<open>
  \<^verbatim>\<open>BlockInfo.VerifyBlock\<close> hashes the block with its own hash and signature in place, where \<^verbatim>\<open>Block.Sign\<close>
  hashes it without them: only a block whose hash is the digest of a text that contains it passes.
\<close>

lemma VerifyBlock_hashes_hash:
  assumes "VerifyBlock E b blk = Ret True"
  shows "\<exists>m. be_enc E blk = Inr m \<and> Keccak256 (be_ecc E) (m @ blk_Salt blk) = blk_Hash blk"
proof -
  obtain m where m: "be_enc E blk = Inr m" using assms by (auto simp: VerifyBlock_def split: if_splits sum.splits)
  moreover have "VerifyData (be_ecc E) (m @ blk_Salt blk) (blk_Hash blk) (blk_Sig blk) (blk_Pub blk) (bi_UpdaterID b) (blk_KeyExtra blk) = Ret ()"
    using assms m by (auto simp: VerifyBlock_def split: if_splits res.splits)
  ultimately show ?thesis by (auto simp: VerifyData_def res_bind_eq_Ret Let_def split: if_splits)
qed

text \<open>The lists \<^verbatim>\<open>VerifyBlocks\<close> returns start with as many nil entries as there are blocks.\<close>

lemma VerifyBlocks_nil_entries:
  assumes "VerifyBlocks E b blocks = Ret (good, bad)"
  shows "take (length blocks) good = replicate (length blocks) None \<and> take (length blocks) bad = replicate (length blocks) None"
proof -
  have "VerifyBlocks_loop E b bs g d = Ret (good, bad) \<Longrightarrow> take (length g) good = g \<and> take (length d) bad = d" for bs g d
  proof (induction bs arbitrary: g d)
    case (Cons blk bs)
    obtain x where x: "VerifyBlock E b blk = Ret x" using Cons.prems by (auto simp: res_bind_eq_Ret)
    show ?case
    proof (cases x)
      case True
      then have r: "VerifyBlocks_loop E b bs (g @ [Some blk]) d = Ret (good, bad)" using Cons.prems x by simp
      have "take (length g) good = take (length g) (take (length (g @ [Some blk])) good)" by simp
      with Cons.IH [OF r] show ?thesis by simp
    next
      case False
      then have r: "VerifyBlocks_loop E b bs g (d @ [Some blk]) = Ret (good, bad)" using Cons.prems x by simp
      have "take (length d) bad = take (length d) (take (length (d @ [Some blk])) bad)" by simp
      with Cons.IH [OF r] show ?thesis by simp
    qed
  qed auto
  from this [of blocks "replicate (length blocks) None" "replicate (length blocks) None"] assms show ?thesis by (simp add: VerifyBlocks_def)
qed

end
