(* ===== verification/Net_Addrs.thy ===== *)
theory Net_Addrs
  imports Prelude "HOL-Library.AList" "HOL-Library.Multiset"
begin

text \<open>
  \<^verbatim>\<open>p2p/netutil/net.go\<close>: lists of networks, the rules for relayed addresses, common prefixes of
  addresses, and the set that admits a bounded number of addresses of a subnet. The methods of
  \<^verbatim>\<open>net.IP\<close> and \<^verbatim>\<open>net.IPNet\<close> the file calls are those of Go's library. An address is its byte string: 4
  bytes, 16 bytes, or none for \<^verbatim>\<open>nil\<close>.

  The locale \<open>address_counter\<close> is the contract of the bounded set, as the discovery table relies on it.
\<close>

unbundle bit_operations_syntax

subsection \<open>The library's addresses\<close>

type_synonym IP = bytes

definition v4InV6Prefix :: bytes where
  "v4InV6Prefix = replicate 10 0 @ [255, 255]"

definition To4 :: "IP \<Rightarrow> IP option" where
  "To4 ip =
     (if length ip = 4 then Some ip
      else if length ip = 16 \<and> take 12 ip = v4InV6Prefix then Some (drop 12 ip)
      else None)"

definition To16 :: "IP \<Rightarrow> IP option" where
  "To16 ip =
     (if length ip = 4 then Some (v4InV6Prefix @ ip)
      else if length ip = 16 then Some ip
      else None)"

definition IP_Equal :: "IP \<Rightarrow> IP \<Rightarrow> bool" where
  "IP_Equal ip x =
     (if length ip = length x then ip = x
      else if length ip = 4 \<and> length x = 16 then take 12 x = v4InV6Prefix \<and> ip = drop 12 x
      else if length ip = 16 \<and> length x = 4 then take 12 ip = v4InV6Prefix \<and> drop 12 ip = x
      else False)"

definition IsUnspecified :: "IP \<Rightarrow> bool" where
  "IsUnspecified ip \<longleftrightarrow> IP_Equal ip (v4InV6Prefix @ [0, 0, 0, 0]) \<or> IP_Equal ip (replicate 16 0)"

definition IsLoopback :: "IP \<Rightarrow> bool" where
  "IsLoopback ip =
     (case To4 ip of
        Some ip4 \<Rightarrow> ip4 ! 0 = 127
      | None \<Rightarrow> IP_Equal ip (replicate 15 0 @ [1]))"

definition IsMulticast :: "IP \<Rightarrow> bool" where
  "IsMulticast ip =
     (case To4 ip of
        Some ip4 \<Rightarrow> ip4 ! 0 AND 240 = 224
      | None \<Rightarrow> length ip = 16 \<and> ip ! 0 = 255)"

record IPNet =
  net_IP :: IP
  net_Mask :: bytes

definition CIDRMask :: "nat \<Rightarrow> nat \<Rightarrow> bytes" where
  "CIDRMask ones len =
     map (\<lambda>i. if 8 * (i + 1) \<le> ones then 255
              else if 8 * i < ones then NOT (drop_bit (ones - 8 * i) 255)
              else 0) [0..<len]"

text \<open>\<^verbatim>\<open>net.ParseCIDR("a/n")\<close>, where \<^verbatim>\<open>a\<close> has been read as \<open>ip\<close>.\<close>

definition cidr :: "IP \<Rightarrow> nat \<Rightarrow> IPNet" where
  "cidr ip n = \<lparr>net_IP = map2 (AND) ip (CIDRMask n (length ip)), net_Mask = CIDRMask n (length ip)\<rparr>"

definition IPNet_Contains :: "IPNet \<Rightarrow> IP \<Rightarrow> bool" where
  "IPNet_Contains n ip0 =
     (let ip = (case To4 ip0 of Some x \<Rightarrow> x | None \<Rightarrow> ip0)
      in length ip = length (net_IP n)
         \<and> (\<forall>i < length ip. net_IP n ! i AND net_Mask n ! i = ip ! i AND net_Mask n ! i))"

subsection \<open>Lists of networks\<close>

type_synonym Netlist = "IPNet list"

definition Netlist_Contains :: "Netlist option \<Rightarrow> IP \<Rightarrow> bool" where
  "Netlist_Contains l ip =
     (case l of None \<Rightarrow> False | Some nets \<Rightarrow> list_ex (\<lambda>net. IPNet_Contains net ip) nets)"

definition v6 :: "bytes \<Rightarrow> IP" where
  "v6 pre = pre @ replicate (16 - length pre) 0"

definition lan4 :: Netlist where
  "lan4 = [cidr [0, 0, 0, 0] 8, cidr [10, 0, 0, 0] 8, cidr [172, 16, 0, 0] 12, cidr [192, 168, 0, 0] 16]"

definition lan6 :: Netlist where
  "lan6 = [cidr (v6 [0xfe, 0x80]) 10, cidr (v6 [0xfc]) 7]"

definition special4 :: Netlist where
  "special4 =
     [cidr [192, 0, 0, 0] 29, cidr [192, 0, 0, 9] 32, cidr [192, 0, 0, 170] 32, cidr [192, 0, 0, 171] 32,
      cidr [192, 0, 2, 0] 24, cidr [192, 31, 196, 0] 24, cidr [192, 52, 193, 0] 24,
      cidr [192, 88, 99, 0] 24, cidr [192, 175, 48, 0] 24, cidr [198, 18, 0, 0] 15,
      cidr [198, 51, 100, 0] 24, cidr [203, 0, 113, 0] 24, cidr [255, 255, 255, 255] 32]"

definition special6 :: Netlist where
  "special6 =
     [cidr (v6 [0x01]) 64, cidr (v6 [0x20, 0x01]) 32,
      cidr ([0x20, 0x01, 0, 1] @ replicate 10 0 @ [0, 1]) 128, cidr (v6 [0x20, 0x01, 0, 2]) 48,
      cidr (v6 [0x20, 0x01, 0, 3]) 32, cidr (v6 [0x20, 0x01, 0, 4, 0x01, 0x12]) 48,
      cidr (v6 [0x20, 0x01, 0, 5]) 32, cidr (v6 [0x20, 0x01, 0, 0x10]) 28,
      cidr (v6 [0x20, 0x01, 0, 0x20]) 28, cidr (v6 [0x20, 0x01, 0x0d, 0xb8]) 32, cidr (v6 [0x20, 0x02]) 16]"

definition IsLAN :: "IP \<Rightarrow> bool" where
  "IsLAN ip =
     (if IsLoopback ip then True
      else case To4 ip of
             Some v4 \<Rightarrow> Netlist_Contains (Some lan4) v4
           | None \<Rightarrow> Netlist_Contains (Some lan6) ip)"

definition IsSpecialNetwork :: "IP \<Rightarrow> bool" where
  "IsSpecialNetwork ip =
     (if IsMulticast ip then True
      else case To4 ip of
             Some v4 \<Rightarrow> Netlist_Contains (Some special4) v4
           | None \<Rightarrow> Netlist_Contains (Some special6) ip)"

datatype relay_error = errInvalid | errUnspecified | errSpecial | errLoopback | errLAN

definition CheckRelayIP :: "IP \<Rightarrow> IP \<Rightarrow> relay_error option" where
  "CheckRelayIP sender addr =
     (if length addr \<noteq> 4 \<and> length addr \<noteq> 16 then Some errInvalid
      else if IsUnspecified addr then Some errUnspecified
      else if IsSpecialNetwork addr then Some errSpecial
      else if IsLoopback addr \<and> \<not> IsLoopback sender then Some errLoopback
      else if IsLAN addr \<and> \<not> IsLAN sender then Some errLAN
      else None)"

subsection \<open>Common prefixes\<close>

definition net_mask :: "nat \<Rightarrow> byte" where
  "net_mask bits = NOT (drop_bit (bits mod 8) 255)"

definition sameNet :: "nat \<Rightarrow> IP \<Rightarrow> IP \<Rightarrow> bool res" where
  "sameNet bits ip other =
     (let nb = bits div 8;
          mask = net_mask bits
      in if mask \<noteq> 0 \<and> nb < length ip \<and> length other \<le> nb then Panic
         else if mask \<noteq> 0 \<and> nb < length ip \<and> ip ! nb AND mask \<noteq> other ! nb AND mask then Ret False
         else if nb \<le> length ip
         then (if nb \<le> length other then Ret (take nb ip = take nb other) else Panic)
         else Ret False)"

definition SameNet :: "nat \<Rightarrow> IP \<Rightarrow> IP \<Rightarrow> bool res" where
  "SameNet bits ip other =
     (case (To4 ip, To4 other) of
        (Some ip4, Some other4) \<Rightarrow> sameNet bits ip4 other4
      | (None, None) \<Rightarrow>
          sameNet bits (case To16 ip of Some x \<Rightarrow> x | None \<Rightarrow> []) (case To16 other of Some x \<Rightarrow> x | None \<Rightarrow> [])
      | _ \<Rightarrow> Ret False)"

subsection \<open>The bounded set\<close>

record DistinctNetSet =
  Subnet :: nat
  Limit :: u64
  members :: "(bytes \<times> u64) list"

text \<open>The key of an address is a function of the set's \<^verbatim>\<open>Subnet\<close> alone.\<close>

definition subnet_key :: "nat \<Rightarrow> IP \<Rightarrow> bytes" where
  "subnet_key subnet ip0 =
     (let (typ, ip) = (case To4 ip0 of Some ip4 \<Rightarrow> (0x34, ip4) | None \<Rightarrow> (0x36, ip0));
          bits = (if subnet > length ip * 8 then length ip * 8 else subnet);
          nb = bits div 8;
          mask = net_mask bits;
          buf = typ # take nb ip
      in if nb < length ip \<and> mask \<noteq> 0 then buf @ [ip ! nb AND mask] else buf)"

definition DistinctNetSet_key :: "DistinctNetSet \<Rightarrow> IP \<Rightarrow> bytes" where
  "DistinctNetSet_key s = subnet_key (Subnet s)"

definition DistinctNetSet_Add :: "IP \<Rightarrow> DistinctNetSet \<Rightarrow> bool \<times> DistinctNetSet" where
  "DistinctNetSet_Add ip s =
     (let key = DistinctNetSet_key s ip;
          n = (case map_of (members s) key of Some n \<Rightarrow> n | None \<Rightarrow> 0)
      in if n < Limit s then (True, s\<lparr>members := AList.update key (n + 1) (members s)\<rparr>)
         else (False, s))"

definition DistinctNetSet_Remove :: "IP \<Rightarrow> DistinctNetSet \<Rightarrow> DistinctNetSet" where
  "DistinctNetSet_Remove ip s =
     (let key = DistinctNetSet_key s ip
      in case map_of (members s) key of
           None \<Rightarrow> s
         | Some n \<Rightarrow>
             if n = 1 then s\<lparr>members := AList.delete key (members s)\<rparr>
             else s\<lparr>members := AList.update key (n - 1) (members s)\<rparr>)"

definition DistinctNetSet_Contains :: "DistinctNetSet \<Rightarrow> IP \<Rightarrow> bool" where
  "DistinctNetSet_Contains s ip = (map_of (members s) (DistinctNetSet_key s ip) \<noteq> None)"

definition DistinctNetSet_Len :: "DistinctNetSet \<Rightarrow> u64" where
  "DistinctNetSet_Len s = sum_list (map snd (members s))"

text \<open>How many addresses of the subnet with key \<open>k\<close> the set counts.\<close>

definition counted :: "DistinctNetSet \<Rightarrow> bytes \<Rightarrow> nat" where
  "counted s k = (case map_of (members s) k of Some n \<Rightarrow> unat n | None \<Rightarrow> 0)"

definition net_set_ok :: "nat \<Rightarrow> nat \<Rightarrow> DistinctNetSet \<Rightarrow> bool" where
  "net_set_ok subnet limit s \<longleftrightarrow>
     Subnet s = subnet \<and> unat (Limit s) = limit \<and> distinct (map fst (members s))
     \<and> (\<forall>(k, n) \<in> set (members s). 0 < n \<and> n \<le> Limit s)"

text \<open>The bits of an address, the most significant bit of the first byte first.\<close>

definition byte_bits :: "byte \<Rightarrow> bool list" where
  "byte_bits b = map (\<lambda>i. bit b (7 - i)) [0..<8]"

definition ip_bits :: "IP \<Rightarrow> bool list" where
  "ip_bits ip = concat (map byte_bits ip)"

text \<open>The addresses a network interface can have.\<close>

definition ip_ok :: "IP \<Rightarrow> bool" where
  "ip_ok ip \<longleftrightarrow> length ip = 4 \<or> length ip = 16"

text \<open>The family of an address and its significant bits.\<close>

definition family_bits :: "IP \<Rightarrow> bool \<times> bool list" where
  "family_bits ip = (case To4 ip of Some ip4 \<Rightarrow> (True, ip_bits ip4) | None \<Rightarrow> (False, ip_bits ip))"

definition same_subnet :: "nat \<Rightarrow> IP \<Rightarrow> IP \<Rightarrow> bool" where
  "same_subnet bits ip other \<longleftrightarrow>
     fst (family_bits ip) = fst (family_bits other)
     \<and> take bits (snd (family_bits ip)) = take bits (snd (family_bits other))"

text \<open>The key without the byte of the family.\<close>

definition prefix_key :: "nat \<Rightarrow> bytes \<Rightarrow> bytes" where
  "prefix_key bits ip =
     take (bits div 8) ip @ (if bits div 8 < length ip \<and> net_mask bits \<noteq> 0 then [ip ! (bits div 8) AND net_mask bits] else [])"

subsection \<open>The contract of the bounded set\<close>

text \<open>
  \<open>add\<close> admits an address while fewer than \<open>limit\<close> of its class are counted; \<open>remove\<close> undoes one \<open>add\<close>.
  What a client needs is that a set whose counts are at least those of the addresses it holds keeps
  being so, and that it then holds at most \<open>limit\<close> of a class.
\<close>

locale address_counter =
  fixes add :: "'ip \<Rightarrow> 's \<Rightarrow> bool \<times> 's"
    and remove :: "'ip \<Rightarrow> 's \<Rightarrow> 's"
    and class_of :: "'ip \<Rightarrow> 'k"
    and cnt :: "'s \<Rightarrow> 'k \<Rightarrow> nat"
    and ok :: "'s \<Rightarrow> bool"
    and limit :: nat
  assumes add_full: "ok s \<Longrightarrow> limit \<le> cnt s (class_of ip) \<Longrightarrow> add ip s = (False, s)"
    and add_room: "ok s \<Longrightarrow> cnt s (class_of ip) < limit \<Longrightarrow>
        \<exists>s'. add ip s = (True, s') \<and> ok s'
             \<and> (\<forall>k. cnt s' k = (if k = class_of ip then Suc (cnt s k) else cnt s k))"
    and remove_cnt: "ok s \<Longrightarrow> ok (remove ip s)
        \<and> (\<forall>k. cnt (remove ip s) k = (if k = class_of ip then cnt s k - 1 else cnt s k))"
    and cnt_limit: "ok s \<Longrightarrow> cnt s k \<le> limit"
begin

definition tracks :: "'s \<Rightarrow> 'ip list \<Rightarrow> bool" where
  "tracks s ips \<longleftrightarrow> ok s \<and> (\<forall>k. length (filter (\<lambda>ip. class_of ip = k) ips) \<le> cnt s k)"

lemma tracks_okD: "tracks s ips \<Longrightarrow> ok s"
  by (simp add: tracks_def)

lemma tracks_add:
  assumes "tracks s ips" "add ip s = (True, s')"
  shows "tracks s' (ip # ips)"
proof -
  have room: "cnt s (class_of ip) < limit"
  proof (rule ccontr)
    assume "\<not> ?thesis"
    with assms show False using add_full [of s ip] by (auto simp: tracks_def)
  qed
  show ?thesis using add_room [OF tracks_okD [OF assms(1)] room] assms by (auto simp: tracks_def)
qed

lemma tracks_refused:
  assumes "tracks s ips" "add ip s = (False, s')"
  shows "s' = s" "cnt s (class_of ip) = limit"
proof -
  have full: "limit \<le> cnt s (class_of ip)"
  proof (rule ccontr)
    assume "\<not> ?thesis"
    then obtain s1 where "add ip s = (True, s1)" using add_room [OF tracks_okD [OF assms(1)], of ip] by auto
    with assms(2) show False by simp
  qed
  show "s' = s" using add_full [OF tracks_okD [OF assms(1)] full] assms(2) by simp
  show "cnt s (class_of ip) = limit" using full cnt_limit [OF tracks_okD [OF assms(1)]] le_antisym by blast
qed

lemma tracks_remove:
  assumes "tracks s (ip # ips)"
  shows "tracks (remove ip s) ips"
proof -
  have "length (filter (\<lambda>x. class_of x = k) ips) \<le> cnt (remove ip s) k" for k
  proof -
    have "length (filter (\<lambda>x. class_of x = k) (ip # ips)) \<le> cnt s k" using assms by (simp only: tracks_def)
    then show ?thesis using remove_cnt [OF tracks_okD [OF assms], of ip] by (auto split: if_splits)
  qed
  then show ?thesis using remove_cnt [OF tracks_okD [OF assms], of ip] by (simp add: tracks_def)
qed

lemma tracks_sub:
  assumes "tracks s ips" "\<And>k. length (filter (\<lambda>x. class_of x = k) ips') \<le> length (filter (\<lambda>x. class_of x = k) ips)"
  shows "tracks s ips'"
  unfolding tracks_def using assms(1) assms(2) le_trans tracks_def by blast

lemma tracks_mset:
  assumes "tracks s ips" "mset ips' \<subseteq># mset ips"
  shows "tracks s ips'"
proof (rule tracks_sub [OF assms(1)])
  fix k
  have "filter_mset (\<lambda>x. class_of x = k) (mset ips') \<subseteq># filter_mset (\<lambda>x. class_of x = k) (mset ips)"
    using assms(2) by (rule multiset_filter_mono)
  then show "length (filter (\<lambda>x. class_of x = k) ips') \<le> length (filter (\<lambda>x. class_of x = k) ips)"
    using size_mset_mono by (fastforce simp flip: mset_filter size_mset)
qed

lemma tracks_limit: "tracks s ips \<Longrightarrow> length (filter (\<lambda>ip. class_of ip = k) ips) \<le> limit"
  using cnt_limit le_trans unfolding tracks_def by blast

end

lemma net_set_Remove_Subnet [simp]: "Subnet (DistinctNetSet_Remove ip s) = Subnet s"
  by (simp add: DistinctNetSet_Remove_def Let_def split: option.split)

lemma counted_bounds:
  assumes "net_set_ok subnet limit s" "map_of (members s) k = Some n"
  shows "0 < n" "n \<le> Limit s"
  using assms map_of_SomeD [OF assms(2)] unfolding net_set_ok_def by auto

lemma counted_limit:
  assumes "net_set_ok subnet limit s"
  shows "counted s k \<le> limit"
  using assms counted_bounds [OF assms]
  by (auto simp: counted_def net_set_ok_def word_le_nat_alt split: option.split)

lemma net_set_update_ok:
  assumes "net_set_ok subnet limit s" "0 < n" "n \<le> Limit s"
  shows "net_set_ok subnet limit (s\<lparr>members := AList.update k n (members s)\<rparr>)"
proof -
  have "set (AList.update k n xs) \<subseteq> insert (k, n) (set xs)" for xs :: "(bytes \<times> u64) list"
    by (induction xs) auto
  from this [of "members s"] show ?thesis using assms by (auto simp: net_set_ok_def distinct_update)
qed

lemma net_set_delete_ok:
  assumes "net_set_ok subnet limit s"
  shows "net_set_ok subnet limit (s\<lparr>members := AList.delete k (members s)\<rparr>)"
  using assms by (auto simp: net_set_ok_def distinct_delete) (auto simp: AList.delete_eq)

lemma counted_update: "counted (s\<lparr>members := AList.update k n (members s)\<rparr>) k' = (if k' = k then unat n else counted s k')"
  by (simp add: counted_def update_conv')

lemma counted_delete: "counted (s\<lparr>members := AList.delete k (members s)\<rparr>) k' = (if k' = k then 0 else counted s k')"
  by (simp add: counted_def delete_conv')

lemma unat_next: "n < (m :: u64) \<Longrightarrow> unat (n + 1) = Suc (unat n)"
  using unat_u64_bound [of m] by (simp add: word_less_nat_alt unat_word_ariths(1))

lemma net_set_add_full:
  assumes ok: "net_set_ok subnet limit s" and full: "limit \<le> counted s (subnet_key subnet ip)"
  shows "DistinctNetSet_Add ip s = (False, s)"
proof -
  have "\<not> (case map_of (members s) (subnet_key subnet ip) of Some n \<Rightarrow> n | None \<Rightarrow> 0) < Limit s"
    using ok full
    by (cases "map_of (members s) (subnet_key subnet ip)") (auto simp: counted_def net_set_ok_def word_less_nat_alt)
  then show ?thesis using ok by (simp add: DistinctNetSet_Add_def DistinctNetSet_key_def net_set_ok_def Let_def)
qed

lemma net_set_add_room:
  assumes ok: "net_set_ok subnet limit s" and room: "counted s (subnet_key subnet ip) < limit"
  shows "\<exists>s'. DistinctNetSet_Add ip s = (True, s') \<and> net_set_ok subnet limit s'
    \<and> (\<forall>k. counted s' k = (if k = subnet_key subnet ip then Suc (counted s k) else counted s k))"
proof -
  define key where "key = subnet_key subnet ip"
  define n where "n = (case map_of (members s) key of Some n \<Rightarrow> n | None \<Rightarrow> 0)"
  have n: "unat n = counted s key" by (simp add: n_def counted_def split: option.split)
  have less: "n < Limit s" using ok room n by (simp add: key_def net_set_ok_def word_less_nat_alt)
  define s' where "s' = s\<lparr>members := AList.update key (n + 1) (members s)\<rparr>"
  have "DistinctNetSet_Add ip s = (True, s')"
    using ok less by (simp add: DistinctNetSet_Add_def DistinctNetSet_key_def net_set_ok_def s'_def n_def key_def Let_def)
  moreover have "net_set_ok subnet limit s'" unfolding s'_def
  proof (rule net_set_update_ok [OF ok])
    show "0 < n + 1" using unat_next [OF less] by (simp add: word_less_nat_alt)
    show "n + 1 \<le> Limit s" using less by (rule inc_le)
  qed
  moreover have "\<forall>k. counted s' k = (if k = key then Suc (counted s k) else counted s k)"
    using unat_next [OF less] n by (simp add: s'_def counted_update)
  ultimately show ?thesis unfolding key_def by blast
qed

lemma net_set_remove:
  assumes ok: "net_set_ok subnet limit s"
  shows "net_set_ok subnet limit (DistinctNetSet_Remove ip s)
    \<and> (\<forall>k. counted (DistinctNetSet_Remove ip s) k =
            (if k = subnet_key subnet ip then counted s k - 1 else counted s k))"
proof (cases "map_of (members s) (subnet_key subnet ip)")
  case None
  then show ?thesis using ok by (simp add: DistinctNetSet_Remove_def DistinctNetSet_key_def net_set_ok_def counted_def)
next
  case (Some n)
  have sub: "Subnet s = subnet" using ok by (simp add: net_set_ok_def)
  note b = counted_bounds [OF ok Some]
  show ?thesis
  proof (cases "n = 1")
    case True
    then show ?thesis using Some sub net_set_delete_ok [OF ok, of "subnet_key subnet ip"]
      by (simp add: DistinctNetSet_Remove_def DistinctNetSet_key_def counted_delete) (simp add: counted_def)
  next
    case False
    have pred: "unat (n - 1) = unat n - 1" using b(1) by (simp add: unat_minus_one word_greater_zero_iff)
    have "1 < unat n" using False b(1) by (metis One_nat_def Suc_lessI unat_1 unat_gt_0 word_greater_zero_iff word_unat_eq_iff)
    then have "0 < n - 1" using pred by (simp add: word_less_nat_alt)
    moreover have "n - 1 \<le> Limit s" using pred b(2) by (simp add: word_le_nat_alt)
    ultimately show ?thesis
      using Some sub False pred net_set_update_ok [OF ok, of "n - 1" "subnet_key subnet ip"]
      by (simp add: DistinctNetSet_Remove_def DistinctNetSet_key_def counted_update) (simp add: counted_def)
  qed
qed

text \<open>The table's set and a bucket's set: \<^verbatim>\<open>tableSubnet, tableIPLimit\<close> and \<^verbatim>\<open>bucketSubnet, bucketIPLimit\<close>.\<close>

interpretation table_ips: address_counter DistinctNetSet_Add DistinctNetSet_Remove "subnet_key 24" counted "net_set_ok 24 10" 10
  by unfold_locales (simp_all add: net_set_add_full net_set_add_room net_set_remove counted_limit)

interpretation bucket_ips: address_counter DistinctNetSet_Add DistinctNetSet_Remove "subnet_key 24" counted "net_set_ok 24 2" 2
  by unfold_locales (simp_all add: net_set_add_full net_set_add_room net_set_remove counted_limit)

subsection \<open>Prefixes\<close>

lemma bit_net_mask: "bit (net_mask bits) i \<longleftrightarrow> i < 8 \<and> 8 - bits mod 8 \<le> i"
proof -
  have full: "bit (255 :: byte) j \<longleftrightarrow> j < 8" for j
  proof -
    have "(255 :: byte) = - 1" by simp
    then show ?thesis by (simp only: bit_minus_1_iff) simp
  qed
  have len: "LENGTH(8) = 8" by simp
  have "bit (net_mask bits) i \<longleftrightarrow> i < 8 \<and> \<not> bit (255 :: byte) (bits mod 8 + i)"
    by (simp only: net_mask_def bit_not_iff bit_drop_bit_eq o_apply possible_bit_word len)
  then show ?thesis unfolding full by linarith
qed

lemma net_mask_zero: "net_mask bits = 0 \<longleftrightarrow> bits mod 8 = 0"
proof
  assume "net_mask bits = 0"
  then have "\<not> bit (net_mask bits) 7" by simp
  then show "bits mod 8 = 0" by (simp add: bit_net_mask)
next
  assume "bits mod 8 = 0"
  then show "net_mask bits = 0" by (intro bit_word_eqI) (simp add: bit_net_mask)
qed

lemma length_byte_bits [simp]: "length (byte_bits b) = 8"
  by (simp add: byte_bits_def)

lemma byte_bits_inj: "byte_bits a = byte_bits b \<longleftrightarrow> a = b"
proof
  assume eq: "byte_bits a = byte_bits b"
  show "a = b"
  proof (rule bit_word_eqI)
    fix n assume "n < LENGTH(8)"
    then have "n < 8" by simp
    moreover from this have "7 - n < 8" by linarith
    ultimately have "byte_bits a ! (7 - n) = bit a n" "byte_bits b ! (7 - n) = bit b n"
      by (simp_all add: byte_bits_def)
    with eq show "bit a n = bit b n" by simp
  qed
qed simp

lemma net_mask_prefix:
  "a AND net_mask bits = b AND net_mask bits \<longleftrightarrow> take (bits mod 8) (byte_bits a) = take (bits mod 8) (byte_bits b)"
proof -
  have "a AND net_mask bits = b AND net_mask bits \<longleftrightarrow> (\<forall>i < 8. 8 - bits mod 8 \<le> i \<longrightarrow> bit a i = bit b i)"
    by (auto simp: bit_eq_iff bit_and_iff bit_net_mask)
  also have "\<dots> \<longleftrightarrow> (\<forall>i < bits mod 8. bit a (7 - i) = bit b (7 - i))"
  proof
    assume *: "\<forall>i < 8. 8 - bits mod 8 \<le> i \<longrightarrow> bit a i = bit b i"
    show "\<forall>i < bits mod 8. bit a (7 - i) = bit b (7 - i)"
    proof (intro allI impI)
      fix i assume "i < bits mod 8"
      then show "bit a (7 - i) = bit b (7 - i)" using * [rule_format, of "7 - i"] by linarith
    qed
  next
    assume *: "\<forall>i < bits mod 8. bit a (7 - i) = bit b (7 - i)"
    show "\<forall>i < 8. 8 - bits mod 8 \<le> i \<longrightarrow> bit a i = bit b i"
    proof (intro allI impI)
      fix i :: nat assume i: "i < 8" "8 - bits mod 8 \<le> i"
      then have "7 - i < bits mod 8" "7 - (7 - i) = i" by linarith+
      then show "bit a i = bit b i" using * [rule_format, of "7 - i"] by simp
    qed
  qed
  also have "\<dots> \<longleftrightarrow> take (bits mod 8) (byte_bits a) = take (bits mod 8) (byte_bits b)"
    using mod_less_divisor [of 8 bits] by (auto simp: list_eq_iff_nth_eq byte_bits_def)
  finally show ?thesis .
qed

lemma length_ip_bits [simp]: "length (ip_bits ip) = 8 * length ip"
  by (induction ip) (simp_all add: ip_bits_def)

lemma ip_bits_Cons: "ip_bits (b # ip) = byte_bits b @ ip_bits ip"
  by (simp add: ip_bits_def)

lemma ip_bits_append: "ip_bits (ip @ ip') = ip_bits ip @ ip_bits ip'"
  by (simp add: ip_bits_def)

lemma ip_bits_inj: "length ip = length ip' \<Longrightarrow> ip_bits ip = ip_bits ip' \<longleftrightarrow> ip = ip'"
  by (induction ip ip' rule: list_induct2) (simp_all add: ip_bits_Cons byte_bits_inj)

lemma ip_bits_take:
  assumes "bits div 8 < length ip"
  shows "take bits (ip_bits ip) = ip_bits (take (bits div 8) ip) @ take (bits mod 8) (byte_bits (ip ! (bits div 8)))"
proof -
  have "ip_bits ip = ip_bits (take (bits div 8) ip) @ byte_bits (ip ! (bits div 8)) @ ip_bits (drop (Suc (bits div 8)) ip)"
    using assms by (metis id_take_nth_drop ip_bits_Cons ip_bits_append)
  moreover have "bits - 8 * (bits div 8) = bits mod 8" by (simp add: minus_mult_div_eq_mod)
  moreover have "8 * (bits div 8) \<le> bits" by simp
  moreover have "bits mod 8 - 8 = 0" using mod_less_divisor [of 8 bits] by linarith
  ultimately show ?thesis using assms by (simp add: min_absorb2)
qed

lemma ip_prefix_iff:
  assumes len: "length ip = length other" and bits: "bits \<le> 8 * length ip"
  shows "take bits (ip_bits ip) = take bits (ip_bits other) \<longleftrightarrow>
    take (bits div 8) ip = take (bits div 8) other
    \<and> (bits div 8 < length ip \<and> net_mask bits \<noteq> 0 \<longrightarrow>
        ip ! (bits div 8) AND net_mask bits = other ! (bits div 8) AND net_mask bits)"
proof (cases "bits div 8 < length ip")
  case True
  have "ip_bits (take (bits div 8) ip) = ip_bits (take (bits div 8) other) \<longleftrightarrow> take (bits div 8) ip = take (bits div 8) other"
    using len by (intro ip_bits_inj) simp
  then show ?thesis using True len net_mask_prefix [of "ip ! (bits div 8)" bits "other ! (bits div 8)"]
    by (auto simp: ip_bits_take net_mask_zero)
next
  case False
  then have "bits = 8 * length ip" using bits by linarith
  then show ?thesis using len ip_bits_inj [OF len] by simp
qed

lemma sameNet_prefix:
  assumes "length ip = length other" "bits \<le> 8 * length ip"
  shows "sameNet bits ip other = Ret (take bits (ip_bits ip) = take bits (ip_bits other))"
proof -
  have "bits div 8 \<le> length ip" using assms(2) by linarith
  then show ?thesis unfolding sameNet_def Let_def ip_prefix_iff [OF assms] using assms(1) by auto
qed

lemma To4_length: "To4 ip = Some ip4 \<Longrightarrow> length ip4 = 4"
  by (auto simp: To4_def split: if_splits)

lemma not_To4: "ip_ok ip \<Longrightarrow> To4 ip = None \<Longrightarrow> length ip = 16 \<and> To16 ip = Some ip"
  by (auto simp: ip_ok_def To4_def To16_def split: if_splits)

lemma SameNet_iff:
  assumes "ip_ok ip" "ip_ok other" "bits \<le> 32"
  shows "SameNet bits ip other = Ret (same_subnet bits ip other)"
proof (cases "To4 ip"; cases "To4 other")
  fix a b assume "To4 ip = Some a" "To4 other = Some b"
  then show ?thesis using assms(3) To4_length sameNet_prefix [of a b bits]
    by (simp add: SameNet_def same_subnet_def family_bits_def)
next
  assume n: "To4 ip = None" "To4 other = None"
  note not_To4 [OF assms(1) n(1)] not_To4 [OF assms(2) n(2)]
  then show ?thesis using assms(3) n sameNet_prefix [of ip other bits]
    by (simp add: SameNet_def same_subnet_def family_bits_def)
qed (simp_all add: SameNet_def same_subnet_def family_bits_def)

lemma prefix_key_iff:
  assumes "length ip = length other" "bits \<le> 8 * length ip"
  shows "prefix_key bits ip = prefix_key bits other \<longleftrightarrow> take bits (ip_bits ip) = take bits (ip_bits other)"
  unfolding ip_prefix_iff [OF assms] prefix_key_def using assms(1) by auto

lemma subnet_key_eq:
  assumes "ip_ok ip" "bits \<le> 32"
  shows "subnet_key bits ip = (case To4 ip of Some ip4 \<Rightarrow> 0x34 # prefix_key bits ip4 | None \<Rightarrow> 0x36 # prefix_key bits ip)"
proof (cases "To4 ip")
  case None
  then show ?thesis using not_To4 [OF assms(1) None] assms(2) by (simp add: subnet_key_def prefix_key_def Let_def)
next
  case (Some ip4)
  then show ?thesis using To4_length [OF Some] assms(2) by (simp add: subnet_key_def prefix_key_def Let_def)
qed

text \<open>
  Two addresses fall into one slot of the bounded set exactly when \<^verbatim>\<open>SameNet\<close> puts them into one
  network, which is when they are of one family and agree in the first \<open>bits\<close> bits.
\<close>

theorem subnet_key_SameNet:
  assumes "ip_ok ip" "ip_ok other" "bits \<le> 32"
  shows "SameNet bits ip other = Ret (same_subnet bits ip other)
    \<and> (subnet_key bits ip = subnet_key bits other \<longleftrightarrow> same_subnet bits ip other)"
proof -
  have "subnet_key bits ip = subnet_key bits other \<longleftrightarrow> same_subnet bits ip other"
  proof (cases "To4 ip"; cases "To4 other")
    fix a b assume "To4 ip = Some a" "To4 other = Some b"
    then show ?thesis using assms To4_length prefix_key_iff [of a b bits]
      by (simp add: subnet_key_eq same_subnet_def family_bits_def)
  next
    assume n: "To4 ip = None" "To4 other = None"
    note not_To4 [OF assms(1) n(1)] not_To4 [OF assms(2) n(2)]
    then show ?thesis using assms n prefix_key_iff [of ip other bits]
      by (simp add: subnet_key_eq same_subnet_def family_bits_def)
  qed (simp_all add: subnet_key_eq assms same_subnet_def family_bits_def)
  with SameNet_iff [OF assms] show ?thesis by blast
qed

theorem subnet_key_SameNet_witness:
  "ip_ok [10, 1, 2, 3] \<and> ip_ok (v4InV6Prefix @ [10, 1, 2, 77])
    \<and> SameNet 24 [10, 1, 2, 3] (v4InV6Prefix @ [10, 1, 2, 77]) = Ret True
    \<and> subnet_key 24 [10, 1, 2, 3] = subnet_key 24 (v4InV6Prefix @ [10, 1, 2, 77])"
proof -
  have ok: "ip_ok [10, 1, 2, 3]" "ip_ok (v4InV6Prefix @ [10, 1, 2, 77])"
    by (simp_all add: ip_ok_def v4InV6Prefix_def)
  have "SameNet 24 [10, 1, 2, 3] (v4InV6Prefix @ [10, 1, 2, 77]) = Ret True" by code_simp
  with subnet_key_SameNet [OF ok, of 24] ok show ?thesis by simp
qed

end
