(* ===== verification/Discover_Nodes.thy ===== *)
theory Discover_Nodes
  imports Net_Addrs Signing_Keys
begin

text \<open>
  \<^verbatim>\<open>p2p/discover/node.go\<close>: the nodes of the discovery protocol, their identifiers and the distances
  between them.

  A \<^verbatim>\<open>NodeID\<close> is the 64 bytes of a public key, a \<^verbatim>\<open>common.Hash\<close> 32 bytes. A text is the byte string of its
  characters. A point of time is the number of nanoseconds since Go's zero time.
\<close>

unbundle bit_operations_syntax

subsection \<open>Definitions\<close>

type_synonym u16 = "16 word"
type_synonym NodeID = bytes
type_synonym Hash = bytes

definition SizeNodeID :: nat where
  "SizeNodeID = 512 div 8"

definition EmptyNodeID :: NodeID where
  "EmptyNodeID = replicate SizeNodeID 0"

definition ErrInvalidNodeKey :: go_error where
  "ErrInvalidNodeKey = OtherError 20"

definition ErrInvalidNodeID :: go_error where
  "ErrInvalidNodeID = OtherError 21"

text \<open>The errors of \<^verbatim>\<open>hex.DecodeString\<close>, and those made on the spot by \<^verbatim>\<open>errors.New\<close> and \<^verbatim>\<open>fmt.Errorf\<close>.\<close>

definition hex_error :: go_error where
  "hex_error = OtherError 22"

definition length_error :: go_error where
  "length_error = OtherError 23"

definition curve_error :: go_error where
  "curve_error = OtherError 24"

definition node_error :: "nat \<Rightarrow> go_error" where
  "node_error i = OtherError (30 + i)"

text \<open>\<^verbatim>\<open>pstore.PeerInfo\<close>: the peer and its addresses in their binary form.\<close>

record PeerInfo =
  pi_ID :: bytes
  pi_Addrs :: "bytes list"

record Node =
  nd_IP :: "IP option"
  nd_UDP :: u16
  nd_TCP :: u16
  nd_ID :: NodeID
  nd_IsWebrtc :: bool
  nd_IsP2P :: bool
  nd_PeerID :: bytes
  nd_PeerInfo :: "PeerInfo option"
  nd_sha :: Hash
  nd_addedAt :: int

text \<open>A \<^verbatim>\<open>nil\<close> address as the operand of a method of \<^verbatim>\<open>net.IP\<close> is an empty slice.\<close>

definition nd_ip :: "Node \<Rightarrow> IP" where
  "nd_ip n = (case nd_IP n of None \<Rightarrow> [] | Some ip \<Rightarrow> ip)"

definition NewNode :: "(bytes \<Rightarrow> Hash) \<Rightarrow> NodeID \<Rightarrow> IP option \<Rightarrow> u16 \<Rightarrow> u16 \<Rightarrow> Node" where
  "NewNode keccak id0 ip0 udpPort tcpPort =
     (let ip = (case ip0 of
                  None \<Rightarrow> None
                | Some ip \<Rightarrow> (case To4 ip of Some ipv4 \<Rightarrow> Some ipv4 | None \<Rightarrow> Some ip))
      in \<lparr>nd_IP = ip, nd_UDP = udpPort, nd_TCP = tcpPort, nd_ID = id0, nd_IsWebrtc = False, nd_IsP2P = False,
          nd_PeerID = [], nd_PeerInfo = None, nd_sha = keccak id0, nd_addedAt = 0\<rparr>)"

definition NewP2PNode :: "(bytes \<Rightarrow> Hash) \<Rightarrow> NodeID \<Rightarrow> bytes \<Rightarrow> PeerInfo option \<Rightarrow> Node" where
  "NewP2PNode keccak id0 peerID peerInfo =
     \<lparr>nd_IP = None, nd_UDP = 0, nd_TCP = 0, nd_ID = id0, nd_IsWebrtc = False, nd_IsP2P = True,
      nd_PeerID = peerID, nd_PeerInfo = peerInfo, nd_sha = keccak id0, nd_addedAt = 0\<rparr>"

definition NewWebrtcNode :: "(bytes \<Rightarrow> Hash) \<Rightarrow> NodeID \<Rightarrow> Node" where
  "NewWebrtcNode keccak id0 =
     \<lparr>nd_IP = None, nd_UDP = 0, nd_TCP = 0, nd_ID = id0, nd_IsWebrtc = True, nd_IsP2P = False,
      nd_PeerID = [], nd_PeerInfo = None, nd_sha = keccak id0, nd_addedAt = 0\<rparr>"

definition Incomplete :: "Node \<Rightarrow> bool" where
  "Incomplete n = (if nd_IsP2P n then nd_PeerInfo n = None else nd_IP n = None)"

definition PubkeyID :: "PublicKey \<Rightarrow> NodeID" where
  "PubkeyID pub = tl (FromECDSAPub pub)"

definition NodeID_Pubkey :: "ecc \<Rightarrow> NodeID \<Rightarrow> PublicKey res" where
  "NodeID_Pubkey E id0 =
     (let half = length id0 div 2;
          p = (be_val (take half id0), be_val (drop half id0))
      in if IsOnCurve E p then Ret p else Fail curve_error)"

definition validateComplete :: "ecc \<Rightarrow> Node \<Rightarrow> go_error option" where
  "validateComplete E n =
     (if Incomplete n then Some (node_error 0)
      else if \<not> nd_IsP2P n \<and> nd_UDP n = 0 then Some (node_error 1)
      else if \<not> nd_IsP2P n \<and> nd_TCP n = 0 then Some (node_error 2)
      else if \<not> nd_IsP2P n \<and> (IsMulticast (nd_ip n) \<or> IsUnspecified (nd_ip n)) then Some (node_error 3)
      else (case NodeID_Pubkey E (nd_ID n) of Fail e \<Rightarrow> Some e | _ \<Rightarrow> None))"

definition ToRaftID :: "ecc \<Rightarrow> NodeID \<Rightarrow> u64 res" where
  "ToRaftID E n =
     res_bind (NodeID_Pubkey E n) (\<lambda>pubkey.
       res_bind (Uint64 (slice 6 14 (PubkeyToAddress E pubkey))) (\<lambda>theID.
         if theID = 0 then Fail ErrInvalidNodeID else Ret theID))"

definition BytesID :: "bytes \<Rightarrow> NodeID res" where
  "BytesID b = (if length b \<noteq> SizeNodeID then Fail length_error else Ret b)"

definition MustBytesID :: "bytes \<Rightarrow> NodeID res" where
  "MustBytesID b = (case BytesID b of Ret id0 \<Rightarrow> Ret id0 | _ \<Rightarrow> Panic)"

text \<open>\<^verbatim>\<open>encoding/hex\<close> and the verb \<^verbatim>\<open>%x\<close>.\<close>

definition hex_digit :: "nat \<Rightarrow> byte" where
  "hex_digit v = (if v < 10 then word_of_nat (48 + v) else word_of_nat (87 + v))"

definition hex_encode :: "bytes \<Rightarrow> bytes" where
  "hex_encode bs = concat (map (\<lambda>b. [hex_digit (unat b div 16), hex_digit (unat b mod 16)]) bs)"

definition fromHexChar :: "byte \<Rightarrow> nat option" where
  "fromHexChar c =
     (if 48 \<le> c \<and> c \<le> 57 then Some (unat c - 48)
      else if 97 \<le> c \<and> c \<le> 102 then Some (unat c - 87)
      else if 65 \<le> c \<and> c \<le> 70 then Some (unat c - 55)
      else None)"

fun hex_decode :: "bytes \<Rightarrow> bytes res" where
  "hex_decode [] = Ret []"
| "hex_decode [c] = Fail hex_error"
| "hex_decode (c # d # cs) =
     (case (fromHexChar c, fromHexChar d) of
        (Some a, Some b) \<Rightarrow> res_bind (hex_decode cs) (\<lambda>bs. Ret (word_of_nat (16 * a + b) # bs))
      | _ \<Rightarrow> Fail hex_error)"

definition TrimPrefix :: "bytes \<Rightarrow> bytes \<Rightarrow> bytes" where
  "TrimPrefix s pre = (if take (length pre) s = pre then drop (length pre) s else s)"

definition HexID :: "bytes \<Rightarrow> NodeID res" where
  "HexID txt =
     res_bind (hex_decode (TrimPrefix txt [0x30, 0x78])) (\<lambda>b.
       if length b \<noteq> SizeNodeID then Fail length_error else Ret b)"

definition MustHexID :: "bytes \<Rightarrow> NodeID res" where
  "MustHexID txt = (case HexID txt of Ret id0 \<Rightarrow> Ret id0 | _ \<Rightarrow> Panic)"

definition NodeID_MarshalText :: "NodeID \<Rightarrow> bytes" where
  "NodeID_MarshalText n = hex_encode n"

definition NodeID_UnmarshalText :: "bytes \<Rightarrow> NodeID res" where
  "NodeID_UnmarshalText txt = HexID txt"

text \<open>
  The designator of an incomplete node: \<^verbatim>\<open>String\<close> prints the scheme and the identifier, and
  \<^verbatim>\<open>ParseNode\<close> first tries the expression \<^verbatim>\<open>(?i)^(?:pnode://)?([0-9a-f]+)$\<close>. The designators of
  complete nodes go through \<^verbatim>\<open>net/url\<close>.
\<close>

definition scheme_text :: bytes where
  "scheme_text = [0x70, 0x6e, 0x6f, 0x64, 0x65, 0x3a, 0x2f, 0x2f]"

definition lower :: "byte \<Rightarrow> byte" where
  "lower c = (if 65 \<le> c \<and> c \<le> 90 then c + 32 else c)"

definition incompleteNodeURL :: "bytes \<Rightarrow> bytes option" where
  "incompleteNodeURL txt =
     (let m = (if map lower (take 8 txt) = scheme_text then drop 8 txt else txt)
      in if m \<noteq> [] \<and> list_all (\<lambda>c. fromHexChar c \<noteq> None) m then Some m else None)"

definition ParseNode_incomplete :: "(bytes \<Rightarrow> Hash) \<Rightarrow> bytes \<Rightarrow> Node res option" where
  "ParseNode_incomplete keccak rawurl =
     (case incompleteNodeURL rawurl of
        None \<Rightarrow> None
      | Some m \<Rightarrow>
          Some (case HexID m of
                  Ret id0 \<Rightarrow> Ret (NewNode keccak id0 None 0 0)
                | Fail e \<Rightarrow> Fail (node_error 4)
                | Panic \<Rightarrow> Panic))"

definition Node_String_incomplete :: "Node \<Rightarrow> bytes" where
  "Node_String_incomplete n = scheme_text @ hex_encode (nd_ID n)"

text \<open>\<open>recoverPubkey\<close> is \<^verbatim>\<open>secp256k1.RecoverPubkey\<close>.\<close>

definition recoverNodeID :: "(bytes \<Rightarrow> bytes \<Rightarrow> bytes res) \<Rightarrow> bytes \<Rightarrow> bytes \<Rightarrow> NodeID res" where
  "recoverNodeID recoverPubkey hash sig =
     res_bind (recoverPubkey hash sig) (\<lambda>pubkey.
       if length pubkey \<noteq> Suc SizeNodeID then Fail length_error else Ret (tl pubkey))"

fun distcmp :: "Hash \<Rightarrow> Hash \<Rightarrow> Hash \<Rightarrow> int" where
  "distcmp (t # ts) (a # as) (b # bs) =
     (let da = a XOR t;
          db = b XOR t
      in if da > db then 1
         else if da < db then - 1
         else distcmp ts as bs)"
| "distcmp _ _ _ = 0"

definition lzcount :: "nat list" where
  "lzcount =
     [8, 7] @ replicate 2 6 @ replicate 4 5 @ replicate 8 4 @ replicate 16 3 @ replicate 32 2
     @ replicate 64 1 @ replicate 128 0"

fun logdist_lz :: "Hash \<Rightarrow> Hash \<Rightarrow> nat" where
  "logdist_lz (a # as) (b # bs) =
     (let x = a XOR b
      in if x = 0 then 8 + logdist_lz as bs else lzcount ! unat x)"
| "logdist_lz _ _ = 0"

definition logdist :: "Hash \<Rightarrow> Hash \<Rightarrow> nat" where
  "logdist a b = length a * 8 - logdist_lz a b"

text \<open>
  \<open>rnd\<close> are the bytes drawn for the tail. \<^verbatim>\<open>byte(0x01) << (byte(n%8) - 1)\<close> is 0 when \<^verbatim>\<open>n%8\<close> is 0: the
  shift count wraps to 255.
\<close>

definition hashAtDistance :: "(nat \<Rightarrow> byte) \<Rightarrow> Hash \<Rightarrow> nat \<Rightarrow> Hash res" where
  "hashAtDistance rnd a n =
     (if n = 0 then Ret a
      else
        (let bit0 = push_bit (unat (word_of_nat (n mod 8) - 1 :: byte)) 1 :: byte;
             pos0 = int (length a) - int (n div 8) - 1;
             pos = (if bit0 = 0 then pos0 + 1 else pos0);
             bit1 = (if bit0 = 0 then 128 else bit0)
         in if pos < 0 \<or> int (length a) \<le> pos then Panic
            else
              (let p = nat pos;
                   flipped = (a ! p AND NOT bit1) OR (NOT (a ! p) AND bit1)
               in Ret (take p a @ flipped # map rnd [p + 1..<length a]))))"

definition NGenerateNodeKey :: nat where
  "NGenerateNodeKey = 10"

text \<open>\<open>keys i\<close> is what the \<open>i\<close>-th call of \<^verbatim>\<open>key.GenerateKey\<close> returns.\<close>

fun GenerateNodeKey_loop :: "ecc \<Rightarrow> (nat \<Rightarrow> PrivateKey res) \<Rightarrow> nat \<Rightarrow> nat \<Rightarrow> PrivateKey res" where
  "GenerateNodeKey_loop E keys i 0 = Fail ErrInvalidNodeKey"
| "GenerateNodeKey_loop E keys i (Suc n) =
     (case keys i of
        Ret key \<Rightarrow>
          (case ToRaftID E (PubkeyID (ScalarBaseMult E key)) of
             Ret _ \<Rightarrow> Ret key
           | Fail _ \<Rightarrow> GenerateNodeKey_loop E keys (Suc i) n
           | Panic \<Rightarrow> Panic)
      | Fail _ \<Rightarrow> GenerateNodeKey_loop E keys (Suc i) n
      | Panic \<Rightarrow> Panic)"

definition GenerateNodeKey :: "ecc \<Rightarrow> (nat \<Rightarrow> PrivateKey res) \<Rightarrow> PrivateKey res" where
  "GenerateNodeKey E keys = GenerateNodeKey_loop E keys 0 NGenerateNodeKey"

definition discover_LoadECDSA :: "ecc \<Rightarrow> PrivateKey res \<Rightarrow> PrivateKey res" where
  "discover_LoadECDSA E loaded =
     res_bind loaded (\<lambda>key.
       res_bind (ToRaftID E (PubkeyID (ScalarBaseMult E key))) (\<lambda>_. Ret key))"

text \<open>The distance as a number: the bitwise difference of the hashes, read big-endian.\<close>

definition hash_xor :: "Hash \<Rightarrow> Hash \<Rightarrow> bytes" where
  "hash_xor a b = map2 (XOR) a b"

definition dist :: "Hash \<Rightarrow> Hash \<Rightarrow> nat" where
  "dist a b = be_val (hash_xor a b)"

subsection \<open>Distances\<close>

lemma length_hash_xor [simp]: "length a = length b \<Longrightarrow> length (hash_xor a b) = length b"
  by (simp add: hash_xor_def)

lemma hash_xor_Cons [simp]: "hash_xor (a # as) (b # bs) = (a XOR b) # hash_xor as bs"
  by (simp add: hash_xor_def)

lemma dist_Nil [simp]: "dist [] bs = 0"
  by (simp add: dist_def hash_xor_def)

lemma dist_Cons:
  "length as = length bs \<Longrightarrow> dist (a # as) (b # bs) = unat (a XOR b) * 256 ^ length bs + dist as bs"
  by (simp add: dist_def)

lemma dist_bound: "length a = length b \<Longrightarrow> dist a b < 256 ^ length a"
  using be_val_bound [of "hash_xor a b"] by (simp add: dist_def)

lemma byte_xor_cancel: "x XOR y = x XOR z \<longleftrightarrow> y = (z :: byte)"
proof
  assume "x XOR y = x XOR z"
  then have "x XOR (x XOR y) = x XOR (x XOR z)" by simp
  then show "y = z" by (simp flip: xor.assoc)
qed simp

lemma byte_xor_zero [simp]: "x XOR y = 0 \<longleftrightarrow> x = (y :: byte)"
  using byte_xor_cancel [of x x y] by auto

lemma distcmp_xor:
  assumes "length a = length t" "length b = length t"
  shows "(distcmp t a b > 0 \<longleftrightarrow> hash_xor t b < hash_xor t a) \<and> (distcmp t a b < 0 \<longleftrightarrow> hash_xor t a < hash_xor t b)"
  using assms
proof (induction t a b rule: distcmp.induct)
  case (1 t ts a as b bs)
  have sw: "a XOR t = t XOR a" "b XOR t = t XOR b" by (simp_all add: xor.commute)
  consider "t XOR b < t XOR a" | "t XOR a < t XOR b" | "a = b"
    using byte_xor_cancel [of t a b] linorder_neq_iff by blast
  then show ?case
  proof cases
    case 3
    then show ?thesis using 1 by (simp add: Let_def)
  qed (auto simp: Let_def sw)
qed (auto simp: hash_xor_def)

lemma distcmp_dist:
  assumes "length a = length t" "length b = length t"
  shows "distcmp t a b > 0 \<longleftrightarrow> dist t b < dist t a" "distcmp t a b < 0 \<longleftrightarrow> dist t a < dist t b"
  using distcmp_xor [OF assms] assms by (simp_all add: dist_def be_val_less_iff)

lemma dist_eq_iff:
  assumes "length a = length t" "length b = length t"
  shows "dist t a = dist t b \<longleftrightarrow> a = b"
proof -
  have "hash_xor t a = hash_xor t b \<longleftrightarrow> a = b" if "length t = length a" "length a = length b" for t a b :: bytes
    using that
    by (induction t a b rule: list_induct3) (simp_all add: byte_xor_cancel)
  from this [of t a b] show ?thesis using be_val_inj [of "hash_xor t a" "hash_xor t b"] assms by (auto simp: dist_def)
qed

lemma lzcount_bounds:
  assumes "x \<noteq> (0 :: byte)"
  shows "lzcount ! unat x \<le> 7" "2 ^ (7 - lzcount ! unat x) \<le> unat x" "unat x < 2 ^ (8 - lzcount ! unat x)"
proof -
  have all: "list_all (\<lambda>i. lzcount ! i \<le> 7 \<and> 2 ^ (7 - lzcount ! i) \<le> i \<and> i < 2 ^ (8 - lzcount ! i)) [1..<256]"
    by code_simp
  have "unat x \<in> set [1..<256]"
    using assms unat_byte_bound [of x] by (simp add: Suc_le_eq word_unat_eq_iff)
  with all have "lzcount ! unat x \<le> 7 \<and> 2 ^ (7 - lzcount ! unat x) \<le> unat x \<and> unat x < 2 ^ (8 - lzcount ! unat x)"
    unfolding list_all_iff by blast
  then show "lzcount ! unat x \<le> 7" "2 ^ (7 - lzcount ! unat x) \<le> unat x" "unat x < 2 ^ (8 - lzcount ! unat x)"
    by blast+
qed

lemma logdist_lz_bound: "length a = length b \<Longrightarrow> logdist_lz a b \<le> 8 * length a"
proof (induction a b rule: list_induct2)
  case (Cons x xs y ys)
  show ?case
  proof (cases "x = y")
    case False
    then show ?thesis using lzcount_bounds(1) [of "x XOR y"] by (simp add: Let_def)
  qed (use Cons in \<open>simp add: Let_def\<close>)
qed simp

lemma logdist_Cons:
  assumes "length as = length bs"
  shows "logdist (a # as) (b # bs) =
    (if a = b then logdist as bs else 8 * length bs + (8 - lzcount ! unat (a XOR b)))"
proof (cases "a = b")
  case False
  then show ?thesis using lzcount_bounds(1) [of "a XOR b"] assms by (simp add: logdist_def Let_def)
qed (use assms in \<open>simp add: logdist_def Let_def\<close>)

lemma logdist_self [simp]: "logdist a a = 0"
  by (induction a) (simp_all add: logdist_Cons, simp add: logdist_def)

lemma dist_self [simp]: "dist a a = 0"
  by (induction a) (simp_all add: dist_Cons)

lemma dist_zero_iff: "length a = length t \<Longrightarrow> dist t a = 0 \<longleftrightarrow> a = t"
  using dist_eq_iff [of a t t] by simp

lemma logdist_bounds:
  assumes "length a = length b"
  shows "dist a b < 2 ^ logdist a b \<and> (dist a b \<noteq> 0 \<longrightarrow> 0 < logdist a b \<and> 2 ^ (logdist a b - 1) \<le> dist a b)"
  using assms
proof (induction a b rule: list_induct2)
  case Nil
  then show ?case by (simp add: logdist_def)
next
  case (Cons x xs y ys)
  show ?case
  proof (cases "x = y")
    case True
    then show ?thesis using Cons by (simp add: dist_Cons logdist_Cons)
  next
    case False
    define l where "l = 7 - lzcount ! unat (x XOR y)"
    have nz: "x XOR y \<noteq> 0" using False by simp
    note b = lzcount_bounds [OF nz]
    have l: "8 - lzcount ! unat (x XOR y) = Suc l" using b(1) by (simp add: l_def)
    have log: "logdist (x # xs) (y # ys) = 8 * length ys + Suc l"
      using Cons(1) False l by (simp add: logdist_Cons)
    have p: "(256 :: nat) ^ length ys = 2 ^ (8 * length ys)" by (simp add: power_mult)
    have up: "unat (x XOR y) + 1 \<le> 2 ^ Suc l" using b(3) l by simp
    have "dist (x # xs) (y # ys) < (unat (x XOR y) + 1) * 256 ^ length ys"
      using dist_bound [OF Cons(1)] Cons(1) by (simp add: dist_Cons)
    also have "\<dots> \<le> 2 ^ Suc l * 256 ^ length ys" using up by (rule mult_le_mono1)
    also have "\<dots> = 2 ^ logdist (x # xs) (y # ys)" unfolding log p by (simp add: power_add)
    finally have hi: "dist (x # xs) (y # ys) < 2 ^ logdist (x # xs) (y # ys)" .
    have "2 ^ (logdist (x # xs) (y # ys) - 1) = 2 ^ l * (256 :: nat) ^ length ys"
      unfolding log p by (simp add: power_add)
    also have "\<dots> \<le> unat (x XOR y) * 256 ^ length ys" using b(2) by (simp add: l_def)
    also have "\<dots> \<le> dist (x # xs) (y # ys)" using Cons(1) by (simp add: dist_Cons)
    finally show ?thesis using hi log by simp
  qed
qed

lemma logdist_le: "logdist a b \<le> 8 * length a"
  by (simp add: logdist_def)

lemma logdist_mono:
  assumes "length a = length t" "length b = length t" "dist t a \<le> dist t b"
  shows "logdist t a \<le> logdist t b"
proof (rule ccontr)
  assume "\<not> ?thesis"
  then have lt: "logdist t b < logdist t a" by simp
  note b = logdist_bounds [of t b] and a = logdist_bounds [of t a]
  have "a \<noteq> t" using lt by auto
  then have "dist t a \<noteq> 0" using assms by (simp add: dist_zero_iff)
  then have "2 ^ (logdist t a - 1) \<le> dist t a" using a assms by simp
  moreover have "dist t b < 2 ^ logdist t b" using b assms by simp
  moreover have "(2 :: nat) ^ logdist t b \<le> 2 ^ (logdist t a - 1)" using lt by (intro power_increasing) auto
  ultimately show False using assms(3) by linarith
qed

subsection \<open>A hash at a given distance\<close>

lemma logdist_lz_prefix:
  "x \<noteq> y \<Longrightarrow> logdist_lz (ps @ x # xs) (ps @ y # ys) = 8 * length ps + lzcount ! unat (x XOR y)"
  by (induction ps) (simp_all add: Let_def)

lemma lzcount_power: "k < 8 \<Longrightarrow> lzcount ! (2 ^ k) = 7 - k"
proof -
  have "list_all (\<lambda>k. lzcount ! (2 ^ k) = 7 - k) [0..<8]" by code_simp
  then show "k < 8 \<Longrightarrow> ?thesis" by (simp add: list_all_iff del: upt_Suc)
qed

lemma xor_flip: "(a :: byte) XOR ((a AND NOT m) OR (NOT a AND m)) = m"
  by (rule bit_word_eqI) (auto simp: bit_simps)

lemma distance_bit:
  assumes "r < 8"
  shows "push_bit (unat (word_of_nat (Suc r mod 8) - 1 :: byte)) (1 :: byte) = (if r = 7 then 0 else 2 ^ r)"
    and "unat ((2 :: byte) ^ r) = 2 ^ r"
proof -
  have all: "list_all (\<lambda>r. push_bit (unat (word_of_nat (Suc r mod 8) - 1 :: byte)) (1 :: byte) = (if r = 7 then 0 else 2 ^ r)
      \<and> unat ((2 :: byte) ^ r) = 2 ^ r) [0..<8]"
    by code_simp
  have "r \<in> set [0..<8]" using assms by simp
  with all show "push_bit (unat (word_of_nat (Suc r mod 8) - 1 :: byte)) (1 :: byte) = (if r = 7 then 0 else 2 ^ r)"
    and "unat ((2 :: byte) ^ r) = 2 ^ r"
    unfolding list_all_iff by blast+
qed

lemma hashAtDistance_eq:
  assumes len: "length a = 32" and n: "n = 8 * q + Suc r" "q < 32" "r < 8"
  shows "hashAtDistance rnd a n =
    Ret (take (31 - q) a @ ((a ! (31 - q) AND NOT (2 ^ r)) OR (NOT (a ! (31 - q)) AND 2 ^ r)) # map rnd [32 - q..<32])"
proof -
  have m: "n mod 8 = Suc r mod 8" unfolding n(1) by (rule mod_mult_self4)
  have d: "n div 8 = (if r = 7 then Suc q else q)"
  proof (cases "r = 7")
    case False
    then have "Suc r < 8" using n(3) by simp
    then show ?thesis using False unfolding n(1) by simp
  qed (simp add: n(1))
  have nz: "(2 :: byte) ^ r \<noteq> 0" using distance_bit(2) [OF n(3)] by (metis power_not_zero unat_0 zero_neq_numeral)
  have pos: "nat (31 - int q) = 31 - q" "Suc (31 - q) = 32 - q" using n(2) by linarith+
  show ?thesis
  proof (cases "r = 7")
    case True
    then show ?thesis using len n(2) pos
      unfolding hashAtDistance_def m d distance_bit(1) [OF n(3)] by (simp add: n(1) Let_def)
  next
    case False
    then show ?thesis using len n(2) pos nz
      unfolding hashAtDistance_def m d distance_bit(1) [OF n(3)] by (simp add: n(1) Let_def)
  qed
qed

lemma hashAtDistance_ok:
  assumes len: "length a = 32" and n: "n \<le> 256"
  shows "\<exists>b. hashAtDistance rnd a n = Ret b \<and> length b = 32 \<and> logdist a b = n"
proof (cases "n = 0")
  case True
  then show ?thesis using len by (simp add: hashAtDistance_def)
next
  case False
  define q where "q = (n - 1) div 8"
  define r where "r = (n - 1) mod 8"
  have q: "q < 32" using n False by (simp add: q_def)
  have r: "r < 8" by (simp add: r_def)
  have "8 * q + r = n - 1" by (simp add: q_def r_def)
  then have nq: "n = 8 * q + Suc r" using False by simp
  define p where "p = 31 - q"
  define x where "x = (a ! p AND NOT (2 ^ r)) OR (NOT (a ! p) AND 2 ^ r)"
  define b where "b = take p a @ x # map rnd [32 - q..<32]"
  have flip: "a ! p XOR x = 2 ^ r" unfolding x_def by (rule xor_flip)
  have ne: "a ! p \<noteq> x" using flip distance_bit(2) [OF r] r by auto
  have lz: "logdist_lz a b = 8 * p + (7 - r)"
  proof -
    have "a = take p a @ a ! p # drop (Suc p) a" using len by (simp add: p_def id_take_nth_drop)
    then have "logdist_lz a b = logdist_lz (take p a @ a ! p # drop (Suc p) a) b" by simp
    also have "\<dots> = 8 * length (take p a) + lzcount ! unat (a ! p XOR x)"
      unfolding b_def by (rule logdist_lz_prefix [OF ne])
    finally show ?thesis unfolding flip distance_bit(2) [OF r] lzcount_power [OF r] using len by (simp add: p_def)
  qed
  have "logdist a b = n" unfolding logdist_def lz nq p_def using len q r by simp
  moreover have "length b = 32" using len q by (simp add: b_def p_def)
  moreover have "hashAtDistance rnd a n = Ret b"
    using hashAtDistance_eq [OF len nq q r, of rnd] by (simp add: b_def x_def p_def)
  ultimately show ?thesis by blast
qed

subsection \<open>Identifiers as texts and keys\<close>

lemma fromHexChar_digit:
  assumes "v < 16"
  shows "fromHexChar (hex_digit v) = Some v" "hex_digit v \<noteq> 0x78"
proof -
  have all: "list_all (\<lambda>v. fromHexChar (hex_digit v) = Some v \<and> hex_digit v \<noteq> 0x78) [0..<16]"
    by code_simp
  have "v \<in> set [0..<16]" using assms by simp
  with all show "fromHexChar (hex_digit v) = Some v" "hex_digit v \<noteq> 0x78"
    unfolding list_all_iff by blast+
qed

lemma hex_nibbles: "unat (b :: byte) div 16 < 16" "unat (b :: byte) mod 16 < 16"
  using unat_byte_bound [of b] by linarith+

lemma hex_encode_Cons:
  "hex_encode (b # bs) = hex_digit (unat b div 16) # hex_digit (unat b mod 16) # hex_encode bs"
  by (simp add: hex_encode_def)

lemma hex_decode_encode: "hex_decode (hex_encode bs) = Ret bs"
proof (induction bs)
  case (Cons b bs)
  have "16 * (unat b div 16) + unat b mod 16 = unat b" by simp
  with Cons show ?case using hex_nibbles [of b]
    by (simp add: hex_encode_Cons fromHexChar_digit)
qed (simp add: hex_encode_def)

lemma hex_encode_digits: "list_all (\<lambda>c. fromHexChar c \<noteq> None) (hex_encode bs)"
  by (induction bs) (simp_all add: hex_encode_Cons fromHexChar_digit hex_nibbles, simp add: hex_encode_def)

lemma hex_encode_no_trim: "TrimPrefix (hex_encode bs) [0x30, 0x78] = hex_encode bs"
  by (cases bs) (simp_all add: TrimPrefix_def hex_encode_Cons fromHexChar_digit(2) hex_nibbles, simp add: hex_encode_def)

lemma HexID_text:
  assumes "length theID = SizeNodeID"
  shows "HexID (NodeID_MarshalText theID) = Ret theID" "HexID ([0x30, 0x78] @ NodeID_MarshalText theID) = Ret theID"
  using assms by (simp_all add: HexID_def NodeID_MarshalText_def hex_encode_no_trim hex_decode_encode)
    (simp add: TrimPrefix_def hex_decode_encode)

lemma HexID_length: "HexID txt = Ret theID \<Longrightarrow> length theID = SizeNodeID"
  by (auto simp: HexID_def res_bind_eq_Ret split: if_splits)

lemma incomplete_text:
  assumes "length (nd_ID n) = SizeNodeID"
  shows "ParseNode_incomplete keccak (Node_String_incomplete n) = Some (Ret (NewNode keccak (nd_ID n) None 0 0))"
proof -
  have "map lower scheme_text = scheme_text" by code_simp
  moreover have "nd_ID n \<noteq> []" using assms by (auto simp: SizeNodeID_def)
  then have "hex_encode (nd_ID n) \<noteq> []" by (cases "nd_ID n") (simp_all add: hex_encode_Cons)
  ultimately have "incompleteNodeURL (Node_String_incomplete n) = Some (hex_encode (nd_ID n))"
    using hex_encode_digits [of "nd_ID n"] by (simp add: incompleteNodeURL_def Node_String_incomplete_def scheme_text_def)
  then show ?thesis using HexID_text(1) [OF assms] by (simp add: ParseNode_incomplete_def NodeID_MarshalText_def)
qed

lemma PubkeyID_length: "length (PubkeyID pub) = SizeNodeID"
  by (simp add: PubkeyID_def FromECDSAPub_def SizeNodeID_def)

lemma Pubkey_PubkeyID:
  assumes "IsOnCurve E pub" "fst pub < 256 ^ 32" "snd pub < 256 ^ 32"
  shows "NodeID_Pubkey E (PubkeyID pub) = Ret pub"
  using assms by (cases pub) (simp add: NodeID_Pubkey_def PubkeyID_def FromECDSAPub_def Let_def be_val_be_bytes)

text \<open>A generated key has a raft identifier: the loop never returns one it has rejected.\<close>

lemma GenerateNodeKey_loop_raft:
  "GenerateNodeKey_loop E keys i n = Ret key \<Longrightarrow> \<exists>rid. ToRaftID E (PubkeyID (ScalarBaseMult E key)) = Ret rid \<and> rid \<noteq> 0"
proof (induction n arbitrary: i)
  case (Suc n)
  show ?case
  proof (cases "keys i")
    case (Ret k)
    show ?thesis
    proof (cases "ToRaftID E (PubkeyID (ScalarBaseMult E k))")
      case (Ret rid)
      with \<open>keys i = Ret k\<close> Suc.prems have "key = k" by simp
      with Ret show ?thesis by (auto simp: ToRaftID_def res_bind_eq_Ret split: if_splits)
    qed (use Suc Ret in auto)
  qed (use Suc in auto)
qed simp

end
