(* ===== verification/Discover_Dbs.thy ===== *)
theory Discover_Dbs
  imports Discover_Nodes Level_Db
begin

text \<open>
  \<^verbatim>\<open>p2p/discover/database.go\<close>: the database of known nodes. Its LevelDB is the store of \<open>Level_Db\<close>, with
  the faults of its calls. \<open>rlp_codec\<close> is the RLP library applied to nodes; \<open>rlp_ok\<close> states what the
  library documents: it writes the exported fields and a fresh value gets only those back, so the
  cached hash, the time of insertion and the peer information (tagged \<^verbatim>\<open>rlp:"-"\<close>) are zero values.

  \<open>now\<close> is the clock, read once by each operation.
\<close>

unbundle bit_operations_syntax

subsection \<open>Definitions\<close>

text \<open>\<^verbatim>\<open>binary.PutVarint\<close> and \<^verbatim>\<open>binary.Varint\<close>; the number of bytes read is positive on success.\<close>

function PutUvarint :: "u64 \<Rightarrow> bytes" where
  "PutUvarint x =
     (if x < 128 then [ucast x] else (ucast x OR 0x80) # PutUvarint (drop_bit 7 x))"
  by pat_completeness auto
termination
  by (relation "measure unat") (auto simp: word_less_nat_alt unat_drop_bit_eq drop_bit_nat_def)

declare PutUvarint.simps [simp del]

definition zigzag :: "int \<Rightarrow> u64" where
  "zigzag x = (let ux = push_bit 1 (word_of_int x) in if x < 0 then NOT ux else ux)"

definition PutVarint :: "int \<Rightarrow> bytes" where
  "PutVarint x = PutUvarint (zigzag x)"

fun Uvarint_loop :: "nat \<Rightarrow> u64 \<Rightarrow> bytes \<Rightarrow> (u64 \<times> int)" where
  "Uvarint_loop i x [] = (0, 0)"
| "Uvarint_loop i x (b # buf) =
     (if b < 0x80 then
        (if i > 9 \<or> i = 9 \<and> b > 1 then (0, - int (i + 1))
         else (x OR push_bit (7 * i) (ucast b), int (i + 1)))
      else Uvarint_loop (Suc i) (x OR push_bit (7 * i) (ucast (b AND 0x7f))) buf)"

definition Varint :: "bytes \<Rightarrow> int \<times> int" where
  "Varint buf =
     (let (ux, n) = Uvarint_loop 0 0 buf;
          x = drop_bit 1 ux
      in (sint (if bit ux 0 then NOT x else x), n))"

record rlp_codec =
  rlp_Encode :: "Node \<Rightarrow> bytes option"
  rlp_Decode :: "bytes \<Rightarrow> Node option"

text \<open>The error of a failed encoding.\<close>

definition rlp_error :: go_error where
  "rlp_error = OtherError 25"

definition zero_hash :: Hash where
  "zero_hash = replicate 32 0"

definition rlp_fields :: "Node \<Rightarrow> Node" where
  "rlp_fields n = n\<lparr>nd_IP := Some (nd_ip n), nd_PeerInfo := None, nd_sha := zero_hash, nd_addedAt := 0\<rparr>"

definition rlp_ok :: "rlp_codec \<Rightarrow> bool" where
  "rlp_ok R \<longleftrightarrow>
     (\<forall>n b. rlp_Encode R n = Some b \<longrightarrow> rlp_Decode R b = Some (rlp_fields n))
     \<and> (\<forall>b n. rlp_Decode R b = Some n \<longrightarrow> rlp_fields n = n)"

record nodeDB =
  ndb_lvl :: LDBDatabase
  ndb_self :: NodeID

definition ascii :: "string \<Rightarrow> bytes" where
  "ascii s = map of_char s"

definition nodeDBVersionKey :: bytes where
  "nodeDBVersionKey = ascii ''version''"

definition nodeDBItemPrefix :: bytes where
  "nodeDBItemPrefix = ascii ''n:''"

definition nodeDBDiscoverRoot :: bytes where
  "nodeDBDiscoverRoot = ascii '':discover''"

definition nodeDBDiscoverPing :: bytes where
  "nodeDBDiscoverPing = nodeDBDiscoverRoot @ ascii '':lastping''"

definition nodeDBDiscoverPong :: bytes where
  "nodeDBDiscoverPong = nodeDBDiscoverRoot @ ascii '':lastpong''"

definition nodeDBDiscoverFindFails :: bytes where
  "nodeDBDiscoverFindFails = nodeDBDiscoverRoot @ ascii '':findfail''"

text \<open>Durations in nanoseconds.\<close>

definition seconds :: "int \<Rightarrow> int" where
  "seconds n = n * 10 ^ 9"

definition nodeDBNodeExpiration :: int where
  "nodeDBNodeExpiration = seconds (24 * 3600)"

definition unixToInternal :: int where
  "unixToInternal = 62135596800"

definition time_Unix :: "int \<Rightarrow> int" where
  "time_Unix sec = seconds (i64 (sec + unixToInternal))"

definition time_unix_of :: "int \<Rightarrow> int" where
  "time_unix_of t = i64 (t div 10 ^ 9 - unixToInternal)"

text \<open>\<^verbatim>\<open>Time.Sub\<close> saturates.\<close>

definition time_Sub :: "int \<Rightarrow> int \<Rightarrow> int" where
  "time_Sub t u = max (- (2 ^ 63)) (min (2 ^ 63 - 1) (t - u))"

definition newMemoryNodeDB :: "(ldb_op \<Rightarrow> bytes \<Rightarrow> go_error option) \<Rightarrow> NodeID \<Rightarrow> nodeDB" where
  "newMemoryNodeDB fault self = \<lparr>ndb_lvl = NewLDBDatabase fault [], ndb_self = self\<rparr>"

text \<open>
  \<^verbatim>\<open>newPersistentNodeDB\<close> on the opened store \<open>lvl\<close>: a store of another version is removed and opened again,
  empty, which stores the version. An error of \<^verbatim>\<open>Get\<close> other than \<^verbatim>\<open>ErrNotFound\<close> is ignored.
\<close>

definition nodeDBVersion :: int where
  "nodeDBVersion = 5"

definition put_version :: "int \<Rightarrow> LDBDatabase \<Rightarrow> NodeID \<Rightarrow> nodeDB res" where
  "put_version version lvl self =
     (case Ldb_Put nodeDBVersionKey (PutVarint version) lvl of
        (Some e, _) \<Rightarrow> Fail e
      | (None, lvl') \<Rightarrow> Ret \<lparr>ndb_lvl = lvl', ndb_self = self\<rparr>)"

definition newPersistentNodeDB :: "int \<Rightarrow> LDBDatabase \<Rightarrow> NodeID \<Rightarrow> nodeDB res" where
  "newPersistentNodeDB version lvl self =
     (case Ldb_Get nodeDBVersionKey lvl of
        Ret blob \<Rightarrow>
          if blob \<noteq> PutVarint version then
            (let fresh = NewLDBDatabase (ldb_fault lvl) []
             in case Ldb_Get nodeDBVersionKey fresh of
                  Fail LdbErrNotFound \<Rightarrow> put_version version fresh self
                | _ \<Rightarrow> Ret \<lparr>ndb_lvl = fresh, ndb_self = self\<rparr>)
          else Ret \<lparr>ndb_lvl = lvl, ndb_self = self\<rparr>
      | Fail LdbErrNotFound \<Rightarrow> put_version version lvl self
      | _ \<Rightarrow> Ret \<lparr>ndb_lvl = lvl, ndb_self = self\<rparr>)"

definition makeKey :: "NodeID \<Rightarrow> bytes \<Rightarrow> bytes" where
  "makeKey id0 field = (if id0 = EmptyNodeID then field else nodeDBItemPrefix @ id0 @ field)"

text \<open>\<^verbatim>\<open>item[:len(id)]\<close> panics when the key is too short.\<close>

definition splitKey :: "bytes \<Rightarrow> (NodeID \<times> bytes) res" where
  "splitKey key =
     (if \<not> HasPrefix key nodeDBItemPrefix then Ret (EmptyNodeID, key)
      else
        (let item = drop (length nodeDBItemPrefix) key
         in if length item < SizeNodeID then Panic
            else Ret (take SizeNodeID item, drop SizeNodeID item)))"

definition fetchInt64 :: "nodeDB \<Rightarrow> bytes \<Rightarrow> int" where
  "fetchInt64 db key =
     (case Ldb_Get key (ndb_lvl db) of
        Ret blob \<Rightarrow> (let (val, read) = Varint blob in if read \<le> 0 then 0 else val)
      | _ \<Rightarrow> 0)"

definition storeInt64 :: "bytes \<Rightarrow> int \<Rightarrow> nodeDB \<Rightarrow> go_error option \<times> nodeDB" where
  "storeInt64 key n db =
     (case Ldb_Put key (PutVarint n) (ndb_lvl db) of (err, lvl) \<Rightarrow> (err, db\<lparr>ndb_lvl := lvl\<rparr>))"

definition ndb_node :: "rlp_codec \<Rightarrow> (bytes \<Rightarrow> Hash) \<Rightarrow> nodeDB \<Rightarrow> NodeID \<Rightarrow> Node option" where
  "ndb_node R keccak db id0 =
     (case Ldb_Get (makeKey id0 nodeDBDiscoverRoot) (ndb_lvl db) of
        Ret blob \<Rightarrow>
          (case rlp_Decode R blob of
             Some node \<Rightarrow> Some (node\<lparr>nd_sha := keccak (nd_ID node)\<rparr>)
           | None \<Rightarrow> None)
      | _ \<Rightarrow> None)"

definition updateNode :: "rlp_codec \<Rightarrow> Node \<Rightarrow> nodeDB \<Rightarrow> go_error option \<times> nodeDB" where
  "updateNode R node db =
     (case rlp_Encode R node of
        Some blob \<Rightarrow>
          (case Ldb_Put (makeKey (nd_ID node) nodeDBDiscoverRoot) blob (ndb_lvl db) of
             (err, lvl) \<Rightarrow> (err, db\<lparr>ndb_lvl := lvl\<rparr>))
      | None \<Rightarrow> (Some rlp_error, db))"

fun delete_each :: "bytes list \<Rightarrow> LDBDatabase \<Rightarrow> go_error option \<times> LDBDatabase" where
  "delete_each [] lvl = (None, lvl)"
| "delete_each (k # ks) lvl =
     (case Ldb_Delete k lvl of
        (Some e, lvl') \<Rightarrow> (Some e, lvl')
      | (None, lvl') \<Rightarrow> delete_each ks lvl')"

definition ndb_deleteNode :: "NodeID \<Rightarrow> nodeDB \<Rightarrow> go_error option \<times> nodeDB" where
  "ndb_deleteNode id0 db =
     (let deleter = open_iter (Some (BytesPrefix (makeKey id0 []))) (ndb_lvl db)
      in case delete_each (map fst (it_entries deleter)) (ndb_lvl db) of
           (err, lvl) \<Rightarrow> (err, db\<lparr>ndb_lvl := lvl\<rparr>))"

definition lastPingReceived :: "nodeDB \<Rightarrow> NodeID \<Rightarrow> int" where
  "lastPingReceived db id0 = time_Unix (fetchInt64 db (makeKey id0 nodeDBDiscoverPing))"

definition updateLastPingReceived :: "NodeID \<Rightarrow> int \<Rightarrow> nodeDB \<Rightarrow> go_error option \<times> nodeDB" where
  "updateLastPingReceived id0 t = storeInt64 (makeKey id0 nodeDBDiscoverPing) (time_unix_of t)"

definition lastPongReceived :: "nodeDB \<Rightarrow> NodeID \<Rightarrow> int" where
  "lastPongReceived db id0 = time_Unix (fetchInt64 db (makeKey id0 nodeDBDiscoverPong))"

definition updateLastPongReceived :: "NodeID \<Rightarrow> int \<Rightarrow> nodeDB \<Rightarrow> go_error option \<times> nodeDB" where
  "updateLastPongReceived id0 t = storeInt64 (makeKey id0 nodeDBDiscoverPong) (time_unix_of t)"

definition hasBond :: "int \<Rightarrow> nodeDB \<Rightarrow> NodeID \<Rightarrow> bool" where
  "hasBond now db id0 = (time_Sub now (lastPongReceived db id0) < nodeDBNodeExpiration)"

definition findFails :: "nodeDB \<Rightarrow> NodeID \<Rightarrow> int" where
  "findFails db id0 = fetchInt64 db (makeKey id0 nodeDBDiscoverFindFails)"

definition updateFindFails :: "NodeID \<Rightarrow> int \<Rightarrow> nodeDB \<Rightarrow> go_error option \<times> nodeDB" where
  "updateFindFails id0 fails = storeInt64 (makeKey id0 nodeDBDiscoverFindFails) fails"

text \<open>The loop of \<^verbatim>\<open>expireNodes\<close> over the keys of its iterator, which reads a snapshot.\<close>

fun expire_loop :: "int \<Rightarrow> bytes list \<Rightarrow> nodeDB \<Rightarrow> nodeDB res" where
  "expire_loop threshold [] db = Ret db"
| "expire_loop threshold (key # keys) db =
     res_bind (splitKey key) (\<lambda>(id0, field).
       if field \<noteq> nodeDBDiscoverRoot then expire_loop threshold keys db
       else if id0 \<noteq> ndb_self db \<and> lastPongReceived db id0 > threshold then expire_loop threshold keys db
       else expire_loop threshold keys (snd (ndb_deleteNode id0 db)))"

definition expireNodes :: "int \<Rightarrow> nodeDB \<Rightarrow> nodeDB res" where
  "expireNodes now db =
     expire_loop (now - nodeDBNodeExpiration) (map fst (it_entries (open_iter None (ndb_lvl db)))) db"

text \<open>\<^verbatim>\<open>nextNode\<close> reads from where the iterator stands; past the end its key is nil, which is no node.\<close>

fun nextNode :: "rlp_codec \<Rightarrow> kv_list \<Rightarrow> Node option res" where
  "nextNode R [] = Ret None"
| "nextNode R ((key, v) # kvs) =
     res_bind (splitKey key) (\<lambda>(id0, field).
       if field \<noteq> nodeDBDiscoverRoot then nextNode R kvs
       else (case rlp_Decode R v of
               Some n \<Rightarrow> Ret (Some n)
             | None \<Rightarrow> nextNode R kvs))"

text \<open>
  The loop of \<^verbatim>\<open>querySeeds\<close>: \<open>rnd\<close> are the identifiers read from the random source, one for each of the
  at most \<open>5 n\<close> seeks; \<open>id0\<close> is the identifier of the last seek.
\<close>

fun querySeeds_loop ::
  "rlp_codec \<Rightarrow> int \<Rightarrow> nat \<Rightarrow> int \<Rightarrow> nodeDB \<Rightarrow> NodeID list \<Rightarrow> NodeID \<Rightarrow> Node list \<Rightarrow> Node list res" where
  "querySeeds_loop R now n maxAge db [] id0 nodes = Ret nodes"
| "querySeeds_loop R now n maxAge db (r # rnd) id0 nodes =
     (if \<not> length nodes < n then Ret nodes
      else
        (let id1 = (case r of [] \<Rightarrow> [] | c # cs \<Rightarrow> (hd id0 + c mod 16) # cs);
             kvs = dropWhile (\<lambda>kv. fst kv < makeKey id1 nodeDBDiscoverRoot) (ldb_kvs (ndb_lvl db))
         in res_bind (nextNode R kvs) (\<lambda>nx.
              case nx of
                None \<Rightarrow> querySeeds_loop R now n maxAge db rnd (0 # tl id1) nodes
              | Some nd \<Rightarrow>
                  if nd_ID nd = ndb_self db then querySeeds_loop R now n maxAge db rnd id1 nodes
                  else if time_Sub now (lastPongReceived db (nd_ID nd)) > maxAge
                  then querySeeds_loop R now n maxAge db rnd id1 nodes
                  else if nd_ID nd \<in> nd_ID ` set nodes then querySeeds_loop R now n maxAge db rnd id1 nodes
                  else querySeeds_loop R now n maxAge db rnd id1 (nodes @ [nd]))))"

definition querySeeds :: "rlp_codec \<Rightarrow> int \<Rightarrow> nat \<Rightarrow> int \<Rightarrow> (nat \<Rightarrow> NodeID) \<Rightarrow> nodeDB \<Rightarrow> Node list res" where
  "querySeeds R now n maxAge rnd db =
     querySeeds_loop R now n maxAge db (map rnd [0..<n * 5]) EmptyNodeID []"

text \<open>What the functions that follow rely on: the calls succeed and the keys are those of nodes or plain fields.\<close>

definition node_key_ok :: "bytes \<Rightarrow> bool" where
  "node_key_ok k \<longleftrightarrow>
     (if HasPrefix k nodeDBItemPrefix
      then SizeNodeID \<le> length (drop 2 k) \<and> take SizeNodeID (drop 2 k) \<noteq> EmptyNodeID
      else k \<noteq> nodeDBDiscoverRoot)"

definition node_db_ok :: "nodeDB \<Rightarrow> bool" where
  "node_db_ok db \<longleftrightarrow>
     no_fault (ndb_lvl db) \<and> ldb_ok (ndb_lvl db) \<and> (\<forall>k. ldb_view (ndb_lvl db) k \<noteq> None \<longrightarrow> node_key_ok k)"

definition node_id_ok :: "NodeID \<Rightarrow> bool" where
  "node_id_ok id0 \<longleftrightarrow> length id0 = SizeNodeID \<and> id0 \<noteq> EmptyNodeID"

text \<open>The nodes \<^verbatim>\<open>expireNodes\<close> drops: the local one and those without a pong after the threshold.\<close>

definition node_expired :: "int \<Rightarrow> nodeDB \<Rightarrow> NodeID \<Rightarrow> bool" where
  "node_expired threshold db id0 \<longleftrightarrow>
     node_id_ok id0 \<and> ldb_view (ndb_lvl db) (makeKey id0 nodeDBDiscoverRoot) \<noteq> None
     \<and> (id0 = ndb_self db \<or> lastPongReceived db id0 \<le> threshold)"

text \<open>The nodes to drop among a list of keys.\<close>

definition expired_in :: "int \<Rightarrow> nodeDB \<Rightarrow> bytes list \<Rightarrow> NodeID set" where
  "expired_in threshold db keys =
     {id0. node_id_ok id0 \<and> makeKey id0 nodeDBDiscoverRoot \<in> set keys
           \<and> (id0 = ndb_self db \<or> lastPongReceived db id0 \<le> threshold)}"

text \<open>What \<^verbatim>\<open>querySeeds\<close> may return: records of the database, of distinct nodes heard of recently.\<close>

definition seeds_ok :: "rlp_codec \<Rightarrow> int \<Rightarrow> nat \<Rightarrow> int \<Rightarrow> nodeDB \<Rightarrow> Node list \<Rightarrow> bool" where
  "seeds_ok R now n maxAge db nodes \<longleftrightarrow>
     length nodes \<le> n \<and> distinct (map nd_ID nodes)
     \<and> (\<forall>nd \<in> set nodes. nd_ID nd \<noteq> ndb_self db \<and> time_Sub now (lastPongReceived db (nd_ID nd)) \<le> maxAge
          \<and> (\<exists>id0 v. node_id_ok id0 \<and> (makeKey id0 nodeDBDiscoverRoot, v) \<in> set (ldb_kvs (ndb_lvl db))
                \<and> rlp_Decode R v = Some nd))"

text \<open>All node records of the database that can be decoded satisfy \<open>Q\<close>.\<close>

definition db_records :: "rlp_codec \<Rightarrow> (Node \<Rightarrow> bool) \<Rightarrow> nodeDB \<Rightarrow> bool" where
  "db_records R Q db \<longleftrightarrow>
     node_db_ok db \<and>
     (\<forall>id0 v n. node_id_ok id0 \<and> ldb_view (ndb_lvl db) (makeKey id0 nodeDBDiscoverRoot) = Some v \<and> rlp_Decode R v = Some n
        \<longrightarrow> Q n)"

subsection \<open>Variable-length integers\<close>

lemma ucast_low_bits: "bit (ucast (x :: u64) :: byte) i \<longleftrightarrow> i < 8 \<and> bit x i"
  by (auto simp: bit_ucast_iff)

lemma and_low7: "b AND 0x7f = take_bit 7 (b :: byte)"
  by (simp add: take_bit_eq_mask mask_eq_exp_minus_1)

lemma or_high1: "b OR 0x80 = set_bit 7 (b :: byte)"
  by (simp add: set_bit_eq_or)

lemma varint_digit: "(ucast x OR 0x80) AND 0x7f = (ucast x AND 0x7f :: byte)" for x :: u64
  unfolding and_low7 or_high1 by (rule bit_word_eqI) (auto simp: bit_take_bit_iff bit_set_bit_iff)

lemma varint_more: "\<not> ucast (x :: u64) OR (0x80 :: byte) < 0x80"
proof
  assume "ucast x OR (0x80 :: byte) < 0x80"
  then have "unat (set_bit 7 (ucast x) :: byte) < 2 ^ 7" unfolding or_high1 by (simp add: word_less_nat_alt)
  then have "\<not> bit (unat (set_bit 7 (ucast x) :: byte)) 7" by (simp add: bit_iff_odd)
  then have "\<not> bit (set_bit 7 (ucast x) :: byte) 7" by (simp add: bit_unsigned_iff)
  then show False by (simp add: bit_set_bit_iff)
qed

lemma varint_split:
  "push_bit s (ucast (ucast x AND (0x7f :: byte))) OR push_bit (s + 7) (drop_bit 7 x) = push_bit s (x :: u64)"
proof (rule bit_word_eqI)
  fix n assume "n < LENGTH(64)"
  then have n: "n < 64" by simp
  have "bit (push_bit s (ucast (ucast x AND (0x7f :: byte))) OR push_bit (s + 7) (drop_bit 7 x)) n \<longleftrightarrow>
      s \<le> n \<and> n - s < 7 \<and> bit x (n - s) \<or> s + 7 \<le> n \<and> bit x (7 + (n - (s + 7)))"
    unfolding and_low7 using n by (auto simp: bit_or_iff bit_push_bit_iff bit_ucast_iff bit_take_bit_iff bit_drop_bit_eq)
  also have "\<dots> \<longleftrightarrow> s \<le> n \<and> bit x (n - s)"
  proof (cases "s + 7 \<le> n")
    case True
    then have "7 + (n - (s + 7)) = n - s" by linarith
    with True show ?thesis by auto
  next
    case False
    then show ?thesis by auto
  qed
  also have "\<dots> \<longleftrightarrow> bit (push_bit s x) n" using n by (simp add: bit_push_bit_iff)
  finally show "bit (push_bit s (ucast (ucast x AND (0x7f :: byte))) OR push_bit (s + 7) (drop_bit 7 x)) n \<longleftrightarrow> bit (push_bit s x) n" .
qed

lemma Uvarint_PutUvarint:
  assumes "i \<le> 9" "unat x < 2 ^ (64 - 7 * i)"
  shows "\<exists>n > 0. Uvarint_loop i acc (PutUvarint x) = (acc OR push_bit (7 * i) x, n)"
  using assms
proof (induction x arbitrary: i acc rule: PutUvarint.induct)
  case (1 x)
  show ?case
  proof (cases "x < 128")
    case True
    have byte: "unat (ucast x :: byte) = unat x"
      using True by (simp add: word_less_nat_alt unsigned_ucast_eq take_bit_nat_eq_self)
    have "ucast (ucast x :: byte) = x"
    proof (rule word_unat_eq_iff [THEN iffD2])
      have "unat (ucast (ucast x :: byte) :: u64) = unat (ucast x :: byte)"
        using unat_byte_bound [of "ucast x"] by (simp add: unsigned_ucast_eq [of "ucast x :: byte"] take_bit_nat_eq_self)
      then show "unat (ucast (ucast x :: byte) :: u64) = unat x" using byte by simp
    qed
    moreover have "(ucast x :: byte) < 0x80" using True byte by (simp add: word_less_nat_alt)
    moreover have "\<not> (i = 9 \<and> (ucast x :: byte) > 1)"
      using 1(3) byte by (auto simp: word_less_nat_alt)
    ultimately show ?thesis using True 1(2) by (subst PutUvarint.simps) simp
  next
    case False
    then have ge: "128 \<le> unat x" by (simp add: word_less_nat_alt)
    have i: "i \<le> 8"
    proof (rule ccontr)
      assume "\<not> i \<le> 8"
      then have "i = 9" using 1(2) by simp
      then show False using 1(3) ge by simp
    qed
    have "(2 :: nat) ^ (64 - 7 * i) = 2 ^ (64 - 7 * Suc i) * 128"
    proof -
      have "64 - 7 * i = (64 - 7 * Suc i) + 7" using i by simp
      then show ?thesis by (simp only: power_add) simp
    qed
    then have "unat (drop_bit 7 x) < 2 ^ (64 - 7 * Suc i)"
      using 1(3) by (simp add: unat_drop_bit_eq drop_bit_nat_def less_mult_imp_div_less)
    from 1(1) [OF False _ this] i obtain n where n: "n > 0"
      "Uvarint_loop (Suc i) (acc OR push_bit (7 * i) (ucast (ucast x AND (0x7f :: byte)))) (PutUvarint (drop_bit 7 x)) =
        ((acc OR push_bit (7 * i) (ucast (ucast x AND (0x7f :: byte)))) OR push_bit (7 * Suc i) (drop_bit 7 x), n)"
      by (metis Suc_le_mono eval_nat_numeral(3))
    have "(acc OR push_bit (7 * i) (ucast (ucast x AND (0x7f :: byte)))) OR push_bit (7 * Suc i) (drop_bit 7 x)
        = acc OR push_bit (7 * i) x"
      using varint_split [of "7 * i" x] by (simp add: or.assoc add.commute)
    moreover have "PutUvarint x = (ucast x OR 0x80) # PutUvarint (drop_bit 7 x)"
      using False by (subst PutUvarint.simps) simp
    ultimately show ?thesis using n varint_more [of x] by (intro exI [of _ n]) (simp add: varint_digit)
  qed
qed

lemma bit_double: "bit (push_bit 1 (w :: u64)) n \<longleftrightarrow> 1 \<le> n \<and> n < 64 \<and> bit w (n - 1)"
  by (simp only: bit_push_bit_iff possible_bit_word) auto

lemma zigzag_bit0: "bit (zigzag x) 0 \<longleftrightarrow> x < 0"
proof (cases "x < 0")
  case True
  then show ?thesis unfolding zigzag_def Let_def by (simp only: if_True bit_not_iff bit_double possible_bit_word) simp
next
  case False
  then show ?thesis unfolding zigzag_def Let_def by (simp only: if_False bit_double) simp
qed

lemma zigzag_rest:
  assumes "in_i64 x"
  shows "sint (if x < 0 then NOT (drop_bit 1 (zigzag x)) else drop_bit 1 (zigzag x)) = x"
proof -
  define w :: u64 where "w = word_of_int x"
  have sx: "sint w = x" using assms by (simp add: w_def in_i64_def sint_word_of_int_i64)
  have neg: "bit w 63 \<longleftrightarrow> x < 0"
    using sx bit_last_iff [of w] by simp
  have up: "bit w n \<longleftrightarrow> x < 0" if "n < 64" "\<not> Suc n < 64" for n
  proof -
    have "n = 63" using that by simp
    with neg show ?thesis by simp
  qed
  show ?thesis
  proof (cases "x < 0")
    case True
    have "NOT (drop_bit 1 (NOT (push_bit 1 w))) = w"
    proof (rule bit_word_eqI)
      fix n assume "n < LENGTH(64)"
      then have n: "n < 64" by simp
      have "bit (NOT (drop_bit 1 (NOT (push_bit 1 w)))) n \<longleftrightarrow> \<not> (Suc n < 64 \<and> \<not> bit w n)"
        using n by (simp only: bit_not_iff bit_drop_bit_eq o_apply bit_double possible_bit_word) auto
      then show "bit (NOT (drop_bit 1 (NOT (push_bit 1 w)))) n \<longleftrightarrow> bit w n"
        using up [OF n] True by auto
    qed
    then show ?thesis using True sx unfolding zigzag_def w_def Let_def by simp
  next
    case False
    have "drop_bit 1 (push_bit 1 w) = w"
    proof (rule bit_word_eqI)
      fix n assume "n < LENGTH(64)"
      then have n: "n < 64" by simp
      have "bit (drop_bit 1 (push_bit 1 w)) n \<longleftrightarrow> Suc n < 64 \<and> bit w n"
        by (simp only: bit_drop_bit_eq o_apply bit_double) auto
      then show "bit (drop_bit 1 (push_bit 1 w)) n \<longleftrightarrow> bit w n"
        using up [OF n] False by auto
    qed
    then show ?thesis using False sx unfolding zigzag_def w_def Let_def by simp
  qed
qed

lemma Varint_PutVarint:
  assumes "in_i64 x"
  shows "\<exists>n > 0. Varint (PutVarint x) = (x, n)"
proof -
  have "unat (zigzag x) < 2 ^ (64 - 7 * 0)" using unat_u64_bound [of "zigzag x"] by simp
  from Uvarint_PutUvarint [OF _ this, of 0] obtain n where "n > 0" "Uvarint_loop 0 0 (PutVarint x) = (zigzag x, n)"
    by (auto simp: PutVarint_def)
  then show ?thesis using zigzag_rest [OF assms] zigzag_bit0 [of x] by (auto simp: Varint_def)
qed

subsection \<open>Keys\<close>

lemma item_prefix: "nodeDBItemPrefix = [0x6e, 0x3a]"
  by (simp add: nodeDBItemPrefix_def ascii_def)

lemma makeKey_id: "node_id_ok id0 \<Longrightarrow> makeKey id0 field = nodeDBItemPrefix @ id0 @ field"
  by (simp add: makeKey_def node_id_ok_def)

lemma splitKey_makeKey: "node_id_ok id0 \<Longrightarrow> splitKey (makeKey id0 field) = Ret (id0, field)"
  by (simp add: makeKey_id splitKey_def HasPrefix_def node_id_ok_def item_prefix)

lemma splitKey_cases:
  assumes "node_key_ok k"
  obtains (plain) "\<not> HasPrefix k nodeDBItemPrefix" "splitKey k = Ret (EmptyNodeID, k)" "k \<noteq> nodeDBDiscoverRoot"
  | (node) id0 field where "node_id_ok id0" "k = makeKey id0 field" "splitKey k = Ret (id0, field)"
proof (cases "HasPrefix k nodeDBItemPrefix")
  case False
  then show ?thesis using assms plain by (simp add: node_key_ok_def splitKey_def)
next
  case True
  define id0 where "id0 = take SizeNodeID (drop 2 k)"
  define field where "field = drop SizeNodeID (drop 2 k)"
  have ok: "node_id_ok id0"
    using assms True unfolding node_key_ok_def node_id_ok_def id0_def by simp
  have "k = nodeDBItemPrefix @ drop 2 k" using True by (metis HasPrefix_def append_take_drop_id item_prefix length_Cons list.size(3) One_nat_def Suc_1)
  also have "drop 2 k = id0 @ field" unfolding id0_def field_def by (rule append_take_drop_id [symmetric])
  finally have "k = makeKey id0 field" using ok by (simp add: makeKey_id)
  then show ?thesis using node [OF ok, of field] splitKey_makeKey [OF ok, of field] by simp
qed

lemma makeKey_inj:
  assumes "node_id_ok a" "node_id_ok b"
  shows "makeKey a f = makeKey b g \<longleftrightarrow> a = b \<and> f = g"
  using assms by (auto simp: makeKey_id node_id_ok_def)

lemma makeKey_prefix:
  assumes "node_id_ok a" "node_id_ok b"
  shows "HasPrefix (makeKey a f) (makeKey b []) \<longleftrightarrow> a = b"
  using assms by (auto simp: makeKey_id node_id_ok_def HasPrefix_iff)

lemma fields_distinct:
  "nodeDBDiscoverPing \<noteq> nodeDBDiscoverPong" "nodeDBDiscoverPing \<noteq> nodeDBDiscoverFindFails"
  "nodeDBDiscoverPong \<noteq> nodeDBDiscoverFindFails" "nodeDBDiscoverRoot \<noteq> nodeDBDiscoverPing"
  "nodeDBDiscoverRoot \<noteq> nodeDBDiscoverPong" "nodeDBDiscoverRoot \<noteq> nodeDBDiscoverFindFails"
  by (simp_all add: nodeDBDiscoverPing_def nodeDBDiscoverPong_def nodeDBDiscoverFindFails_def ascii_def)

subsection \<open>Reading and writing\<close>

lemma fetchInt64_view:
  "no_fault (ndb_lvl db) \<Longrightarrow> fetchInt64 db key =
    (case ldb_view (ndb_lvl db) key of
       None \<Rightarrow> 0 | Some blob \<Rightarrow> if snd (Varint blob) \<le> 0 then 0 else fst (Varint blob))"
  by (simp add: fetchInt64_def Ldb_Get_def no_fault_def ldb_view_def split: option.split prod.split)

lemma storeInt64_view:
  assumes "no_fault (ndb_lvl db)"
  shows "\<exists>db'. storeInt64 key n db = (None, db') \<and> no_fault (ndb_lvl db') \<and> ndb_self db' = ndb_self db
    \<and> (ldb_ok (ndb_lvl db) \<longrightarrow> ldb_ok (ndb_lvl db'))
    \<and> ldb_view (ndb_lvl db') = (ldb_view (ndb_lvl db))(key \<mapsto> PutVarint n)"
  using assms by (simp add: storeInt64_def Ldb_Put_def no_fault_def ldb_view_def ldb_ok_def)

lemma fetch_after_store:
  assumes "no_fault (ndb_lvl db)" "in_i64 n"
  shows "fetchInt64 (snd (storeInt64 key n db)) key' = (if key' = key then n else fetchInt64 db key')"
proof -
  obtain m where m: "m > 0" "Varint (PutVarint n) = (n, m)" using Varint_PutVarint [OF assms(2)] by blast
  obtain db' where db': "storeInt64 key n db = (None, db')" "no_fault (ndb_lvl db')"
    "ldb_view (ndb_lvl db') = (ldb_view (ndb_lvl db))(key \<mapsto> PutVarint n)"
    using storeInt64_view [OF assms(1), of key n] by blast
  show ?thesis using m db' assms(1) by (simp add: fetchInt64_view)
qed

lemma delete_each_eq:
  "no_fault lvl \<Longrightarrow> delete_each ks lvl = (None, lvl\<lparr>ldb_kvs := filter (\<lambda>kv. fst kv \<notin> set ks) (ldb_kvs lvl)\<rparr>)"
proof (induction ks arbitrary: lvl)
  case (Cons k ks)
  let ?lvl = "lvl\<lparr>ldb_kvs := kv_del k (ldb_kvs lvl)\<rparr>"
  have "no_fault ?lvl" using Cons.prems by (simp add: no_fault_def)
  moreover have "delete_each (k # ks) lvl = delete_each ks ?lvl"
    using Cons.prems by (simp add: Ldb_Delete_def no_fault_def)
  ultimately show ?case using Cons.IH [of ?lvl] by (simp add: kv_del_def conj_commute)
qed simp

lemma ndb_deleteNode_eq:
  assumes "no_fault (ndb_lvl db)"
  shows "ndb_deleteNode id0 db = (None, db\<lparr>ndb_lvl := without_prefix (makeKey id0 []) (ndb_lvl db)\<rparr>)"
proof -
  let ?p = "makeKey id0 []"
  have e: "it_entries (open_iter (Some (BytesPrefix ?p)) (ndb_lvl db)) = filter (\<lambda>kv. HasPrefix (fst kv) ?p) (ldb_kvs (ndb_lvl db))"
    by (simp add: open_iter_def in_range_prefix)
  have "filter (\<lambda>kv. fst kv \<notin> fst ` set (filter (\<lambda>kv. HasPrefix (fst kv) ?p) (ldb_kvs (ndb_lvl db)))) (ldb_kvs (ndb_lvl db)) =
      filter (\<lambda>kv. \<not> HasPrefix (fst kv) ?p) (ldb_kvs (ndb_lvl db))"
    by (intro filter_cong) auto
  then show ?thesis by (simp add: ndb_deleteNode_def Let_def e delete_each_eq [OF assms] without_prefix_def)
qed

lemma ldb_ok_without_prefix: "ldb_ok lvl \<Longrightarrow> ldb_ok (without_prefix p lvl)"
  by (simp add: ldb_ok_def without_prefix_def kv_sorted_def sorted_wrt_map sorted_wrt_filter)

subsection \<open>Expiry\<close>

lemma lastPong_cong:
  assumes "no_fault (ndb_lvl db)" "no_fault (ndb_lvl db')"
    "ldb_view (ndb_lvl db') (makeKey id0 nodeDBDiscoverPong) = ldb_view (ndb_lvl db) (makeKey id0 nodeDBDiscoverPong)"
  shows "lastPongReceived db' id0 = lastPongReceived db id0"
  using assms by (simp add: lastPongReceived_def fetchInt64_view)

lemma expire_loop_view:
  assumes "no_fault (ndb_lvl db)" "\<forall>k \<in> set keys. node_key_ok k" "distinct keys"
  shows "\<exists>db'. expire_loop threshold keys db = Ret db' \<and> ndb_self db' = ndb_self db \<and> no_fault (ndb_lvl db')
    \<and> (ldb_ok (ndb_lvl db) \<longrightarrow> ldb_ok (ndb_lvl db'))
    \<and> (\<forall>k. ldb_view (ndb_lvl db') k =
          (if \<exists>id0 \<in> expired_in threshold db keys. HasPrefix k (makeKey id0 []) then None
           else ldb_view (ndb_lvl db) k))"
  using assms
proof (induction keys arbitrary: db)
  case Nil
  then show ?case by (simp add: expired_in_def)
next
  case (Cons key keys)
  have "node_key_ok key" using Cons.prems(2) by simp
  then show ?case
  proof (cases rule: splitKey_cases)
    case plain
    have "expired_in threshold db (key # keys) = expired_in threshold db keys"
      using plain(1) by (auto simp: expired_in_def makeKey_id HasPrefix_iff)
    then show ?thesis using Cons.IH [OF Cons.prems(1)] Cons.prems(2,3) plain by simp
  next
    case (node id0 field)
    show ?thesis
    proof (cases "field = nodeDBDiscoverRoot \<and> (id0 = ndb_self db \<or> lastPongReceived db id0 \<le> threshold)")
      case False
      have "expired_in threshold db (key # keys) = expired_in threshold db keys"
        using node(1,2) False by (auto simp: expired_in_def makeKey_inj)
      moreover have "expire_loop threshold (key # keys) db = expire_loop threshold keys db"
        using node(3) False by auto
      ultimately show ?thesis using Cons.IH [OF Cons.prems(1)] Cons.prems(2,3) by simp
    next
      case True
      define db1 where "db1 = db\<lparr>ndb_lvl := without_prefix (makeKey id0 []) (ndb_lvl db)\<rparr>"
      have nf: "no_fault (ndb_lvl db1)" using Cons.prems(1) by (simp add: db1_def without_prefix_def no_fault_def)
      have step: "expire_loop threshold (key # keys) db = expire_loop threshold keys db1"
        using node(3) True ndb_deleteNode_eq [OF Cons.prems(1), of id0] by (auto simp: db1_def)
      have pong: "lastPongReceived db1 i = lastPongReceived db i" if "node_id_ok i" "i \<noteq> id0" for i
        using that node(1) by (intro lastPong_cong [OF Cons.prems(1) nf])
          (simp add: db1_def without_prefix_view makeKey_prefix)
      have notin: "makeKey id0 nodeDBDiscoverRoot \<notin> set keys" using Cons.prems(3) node(2) True by auto
      have same: "lastPongReceived db1 i = lastPongReceived db i"
        if "node_id_ok i" "makeKey i nodeDBDiscoverRoot \<in> set keys" for i
        using that pong notin by (cases "i = id0") auto
      have "ndb_self db1 = ndb_self db" by (simp add: db1_def)
      then have e1: "expired_in threshold db1 keys = expired_in threshold db keys"
        unfolding expired_in_def using same by auto
      have e: "expired_in threshold db (key # keys) = insert id0 (expired_in threshold db keys)"
        using node(1,2) True by (auto simp: expired_in_def makeKey_inj)
      obtain db' where db': "expire_loop threshold keys db1 = Ret db'" "ndb_self db' = ndb_self db1" "no_fault (ndb_lvl db')"
        "ldb_ok (ndb_lvl db1) \<longrightarrow> ldb_ok (ndb_lvl db')"
        "\<And>k. ldb_view (ndb_lvl db') k =
          (if \<exists>id0 \<in> expired_in threshold db keys. HasPrefix k (makeKey id0 []) then None else ldb_view (ndb_lvl db1) k)"
        using Cons.IH [OF nf] Cons.prems(2,3) unfolding e1 by auto
      have v1: "ldb_view (ndb_lvl db1) k = (if HasPrefix k (makeKey id0 []) then None else ldb_view (ndb_lvl db) k)" for k
        by (simp add: db1_def without_prefix_view)
      have "ndb_self db' = ndb_self db" using db'(2) by (simp add: db1_def)
      moreover have "ldb_ok (ndb_lvl db) \<Longrightarrow> ldb_ok (ndb_lvl db1)" by (simp add: db1_def ldb_ok_without_prefix)
      ultimately show ?thesis unfolding step e using db'(1,3,4,5) by (intro exI [of _ db'] conjI allI) (auto simp: v1)
    qed
  qed
qed

lemma stored_key_ok: "node_db_ok db \<Longrightarrow> (k, v) \<in> set (ldb_kvs (ndb_lvl db)) \<Longrightarrow> node_key_ok k"
  using kv_get_iff [of "ldb_kvs (ndb_lvl db)" k v] by (auto simp: node_db_ok_def ldb_ok_def ldb_view_def)

lemma expireNodes_view:
  assumes ok: "node_db_ok db"
  shows "\<exists>db'. expireNodes now db = Ret db' \<and> ndb_self db' = ndb_self db \<and> no_fault (ndb_lvl db')
    \<and> (ldb_ok (ndb_lvl db) \<longrightarrow> ldb_ok (ndb_lvl db'))
    \<and> (\<forall>k. ldb_view (ndb_lvl db') k =
          (if \<exists>id0. node_expired (now - nodeDBNodeExpiration) db id0 \<and> HasPrefix k (makeKey id0 []) then None
           else ldb_view (ndb_lvl db) k))"
proof -
  let ?keys = "map fst (ldb_kvs (ndb_lvl db))"
  have nf: "no_fault (ndb_lvl db)" and so: "kv_sorted (ldb_kvs (ndb_lvl db))" using ok by (simp_all add: node_db_ok_def ldb_ok_def)
  have keys: "\<forall>k \<in> set ?keys. node_key_ok k" using stored_key_ok [OF ok] by auto
  have "k \<in> set ?keys \<longleftrightarrow> ldb_view (ndb_lvl db) k \<noteq> None" for k
    by (simp add: ldb_view_def map_of_eq_None_iff)
  then have e: "expired_in (now - nodeDBNodeExpiration) db ?keys = {id0. node_expired (now - nodeDBNodeExpiration) db id0}"
    unfolding expired_in_def node_expired_def by simp
  have "it_entries (open_iter None (ndb_lvl db)) = ldb_kvs (ndb_lvl db)" by (simp add: open_iter_def in_range_def)
  then show ?thesis
    using expire_loop_view [OF nf keys kv_sorted_distinct [OF so], of "now - nodeDBNodeExpiration"]
    by (simp add: expireNodes_def e)
qed

subsection \<open>Seeds\<close>

lemma nextNode_stored:
  assumes "\<forall>(k, v) \<in> set kvs. node_key_ok k"
  shows "\<exists>nx. nextNode R kvs = Ret nx \<and> (\<forall>nd. nx = Some nd \<longrightarrow>
    (\<exists>id0 v. node_id_ok id0 \<and> (makeKey id0 nodeDBDiscoverRoot, v) \<in> set kvs \<and> rlp_Decode R v = Some nd))"
  using assms
proof (induction kvs)
  case (Cons kv kvs)
  obtain k v where kv: "kv = (k, v)" by (cases kv)
  obtain id0 field where sp: "splitKey k = Ret (id0, field)"
    "field = nodeDBDiscoverRoot \<Longrightarrow> node_id_ok id0 \<and> k = makeKey id0 nodeDBDiscoverRoot"
  proof -
    have "node_key_ok k" using Cons.prems kv by simp
    then show thesis by (cases rule: splitKey_cases) (use that in blast)+
  qed
  obtain nx where nx: "nextNode R kvs = Ret nx"
    "\<And>nd. nx = Some nd \<Longrightarrow> \<exists>id0 v. node_id_ok id0 \<and> (makeKey id0 nodeDBDiscoverRoot, v) \<in> set kvs \<and> rlp_Decode R v = Some nd"
    using Cons.IH Cons.prems by auto
  show ?case
  proof (cases "field = nodeDBDiscoverRoot \<and> rlp_Decode R v \<noteq> None")
    case True
    then obtain nd where nd: "rlp_Decode R v = Some nd" by blast
    have "nextNode R (kv # kvs) = Ret (Some nd)" using True nd kv sp by simp
    moreover have "node_id_ok id0" "(makeKey id0 nodeDBDiscoverRoot, v) \<in> set (kv # kvs)" using sp(2) True by (simp_all add: kv)
    ultimately show ?thesis using nd by blast
  next
    case False
    then have "nextNode R (kv # kvs) = Ret nx" using kv sp(1) nx(1) by auto
    moreover have "set kvs \<subseteq> set (kv # kvs)" by auto
    ultimately show ?thesis using nx(2) by blast
  qed
qed simp

lemma querySeeds_loop_ok:
  assumes "node_db_ok db" "seeds_ok R now n maxAge db nodes"
  shows "\<exists>seeds. querySeeds_loop R now n maxAge db rnd id0 nodes = Ret seeds \<and> seeds_ok R now n maxAge db seeds"
  using assms(2)
proof (induction rnd arbitrary: id0 nodes)
  case (Cons r rnd)
  show ?case
  proof (cases "length nodes < n")
    case False
    then show ?thesis using Cons.prems by simp
  next
    case True
    define id1 where "id1 = (case r of [] \<Rightarrow> [] | c # cs \<Rightarrow> (hd id0 + c mod 16) # cs)"
    define kvs where "kvs = dropWhile (\<lambda>kv. fst kv < makeKey id1 nodeDBDiscoverRoot) (ldb_kvs (ndb_lvl db))"
    have sub: "set kvs \<subseteq> set (ldb_kvs (ndb_lvl db))" unfolding kvs_def using set_dropWhileD by fastforce
    then have "\<forall>(k, v) \<in> set kvs. node_key_ok k" using stored_key_ok [OF assms(1)] by auto
    from nextNode_stored [OF this, of R] obtain nx where nx: "nextNode R kvs = Ret nx"
      "\<And>nd. nx = Some nd \<Longrightarrow> \<exists>id0 v. node_id_ok id0 \<and> (makeKey id0 nodeDBDiscoverRoot, v) \<in> set kvs \<and> rlp_Decode R v = Some nd"
      by blast
    have step: "querySeeds_loop R now n maxAge db (r # rnd) id0 nodes =
      (case nx of
         None \<Rightarrow> querySeeds_loop R now n maxAge db rnd (0 # tl id1) nodes
       | Some nd \<Rightarrow>
           if nd_ID nd = ndb_self db \<or> time_Sub now (lastPongReceived db (nd_ID nd)) > maxAge \<or> nd_ID nd \<in> nd_ID ` set nodes
           then querySeeds_loop R now n maxAge db rnd id1 nodes
           else querySeeds_loop R now n maxAge db rnd id1 (nodes @ [nd]))"
      using True nx(1) by (simp add: Let_def id1_def kvs_def split: option.split)
    show ?thesis
    proof (cases nx)
      case None
      then show ?thesis using step Cons.IH [OF Cons.prems] by simp
    next
      case (Some nd)
      show ?thesis
      proof (cases "nd_ID nd = ndb_self db \<or> time_Sub now (lastPongReceived db (nd_ID nd)) > maxAge \<or> nd_ID nd \<in> nd_ID ` set nodes")
        case True
        then show ?thesis using step Some Cons.IH [OF Cons.prems] by simp
      next
        case False
        have "seeds_ok R now n maxAge db (nodes @ [nd])"
          using Cons.prems False \<open>length nodes < n\<close> nx(2) [OF Some] sub unfolding seeds_ok_def by (auto 0 4)
        then show ?thesis using step Some False Cons.IH by simp
      qed
    qed
  qed
qed simp

lemma querySeeds_ok:
  assumes "node_db_ok db"
  shows "\<exists>seeds. querySeeds R now n maxAge rnd db = Ret seeds \<and> seeds_ok R now n maxAge db seeds"
  unfolding querySeeds_def by (rule querySeeds_loop_ok [OF assms]) (simp add: seeds_ok_def)

text \<open>
  The seeds come straight out of the decoder: unlike \<^verbatim>\<open>node\<close>, \<^verbatim>\<open>nextNode\<close> does not compute the hash again,
  so every seed carries the zero hash, which puts it into the bucket of that hash.
\<close>

lemma seeds_have_zero_sha:
  assumes "rlp_ok R" "seeds_ok R now n maxAge db seeds" "nd \<in> set seeds"
  shows "nd_sha nd = zero_hash"
proof -
  obtain v where "rlp_Decode R v = Some nd" using assms(2,3) by (auto simp: seeds_ok_def)
  then have "rlp_fields nd = nd" using assms(1) by (auto simp: rlp_ok_def)
  then have "nd_sha nd = nd_sha (rlp_fields nd)" by simp
  then show ?thesis by (simp add: rlp_fields_def)
qed

subsection \<open>The records a database holds\<close>

lemma node_key_ok_makeKey: "node_id_ok id0 \<Longrightarrow> node_key_ok (makeKey id0 field)"
  by (auto simp: makeKey_id node_key_ok_def node_id_ok_def HasPrefix_iff item_prefix)

lemma db_recordsD:
  assumes "db_records R Q db"
  shows "node_db_ok db" "no_fault (ndb_lvl db)" "ldb_ok (ndb_lvl db)"
    and "ldb_view (ndb_lvl db) k \<noteq> None \<Longrightarrow> node_key_ok k"
    and "node_id_ok id0 \<Longrightarrow> ldb_view (ndb_lvl db) (makeKey id0 nodeDBDiscoverRoot) = Some v \<Longrightarrow> rlp_Decode R v = Some n \<Longrightarrow> Q n"
  using assms unfolding db_records_def node_db_ok_def by blast+

lemma db_records_put:
  assumes "db_records R Q db" "node_id_ok id0" "no_fault (ndb_lvl db')" "ldb_ok (ndb_lvl db')"
    and "ldb_view (ndb_lvl db') = (ldb_view (ndb_lvl db))(makeKey id0 field \<mapsto> b)"
    and "\<And>n. field = nodeDBDiscoverRoot \<Longrightarrow> rlp_Decode R b = Some n \<Longrightarrow> Q n"
  shows "db_records R Q db'"
proof -
  have "node_key_ok k" if "ldb_view (ndb_lvl db') k \<noteq> None" for k
    using that node_key_ok_makeKey [OF assms(2), of field] db_recordsD(4) [OF assms(1), of k] assms(5)
    by (cases "k = makeKey id0 field") simp_all
  moreover have "Q n" if i: "node_id_ok i" and v: "ldb_view (ndb_lvl db') (makeKey i nodeDBDiscoverRoot) = Some v"
    and n: "rlp_Decode R v = Some n" for i v n
  proof (cases "makeKey i nodeDBDiscoverRoot = makeKey id0 field")
    case True
    then have "field = nodeDBDiscoverRoot" using makeKey_inj [OF i assms(2)] by simp
    then show ?thesis using assms(6) v n True by (simp add: assms(5))
  next
    case False
    then show ?thesis using db_recordsD(5) [OF assms(1) i _ n] v by (simp add: assms(5))
  qed
  ultimately show ?thesis using assms(3,4) by (auto simp: db_records_def node_db_ok_def)
qed

lemma storeInt64_records:
  assumes "db_records R Q db" "node_id_ok id0" "field \<noteq> nodeDBDiscoverRoot"
  shows "db_records R Q (snd (storeInt64 (makeKey id0 field) n db))"
proof -
  obtain db' where "storeInt64 (makeKey id0 field) n db = (None, db')" "no_fault (ndb_lvl db')" "ldb_ok (ndb_lvl db')"
    "ldb_view (ndb_lvl db') = (ldb_view (ndb_lvl db))(makeKey id0 field \<mapsto> PutVarint n)"
    using storeInt64_view [OF db_recordsD(2) [OF assms(1)], of "makeKey id0 field" n] db_recordsD(3) [OF assms(1)] by blast
  then show ?thesis using db_records_put [OF assms(1,2), of db' field] assms(3) by simp
qed

lemma field_records:
  assumes "db_records R Q db" "node_id_ok id0"
  shows "db_records R Q (snd (updateLastPingReceived id0 t db))" "db_records R Q (snd (updateLastPongReceived id0 t db))"
    "db_records R Q (snd (updateFindFails id0 k db))"
  using storeInt64_records [OF assms] fields_distinct(4-6) [THEN not_sym]
  by (simp_all add: updateLastPingReceived_def updateLastPongReceived_def updateFindFails_def)

lemma updateNode_records:
  assumes "db_records R Q db" "rlp_ok R" "node_id_ok (nd_ID n)" "Q (rlp_fields n)"
  shows "db_records R Q (snd (updateNode R n db))"
proof (cases "rlp_Encode R n")
  case None
  then show ?thesis using assms(1) by (simp add: updateNode_def)
next
  case (Some b)
  let ?k = "makeKey (nd_ID n) nodeDBDiscoverRoot"
  obtain lvl where lvl: "Ldb_Put ?k b (ndb_lvl db) = (None, lvl)" "no_fault lvl" "ldb_ok lvl" "ldb_view lvl = (ldb_view (ndb_lvl db))(?k \<mapsto> b)"
    using db_recordsD(2,3) [OF assms(1)] by (simp add: Ldb_Put_def no_fault_def ldb_view_def ldb_ok_def)
  have "rlp_Decode R b = Some (rlp_fields n)" using assms(2) Some by (simp add: rlp_ok_def)
  then show ?thesis
    using db_records_put [OF assms(1,3), of "db\<lparr>ndb_lvl := lvl\<rparr>" nodeDBDiscoverRoot b] lvl assms(4) Some by (simp add: updateNode_def)
qed

lemma expireNodes_records:
  assumes "db_records R Q db"
  shows "\<exists>db'. expireNodes now db = Ret db' \<and> db_records R Q db'"
proof -
  obtain db' where db': "expireNodes now db = Ret db'" "no_fault (ndb_lvl db')" "ldb_ok (ndb_lvl db')"
    "\<And>k. ldb_view (ndb_lvl db') k =
       (if \<exists>id0. node_expired (now - nodeDBNodeExpiration) db id0 \<and> HasPrefix k (makeKey id0 []) then None
        else ldb_view (ndb_lvl db) k)"
    using expireNodes_view [OF db_recordsD(1) [OF assms], of now] db_recordsD(3) [OF assms] by blast
  have sub: "ldb_view (ndb_lvl db) k = Some v" if "ldb_view (ndb_lvl db') k = Some v" for k v
    using that unfolding db'(4) by (simp split: if_split_asm)
  have "node_key_ok k" if "ldb_view (ndb_lvl db') k \<noteq> None" for k
    using that sub db_recordsD(4) [OF assms, of k] by auto
  moreover have "Q n" if "node_id_ok i" "ldb_view (ndb_lvl db') (makeKey i nodeDBDiscoverRoot) = Some v" "rlp_Decode R v = Some n" for i v n
    using that sub db_recordsD(5) [OF assms] by blast
  ultimately have "db_records R Q db'" using db'(2,3) by (auto simp: db_records_def node_db_ok_def)
  then show ?thesis using db'(1) by blast
qed

lemma querySeeds_records:
  assumes "db_records R Q db" "rlp_ok R"
  shows "\<exists>seeds. querySeeds R now n maxAge rnd db = Ret seeds \<and> (\<forall>nd \<in> set seeds. Q nd \<and> nd_sha nd = zero_hash)"
proof -
  obtain seeds where s: "querySeeds R now n maxAge rnd db = Ret seeds" "seeds_ok R now n maxAge db seeds"
    using querySeeds_ok [OF db_recordsD(1) [OF assms(1)]] by blast
  have "Q nd" if nd: "nd \<in> set seeds" for nd
  proof -
    obtain id0 v where v: "node_id_ok id0" "(makeKey id0 nodeDBDiscoverRoot, v) \<in> set (ldb_kvs (ndb_lvl db))" "rlp_Decode R v = Some nd"
      using bspec [OF s(2) [unfolded seeds_ok_def, THEN conjunct2, THEN conjunct2] nd] by blast
    have "ldb_view (ndb_lvl db) (makeKey id0 nodeDBDiscoverRoot) = Some v"
      using v(2) db_recordsD(3) [OF assms(1)] kv_get_iff [of "ldb_kvs (ndb_lvl db)" "makeKey id0 nodeDBDiscoverRoot" v]
      by (simp add: ldb_ok_def ldb_view_def)
    then show ?thesis using db_recordsD(5) [OF assms(1) v(1) _ v(3)] by simp
  qed
  then have "\<forall>nd \<in> set seeds. Q nd \<and> nd_sha nd = zero_hash" using seeds_have_zero_sha [OF assms(2) s(2)] by simp
  with s(1) show ?thesis by simp
qed

lemma empty_records: "db_records R Q (newMemoryNodeDB (\<lambda>_ _. None) self)"
  by (simp add: db_records_def node_db_ok_def newMemoryNodeDB_def NewLDBDatabase_def no_fault_def ldb_ok_def kv_sorted_def ldb_view_def)

text \<open>
  A node with the zero identifier is stored under the bare field name, and deleting it, as the expiry
  does, deletes the range of the empty prefix: the whole database.
\<close>

lemma zero_id_wipes_database:
  assumes "no_fault (ndb_lvl db)"
  shows "ldb_kvs (ndb_lvl (snd (ndb_deleteNode EmptyNodeID db))) = []"
    and "lastPongReceived db EmptyNodeID \<le> threshold \<Longrightarrow>
      expire_loop threshold (makeKey EmptyNodeID nodeDBDiscoverRoot # keys) db =
      expire_loop threshold keys (db\<lparr>ndb_lvl := (ndb_lvl db)\<lparr>ldb_kvs := []\<rparr>\<rparr>)"
proof -
  have p: "makeKey EmptyNodeID [] = []" by (simp add: makeKey_def)
  have d: "ndb_deleteNode EmptyNodeID db = (None, db\<lparr>ndb_lvl := (ndb_lvl db)\<lparr>ldb_kvs := []\<rparr>\<rparr>)"
    unfolding ndb_deleteNode_eq [OF assms] p by (simp add: without_prefix_def HasPrefix_def)
  then show "ldb_kvs (ndb_lvl (snd (ndb_deleteNode EmptyNodeID db))) = []" by simp
  have "splitKey (makeKey EmptyNodeID nodeDBDiscoverRoot) = Ret (EmptyNodeID, nodeDBDiscoverRoot)"
    by (simp add: makeKey_def splitKey_def item_prefix HasPrefix_def nodeDBDiscoverRoot_def ascii_def)
  then show "lastPongReceived db EmptyNodeID \<le> threshold \<Longrightarrow>
      expire_loop threshold (makeKey EmptyNodeID nodeDBDiscoverRoot # keys) db =
      expire_loop threshold keys (db\<lparr>ndb_lvl := (ndb_lvl db)\<lparr>ldb_kvs := []\<rparr>\<rparr>)"
    using d by simp
qed

text \<open>
  C21: the hourly expiry never panics on a database of node records and deletes exactly the data of the
  nodes that have not answered for a day and of the local node; every other key keeps its value.
\<close>

theorem expire_nodes_exact:
  assumes "node_db_ok db"
  shows "\<exists>db'. expireNodes now db = Ret db' \<and>
    (\<forall>k. ldb_view (ndb_lvl db') k =
       (if \<exists>id0. node_expired (now - nodeDBNodeExpiration) db id0 \<and> HasPrefix k (makeKey id0 []) then None
        else ldb_view (ndb_lvl db) k))"
  using expireNodes_view [OF assms, of now] by blast

definition example_node_id :: "byte \<Rightarrow> NodeID" where
  "example_node_id b = replicate 64 b"

definition example_node_db :: nodeDB where
  "example_node_db =
     \<lparr>ndb_lvl = NewLDBDatabase (\<lambda>_ _. None)
        [(makeKey (example_node_id 1) nodeDBDiscoverRoot, [1]), (makeKey (example_node_id 2) nodeDBDiscoverRoot, [2])],
      ndb_self = example_node_id 9\<rparr>"

lemma example_node_id_ok: "b \<noteq> 0 \<Longrightarrow> node_id_ok (example_node_id b)"
  by (simp add: node_id_ok_def example_node_id_def SizeNodeID_def EmptyNodeID_def)

lemma example_node_db_ok: "node_db_ok example_node_db"
proof -
  have "kv_sorted (ldb_kvs (ndb_lvl example_node_db))"
    by (simp add: kv_sorted_def example_node_db_def NewLDBDatabase_def makeKey_id example_node_id_ok)
      (simp add: example_node_id_def append_less_append_eq_length numeral_eq_Suc)
  moreover have "node_key_ok k" if "ldb_view (ndb_lvl example_node_db) k \<noteq> None" for k
    using that node_key_ok_makeKey example_node_id_ok
    by (auto simp: ldb_view_def example_node_db_def NewLDBDatabase_def split: if_splits)
  ultimately show ?thesis
    by (simp add: node_db_ok_def ldb_ok_def no_fault_def) (simp add: example_node_db_def NewLDBDatabase_def)
qed

theorem expire_nodes_exact_witness:
  "node_db_ok example_node_db \<and> (\<exists>db'. expireNodes (time_Unix 0 + nodeDBNodeExpiration) example_node_db = Ret db'
     \<and> ldb_view (ndb_lvl db') (makeKey (example_node_id 1) nodeDBDiscoverRoot) = None)"
proof -
  have none: "ldb_view (ndb_lvl example_node_db) (makeKey (example_node_id 1) nodeDBDiscoverPong) = None"
    using fields_distinct(5)
    by (auto simp: ldb_view_def example_node_db_def NewLDBDatabase_def makeKey_inj example_node_id_ok)
  have "lastPongReceived example_node_db (example_node_id 1) = time_Unix 0"
    using example_node_db_ok none by (simp add: lastPongReceived_def fetchInt64_view node_db_ok_def)
  moreover have "ldb_view (ndb_lvl example_node_db) (makeKey (example_node_id 1) nodeDBDiscoverRoot) \<noteq> None"
    by (simp add: ldb_view_def example_node_db_def NewLDBDatabase_def)
  ultimately have "node_expired (time_Unix 0 + nodeDBNodeExpiration - nodeDBNodeExpiration) example_node_db (example_node_id 1)"
    by (simp add: node_expired_def example_node_id_ok)
  moreover have "HasPrefix (makeKey (example_node_id 1) nodeDBDiscoverRoot) (makeKey (example_node_id 1) [])"
    by (simp add: makeKey_prefix example_node_id_ok)
  ultimately show ?thesis
    using expire_nodes_exact [OF example_node_db_ok, of "time_Unix 0 + nodeDBNodeExpiration"] example_node_db_ok by auto
qed

end
