(* ===== verification/Discover_Tables.thy ===== *)
theory Discover_Tables
  imports Discover_Dbs
begin

text \<open>
  \<^verbatim>\<open>p2p/discover/table.go\<close>: the Kademlia table, its buckets with their replacement lists and the limits on
  the addresses of a subnet.

  A bucket's operations work on the pair of the table's address set and the bucket, which is what
  they may change; \<open>with_bucket\<close> applies them to a bucket of the table. A node is a value: the table
  never writes to a node it has been given except for the time of insertion, which only
  \<^verbatim>\<open>copyLiveNodes\<close> reads. \<open>now\<close> is the clock, \<open>r\<close> a draw of the random source (reduced to the range that
  is asked for). Each operation holds the table's mutex for its whole run; \<^verbatim>\<open>doRevalidate\<close>, which
  releases it while it pings, is the two operations \<open>nodeToRevalidate\<close> and \<open>revalidated\<close>.
\<close>

subsection \<open>Definitions\<close>

definition bucketSize :: nat where
  "bucketSize = 16"

definition maxReplacements :: nat where
  "maxReplacements = 10"

definition hashBits :: nat where
  "hashBits = 32 * 8"

definition nBuckets :: nat where
  "nBuckets = hashBits div 15"

definition bucketMinDistance :: nat where
  "bucketMinDistance = hashBits - nBuckets"

definition maxFindnodeFailures :: int where
  "maxFindnodeFailures = 5"

definition seedMinTableTime :: int where
  "seedMinTableTime = seconds (5 * 60)"

definition seedCount :: nat where
  "seedCount = 30"

definition seedMaxAge :: int where
  "seedMaxAge = seconds (5 * 24 * 3600)"

record bucket =
  bk_entries :: "Node list"
  bk_replacements :: "Node list"
  bk_ips :: DistinctNetSet

record Table =
  tab_buckets :: "bucket list"
  tab_nursery :: "Node list"
  tab_ips :: DistinctNetSet
  tab_db :: nodeDB
  tab_initDone :: bool
  tab_self :: Node

type_synonym bstate = "DistinctNetSet \<times> bucket"

definition newBucket :: bucket where
  "newBucket = \<lparr>bk_entries = [], bk_replacements = [], bk_ips = \<lparr>Subnet = 24, Limit = 2, members = []\<rparr>\<rparr>"

definition setFallbackNodes :: "ecc \<Rightarrow> Node list \<Rightarrow> Table \<Rightarrow> go_error option \<times> Table" where
  "setFallbackNodes E nodes tab =
     (if list_ex (\<lambda>n. validateComplete E n \<noteq> None) nodes then (Some (node_error 5), tab)
      else (None, tab\<lparr>tab_nursery := map (\<lambda>n. n\<lparr>nd_sha := Keccak256 E (nd_ID n)\<rparr>) nodes\<rparr>))"

definition addIP :: "IP \<Rightarrow> bstate \<Rightarrow> bool \<times> bstate" where
  "addIP ip st =
     (if IsLAN ip then (True, st)
      else (case DistinctNetSet_Add ip (fst st) of
              (False, _) \<Rightarrow> (False, st)
            | (True, tips) \<Rightarrow>
                (case DistinctNetSet_Add ip (bk_ips (snd st)) of
                   (False, _) \<Rightarrow> (False, DistinctNetSet_Remove ip tips, snd st)
                 | (True, bips) \<Rightarrow> (True, tips, (snd st)\<lparr>bk_ips := bips\<rparr>))))"

definition removeIP :: "IP \<Rightarrow> bstate \<Rightarrow> bstate" where
  "removeIP ip st =
     (if IsLAN ip then st
      else (DistinctNetSet_Remove ip (fst st),
            (snd st)\<lparr>bk_ips := DistinctNetSet_Remove ip (bk_ips (snd st))\<rparr>))"

text \<open>\<open>cap\<close> is positive: the list is not empty when it is full.\<close>

definition pushNode :: "Node list \<Rightarrow> Node \<Rightarrow> nat \<Rightarrow> Node list \<times> Node option" where
  "pushNode list n cap =
     (if length list < cap then (n # list, None) else (n # butlast list, Some (last list)))"

fun deleteNode :: "Node list \<Rightarrow> NodeID \<Rightarrow> Node list" where
  "deleteNode [] id0 = []"
| "deleteNode (e # es) id0 = (if nd_ID e = id0 then es else e # deleteNode es id0)"

definition addReplacement :: "Node \<Rightarrow> bstate \<Rightarrow> bstate" where
  "addReplacement n st =
     (if list_ex (\<lambda>e. nd_ID e = nd_ID n) (bk_replacements (snd st)) then st
      else (case addIP (nd_ip n) st of
              (False, st1) \<Rightarrow> st1
            | (True, st1) \<Rightarrow>
                (let (reps, removed) = pushNode (bk_replacements (snd st1)) n maxReplacements;
                     st2 = (fst st1, (snd st1)\<lparr>bk_replacements := reps\<rparr>)
                 in case removed of None \<Rightarrow> st2 | Some x \<Rightarrow> removeIP (nd_ip x) st2)))"

definition bump :: "Node \<Rightarrow> bucket \<Rightarrow> bool \<times> bucket" where
  "bump n b =
     (if list_ex (\<lambda>e. nd_ID e = nd_ID n) (bk_entries b)
      then (True, b\<lparr>bk_entries := n # deleteNode (bk_entries b) (nd_ID n)\<rparr>)
      else (False, b))"

definition bumpOrAdd :: "int \<Rightarrow> Node \<Rightarrow> bstate \<Rightarrow> bool \<times> bstate" where
  "bumpOrAdd now n st =
     (case bump n (snd st) of
        (True, b) \<Rightarrow> (True, fst st, b)
      | (False, b) \<Rightarrow>
          if bucketSize \<le> length (bk_entries b) then (False, st)
          else (case addIP (nd_ip n) st of
                  (False, st1) \<Rightarrow> (False, st1)
                | (True, st1) \<Rightarrow>
                    (True, fst st1,
                     (snd st1)\<lparr>bk_entries := fst (pushNode (bk_entries (snd st1)) (n\<lparr>nd_addedAt := now\<rparr>) bucketSize),
                               bk_replacements := deleteNode (bk_replacements (snd st1)) (nd_ID n)\<rparr>)))"

definition deleteInBucket :: "Node \<Rightarrow> bstate \<Rightarrow> bstate" where
  "deleteInBucket n st =
     removeIP (nd_ip n) (fst st, (snd st)\<lparr>bk_entries := deleteNode (bk_entries (snd st)) (nd_ID n)\<rparr>)"

definition replace :: "nat \<Rightarrow> Node \<Rightarrow> bstate \<Rightarrow> Node option \<times> bstate" where
  "replace r lst st =
     (let b = snd st
      in if bk_entries b = [] \<or> nd_ID (last (bk_entries b)) \<noteq> nd_ID lst then (None, st)
         else if bk_replacements b = [] then (None, deleteInBucket lst st)
         else
           (let x = bk_replacements b ! (r mod length (bk_replacements b));
                b' = b\<lparr>bk_replacements := deleteNode (bk_replacements b) (nd_ID x),
                       bk_entries := (bk_entries b)[length (bk_entries b) - 1 := x]\<rparr>
            in (Some x, removeIP (nd_ip lst) (fst st, b'))))"

text \<open>The bucket of a hash.\<close>

definition bucket_index :: "Table \<Rightarrow> Hash \<Rightarrow> nat" where
  "bucket_index tab sha =
     (let d = logdist (nd_sha (tab_self tab)) sha
      in if d \<le> bucketMinDistance then 0 else d - bucketMinDistance - 1)"

definition with_bucket :: "nat \<Rightarrow> (bstate \<Rightarrow> bstate) \<Rightarrow> Table \<Rightarrow> Table" where
  "with_bucket i f tab =
     (let (ips, b) = f (tab_ips tab, tab_buckets tab ! i)
      in tab\<lparr>tab_ips := ips, tab_buckets := (tab_buckets tab)[i := b]\<rparr>)"

definition Table_add :: "int \<Rightarrow> Node \<Rightarrow> Table \<Rightarrow> Table" where
  "Table_add now n tab =
     with_bucket (bucket_index tab (nd_sha n))
       (\<lambda>st. case bumpOrAdd now n st of
               (True, st1) \<Rightarrow> st1
             | (False, st1) \<Rightarrow> addReplacement n st1) tab"

definition addThroughPing :: "int \<Rightarrow> Node \<Rightarrow> Table \<Rightarrow> Table" where
  "addThroughPing now n tab = (if \<not> tab_initDone tab then tab else Table_add now n tab)"

definition stuff_one :: "int \<Rightarrow> Node \<Rightarrow> Table \<Rightarrow> Table" where
  "stuff_one now n tab =
     (if nd_ID n = nd_ID (tab_self tab) then tab
      else
        (let i = bucket_index tab (nd_sha n)
         in if length (bk_entries (tab_buckets tab ! i)) < bucketSize
            then with_bucket i (\<lambda>st. snd (bumpOrAdd now n st)) tab
            else tab))"

definition stuff :: "int \<Rightarrow> Node list \<Rightarrow> Table \<Rightarrow> Table" where
  "stuff now nodes tab = fold (stuff_one now) nodes tab"

definition Table_delete :: "Node \<Rightarrow> Table \<Rightarrow> Table" where
  "Table_delete n tab = with_bucket (bucket_index tab (nd_sha n)) (deleteInBucket n) tab"

text \<open>\<open>perm\<close> is \<^verbatim>\<open>tab.rand.Perm(len(tab.buckets))\<close>.\<close>

fun nodeToRevalidate :: "nat list \<Rightarrow> Table \<Rightarrow> (Node \<times> nat) option" where
  "nodeToRevalidate [] tab = None"
| "nodeToRevalidate (bi # perm) tab =
     (let es = bk_entries (tab_buckets tab ! bi)
      in if es \<noteq> [] then Some (last es, bi) else nodeToRevalidate perm tab)"

text \<open>The second half of \<^verbatim>\<open>doRevalidate\<close>: \<open>alive\<close> says that the pong arrived.\<close>

definition revalidated :: "bool \<Rightarrow> nat \<Rightarrow> Node \<Rightarrow> nat \<Rightarrow> Table \<Rightarrow> Table" where
  "revalidated alive r lst bi tab =
     with_bucket bi
       (\<lambda>st. if alive then (fst st, snd (bump lst (snd st))) else snd (replace r lst st)) tab"

definition copyLiveNodes :: "rlp_codec \<Rightarrow> int \<Rightarrow> Table \<Rightarrow> Table" where
  "copyLiveNodes R now tab =
     tab\<lparr>tab_db := fold (\<lambda>n db. if time_Sub now (nd_addedAt n) \<ge> seedMinTableTime then snd (updateNode R n db) else db)
                      (concat (map bk_entries (tab_buckets tab))) (tab_db tab)\<rparr>"

definition Table_len :: "Table \<Rightarrow> nat" where
  "Table_len tab = sum_list (map (\<lambda>b. length (bk_entries b)) (tab_buckets tab))"

definition loadSeedNodes :: "rlp_codec \<Rightarrow> int \<Rightarrow> (nat \<Rightarrow> NodeID) \<Rightarrow> Table \<Rightarrow> Table res" where
  "loadSeedNodes R now rnd tab =
     res_bind (querySeeds R now seedCount seedMaxAge rnd (tab_db tab)) (\<lambda>seeds.
       Ret (fold (Table_add now) (seeds @ tab_nursery tab) tab))"

text \<open>
  \<^verbatim>\<open>newTable\<close> up to the start of its goroutines; \<open>db\<close> is the opened node database and \<open>(ip, port)\<close> the
  local address.
\<close>

definition newTable ::
  "ecc \<Rightarrow> rlp_codec \<Rightarrow> int \<Rightarrow> (nat \<Rightarrow> NodeID) \<Rightarrow> NodeID \<Rightarrow> IP option \<Rightarrow> u16 \<Rightarrow> nodeDB res \<Rightarrow> Node list \<Rightarrow> Table res" where
  "newTable E R now rnd ourID ip port db0 bootnodes =
     res_bind db0 (\<lambda>db.
       (let tab = \<lparr>tab_buckets = replicate nBuckets newBucket, tab_nursery = [],
                   tab_ips = \<lparr>Subnet = 24, Limit = 10, members = []\<rparr>, tab_db = db, tab_initDone = False,
                   tab_self = NewNode (Keccak256 E) ourID ip port port\<rparr>
        in case setFallbackNodes E bootnodes tab of
             (Some e, _) \<Rightarrow> Fail e
           | (None, tab1) \<Rightarrow> loadSeedNodes R now rnd tab1))"

text \<open>
  \<^verbatim>\<open>findnode\<close> of the table: \<open>r\<close> is the list of nodes the transport's \<^verbatim>\<open>findnode\<close> returned, and \<open>err\<close> tells whether it
  also returned an error.
\<close>

definition Table_findnode :: "int \<Rightarrow> Node \<Rightarrow> bool \<Rightarrow> Node list \<Rightarrow> Table \<Rightarrow> Table" where
  "Table_findnode now n err r tab =
     (let fails = findFails (tab_db tab) (nd_ID n);
          tab1 =
            (if err \<or> r = [] then
               (let tab' = tab\<lparr>tab_db := snd (updateFindFails (nd_ID n) (i64 (fails + 1)) (tab_db tab))\<rparr>
                in if i64 (fails + 1) \<ge> maxFindnodeFailures then Table_delete n tab' else tab')
             else if fails > 0 then tab\<lparr>tab_db := snd (updateFindFails (nd_ID n) (fails - 1) (tab_db tab))\<rparr>
             else tab)
      in fold (Table_add now) r tab1)"

text \<open>
  The operations that change the table and its database, as the goroutines interleave them: \<^verbatim>\<open>add\<close>, \<^verbatim>\<open>addThroughPing\<close>, \<^verbatim>\<open>stuff\<close> and
  \<^verbatim>\<open>delete\<close>, the end of a revalidation, the answer to a query, the copy of the live nodes to the database, the load of the seeds with
  which \<^verbatim>\<open>doRefresh\<close> begins (the lookups it goes on with are answers to queries), the end of the first refresh, the expiry of the
  database, and the times of pings and pongs that the transport stores. A run ends with a panic when an operation does.
\<close>

datatype table_op =
    OpAdd int Node
  | OpAddThroughPing int Node
  | OpStuff int "Node list"
  | OpDelete Node
  | OpRevalidated bool nat Node nat
  | OpFindnode int Node bool "Node list"
  | OpCopyLive int
  | OpLoadSeeds int "nat \<Rightarrow> NodeID"
  | OpInitDone
  | OpExpire int
  | OpPing int NodeID
  | OpPong int NodeID

fun table_step :: "rlp_codec \<Rightarrow> table_op \<Rightarrow> Table \<Rightarrow> Table res" where
  "table_step R (OpAdd now n) tab = Ret (Table_add now n tab)"
| "table_step R (OpAddThroughPing now n) tab = Ret (addThroughPing now n tab)"
| "table_step R (OpStuff now ns) tab = Ret (stuff now ns tab)"
| "table_step R (OpDelete n) tab = Ret (Table_delete n tab)"
| "table_step R (OpRevalidated alive r lst bi) tab = Ret (revalidated alive r lst bi tab)"
| "table_step R (OpFindnode now n err ns) tab = Ret (Table_findnode now n err ns tab)"
| "table_step R (OpCopyLive now) tab = Ret (copyLiveNodes R now tab)"
| "table_step R (OpLoadSeeds now rnd) tab = loadSeedNodes R now rnd tab"
| "table_step R OpInitDone tab = Ret (tab\<lparr>tab_initDone := True\<rparr>)"
| "table_step R (OpExpire now) tab = res_bind (expireNodes now (tab_db tab)) (\<lambda>db. Ret (tab\<lparr>tab_db := db\<rparr>))"
| "table_step R (OpPing t i) tab = Ret (tab\<lparr>tab_db := snd (updateLastPingReceived i t (tab_db tab))\<rparr>)"
| "table_step R (OpPong t i) tab = Ret (tab\<lparr>tab_db := snd (updateLastPongReceived i t (tab_db tab))\<rparr>)"

fun table_run :: "rlp_codec \<Rightarrow> table_op list \<Rightarrow> Table \<Rightarrow> Table res" where
  "table_run R [] tab = Ret tab"
| "table_run R (op # ops) tab = res_bind (table_step R op tab) (table_run R ops)"

text \<open>
  A node as \<^verbatim>\<open>NewNode\<close> makes it: its cached hash is the hash of its identifier. \<open>H\<close> is Keccak-256.
\<close>

definition node_ok :: "(bytes \<Rightarrow> Hash) \<Rightarrow> Node \<Rightarrow> bool" where
  "node_ok H n \<longleftrightarrow> nd_sha n = H (nd_ID n) \<and> length (nd_sha n) = 32"

definition bucket_nodes :: "bucket \<Rightarrow> Node list" where
  "bucket_nodes b = bk_entries b @ bk_replacements b"

definition bucket_wf :: "(Node \<Rightarrow> bool) \<Rightarrow> bucket \<Rightarrow> bool" where
  "bucket_wf P b \<longleftrightarrow>
     length (bk_entries b) \<le> bucketSize \<and> length (bk_replacements b) \<le> maxReplacements
     \<and> distinct (map nd_ID (bucket_nodes b)) \<and> (\<forall>n \<in> set (bucket_nodes b). P n)"

text \<open>
  The type of a table: every bucket within its bounds, with distinct nodes that satisfy \<open>Q\<close> and belong to the bucket by their cached hash.
  With \<open>node_ok\<close> the bucket is that of the node's identifier.
\<close>

definition table_typed :: "(Node \<Rightarrow> bool) \<Rightarrow> Table \<Rightarrow> bool" where
  "table_typed Q tab \<longleftrightarrow>
     length (nd_sha (tab_self tab)) = 32 \<and> length (tab_buckets tab) = nBuckets
     \<and> (\<forall>i < nBuckets. bucket_wf (\<lambda>n. Q n \<and> bucket_index tab (nd_sha n) = i) (tab_buckets tab ! i))"

definition table_wf :: "(bytes \<Rightarrow> Hash) \<Rightarrow> Table \<Rightarrow> bool" where
  "table_wf H tab \<longleftrightarrow> table_typed (node_ok H) tab"

text \<open>
  The nodes a running table meets: they have an identifier, and their cached hash is that of the identifier or, for a node that was read from
  the database, zero.
\<close>

definition known_node :: "(bytes \<Rightarrow> Hash) \<Rightarrow> Node \<Rightarrow> bool" where
  "known_node H n \<longleftrightarrow>
     node_id_ok (nd_ID n) \<and> (nd_sha n = H (nd_ID n) \<or> nd_sha n = zero_hash) \<and> length (nd_sha n) = 32"

definition addressed_node :: "(bytes \<Rightarrow> Hash) \<Rightarrow> (NodeID \<Rightarrow> IP) \<Rightarrow> Node \<Rightarrow> bool" where
  "addressed_node H A n \<longleftrightarrow> known_node H n \<and> nd_ip n = A (nd_ID n)"

fun op_nodes :: "table_op \<Rightarrow> Node list" where
  "op_nodes (OpAdd now n) = [n]"
| "op_nodes (OpAddThroughPing now n) = [n]"
| "op_nodes (OpStuff now ns) = ns"
| "op_nodes (OpDelete n) = [n]"
| "op_nodes (OpRevalidated alive r lst bi) = [lst]"
| "op_nodes (OpFindnode now n err ns) = n # ns"
| "op_nodes _ = []"

fun op_ids :: "table_op \<Rightarrow> NodeID list" where
  "op_ids (OpPing t i) = [i]"
| "op_ids (OpPong t i) = [i]"
| "op_ids _ = []"

text \<open>The bucket a revalidation comes back to is the one the node was taken from.\<close>

fun op_bucket :: "Table \<Rightarrow> table_op \<Rightarrow> bool" where
  "op_bucket tab (OpRevalidated alive r lst bi) = (bi = bucket_index tab (nd_sha lst))"
| "op_bucket tab _ = True"

definition op_ok :: "(Node \<Rightarrow> bool) \<Rightarrow> Table \<Rightarrow> table_op \<Rightarrow> bool" where
  "op_ok Q tab op \<longleftrightarrow> list_all Q (op_nodes op) \<and> list_all node_id_ok (op_ids op) \<and> op_bucket tab op"

text \<open>The table, the nodes it was given to start from, and the records of its database.\<close>

definition table_inv :: "rlp_codec \<Rightarrow> (Node \<Rightarrow> bool) \<Rightarrow> Table \<Rightarrow> bool" where
  "table_inv R Q tab \<longleftrightarrow> table_typed Q tab \<and> (\<forall>n \<in> set (tab_nursery tab). Q n) \<and> db_records R Q (tab_db tab)"

text \<open>The nodes of the table and their addresses outside of local networks.\<close>

definition table_nodes :: "Table \<Rightarrow> Node list" where
  "table_nodes tab = concat (map bucket_nodes (tab_buckets tab))"

definition wan_ips :: "Node list \<Rightarrow> IP list" where
  "wan_ips ns = filter (\<lambda>ip. \<not> IsLAN ip) (map nd_ip ns)"

text \<open>
  The address sets count at least the nodes that are there. \<open>A\<close> gives each identifier one address.
\<close>

definition table_counted :: "(NodeID \<Rightarrow> IP) \<Rightarrow> Table \<Rightarrow> bool" where
  "table_counted A tab \<longleftrightarrow>
     (\<forall>n \<in> set (table_nodes tab). nd_ip n = A (nd_ID n))
     \<and> table_ips.tracks (tab_ips tab) (wan_ips (table_nodes tab))
     \<and> (\<forall>b \<in> set (tab_buckets tab). bucket_ips.tracks (bk_ips b) (wan_ips (bucket_nodes b)))"

text \<open>
  The deletions that keep the count: of an entry of the bucket.
\<close>

definition in_entries :: "Table \<Rightarrow> Node \<Rightarrow> bool" where
  "in_entries tab n \<longleftrightarrow> nd_ID n \<in> nd_ID ` set (bk_entries (tab_buckets tab ! bucket_index tab (nd_sha n)))"

fun op_steady :: "Table \<Rightarrow> table_op \<Rightarrow> bool" where
  "op_steady tab (OpDelete n) = in_entries tab n"
| "op_steady tab (OpFindnode now n err r) =
     ((err \<or> r = []) \<and> i64 (findFails (tab_db tab) (nd_ID n) + 1) \<ge> maxFindnodeFailures \<longrightarrow> in_entries tab n)"
| "op_steady tab _ = True"

fun run_steady :: "rlp_codec \<Rightarrow> Table \<Rightarrow> table_op list \<Rightarrow> bool" where
  "run_steady R tab [] = True"
| "run_steady R tab (op # ops) =
     (op_steady tab op \<and> (case table_step R op tab of Ret tab' \<Rightarrow> run_steady R tab' ops | _ \<Rightarrow> True))"

text \<open>
  The counts as one operation on a bucket sees them: \<open>rest\<close> are the addresses of the other buckets.
\<close>

definition wan_of :: "IP \<Rightarrow> IP list" where
  "wan_of ip = (if IsLAN ip then [] else [ip])"

definition bucket_counted :: "(NodeID \<Rightarrow> IP) \<Rightarrow> IP list \<Rightarrow> bstate \<Rightarrow> bool" where
  "bucket_counted A rest st \<longleftrightarrow>
     (\<forall>n \<in> set (bucket_nodes (snd st)). nd_ip n = A (nd_ID n))
     \<and> table_ips.tracks (fst st) (wan_ips (bucket_nodes (snd st)) @ rest)
     \<and> bucket_ips.tracks (bk_ips (snd st)) (wan_ips (bucket_nodes (snd st)))"

text \<open>The addresses of the buckets other than the \<open>i\<close>-th.\<close>

definition other_ips :: "nat \<Rightarrow> Table \<Rightarrow> IP list" where
  "other_ips i tab =
     wan_ips (concat (map bucket_nodes (take i (tab_buckets tab) @ drop (Suc i) (tab_buckets tab))))"

text \<open>\<open>P\<close> does not look at the time of insertion.\<close>

definition timeless :: "(Node \<Rightarrow> bool) \<Rightarrow> bool" where
  "timeless P \<longleftrightarrow> (\<forall>n t. P (n\<lparr>nd_addedAt := t\<rparr>) = P n)"

subsection \<open>Buckets\<close>

lemma has_ID [simp]: "list_ex (\<lambda>e. nd_ID e = i) es \<longleftrightarrow> i \<in> nd_ID ` set es"
  unfolding list_ex_iff by force

lemma bucket_wf_iff:
  "bucket_wf P b \<longleftrightarrow>
     length (bk_entries b) \<le> bucketSize \<and> length (bk_replacements b) \<le> maxReplacements
     \<and> distinct (map nd_ID (bk_entries b)) \<and> distinct (map nd_ID (bk_replacements b))
     \<and> nd_ID ` set (bk_entries b) \<inter> nd_ID ` set (bk_replacements b) = {}
     \<and> (\<forall>n \<in> set (bk_entries b). P n) \<and> (\<forall>n \<in> set (bk_replacements b). P n)"
  unfolding bucket_wf_def bucket_nodes_def by auto

lemma deleteNode_IDs: "map nd_ID (deleteNode es i) = remove1 i (map nd_ID es)"
  by (induction es) auto

lemma deleteNode_set: "set (deleteNode es i) \<subseteq> set es"
  by (induction es) auto

lemma deleteNode_absent: "i \<notin> nd_ID ` set es \<Longrightarrow> deleteNode es i = es"
  by (induction es) auto

lemma length_deleteNode: "length (deleteNode es i) \<le> length es"
  by (induction es) auto

lemma length_deleteNode_in: "i \<in> nd_ID ` set es \<Longrightarrow> length (deleteNode es i) = length es - 1"
  by (induction es) (auto, metis Suc_pred length_pos_if_in_set)

lemma deleteNode_split:
  "i \<in> nd_ID ` set es \<Longrightarrow> \<exists>us e vs. es = us @ e # vs \<and> nd_ID e = i \<and> i \<notin> nd_ID ` set us \<and> deleteNode es i = us @ vs"
proof (induction es)
  case (Cons x es)
  show ?case
  proof (cases "nd_ID x = i")
    case True
    then show ?thesis by (intro exI [of _ "[]"] exI [of _ x] exI [of _ es]) simp
  next
    case False
    then obtain us e vs where "es = us @ e # vs" "nd_ID e = i" "i \<notin> nd_ID ` set us" "deleteNode es i = us @ vs"
      using Cons by auto
    then show ?thesis using False by (intro exI [of _ "x # us"] exI [of _ e] exI [of _ vs]) simp
  qed
qed simp

lemma addIP_nodes [simp]:
  "bk_entries (snd (snd (addIP ip st))) = bk_entries (snd st)"
  "bk_replacements (snd (snd (addIP ip st))) = bk_replacements (snd st)"
  by (auto simp: addIP_def split: prod.split bool.split)

lemma removeIP_nodes [simp]:
  "bk_entries (snd (removeIP ip st)) = bk_entries (snd st)"
  "bk_replacements (snd (removeIP ip st)) = bk_replacements (snd st)"
  by (simp_all add: removeIP_def)

text \<open>The node lists after each operation, the address sets apart.\<close>

lemma addReplacement_nodes:
  obtains (same) "bk_entries (snd (addReplacement n st)) = bk_entries (snd st)"
      "bk_replacements (snd (addReplacement n st)) = bk_replacements (snd st)"
  | (pushed) "nd_ID n \<notin> nd_ID ` set (bk_replacements (snd st))"
      "bk_entries (snd (addReplacement n st)) = bk_entries (snd st)"
      "bk_replacements (snd (addReplacement n st)) = fst (pushNode (bk_replacements (snd st)) n maxReplacements)"
proof (cases "list_ex (\<lambda>e. nd_ID e = nd_ID n) (bk_replacements (snd st))")
  case True
  then show ?thesis using same by (simp add: addReplacement_def)
next
  case False
  obtain ok st1 where add: "addIP (nd_ip n) st = (ok, st1)" by (cases "addIP (nd_ip n) st")
  have nodes: "bk_entries (snd st1) = bk_entries (snd st)" "bk_replacements (snd st1) = bk_replacements (snd st)"
    using addIP_nodes [of "nd_ip n" st] add by simp_all
  show ?thesis
  proof (cases ok)
    case True
    then show ?thesis using False add nodes
      by (intro pushed) (auto simp: addReplacement_def Let_def split: prod.split option.split)
  next
    case no: False
    then show ?thesis using False add nodes by (intro same) (simp_all add: addReplacement_def)
  qed
qed

lemma pushNode_wf:
  assumes "length es \<le> cap" "0 < cap" "fst (pushNode es n cap) = es'"
  shows "length es' \<le> cap" "set es' \<subseteq> insert n (set es)"
    and "distinct (map nd_ID es) \<Longrightarrow> nd_ID n \<notin> nd_ID ` set es \<Longrightarrow> distinct (map nd_ID es')"
proof -
  have e: "es' = n # (if length es < cap then es else butlast es)" using assms(3) by (auto simp: pushNode_def)
  show "length es' \<le> cap" using assms(1,2) e by auto
  show "set es' \<subseteq> insert n (set es)" unfolding e using in_set_butlastD [of _ es] by (cases "length es < cap") auto
  show "distinct (map nd_ID es')" if "distinct (map nd_ID es)" "nd_ID n \<notin> nd_ID ` set es"
    using that e in_set_butlastD [of _ es] by (auto simp: map_butlast distinct_butlast)
qed

lemma addReplacement_wf:
  assumes "bucket_wf P (snd st)" "P n" "nd_ID n \<notin> nd_ID ` set (bk_entries (snd st))"
  shows "bucket_wf P (snd (addReplacement n st))"
proof (cases rule: addReplacement_nodes [of n st])
  case same
  then show ?thesis using assms(1) by (simp add: bucket_wf_iff)
next
  case pushed
  define reps where "reps = fst (pushNode (bk_replacements (snd st)) n maxReplacements)"
  have old: "length (bk_replacements (snd st)) \<le> maxReplacements" "distinct (map nd_ID (bk_replacements (snd st)))"
    using assms(1) by (simp_all add: bucket_wf_iff)
  have pos: "0 < maxReplacements" by (simp add: maxReplacements_def)
  note p = pushNode_wf [OF old(1) pos reps_def [symmetric]]
  have ids: "nd_ID ` set reps \<subseteq> insert (nd_ID n) (nd_ID ` set (bk_replacements (snd st)))" using p(2) by auto
  have oldP: "\<forall>x \<in> set (bk_replacements (snd st)). P x"
    and apart: "nd_ID ` set (bk_entries (snd st)) \<inter> nd_ID ` set (bk_replacements (snd st)) = {}"
    using assms(1) unfolding bucket_wf_iff by simp_all
  have "\<forall>x \<in> set reps. P x" using p(2) oldP assms(2) by blast
  moreover have "nd_ID ` set (bk_entries (snd st)) \<inter> nd_ID ` set reps = {}"
    using Int_mono [OF subset_refl ids, of "nd_ID ` set (bk_entries (snd st))"] apart assms(3) by simp
  ultimately show ?thesis
    using assms(1) p(1) p(3) [OF old(2) pushed(1)] unfolding bucket_wf_iff pushed(2,3) reps_def by simp
qed

lemma bump_wf:
  assumes "bucket_wf P b" "P n"
  shows "bucket_wf P (snd (bump n b))"
proof (cases "nd_ID n \<in> nd_ID ` set (bk_entries b)")
  case False
  then have "bump n b = (False, b)" by (simp add: bump_def)
  then show ?thesis using assms by simp
next
  case True
  then have eq: "snd (bump n b) = b\<lparr>bk_entries := n # deleteNode (bk_entries b) (nd_ID n)\<rparr>"
    by (simp add: bump_def)
  have d: "distinct (map nd_ID (bk_entries b))" using assms(1) by (simp add: bucket_wf_def bucket_nodes_def)
  have ids: "nd_ID ` set (deleteNode (bk_entries b) (nd_ID n)) = nd_ID ` set (bk_entries b) - {nd_ID n}"
    using deleteNode_IDs [of "bk_entries b" "nd_ID n"] set_remove1_eq [OF d, of "nd_ID n"] by (metis list.set_map)
  have dd: "distinct (map nd_ID (deleteNode (bk_entries b) (nd_ID n)))" using d by (simp add: deleteNode_IDs)
  have len: "length (deleteNode (bk_entries b) (nd_ID n)) = length (bk_entries b) - 1" "bk_entries b \<noteq> []"
    using length_deleteNode_in [OF True] True by auto
  have "length (n # deleteNode (bk_entries b) (nd_ID n)) = length (bk_entries b)"
    using len by (cases "bk_entries b") simp_all
  moreover have "nd_ID ` set (n # deleteNode (bk_entries b) (nd_ID n)) = nd_ID ` set (bk_entries b)"
    using ids True by auto
  moreover have "distinct (map nd_ID (n # deleteNode (bk_entries b) (nd_ID n)))" using ids dd by simp
  moreover have "\<forall>x \<in> set (n # deleteNode (bk_entries b) (nd_ID n)). P x"
    using assms deleteNode_set [of "bk_entries b" "nd_ID n"] unfolding bucket_wf_iff by auto
  ultimately show ?thesis using assms(1) unfolding eq bucket_wf_iff by simp
qed

lemma bump_result: "fst (bump n b) \<longleftrightarrow> nd_ID n \<in> nd_ID ` set (bk_entries b)"
  by (simp add: bump_def)

lemma bump_absent: "nd_ID n \<notin> nd_ID ` set (bk_entries b) \<Longrightarrow> bump n b = (False, b)"
  by (simp add: bump_def)

lemma bumpOrAdd_cases:
  obtains (bumped) "nd_ID n \<in> nd_ID ` set (bk_entries (snd st))" "bumpOrAdd now n st = (True, fst st, snd (bump n (snd st)))"
  | (full) "nd_ID n \<notin> nd_ID ` set (bk_entries (snd st))" "bumpOrAdd now n st = (False, st)"
  | (refused) st1 where "nd_ID n \<notin> nd_ID ` set (bk_entries (snd st))" "addIP (nd_ip n) st = (False, st1)"
      "bumpOrAdd now n st = (False, st1)"
  | (added) st1 where "nd_ID n \<notin> nd_ID ` set (bk_entries (snd st))" "length (bk_entries (snd st)) < bucketSize"
      "addIP (nd_ip n) st = (True, st1)"
      "bumpOrAdd now n st = (True, fst st1,
         (snd st1)\<lparr>bk_entries := n\<lparr>nd_addedAt := now\<rparr> # bk_entries (snd st),
                   bk_replacements := deleteNode (bk_replacements (snd st)) (nd_ID n)\<rparr>)"
proof (cases "nd_ID n \<in> nd_ID ` set (bk_entries (snd st))")
  case True
  then have "bump n (snd st) = (True, snd (bump n (snd st)))" using bump_result [of n "snd st"] by (cases "bump n (snd st)") simp
  then show ?thesis using bumped [OF True] unfolding bumpOrAdd_def by (metis (no_types, lifting) bool.case(1) case_prod_conv)
next
  case False
  note b = bump_absent [OF False]
  show ?thesis
  proof (cases "bucketSize \<le> length (bk_entries (snd st))")
    case True
    then show ?thesis using False b full by (simp add: bumpOrAdd_def)
  next
    case room: False
    obtain ok st1 where add: "addIP (nd_ip n) st = (ok, st1)" by (cases "addIP (nd_ip n) st")
    have nodes: "bk_entries (snd st1) = bk_entries (snd st)" "bk_replacements (snd st1) = bk_replacements (snd st)"
      using addIP_nodes [of "nd_ip n" st] add by simp_all
    show ?thesis
    proof (cases ok)
      case True
      then show ?thesis using False room b add nodes
        by (intro added [of st1]) (simp_all add: bumpOrAdd_def pushNode_def)
    next
      case no: False
      then show ?thesis using False room b add by (intro refused [of st1]) (simp_all add: bumpOrAdd_def)
    qed
  qed
qed

lemma bumpOrAdd_wf:
  assumes wf: "bucket_wf P (snd st)" and n: "P n" "timeless P"
  shows "bucket_wf P (snd (snd (bumpOrAdd now n st)))"
    and "\<not> fst (bumpOrAdd now n st) \<Longrightarrow> nd_ID n \<notin> nd_ID ` set (bk_entries (snd (snd (bumpOrAdd now n st))))"
proof -
  have same: "bucket_wf P (snd st1)" "bk_entries (snd st1) = bk_entries (snd st)" if "addIP ip st = (ok, st1)" for ip ok st1
    using that addIP_nodes [of ip st] wf by (simp_all add: bucket_wf_def bucket_nodes_def)
  show "bucket_wf P (snd (snd (bumpOrAdd now n st)))"
  proof (cases rule: bumpOrAdd_cases [of n st now])
    case bumped
    then show ?thesis using bump_wf [OF wf n(1)] by simp
  next
    case full
    then show ?thesis using wf by simp
  next
    case (refused st1)
    then show ?thesis using same by simp
  next
    case (added st1)
    have d: "distinct (map nd_ID (bk_replacements (snd st)))" using wf by (simp add: bucket_wf_def bucket_nodes_def)
    have ids: "nd_ID ` set (deleteNode (bk_replacements (snd st)) (nd_ID n)) = nd_ID ` set (bk_replacements (snd st)) - {nd_ID n}"
      using deleteNode_IDs [of "bk_replacements (snd st)" "nd_ID n"] set_remove1_eq [OF d, of "nd_ID n"] by (metis list.set_map)
    have dd: "distinct (map nd_ID (deleteNode (bk_replacements (snd st)) (nd_ID n)))" using d by (simp add: deleteNode_IDs)
    show ?thesis
      using wf added n ids dd deleteNode_set [of "bk_replacements (snd st)" "nd_ID n"]
        length_deleteNode [of "bk_replacements (snd st)" "nd_ID n"]
      unfolding bucket_wf_iff by (auto simp: timeless_def)
  qed
  show "\<not> fst (bumpOrAdd now n st) \<Longrightarrow> nd_ID n \<notin> nd_ID ` set (bk_entries (snd (snd (bumpOrAdd now n st))))"
    by (cases rule: bumpOrAdd_cases [of n st now]) (use same in auto)
qed

lemma deleteInBucket_nodes [simp]:
  "bk_entries (snd (deleteInBucket n st)) = deleteNode (bk_entries (snd st)) (nd_ID n)"
  "bk_replacements (snd (deleteInBucket n st)) = bk_replacements (snd st)"
  by (simp_all add: deleteInBucket_def)

lemma deleteInBucket_wf:
  assumes "bucket_wf P (snd st)"
  shows "bucket_wf P (snd (deleteInBucket n st))"
  using assms deleteNode_set [of "bk_entries (snd st)" "nd_ID n"] length_deleteNode [of "bk_entries (snd st)" "nd_ID n"]
  unfolding bucket_wf_iff by (auto simp: deleteNode_IDs)

lemma replace_nodes:
  obtains (moved) "replace r lst st = (None, st)"
  | (dropped) "bk_entries (snd st) \<noteq> []" "nd_ID (last (bk_entries (snd st))) = nd_ID lst"
      "replace r lst st = (None, deleteInBucket lst st)"
  | (replaced) es x where "bk_entries (snd st) = es @ [last (bk_entries (snd st))]"
      "nd_ID (last (bk_entries (snd st))) = nd_ID lst" "x \<in> set (bk_replacements (snd st))"
      "replace r lst st = (Some x, removeIP (nd_ip lst)
         (fst st, (snd st)\<lparr>bk_replacements := deleteNode (bk_replacements (snd st)) (nd_ID x), bk_entries := es @ [x]\<rparr>))"
proof -
  let ?es = "bk_entries (snd st)" and ?rs = "bk_replacements (snd st)"
  consider "?es = [] \<or> nd_ID (last ?es) \<noteq> nd_ID lst"
    | "?es \<noteq> []" "nd_ID (last ?es) = nd_ID lst" "?rs = []"
    | "?es \<noteq> []" "nd_ID (last ?es) = nd_ID lst" "?rs \<noteq> []" by blast
  then show thesis
  proof cases
    case 1
    then show ?thesis using moved by (simp add: replace_def Let_def)
  next
    case 2
    then show ?thesis using dropped by (simp add: replace_def Let_def)
  next
    case 3
    define x where "x = ?rs ! (r mod length ?rs)"
    have x: "x \<in> set ?rs" using 3(3) unfolding x_def by (intro nth_mem mod_less_divisor) simp
    have es: "?es = butlast ?es @ [last ?es]" using 3(1) by simp
    have "?es[length ?es - 1 := x] = butlast ?es @ [x]"
      by (subst es) (simp only: list_update_append, simp)
    then show ?thesis using replaced [OF es 3(2) x] 3 unfolding replace_def Let_def x_def by simp
  qed
qed

lemma replace_wf:
  assumes wf: "bucket_wf P (snd st)"
  shows "bucket_wf P (snd (snd (replace r lst st)))"
proof (cases rule: replace_nodes [of r lst st])
  case moved
  then show ?thesis using wf by simp
next
  case dropped
  then show ?thesis using deleteInBucket_wf [OF wf] by simp
next
  case (replaced es x)
  let ?rs = "bk_replacements (snd st)" and ?l = "last (bk_entries (snd st))"
  have parts: "length (es @ [?l]) \<le> bucketSize" "length ?rs \<le> maxReplacements" "distinct (map nd_ID (es @ [?l]))"
    "distinct (map nd_ID ?rs)" "nd_ID ` set (es @ [?l]) \<inter> nd_ID ` set ?rs = {}"
    "\<forall>n \<in> set (es @ [?l]). P n" "\<forall>n \<in> set ?rs. P n"
    using wf unfolding bucket_wf_iff replaced(1) [symmetric] by simp_all
  have xid: "nd_ID x \<in> nd_ID ` set ?rs" using replaced(3) by simp
  have ids: "nd_ID ` set (deleteNode ?rs (nd_ID x)) = nd_ID ` set ?rs - {nd_ID x}"
    using deleteNode_IDs [of ?rs "nd_ID x"] set_remove1_eq [OF parts(4), of "nd_ID x"] by (metis list.set_map)
  have "nd_ID x \<notin> nd_ID ` set es" using parts(5) xid by (auto simp: disjoint_iff)
  then have "distinct (map nd_ID (es @ [x]))" using parts(3) by simp
  moreover have "nd_ID ` set (es @ [x]) \<inter> nd_ID ` set (deleteNode ?rs (nd_ID x)) = {}"
    unfolding ids using parts(5) by (auto simp: disjoint_iff)
  moreover have "distinct (map nd_ID (deleteNode ?rs (nd_ID x)))" using parts(4) by (simp add: deleteNode_IDs)
  moreover have "\<forall>n \<in> set (deleteNode ?rs (nd_ID x)). P n" using parts(7) deleteNode_set [of ?rs "nd_ID x"] by blast
  moreover have "length (deleteNode ?rs (nd_ID x)) \<le> maxReplacements" using parts(2) length_deleteNode [of ?rs "nd_ID x"] by simp
  ultimately show ?thesis using parts(1,6,7) replaced(3) unfolding bucket_wf_iff replaced(4) by simp
qed

subsection \<open>The table\<close>

lemma bucket_index_less:
  assumes "length (nd_sha (tab_self tab)) = 32"
  shows "bucket_index tab sha < nBuckets"
proof -
  have "logdist (nd_sha (tab_self tab)) sha \<le> 256" using logdist_le [of "nd_sha (tab_self tab)" sha] assms by simp
  then show ?thesis by (auto simp: bucket_index_def bucketMinDistance_def hashBits_def nBuckets_def Let_def)
qed

lemma with_bucket_simps [simp]:
  "tab_self (with_bucket i f tab) = tab_self tab"
  "tab_db (with_bucket i f tab) = tab_db tab"
  "tab_initDone (with_bucket i f tab) = tab_initDone tab"
  "tab_nursery (with_bucket i f tab) = tab_nursery tab"
  "length (tab_buckets (with_bucket i f tab)) = length (tab_buckets tab)"
  "bucket_index (with_bucket i f tab) = bucket_index tab"
  by (simp_all add: with_bucket_def bucket_index_def fun_eq_iff split: prod.split)

lemma with_bucket_ips: "tab_ips (with_bucket i f tab) = fst (f (tab_ips tab, tab_buckets tab ! i))"
  by (simp add: with_bucket_def split: prod.split)

lemma with_bucket_buckets:
  "tab_buckets (with_bucket i f tab) = (tab_buckets tab)[i := snd (f (tab_ips tab, tab_buckets tab ! i))]"
  by (simp add: with_bucket_def split: prod.split)

lemma table_typedD:
  assumes "table_typed Q tab"
  shows "length (nd_sha (tab_self tab)) = 32" "length (tab_buckets tab) = nBuckets"
    and "i < nBuckets \<Longrightarrow> bucket_wf (\<lambda>n. Q n \<and> bucket_index tab (nd_sha n) = i) (tab_buckets tab ! i)"
    and "bucket_index tab sha < nBuckets"
  using assms bucket_index_less unfolding table_typed_def by blast+

lemmas table_wfD = table_typedD [of "node_ok H" for H, folded table_wf_def]

lemma table_typed_nodes:
  assumes "table_typed Q tab" "n \<in> set (table_nodes tab)"
  shows "Q n"
proof -
  obtain i where i: "i < length (tab_buckets tab)" "n \<in> set (bucket_nodes (tab_buckets tab ! i))"
    using assms(2) by (auto simp: table_nodes_def in_set_conv_nth [of _ "tab_buckets tab"])
  then show ?thesis using table_typedD(2,3) [OF assms(1)] by (auto simp: bucket_wf_def)
qed

lemma table_typed_simps [simp]:
  "table_typed Q (tab\<lparr>tab_db := db\<rparr>) = table_typed Q tab"
  "table_typed Q (tab\<lparr>tab_initDone := x\<rparr>) = table_typed Q tab"
  by (simp_all add: table_typed_def bucket_index_def)

lemma with_bucket_typed:
  assumes t: "table_typed Q tab" and i: "i < nBuckets"
    and f: "bucket_wf (\<lambda>n. Q n \<and> bucket_index tab (nd_sha n) = i) (tab_buckets tab ! i) \<Longrightarrow>
      bucket_wf (\<lambda>n. Q n \<and> bucket_index tab (nd_sha n) = i) (snd (f (tab_ips tab, tab_buckets tab ! i)))"
  shows "table_typed Q (with_bucket i f tab)"
  unfolding table_typed_def
proof (intro conjI allI impI)
  fix j assume j: "j < nBuckets"
  show "bucket_wf (\<lambda>n. Q n \<and> bucket_index (with_bucket i f tab) (nd_sha n) = j) (tab_buckets (with_bucket i f tab) ! j)"
  proof (cases "j = i")
    case True
    then show ?thesis using f [OF table_typedD(3) [OF t i]] i table_typedD(2) [OF t] by (simp add: with_bucket_buckets)
  next
    case False
    then show ?thesis using table_typedD(3) [OF t j] by (simp add: with_bucket_buckets)
  qed
qed (use table_typedD [OF t] in simp_all)

lemma Table_delete_typed:
  assumes t: "table_typed Q tab"
  shows "table_typed Q (Table_delete n tab)"
  unfolding Table_delete_def
  by (rule with_bucket_typed [OF t table_typedD(4) [OF t]]) (rule deleteInBucket_wf, simp)

lemma revalidated_typed:
  assumes t: "table_typed Q tab" and n: "Q lst" "bi = bucket_index tab (nd_sha lst)"
  shows "table_typed Q (revalidated alive r lst bi tab)"
  unfolding revalidated_def
proof (rule with_bucket_typed [OF t])
  show "bi < nBuckets" using n(2) table_typedD(4) [OF t] by simp
  let ?P = "\<lambda>x. Q x \<and> bucket_index tab (nd_sha x) = bi"
  let ?st = "(tab_ips tab, tab_buckets tab ! bi)"
  assume b: "bucket_wf ?P (tab_buckets tab ! bi)"
  show "bucket_wf ?P (snd (if alive then (fst ?st, snd (bump lst (snd ?st))) else snd (replace r lst ?st)))"
    using bump_wf [OF b, of lst] replace_wf [of ?P ?st r lst] b n by simp
qed

text \<open>The operations leave the local node, the database and the start nodes alone.\<close>

lemma Table_add_frame [simp]:
  "tab_self (Table_add now n tab) = tab_self tab" "tab_db (Table_add now n tab) = tab_db tab"
  "tab_nursery (Table_add now n tab) = tab_nursery tab"
  by (simp_all add: Table_add_def)

lemma adds_frame [simp]:
  "tab_self (fold (Table_add now) ns tab) = tab_self tab" "tab_db (fold (Table_add now) ns tab) = tab_db tab"
  "tab_nursery (fold (Table_add now) ns tab) = tab_nursery tab"
  by (induction ns arbitrary: tab) simp_all

lemma stuff_frame [simp]:
  "tab_self (stuff now ns tab) = tab_self tab" "tab_db (stuff now ns tab) = tab_db tab" "tab_nursery (stuff now ns tab) = tab_nursery tab"
  unfolding stuff_def by (induction ns arbitrary: tab) (simp_all add: stuff_one_def Let_def)

lemma Table_delete_frame [simp]:
  "tab_self (Table_delete n tab) = tab_self tab" "tab_db (Table_delete n tab) = tab_db tab" "tab_nursery (Table_delete n tab) = tab_nursery tab"
  by (simp_all add: Table_delete_def)

lemma findnode_frame:
  "tab_self (Table_findnode now n err ns tab) = tab_self tab" "tab_nursery (Table_findnode now n err ns tab) = tab_nursery tab"
  "tab_db (Table_findnode now n err ns tab) = tab_db tab \<or>
   (\<exists>k. tab_db (Table_findnode now n err ns tab) = snd (updateFindFails (nd_ID n) k (tab_db tab)))"
  by (auto simp: Table_findnode_def Let_def)

lemma bucket_index_self: "tab_self tab = tab_self tab' \<Longrightarrow> bucket_index tab = bucket_index tab'"
  by (simp add: bucket_index_def fun_eq_iff)

lemma op_ok_self: "tab_self tab = tab_self tab' \<Longrightarrow> op_ok Q tab op = op_ok Q tab' op"
  by (cases op) (simp_all add: op_ok_def bucket_index_self [of tab tab'])

text \<open>
  A class of nodes the table can hold: membership does not depend on the time of insertion, and the cached hash has its size. Every operation
  that adds nodes of the class keeps the type of the table.
\<close>

locale node_class =
  fixes Q :: "Node \<Rightarrow> bool"
  assumes any_time: "Q (n\<lparr>nd_addedAt := t\<rparr>) \<longleftrightarrow> Q n"
    and sha_size: "Q n \<Longrightarrow> length (nd_sha n) = 32"
begin

lemma timeless_place: "timeless (\<lambda>n. Q n \<and> bucket_index tab (nd_sha n) = i)"
  by (simp add: timeless_def any_time)

lemma Table_add_typed:
  assumes t: "table_typed Q tab" and n: "Q n"
  shows "table_typed Q (Table_add now n tab)"
  unfolding Table_add_def
proof (rule with_bucket_typed [OF t table_typedD(4) [OF t]])
  let ?i = "bucket_index tab (nd_sha n)"
  let ?P = "\<lambda>x. Q x \<and> bucket_index tab (nd_sha x) = ?i"
  let ?st = "(tab_ips tab, tab_buckets tab ! ?i)"
  assume b: "bucket_wf ?P (tab_buckets tab ! ?i)"
  obtain ok st1 where r: "bumpOrAdd now n ?st = (ok, st1)" by (cases "bumpOrAdd now n ?st")
  have b1: "bucket_wf ?P (snd st1)" using bumpOrAdd_wf(1) [of ?P ?st n now, OF _ _ timeless_place] b n r by simp
  have "\<not> ok \<Longrightarrow> nd_ID n \<notin> nd_ID ` set (bk_entries (snd st1))"
    using bumpOrAdd_wf(2) [of ?P ?st n now, OF _ _ timeless_place] b n r by simp
  then show "bucket_wf ?P (snd (case bumpOrAdd now n ?st of (True, st1) \<Rightarrow> st1 | (False, st1) \<Rightarrow> addReplacement n st1))"
    using b1 r addReplacement_wf [OF b1, of n] n by (cases ok) simp_all
qed

lemma adds_typed: "table_typed Q tab \<Longrightarrow> \<forall>n \<in> set ns. Q n \<Longrightarrow> table_typed Q (fold (Table_add now) ns tab)"
  by (induction ns arbitrary: tab) (simp_all add: Table_add_typed)

lemma stuff_one_typed:
  assumes t: "table_typed Q tab" and n: "Q n"
  shows "table_typed Q (stuff_one now n tab)"
proof -
  let ?i = "bucket_index tab (nd_sha n)"
  have "table_typed Q (with_bucket ?i (\<lambda>st. snd (bumpOrAdd now n st)) tab)"
    by (rule with_bucket_typed [OF t table_typedD(4) [OF t]])
      (use n bumpOrAdd_wf(1) [of _ "(tab_ips tab, tab_buckets tab ! ?i)" n now, OF _ _ timeless_place] in simp)
  then show ?thesis using t by (simp add: stuff_one_def Let_def)
qed

lemma stuff_typed: "table_typed Q tab \<Longrightarrow> \<forall>n \<in> set ns. Q n \<Longrightarrow> table_typed Q (stuff now ns tab)"
  unfolding stuff_def by (induction ns arbitrary: tab) (simp_all add: stuff_one_typed)

lemma findnode_typed:
  assumes "table_typed Q tab" "\<forall>x \<in> set ns. Q x"
  shows "table_typed Q (Table_findnode now n err ns tab)"
  unfolding Table_findnode_def Let_def
  by (intro adds_typed) (use assms Table_delete_typed in auto)

end

text \<open>
  A class of nodes that also survives the way through the database. Then every operation returns, and it keeps the type of the
  table and the records of the database.
\<close>

locale stored_class = node_class +
  assumes named: "Q n \<Longrightarrow> node_id_ok (nd_ID n)"
    and reread: "Q n \<Longrightarrow> Q (rlp_fields n)"
begin

lemma copyLive_records:
  assumes "table_inv R Q tab" "rlp_ok R"
  shows "db_records R Q (tab_db (copyLiveNodes R now tab))"
proof -
  have "db_records R Q (fold (\<lambda>n db. if time_Sub now (nd_addedAt n) \<ge> seedMinTableTime then snd (updateNode R n db) else db) ns db)"
    if "\<forall>n \<in> set ns. Q n" "db_records R Q db" for ns db
    using that by (induction ns arbitrary: db) (simp_all add: updateNode_records [OF _ assms(2)] named reread)
  moreover have "\<forall>n \<in> set (concat (map bk_entries (tab_buckets tab))). Q n"
    using table_typed_nodes [of Q tab] assms(1) by (auto simp: table_inv_def table_nodes_def bucket_nodes_def)
  ultimately show ?thesis using assms(1) by (simp add: copyLiveNodes_def table_inv_def)
qed

lemma loadSeedNodes_inv:
  assumes "table_inv R Q tab" "rlp_ok R"
  shows "\<exists>ns. (\<forall>n \<in> set ns. Q n) \<and> loadSeedNodes R now rnd tab = Ret (fold (Table_add now) ns tab)
    \<and> table_inv R Q (fold (Table_add now) ns tab)"
proof -
  obtain seeds where s: "querySeeds R now seedCount seedMaxAge rnd (tab_db tab) = Ret seeds" "\<forall>n \<in> set seeds. Q n"
    using querySeeds_records [OF _ assms(2), of Q "tab_db tab"] assms(1) unfolding table_inv_def by blast
  let ?ns = "seeds @ tab_nursery tab"
  have q: "\<forall>n \<in> set ?ns. Q n" using s(2) assms(1) by (auto simp: table_inv_def)
  then have "table_inv R Q (fold (Table_add now) ?ns tab)"
    using adds_typed [of tab ?ns now] assms(1) by (simp add: table_inv_def del: fold_append)
  moreover have "loadSeedNodes R now rnd tab = Ret (fold (Table_add now) ?ns tab)" using s(1) by (simp add: loadSeedNodes_def)
  ultimately show ?thesis using q by blast
qed

lemma table_step_inv:
  assumes inv: "table_inv R Q tab" and R: "rlp_ok R" and op: "op_ok Q tab op"
  shows "\<exists>tab'. table_step R op tab = Ret tab' \<and> table_inv R Q tab' \<and> tab_self tab' = tab_self tab"
proof -
  have t: "table_typed Q tab" and nu: "\<forall>n \<in> set (tab_nursery tab). Q n" and db: "db_records R Q (tab_db tab)"
    using inv by (simp_all add: table_inv_def)
  show ?thesis
  proof (cases op)
    case (OpFindnode now n err ns)
    then have "node_id_ok (nd_ID n)" "\<forall>x \<in> set ns. Q x" using op named by (auto simp: op_ok_def list_all_iff)
    then show ?thesis
      using OpFindnode findnode_typed [OF t] findnode_frame [of now n err ns tab] nu db field_records(3) [OF db]
      by (auto simp: table_inv_def)
  next
    case (OpLoadSeeds now rnd)
    then show ?thesis using loadSeedNodes_inv [OF inv R, of now rnd] by auto
  next
    case (OpCopyLive now)
    then show ?thesis using copyLive_records [OF inv R, of now] t nu by (simp add: table_inv_def copyLiveNodes_def)
  next
    case (OpExpire now)
    then show ?thesis using expireNodes_records [OF db, of now] t nu by (auto simp: table_inv_def)
  next
    case (OpRevalidated alive r lst bi)
    then show ?thesis using op t nu db by (auto simp: op_ok_def table_inv_def revalidated_typed) (simp_all add: revalidated_def)
  qed (use op t nu db in \<open>auto simp: op_ok_def list_all_iff table_inv_def addThroughPing_def Table_add_typed stuff_typed Table_delete_typed
        field_records(1,2)\<close>)
qed

lemma table_run_inv:
  assumes "table_inv R Q tab" "rlp_ok R" "\<forall>op \<in> set ops. op_ok Q tab op"
  shows "\<exists>tab'. table_run R ops tab = Ret tab' \<and> table_inv R Q tab'"
  using assms(1,3)
proof (induction ops arbitrary: tab)
  case (Cons op ops)
  obtain tab1 where s: "table_step R op tab = Ret tab1" "table_inv R Q tab1" "tab_self tab1 = tab_self tab"
    using table_step_inv [OF Cons.prems(1) assms(2)] Cons.prems(2) by auto
  then show ?case using Cons.IH [OF s(2)] Cons.prems(2) op_ok_self [OF s(3)] by simp
qed simp

end

lemma rlp_fields_simps [simp]:
  "nd_ID (rlp_fields n) = nd_ID n" "nd_ip (rlp_fields n) = nd_ip n" "nd_sha (rlp_fields n) = zero_hash"
  by (simp_all add: rlp_fields_def nd_ip_def)

lemma addedAt_ip [simp]: "nd_ip (n\<lparr>nd_addedAt := t\<rparr>) = nd_ip n"
  by (simp add: nd_ip_def)

interpretation fresh_nodes: node_class "node_ok H" for H
  by unfold_locales (auto simp: node_ok_def)

interpretation known_nodes: stored_class "known_node H" for H
  by unfold_locales (simp_all add: known_node_def zero_hash_def)

interpretation addressed_nodes: stored_class "addressed_node H A" for H A
  by unfold_locales (simp_all add: addressed_node_def known_node_def zero_hash_def)

subsection \<open>The limits on addresses\<close>

lemma wan_ips_simps [simp]:
  "wan_ips [] = []" "wan_ips (n # ns) = wan_of (nd_ip n) @ wan_ips ns" "wan_ips (ns @ ms) = wan_ips ns @ wan_ips ms"
  by (simp_all add: wan_ips_def wan_of_def)

lemma addIP_tracks:
  assumes "table_ips.tracks (fst st) xs" "bucket_ips.tracks (bk_ips (snd st)) ys" "addIP ip st = (ok, st1)"
  shows "table_ips.tracks (fst st1) ((if ok then wan_of ip else []) @ xs)"
    and "bucket_ips.tracks (bk_ips (snd st1)) ((if ok then wan_of ip else []) @ ys)"
proof -
  obtain t b where st: "st = (t, b)" by (cases st)
  obtain ok1 t1 where a1: "DistinctNetSet_Add ip t = (ok1, t1)" by (cases "DistinctNetSet_Add ip t")
  obtain ok2 b1 where a2: "DistinctNetSet_Add ip (bk_ips b) = (ok2, b1)" by (cases "DistinctNetSet_Add ip (bk_ips b)")
  note r = assms(3) [unfolded st addIP_def]
  consider "IsLAN ip" | "\<not> IsLAN ip" "\<not> ok1" | "\<not> IsLAN ip" "ok1" "\<not> ok2" | "\<not> IsLAN ip" "ok1" "ok2" by blast
  then have "table_ips.tracks (fst st1) ((if ok then wan_of ip else []) @ xs)
    \<and> bucket_ips.tracks (bk_ips (snd st1)) ((if ok then wan_of ip else []) @ ys)"
  proof cases
    case 1
    then show ?thesis using r assms(1,2) st by (auto simp: wan_of_def)
  next
    case 2
    then show ?thesis using r a1 assms(1,2) st by auto
  next
    case 3
    then have "table_ips.tracks (DistinctNetSet_Remove ip t1) xs"
      using table_ips.tracks_remove [OF table_ips.tracks_add [of t xs ip t1]] a1 assms(1) st by simp
    then show ?thesis using 3 r a1 a2 assms(2) st by auto
  next
    case 4
    then have "table_ips.tracks t1 (ip # xs)" "bucket_ips.tracks b1 (ip # ys)"
      using table_ips.tracks_add [of t xs ip t1] bucket_ips.tracks_add [of "bk_ips b" ys ip b1] a1 a2 assms(1,2) st by simp_all
    then show ?thesis using 4 r a1 a2 by (auto simp: wan_of_def)
  qed
  then show "table_ips.tracks (fst st1) ((if ok then wan_of ip else []) @ xs)"
    "bucket_ips.tracks (bk_ips (snd st1)) ((if ok then wan_of ip else []) @ ys)" by simp_all
qed

lemma removeIP_tracks:
  assumes "table_ips.tracks (fst st) (wan_of ip @ xs)" "bucket_ips.tracks (bk_ips (snd st)) (wan_of ip @ ys)"
  shows "table_ips.tracks (fst (removeIP ip st)) xs" "bucket_ips.tracks (bk_ips (snd (removeIP ip st))) ys"
  using assms table_ips.tracks_remove [of "fst st" ip xs] bucket_ips.tracks_remove [of "bk_ips (snd st)" ip ys]
  by (cases "IsLAN ip"; simp add: removeIP_def wan_of_def)+

lemma bucket_countedI:
  assumes "\<And>n. n \<in> set (bucket_nodes b) \<Longrightarrow> nd_ip n = A (nd_ID n)"
    and "table_ips.tracks t (xs @ rest)" "bucket_ips.tracks (bk_ips b) xs"
    and "mset (wan_ips (bucket_nodes b)) \<subseteq># mset xs"
  shows "bucket_counted A rest (t, b)"
proof -
  have "mset (wan_ips (bucket_nodes b) @ rest) \<subseteq># mset (xs @ rest)" using assms(4) by simp
  then show ?thesis
    using assms table_ips.tracks_mset bucket_ips.tracks_mset unfolding bucket_counted_def by auto
qed

lemma removeIP_counted:
  assumes "\<And>n. n \<in> set (bucket_nodes b) \<Longrightarrow> nd_ip n = A (nd_ID n)"
    and "table_ips.tracks t xs" "bucket_ips.tracks (bk_ips b) ys"
    and "mset (wan_of ip @ wan_ips (bucket_nodes b) @ rest) \<subseteq># mset xs"
    and "mset (wan_of ip @ wan_ips (bucket_nodes b)) \<subseteq># mset ys"
  shows "bucket_counted A rest (removeIP ip (t, b))"
proof -
  have "table_ips.tracks (fst (t, b)) (wan_of ip @ wan_ips (bucket_nodes b) @ rest)"
    using table_ips.tracks_mset [OF assms(2,4)] by simp
  moreover have "bucket_ips.tracks (bk_ips (snd (t, b))) (wan_of ip @ wan_ips (bucket_nodes b))"
    using bucket_ips.tracks_mset [OF assms(3,5)] by simp
  ultimately have "table_ips.tracks (fst (removeIP ip (t, b))) (wan_ips (bucket_nodes b) @ rest)"
    "bucket_ips.tracks (bk_ips (snd (removeIP ip (t, b)))) (wan_ips (bucket_nodes b))"
    by (rule removeIP_tracks)+
  moreover have "bucket_nodes (snd (removeIP ip (t, b))) = bucket_nodes b" by (simp add: bucket_nodes_def)
  ultimately show ?thesis using assms(1) by (simp add: bucket_counted_def)
qed

lemma bucket_countedD:
  assumes "bucket_counted A rest st"
  shows "n \<in> set (bk_entries (snd st)) \<Longrightarrow> nd_ip n = A (nd_ID n)"
    and "n \<in> set (bk_replacements (snd st)) \<Longrightarrow> nd_ip n = A (nd_ID n)"
    and "table_ips.tracks (fst st) (wan_ips (bucket_nodes (snd st)) @ rest)"
    and "bucket_ips.tracks (bk_ips (snd st)) (wan_ips (bucket_nodes (snd st)))"
  using assms by (simp_all add: bucket_counted_def bucket_nodes_def)

text \<open>Deleting a node by its identifier takes one of its address away.\<close>

lemma deleteNode_wan:
  assumes "\<forall>e \<in> set es. nd_ip e = A (nd_ID e)" "i \<in> nd_ID ` set es"
  shows "mset (wan_ips es) = mset (wan_of (A i)) + mset (wan_ips (deleteNode es i))"
proof -
  obtain us e vs where "es = us @ e # vs" "nd_ID e = i" "deleteNode es i = us @ vs"
    using deleteNode_split [OF assms(2)] by blast
  then show ?thesis using assms(1) by simp
qed

lemma deleteNode_wan_sub: "mset (wan_ips (deleteNode es i)) \<subseteq># mset (wan_ips es)"
proof (cases "i \<in> nd_ID ` set es")
  case True
  then obtain us e vs where "es = us @ e # vs" "deleteNode es i = us @ vs" using deleteNode_split by blast
  then show ?thesis by simp
qed (simp add: deleteNode_absent)

lemma bump_counted:
  assumes c: "bucket_counted A rest (t, b)" and n: "nd_ip n = A (nd_ID n)"
  shows "bucket_counted A rest (t, snd (bump n b))"
proof (cases "nd_ID n \<in> nd_ID ` set (bk_entries b)")
  case False
  then show ?thesis using c by (simp add: bump_absent)
next
  case True
  note d = bucket_countedD [OF c, simplified]
  have b: "snd (bump n b) = b\<lparr>bk_entries := n # deleteNode (bk_entries b) (nd_ID n)\<rparr>" using True by (simp add: bump_def)
  have "mset (wan_ips (bk_entries b)) = mset (wan_of (nd_ip n)) + mset (wan_ips (deleteNode (bk_entries b) (nd_ID n)))"
    using deleteNode_wan [of "bk_entries b" A, OF _ True] d(1) n by simp
  then have "mset (wan_ips (bucket_nodes (snd (bump n b)))) \<subseteq># mset (wan_ips (bucket_nodes b))"
    by (simp add: b bucket_nodes_def)
  moreover have "x \<in> set (bucket_nodes (snd (bump n b))) \<Longrightarrow> nd_ip x = A (nd_ID x)" for x
    using d(1,2) n deleteNode_set [of "bk_entries b" "nd_ID n"] by (auto simp: b bucket_nodes_def)
  moreover have "bk_ips (snd (bump n b)) = bk_ips b" by (simp add: b)
  ultimately show ?thesis using d(3,4) by (intro bucket_countedI [of _ _ _ "wan_ips (bucket_nodes b)"]) simp_all
qed

lemma bumpOrAdd_counted:
  assumes c: "bucket_counted A rest st" and n: "nd_ip n = A (nd_ID n)"
  shows "bucket_counted A rest (snd (bumpOrAdd now n st))"
proof (cases rule: bumpOrAdd_cases [of n st now])
  case bumped
  then show ?thesis using bump_counted [of A rest "fst st" "snd st" n] c n by simp
next
  case full
  then show ?thesis using c by simp
next
  case (refused st1)
  note d = bucket_countedD [OF c]
  have "bucket_nodes (snd st1) = bucket_nodes (snd st)"
    using addIP_nodes [of "nd_ip n" st] refused(2) by (simp add: bucket_nodes_def)
  then show ?thesis using addIP_tracks [OF d(3,4) refused(2)] c refused(3) by (simp add: bucket_counted_def)
next
  case (added st1)
  note d = bucket_countedD [OF c]
  note tr = addIP_tracks [OF d(3,4) added(3)]
  let ?b = "(snd st1)\<lparr>bk_entries := n\<lparr>nd_addedAt := now\<rparr> # bk_entries (snd st),
                   bk_replacements := deleteNode (bk_replacements (snd st)) (nd_ID n)\<rparr>"
  have ip: "nd_ip (n\<lparr>nd_addedAt := now\<rparr>) = nd_ip n" by (simp add: nd_ip_def)
  have "bucket_counted A rest (fst st1, ?b)"
  proof (rule bucket_countedI [of _ _ _ "wan_of (nd_ip n) @ wan_ips (bucket_nodes (snd st))"])
    show "table_ips.tracks (fst st1) ((wan_of (nd_ip n) @ wan_ips (bucket_nodes (snd st))) @ rest)" using tr(1) by simp
    show "bucket_ips.tracks (bk_ips ?b) (wan_of (nd_ip n) @ wan_ips (bucket_nodes (snd st)))" using tr(2) by simp
    show "mset (wan_ips (bucket_nodes ?b)) \<subseteq># mset (wan_of (nd_ip n) @ wan_ips (bucket_nodes (snd st)))"
      using deleteNode_wan_sub [of "bk_replacements (snd st)" "nd_ID n"] by (simp add: bucket_nodes_def ip)
    show "nd_ip x = A (nd_ID x)" if "x \<in> set (bucket_nodes ?b)" for x
      using that d(1,2) n ip deleteNode_set [of "bk_replacements (snd st)" "nd_ID n"] by (auto simp: bucket_nodes_def)
  qed
  then show ?thesis using added(4) by simp
qed

lemma addReplacement_counted:
  assumes c: "bucket_counted A rest st" and n: "nd_ip n = A (nd_ID n)"
  shows "bucket_counted A rest (addReplacement n st)"
proof (cases "nd_ID n \<in> nd_ID ` set (bk_replacements (snd st))")
  case True
  then show ?thesis using c by (simp add: addReplacement_def)
next
  case False
  note d = bucket_countedD [OF c]
  obtain ok st1 where add: "addIP (nd_ip n) st = (ok, st1)" by (cases "addIP (nd_ip n) st")
  note tr = addIP_tracks [OF d(3,4) add]
  have nodes: "bk_entries (snd st1) = bk_entries (snd st)" "bk_replacements (snd st1) = bk_replacements (snd st)"
    using addIP_nodes [of "nd_ip n" st] add by simp_all
  let ?rs = "bk_replacements (snd st)"
  show ?thesis
  proof (cases ok)
    case no: False
    then have "addReplacement n st = st1" using False add by (simp add: addReplacement_def)
    then show ?thesis using tr no c nodes by (simp add: bucket_counted_def bucket_nodes_def)
  next
    case True
    show ?thesis
    proof (cases "length ?rs < maxReplacements")
      case room: True
      let ?b = "(snd st1)\<lparr>bk_replacements := n # ?rs\<rparr>"
      have "addReplacement n st = (fst st1, ?b)"
        using False True add nodes room by (simp add: addReplacement_def pushNode_def)
      moreover have "bucket_counted A rest (fst st1, ?b)"
        by (rule bucket_countedI [of _ _ _ "wan_of (nd_ip n) @ wan_ips (bucket_nodes (snd st))"])
          (use tr True d(1,2) n nodes in \<open>auto simp: bucket_nodes_def\<close>)
      ultimately show ?thesis by simp
    next
      case full: False
      then have rs: "?rs = butlast ?rs @ [last ?rs]" by (cases ?rs) (auto simp: maxReplacements_def)
      let ?b = "(snd st1)\<lparr>bk_replacements := n # butlast ?rs\<rparr>"
      have eq: "addReplacement n st = removeIP (nd_ip (last ?rs)) (fst st1, ?b)"
        using False True add nodes full by (simp add: addReplacement_def pushNode_def)
      have w: "wan_ips ?rs = wan_ips (butlast ?rs) @ wan_of (nd_ip (last ?rs))"
        using arg_cong [OF rs, of wan_ips] by simp
      have m: "mset (wan_of (nd_ip (last ?rs)) @ wan_ips (bucket_nodes ?b)) = mset (wan_of (nd_ip n) @ wan_ips (bucket_nodes (snd st)))"
        by (simp add: bucket_nodes_def nodes w)
      show ?thesis unfolding eq
      proof (rule removeIP_counted)
        show "nd_ip x = A (nd_ID x)" if "x \<in> set (bucket_nodes ?b)" for x
          using that d(1,2) n nodes in_set_butlastD [of x ?rs] by (auto simp: bucket_nodes_def)
        show "table_ips.tracks (fst st1) (wan_of (nd_ip n) @ wan_ips (bucket_nodes (snd st)) @ rest)" using tr(1) True by simp
        show "bucket_ips.tracks (bk_ips ?b) (wan_of (nd_ip n) @ wan_ips (bucket_nodes (snd st)))" using tr(2) True by simp
        show "mset (wan_of (nd_ip (last ?rs)) @ wan_ips (bucket_nodes ?b)) \<subseteq># mset (wan_of (nd_ip n) @ wan_ips (bucket_nodes (snd st)))"
          using m by simp
        show "mset (wan_of (nd_ip (last ?rs)) @ wan_ips (bucket_nodes ?b) @ rest) \<subseteq># mset (wan_of (nd_ip n) @ wan_ips (bucket_nodes (snd st)) @ rest)"
          using m by (simp flip: add.assoc)
      qed
    qed
  qed
qed

lemma deleteInBucket_counted:
  assumes c: "bucket_counted A rest st" and n: "nd_ip n = A (nd_ID n)" and i: "nd_ID n \<in> nd_ID ` set (bk_entries (snd st))"
  shows "bucket_counted A rest (deleteInBucket n st)"
  unfolding deleteInBucket_def
proof (rule removeIP_counted)
  note d = bucket_countedD [OF c]
  let ?b = "(snd st)\<lparr>bk_entries := deleteNode (bk_entries (snd st)) (nd_ID n)\<rparr>"
  have w: "mset (wan_ips (bk_entries (snd st))) = mset (wan_of (nd_ip n)) + mset (wan_ips (deleteNode (bk_entries (snd st)) (nd_ID n)))"
    using deleteNode_wan [of "bk_entries (snd st)" A, OF _ i] d(1) n by simp
  show "table_ips.tracks (fst st) (wan_ips (bucket_nodes (snd st)) @ rest)"
    "bucket_ips.tracks (bk_ips ?b) (wan_ips (bucket_nodes (snd st)))" using d(3,4) by simp_all
  show "mset (wan_of (nd_ip n) @ wan_ips (bucket_nodes ?b) @ rest) \<subseteq># mset (wan_ips (bucket_nodes (snd st)) @ rest)"
    "mset (wan_of (nd_ip n) @ wan_ips (bucket_nodes ?b)) \<subseteq># mset (wan_ips (bucket_nodes (snd st)))"
    by (simp_all add: bucket_nodes_def w flip: add.assoc)
  show "nd_ip x = A (nd_ID x)" if "x \<in> set (bucket_nodes ?b)" for x
    using that d(1,2) deleteNode_set [of "bk_entries (snd st)" "nd_ID n"] by (auto simp: bucket_nodes_def)
qed

lemma replace_counted:
  assumes c: "bucket_counted A rest st" and l: "nd_ip lst = A (nd_ID lst)"
  shows "bucket_counted A rest (snd (replace r lst st))"
proof (cases rule: replace_nodes [of r lst st])
  case moved
  then show ?thesis using c by simp
next
  case dropped
  have "nd_ID lst \<in> nd_ID ` set (bk_entries (snd st))" using dropped(1,2) by (metis image_eqI last_in_set)
  then show ?thesis using deleteInBucket_counted [OF c l] dropped(3) by simp
next
  case (replaced es x)
  note d = bucket_countedD [OF c]
  let ?rs = "bk_replacements (snd st)" and ?l = "last (bk_entries (snd st))"
  let ?b = "(snd st)\<lparr>bk_replacements := deleteNode ?rs (nd_ID x), bk_entries := es @ [x]\<rparr>"
  have ent: "x \<in> set (es @ [?l]) \<Longrightarrow> nd_ip x = A (nd_ID x)" for x using d(1) replaced(1) by metis
  have ipl: "nd_ip ?l = nd_ip lst" using ent [of ?l] replaced(2) l by simp
  have ipx: "nd_ip x = A (nd_ID x)" using d(2) replaced(3) by simp
  have we: "wan_ips (bk_entries (snd st)) = wan_ips es @ wan_of (nd_ip lst)"
    using arg_cong [OF replaced(1), of wan_ips] ipl by simp
  have "nd_ID x \<in> nd_ID ` set ?rs" using replaced(3) by simp
  then have wr: "mset (wan_ips ?rs) = mset (wan_of (nd_ip x)) + mset (wan_ips (deleteNode ?rs (nd_ID x)))"
    using deleteNode_wan [of ?rs A "nd_ID x"] d(2) ipx by simp
  have "bucket_counted A rest (removeIP (nd_ip lst) (fst st, ?b))"
  proof (rule removeIP_counted)
    show "table_ips.tracks (fst st) (wan_ips (bucket_nodes (snd st)) @ rest)"
      "bucket_ips.tracks (bk_ips ?b) (wan_ips (bucket_nodes (snd st)))" using d(3,4) by simp_all
    show "mset (wan_of (nd_ip lst) @ wan_ips (bucket_nodes ?b) @ rest) \<subseteq># mset (wan_ips (bucket_nodes (snd st)) @ rest)"
      "mset (wan_of (nd_ip lst) @ wan_ips (bucket_nodes ?b)) \<subseteq># mset (wan_ips (bucket_nodes (snd st)))"
      by (simp_all add: bucket_nodes_def we wr flip: add.assoc)
    show "nd_ip y = A (nd_ID y)" if "y \<in> set (bucket_nodes ?b)" for y
      using that ent ipx d(2) deleteNode_set [of ?rs "nd_ID x"] by (auto simp: bucket_nodes_def)
  qed
  then show ?thesis using replaced(4) by simp
qed

lemma table_nodes_at:
  assumes "i < length (tab_buckets tab)"
  shows "mset (wan_ips (table_nodes tab)) = mset (wan_ips (bucket_nodes (tab_buckets tab ! i)) @ other_ips i tab)"
    and "set (table_nodes tab) = set (bucket_nodes (tab_buckets tab ! i))
      \<union> set (concat (map bucket_nodes (take i (tab_buckets tab) @ drop (Suc i) (tab_buckets tab))))"
proof -
  let ?bs = "tab_buckets tab"
  have split: "?bs = take i ?bs @ ?bs ! i # drop (Suc i) ?bs" using assms by (rule id_take_nth_drop)
  have nodes: "table_nodes tab = concat (map bucket_nodes (take i ?bs)) @ bucket_nodes (?bs ! i) @ concat (map bucket_nodes (drop (Suc i) ?bs))"
    unfolding table_nodes_def by (subst split) simp
  show "mset (wan_ips (table_nodes tab)) = mset (wan_ips (bucket_nodes (?bs ! i)) @ other_ips i tab)"
    unfolding nodes other_ips_def by simp
  show "set (table_nodes tab) = set (bucket_nodes (?bs ! i))
      \<union> set (concat (map bucket_nodes (take i ?bs @ drop (Suc i) ?bs)))"
    unfolding nodes by auto
qed

lemma with_bucket_counted:
  assumes c: "table_counted A tab" and i: "i < length (tab_buckets tab)"
    and f: "\<And>rest. bucket_counted A rest (tab_ips tab, tab_buckets tab ! i) \<Longrightarrow>
      bucket_counted A rest (f (tab_ips tab, tab_buckets tab ! i))"
  shows "table_counted A (with_bucket i f tab)"
proof -
  let ?bs = "tab_buckets tab" and ?rest = "other_ips i tab" and ?tab = "with_bucket i f tab"
  obtain t b where r: "f (tab_ips tab, ?bs ! i) = (t, b)" by (cases "f (tab_ips tab, ?bs ! i)")
  note at = table_nodes_at [OF i]
  have "table_ips.tracks (tab_ips tab) (wan_ips (bucket_nodes (?bs ! i)) @ ?rest)"
    by (rule table_ips.tracks_mset [of _ "wan_ips (table_nodes tab)"]) (use c at(1) in \<open>simp_all add: table_counted_def\<close>)
  then have "bucket_counted A ?rest (tab_ips tab, ?bs ! i)"
    using c at(2) i by (simp add: bucket_counted_def table_counted_def)
  from f [OF this] r have d: "bucket_counted A ?rest (t, b)" by simp
  have i': "i < length (tab_buckets ?tab)" using i by simp
  have bs: "tab_buckets ?tab = ?bs[i := b]" "tab_ips ?tab = t" using r by (simp_all add: with_bucket_buckets with_bucket_ips)
  have same: "take i (tab_buckets ?tab) @ drop (Suc i) (tab_buckets ?tab) = take i ?bs @ drop (Suc i) ?bs"
    by (simp add: bs)
  have at': "mset (wan_ips (table_nodes ?tab)) = mset (wan_ips (bucket_nodes b) @ ?rest)"
    "set (table_nodes ?tab) = set (bucket_nodes b) \<union> set (concat (map bucket_nodes (take i ?bs @ drop (Suc i) ?bs)))"
    using table_nodes_at [OF i'] i unfolding other_ips_def same by (simp_all add: bs)
  have "table_ips.tracks t (wan_ips (table_nodes ?tab))"
    by (rule table_ips.tracks_mset [of _ "wan_ips (bucket_nodes b) @ ?rest"])
      (use d at'(1) in \<open>simp_all add: bucket_counted_def\<close>)
  moreover have "nd_ip n = A (nd_ID n)" if "n \<in> set (table_nodes ?tab)" for n
    using that d c at(2) unfolding at'(2) by (auto simp: bucket_counted_def table_counted_def)
  moreover have "bucket_ips.tracks (bk_ips x) (wan_ips (bucket_nodes x))" if "x \<in> set (tab_buckets ?tab)" for x
  proof -
    have "x = b \<or> x \<in> set ?bs" using that set_update_subset_insert [of ?bs i b] by (auto simp: bs)
    then show ?thesis using d c by (auto simp: bucket_counted_def table_counted_def)
  qed
  ultimately show ?thesis by (simp add: table_counted_def bs)
qed

lemma Table_add_counted:
  assumes t: "table_typed Q tab" and c: "table_counted A tab" and n: "nd_ip n = A (nd_ID n)"
  shows "table_counted A (Table_add now n tab)"
  unfolding Table_add_def
proof (rule with_bucket_counted [OF c])
  let ?st = "(tab_ips tab, tab_buckets tab ! bucket_index tab (nd_sha n))"
  show "bucket_index tab (nd_sha n) < length (tab_buckets tab)" using table_typedD(2,4) [OF t] by simp
  fix rest assume b: "bucket_counted A rest ?st"
  obtain ok st1 where r: "bumpOrAdd now n ?st = (ok, st1)" by (cases "bumpOrAdd now n ?st")
  have "bucket_counted A rest st1" using bumpOrAdd_counted [OF b n, of now] r by simp
  then show "bucket_counted A rest (case bumpOrAdd now n ?st of (True, st1) \<Rightarrow> st1 | (False, st1) \<Rightarrow> addReplacement n st1)"
    using r addReplacement_counted [of A rest st1 n] n by (cases ok) simp_all
qed

lemma addressed_ip: "addressed_node H A n \<Longrightarrow> nd_ip n = A (nd_ID n)"
  by (simp add: addressed_node_def)

lemma adds_counted:
  assumes "table_typed (addressed_node H A) tab" "table_counted A tab" "\<forall>n \<in> set ns. addressed_node H A n"
  shows "table_counted A (fold (Table_add now) ns tab)"
  using assms
proof (induction ns arbitrary: tab)
  case (Cons n ns)
  have "table_counted A (Table_add now n tab)" using Cons.prems by (intro Table_add_counted) (simp_all add: addressed_ip [of H A])
  then show ?case using Cons.IH [of "Table_add now n tab"] Cons.prems addressed_nodes.Table_add_typed [of H A tab n now] by simp
qed simp

lemma stuff_counted:
  assumes "table_typed (addressed_node H A) tab" "table_counted A tab" "\<forall>n \<in> set ns. addressed_node H A n"
  shows "table_counted A (stuff now ns tab)"
  using assms unfolding stuff_def
proof (induction ns arbitrary: tab)
  case (Cons n ns)
  have "table_counted A (with_bucket (bucket_index tab (nd_sha n)) (\<lambda>st. snd (bumpOrAdd now n st)) tab)"
    using Cons.prems table_typedD(2,4) [OF Cons.prems(1)]
    by (intro with_bucket_counted) (simp_all add: bumpOrAdd_counted addressed_ip [of H A])
  then have "table_counted A (stuff_one now n tab)" using Cons.prems(2) by (simp add: stuff_one_def Let_def)
  then show ?case using Cons.IH [of "stuff_one now n tab"] Cons.prems addressed_nodes.stuff_one_typed [of H A tab n now] by simp
qed simp

lemma Table_delete_counted:
  assumes t: "table_typed Q tab" and c: "table_counted A tab" and n: "nd_ip n = A (nd_ID n)" "in_entries tab n"
  shows "table_counted A (Table_delete n tab)"
  unfolding Table_delete_def using n table_typedD(2,4) [OF t]
  by (intro with_bucket_counted [OF c]) (simp_all add: deleteInBucket_counted in_entries_def)

lemma revalidated_counted:
  assumes c: "table_counted A tab" and n: "nd_ip lst = A (nd_ID lst)" "bi < length (tab_buckets tab)"
  shows "table_counted A (revalidated alive r lst bi tab)"
  unfolding revalidated_def using n bump_counted replace_counted
  by (intro with_bucket_counted [OF c]) auto

lemma table_counted_simps [simp]:
  "table_counted A (tab\<lparr>tab_db := db\<rparr>) = table_counted A tab"
  "table_counted A (tab\<lparr>tab_initDone := x\<rparr>) = table_counted A tab"
  by (simp_all add: table_counted_def table_nodes_def)

lemma in_entries_db [simp]: "in_entries (tab\<lparr>tab_db := db\<rparr>) n = in_entries tab n"
  by (simp add: in_entries_def bucket_index_def)

lemma findnode_counted:
  assumes t: "table_typed (addressed_node H A) tab" and c: "table_counted A tab" and n: "nd_ip n = A (nd_ID n)"
    and ns: "\<forall>n \<in> set ns. addressed_node H A n"
    and s: "(err \<or> ns = []) \<and> i64 (findFails (tab_db tab) (nd_ID n) + 1) \<ge> maxFindnodeFailures \<longrightarrow> in_entries tab n"
  shows "table_counted A (Table_findnode now n err ns tab)"
  unfolding Table_findnode_def Let_def
  by (intro adds_counted [of H]) (use assms Table_delete_counted [of "addressed_node H A"] Table_delete_typed in auto)

lemma table_step_counted:
  assumes inv: "table_inv R (addressed_node H A) tab" and R: "rlp_ok R" and c: "table_counted A tab"
    and op: "op_ok (addressed_node H A) tab op" "op_steady tab op" and step: "table_step R op tab = Ret tab'"
  shows "table_counted A tab'"
proof -
  have t: "table_typed (addressed_node H A) tab" using inv by (simp add: table_inv_def)
  show ?thesis
  proof (cases op)
    case (OpRevalidated alive r lst bi)
    then show ?thesis using op(1) step table_typedD(2,4) [OF t] revalidated_counted [OF c] by (auto simp: op_ok_def addressed_ip [of H A])
  next
    case (OpFindnode now n err ns)
    then show ?thesis using op step findnode_counted [OF t c, of n ns err now] by (simp add: op_ok_def list_all_iff addressed_ip [of H A])
  next
    case (OpStuff now ns)
    then show ?thesis using op step stuff_counted [OF t c] by (auto simp: op_ok_def list_all_iff)
  next
    case (OpDelete n)
    then show ?thesis using op step Table_delete_counted [OF t c] by (auto simp: op_ok_def addressed_ip [of H A])
  next
    case (OpLoadSeeds now rnd)
    then show ?thesis using step addressed_nodes.loadSeedNodes_inv [OF inv R, of now rnd] adds_counted [OF t c] by auto
  qed (use c op(1) step Table_add_counted [OF t c] in
      \<open>auto simp: op_ok_def list_all_iff addThroughPing_def copyLiveNodes_def res_bind_eq_Ret addressed_ip\<close>)
qed

lemma table_run_counted:
  assumes "table_inv R (addressed_node H A) tab" "rlp_ok R" "table_counted A tab" "run_steady R tab ops"
    and "\<forall>op \<in> set ops. op_ok (addressed_node H A) tab op" "table_run R ops tab = Ret tab'"
  shows "table_counted A tab'"
  using assms(1,3-6)
proof (induction ops arbitrary: tab)
  case (Cons op ops)
  obtain tab1 where s: "table_step R op tab = Ret tab1" "table_inv R (addressed_node H A) tab1" "tab_self tab1 = tab_self tab"
    using addressed_nodes.table_step_inv [OF Cons.prems(1) assms(2)] Cons.prems(4) by auto
  have "table_counted A tab1" using table_step_counted [OF Cons.prems(1) assms(2) Cons.prems(2) _ _ s(1)] Cons.prems(3,4) by simp
  then show ?case using Cons.IH [OF s(2)] Cons.prems(3-5) op_ok_self [OF s(3)] s(1) by simp
qed simp

subsection \<open>A new table\<close>

lemma net_set_empty: "net_set_ok 24 10 \<lparr>Subnet = 24, Limit = 10, members = []\<rparr>" "net_set_ok 24 2 \<lparr>Subnet = 24, Limit = 2, members = []\<rparr>"
  by (simp_all add: net_set_ok_def)

definition empty_table :: "Table \<Rightarrow> bool" where
  "empty_table tab \<longleftrightarrow>
     length (nd_sha (tab_self tab)) = 32 \<and> tab_buckets tab = replicate nBuckets newBucket
     \<and> tab_ips tab = \<lparr>Subnet = 24, Limit = 10, members = []\<rparr>"

lemma empty_table_ok:
  assumes "empty_table tab"
  shows "table_typed Q tab" "table_counted A tab"
proof -
  show "table_typed Q tab" using assms by (simp add: empty_table_def table_typed_def bucket_wf_iff newBucket_def)
  have "table_nodes tab = []" using assms by (simp add: empty_table_def table_nodes_def bucket_nodes_def newBucket_def)
  moreover have "table_ips.tracks (tab_ips tab) []" "bucket_ips.tracks (bk_ips newBucket) []"
    using net_set_empty assms by (simp_all add: empty_table_def table_ips.tracks_def bucket_ips.tracks_def newBucket_def)
  ultimately show "table_counted A tab"
    using assms by (simp add: empty_table_def table_counted_def) (simp add: bucket_nodes_def newBucket_def)
qed

context stored_class
begin

lemma newTable_inv:
  assumes new: "newTable E R now rnd ourID ip port (Ret db) bootnodes = Ret tab" and R: "rlp_ok R"
    and keccak: "\<And>b. length (Keccak256 E b) = 32" and db: "db_records R Q db"
    and boot: "\<And>n. n \<in> set bootnodes \<Longrightarrow> Q (n\<lparr>nd_sha := Keccak256 E (nd_ID n)\<rparr>)"
  shows "table_inv R Q tab" "\<exists>t0 ns. empty_table t0 \<and> (\<forall>n \<in> set ns. Q n) \<and> tab = fold (Table_add now) ns t0"
proof -
  let ?boot = "map (\<lambda>n. n\<lparr>nd_sha := Keccak256 E (nd_ID n)\<rparr>) bootnodes"
  define t0 where "t0 = \<lparr>tab_buckets = replicate nBuckets newBucket, tab_nursery = ?boot,
     tab_ips = \<lparr>Subnet = 24, Limit = 10, members = []\<rparr>, tab_db = db, tab_initDone = False,
     tab_self = NewNode (Keccak256 E) ourID ip port port\<rparr>"
  have load: "loadSeedNodes R now rnd t0 = Ret tab"
    using new by (auto simp: newTable_def setFallbackNodes_def t0_def Let_def split: if_splits)
  have e: "empty_table t0" by (simp add: t0_def empty_table_def NewNode_def keccak)
  have "table_inv R Q t0" using empty_table_ok(1) [OF e] boot db by (auto simp: table_inv_def t0_def)
  from loadSeedNodes_inv [OF this R, of now rnd] load obtain ns where
    "\<forall>n \<in> set ns. Q n" "tab = fold (Table_add now) ns t0" "table_inv R Q tab" by auto
  with e show "table_inv R Q tab" "\<exists>t0 ns. empty_table t0 \<and> (\<forall>n \<in> set ns. Q n) \<and> tab = fold (Table_add now) ns t0" by blast+
qed

end

subsection \<open>Properties\<close>

text \<open>
  C11: the type of the table. A table made by \<^verbatim>\<open>newTable\<close> over any database of node records, and every table reached from it by the operations
  of the goroutines in any order, refreshes from the database included, has 17 buckets of at most 16 entries and 10 replacements; the
  nodes of a bucket are distinct, entries and replacements do not overlap, and every node stands in the bucket of its cached hash. That
  is the hash of its identifier, except for nodes read back from the database, whose cached hash is zero. No operation panics. The disk
  has no faults and all nodes have a non-zero identifier.
\<close>

theorem table_well_formed:
  assumes "newTable E R now rnd ourID ip port (Ret db) bootnodes = Ret tab" "rlp_ok R"
    and "\<And>b. length (Keccak256 E b) = 32" "db_records R (known_node (Keccak256 E)) db"
    and "\<forall>n \<in> set bootnodes. node_id_ok (nd_ID n)" "\<forall>op \<in> set ops. op_ok (known_node (Keccak256 E)) tab op"
  shows "\<exists>tab'. table_run R ops tab = Ret tab' \<and> table_typed (known_node (Keccak256 E)) tab'"
proof -
  have "known_node (Keccak256 E) (n\<lparr>nd_sha := Keccak256 E (nd_ID n)\<rparr>)" if "n \<in> set bootnodes" for n
    using that assms(3,5) by (simp add: known_node_def)
  from known_nodes.table_run_inv [OF known_nodes.newTable_inv(1) [OF assms(1-4) this] assms(2,6)]
  show ?thesis by (auto simp: table_inv_def)
qed

text \<open>
  C10: the limits on addresses. As long as every identifier keeps its address (in the database and among the start nodes too) and only nodes that
  are in their bucket are deleted, no run of the operations, refreshes from the database included, puts more than two nodes of a public
  /24 network into a bucket or more than ten into the table, replacements included.
\<close>

theorem subnet_limits:
  assumes "newTable E R now rnd ourID ip port (Ret db) bootnodes = Ret tab" "rlp_ok R"
    and "\<And>b. length (Keccak256 E b) = 32" "db_records R (addressed_node (Keccak256 E) A) db"
    and "\<forall>n \<in> set bootnodes. node_id_ok (nd_ID n) \<and> nd_ip n = A (nd_ID n)"
    and "\<forall>op \<in> set ops. op_ok (addressed_node (Keccak256 E) A) tab op" "run_steady R tab ops"
  shows "\<exists>tab'. table_run R ops tab = Ret tab' \<and>
    (\<forall>k. length (filter (\<lambda>ip. subnet_key 24 ip = k) (wan_ips (table_nodes tab'))) \<le> 10) \<and>
    (\<forall>b \<in> set (tab_buckets tab'). \<forall>k. length (filter (\<lambda>ip. subnet_key 24 ip = k) (wan_ips (bucket_nodes b))) \<le> 2)"
proof -
  have boot: "addressed_node (Keccak256 E) A (n\<lparr>nd_sha := Keccak256 E (nd_ID n)\<rparr>)" if "n \<in> set bootnodes" for n
    using that assms(3,5) by (simp add: addressed_node_def known_node_def nd_ip_def)
  note new = addressed_nodes.newTable_inv [OF assms(1-4) boot]
  obtain t0 ns where t0: "empty_table t0" "\<forall>n \<in> set ns. addressed_node (Keccak256 E) A n" "tab = fold (Table_add now) ns t0"
    using new(2) by blast
  have c: "table_counted A tab"
    unfolding t0(3) by (rule adds_counted [OF empty_table_ok(1) [OF t0(1)] empty_table_ok(2) [OF t0(1)] t0(2)])
  obtain tab' where run: "table_run R ops tab = Ret tab'" using addressed_nodes.table_run_inv [OF new(1) assms(2,6)] by blast
  have "table_counted A tab'" by (rule table_run_counted [OF new(1) assms(2) c assms(7,6) run])
  then show ?thesis
    using run table_ips.tracks_limit bucket_ips.tracks_limit unfolding table_counted_def by blast
qed

subsection \<open>Witnesses\<close>

definition example_keccak :: "bytes \<Rightarrow> Hash" where
  "example_keccak b = take 32 (b @ replicate 32 0)"

definition example_discover :: ecc where
  "example_discover = example_ecc\<lparr>Keccak256 := example_keccak\<rparr>"

definition example_node :: "byte \<Rightarrow> Node" where
  "example_node b = NewNode example_keccak (example_node_id b) (Some [8, 8, 8, b]) 30303 30303"

definition example_table :: Table where
  "example_table =
     \<lparr>tab_buckets = replicate nBuckets newBucket, tab_nursery = [], tab_ips = \<lparr>Subnet = 24, Limit = 10, members = []\<rparr>,
      tab_db = newMemoryNodeDB (\<lambda>_ _. None) (example_node_id 9), tab_initDone = False,
      tab_self = NewNode example_keccak (example_node_id 9) None 30303 30303\<rparr>"

text \<open>A codec for nodes with a four-byte address and the default ports.\<close>

definition example_record :: "IP \<Rightarrow> NodeID \<Rightarrow> Node" where
  "example_record ip id0 =
     \<lparr>nd_IP = Some ip, nd_UDP = 30303, nd_TCP = 30303, nd_ID = id0, nd_IsWebrtc = False, nd_IsP2P = False, nd_PeerID = [],
      nd_PeerInfo = None, nd_sha = zero_hash, nd_addedAt = 0\<rparr>"

definition example_rlp :: rlp_codec where
  "example_rlp =
     \<lparr>rlp_Encode = \<lambda>n. if length (nd_ip n) = 4 \<and> rlp_fields n = example_record (nd_ip n) (nd_ID n) then Some (nd_ip n @ nd_ID n) else None,
      rlp_Decode = \<lambda>b. Some (example_record (take 4 b) (drop 4 b))\<rparr>"

definition example_ops :: "table_op list" where
  "example_ops =
     [OpAdd 0 (example_node 1), OpAdd 0 (example_node 2), OpInitDone, OpAddThroughPing 5 (example_node 3), OpPong 9 (example_node_id 1),
      OpCopyLive (seconds 600), OpLoadSeeds (seconds 600) (\<lambda>_. example_node_id 1), OpExpire (seconds 700),
      OpRevalidated False 7 (example_node 2) (bucket_index example_table (nd_sha (example_node 2)))]"

lemma example_rlp_ok: "rlp_ok example_rlp"
  by (auto simp: rlp_ok_def example_rlp_def) (simp add: rlp_fields_def example_record_def nd_ip_def)

lemma no_seeds:
  "querySeeds R now n maxAge rnd (newMemoryNodeDB (\<lambda>_ _. None) self) = Ret []"
proof -
  have "node_db_ok (newMemoryNodeDB (\<lambda>_ _. None) self)" by (rule db_recordsD(1) [OF empty_records])
  from querySeeds_ok [OF this] obtain seeds where
    "querySeeds R now n maxAge rnd (newMemoryNodeDB (\<lambda>_ _. None) self) = Ret seeds"
    "seeds_ok R now n maxAge (newMemoryNodeDB (\<lambda>_ _. None) self) seeds" by blast
  moreover from this(2) have "seeds = []"
    by (cases seeds) (auto simp: seeds_ok_def newMemoryNodeDB_def NewLDBDatabase_def)
  ultimately show ?thesis by simp
qed

lemma example_new:
  "newTable example_discover R now rnd (example_node_id 9) None 30303
     (Ret (newMemoryNodeDB (\<lambda>_ _. None) (example_node_id 9))) [] = Ret example_table"
  by (simp add: newTable_def setFallbackNodes_def loadSeedNodes_def no_seeds example_table_def example_discover_def)

lemma example_keccak_length: "length (Keccak256 example_discover b) = 32"
  by (simp add: example_discover_def example_keccak_def)

lemma example_nodes:
  "node_ok (Keccak256 example_discover) (example_node b)" "nd_ip (example_node b) = [8, 8, 8, b]" "nd_ID (example_node b) = example_node_id b"
  by (simp_all add: node_ok_def example_node_def NewNode_def nd_ip_def To4_def example_discover_def)
    (simp add: example_keccak_def)

lemma example_known:
  assumes "b \<noteq> 0"
  shows "addressed_node (Keccak256 example_discover) (\<lambda>i. [8, 8, 8, hd i]) (example_node b)"
    "known_node (Keccak256 example_discover) (example_node b)"
proof -
  show "known_node (Keccak256 example_discover) (example_node b)"
    using example_nodes(1) [of b] example_node_id_ok [OF assms] unfolding known_node_def node_ok_def example_nodes(3) by blast
  then show "addressed_node (Keccak256 example_discover) (\<lambda>i. [8, 8, 8, hd i]) (example_node b)"
    by (simp add: addressed_node_def example_nodes(2,3)) (simp add: example_node_id_def)
qed

lemma example_ops_ok:
  assumes "\<And>b. b \<noteq> 0 \<Longrightarrow> Q (example_node b)"
  shows "\<forall>op \<in> set example_ops. op_ok Q example_table op"
  by (simp add: example_ops_def op_ok_def assms example_node_id_ok)

lemma example_steady: "run_steady R tab example_ops"
  by (simp add: example_ops_def split: res.split)

theorem table_well_formed_witness:
  "newTable example_discover example_rlp 0 (\<lambda>_. example_node_id 1) (example_node_id 9) None 30303
     (Ret (newMemoryNodeDB (\<lambda>_ _. None) (example_node_id 9))) [] = Ret example_table \<and>
   (\<exists>tab'. table_run example_rlp example_ops example_table = Ret tab' \<and> table_typed (known_node (Keccak256 example_discover)) tab')"
  using table_well_formed [OF example_new example_rlp_ok example_keccak_length empty_records _ example_ops_ok [of "known_node (Keccak256 example_discover)", OF example_known(2)]] example_new
  by simp

theorem subnet_limits_witness:
  "\<exists>tab'. table_run example_rlp example_ops example_table = Ret tab' \<and> run_steady example_rlp example_table example_ops \<and>
     list_all (\<lambda>b. \<forall>k. length (filter (\<lambda>ip. subnet_key 24 ip = k) (wan_ips (bucket_nodes b))) \<le> 2) (tab_buckets tab')"
  using subnet_limits [OF example_new example_rlp_ok example_keccak_length empty_records _ example_ops_ok [of "addressed_node (Keccak256 example_discover) (\<lambda>i. [8, 8, 8, hd i])", OF example_known(1)] example_steady]
    example_steady by (auto simp: list_all_iff)

subsection \<open>Behaviours to know about\<close>

text \<open>
  Deleting a node that is not in its bucket, as a lookup does with a node it only heard of, leaves the
  nodes alone but gives back an address of its subnet, which another node then takes: the limits are
  exceeded.
\<close>

lemma delete_absent_uncounts:
  assumes "nd_ID n \<notin> nd_ID ` set (bk_entries (snd st))" "\<not> IsLAN (nd_ip n)" "net_set_ok 24 2 (bk_ips (snd st))"
  shows "bucket_nodes (snd (deleteInBucket n st)) = bucket_nodes (snd st)"
    and "counted (bk_ips (snd (deleteInBucket n st))) (subnet_key 24 (nd_ip n)) =
      counted (bk_ips (snd st)) (subnet_key 24 (nd_ip n)) - 1"
  using assms net_set_remove [OF assms(3), of "nd_ip n"]
  by (simp_all add: deleteInBucket_def bucket_nodes_def deleteNode_absent removeIP_def)

text \<open>A replacement that is added again is counted twice: \<^verbatim>\<open>bumpOrAdd\<close> does not give back its first count.\<close>

lemma promoted_counted_twice:
  assumes "nd_ID n \<notin> nd_ID ` set (bk_entries (snd st))" "n \<in> set (bk_replacements (snd st))"
    and "length (bk_entries (snd st)) < bucketSize" "\<not> IsLAN (nd_ip n)"
    and "net_set_ok 24 10 (fst st)" "counted (fst st) (subnet_key 24 (nd_ip n)) < 10"
    and "net_set_ok 24 2 (bk_ips (snd st))" "counted (bk_ips (snd st)) (subnet_key 24 (nd_ip n)) < 2"
  shows "\<exists>st'. bumpOrAdd now n st = (True, st') \<and> nd_ID ` set (bucket_nodes (snd st')) = nd_ID ` set (bucket_nodes (snd st))
    \<and> counted (bk_ips (snd st')) (subnet_key 24 (nd_ip n)) = Suc (counted (bk_ips (snd st)) (subnet_key 24 (nd_ip n)))"
proof -
  obtain t1 where t1: "DistinctNetSet_Add (nd_ip n) (fst st) = (True, t1)" using net_set_add_room [OF assms(5,6)] by blast
  obtain b1 where b1: "DistinctNetSet_Add (nd_ip n) (bk_ips (snd st)) = (True, b1)"
    "counted b1 (subnet_key 24 (nd_ip n)) = Suc (counted (bk_ips (snd st)) (subnet_key 24 (nd_ip n)))"
    using net_set_add_room [OF assms(7,8)] by auto
  have add: "addIP (nd_ip n) st = (True, t1, (snd st)\<lparr>bk_ips := b1\<rparr>)" using assms(4) t1 b1(1) by (simp add: addIP_def)
  have "nd_ID n \<in> nd_ID ` set (bk_replacements (snd st))" using assms(2) by simp
  then obtain us e vs where "bk_replacements (snd st) = us @ e # vs" "nd_ID e = nd_ID n"
    "deleteNode (bk_replacements (snd st)) (nd_ID n) = us @ vs" using deleteNode_split by blast
  then show ?thesis using assms(1,3) add b1(2)
    by (auto simp: bumpOrAdd_def bump_absent pushNode_def bucket_nodes_def)
qed

text \<open>\<^verbatim>\<open>bump\<close> takes over the new record of a node, its address included, without counting it.\<close>

lemma bump_keeps_counts:
  assumes "nd_ID n \<in> nd_ID ` set (bk_entries b)"
  shows "bk_ips (snd (bump n b)) = bk_ips b" "hd (bk_entries (snd (bump n b))) = n"
  using assms by (simp_all add: bump_def)

text \<open>
  The record also brings its own time of insertion, which is the zero time for a record that did not
  come from the table, and \<^verbatim>\<open>copyLiveNodes\<close> takes such a node for one that has been there for long.
\<close>

lemma bumped_node_is_old:
  assumes "nd_ID n \<in> nd_ID ` set (bk_entries b)" "nd_addedAt n = 0" "seedMinTableTime \<le> now"
  shows "time_Sub now (nd_addedAt (hd (bk_entries (snd (bump n b))))) \<ge> seedMinTableTime"
proof -
  have "seedMinTableTime \<le> 2 ^ 63 - 1" by (simp add: seedMinTableTime_def seconds_def)
  then show ?thesis using bump_keeps_counts(2) [OF assms(1)] assms(2,3) by (simp add: time_Sub_def)
qed

text \<open>
  All seeds of the database go to one bucket, whatever their identifiers; a node that is also in the bucket of its identifier is then in
  the table twice.
\<close>

lemma seeds_share_bucket:
  assumes "rlp_ok R" "seeds_ok R now n maxAge db seeds" "nd \<in> set seeds"
  shows "bucket_index tab (nd_sha nd) = bucket_index tab zero_hash"
  using seeds_have_zero_sha [OF assms] by simp

end
