(* ===== verification/Discover_Lookups.thy ===== *)
theory Discover_Lookups
  imports Discover_Tables
begin

text \<open>
  \<^verbatim>\<open>p2p/discover/table.go\<close>: the readers of the table. \<^verbatim>\<open>closest\<close> with the bounded ordered list
  \<^verbatim>\<open>nodesByDistance\<close>, the iterative \<^verbatim>\<open>lookup\<close>, and \<^verbatim>\<open>ReadRandomNodes\<close>.

  The queries of a lookup run in goroutines of their own and put their answers on a channel: \<open>replies\<close>
  are the answers in the order in which they arrive. An element of an answer may be nil.
\<close>

subsection \<open>Definitions\<close>

definition alpha :: nat where
  "alpha = 3"

text \<open>\<^verbatim>\<open>nodesByDistance.push\<close> on the entries of the list.\<close>

definition push :: "Hash \<Rightarrow> nat \<Rightarrow> Node \<Rightarrow> Node list \<Rightarrow> Node list" where
  "push target maxElems n es =
     (let ix = go_search (\<lambda>i. distcmp target (nd_sha (es ! i)) (nd_sha n) > 0) 0 (length es);
          es1 = (if length es < maxElems then es @ [n] else es)
      in if ix = length es1 then es1
         else take ix es1 @ n # take (length es1 - ix - 1) (drop ix es1))"

definition closest :: "Hash \<Rightarrow> nat \<Rightarrow> Table \<Rightarrow> Node list" where
  "closest target nresults tab =
     fold (push target nresults) (concat (map bk_entries (tab_buckets tab))) []"

record lookup_state =
  lk_asked :: "NodeID list"
  lk_seen :: "NodeID list"
  lk_pending :: nat
  lk_result :: "Node list"

text \<open>Ask the closest nodes that have not been asked, as long as fewer than \<^verbatim>\<open>alpha\<close> queries are pending.\<close>

fun ask_loop :: "Node list \<Rightarrow> NodeID list \<Rightarrow> nat \<Rightarrow> NodeID list \<times> nat" where
  "ask_loop [] asked p = (asked, p)"
| "ask_loop (n # ns) asked p =
     (if \<not> p < alpha then (asked, p)
      else if nd_ID n \<in> set asked then ask_loop ns asked p
      else ask_loop ns (nd_ID n # asked) (Suc p))"

definition ask :: "lookup_state \<Rightarrow> lookup_state" where
  "ask st = (let (asked, p) = ask_loop (lk_result st) (lk_asked st) (lk_pending st)
             in st\<lparr>lk_asked := asked, lk_pending := p\<rparr>)"

fun receive :: "Hash \<Rightarrow> Node option list \<Rightarrow> lookup_state \<Rightarrow> lookup_state" where
  "receive target [] st = st"
| "receive target (None # r) st = receive target r st"
| "receive target (Some n # r) st =
     (if nd_ID n \<in> set (lk_seen st) then receive target r st
      else receive target r (st\<lparr>lk_seen := nd_ID n # lk_seen st, lk_result := push target bucketSize n (lk_result st)\<rparr>))"

text \<open>The second loop of \<^verbatim>\<open>lookup\<close>; \<open>None\<close> when it still waits for an answer.\<close>

fun lookup_loop :: "Hash \<Rightarrow> Node option list list \<Rightarrow> lookup_state \<Rightarrow> lookup_state option" where
  "lookup_loop target [] st =
     (let st1 = ask st in if lk_pending st1 = 0 then Some st1 else None)"
| "lookup_loop target (r # replies) st =
     (let st1 = ask st
      in if lk_pending st1 = 0 then Some st1
         else lookup_loop target replies
                (let st2 = receive target r st1 in st2\<lparr>lk_pending := lk_pending st2 - 1\<rparr>))"

text \<open>\<open>refreshed\<close> is the table after the refresh that an empty table asks for.\<close>

definition lookup :: "(bytes \<Rightarrow> Hash) \<Rightarrow> NodeID \<Rightarrow> bool \<Rightarrow> Table \<Rightarrow> Table \<Rightarrow> Node option list list \<Rightarrow> lookup_state option" where
  "lookup keccak targetID refreshIfEmpty tab refreshed replies =
     (let target = keccak targetID;
          first = closest target bucketSize tab;
          start = (if first \<noteq> [] \<or> \<not> refreshIfEmpty then first else closest target bucketSize refreshed)
      in lookup_loop target replies
           \<lparr>lk_asked = [nd_ID (tab_self tab)], lk_seen = [], lk_pending = 0, lk_result = start\<rparr>)"

definition Lookup :: "(bytes \<Rightarrow> Hash) \<Rightarrow> NodeID \<Rightarrow> Table \<Rightarrow> Table \<Rightarrow> Node option list list \<Rightarrow> Node list option" where
  "Lookup keccak targetID tab refreshed replies =
     map_option lk_result (lookup keccak targetID True tab refreshed replies)"

text \<open>\<open>None\<close> when the network lookup has not ended, \<open>Some None\<close> for nil.\<close>

definition Resolve :: "(bytes \<Rightarrow> Hash) \<Rightarrow> NodeID \<Rightarrow> Table \<Rightarrow> Table \<Rightarrow> Node option list list \<Rightarrow> Node option option" where
  "Resolve keccak targetID tab refreshed replies =
     (let cl = closest (keccak targetID) 1 tab
      in if cl \<noteq> [] \<and> nd_ID (hd cl) = targetID then Some (Some (hd cl))
         else map_option (\<lambda>res. find (\<lambda>n. nd_ID n = targetID) res) (Lookup keccak targetID tab refreshed replies))"

text \<open>
  \<^verbatim>\<open>ReadRandomNodes\<close>: the shuffle draws \<open>rs i\<close> for position \<open>i\<close>; \<open>fill\<close> moves the heads of the buckets into the
  \<open>left\<close> free places of the buffer, starting at bucket \<open>j\<close>, and reports whether the loop was left by \<^verbatim>\<open>break\<close>.
\<close>

definition swap :: "nat \<Rightarrow> nat \<Rightarrow> 'a list \<Rightarrow> 'a list" where
  "swap i j xs = xs[i := xs ! j, j := xs ! i]"

fun shuffle :: "(nat \<Rightarrow> nat) \<Rightarrow> nat \<Rightarrow> 'a list \<Rightarrow> 'a list" where
  "shuffle rs 0 xs = xs"
| "shuffle rs (Suc i) xs = shuffle rs i (swap (Suc i) (rs (Suc i) mod length xs) xs)"

fun fill :: "nat \<Rightarrow> nat \<Rightarrow> Node list list \<Rightarrow> Node list \<times> bool" where
  "fill 0 j buckets = ([], False)"
| "fill (Suc left) j buckets =
     (let b = buckets ! j;
          buckets1 = (if length b = 1 then take j buckets @ drop (Suc j) buckets else buckets[j := tl b])
      in if buckets1 = [] then ([hd b], True)
         else (case fill left (Suc j mod length buckets1) buckets1 of (ns, brk) \<Rightarrow> (hd b # ns, brk)))"

text \<open>What is written to the buffer of length \<open>len\<close>, and the returned number.\<close>

definition ReadRandomNodes :: "(nat \<Rightarrow> nat) \<Rightarrow> nat \<Rightarrow> Table \<Rightarrow> Node list \<times> nat" where
  "ReadRandomNodes rs len tab =
     (if \<not> tab_initDone tab then ([], 0)
      else
        (let buckets = filter (\<lambda>es. es \<noteq> []) (map bk_entries (tab_buckets tab))
         in if buckets = [] then ([], 0)
            else (case fill len 0 (shuffle rs (length buckets - 1) buckets) of
                    (ns, brk) \<Rightarrow> (ns, if brk then length ns else len + 1))))"

text \<open>The distance of a node, and the insertion behind the nodes that are not farther away.\<close>

definition node_dist :: "Hash \<Rightarrow> Node \<Rightarrow> nat" where
  "node_dist target n = dist target (nd_sha n)"

fun insert_after :: "('a \<Rightarrow> nat) \<Rightarrow> 'a \<Rightarrow> 'a list \<Rightarrow> 'a list" where
  "insert_after d x [] = [x]"
| "insert_after d x (y # ys) = (if d y \<le> d x then y # insert_after d x ys else x # y # ys)"

text \<open>The nodes that the answers add: those whose identifier has not been seen.\<close>

fun news :: "NodeID list \<Rightarrow> Node option list \<Rightarrow> Node list" where
  "news seen [] = []"
| "news seen (None # r) = news seen r"
| "news seen (Some n # r) = (if nd_ID n \<in> set seen then news seen r else n # news (nd_ID n # seen) r)"

definition hash_sized :: "Hash \<Rightarrow> Node list \<Rightarrow> bool" where
  "hash_sized target ns \<longleftrightarrow> (\<forall>n \<in> set ns. length (nd_sha n) = length target)"

text \<open>The table a lookup starts from: that of the refresh when it is asked for and the table has no entries.\<close>

definition lookup_start :: "bool \<Rightarrow> Table \<Rightarrow> Table \<Rightarrow> Table" where
  "lookup_start refreshIfEmpty tab refreshed =
     (if refreshIfEmpty \<and> concat (map bk_entries (tab_buckets tab)) = [] then refreshed else tab)"

text \<open>The answers name nodes of \<open>S\<close>, with hashes of the length of the target.\<close>

definition replies_ok :: "Hash \<Rightarrow> NodeID set \<Rightarrow> Node option list list \<Rightarrow> bool" where
  "replies_ok target S replies \<longleftrightarrow>
     (\<forall>r \<in> set replies. \<forall>n. Some n \<in> set r \<longrightarrow> nd_ID n \<in> S \<and> length (nd_sha n) = length target)"

subsection \<open>The ordered list\<close>

lemma length_insert_after [simp]: "length (insert_after d x ys) = Suc (length ys)"
  by (induction ys) auto

lemma mset_insert_after [simp]: "mset (insert_after d x ys) = add_mset x (mset ys)"
  by (induction ys) auto

lemma set_insert_after [simp]: "set (insert_after d x ys) = insert x (set ys)"
  by (induction ys) auto

lemma insert_after_eq:
  "insert_after d x ys =
    take (length (takeWhile (\<lambda>y. d y \<le> d x) ys)) ys @ x # drop (length (takeWhile (\<lambda>y. d y \<le> d x) ys)) ys"
  by (induction ys) auto

lemma sorted_insert_after: "sorted (map d ys) \<Longrightarrow> sorted (map d (insert_after d x ys))"
  by (induction ys) (auto simp: order_trans)

lemma filter_insert_after:
  "sorted (map d ys) \<Longrightarrow>
    filter (\<lambda>y. k = d y) (insert_after d x ys) = filter (\<lambda>y. k = d y) ys @ (if k = d x then [x] else [])"
proof (induction ys)
  case (Cons y ys)
  have "\<not> d y \<le> d x \<Longrightarrow> k = d x \<Longrightarrow> filter (\<lambda>z. k = d z) (y # ys) = []"
    using Cons.prems by (auto simp: filter_empty_conv)
  then show ?case using Cons by auto
qed simp

lemma sort_key_snoc: "sort_key d (xs @ [x]) = insert_after d x (sort_key d xs)"
proof (rule properties_for_sort_key)
  show "mset (insert_after d x (sort_key d xs)) = mset (xs @ [x])" by simp
  show "sorted (map d (insert_after d x (sort_key d xs)))" by (simp add: sorted_insert_after)
  have "filter (\<lambda>z. d y = d z) (sort_key d xs) = filter (\<lambda>z. d y = d z) xs" for y
    using sort_key_stable [of d "d y" xs] by (simp add: eq_commute)
  then show "filter (\<lambda>z. d y = d z) (insert_after d x (sort_key d xs)) = filter (\<lambda>z. d y = d z) (xs @ [x])" for y
    by (simp add: filter_insert_after)
qed

lemma take_insert_after: "take k (insert_after d x (take k ys)) = take k (insert_after d x ys)"
proof (induction ys arbitrary: k)
  case (Cons y ys)
  show ?case
  proof (cases k)
    case (Suc j)
    have "take j (y # take j ys) = take j (y # ys)" by (cases j) (simp_all add: take_Cons')
    then show ?thesis using Cons.IH [of j] Suc by simp
  qed simp
qed simp

lemma push_insert:
  assumes s: "sorted (map (node_dist target) es)" and len: "length es \<le> k" and h: "hash_sized target (n # es)"
  shows "push target k n es = take k (insert_after (node_dist target) n es)"
proof -
  let ?d = "node_dist target"
  let ?P = "\<lambda>e. ?d e \<le> ?d n"
  define m where "m = length (takeWhile ?P es)"
  have m: "m \<le> length es" by (simp add: m_def length_takeWhile_le)
  have f: "distcmp target (nd_sha (es ! i)) (nd_sha n) > 0 \<longleftrightarrow> ?d n < ?d (es ! i)" if "i < length es" for i
    using distcmp_dist(1) [of "nd_sha (es ! i)" target "nd_sha n"] h that by (simp add: hash_sized_def node_dist_def)
  have mono: "?d (es ! i) \<le> ?d (es ! j)" if "i \<le> j" "j < length es" for i j
    using s that by (simp add: sorted_iff_nth_mono)
  have below: "?d (es ! i) \<le> ?d n" if "i < m" for i
    using that nth_mem [of i "takeWhile ?P es"] set_takeWhileD [of "takeWhile ?P es ! i" ?P es]
    by (simp add: m_def takeWhile_nth)
  have above: "?d n < ?d (es ! i)" if "m \<le> i" "i < length es" for i
  proof -
    have "m < length es" using that by simp
    then have "\<not> ?P (es ! m)" unfolding m_def by (rule nth_length_takeWhile)
    with mono [OF that] show ?thesis by simp
  qed
  have ix: "go_search (\<lambda>i. distcmp target (nd_sha (es ! i)) (nd_sha n) > 0) 0 (length es) = m"
  proof (rule go_search_unique)
    show "mono_pred (\<lambda>i. distcmp target (nd_sha (es ! i)) (nd_sha n) > 0) (length es)"
      unfolding mono_pred_def using f mono by (metis le_less_trans less_le_trans)
    show "\<forall>i < m. \<not> distcmp target (nd_sha (es ! i)) (nd_sha n) > 0" using f below m by (metis less_le_trans not_le)
    show "\<forall>i. m \<le> i \<longrightarrow> i < length es \<longrightarrow> distcmp target (nd_sha (es ! i)) (nd_sha n) > 0" using f above by blast
  qed (rule m)
  show ?thesis
  proof (cases "length es < k")
    case True
    then show ?thesis using m unfolding push_def ix insert_after_eq m_def [symmetric] by (simp add: Let_def)
  next
    case False
    then have "length es = k" using len by simp
    then show ?thesis using m unfolding push_def ix insert_after_eq m_def [symmetric]
      by (cases "m = k") (simp_all add: Let_def take_Cons' min_absorb2)
  qed
qed

lemma fold_push:
  assumes "hash_sized target (init @ ns)"
  shows "fold (push target k) ns (take k (sort_key (node_dist target) init)) =
    take k (sort_key (node_dist target) (init @ ns))"
  using assms
proof (induction ns arbitrary: init)
  case (Cons n ns)
  let ?d = "node_dist target"
  have h: "hash_sized target (n # take k (sort_key ?d init))"
    using Cons.prems set_take_subset [of k "sort_key ?d init"] by (auto simp: hash_sized_def)
  have "sorted (map ?d (take k (sort_key ?d init)))" by (simp add: sorted_wrt_take flip: take_map)
  then have "push target k n (take k (sort_key ?d init)) = take k (insert_after ?d n (take k (sort_key ?d init)))"
    by (rule push_insert [OF _ _ h]) simp
  also have "\<dots> = take k (sort_key ?d (init @ [n]))" by (simp add: take_insert_after sort_key_snoc)
  finally show ?case using Cons.IH [of "init @ [n]"] Cons.prems by simp
qed simp

lemma closest_sorted:
  assumes "hash_sized target (concat (map bk_entries (tab_buckets tab)))"
  shows "closest target k tab = take k (sort_key (node_dist target) (concat (map bk_entries (tab_buckets tab))))"
  using fold_push [of target "[]"] assms by (simp add: closest_def)

lemma table_hash_sized:
  assumes "table_typed (\<lambda>n. length (nd_sha n) = 32) tab" "length target = 32"
  shows "hash_sized target (concat (map bk_entries (tab_buckets tab)))"
proof -
  have "set (concat (map bk_entries (tab_buckets tab))) \<subseteq> set (table_nodes tab)"
    by (auto simp: table_nodes_def bucket_nodes_def)
  then show ?thesis using table_typed_nodes [OF assms(1)] assms(2) by (auto simp: hash_sized_def)
qed

lemma table_typed_mono:
  assumes "table_typed Q tab" "\<And>n. Q n \<Longrightarrow> Q' n"
  shows "table_typed Q' tab"
  using assms unfolding table_typed_def bucket_wf_def by blast

lemma known_table_sized:
  "table_wf H tab \<Longrightarrow> table_typed (\<lambda>n. length (nd_sha n) = 32) tab"
  "table_typed (known_node H) tab \<Longrightarrow> table_typed (\<lambda>n. length (nd_sha n) = 32) tab"
proof -
  show "table_wf H tab \<Longrightarrow> table_typed (\<lambda>n. length (nd_sha n) = 32) tab"
    unfolding table_wf_def by (erule table_typed_mono) (rule fresh_nodes.sha_size)
  show "table_typed (known_node H) tab \<Longrightarrow> table_typed (\<lambda>n. length (nd_sha n) = 32) tab"
    by (erule table_typed_mono) (rule known_nodes.sha_size)
qed

subsection \<open>Lookups\<close>

lemma receive_eq:
  "receive target r st =
    st\<lparr>lk_seen := rev (map nd_ID (news (lk_seen st) r)) @ lk_seen st,
       lk_result := fold (push target bucketSize) (news (lk_seen st) r) (lk_result st)\<rparr>"
  by (induction target r st rule: receive.induct) simp_all

lemma news_append: "news seen (r @ r') = news seen r @ news (rev (map nd_ID (news seen r)) @ seen) r'"
  by (induction seen r rule: news.induct) simp_all

lemma set_news: "set (news seen r) \<subseteq> {n. Some n \<in> set r}"
  by (induction seen r rule: news.induct) auto

lemma distinct_news: "distinct (map nd_ID (news seen r))" "nd_ID ` set (news seen r) \<inter> set seen = {}"
  by (induction seen r rule: news.induct) auto

lemma ask_loop_ok:
  assumes "ask_loop ns asked p = (asked', p')" "distinct asked"
  shows "\<exists>new. asked' = new @ asked \<and> distinct asked' \<and> set new \<subseteq> nd_ID ` set ns \<and> p' = p + length new"
    and "p' = 0 \<Longrightarrow> nd_ID ` set ns \<subseteq> set asked'"
proof -
  show "\<exists>new. asked' = new @ asked \<and> distinct asked' \<and> set new \<subseteq> nd_ID ` set ns \<and> p' = p + length new"
    using assms
  proof (induction ns asked p rule: ask_loop.induct)
    case (2 n ns asked p)
    consider "\<not> p < alpha" | "p < alpha" "nd_ID n \<in> set asked" | "p < alpha" "nd_ID n \<notin> set asked" by blast
    then show ?case
    proof cases
      case 3
      then obtain new where "asked' = new @ nd_ID n # asked" "distinct asked'" "set new \<subseteq> nd_ID ` set ns" "p' = Suc p + length new"
        using 2(2) [of] 2(3,4) by auto
      then show ?thesis by (intro exI [of _ "new @ [nd_ID n]"]) auto
    qed (use 2 in auto)
  qed simp
  show "p' = 0 \<Longrightarrow> nd_ID ` set ns \<subseteq> set asked'"
    using assms(1)
  proof (induction ns asked p rule: ask_loop.induct)
    case (2 n ns asked p)
    have mono: "p0 \<le> snd (ask_loop ms a p0)" for ms a p0
      by (induction ms a p0 rule: ask_loop.induct) auto
    have keep: "set a \<subseteq> set (fst (ask_loop ms a p0))" for ms a p0
      by (induction ms a p0 rule: ask_loop.induct) auto
    have "p = 0" using mono [of p "n # ns" asked] 2(3,4) by simp
    moreover have "nd_ID n \<in> set asked"
    proof (rule ccontr)
      assume "nd_ID n \<notin> set asked"
      then have "ask_loop ns (nd_ID n # asked) (Suc p) = (asked', p')" using 2(4) \<open>p = 0\<close> by (simp add: alpha_def)
      then show False using mono [of "Suc p" ns "nd_ID n # asked"] 2(3) by simp
    qed
    ultimately show ?case using 2(1,3,4) keep [of asked ns p] by (auto simp: alpha_def)
  qed simp
qed

lemma sort_take_set: "set (take k (sort_key d xs)) \<subseteq> set xs"
  using set_take_subset [of k "sort_key d xs"] by simp

lemma ask_ok:
  assumes "finite S" "distinct (lk_asked st)" "nd_ID ` set (lk_result st) \<subseteq> S"
  shows "lk_result (ask st) = lk_result st" "lk_seen (ask st) = lk_seen st" "distinct (lk_asked (ask st))"
    and "card (S - set (lk_asked (ask st))) + lk_pending (ask st) = card (S - set (lk_asked st)) + lk_pending st"
    and "set (lk_asked st) \<subseteq> set (lk_asked (ask st))" "set (lk_asked (ask st)) \<subseteq> set (lk_asked st) \<union> S"
    and "lk_pending (ask st) = 0 \<Longrightarrow> nd_ID ` set (lk_result st) \<subseteq> set (lk_asked (ask st))"
proof -
  obtain asked p where l: "ask_loop (lk_result st) (lk_asked st) (lk_pending st) = (asked, p)"
    by (cases "ask_loop (lk_result st) (lk_asked st) (lk_pending st)")
  then have a: "ask st = st\<lparr>lk_asked := asked, lk_pending := p\<rparr>" by (simp add: ask_def)
  obtain new where new: "asked = new @ lk_asked st" "distinct asked" "set new \<subseteq> nd_ID ` set (lk_result st)"
    "p = lk_pending st + length new"
    using ask_loop_ok(1) [OF l assms(2)] by blast
  show "lk_result (ask st) = lk_result st" "lk_seen (ask st) = lk_seen st" "distinct (lk_asked (ask st))"
    using new(2) by (simp_all add: a)
  show "set (lk_asked st) \<subseteq> set (lk_asked (ask st))" "set (lk_asked (ask st)) \<subseteq> set (lk_asked st) \<union> S"
    using new(1,3) assms(3) by (auto simp: a)
  show "lk_pending (ask st) = 0 \<Longrightarrow> nd_ID ` set (lk_result st) \<subseteq> set (lk_asked (ask st))"
    using ask_loop_ok(2) [OF l assms(2)] by (simp add: a)
  have sub: "set new \<subseteq> S - set (lk_asked st)" using new(1-3) assms(3) by auto
  have "S - set asked = (S - set (lk_asked st)) - set new" using new(1) by auto
  moreover have "card (set new) = length new" using new(1,2) distinct_card by auto
  ultimately have "card (S - set asked) + length new = card (S - set (lk_asked st))"
    using card_Diff_subset [OF finite_set sub] card_mono [OF _ sub] assms(1) by simp
  then show "card (S - set (lk_asked (ask st))) + lk_pending (ask st) = card (S - set (lk_asked st)) + lk_pending st"
    using new(4) by (simp add: a)
qed

lemma lookup_loop_ok:
  assumes "finite S" "hash_sized target base" "nd_ID ` set base \<subseteq> S" "replies_ok target S replies"
    and "lk_result st = take bucketSize (sort_key (node_dist target) base)" "distinct (lk_asked st)"
    and "card (S - set (lk_asked st)) + lk_pending st \<le> length replies"
  shows "\<exists>used rest st'. replies = used @ rest \<and> lookup_loop target replies st = Some st'
    \<and> lk_result st' = take bucketSize (sort_key (node_dist target) (base @ news (lk_seen st) (concat used)))
    \<and> nd_ID ` set (lk_result st') \<subseteq> set (lk_asked st') \<and> distinct (lk_asked st')
    \<and> set (lk_asked st) \<subseteq> set (lk_asked st') \<and> set (lk_asked st') \<subseteq> set (lk_asked st) \<union> S"
  using assms(2-)
proof (induction replies arbitrary: base st)
  case Nil
  have "nd_ID ` set (lk_result st) \<subseteq> S" using Nil.prems(2,4) sort_take_set [of bucketSize "node_dist target" base] by auto
  note a = ask_ok [OF assms(1) Nil.prems(5) this]
  have "lk_pending (ask st) = 0" using a(4) Nil.prems(6) by simp
  then show ?case using a Nil.prems(4) by simp
next
  case (Cons r replies)
  have "nd_ID ` set (lk_result st) \<subseteq> S" using Cons.prems(2,4) sort_take_set [of bucketSize "node_dist target" base] by auto
  note a = ask_ok [OF assms(1) Cons.prems(5) this]
  show ?case
  proof (cases "lk_pending (ask st) = 0")
    case True
    then show ?thesis using a Cons.prems(4) by (intro exI [of _ "[]"] exI [of _ "r # replies"] exI [of _ "ask st"]) simp
  next
    case False
    let ?new = "news (lk_seen st) r"
    define st2 where "st2 = (let st2 = receive target r (ask st) in st2\<lparr>lk_pending := lk_pending st2 - 1\<rparr>)"
    have step: "lookup_loop target (r # replies) st = lookup_loop target replies st2"
      using False by (simp add: st2_def Let_def)
    have new: "hash_sized target ?new" "nd_ID ` set ?new \<subseteq> S"
      using set_news [of "lk_seen st" r] Cons.prems(3) by (auto simp: replies_ok_def hash_sized_def)
    have h: "hash_sized target (base @ ?new)" using new(1) Cons.prems(1) by (auto simp: hash_sized_def)
    have seen2: "lk_seen st2 = rev (map nd_ID ?new) @ lk_seen st" using a(2) by (simp add: st2_def receive_eq Let_def)
    have res2: "lk_result st2 = take bucketSize (sort_key (node_dist target) (base @ ?new))"
      using fold_push [OF h, of bucketSize] a(1,2) Cons.prems(4) by (simp add: st2_def receive_eq Let_def)
    have asked2: "lk_asked st2 = lk_asked (ask st)" and pend2: "lk_pending st2 = lk_pending (ask st) - 1"
      by (simp_all add: st2_def receive_eq Let_def)
    have todo: "card (S - set (lk_asked st2)) + lk_pending st2 \<le> length replies"
      using a(4) Cons.prems(6) False unfolding asked2 pend2 by simp
    have base2: "nd_ID ` set (base @ ?new) \<subseteq> S" using new(2) Cons.prems(2) by auto
    have rep2: "replies_ok target S replies" using Cons.prems(3) by (simp add: replies_ok_def)
    have "distinct (lk_asked st2)" using a(3) asked2 by simp
    from Cons.IH [OF h base2 rep2 res2 this todo] obtain used rest st' where u: "replies = used @ rest"
      "lookup_loop target replies st2 = Some st'"
      "lk_result st' = take bucketSize (sort_key (node_dist target) ((base @ ?new) @ news (lk_seen st2) (concat used)))"
      "nd_ID ` set (lk_result st') \<subseteq> set (lk_asked st')" "distinct (lk_asked st')"
      "set (lk_asked st2) \<subseteq> set (lk_asked st')" "set (lk_asked st') \<subseteq> set (lk_asked st2) \<union> S" by blast
    have "(base @ ?new) @ news (lk_seen st2) (concat used) = base @ news (lk_seen st) (concat (r # used))"
      by (simp add: news_append seen2)
    then show ?thesis using u a(5,6) asked2 step
      by (intro exI [of _ "r # used"] exI [of _ rest] exI [of _ st'] conjI) auto
  qed
qed

subsection \<open>Random nodes\<close>

lemma mset_shuffle: "i < length xs \<Longrightarrow> mset (shuffle rs i xs) = mset xs"
proof (induction rs i xs rule: shuffle.induct)
  case (2 rs i xs)
  have "0 < length xs" using 2(2) by linarith
  then have j: "rs (Suc i) mod length xs < length xs" by (rule mod_less_divisor)
  have "mset (swap (Suc i) (rs (Suc i) mod length xs) xs) = mset xs"
    unfolding swap_def by (rule mset_swap [OF j 2(2)])
  then show ?case using 2 by (simp add: swap_def)
qed simp

lemma mset_concat_eq: "mset xs = mset ys \<Longrightarrow> mset (concat xs) = mset (concat ys)"
  by (simp add: mset_concat flip: sum_mset_sum_list)

lemma fill_ok:
  assumes "\<forall>b \<in> set buckets. b \<noteq> []" "j < length buckets" "fill left j buckets = (ns, brk)"
  shows "mset ns \<subseteq># mset (concat buckets) \<and> length ns = min left (length (concat buckets))
    \<and> (brk \<longleftrightarrow> length (concat buckets) \<le> left)"
  using assms
proof (induction left j buckets arbitrary: ns brk rule: fill.induct)
  case (1 j buckets)
  then have "concat buckets \<noteq> []" by (cases buckets) auto
  then show ?case using 1 by auto
next
  case (2 left j buckets)
  define b where "b = buckets ! j"
  define bs1 where "bs1 = (if length b = 1 then take j buckets @ drop (Suc j) buckets else buckets[j := tl b])"
  have b: "b \<noteq> []" using 2(2,3) by (simp add: b_def)
  have split: "buckets = take j buckets @ b # drop (Suc j) buckets" using 2(3) by (simp add: b_def id_take_nth_drop)
  have m: "mset (concat buckets) = add_mset (hd b) (mset (concat bs1))"
  proof -
    have "mset (concat buckets) = mset (concat (take j buckets)) + mset b + mset (concat (drop (Suc j) buckets))"
      by (subst split) simp
    moreover have "mset (concat bs1) = mset (concat (take j buckets)) + mset (tl b) + mset (concat (drop (Suc j) buckets))"
    proof (cases "length b = 1")
      case True
      then have "tl b = []" by (cases b) auto
      then show ?thesis using True by (simp add: bs1_def)
    next
      case False
      then show ?thesis using 2(3) by (simp add: bs1_def upd_conv_take_nth_drop)
    qed
    moreover have "mset b = add_mset (hd b) (mset (tl b))" using b by (cases b) auto
    ultimately show ?thesis by simp
  qed
  then have len: "length (concat buckets) = Suc (length (concat bs1))" using size_mset by (metis size_add_mset)
  have ne: "\<forall>x \<in> set bs1. x \<noteq> []"
  proof
    fix x assume x: "x \<in> set bs1"
    show "x \<noteq> []"
    proof (cases "length b = 1")
      case True
      then show ?thesis using x 2(2) by (auto simp: bs1_def dest: in_set_takeD in_set_dropD)
    next
      case False
      then have "tl b \<noteq> []" using b by (cases b) auto
      then show ?thesis using x False 2(2) set_update_subset_insert [of buckets j "tl b"] by (auto simp: bs1_def)
    qed
  qed
  have step: "fill (Suc left) j buckets =
      (if bs1 = [] then ([hd b], True)
       else (case fill left (Suc j mod length bs1) bs1 of (ns, brk) \<Rightarrow> (hd b # ns, brk)))"
    by (simp only: fill.simps Let_def b_def bs1_def)
  show ?case
  proof (cases "bs1 = []")
    case True
    then have "(ns, brk) = ([hd b], True)" using 2(4) step by simp
    then show ?thesis using m len True by simp
  next
    case False
    obtain ns1 where f: "fill left (Suc j mod length bs1) bs1 = (ns1, brk)" "ns = hd b # ns1"
      using 2(4) False step by (cases "fill left (Suc j mod length bs1) bs1") simp
    have "mset ns1 \<subseteq># mset (concat bs1) \<and> length ns1 = min left (length (concat bs1)) \<and> (brk \<longleftrightarrow> length (concat bs1) \<le> left)"
      by (rule 2(1) [OF b_def bs1_def False ne _ f(1)]) (use False in simp)
    then show ?thesis using m len f(2) by simp
  qed
qed

lemma table_entries_distinct:
  assumes wf: "table_wf H tab"
  shows "distinct (map nd_ID (concat (map bk_entries (tab_buckets tab))))"
proof -
  have "distinct (map nd_ID (concat (map bk_entries (take k (tab_buckets tab)))))" if "k \<le> nBuckets" for k
    using that
  proof (induction k)
    case (Suc k)
    have k: "k < length (tab_buckets tab)" using Suc.prems table_wfD(2) [OF wf] by simp
    have wk: "bucket_wf (\<lambda>n. node_ok H n \<and> bucket_index tab (nd_sha n) = k) (tab_buckets tab ! k)"
      using table_wfD(3) [OF wf] Suc.prems by simp
    have "nd_ID n \<noteq> nd_ID n'"
      if n: "n \<in> set (concat (map bk_entries (take k (tab_buckets tab))))" and n': "n' \<in> set (bk_entries (tab_buckets tab ! k))" for n n'
    proof -
      obtain bk where "bk \<in> set (take k (tab_buckets tab))" "n \<in> set (bk_entries bk)" using n by auto
      then obtain i where i: "i < k" "n \<in> set (bk_entries (tab_buckets tab ! i))"
        by (auto simp: in_set_conv_nth [of bk])
      then have "node_ok H n \<and> bucket_index tab (nd_sha n) = i"
        using table_wfD(3) [OF wf, of i] Suc.prems by (auto simp: bucket_wf_iff)
      moreover have "node_ok H n' \<and> bucket_index tab (nd_sha n') = k" using wk n' by (auto simp: bucket_wf_iff)
      ultimately show ?thesis using i(1) by (auto simp: node_ok_def)
    qed
    then have "nd_ID ` set (concat (map bk_entries (take k (tab_buckets tab)))) \<inter> nd_ID ` set (bk_entries (tab_buckets tab ! k)) = {}"
      by blast
    moreover have "distinct (map nd_ID (bk_entries (tab_buckets tab ! k)))" using wk by (simp add: bucket_wf_iff)
    ultimately show ?case using Suc by (simp add: take_Suc_conv_app_nth [OF k])
  qed simp
  from this [of nBuckets] show ?thesis using table_wfD(2) [OF wf] by simp
qed

lemma total_entries: "length (concat (filter (\<lambda>es. es \<noteq> []) xs)) = length (concat xs)" "mset (concat (filter (\<lambda>es. es \<noteq> []) xs)) = mset (concat xs)"
  by (induction xs) auto

lemma Table_len_entries: "Table_len tab = length (concat (map bk_entries (tab_buckets tab)))"
  by (simp add: Table_len_def length_concat comp_def)

lemma ReadRandomNodes_ok:
  assumes "tab_initDone tab" "ReadRandomNodes rs len tab = (ns, n)"
  shows "mset ns \<subseteq># mset (concat (map bk_entries (tab_buckets tab)))"
    and "length ns = min len (Table_len tab)"
    and "n = (if Table_len tab \<le> len then Table_len tab else len + 1)"
proof -
  define buckets where "buckets = filter (\<lambda>es. es \<noteq> []) (map bk_entries (tab_buckets tab))"
  have total: "length (concat buckets) = Table_len tab" "mset (concat buckets) = mset (concat (map bk_entries (tab_buckets tab)))"
    unfolding buckets_def total_entries Table_len_entries by simp_all
  have "mset ns \<subseteq># mset (concat buckets) \<and> length ns = min len (length (concat buckets))
    \<and> n = (if length (concat buckets) \<le> len then length (concat buckets) else len + 1)"
  proof (cases "buckets = []")
    case True
    then show ?thesis using assms by (simp add: ReadRandomNodes_def buckets_def [symmetric])
  next
    case False
    define bs where "bs = shuffle rs (length buckets - 1) buckets"
    have m: "mset bs = mset buckets" unfolding bs_def using False by (intro mset_shuffle) (cases buckets; simp)
    have c: "mset (concat bs) = mset (concat buckets)" by (rule mset_concat_eq [OF m])
    have len: "length bs = length buckets" "length (concat bs) = length (concat buckets)"
      using arg_cong [OF m, of size] arg_cong [OF c, of size] by simp_all
    have "set bs = set buckets" using m by (rule mset_eq_setD)
    then have ne: "\<forall>b \<in> set bs. b \<noteq> []" by (simp add: buckets_def)
    have pos: "0 < length bs" using len(1) False by simp
    obtain ns1 brk where f: "fill len 0 bs = (ns1, brk)" by (cases "fill len 0 bs")
    have "ReadRandomNodes rs len tab = (ns1, if brk then length ns1 else len + 1)"
      using assms(1) False f unfolding ReadRandomNodes_def buckets_def [symmetric] Let_def bs_def by simp
    then have r: "ns = ns1" "n = (if brk then length ns1 else len + 1)" using assms(2) by simp_all
    show ?thesis using fill_ok [OF ne pos f] r c len(2) by auto
  qed
  then show "mset ns \<subseteq># mset (concat (map bk_entries (tab_buckets tab)))" "length ns = min len (Table_len tab)"
    "n = (if Table_len tab \<le> len then Table_len tab else len + 1)"
    unfolding total by simp_all
qed

lemma distinct_sub_mset: "distinct ys \<Longrightarrow> mset xs \<subseteq># mset ys \<Longrightarrow> distinct xs"
proof -
  assume d: "distinct ys" and s: "mset xs \<subseteq># mset ys"
  have "count (mset xs) a = (if a \<in> set xs then 1 else 0)" for a
  proof -
    have "count (mset xs) a \<le> count (mset ys) a" using s by (rule mset_subset_eq_count)
    moreover have "count (mset ys) a \<le> 1" using d by (simp add: distinct_count_atmost_1)
    ultimately have "count (mset xs) a = 0 \<or> count (mset xs) a = 1" by linarith
    then show ?thesis by (auto simp: count_eq_zero_iff)
  qed
  then show "distinct xs" unfolding distinct_count_atmost_1 by blast
qed

lemma lookup_start_closest:
  assumes "lookup_start refreshIfEmpty tab refreshed = tab'"
    and "closest target bucketSize tab' = take bucketSize (sort_key d (concat (map bk_entries (tab_buckets tab'))))"
  shows "(if closest target bucketSize tab \<noteq> [] \<or> \<not> refreshIfEmpty then closest target bucketSize tab
          else closest target bucketSize refreshed) = closest target bucketSize tab'"
proof (cases "refreshIfEmpty \<and> concat (map bk_entries (tab_buckets tab)) = []")
  case True
  then have "closest target bucketSize tab = []" unfolding closest_def by (metis fold_Nil id_apply)
  then show ?thesis using True assms(1) by (simp add: lookup_start_def)
next
  case False
  then have "tab' = tab" using assms(1) by (simp add: lookup_start_def split: if_splits)
  moreover have "closest target bucketSize tab' \<noteq> []" if "concat (map bk_entries (tab_buckets tab)) \<noteq> []"
    using that \<open>tab' = tab\<close> unfolding assms(2) by (metis length_0_conv length_sort length_take min_0R min.commute min_def
      bucketSize_def numeral_neq_zero)
  ultimately show ?thesis using False by auto
qed

text \<open>How often an identifier can stand in the result of a lookup.\<close>

lemma result_repeats:
  assumes r: "res = take k (sort_key d (base @ news [] rs))"
  shows "distinct (map nd_ID base) \<longrightarrow> (\<forall>i. count_list (map nd_ID res) i \<le> 2)"
    and "distinct (map nd_ID (base @ news [] rs)) \<longrightarrow> distinct (map nd_ID res)"
proof -
  have "mset res \<subseteq># mset (sort_key d (base @ news [] rs))"
    unfolding r by (metis append_take_drop_id mset_append mset_subset_eq_add_left)
  then have "mset res \<subseteq># mset (base @ news [] rs)" by simp
  then have sub: "mset (map nd_ID res) \<subseteq># mset (map nd_ID (base @ news [] rs))"
    unfolding mset_map by (rule image_mset_subseteq_mono)
  show "distinct (map nd_ID (base @ news [] rs)) \<longrightarrow> distinct (map nd_ID res)" using distinct_sub_mset [OF _ sub] by blast
  have one: "count_list xs i \<le> 1" if "distinct xs" for xs :: "NodeID list" and i
    using that distinct_count_atmost_1 [of xs] by (cases "i \<in> set xs") (auto simp: count_mset [symmetric])
  show "distinct (map nd_ID base) \<longrightarrow> (\<forall>i. count_list (map nd_ID res) i \<le> 2)"
  proof (intro impI allI)
    fix i assume "distinct (map nd_ID base)"
    then have "count_list (map nd_ID (base @ news [] rs)) i \<le> 2"
      using one [of "map nd_ID base" i] one [OF distinct_news(1) [of "[]" rs], of i] by simp
    then show "count_list (map nd_ID res) i \<le> 2"
      using mset_subset_eq_count [OF sub, of i] unfolding count_mset by linarith
  qed
qed

subsection \<open>Properties\<close>

text \<open>
  C22: \<^verbatim>\<open>closest\<close>, which keeps a bounded ordered list by binary search and copying, is the first \<open>k\<close> elements
  of the table's entries sorted by their distance to the target.
\<close>

theorem closest_is_sort:
  assumes "table_typed (\<lambda>n. length (nd_sha n) = 32) tab" "length target = 32"
  shows "closest target k tab = take k (sort_key (node_dist target) (concat (map bk_entries (tab_buckets tab))))"
  by (rule closest_sorted [OF table_hash_sized [OF assms]])

text \<open>
  C12: a lookup ends, with or without the refresh of an empty table. If all answers speak of nodes from a finite set \<open>S\<close>, as many
  answers as \<open>S\<close> has nodes are enough. The result is the first 16 elements, in the order of their distance to the target, of the list of
  the table's entries followed by the nodes the answers brought, each taken at its first mention. Every node of the result has been asked
  (or is the local node) and none was asked twice. A node of the table that an answer names stands in that list twice: when the table has
  no identifier twice, the result has none more than twice, and none twice when the answers name no node of the table.
\<close>

theorem lookup_finds_closest:
  assumes start: "tab' = lookup_start refreshIfEmpty tab refreshed" and base: "base = concat (map bk_entries (tab_buckets tab'))"
    and typed: "table_typed (\<lambda>n. length (nd_sha n) = 32) tab'" and t: "length (keccak targetID) = 32"
    and S: "finite S" "nd_ID ` set base \<subseteq> S"
    and replies: "replies_ok (keccak targetID) S replies" "card (S - {nd_ID (tab_self tab)}) \<le> length replies"
  shows "\<exists>used rest st. replies = used @ rest \<and> lookup keccak targetID refreshIfEmpty tab refreshed replies = Some st
    \<and> lk_result st = take bucketSize (sort_key (node_dist (keccak targetID)) (base @ news [] (concat used)))
    \<and> nd_ID ` set (lk_result st) \<subseteq> set (lk_asked st) \<and> distinct (lk_asked st)
    \<and> (distinct (map nd_ID base) \<longrightarrow> (\<forall>i. count_list (map nd_ID (lk_result st)) i \<le> 2))
    \<and> (distinct (map nd_ID (base @ news [] (concat used))) \<longrightarrow> distinct (map nd_ID (lk_result st)))"
proof -
  let ?st = "\<lparr>lk_asked = [nd_ID (tab_self tab)], lk_seen = [], lk_pending = 0, lk_result = closest (keccak targetID) bucketSize tab'\<rparr>"
  have h: "hash_sized (keccak targetID) base" unfolding base by (rule table_hash_sized [OF typed t])
  note c' = closest_sorted [OF h [unfolded base], of bucketSize]
  then have c: "lk_result ?st = take bucketSize (sort_key (node_dist (keccak targetID)) base)" by (simp add: base)
  have "card (S - set (lk_asked ?st)) + lk_pending ?st \<le> length replies" using replies(2) by simp
  with lookup_loop_ok [OF S(1) h S(2) replies(1) c] obtain used rest st' where
    "replies = used @ rest" "lookup_loop (keccak targetID) replies ?st = Some st'"
    and r: "lk_result st' = take bucketSize (sort_key (node_dist (keccak targetID)) (base @ news [] (concat used)))"
    and "nd_ID ` set (lk_result st') \<subseteq> set (lk_asked st')" "distinct (lk_asked st')" by auto
  moreover have "lookup keccak targetID refreshIfEmpty tab refreshed replies = lookup_loop (keccak targetID) replies ?st"
    using lookup_start_closest [OF start [symmetric] c'] by (simp add: lookup_def Let_def)
  ultimately show ?thesis using result_repeats [OF r] by metis
qed

text \<open>
  C23: \<^verbatim>\<open>ReadRandomNodes\<close> writes as many nodes as fit, all of them of the table, and no identifier twice when the nodes carry the hash of
  their identifier. The number it returns is the number of nodes written when the table has no more than fit, and one too many otherwise.
\<close>

theorem read_random_nodes:
  assumes "tab_initDone tab" "ReadRandomNodes rs len tab = (ns, n)"
  shows "mset ns \<subseteq># mset (concat (map bk_entries (tab_buckets tab))) \<and> (table_wf H tab \<longrightarrow> distinct (map nd_ID ns))
    \<and> length ns = min len (Table_len tab) \<and> n = (if Table_len tab \<le> len then length ns else Suc len)"
proof -
  note ok = ReadRandomNodes_ok [OF assms]
  have "mset (map nd_ID ns) \<subseteq># mset (map nd_ID (concat (map bk_entries (tab_buckets tab))))"
    unfolding mset_map by (rule image_mset_subseteq_mono [OF ok(1)])
  then have "distinct (map nd_ID ns)" if "table_wf H tab"
    using distinct_sub_mset [OF table_entries_distinct [OF that]] by blast
  with ok show ?thesis by auto
qed

subsection \<open>Witnesses\<close>

definition reached_table :: Table where
  "reached_table = (fold (Table_add 0) [example_node 1, example_node 2] example_table)\<lparr>tab_initDone := True\<rparr>"

lemma example_table_empty: "empty_table example_table"
  by (simp add: empty_table_def example_table_def NewNode_def example_keccak_def)

lemma reached_table_wf: "table_wf (Keccak256 example_discover) reached_table"
proof -
  have "table_typed (node_ok (Keccak256 example_discover)) (fold (Table_add 0) [example_node 1, example_node 2] example_table)"
    by (rule fresh_nodes.adds_typed [OF empty_table_ok(1) [OF example_table_empty]]) (simp add: example_nodes)
  then show ?thesis by (simp add: table_wf_def reached_table_def)
qed

lemma reached_table_init: "tab_initDone reached_table"
  by (simp add: reached_table_def)

theorem closest_is_sort_witness:
  "table_wf (Keccak256 example_discover) reached_table
   \<and> closest zero_hash 2 reached_table =
       take 2 (sort_key (node_dist zero_hash) (concat (map bk_entries (tab_buckets reached_table))))"
  using closest_is_sort [OF known_table_sized(1) [OF reached_table_wf], of zero_hash 2] reached_table_wf by (simp add: zero_hash_def)

theorem lookup_finds_closest_witness:
  "\<exists>S replies. finite S \<and> replies_ok (example_keccak (example_node_id 7)) S replies
   \<and> (\<exists>used rest st. replies = used @ rest
        \<and> lookup example_keccak (example_node_id 7) True example_table reached_table replies = Some st
        \<and> nd_ID ` set (lk_result st) \<subseteq> set (lk_asked st))"
proof -
  let ?base = "concat (map bk_entries (tab_buckets reached_table))"
  define S where "S = insert (example_node_id 4) (nd_ID ` set ?base)"
  define replies where "replies = replicate (card S) [Some (example_node 4), None]"
  have fin: "finite S" by (simp add: S_def)
  have "length (nd_sha (example_node 4)) = 32" using example_nodes(1) [of 4] unfolding node_ok_def by blast
  moreover have "length (example_keccak (example_node_id 7)) = 32" by (simp add: example_keccak_def)
  ultimately have ok: "length (example_keccak (example_node_id 7)) = 32" "replies_ok (example_keccak (example_node_id 7)) S replies"
    by (simp_all add: replies_ok_def replies_def S_def example_nodes)
  have card: "card (S - {nd_ID (tab_self example_table)}) \<le> length replies"
    using card_mono [OF fin, of "S - {nd_ID (tab_self example_table)}"] by (auto simp: replies_def)
  have sub: "nd_ID ` set ?base \<subseteq> S" unfolding S_def by (rule subset_insertI)
  have "lookup_start True example_table reached_table = reached_table"
    by (simp add: lookup_start_def example_table_def newBucket_def)
  from lookup_finds_closest [where keccak = example_keccak and targetID = "example_node_id 7",
      OF this [symmetric] refl known_table_sized(1) [OF reached_table_wf] ok(1) fin sub ok(2) card]
  show ?thesis using fin ok(2) by blast
qed

theorem read_random_nodes_witness:
  "tab_initDone reached_table \<and> table_wf (Keccak256 example_discover) reached_table
   \<and> length (fst (ReadRandomNodes (\<lambda>i. i) 1 reached_table)) = min 1 (Table_len reached_table)"
  using read_random_nodes [OF reached_table_init, of "\<lambda>i. i" 1
      "fst (ReadRandomNodes (\<lambda>i. i) 1 reached_table)" "snd (ReadRandomNodes (\<lambda>i. i) 1 reached_table)"]
    reached_table_wf reached_table_init by simp

subsection \<open>Behaviours to know about\<close>

text \<open>
  The result of a lookup starts with nodes of the table that are not marked as seen: an answer that
  names one of them puts it into the result a second time.
\<close>

lemma lookup_repeats_node:
  assumes "length (nd_sha n) = length target"
  shows "lk_result (receive target [Some n] \<lparr>lk_asked = asked, lk_seen = [], lk_pending = p, lk_result = [n]\<rparr>) = [n, n]"
  using push_insert [of target "[n]" bucketSize n] assms by (simp add: hash_sized_def bucketSize_def)

end
