(* ===== verification/Spec2Isabelle.thy ===== *)
theory Spec2Isabelle
  imports Timestamps Statuses Bit_Vectors Lock_Maps Ldb_Batches Merkle_Upkeep Oplog_Handlers Raft_Serving Block_Sync Discover_Lookups
begin

text \<open>
  A verification of the core of the PTT.ai node (\<^verbatim>\<open>go-pttai-core\<close>).

  A node stores what its user and their friends do as operation logs: signed entries that name an
  object and an operation. Entities (the user, a profile, a friendship) have masters that sign
  entries to make them valid, and members that copy the logs from one another. Two nodes find out what
  the other one lacks by comparing Merkle trees over time.

  The parts and the theories that model them, from the bottom up:

  \<^item> \<open>Go_Errors\<close>, \<open>Prelude\<close>: error values, results (\<open>Ret\<close>, \<open>Fail\<close>, \<open>Panic\<close>), byte strings in Go's order,
    big-endian codecs, \<^verbatim>\<open>sort.Search\<close>. The errors, early returns, type and index panics of the modelled
    operations are branches of the model; a nil pointer in a place where every caller of the code puts a value is not.
  \<^item> \<open>Common_Utils\<close>: package \<^verbatim>\<open>common\<close>.
  \<^item> \<open>Timestamps\<close>, \<open>Statuses\<close>, \<open>Bit_Vectors\<close>, \<open>Lock_Maps\<close>, \<open>Base58\<close>, \<open>Ptt_Ids\<close>: package
    \<^verbatim>\<open>common/types\<close>. Shown are codec round trips, the order of encoded times, the nesting of
    hours, days, months and years, population counts, and the mutual exclusion and progress of the lock map under
    arbitrary interleavings.
  \<^item> \<open>Kv_Stores\<close>, \<open>Level_Db\<close>, \<open>Ldb_Batches\<close>: package \<^verbatim>\<open>pttdb\<close>, the key-value stores. LevelDB is a sorted list of
    entries with a fault oracle; a batch is applied at once or not at all. Shown are the guard by update time, convergence of
    guarded writes, isolation of tables, prefix iteration, and what indexed writes and deletes leave.
  \<^item> \<open>Merkle_Nodes\<close>, \<open>Merkle_Trees\<close>, \<open>Merkle_Upkeep\<close>: \<^verbatim>\<open>service/merkle*.go\<close>, the tree over time and the loop that keeps it up to date.
    Shown are that a summary is written along the whole path of an hour, that the list sent to a peer covers the
    time line, that pending hours are repaired and survive a restart, and that the comparison of two trees is exact.
  \<^item> \<open>Signing_Keys\<close>: packages \<^verbatim>\<open>key\<close> and \<^verbatim>\<open>key/bip32\<close>, and the key and signature helpers of \<^verbatim>\<open>service\<close>.
    The curve and the hash function are parameters with their documented laws.
  \<^item> \<open>Oplogs\<close>: \<^verbatim>\<open>service/oplog.go\<close>, entries, their signatures and their verification.
  \<^item> \<open>Oplog_Stores\<close>: the rest of \<^verbatim>\<open>service/oplog.go\<close> and \<^verbatim>\<open>oplog_utils.go\<close>: keys, saving, reading, deleting and listing
    entries, the choice between two versions of an entry and the integration of their signatures. The store refines a finite
    map from identifiers to entries, through the locale \<open>log_database\<close>.
  \<^item> \<open>Log_Signers\<close>: who signs and when an entry is valid: the masters of an entity
    (\<^verbatim>\<open>service/protocol_manager_utils_master.go\<close>, \<^verbatim>\<open>_oplog.go\<close>), and the user's keys, devices and their quorum (\<^verbatim>\<open>me\<close>).
    Two quorums of devices intersect in every reachable table of devices.
  \<^item> \<open>Oplog_Handlers\<close>: \<^verbatim>\<open>service/protocol_handle_oplogs.go\<close>, what a node does with the entries a peer sends. Nodes that handle the same
    versions in any order agree; only verified entries pass preprocessing, and which predecessors they can have is stated exactly.
  \<^item> \<open>Raft_Stores\<close>, \<open>Raft_Serving\<close>: \<^verbatim>\<open>me/raft_storage.go\<close> and \<^verbatim>\<open>me/protocol_raft*.go\<close>, the log by which the devices of a user agree
    on their number and weights. The storage refines a list of entries (locale \<open>command_refinement\<close>), and the loop applies
    every committed entry once.
  \<^item> \<open>Blocks\<close>, \<open>Block_Sync\<close>: \<^verbatim>\<open>service/block*.go\<close>, \<^verbatim>\<open>service/protocol_manager_utils_block.go\<close> and the handling of the blocks a
    peer sends. A content is cut, encoded by a Reed-Solomon code (a parameter) and stored as signed blocks. Shown are that it is read
    back as written (locale \<open>chunking\<close>, for texts and for media), that it reaches another node whatever the order of the messages, and
    that a node takes no block its creator has not signed.
  \<^item> \<open>Net_Addrs\<close>: \<^verbatim>\<open>p2p/netutil/net.go\<close>, addresses, networks and the bounded set that counts addresses per network. Two addresses share
    a place of the set exactly when \<^verbatim>\<open>SameNet\<close> holds; the contract of the set is the locale \<open>address_counter\<close>, interpreted for the table
    and for a bucket.
  \<^item> \<open>Discover_Nodes\<close>, \<open>Discover_Dbs\<close>, \<open>Discover_Tables\<close>, \<open>Discover_Lookups\<close>: \<^verbatim>\<open>p2p/discover\<close>, how a node finds others: node identifiers
    and their exclusive-or distance, the database of known nodes, the table of buckets and the iterative lookup. Answers of other nodes,
    the clock and random numbers are arguments; what the goroutines do to the table and the database is a list of operations in any order,
    refreshes from stored nodes, the saving of live nodes, pongs and expiry included. The nodes a table holds are given by a predicate; what
    it must satisfy is the locale \<open>node_class\<close>, and \<open>stored_class\<close> for nodes that go through the database, interpreted for the nodes with the
    hash of their identifier, for those a database may return and for those with a fixed address. Shown are that every reachable table is
    well-formed, that the limits on addresses hold as long as identifiers keep their addresses, that expiry deletes exactly what is due,
    and that a lookup ends with the nearest of what its table and the answers listed.

  Correspondence. A struct is a record with the struct's fields under a prefix, a method is a function of
  the same name that returns its results and the updated receiver, a database is threaded through, and a
  deferred function is applied to the state at every return. Records are values: that two places share one object (a node of the discovery
  table that an answer also refers to) is not modelled, and nil and empty slices are told apart only where the code does. Loops over slices are structural recursions;
  other loops are functions with a termination proof; no fuel is used except for the bounded retries
  the code itself counts (\<^verbatim>\<open>NIterLock\<close>, \<^verbatim>\<open>MaxIterDeriveKeyBIP32\<close>). JSON, the clock, random bytes, map iteration order and
  the cryptographic library are parameters; where a theorem needs a law about them, the law is a
  hypothesis and the theorem's witness instantiates it.

  Not modelled: sockets, the UDP packets of the discovery, encrypted transports and NAT traversal, the RPC servers, logging, configuration
  files, and the goroutine scheduling around them, which are input and output through third-party libraries; and the objects, members,
  profiles and friendships of the upper layers, which call the operations modelled here.
\<close>

end
